(* ===== verification/Go_Prelude.thy ===== *)
theory Go_Prelude
  imports Main "HOL-Library.Word" "HOL-Library.AList"
begin

text \<open>
  Shared vocabulary of the development: Go's fixed-width integers, results that are either an
  error or a value, byte strings and the little-endian codec of \<^verbatim>\<open>encoding/binary\<close>, and the
  generic list lemmas the components use.

  Conventions used throughout.
  \<^item> A Go \<open>string\<close> is a list of bytes and is modelled as HOL's \<open>string\<close> (a \<open>char\<close> is exactly
    one byte); a raw \<open>[]byte\<close> buffer is a list of \<open>8 word\<close>.
  \<^item> Lengths, offsets and indices of slices are \<open>nat\<close>: Go bounds them by the address space.
    Where the code computes with an \<open>int\<close> that can wrap, the 64-bit wrap-around is written
    out with \<open>wrap64\<close>.
  \<^item> A function returning \<open>(T, error)\<close> returns \<open>error + T\<close>: \<open>Inl\<close> is the error return.
  \<^item> A sentinel such as \<open>-1\<close> of \<open>strings.Index\<close> is \<open>None\<close>.
\<close>

unbundle bit_operations_syntax

named_theorems go_split \<open>case splits for results and options\<close>
named_theorems codec \<open>encode / decode equations\<close>

section \<open>Machine integers\<close>

type_synonym u8 = "8 word"
type_synonym u16 = "16 word"
type_synonym u32 = "32 word"
type_synonym u64 = "64 word"

definition max_int :: int where
  "max_int = 9223372036854775807"

definition wrap64 :: "int \<Rightarrow> int" where
  "wrap64 x = (x + 9223372036854775808) mod 18446744073709551616 - 9223372036854775808"

text \<open>Go's integer division and remainder truncate towards zero.\<close>

definition go_div :: "int \<Rightarrow> int \<Rightarrow> int" where
  "go_div a b = sgn a * sgn b * (\<bar>a\<bar> div \<bar>b\<bar>)"

definition go_rem :: "int \<Rightarrow> int \<Rightarrow> int" where
  "go_rem a b = a - b * go_div a b"

lemma wrap64_id [simp]: "- 9223372036854775808 \<le> x \<Longrightarrow> x \<le> max_int \<Longrightarrow> wrap64 x = x"
  by (simp add: wrap64_def max_int_def)

lemma wrap64_range: "- 9223372036854775808 \<le> wrap64 x \<and> wrap64 x \<le> max_int"
  by (simp add: wrap64_def max_int_def)

lemma go_div_nonneg [simp]: "0 \<le> a \<Longrightarrow> 0 < b \<Longrightarrow> go_div a b = a div b"
  by (cases "a = 0") (simp_all add: go_div_def)

lemma go_rem_nonneg [simp]: "0 \<le> a \<Longrightarrow> 0 < b \<Longrightarrow> go_rem a b = a mod b"
  by (simp add: go_rem_def minus_mult_div_eq_mod)

lemma int_plus_uint_le [simp]: "int p + uint (a :: 'a::len word) \<le> int l \<longleftrightarrow> p + unat a \<le> l"
proof -
  have "uint a = int (unat a)" by simp
  then show ?thesis by linarith
qed

section \<open>Results\<close>

fun and_then :: "'e + 'a \<Rightarrow> ('a \<Rightarrow> 'e + 'b) \<Rightarrow> 'e + 'b" where
  "and_then (Inl e) f = Inl e"
| "and_then (Inr x) f = f x"

lemma and_then_cong [fundef_cong]:
  "r = r' \<Longrightarrow> (\<And>x. r' = Inr x \<Longrightarrow> f x = f' x) \<Longrightarrow> and_then r f = and_then r' f'"
  by (cases r') simp_all

lemma and_then_eq_Inr [simp]:
  "and_then r f = Inr y \<longleftrightarrow> (\<exists>x. r = Inr x \<and> f x = Inr y)"
  by (cases r) auto

lemma and_then_eq_Inl:
  "and_then r f = Inl e \<longleftrightarrow> r = Inl e \<or> (\<exists>x. r = Inr x \<and> f x = Inl e)"
  by (cases r) auto

section \<open>Bytes, strings and the little-endian codec\<close>

definition byte_of_char :: "char \<Rightarrow> u8" where
  "byte_of_char c = word_of_nat (of_char c)"

definition char_of_byte :: "u8 \<Rightarrow> char" where
  "char_of_byte b = char_of (unat b)"

definition bytes_of_string :: "string \<Rightarrow> u8 list" where
  "bytes_of_string = map byte_of_char"

definition string_of_bytes :: "u8 list \<Rightarrow> string" where
  "string_of_bytes = map char_of_byte"

lemma unat_byte_of_char: "unat (byte_of_char c) = of_char c"
proof -
  have "of_char c < (256::nat)" by (rule nat_of_char_less_256)
  then show ?thesis by (simp add: byte_of_char_def unat_of_nat)
qed

lemma char_of_byte_of_char [simp, codec]: "char_of_byte (byte_of_char c) = c"
  by (simp add: char_of_byte_def unat_byte_of_char)

lemma byte_of_char_of_byte [simp, codec]: "byte_of_char (char_of_byte b) = b"
proof -
  have "unat b < 256" using unsigned_less [of b] by simp
  then have "unat (byte_of_char (char_of_byte b)) = unat b"
    by (simp add: unat_byte_of_char char_of_byte_def)
  then show ?thesis by (simp add: word_unat_eq_iff)
qed

lemma string_of_bytes_of_string [simp, codec]: "string_of_bytes (bytes_of_string s) = s"
  by (simp add: string_of_bytes_def bytes_of_string_def comp_def)

lemma bytes_of_string_of_bytes [simp, codec]: "bytes_of_string (string_of_bytes s) = s"
  by (simp add: string_of_bytes_def bytes_of_string_def comp_def)

lemma length_bytes_of_string [simp]: "length (bytes_of_string s) = length s"
  by (simp add: bytes_of_string_def)

lemma length_string_of_bytes [simp]: "length (string_of_bytes s) = length s"
  by (simp add: string_of_bytes_def)

fun le_enc :: "nat \<Rightarrow> nat \<Rightarrow> u8 list" where
  "le_enc 0 n = []"
| "le_enc (Suc k) n = word_of_nat n # le_enc k (n div 256)"

fun le_dec :: "u8 list \<Rightarrow> nat" where
  "le_dec [] = 0"
| "le_dec (b # bs) = unat b + 256 * le_dec bs"

lemma length_le_enc [simp]: "length (le_enc k n) = k"
  by (induction k arbitrary: n) auto

lemma le_dec_enc_mod: "le_dec (le_enc k n) = n mod 256 ^ k"
proof (induction k arbitrary: n)
  case 0
  then show ?case by simp
next
  case (Suc k)
  have "le_dec (le_enc (Suc k) n) = n mod 256 + 256 * (n div 256 mod 256 ^ k)"
    by (simp add: Suc unat_of_nat)
  also have "\<dots> = n mod (256 * 256 ^ k)"
    by (simp add: mod_mult2_eq)
  finally show ?case by simp
qed

lemma le_dec_enc [simp, codec]: "n < 256 ^ k \<Longrightarrow> le_dec (le_enc k n) = n"
  by (simp add: le_dec_enc_mod)

lemma le_dec_bound: "le_dec bs < 256 ^ length bs"
proof (induction bs)
  case Nil
  then show ?case by simp
next
  case (Cons b bs)
  have "unat b < 256" using unsigned_less [of b] by simp
  moreover have "le_dec bs + 1 \<le> 256 ^ length bs" using Cons by simp
  then have "256 * (le_dec bs + 1) \<le> 256 * 256 ^ length bs" by (rule mult_le_mono2)
  ultimately show ?case by (simp only: le_dec.simps list.size power_Suc power_add) simp
qed

lemma le_enc_dec [simp, codec]: "length bs = k \<Longrightarrow> le_enc k (le_dec bs) = bs"
proof (induction bs arbitrary: k)
  case Nil
  then show ?case by simp
next
  case (Cons b bs)
  have "unat b < 256" using unsigned_less [of b] by simp
  have "(word_of_nat (unat b + 256 * le_dec bs) :: u8) = word_of_nat (unat b)"
    by (simp only: word_of_nat_eq_iff take_bit_eq_mod) simp
  then have "(word_of_nat (unat b + 256 * le_dec bs) :: u8) = b" by simp
  with \<open>unat b < 256\<close> Cons show ?case by auto
qed

definition le_u16 :: "u16 \<Rightarrow> u8 list" where "le_u16 w = le_enc 2 (unat w)"
definition le_u32 :: "u32 \<Rightarrow> u8 list" where "le_u32 w = le_enc 4 (unat w)"
definition le_u64 :: "u64 \<Rightarrow> u8 list" where "le_u64 w = le_enc 8 (unat w)"

lemma length_le_word [simp]:
  "length (le_u16 v) = 2" "length (le_u32 w) = 4" "length (le_u64 x) = 8"
  by (simp_all add: le_u16_def le_u32_def le_u64_def)

lemma le_word_dec [simp, codec]:
  "word_of_nat (le_dec (le_u16 v)) = v"
  "word_of_nat (le_dec (le_u32 w)) = w"
  "word_of_nat (le_dec (le_u64 x)) = x"
proof -
  have "unat v < 256 ^ 2" "unat w < 256 ^ 4" "unat x < 256 ^ 8"
    using unsigned_less [of v, where 'a = nat] unsigned_less [of w, where 'a = nat]
      unsigned_less [of x, where 'a = nat] by simp_all
  then show "word_of_nat (le_dec (le_u16 v)) = v" "word_of_nat (le_dec (le_u32 w)) = w"
    "word_of_nat (le_dec (le_u64 x)) = x"
    by (simp_all only: le_u16_def le_u32_def le_u64_def le_dec_enc) simp_all
qed

section \<open>Go maps\<close>

text \<open>
  A Go map is an association list with distinct keys: \<open>map_of\<close> is the lookup, \<open>AList.update\<close>
  the assignment \<open>m[k] = v\<close> and \<open>AList.delete\<close> is \<open>delete(m, k)\<close>.
\<close>

type_synonym ('k, 'v) gomap = "('k \<times> 'v) list"

definition gomap_wf :: "('k, 'v) gomap \<Rightarrow> bool" where
  "gomap_wf m \<longleftrightarrow> distinct (map fst m)"

lemma gomap_wf_Nil [simp, intro]: "gomap_wf []"
  by (simp add: gomap_wf_def)

lemma gomap_wf_update [simp, intro]: "gomap_wf m \<Longrightarrow> gomap_wf (AList.update k v m)"
  by (simp add: gomap_wf_def distinct_update)

lemma gomap_wf_delete [simp, intro]: "gomap_wf m \<Longrightarrow> gomap_wf (AList.delete k m)"
  unfolding gomap_wf_def by (rule distinct_delete)

section \<open>Lists\<close>

definition sublst :: "'a list \<Rightarrow> nat \<Rightarrow> nat \<Rightarrow> 'a list" where
  "sublst xs i j = take (j - i) (drop i xs)"

lemma length_sublst [simp]: "j \<le> length xs \<Longrightarrow> length (sublst xs i j) = j - i"
  by (simp add: sublst_def)

lemma sublst_append: "i \<le> j \<Longrightarrow> j \<le> k \<Longrightarrow> sublst xs i j @ sublst xs j k = sublst xs i k"
proof -
  assume "i \<le> j" "j \<le> k"
  then have "k - i = (j - i) + (k - j)" "drop j xs = drop (j - i) (drop i xs)" by simp_all
  then show ?thesis by (simp only: sublst_def take_add)
qed

lemma sublst_full [simp]: "sublst xs 0 (length xs) = xs"
  by (simp add: sublst_def)

lemma sublst_self [simp]: "sublst xs i i = []"
  by (simp add: sublst_def)

lemma sublst_drop: "sublst xs i (length xs) = drop i xs"
  by (simp add: sublst_def)

text \<open>\<open>copy(xs[a:], src)\<close> for a source that fits.\<close>

definition copy_into :: "'a list \<Rightarrow> nat \<Rightarrow> 'a list \<Rightarrow> 'a list" where
  "copy_into xs a src = take a xs @ src @ drop (a + length src) xs"

lemma length_copy_into: "a + length ys \<le> length xs \<Longrightarrow> length (copy_into xs a ys) = length xs"
  by (simp add: copy_into_def)

lemma nth_copy_into:
  "a + length ys \<le> length xs \<Longrightarrow> i < length xs \<Longrightarrow>
    copy_into xs a ys ! i = (if a \<le> i \<and> i < a + length ys then ys ! (i - a) else xs ! i)"
  by (auto simp: copy_into_def nth_append min_def)

end
