(* ===== verification/Gguf_Types.thy ===== *)
theory Gguf_Types
  imports Go_Prelude
begin

text \<open>
  The data model of the GGUF container (\<^verbatim>\<open>internal/formats/gguf/gguf.go\<close>): tensor element types
  and their block geometry, metadata values with their tolerant accessors, tensor descriptors
  and the parsed file. Floats are carried as their bit patterns, since the code only moves them.
\<close>

section \<open>Tensor element types\<close>

datatype GGMLType =
    GGMLTypeF32
  | GGMLTypeF16
  | GGMLTypeQ4_0
  | GGMLTypeQ4_1
  | GGMLTypeQ5_0
  | GGMLTypeQ5_1
  | GGMLTypeQ8_0
  | GGMLTypeQ8_1
  | GGMLTypeQ2_K
  | GGMLTypeQ3_K
  | GGMLTypeQ4_K
  | GGMLTypeQ5_K
  | GGMLTypeQ6_K
  | GGMLTypeQ8_K
  | GGMLTypeIQ2_XXS
  | GGMLTypeIQ2_XS
  | GGMLTypeIQ3_XXS
  | GGMLTypeIQ1_S
  | GGMLTypeIQ4_NL
  | GGMLTypeIQ3_S
  | GGMLTypeIQ2_S
  | GGMLTypeIQ4_XS
  | GGMLTypeF64
  | GGMLTypeIQ1_M
  | GGMLTypeBF16
  | GGMLTypeTQ1_0
  | GGMLTypeTQ2_0
  | GGMLTypeMXFP4
  | GGMLTypeQ1_0
  | GGMLTypeQ2_0
  | GGMLTypeUnknown

fun ggml_id :: "GGMLType \<Rightarrow> u32" where
  "ggml_id GGMLTypeF32 = 0"
| "ggml_id GGMLTypeF16 = 1"
| "ggml_id GGMLTypeQ4_0 = 2"
| "ggml_id GGMLTypeQ4_1 = 3"
| "ggml_id GGMLTypeQ5_0 = 6"
| "ggml_id GGMLTypeQ5_1 = 7"
| "ggml_id GGMLTypeQ8_0 = 8"
| "ggml_id GGMLTypeQ8_1 = 9"
| "ggml_id GGMLTypeQ2_K = 10"
| "ggml_id GGMLTypeQ3_K = 11"
| "ggml_id GGMLTypeQ4_K = 12"
| "ggml_id GGMLTypeQ5_K = 13"
| "ggml_id GGMLTypeQ6_K = 14"
| "ggml_id GGMLTypeQ8_K = 15"
| "ggml_id GGMLTypeIQ2_XXS = 16"
| "ggml_id GGMLTypeIQ2_XS = 17"
| "ggml_id GGMLTypeIQ3_XXS = 18"
| "ggml_id GGMLTypeIQ1_S = 19"
| "ggml_id GGMLTypeIQ4_NL = 20"
| "ggml_id GGMLTypeIQ3_S = 21"
| "ggml_id GGMLTypeIQ2_S = 22"
| "ggml_id GGMLTypeIQ4_XS = 23"
| "ggml_id GGMLTypeF64 = 28"
| "ggml_id GGMLTypeIQ1_M = 29"
| "ggml_id GGMLTypeBF16 = 30"
| "ggml_id GGMLTypeTQ1_0 = 34"
| "ggml_id GGMLTypeTQ2_0 = 35"
| "ggml_id GGMLTypeMXFP4 = 39"
| "ggml_id GGMLTypeQ1_0 = 41"
| "ggml_id GGMLTypeQ2_0 = 42"
| "ggml_id GGMLTypeUnknown = 255"

definition TypeFromID :: "u32 \<Rightarrow> GGMLType" where
  "TypeFromID v =
    (if v = 0 then GGMLTypeF32
     else if v = 1 then GGMLTypeF16
     else if v = 2 then GGMLTypeQ4_0
     else if v = 3 then GGMLTypeQ4_1
     else if v = 6 then GGMLTypeQ5_0
     else if v = 7 then GGMLTypeQ5_1
     else if v = 8 then GGMLTypeQ8_0
     else if v = 9 then GGMLTypeQ8_1
     else if v = 10 then GGMLTypeQ2_K
     else if v = 11 then GGMLTypeQ3_K
     else if v = 12 then GGMLTypeQ4_K
     else if v = 13 then GGMLTypeQ5_K
     else if v = 14 then GGMLTypeQ6_K
     else if v = 15 then GGMLTypeQ8_K
     else if v = 16 then GGMLTypeIQ2_XXS
     else if v = 17 then GGMLTypeIQ2_XS
     else if v = 18 then GGMLTypeIQ3_XXS
     else if v = 19 then GGMLTypeIQ1_S
     else if v = 20 then GGMLTypeIQ4_NL
     else if v = 21 then GGMLTypeIQ3_S
     else if v = 22 then GGMLTypeIQ2_S
     else if v = 23 then GGMLTypeIQ4_XS
     else if v = 28 then GGMLTypeF64
     else if v = 29 then GGMLTypeIQ1_M
     else if v = 30 then GGMLTypeBF16
     else if v = 34 then GGMLTypeTQ1_0
     else if v = 35 then GGMLTypeTQ2_0
     else if v = 39 then GGMLTypeMXFP4
     else if v = 41 then GGMLTypeQ1_0
     else if v = 42 then GGMLTypeQ2_0
     else GGMLTypeUnknown)"

fun type_String :: "GGMLType \<Rightarrow> string" where
  "type_String GGMLTypeF32 = ''F32''"
| "type_String GGMLTypeF16 = ''F16''"
| "type_String GGMLTypeQ4_0 = ''Q4_0''"
| "type_String GGMLTypeQ4_1 = ''Q4_1''"
| "type_String GGMLTypeQ5_0 = ''Q5_0''"
| "type_String GGMLTypeQ5_1 = ''Q5_1''"
| "type_String GGMLTypeQ8_0 = ''Q8_0''"
| "type_String GGMLTypeQ8_1 = ''Q8_1''"
| "type_String GGMLTypeQ2_K = ''Q2_K''"
| "type_String GGMLTypeQ3_K = ''Q3_K''"
| "type_String GGMLTypeQ4_K = ''Q4_K''"
| "type_String GGMLTypeQ5_K = ''Q5_K''"
| "type_String GGMLTypeQ6_K = ''Q6_K''"
| "type_String GGMLTypeQ8_K = ''Q8_K''"
| "type_String GGMLTypeIQ2_XXS = ''IQ2_XXS''"
| "type_String GGMLTypeIQ2_XS = ''IQ2_XS''"
| "type_String GGMLTypeIQ3_XXS = ''IQ3_XXS''"
| "type_String GGMLTypeIQ1_S = ''IQ1_S''"
| "type_String GGMLTypeIQ4_NL = ''IQ4_NL''"
| "type_String GGMLTypeIQ3_S = ''IQ3_S''"
| "type_String GGMLTypeIQ2_S = ''IQ2_S''"
| "type_String GGMLTypeIQ4_XS = ''IQ4_XS''"
| "type_String GGMLTypeF64 = ''F64''"
| "type_String GGMLTypeIQ1_M = ''IQ1_M''"
| "type_String GGMLTypeBF16 = ''BF16''"
| "type_String GGMLTypeTQ1_0 = ''TQ1_0''"
| "type_String GGMLTypeTQ2_0 = ''TQ2_0''"
| "type_String GGMLTypeMXFP4 = ''MXFP4''"
| "type_String GGMLTypeQ1_0 = ''Q1_0''"
| "type_String GGMLTypeQ2_0 = ''Q2_0''"
| "type_String GGMLTypeUnknown = ''Unknown''"

definition BlockSize :: "GGMLType \<Rightarrow> int" where
  "BlockSize t =
    (if t \<in> {GGMLTypeF32, GGMLTypeF16, GGMLTypeF64, GGMLTypeBF16} then 1
     else if t = GGMLTypeQ1_0 then 128
     else if t = GGMLTypeQ2_0 then 64
     else if t \<in> {GGMLTypeTQ1_0, GGMLTypeTQ2_0,
        GGMLTypeQ2_K, GGMLTypeQ3_K, GGMLTypeQ4_K, GGMLTypeQ5_K, GGMLTypeQ6_K, GGMLTypeQ8_K,
        GGMLTypeIQ2_S, GGMLTypeIQ3_S, GGMLTypeIQ4_XS,
        GGMLTypeIQ2_XXS, GGMLTypeIQ2_XS, GGMLTypeIQ3_XXS, GGMLTypeIQ1_S, GGMLTypeIQ1_M} then 256
     else 32)"

fun BlockBytes :: "GGMLType \<Rightarrow> int option" where
  "BlockBytes GGMLTypeF32 = Some 4"
| "BlockBytes GGMLTypeF16 = Some 2"
| "BlockBytes GGMLTypeQ4_0 = Some 18"
| "BlockBytes GGMLTypeQ4_1 = Some 20"
| "BlockBytes GGMLTypeQ5_0 = Some 22"
| "BlockBytes GGMLTypeQ5_1 = Some 24"
| "BlockBytes GGMLTypeQ8_0 = Some 34"
| "BlockBytes GGMLTypeIQ4_NL = Some 18"
| "BlockBytes GGMLTypeQ8_1 = Some 36"
| "BlockBytes _ = None"

text \<open>
  \<open>n\<close> is a Go \<open>int\<close>, so each product wraps at 64 bits and the division truncates. The
  result \<open>(0, false)\<close> is \<open>None\<close>.
\<close>

fun DataSize :: "GGMLType \<Rightarrow> int \<Rightarrow> int option" where
  "DataSize GGMLTypeF32 n = Some (wrap64 (n * 4))"
| "DataSize GGMLTypeF64 n = Some (wrap64 (n * 8))"
| "DataSize GGMLTypeF16 n = Some (wrap64 (n * 2))"
| "DataSize GGMLTypeBF16 n = Some (wrap64 (n * 2))"
| "DataSize GGMLTypeQ4_0 n =
     Some (wrap64 (go_div n (BlockSize GGMLTypeQ4_0) * (case BlockBytes GGMLTypeQ4_0 of Some b \<Rightarrow> b | None \<Rightarrow> 0)))"
| "DataSize GGMLTypeQ4_1 n =
     Some (wrap64 (go_div n (BlockSize GGMLTypeQ4_1) * (case BlockBytes GGMLTypeQ4_1 of Some b \<Rightarrow> b | None \<Rightarrow> 0)))"
| "DataSize GGMLTypeQ5_0 n =
     Some (wrap64 (go_div n (BlockSize GGMLTypeQ5_0) * (case BlockBytes GGMLTypeQ5_0 of Some b \<Rightarrow> b | None \<Rightarrow> 0)))"
| "DataSize GGMLTypeQ5_1 n =
     Some (wrap64 (go_div n (BlockSize GGMLTypeQ5_1) * (case BlockBytes GGMLTypeQ5_1 of Some b \<Rightarrow> b | None \<Rightarrow> 0)))"
| "DataSize GGMLTypeQ8_0 n =
     Some (wrap64 (go_div n (BlockSize GGMLTypeQ8_0) * (case BlockBytes GGMLTypeQ8_0 of Some b \<Rightarrow> b | None \<Rightarrow> 0)))"
| "DataSize GGMLTypeQ8_1 n =
     Some (wrap64 (go_div n (BlockSize GGMLTypeQ8_1) * (case BlockBytes GGMLTypeQ8_1 of Some b \<Rightarrow> b | None \<Rightarrow> 0)))"
| "DataSize GGMLTypeIQ4_NL n =
     Some (wrap64 (go_div n (BlockSize GGMLTypeIQ4_NL) * (case BlockBytes GGMLTypeIQ4_NL of Some b \<Rightarrow> b | None \<Rightarrow> 0)))"
| "DataSize GGMLTypeQ2_K n = Some (wrap64 (go_div n 256 * 84))"
| "DataSize GGMLTypeQ3_K n = Some (wrap64 (go_div n 256 * 110))"
| "DataSize GGMLTypeQ4_K n = Some (wrap64 (go_div n 256 * 144))"
| "DataSize GGMLTypeQ5_K n = Some (wrap64 (go_div n 256 * 176))"
| "DataSize GGMLTypeQ6_K n = Some (wrap64 (go_div n 256 * 210))"
| "DataSize GGMLTypeQ8_K n = Some (wrap64 (go_div n 256 * 292))"
| "DataSize GGMLTypeIQ4_XS n = Some (wrap64 (go_div n 256 * 136))"
| "DataSize GGMLTypeIQ2_S n = Some (wrap64 (go_div n 256 * 82))"
| "DataSize GGMLTypeIQ3_S n = Some (wrap64 (go_div n 256 * 110))"
| "DataSize GGMLTypeIQ2_XXS n = Some (wrap64 (go_div n 256 * 66))"
| "DataSize GGMLTypeIQ2_XS n = Some (wrap64 (go_div n 256 * 74))"
| "DataSize GGMLTypeIQ3_XXS n = Some (wrap64 (go_div n 256 * 98))"
| "DataSize GGMLTypeIQ1_S n = Some (wrap64 (go_div n 256 * 50))"
| "DataSize GGMLTypeIQ1_M n = Some (wrap64 (go_div n 256 * 56))"
| "DataSize GGMLTypeTQ1_0 n = Some (wrap64 (go_div n 256 * 54))"
| "DataSize GGMLTypeTQ2_0 n = Some (wrap64 (go_div n 256 * 66))"
| "DataSize GGMLTypeMXFP4 n = Some (wrap64 (go_div n 32 * 17))"
| "DataSize GGMLTypeQ1_0 n = Some (wrap64 (go_div n 128 * 18))"
| "DataSize GGMLTypeQ2_0 n = Some (wrap64 (go_div n 64 * 18))"
| "DataSize GGMLTypeUnknown n = None"

section \<open>Metadata values\<close>

text \<open>
  \<open>MetaValue{Kind, Value any}\<close>: the dynamic types that occur in \<open>Value\<close> are the constructors
  of \<open>meta_any\<close>. \<open>VNil\<close> is the nil interface of the zero \<open>MetaValue\<close>.
\<close>

datatype meta_value = MetaValue (Kind: string) (Value: meta_any)
and meta_any =
    VU8 u8 | VI8 u8 | VU16 u16 | VI16 u16 | VU32 u32 | VI32 u32 | VU64 u64 | VI64 u64
  | VF32 u32 | VF64 u64 | VBool bool | VStr string
  | VStrs "string list" | VF32s "u32 list" | VBools "bool list" | VU32s "u32 list"
  | VMetas "meta_value list"
  | VNil

definition AsU32 :: "meta_value \<Rightarrow> u32 option" where
  "AsU32 v = (case Value v of
      VU8 x \<Rightarrow> Some (ucast x) | VI8 x \<Rightarrow> Some (scast x)
    | VU16 x \<Rightarrow> Some (ucast x) | VI16 x \<Rightarrow> Some (scast x)
    | VU32 x \<Rightarrow> Some x | VI32 x \<Rightarrow> Some x
    | VU64 x \<Rightarrow> Some (ucast x) | VI64 x \<Rightarrow> Some (ucast x)
    | _ \<Rightarrow> None)"

text \<open>\<open>float32(x)\<close> of a \<open>float64\<close> is the hardware conversion, a parameter on bit patterns.\<close>

definition AsF32 :: "(u64 \<Rightarrow> u32) \<Rightarrow> meta_value \<Rightarrow> u32 option" where
  "AsF32 f64_to_f32 v = (case Value v of
      VF32 x \<Rightarrow> Some x | VF64 x \<Rightarrow> Some (f64_to_f32 x) | _ \<Rightarrow> None)"

definition AsString :: "meta_value \<Rightarrow> string option" where
  "AsString v = (case Value v of VStr s \<Rightarrow> Some s | _ \<Rightarrow> None)"

definition AsBool :: "meta_value \<Rightarrow> bool option" where
  "AsBool v = (case Value v of VBool b \<Rightarrow> Some b | _ \<Rightarrow> None)"

text \<open>Loops that give up at the first element that does not convert.\<close>

fun all_or_none :: "('a \<Rightarrow> 'b option) \<Rightarrow> 'a list \<Rightarrow> 'b list option" where
  "all_or_none f [] = Some []"
| "all_or_none f (x # xs) = (case f x of None \<Rightarrow> None
     | Some y \<Rightarrow> (case all_or_none f xs of None \<Rightarrow> None | Some ys \<Rightarrow> Some (y # ys)))"

definition AsStringArray :: "meta_value \<Rightarrow> string list option" where
  "AsStringArray v = (case Value v of
      VStrs s \<Rightarrow> Some s
    | VMetas arr \<Rightarrow> Some (List.map_filter AsString arr)
    | _ \<Rightarrow> None)"

definition AsBoolArray :: "meta_value \<Rightarrow> bool list option" where
  "AsBoolArray v = (case Value v of
      VBools b \<Rightarrow> Some b
    | VMetas arr \<Rightarrow> all_or_none AsBool arr
    | _ \<Rightarrow> None)"

definition AsF32Array :: "(u64 \<Rightarrow> u32) \<Rightarrow> meta_value \<Rightarrow> u32 list option" where
  "AsF32Array f64_to_f32 v = (case Value v of
      VF32s f \<Rightarrow> Some f
    | VMetas arr \<Rightarrow> Some (List.map_filter (AsF32 f64_to_f32) arr)
    | _ \<Rightarrow> None)"

definition AsU32Array :: "meta_value \<Rightarrow> u32 list option" where
  "AsU32Array v = (case Value v of
      VU32s a \<Rightarrow> Some a
    | VMetas arr \<Rightarrow> all_or_none AsU32 arr
    | _ \<Rightarrow> None)"

section \<open>Tensor descriptors and the parsed file\<close>

record TensorInfo =
  Name :: string
  Dims :: "u64 list"
  DType :: GGMLType
  Offset :: u64
  Shard :: "u8 list option"

fun numel_loop :: "int \<Rightarrow> u64 list \<Rightarrow> int" where
  "numel_loop n [] = n"
| "numel_loop n (d # ds) = numel_loop (wrap64 (n * sint d)) ds"

definition Numel :: "TensorInfo \<Rightarrow> int" where
  "Numel t = numel_loop 1 (Dims t)"

record GGUFFile =
  Metadata :: "(string, meta_value) gomap"
  Tensors :: "TensorInfo list"
  DataOffset :: nat
  Version :: u32

definition GetU32Array :: "GGUFFile \<Rightarrow> string \<Rightarrow> u32 list option" where
  "GetU32Array g key = (case map_of (Metadata g) key of None \<Rightarrow> None | Some v \<Rightarrow> AsU32Array v)"

definition GetF32Array :: "(u64 \<Rightarrow> u32) \<Rightarrow> GGUFFile \<Rightarrow> string \<Rightarrow> u32 list option" where
  "GetF32Array f64_to_f32 g key =
     (case map_of (Metadata g) key of None \<Rightarrow> None | Some v \<Rightarrow> AsF32Array f64_to_f32 v)"

definition GetU32 :: "GGUFFile \<Rightarrow> string \<Rightarrow> u32 \<Rightarrow> u32" where
  "GetU32 g key def = (case map_of (Metadata g) key of
      Some v \<Rightarrow> (case AsU32 v of Some n \<Rightarrow> n | None \<Rightarrow> def) | None \<Rightarrow> def)"

definition GetF32 :: "(u64 \<Rightarrow> u32) \<Rightarrow> GGUFFile \<Rightarrow> string \<Rightarrow> u32 \<Rightarrow> u32" where
  "GetF32 f64_to_f32 g key def = (case map_of (Metadata g) key of
      Some v \<Rightarrow> (case AsF32 f64_to_f32 v of Some n \<Rightarrow> n | None \<Rightarrow> def) | None \<Rightarrow> def)"

definition GetString :: "GGUFFile \<Rightarrow> string \<Rightarrow> string option" where
  "GetString g key = (case map_of (Metadata g) key of Some v \<Rightarrow> AsString v | None \<Rightarrow> None)"

definition GetBool :: "GGUFFile \<Rightarrow> string \<Rightarrow> bool \<Rightarrow> bool" where
  "GetBool g key def = (case map_of (Metadata g) key of
      Some v \<Rightarrow> (case AsBool v of Some b \<Rightarrow> b | None \<Rightarrow> def) | None \<Rightarrow> def)"

section \<open>Lemmas\<close>

lemma TypeFromID_ggml_id [simp]: "TypeFromID (ggml_id t) = t"
  by (cases t) (simp_all add: TypeFromID_def)

lemma ggml_id_TypeFromID: "TypeFromID v \<noteq> GGMLTypeUnknown \<Longrightarrow> ggml_id (TypeFromID v) = v"
  by (simp add: TypeFromID_def split: if_splits)

lemma BlockSize_pos: "0 < BlockSize t"
  by (simp add: BlockSize_def)

lemma all_or_none_Some:
  "all_or_none f xs = Some ys \<Longrightarrow> map f xs = map Some ys"
  by (induction xs arbitrary: ys) (auto split: option.splits)

lemma all_or_none_map_Some [simp]: "all_or_none f (map g xs) = Some ys"
  if "\<And>x. x \<in> set xs \<Longrightarrow> f (g x) = Some (h x)" "ys = map h xs"
  using that by (induction xs arbitrary: ys) auto

end
