(* ===== verification/Gguf_Reader.thy ===== *)
theory Gguf_Reader
  imports Gguf_Types
begin

text \<open>
  The GGUF header parser of \<^verbatim>\<open>internal/formats/gguf/gguf.go\<close>: the bounds-checked little-endian
  cursor, the recursive value decoder and \<open>parseGGUF\<close>, with the facts that a cursor never leaves
  its buffer and only ever moves forward.

  The cursor's \<open>depth\<close> field is incremented on entry to a nested array and restored by a deferred
  decrement on every exit, so it is the argument \<open>d\<close> of the recursion here.
\<close>

section \<open>Errors and the cursor\<close>

datatype gguf_error =
    TooSmall
  | InvalidMagic u32
  | UnexpectedEOF nat
  | InvalidStringLength nat
  | UnknownArrayElem u32
  | InvalidArray
  | UnknownValueType u32
  | AtKey string gguf_error
  | InvalidCounts u64 u64
  | InvalidRank u32
  | AlignmentTooLarge
  | OffsetTooLarge

record cursor =
  cur_data :: "u8 list"
  cur_pos :: nat

definition need :: "cursor \<Rightarrow> int \<Rightarrow> gguf_error + unit" where
  "need c n = (if n < 0 \<or> n > int (length (cur_data c)) - int (cur_pos c)
     then Inl (UnexpectedEOF (cur_pos c)) else Inr ())"

definition cur_u8 :: "cursor \<Rightarrow> gguf_error + (u8 \<times> cursor)" where
  "cur_u8 c = and_then (need c 1) (\<lambda>_. Inr (cur_data c ! cur_pos c, c\<lparr>cur_pos := cur_pos c + 1\<rparr>))"

definition cur_u16 :: "cursor \<Rightarrow> gguf_error + (u16 \<times> cursor)" where
  "cur_u16 c = and_then (need c 2)
     (\<lambda>_. Inr (word_of_nat (le_dec (take 2 (drop (cur_pos c) (cur_data c)))), c\<lparr>cur_pos := cur_pos c + 2\<rparr>))"

definition cur_u32 :: "cursor \<Rightarrow> gguf_error + (u32 \<times> cursor)" where
  "cur_u32 c = and_then (need c 4)
     (\<lambda>_. Inr (word_of_nat (le_dec (take 4 (drop (cur_pos c) (cur_data c)))), c\<lparr>cur_pos := cur_pos c + 4\<rparr>))"

definition cur_u64 :: "cursor \<Rightarrow> gguf_error + (u64 \<times> cursor)" where
  "cur_u64 c = and_then (need c 8)
     (\<lambda>_. Inr (word_of_nat (le_dec (take 8 (drop (cur_pos c) (cur_data c)))), c\<lparr>cur_pos := cur_pos c + 8\<rparr>))"

definition cur_str :: "cursor \<Rightarrow> gguf_error + (string \<times> cursor)" where
  "cur_str c = and_then (cur_u64 c) (\<lambda>(n64, c).
     if int (unat n64) > int (length (cur_data c)) - int (cur_pos c)
     then Inl (InvalidStringLength (cur_pos c))
     else let n = unat n64 in
       and_then (need c (int n)) (\<lambda>_.
         Inr (string_of_bytes (take n (drop (cur_pos c) (cur_data c))), c\<lparr>cur_pos := cur_pos c + n\<rparr>)))"

section \<open>Values\<close>

text \<open>The smallest wire size of one array element, by element tag.\<close>

definition elem_minimum :: "u32 \<Rightarrow> nat option" where
  "elem_minimum elem =
    (if elem \<in> {0, 1, 7} then Some 1
     else if elem \<in> {2, 3} then Some 2
     else if elem \<in> {4, 5, 6} then Some 4
     else if elem \<in> {8, 10, 11, 12} then Some 8
     else if elem = 9 then Some 12
     else None)"

text \<open>The three typed fast paths for the large tokenizer arrays.\<close>

fun cur_strs :: "nat \<Rightarrow> cursor \<Rightarrow> gguf_error + (string list \<times> cursor)" where
  "cur_strs 0 c = Inr ([], c)"
| "cur_strs (Suc n) c = and_then (cur_str c) (\<lambda>(s, c).
     and_then (cur_strs n c) (\<lambda>(out, c). Inr (s # out, c)))"

fun cur_f32s :: "nat \<Rightarrow> cursor \<Rightarrow> gguf_error + (u32 list \<times> cursor)" where
  "cur_f32s 0 c = Inr ([], c)"
| "cur_f32s (Suc n) c = and_then (cur_u32 c) (\<lambda>(v, c).
     and_then (cur_f32s n c) (\<lambda>(out, c). Inr (v # out, c)))"

fun cur_bools :: "nat \<Rightarrow> cursor \<Rightarrow> gguf_error + (bool list \<times> cursor)" where
  "cur_bools 0 c = Inr ([], c)"
| "cur_bools (Suc n) c = and_then (cur_u8 c) (\<lambda>(v, c).
     and_then (cur_bools n c) (\<lambda>(out, c). Inr ((v \<noteq> 0) # out, c)))"

definition tag_value :: "string \<Rightarrow> ('a \<Rightarrow> meta_any) \<Rightarrow> 'e + ('a \<times> cursor) \<Rightarrow> 'e + (meta_value \<times> cursor)" where
  "tag_value k f r = and_then r (\<lambda>(v, c). Inr (MetaValue k (f v), c))"

function cur_value :: "nat \<Rightarrow> u32 \<Rightarrow> cursor \<Rightarrow> gguf_error + (meta_value \<times> cursor)"
  and cur_values :: "nat \<Rightarrow> u32 \<Rightarrow> nat \<Rightarrow> cursor \<Rightarrow> gguf_error + (meta_value list \<times> cursor)" where
  "cur_value d t c =
    (if t = 0 then tag_value ''u8'' VU8 (cur_u8 c)
     else if t = 1 then tag_value ''i8'' VI8 (cur_u8 c)
     else if t = 2 then tag_value ''u16'' VU16 (cur_u16 c)
     else if t = 3 then tag_value ''i16'' VI16 (cur_u16 c)
     else if t = 4 then tag_value ''u32'' VU32 (cur_u32 c)
     else if t = 5 then tag_value ''i32'' VI32 (cur_u32 c)
     else if t = 6 then tag_value ''f32'' VF32 (cur_u32 c)
     else if t = 7 then tag_value ''bool'' (\<lambda>v. VBool (v \<noteq> 0)) (cur_u8 c)
     else if t = 8 then tag_value ''str'' VStr (cur_str c)
     else if t = 9 then
       and_then (cur_u32 c) (\<lambda>(elem, c).
       and_then (cur_u64 c) (\<lambda>(count, c).
         case elem_minimum elem of
           None \<Rightarrow> Inl (UnknownArrayElem elem)
         | Some minimum \<Rightarrow>
             (if unat count > (length (cur_data c) - cur_pos c) div minimum
                 \<or> unat count > 16777216 \<or> d \<ge> 16
              then Inl InvalidArray
              else if elem = 8 then tag_value ''array'' VStrs (cur_strs (unat count) c)
              else if elem = 6 then tag_value ''array'' VF32s (cur_f32s (unat count) c)
              else if elem = 7 then tag_value ''array'' VBools (cur_bools (unat count) c)
              else tag_value ''array'' VMetas (cur_values (d + 1) elem (unat count) c))))
     else if t = 10 then tag_value ''u64'' VU64 (cur_u64 c)
     else if t = 11 then tag_value ''i64'' VI64 (cur_u64 c)
     else if t = 12 then tag_value ''f64'' VF64 (cur_u64 c)
     else Inl (UnknownValueType t))"
| "cur_values d elem 0 c = Inr ([], c)"
| "cur_values d elem (Suc n) c = and_then (cur_value d elem c) (\<lambda>(v, c).
     and_then (cur_values d elem n c) (\<lambda>(arr, c). Inr (v # arr, c)))"
  by pat_completeness auto
termination
  by (relation "measures [\<lambda>x. case x of Inl (d, t, c) \<Rightarrow> 17 - d | Inr (d, e, n, c) \<Rightarrow> 17 - d,
     \<lambda>x. case x of Inl (d, t, c) \<Rightarrow> 0 | Inr (d, e, n, c) \<Rightarrow> n]") auto

declare cur_value.simps [simp del]

section \<open>The header\<close>

fun parse_metadata :: "nat \<Rightarrow> cursor \<Rightarrow> (string, meta_value) gomap \<Rightarrow>
    gguf_error + ((string, meta_value) gomap \<times> cursor)" where
  "parse_metadata 0 c m = Inr (m, c)"
| "parse_metadata (Suc n) c m = and_then (cur_str c) (\<lambda>(key, c).
     and_then (cur_u32 c) (\<lambda>(typ, c).
       case cur_value 0 typ c of
         Inl e \<Rightarrow> Inl (AtKey key e)
       | Inr (val, c) \<Rightarrow> parse_metadata n c (AList.update key val m)))"

fun parse_dims :: "nat \<Rightarrow> cursor \<Rightarrow> gguf_error + (u64 list \<times> cursor)" where
  "parse_dims 0 c = Inr ([], c)"
| "parse_dims (Suc n) c = and_then (cur_u64 c) (\<lambda>(x, c).
     and_then (parse_dims n c) (\<lambda>(xs, c). Inr (x # xs, c)))"

fun parse_tensors :: "nat \<Rightarrow> cursor \<Rightarrow> gguf_error + (TensorInfo list \<times> cursor)" where
  "parse_tensors 0 c = Inr ([], c)"
| "parse_tensors (Suc n) c = and_then (cur_str c) (\<lambda>(name, c).
     and_then (cur_u32 c) (\<lambda>(nDims, c).
       if nDims = 0 \<or> nDims > 16 \<or> unat nDims > (length (cur_data c) - cur_pos c) div 8
       then Inl (InvalidRank nDims)
       else and_then (parse_dims (unat nDims) c) (\<lambda>(ds, c).
         and_then (cur_u32 c) (\<lambda>(dt, c).
         and_then (cur_u64 c) (\<lambda>(off, c).
         and_then (parse_tensors n c) (\<lambda>(ts, c).
           Inr (\<lparr>Name = name, Dims = ds, DType = TypeFromID dt, Offset = off, Shard = None\<rparr> # ts, c)))))))"

definition metadata_alignment :: "(string, meta_value) gomap \<Rightarrow> gguf_error + nat" where
  "metadata_alignment metadata = (case map_of metadata ''general.alignment'' of
      None \<Rightarrow> Inr 32
    | Some v \<Rightarrow> (case AsU32 v of
          None \<Rightarrow> Inr 32
        | Some n \<Rightarrow> if n > 0
            then (if int (unat n) > max_int then Inl AlignmentTooLarge else Inr (unat n))
            else Inr 32))"

definition parseGGUF :: "u8 list \<Rightarrow> gguf_error + GGUFFile" where
  "parseGGUF data =
    (if length data < 4 then Inl TooSmall
     else if string_of_bytes (take 4 data) \<noteq> ''GGUF''
     then Inl (InvalidMagic (word_of_nat (le_dec (take 4 data))))
     else
       and_then (cur_u32 \<lparr>cur_data = data, cur_pos = 4\<rparr>) (\<lambda>(version, c).
       and_then (cur_u64 c) (\<lambda>(nTensors, c).
       and_then (cur_u64 c) (\<lambda>(nKV, c).
         if unat nKV > 1048576 \<or> unat nKV > (length data - cur_pos c) div 13
            \<or> unat nTensors > 1048576 \<or> unat nTensors > (length data - cur_pos c) div 32
         then Inl (InvalidCounts nKV nTensors)
         else and_then (parse_metadata (unat nKV) c []) (\<lambda>(metadata, c).
           and_then (parse_tensors (unat nTensors) c) (\<lambda>(tensors, c).
           and_then (metadata_alignment metadata) (\<lambda>alignment.
             let padding = (alignment - cur_pos c mod alignment) mod alignment in
             if int (cur_pos c) > max_int - int padding then Inl OffsetTooLarge
             else Inr \<lparr>Metadata = metadata, Tensors = tensors,
                       DataOffset = cur_pos c + padding, Version = version\<rparr>)))))))"

section \<open>Cursor discipline\<close>

text \<open>
  \<open>cur_step c c'\<close>: the read from \<open>c\<close> to \<open>c'\<close> left the buffer alone, moved forward by at least
  \<open>k\<close> bytes and stayed inside the buffer.
\<close>

definition cur_step :: "nat \<Rightarrow> cursor \<Rightarrow> cursor \<Rightarrow> bool" where
  "cur_step k c c' \<longleftrightarrow> cur_data c' = cur_data c \<and> cur_pos c + k \<le> cur_pos c' \<and> cur_pos c' \<le> length (cur_data c)"

lemma cur_stepD:
  assumes "cur_step k c c'"
  shows "cur_data c' = cur_data c" "cur_pos c + k \<le> cur_pos c'" "cur_pos c' \<le> length (cur_data c)"
  using assms by (simp_all add: cur_step_def)

lemma cur_step_trans: "cur_step k c c' \<Longrightarrow> cur_step l c' c'' \<Longrightarrow> cur_step (k + l) c c''"
  by (auto simp: cur_step_def)

lemma cur_step_weaken: "cur_step k c c' \<Longrightarrow> l \<le> k \<Longrightarrow> cur_step l c c'"
  by (auto simp: cur_step_def)

lemma need_Inr [simp]: "need c n = Inr u \<longleftrightarrow> 0 \<le> n \<and> int (cur_pos c) + n \<le> int (length (cur_data c))"
  by (auto simp: need_def)

lemma cur_u8_step: "cur_u8 c = Inr (v, c') \<Longrightarrow> cur_step 1 c c'"
  by (auto simp: cur_u8_def cur_step_def)

lemma cur_u16_step: "cur_u16 c = Inr (v, c') \<Longrightarrow> cur_step 2 c c'"
  by (auto simp: cur_u16_def cur_step_def)

lemma cur_u32_step: "cur_u32 c = Inr (v, c') \<Longrightarrow> cur_step 4 c c'"
  by (auto simp: cur_u32_def cur_step_def)

lemma cur_u64_step: "cur_u64 c = Inr (v, c') \<Longrightarrow> cur_step 8 c c'"
  by (auto simp: cur_u64_def cur_step_def)

lemma cur_str_step: "cur_str c = Inr (v, c') \<Longrightarrow> cur_step 8 c c'"
  by (auto simp: cur_str_def Let_def cur_step_def split: if_splits dest!: cur_u64_step)

lemmas cur_scalar_steps = cur_u8_step cur_u16_step cur_u32_step cur_u64_step cur_str_step

lemma cur_strs_step: "cur_strs n c = Inr (v, c') \<Longrightarrow> cur_pos c \<le> length (cur_data c) \<Longrightarrow>
    cur_step (8 * n) c c' \<and> length v = n"
  by (induction n arbitrary: c v c') (fastforce simp: cur_step_def dest!: cur_str_step)+

lemma cur_f32s_step: "cur_f32s n c = Inr (v, c') \<Longrightarrow> cur_pos c \<le> length (cur_data c) \<Longrightarrow>
    cur_step (4 * n) c c' \<and> length v = n"
  by (induction n arbitrary: c v c') (fastforce simp: cur_step_def dest!: cur_u32_step)+

lemma cur_bools_step: "cur_bools n c = Inr (v, c') \<Longrightarrow> cur_pos c \<le> length (cur_data c) \<Longrightarrow>
    cur_step n c c' \<and> length v = n"
  by (induction n arbitrary: c v c') (fastforce simp: cur_step_def dest!: cur_u8_step)+

end
