(* ===== verification/Gguf_Writer.thy ===== *)
theory Gguf_Writer
  imports Gguf_Types "HOL-Library.List_Lexorder" "HOL-Library.Char_ord"
begin

text \<open>
  The streaming GGUF writer of \<^verbatim>\<open>internal/formats/gguf/gguf_write.go\<close>: the counting writer with its
  sticky error, the metadata encoder, \<open>NewGGUFWriter\<close>, the per-tensor stream with its planned byte
  budget, and \<open>Close\<close>.

  The \<^verbatim>\<open>bufio.Writer\<close> over the caller's \<^verbatim>\<open>io.Writer\<close> is the parameter \<open>sink\<close>: given the bytes
  accepted so far and the new bytes it answers how many were taken and with which error. A callback
  that receives an \<^verbatim>\<open>io.Writer\<close> is an interaction tree: it returns an error value or performs one
  write and continues with its result.
\<close>

section \<open>The counting writer\<close>

datatype werror =
    IoError nat
  | ShortWrite
  | UnknownKind string
  | KindMismatch string
  | Heterogeneous nat
  | UnsupportedArray
  | UnsupportedType string GGMLType
  | InMetadata string werror
  | InTensor string werror
  | TooManyTensors nat
  | WrongSize string nat int
  | StreamOverrun int
  | StreamMissing int
  | NilCallback
  | Overran string int
  | ClosedEarly nat nat

type_synonym sink = "u8 list \<Rightarrow> u8 list \<Rightarrow> nat \<times> werror option"

record countingWriter =
  cw_out :: "u8 list"
  cw_pos :: int
  cw_err :: "werror option"

definition newCountingWriter :: countingWriter where
  "newCountingWriter = \<lparr>cw_out = [], cw_pos = 0, cw_err = None\<rparr>"

definition cw_Write :: "sink \<Rightarrow> countingWriter \<Rightarrow> u8 list \<Rightarrow> (nat \<times> werror option) \<times> countingWriter" where
  "cw_Write sink cw p =
    (if cw_err cw \<noteq> None then ((0, cw_err cw), cw)
     else let (n, e) = sink (cw_out cw) p;
              cw = cw\<lparr>cw_out := cw_out cw @ take n p, cw_pos := wrap64 (cw_pos cw + int n)\<rparr>
          in ((n, e), if e \<noteq> None then cw\<lparr>cw_err := e\<rparr> else cw))"

type_synonym wres = "werror option \<times> countingWriter"

definition cw_put :: "sink \<Rightarrow> countingWriter \<Rightarrow> u8 list \<Rightarrow> wres" where
  "cw_put sink cw p = (case cw_Write sink cw p of ((n, e), cw') \<Rightarrow> (e, cw'))"

text \<open>\<open>if cw_err := a; err != nil { return err }; b\<close>\<close>

definition w_then :: "wres \<Rightarrow> (countingWriter \<Rightarrow> wres) \<Rightarrow> wres" where
  "w_then r f = (case r of (Some e, cw) \<Rightarrow> (Some e, cw) | (None, cw) \<Rightarrow> f cw)"

lemma w_then_cong [fundef_cong]:
  "r = r' \<Longrightarrow> (\<And>cw. r' = (None, cw) \<Longrightarrow> f cw = f' cw) \<Longrightarrow> w_then r f = w_then r' f'"
  by (auto simp: w_then_def split: prod.splits option.splits)

definition cw_u8 :: "sink \<Rightarrow> countingWriter \<Rightarrow> u8 \<Rightarrow> wres" where
  "cw_u8 sink cw v = cw_put sink cw [v]"

definition cw_u16 :: "sink \<Rightarrow> countingWriter \<Rightarrow> u16 \<Rightarrow> wres" where
  "cw_u16 sink cw v = cw_put sink cw (le_u16 v)"

definition cw_u32 :: "sink \<Rightarrow> countingWriter \<Rightarrow> u32 \<Rightarrow> wres" where
  "cw_u32 sink cw v = cw_put sink cw (le_u32 v)"

definition cw_u64 :: "sink \<Rightarrow> countingWriter \<Rightarrow> u64 \<Rightarrow> wres" where
  "cw_u64 sink cw v = cw_put sink cw (le_u64 v)"

definition cw_str :: "sink \<Rightarrow> countingWriter \<Rightarrow> string \<Rightarrow> wres" where
  "cw_str sink cw s = w_then (cw_u64 sink cw (word_of_nat (length s)))
     (\<lambda>cw. cw_put sink cw (bytes_of_string s))"

definition alignUp64 :: "u64 \<Rightarrow> u64 \<Rightarrow> u64" where
  "alignUp64 n a = (if a = 0 then n else (n + a - 1) div a * a)"

section \<open>Metadata\<close>

definition kindToWireType :: "string \<Rightarrow> u32 option" where
  "kindToWireType k = map_of
    [(''u8'', 0), (''i8'', 1), (''u16'', 2), (''i16'', 3), (''u32'', 4), (''i32'', 5),
     (''f32'', 6), (''bool'', 7), (''str'', 8), (''array'', 9), (''u64'', 10), (''i64'', 11),
     (''f64'', 12)] k"

fun write_strs :: "sink \<Rightarrow> countingWriter \<Rightarrow> string list \<Rightarrow> wres" where
  "write_strs sink cw [] = (None, cw)"
| "write_strs sink cw (s # ss) = w_then (cw_str sink cw s) (\<lambda>cw. write_strs sink cw ss)"

fun write_f32s :: "sink \<Rightarrow> countingWriter \<Rightarrow> u32 list \<Rightarrow> wres" where
  "write_f32s sink cw [] = (None, cw)"
| "write_f32s sink cw (f # fs) = w_then (cw_u32 sink cw f) (\<lambda>cw. write_f32s sink cw fs)"

fun write_bools :: "sink \<Rightarrow> countingWriter \<Rightarrow> bool list \<Rightarrow> wres" where
  "write_bools sink cw [] = (None, cw)"
| "write_bools sink cw (b # bs) =
     w_then (cw_u8 sink cw (if b then 1 else 0)) (\<lambda>cw. write_bools sink cw bs)"

fun writeMetaValuePayload :: "sink \<Rightarrow> countingWriter \<Rightarrow> meta_value \<Rightarrow> wres"
  and writeMetaArray :: "sink \<Rightarrow> countingWriter \<Rightarrow> meta_any \<Rightarrow> wres"
  and write_items :: "sink \<Rightarrow> countingWriter \<Rightarrow> string \<Rightarrow> nat \<Rightarrow> meta_value list \<Rightarrow> wres" where
  "writeMetaValuePayload sink cw (MetaValue kind value) =
    (if kind = ''u8'' then (case value of VU8 x \<Rightarrow> cw_u8 sink cw x | _ \<Rightarrow> (Some (KindMismatch kind), cw))
     else if kind = ''i8'' then (case value of VI8 x \<Rightarrow> cw_u8 sink cw x | _ \<Rightarrow> (Some (KindMismatch kind), cw))
     else if kind = ''u16'' then (case value of VU16 x \<Rightarrow> cw_u16 sink cw x | _ \<Rightarrow> (Some (KindMismatch kind), cw))
     else if kind = ''i16'' then (case value of VI16 x \<Rightarrow> cw_u16 sink cw x | _ \<Rightarrow> (Some (KindMismatch kind), cw))
     else if kind = ''u32'' then (case value of VU32 x \<Rightarrow> cw_u32 sink cw x | _ \<Rightarrow> (Some (KindMismatch kind), cw))
     else if kind = ''i32'' then (case value of VI32 x \<Rightarrow> cw_u32 sink cw x | _ \<Rightarrow> (Some (KindMismatch kind), cw))
     else if kind = ''f32'' then (case value of VF32 x \<Rightarrow> cw_u32 sink cw x | _ \<Rightarrow> (Some (KindMismatch kind), cw))
     else if kind = ''bool'' then (case value of VBool x \<Rightarrow> cw_u8 sink cw (if x then 1 else 0)
                                    | _ \<Rightarrow> (Some (KindMismatch kind), cw))
     else if kind = ''str'' then (case value of VStr x \<Rightarrow> cw_str sink cw x | _ \<Rightarrow> (Some (KindMismatch kind), cw))
     else if kind = ''u64'' then (case value of VU64 x \<Rightarrow> cw_u64 sink cw x | _ \<Rightarrow> (Some (KindMismatch kind), cw))
     else if kind = ''i64'' then (case value of VI64 x \<Rightarrow> cw_u64 sink cw x | _ \<Rightarrow> (Some (KindMismatch kind), cw))
     else if kind = ''f64'' then (case value of VF64 x \<Rightarrow> cw_u64 sink cw x | _ \<Rightarrow> (Some (KindMismatch kind), cw))
     else if kind = ''array'' then writeMetaArray sink cw value
     else (Some (UnknownKind kind), cw))"
| "writeMetaArray sink cw value = (case value of
      VStrs arr \<Rightarrow> w_then (cw_u32 sink cw 8) (\<lambda>cw.
        w_then (cw_u64 sink cw (word_of_nat (length arr))) (\<lambda>cw. write_strs sink cw arr))
    | VF32s arr \<Rightarrow> w_then (cw_u32 sink cw 6) (\<lambda>cw.
        w_then (cw_u64 sink cw (word_of_nat (length arr))) (\<lambda>cw. write_f32s sink cw arr))
    | VBools arr \<Rightarrow> w_then (cw_u32 sink cw 7) (\<lambda>cw.
        w_then (cw_u64 sink cw (word_of_nat (length arr))) (\<lambda>cw. write_bools sink cw arr))
    | VMetas arr \<Rightarrow>
        (case arr of
           [] \<Rightarrow> w_then (cw_u32 sink cw 0) (\<lambda>cw. cw_u64 sink cw 0)
         | first # _ \<Rightarrow>
            (case kindToWireType (Kind first) of
               None \<Rightarrow> (Some (UnknownKind (Kind first)), cw)
             | Some tag \<Rightarrow> w_then (cw_u32 sink cw tag) (\<lambda>cw.
                 w_then (cw_u64 sink cw (word_of_nat (length arr))) (\<lambda>cw.
                   write_items sink cw (Kind first) 0 arr))))
    | _ \<Rightarrow> (Some UnsupportedArray, cw))"
| "write_items sink cw kind i [] = (None, cw)"
| "write_items sink cw kind i (item # items) =
    (if Kind item \<noteq> kind then (Some (Heterogeneous i), cw)
     else w_then (writeMetaValuePayload sink cw item) (\<lambda>cw. write_items sink cw kind (Suc i) items))"

definition writeMetaValue :: "sink \<Rightarrow> countingWriter \<Rightarrow> meta_value \<Rightarrow> wres" where
  "writeMetaValue sink cw v = (case kindToWireType (Kind v) of
      None \<Rightarrow> (Some (UnknownKind (Kind v)), cw)
    | Some tag \<Rightarrow> w_then (cw_u32 sink cw tag) (\<lambda>cw. writeMetaValuePayload sink cw v))"

section \<open>The header\<close>

record PlannedTensor =
  pName :: string
  pDims :: "u64 list"
  pDType :: GGMLType

record GGUFWriter =
  gw_cw :: countingWriter
  gw_alignment :: int
  gw_tensors :: "TensorInfo list"
  gw_dataOffset :: int
  gw_next :: nat

fun write_metadata :: "sink \<Rightarrow> countingWriter \<Rightarrow> (string, meta_value) gomap \<Rightarrow> string list \<Rightarrow> wres" where
  "write_metadata sink cw metadata [] = (None, cw)"
| "write_metadata sink cw metadata (key # keys) = w_then (cw_str sink cw key) (\<lambda>cw.
     case writeMetaValue sink cw (case map_of metadata key of Some v \<Rightarrow> v | None \<Rightarrow> MetaValue '''' VNil) of
       (Some e, cw) \<Rightarrow> (Some (InMetadata key e), cw)
     | (None, cw) \<Rightarrow> write_metadata sink cw metadata keys)"

fun plan_tensors :: "u64 \<Rightarrow> u64 \<Rightarrow> PlannedTensor list \<Rightarrow> werror + TensorInfo list" where
  "plan_tensors align offset [] = Inr []"
| "plan_tensors align offset (p # ps) =
    (case DataSize (pDType p) (numel_loop 1 (pDims p)) of
       None \<Rightarrow> Inl (UnsupportedType (pName p) (pDType p))
     | Some sz \<Rightarrow>
         and_then (plan_tensors align (alignUp64 (offset + word_of_int sz) align) ps) (\<lambda>ts.
           Inr (\<lparr>Name = pName p, Dims = pDims p, DType = pDType p, Offset = offset, Shard = None\<rparr> # ts)))"

fun write_dims :: "sink \<Rightarrow> countingWriter \<Rightarrow> u64 list \<Rightarrow> wres" where
  "write_dims sink cw [] = (None, cw)"
| "write_dims sink cw (d # ds) = w_then (cw_u64 sink cw d) (\<lambda>cw. write_dims sink cw ds)"

fun write_descriptors :: "sink \<Rightarrow> countingWriter \<Rightarrow> TensorInfo list \<Rightarrow> wres" where
  "write_descriptors sink cw [] = (None, cw)"
| "write_descriptors sink cw (t # ts) =
     w_then (cw_str sink cw (Name t)) (\<lambda>cw.
     w_then (cw_u32 sink cw (word_of_nat (length (Dims t)))) (\<lambda>cw.
     w_then (write_dims sink cw (Dims t)) (\<lambda>cw.
     w_then (cw_u32 sink cw (ggml_id (DType t))) (\<lambda>cw.
     w_then (cw_u64 sink cw (Offset t)) (\<lambda>cw. write_descriptors sink cw ts)))))"

definition effective_alignment :: "int \<Rightarrow> int" where
  "effective_alignment a = (if a \<le> 0 then 32 else a)"

definition effective_metadata :: "(string, meta_value) gomap \<Rightarrow> int \<Rightarrow> (string, meta_value) gomap" where
  "effective_metadata metadata a =
     AList.update ''general.alignment'' (MetaValue ''u32'' (VU32 (word_of_int a))) metadata"

definition header_prefix :: "sink \<Rightarrow> countingWriter \<Rightarrow> nat \<Rightarrow> (string, meta_value) gomap \<Rightarrow> wres" where
  "header_prefix sink cw nplanned metadata =
     w_then (cw_put sink cw (bytes_of_string ''GGUF'')) (\<lambda>cw.
     w_then (cw_u32 sink cw 3) (\<lambda>cw.
     w_then (cw_u64 sink cw (word_of_nat nplanned)) (\<lambda>cw.
     w_then (cw_u64 sink cw (word_of_nat (length metadata))) (\<lambda>cw.
       write_metadata sink cw metadata (sort (map fst metadata))))))"

definition pad_to_data :: "sink \<Rightarrow> countingWriter \<Rightarrow> int \<Rightarrow> wres" where
  "pad_to_data sink cw align =
    (let target = sint (alignUp64 (word_of_int (cw_pos cw)) (word_of_int align));
         pad = wrap64 (target - cw_pos cw)
     in if pad > 0 then cw_put sink cw (replicate (nat pad) 0) else (None, cw))"

definition NewGGUFWriter :: "sink \<Rightarrow> (string, meta_value) gomap \<Rightarrow> PlannedTensor list \<Rightarrow> int \<Rightarrow>
    werror + GGUFWriter" where
  "NewGGUFWriter sink metadata0 planned alignment0 =
    (let align = effective_alignment alignment0;
         metadata = effective_metadata metadata0 align
     in case header_prefix sink newCountingWriter (length planned) metadata of
          (Some e, cw) \<Rightarrow> Inl e
        | (None, cw) \<Rightarrow>
            and_then (plan_tensors (word_of_int align) 0 planned) (\<lambda>ts.
              case write_descriptors sink cw ts of
                (Some e, cw) \<Rightarrow> Inl e
              | (None, cw) \<Rightarrow>
                 (case pad_to_data sink cw align of
                    (Some e, cw) \<Rightarrow> Inl e
                  | (None, cw) \<Rightarrow>
                     (case cw_err cw of
                        Some e \<Rightarrow> Inl e
                      | None \<Rightarrow> Inr \<lparr>gw_cw = cw, gw_alignment = align, gw_tensors = ts,
                                      gw_dataOffset = cw_pos cw, gw_next = 0\<rparr>))))"

section \<open>Tensor data\<close>

datatype callback =
    Return "werror option"
  | Write "u8 list" "nat \<times> werror option \<Rightarrow> callback"

record tensorStreamWriter =
  sw_w :: countingWriter
  sw_remaining :: int
  sw_err :: "werror option"

definition stream_Write :: "sink \<Rightarrow> tensorStreamWriter \<Rightarrow> u8 list \<Rightarrow>
    (nat \<times> werror option) \<times> tensorStreamWriter" where
  "stream_Write sink s p =
    (if sw_err s \<noteq> None then ((0, sw_err s), s)
     else if int (length p) > sw_remaining s
     then let e = Some (StreamOverrun (int (length p) - sw_remaining s)) in ((0, e), s\<lparr>sw_err := e\<rparr>)
     else let ((n0, e0), cw') = cw_Write sink (sw_w s) p;
              (n, e) = (if n0 > length p then (0, Some ShortWrite)
                        else if n0 \<noteq> length p \<and> e0 = None then (n0, Some ShortWrite)
                        else (n0, e0))
          in ((n, e), s\<lparr>sw_w := cw', sw_remaining := sw_remaining s - int n, sw_err := e\<rparr>))"

primrec run_callback :: "callback \<Rightarrow> sink \<Rightarrow> tensorStreamWriter \<Rightarrow> werror option \<times> tensorStreamWriter" where
  "run_callback (Return e) sink s = (e, s)"
| "run_callback (Write p k) sink s =
     (let r = stream_Write sink s p in run_callback (k (fst r)) sink (snd r))"

definition or_else :: "'a option \<Rightarrow> 'a option \<Rightarrow> 'a option" where
  "or_else a b = (case a of None \<Rightarrow> b | Some x \<Rightarrow> Some x)"

definition pad_to_next :: "sink \<Rightarrow> GGUFWriter \<Rightarrow> string \<Rightarrow> werror option \<times> GGUFWriter" where
  "pad_to_next sink gw name =
    (if gw_next gw < length (gw_tensors gw) then
       let wantPos = wrap64 (gw_dataOffset gw + sint (Offset (gw_tensors gw ! gw_next gw)));
           pad = wrap64 (wantPos - cw_pos (gw_cw gw))
       in if pad > 0
          then (case cw_put sink (gw_cw gw) (replicate (nat pad) 0) of
                  (Some e, c) \<Rightarrow> (Some e, gw\<lparr>gw_cw := c\<rparr>)
                | (None, c) \<Rightarrow> (cw_err c, gw\<lparr>gw_cw := c\<rparr>))
          else if pad < 0 then (Some (Overran name (wrap64 (- pad))), gw)
          else (cw_err (gw_cw gw), gw)
     else (cw_err (gw_cw gw), gw))"

definition WriteTensorStream :: "sink \<Rightarrow> GGUFWriter \<Rightarrow> callback option \<Rightarrow>
    werror option \<times> GGUFWriter" where
  "WriteTensorStream sink gw write =
    (if cw_err (gw_cw gw) \<noteq> None then (cw_err (gw_cw gw), gw)
     else if gw_next gw \<ge> length (gw_tensors gw) then (Some (TooManyTensors (length (gw_tensors gw))), gw)
     else let t = gw_tensors gw ! gw_next gw in
       case DataSize (DType t) (Numel t) of
         None \<Rightarrow> let e = Some (UnsupportedType (Name t) (DType t)) in (e, gw\<lparr>gw_cw := (gw_cw gw)\<lparr>cw_err := e\<rparr>\<rparr>)
       | Some sz \<Rightarrow>
           let s0 = \<lparr>sw_w = gw_cw gw, sw_remaining = sz, sw_err = None\<rparr>;
               (e1, s) = (case write of None \<Rightarrow> (Some NilCallback, s0)
                                      | Some cb \<Rightarrow> run_callback cb sink s0);
               e2 = or_else e1 (sw_err s);
               e3 = or_else e2 (if sw_remaining s \<noteq> 0 then Some (StreamMissing (sw_remaining s)) else None)
           in case e3 of
                Some e \<Rightarrow> (Some (InTensor (Name t) e),
                           gw\<lparr>gw_cw := (sw_w s)\<lparr>cw_err := Some (InTensor (Name t) e)\<rparr>\<rparr>)
              | None \<Rightarrow> pad_to_next sink (gw\<lparr>gw_cw := sw_w s, gw_next := gw_next gw + 1\<rparr>) (Name t))"

definition WriteTensor :: "sink \<Rightarrow> GGUFWriter \<Rightarrow> u8 list \<Rightarrow> werror option \<times> GGUFWriter" where
  "WriteTensor sink gw data =
    (if cw_err (gw_cw gw) \<noteq> None then (cw_err (gw_cw gw), gw)
     else if gw_next gw \<ge> length (gw_tensors gw) then (Some (TooManyTensors (length (gw_tensors gw))), gw)
     else let t = gw_tensors gw ! gw_next gw; want = DataSize (DType t) (numel_loop 1 (Dims t)) in
       if want \<noteq> Some (int (length data))
       then (Some (WrongSize (Name t) (length data) (case want of None \<Rightarrow> 0 | Some x \<Rightarrow> x)), gw)
       else WriteTensorStream sink gw (Some (Write data (\<lambda>(n, e). Return e))))"

definition writer_Close :: "(u8 list \<Rightarrow> werror option) \<Rightarrow> GGUFWriter \<Rightarrow> werror option \<times> GGUFWriter" where
  "writer_Close flush gw =
    (if cw_err (gw_cw gw) \<noteq> None then (cw_err (gw_cw gw), gw)
     else if gw_next gw \<noteq> length (gw_tensors gw) then (Some (ClosedEarly (gw_next gw) (length (gw_tensors gw))), gw)
     else let e = flush (cw_out (gw_cw gw)) in (e, gw\<lparr>gw_cw := (gw_cw gw)\<lparr>cw_err := e\<rparr>\<rparr>))"

end
