(* ===== verification/Gguf_Roundtrip.thy ===== *)
theory Gguf_Roundtrip
  imports Gguf_Reader Gguf_Writer
begin

text \<open>
  The writer of \<^verbatim>\<open>gguf_write.go\<close> against the parser of \<^verbatim>\<open>gguf.go\<close>. The wire format is stated once
  as the encoders \<open>enc_str\<close>, \<open>enc_any\<close>, \<open>enc_kv\<close> and \<open>enc_desc\<close>; the locale \<open>codec\<close> is the law
  a decoder and an encoder share, and \<open>codec_loop\<close> lifts it to the counted loops of the reader. The
  main result is that the parser reads back the header the writer has written.
\<close>


section \<open>The codec interface\<close>

text \<open>\<open>feeds c bs\<close>: the cursor stands inside its buffer and the bytes ahead of it are \<open>bs\<close>.\<close>

definition feeds :: "cursor \<Rightarrow> u8 list \<Rightarrow> bool" where
  "feeds c bs \<longleftrightarrow> cur_pos c \<le> length (cur_data c) \<and> drop (cur_pos c) (cur_data c) = bs"

definition adv :: "cursor \<Rightarrow> nat \<Rightarrow> cursor" where
  "adv c n = c\<lparr>cur_pos := cur_pos c + n\<rparr>"

lemma cur_data_adv [simp]: "cur_data (adv c n) = cur_data c"
  and cur_pos_adv [simp]: "cur_pos (adv c n) = cur_pos c + n"
  and adv_0 [simp]: "adv c 0 = c"
  and adv_adv [simp]: "adv (adv c m) n = adv c (m + n)"
  by (simp_all add: adv_def add.assoc)

lemma feeds_adv: "feeds c (bs @ post) \<Longrightarrow> n = length bs \<Longrightarrow> feeds (adv c n) post"
proof -
  assume f: "feeds c (bs @ post)" and n: "n = length bs"
  from f have d: "drop (cur_pos c) (cur_data c) = bs @ post" by (simp add: feeds_def)
  then have "length (cur_data c) - cur_pos c = length bs + length post" by (metis length_append length_drop)
  moreover have "cur_pos c \<le> length (cur_data c)" using f by (simp add: feeds_def)
  ultimately have "cur_pos c + n \<le> length (cur_data c)" using n by linarith
  moreover have "drop (cur_pos c + n) (cur_data c) = post"
    by (metis append_eq_conv_conj d drop_drop add.commute n)
  ultimately show ?thesis by (simp add: feeds_def)
qed

lemma feeds_length: "feeds c bs \<Longrightarrow> length (cur_data c) = cur_pos c + length bs"
  by (auto simp: feeds_def)

locale codec =
  fixes enc :: "'a \<Rightarrow> u8 list"
    and dec :: "cursor \<Rightarrow> gguf_error + ('a \<times> cursor)"
    and valid :: "'a \<Rightarrow> bool"
  assumes dec_enc: "valid v \<Longrightarrow> feeds c (enc v @ post) \<Longrightarrow> dec c = Inr (v, adv c (length (enc v)))"

locale codec_loop = codec +
  fixes loop :: "nat \<Rightarrow> cursor \<Rightarrow> gguf_error + ('a list \<times> cursor)"
  assumes loop_0: "loop 0 c = Inr ([], c)"
    and loop_Suc: "loop (Suc n) c = and_then (dec c) (\<lambda>(v, c). and_then (loop n c) (\<lambda>(vs, c). Inr (v # vs, c)))"
begin

lemma loop_enc:
  "(\<And>v. v \<in> set vs \<Longrightarrow> valid v) \<Longrightarrow> feeds c (concat (map enc vs) @ post) \<Longrightarrow>
    loop (length vs) c = Inr (vs, adv c (length (concat (map enc vs))))"
proof (induction vs arbitrary: c)
  case Nil
  then show ?case by (simp add: loop_0)
next
  case (Cons v vs)
  have f: "feeds c (enc v @ (concat (map enc vs) @ post))" using Cons.prems(2) by simp
  have "dec c = Inr (v, adv c (length (enc v)))"
    using Cons.prems(1) f by (intro dec_enc) auto
  moreover have "loop (length vs) (adv c (length (enc v)))
      = Inr (vs, adv (adv c (length (enc v))) (length (concat (map enc vs))))"
    using Cons.prems(1) feeds_adv [OF f refl] by (intro Cons.IH) auto
  ultimately show ?case by (simp add: loop_Suc)
qed

end

lemma feeds_take:
  "feeds c (bs @ post) \<Longrightarrow> n = length bs \<Longrightarrow> take n (drop (cur_pos c) (cur_data c)) = bs"
  by (auto simp: feeds_def)

lemma cur_u8_enc: "feeds c ([v] @ post) \<Longrightarrow> cur_u8 c = Inr (v, adv c 1)"
proof -
  assume f: "feeds c ([v] @ post)"
  then have "cur_data c ! cur_pos c = v"
    using hd_drop_conv_nth [of "cur_pos c" "cur_data c"] feeds_length [OF f] by (simp add: feeds_def)
  with feeds_length [OF f] show ?thesis by (simp add: cur_u8_def need_def adv_def)
qed

lemma cur_u16_enc: "feeds c (le_u16 v @ post) \<Longrightarrow> cur_u16 c = Inr (v, adv c 2)"
  by (frule feeds_length, frule feeds_take [where n = 2]) (simp_all add: cur_u16_def need_def adv_def)

lemma cur_u32_enc: "feeds c (le_u32 v @ post) \<Longrightarrow> cur_u32 c = Inr (v, adv c 4)"
  by (frule feeds_length, frule feeds_take [where n = 4]) (simp_all add: cur_u32_def need_def adv_def)

lemma cur_u64_enc: "feeds c (le_u64 v @ post) \<Longrightarrow> cur_u64 c = Inr (v, adv c 8)"
  by (frule feeds_length, frule feeds_take [where n = 8]) (simp_all add: cur_u64_def need_def adv_def)

definition enc_str :: "string \<Rightarrow> u8 list" where
  "enc_str s = le_u64 (word_of_nat (length s)) @ bytes_of_string s"

definition str_ok :: "string \<Rightarrow> bool" where
  "str_ok s \<longleftrightarrow> length s < 18446744073709551616"

lemma unat_of_len: "n < 18446744073709551616 \<Longrightarrow> unat (word_of_nat n :: u64) = n"
  by (simp add: unat_of_nat)

lemma length_enc_str [simp]: "length (enc_str s) = 8 + length s"
  by (simp add: enc_str_def)

lemma cur_str_enc:
  assumes "str_ok s" and f: "feeds c (enc_str s @ post)"
  shows "cur_str c = Inr (s, adv c (length (enc_str s)))"
proof -
  let ?n = "word_of_nat (length s) :: u64"
  have n: "unat ?n = length s" using assms(1) by (simp add: str_ok_def unat_of_len)
  then have u: "uint ?n = int (length s)" by (metis of_nat_unat)
  have f1: "feeds c (le_u64 ?n @ (bytes_of_string s @ post))" using f by (simp add: enc_str_def)
  have r: "cur_u64 c = Inr (?n, adv c 8)" by (rule cur_u64_enc [OF f1])
  have f2: "feeds (adv c 8) (bytes_of_string s @ post)" by (rule feeds_adv [OF f1]) simp
  have t: "take (length s) (drop (cur_pos c + 8) (cur_data c)) = bytes_of_string s"
    using feeds_take [OF f2, of "length s"] by simp
  have l: "length (cur_data c) = cur_pos c + 8 + (length s + length post)"
    using feeds_length [OF f2] by simp
  have "adv (adv c 8) (length s) = (adv c 8)\<lparr>cur_pos := cur_pos c + 8 + length s\<rparr>" by (simp add: adv_def)
  with t l n u show ?thesis unfolding cur_str_def r by (simp add: Let_def need_def add.assoc)
qed

section \<open>The wire format of metadata\<close>

fun kind_of :: "meta_any \<Rightarrow> string" where
  "kind_of (VU8 _) = ''u8''" | "kind_of (VI8 _) = ''i8''"
| "kind_of (VU16 _) = ''u16''" | "kind_of (VI16 _) = ''i16''"
| "kind_of (VU32 _) = ''u32''" | "kind_of (VI32 _) = ''i32''"
| "kind_of (VU64 _) = ''u64''" | "kind_of (VI64 _) = ''i64''"
| "kind_of (VF32 _) = ''f32''" | "kind_of (VF64 _) = ''f64''"
| "kind_of (VBool _) = ''bool''" | "kind_of (VStr _) = ''str''"
| "kind_of VNil = ''''" | "kind_of _ = ''array''"

fun tag_of :: "meta_any \<Rightarrow> u32" where
  "tag_of (VU8 _) = 0" | "tag_of (VI8 _) = 1"
| "tag_of (VU16 _) = 2" | "tag_of (VI16 _) = 3"
| "tag_of (VU32 _) = 4" | "tag_of (VI32 _) = 5"
| "tag_of (VU64 _) = 10" | "tag_of (VI64 _) = 11"
| "tag_of (VF32 _) = 6" | "tag_of (VF64 _) = 12"
| "tag_of (VBool _) = 7" | "tag_of (VStr _) = 8" | "tag_of _ = 9"

definition enc_bool :: "bool \<Rightarrow> u8 list" where
  "enc_bool b = [if b then 1 else 0]"

definition enc_count :: "'a list \<Rightarrow> u8 list" where
  "enc_count xs = le_u64 (word_of_nat (length xs))"

lemma length_enc_count [simp]: "length (enc_count xs) = 8"
  by (simp add: enc_count_def)

fun enc_any :: "meta_any \<Rightarrow> u8 list" and enc_value :: "meta_value \<Rightarrow> u8 list" where
  "enc_any (VU8 x) = [x]" | "enc_any (VI8 x) = [x]"
| "enc_any (VU16 x) = le_u16 x" | "enc_any (VI16 x) = le_u16 x"
| "enc_any (VU32 x) = le_u32 x" | "enc_any (VI32 x) = le_u32 x"
| "enc_any (VU64 x) = le_u64 x" | "enc_any (VI64 x) = le_u64 x"
| "enc_any (VF32 x) = le_u32 x" | "enc_any (VF64 x) = le_u64 x"
| "enc_any (VBool b) = enc_bool b" | "enc_any (VStr s) = enc_str s"
| "enc_any (VStrs ss) = le_u32 8 @ enc_count ss @ concat (map enc_str ss)"
| "enc_any (VF32s fs) = le_u32 6 @ enc_count fs @ concat (map le_u32 fs)"
| "enc_any (VBools bs) = le_u32 7 @ enc_count bs @ concat (map enc_bool bs)"
| "enc_any (VMetas arr) = le_u32 (case arr of [] \<Rightarrow> 0 | v # _ \<Rightarrow> tag_of (Value v))
     @ enc_count arr @ concat (map enc_value arr)"
| "enc_any (VU32s _) = []" | "enc_any VNil = []"
| "enc_value (MetaValue k a) = enc_any a"

fun wf_any :: "nat \<Rightarrow> meta_any \<Rightarrow> bool" and wf_meta :: "nat \<Rightarrow> meta_value \<Rightarrow> bool" where
  "wf_any d (VStr s) = str_ok s"
| "wf_any d (VStrs ss) = (d < 16 \<and> length ss \<le> 16777216 \<and> list_all str_ok ss)"
| "wf_any d (VF32s fs) = (d < 16 \<and> length fs \<le> 16777216)"
| "wf_any d (VBools bs) = (d < 16 \<and> length bs \<le> 16777216)"
| "wf_any d (VMetas arr) = (d < 16 \<and> length arr \<le> 16777216 \<and> list_all (wf_meta (Suc d)) arr
     \<and> list_all (\<lambda>v. Kind v = Kind (hd arr) \<and> Kind v \<notin> {''str'', ''f32'', ''bool''}) arr)"
| "wf_any d (VU32s _) = False"
| "wf_any d VNil = False"
| "wf_any d _ = True"
| "wf_meta d (MetaValue k a) = (k = kind_of a \<and> wf_any d a)"

lemma wf_meta_Kind: "wf_meta d v \<Longrightarrow> Kind v = kind_of (Value v) \<and> wf_any d (Value v)"
  by (cases v) simp

lemma enc_value_Value: "enc_value v = enc_any (Value v)"
  by (cases v) simp

lemma kindToWireType_kind_of: "wf_any d a \<Longrightarrow> kindToWireType (kind_of a) = Some (tag_of a)"
  by (cases a) (simp_all add: kindToWireType_def)

lemma enc_any_minimum:
  "wf_any d a \<Longrightarrow> \<exists>m. elem_minimum (tag_of a) = Some m \<and> 1 \<le> m \<and> m \<le> length (enc_any a)"
  by (cases a) (simp_all add: elem_minimum_def enc_bool_def)

lemma kind_eq_tag_eq:
  "wf_any d a \<Longrightarrow> wf_any d b \<Longrightarrow> kind_of a = kind_of b \<Longrightarrow> tag_of a = tag_of b"
  by (metis kindToWireType_kind_of option.inject)

lemma plain_kind_tag:
  "wf_any d a \<Longrightarrow> kind_of a \<notin> {''str'', ''f32'', ''bool''} \<Longrightarrow> tag_of a \<notin> {8, 6, 7}"
  by (cases a) simp_all


section \<open>Reading back\<close>

interpretation u16_codec: codec le_u16 cur_u16 "\<lambda>_. True"
  by unfold_locales (auto intro: cur_u16_enc)

interpretation str_loop: codec_loop enc_str cur_str str_ok cur_strs
  by unfold_locales (simp_all add: cur_str_enc)

interpretation f32_loop: codec_loop le_u32 cur_u32 "\<lambda>_. True" cur_f32s
  by unfold_locales (auto intro: cur_u32_enc)

interpretation dims_loop: codec_loop le_u64 cur_u64 "\<lambda>_. True" parse_dims
  by unfold_locales (auto intro: cur_u64_enc)

lemma cur_bools_enc:
  "feeds c (concat (map enc_bool bs) @ post) \<Longrightarrow> cur_bools (length bs) c = Inr (bs, adv c (length bs))"
proof (induction bs arbitrary: c)
  case Nil
  then show ?case by simp
next
  case (Cons b bs)
  have f: "feeds c ([if b then 1 else 0] @ (concat (map enc_bool bs) @ post))"
    using Cons.prems by (simp add: enc_bool_def [of b])
  have "cur_u8 c = Inr (if b then 1 else 0, adv c 1)" by (rule cur_u8_enc [OF f])
  moreover have "cur_bools (length bs) (adv c 1) = Inr (bs, adv (adv c 1) (length bs))"
    by (rule Cons.IH [OF feeds_adv [OF f]]) simp
  ultimately show ?case by simp
qed

lemma cur_values_enc:
  assumes "\<And>v c post. v \<in> set vs \<Longrightarrow> feeds c (enc_value v @ post) \<Longrightarrow>
      cur_value d tag c = Inr (v, adv c (length (enc_value v)))"
    and "feeds c (concat (map enc_value vs) @ post)"
  shows "cur_values d tag (length vs) c = Inr (vs, adv c (length (concat (map enc_value vs))))"
  using assms
proof (induction vs arbitrary: c)
  case Nil
  then show ?case by simp
next
  case (Cons v vs)
  have f: "feeds c (enc_value v @ (concat (map enc_value vs) @ post))" using Cons.prems(2) by simp
  have "cur_value d tag c = Inr (v, adv c (length (enc_value v)))"
    by (rule Cons.prems(1) [OF _ f]) simp
  moreover have "cur_values d tag (length vs) (adv c (length (enc_value v)))
      = Inr (vs, adv (adv c (length (enc_value v))) (length (concat (map enc_value vs))))"
    by (rule Cons.IH [OF Cons.prems(1) feeds_adv [OF f refl]]) auto
  ultimately show ?case by simp
qed

lemma unat_count: "length xs \<le> 16777216 \<Longrightarrow> unat (word_of_nat (length xs) :: u64) = length xs"
  by (rule unat_of_len) simp

lemma concat_min_length:
  "(\<And>x. x \<in> set xs \<Longrightarrow> m \<le> length (f x)) \<Longrightarrow> length xs * m \<le> length (concat (map f xs))"
  by (induction xs) (auto simp: add_mono)

text \<open>The prefix of an array: element tag, count, and the bound check of the reader.\<close>

lemma cur_array_prefix:
  assumes f: "feeds c (le_u32 elem @ enc_count xs @ concat (map e xs) @ post)"
    and len: "length xs \<le> 16777216"
    and m: "0 < m" "\<And>x. x \<in> set xs \<Longrightarrow> m \<le> length (e x)"
  shows "cur_u32 c = Inr (elem, adv c 4)"
    and "cur_u64 (adv c 4) = Inr (word_of_nat (length xs), adv c 12)"
    and "feeds (adv c 12) (concat (map e xs) @ post)"
    and "length xs \<le> (length (cur_data c) - (cur_pos c + 12)) div m"
proof -
  show "cur_u32 c = Inr (elem, adv c 4)" by (rule cur_u32_enc [OF f])
  have f4: "feeds (adv c 4) (le_u64 (word_of_nat (length xs)) @ (concat (map e xs) @ post))"
    using feeds_adv [OF f, of 4] by (simp add: enc_count_def)
  show "cur_u64 (adv c 4) = Inr (word_of_nat (length xs), adv c 12)"
    using cur_u64_enc [OF f4] by simp
  show f12: "feeds (adv c 12) (concat (map e xs) @ post)"
    using feeds_adv [OF f4, of 8] by simp
  have "length xs * m \<le> length (concat (map e xs))" by (rule concat_min_length [OF m(2)])
  also have "\<dots> \<le> length (cur_data c) - (cur_pos c + 12)" using feeds_length [OF f12] by simp
  finally show "length xs \<le> (length (cur_data c) - (cur_pos c + 12)) div m"
    using m(1) by (simp add: less_eq_div_iff_mult_less_eq)
qed

lemma cur_value_enc_typed:
  shows "wf_any d (VStrs ss) \<Longrightarrow> feeds c (enc_any (VStrs ss) @ post) \<Longrightarrow>
      cur_value d 9 c = Inr (MetaValue ''array'' (VStrs ss), adv c (length (enc_any (VStrs ss))))"
    and "wf_any d (VF32s fs) \<Longrightarrow> feeds c (enc_any (VF32s fs) @ post) \<Longrightarrow>
      cur_value d 9 c = Inr (MetaValue ''array'' (VF32s fs), adv c (length (enc_any (VF32s fs))))"
    and "wf_any d (VBools bs) \<Longrightarrow> feeds c (enc_any (VBools bs) @ post) \<Longrightarrow>
      cur_value d 9 c = Inr (MetaValue ''array'' (VBools bs), adv c (length (enc_any (VBools bs))))"
proof -
  assume wf: "wf_any d (VStrs ss)" and "feeds c (enc_any (VStrs ss) @ post)"
  then have f: "feeds c (le_u32 8 @ enc_count ss @ concat (map enc_str ss) @ post)" by simp
  have len: "length ss \<le> 16777216" using wf by simp
  note p = cur_array_prefix [OF f len, of 8, simplified]
  have "cur_strs (length ss) (adv c 12) = Inr (ss, adv (adv c 12) (length (concat (map enc_str ss))))"
    using wf by (intro str_loop.loop_enc [OF _ p(3)]) (auto simp: list_all_iff)
  then show "cur_value d 9 c = Inr (MetaValue ''array'' (VStrs ss), adv c (length (enc_any (VStrs ss))))"
    using p(1,2,4) wf by (simp add: cur_value.simps elem_minimum_def unat_count [OF len] tag_value_def)
next
  assume wf: "wf_any d (VF32s fs)" and "feeds c (enc_any (VF32s fs) @ post)"
  then have f: "feeds c (le_u32 6 @ enc_count fs @ concat (map le_u32 fs) @ post)" by simp
  have len: "length fs \<le> 16777216" using wf by simp
  note p = cur_array_prefix [OF f len, of 4, simplified]
  have "cur_f32s (length fs) (adv c 12) = Inr (fs, adv (adv c 12) (length (concat (map le_u32 fs))))"
    by (rule f32_loop.loop_enc [OF _ p(3)]) simp
  then show "cur_value d 9 c = Inr (MetaValue ''array'' (VF32s fs), adv c (length (enc_any (VF32s fs))))"
    using p(1,2,4) wf by (simp add: cur_value.simps elem_minimum_def unat_count [OF len] tag_value_def)
next
  assume wf: "wf_any d (VBools bs)" and "feeds c (enc_any (VBools bs) @ post)"
  then have f: "feeds c (le_u32 7 @ enc_count bs @ concat (map enc_bool bs) @ post)" by simp
  have len: "length bs \<le> 16777216" using wf by simp
  have m: "\<And>x. x \<in> set bs \<Longrightarrow> 1 \<le> length (enc_bool x)" by (simp add: enc_bool_def)
  note p = cur_array_prefix [OF f len zero_less_one m]
  have l: "length (concat (map enc_bool bs)) = length bs"
    by (simp add: length_concat comp_def enc_bool_def sum_list_triv)
  have "cur_bools (length bs) (adv c 12) = Inr (bs, adv (adv c 12) (length bs))"
    by (rule cur_bools_enc [OF p(3)])
  then show "cur_value d 9 c = Inr (MetaValue ''array'' (VBools bs), adv c (length (enc_any (VBools bs))))"
    using p(1,2,4) wf l by (simp add: cur_value.simps elem_minimum_def unat_count [OF len] tag_value_def)
qed

lemma cur_value_enc_metas:
  assumes wf: "wf_any d (VMetas arr)" and f0: "feeds c (enc_any (VMetas arr) @ post)"
    and IH: "\<And>v c post. v \<in> set arr \<Longrightarrow> wf_meta (Suc d) v \<Longrightarrow> feeds c (enc_value v @ post) \<Longrightarrow>
      cur_value (Suc d) (tag_of (Value v)) c = Inr (v, adv c (length (enc_value v)))"
  shows "cur_value d 9 c = Inr (MetaValue ''array'' (VMetas arr), adv c (length (enc_any (VMetas arr))))"
proof -
  let ?tag = "case arr of [] \<Rightarrow> 0 | v # _ \<Rightarrow> tag_of (Value v)"
  have f: "feeds c (le_u32 ?tag @ enc_count arr @ concat (map enc_value arr) @ post)" using f0 by simp
  have len: "length arr \<le> 16777216" using wf by simp
  have tags: "tag_of (Value v) = ?tag" "wf_meta (Suc d) v" if "v \<in> set arr" for v
  proof -
    from that obtain a as where arr: "arr = a # as" by (cases arr) auto
    then have a: "wf_meta (Suc d) a" using wf by simp
    show v: "wf_meta (Suc d) v" using wf that by (auto simp: list_all_iff)
    have "Kind v = Kind a" using wf that arr by (auto simp: list_all_iff)
    then have "kind_of (Value v) = kind_of (Value a)"
      using wf_meta_Kind [OF v] wf_meta_Kind [OF a] by simp
    then have "tag_of (Value v) = tag_of (Value a)"
      using kind_eq_tag_eq wf_meta_Kind [OF v] wf_meta_Kind [OF a] by blast
    then show "tag_of (Value v) = ?tag" by (simp add: arr)
  qed
  have plain: "?tag \<notin> {8, 6, 7}"
  proof (cases arr)
    case (Cons a as)
    then have "wf_meta (Suc d) a" "Kind a \<notin> {''str'', ''f32'', ''bool''}" using wf by simp_all
    then have "tag_of (Value a) \<notin> {8, 6, 7}"
      using plain_kind_tag [of "Suc d" "Value a"] wf_meta_Kind [of "Suc d" a] by simp
    then show ?thesis by (simp add: Cons)
  qed simp
  have "\<exists>m. elem_minimum ?tag = Some m \<and> 0 < m \<and> (\<forall>v \<in> set arr. m \<le> length (enc_value v))"
  proof (cases arr)
    case Nil
    then show ?thesis by (simp add: elem_minimum_def)
  next
    case (Cons a as)
    have t: "tag_of (Value v) = tag_of (Value a)" if "v \<in> set arr" for v
      using tags(1) [OF that] by (simp add: Cons)
    have w: "wf_any (Suc d) (Value v)" if "v \<in> set arr" for v 
      using wf_meta_Kind [OF tags(2) [OF that]] by simp
    then obtain m where m: "elem_minimum (tag_of (Value a)) = Some m" "1 \<le> m"
      using enc_any_minimum [of "Suc d" "Value a"] Cons by auto
    have "m \<le> length (enc_value v)" if v: "v \<in> set arr" for v
      using enc_any_minimum [OF w [OF v]] t [OF v] m(1) by (auto simp: enc_value_Value)
    then show ?thesis using m Cons by auto
  qed
  then obtain m where m: "elem_minimum ?tag = Some m" "0 < m" "\<And>v. v \<in> set arr \<Longrightarrow> m \<le> length (enc_value v)"
    by blast
  note p = cur_array_prefix [OF f len m(2,3)]
  have "cur_values (Suc d) ?tag (length arr) (adv c 12)
      = Inr (arr, adv (adv c 12) (length (concat (map enc_value arr))))"
  proof (rule cur_values_enc [OF _ p(3)])
    fix v c post assume v: "v \<in> set arr" and "feeds c (enc_value v @ post)"
    then have "cur_value (Suc d) (tag_of (Value v)) c = Inr (v, adv c (length (enc_value v)))"
      using IH tags(2) by blast
    then show "cur_value (Suc d) ?tag c = Inr (v, adv c (length (enc_value v)))"
      by (simp only: tags(1) [OF v])
  qed
  moreover have "?tag \<noteq> 8" "?tag \<noteq> 6" "?tag \<noteq> 7" using plain by simp_all
  moreover have "d < 16" using wf by simp
  moreover define tag where "tag = ?tag"
  ultimately show ?thesis
    using p(1,2,4) m(1) len unfolding tag_def [symmetric] enc_any.simps
    by (subst cur_value.simps) (simp add: unat_count [OF len] tag_value_def)
qed

lemma cur_value_enc:
  fixes a :: meta_any and v :: meta_value
  shows "wf_any d a \<Longrightarrow> feeds c (enc_any a @ post) \<Longrightarrow>
      cur_value d (tag_of a) c = Inr (MetaValue (kind_of a) a, adv c (length (enc_any a)))"
    and "wf_meta d v \<Longrightarrow> feeds c (enc_value v @ post) \<Longrightarrow>
      cur_value d (tag_of (Value v)) c = Inr (v, adv c (length (enc_value v)))"
proof (induction a and v arbitrary: d c post and d c post)
  case (VStrs ss)
  then show ?case using cur_value_enc_typed(1) by simp
next
  case (VF32s fs)
  then show ?case using cur_value_enc_typed(2) by simp
next
  case (VBools bs)
  then show ?case using cur_value_enc_typed(3) by simp
next
  case (VMetas arr)
  show ?case using cur_value_enc_metas [OF VMetas.prems VMetas.IH] by simp
next
  case (VStr s)
  then show ?case using cur_str_enc [of s c post] by (simp add: cur_value.simps tag_value_def)
next
  case (VBool b)
  then show ?case using cur_u8_enc [of c "if b then 1 else 0" post]
    by (simp add: cur_value.simps tag_value_def enc_bool_def)
qed (auto simp: cur_value.simps tag_value_def cur_u8_enc dest: cur_u16_enc cur_u32_enc cur_u64_enc)


section \<open>What the writer emits\<close>

text \<open>An \<^verbatim>\<open>io.Writer\<close> that takes every byte and never fails.\<close>

definition sink_ok :: sink where
  "sink_ok = (\<lambda>_ p. (length p, None))"

definition emit :: "countingWriter \<Rightarrow> u8 list \<Rightarrow> countingWriter" where
  "emit cw bs = cw\<lparr>cw_out := cw_out cw @ bs, cw_pos := wrap64 (cw_pos cw + int (length bs))\<rparr>"

lemma wrap64_add: "wrap64 (wrap64 x + y) = wrap64 (x + y)"
  unfolding wrap64_def by (simp add: mod_simps algebra_simps)

lemma emit_emit [simp]: "emit (emit cw a) b = emit cw (a @ b)"
  by (simp add: emit_def wrap64_add add.assoc)

lemma cw_err_emit [simp]: "cw_err (emit cw a) = cw_err cw"
  and cw_out_emit [simp]: "cw_out (emit cw a) = cw_out cw @ a"
  by (simp_all add: emit_def)

lemma w_then_None [simp]: "w_then (None, cw) f = f cw"
  and w_then_Some [simp]: "w_then (Some e, cw) f = (Some e, cw)"
  by (simp_all add: w_then_def)

lemma cw_put_ok [simp]: "cw_err cw = None \<Longrightarrow> cw_put sink_ok cw p = (None, emit cw p)"
  by (simp add: cw_put_def cw_Write_def sink_ok_def emit_def)

lemma cw_scalar_ok [simp]:
  assumes "cw_err cw = None"
  shows "cw_u8 sink_ok cw a = (None, emit cw [a])"
    and "cw_u16 sink_ok cw b = (None, emit cw (le_u16 b))"
    and "cw_u32 sink_ok cw x = (None, emit cw (le_u32 x))"
    and "cw_u64 sink_ok cw y = (None, emit cw (le_u64 y))"
    and "cw_str sink_ok cw s = (None, emit cw (enc_str s))"
  using assms by (simp_all add: cw_u8_def cw_u16_def cw_u32_def cw_u64_def cw_str_def enc_str_def)

lemma emit_Nil: "cw_err cw = None \<Longrightarrow> - 9223372036854775808 \<le> cw_pos cw \<Longrightarrow> cw_pos cw \<le> max_int \<Longrightarrow> emit cw [] = cw"
  by (simp add: emit_def)

definition cw_ok :: "countingWriter \<Rightarrow> bool" where
  "cw_ok cw \<longleftrightarrow> cw_err cw = None \<and> wrap64 (cw_pos cw) = cw_pos cw"

lemma wrap64_wrap64 [simp]: "wrap64 (wrap64 x) = wrap64 x"
  using wrap64_add [of x 0] by simp

lemma cw_ok_emit [simp]: "cw_ok cw \<Longrightarrow> cw_ok (emit cw bs)"
  by (simp add: cw_ok_def emit_def)

lemma cw_ok_new [simp]: "cw_ok newCountingWriter"
  by (simp add: cw_ok_def newCountingWriter_def max_int_def)

lemma cw_okD [simp]: "cw_ok cw \<Longrightarrow> cw_err cw = None"
  and emit_Nil_ok [simp]: "cw_ok cw \<Longrightarrow> emit cw [] = cw"
  by (simp_all add: cw_ok_def emit_def)

lemma write_list_ok:
  assumes "cw_ok cw"
  shows "write_strs sink_ok cw ss = (None, emit cw (concat (map enc_str ss)))"
    and "write_f32s sink_ok cw fs = (None, emit cw (concat (map le_u32 fs)))"
    and "write_bools sink_ok cw bs = (None, emit cw (concat (map enc_bool bs)))"
    and "write_dims sink_ok cw ds = (None, emit cw (concat (map le_u64 ds)))"
proof -
  show "write_strs sink_ok cw ss = (None, emit cw (concat (map enc_str ss)))"
    using assms by (induction ss arbitrary: cw) simp_all
  show "write_f32s sink_ok cw fs = (None, emit cw (concat (map le_u32 fs)))"
    using assms by (induction fs arbitrary: cw) simp_all
  show "write_bools sink_ok cw bs = (None, emit cw (concat (map enc_bool bs)))"
    using assms by (induction bs arbitrary: cw) (simp_all add: enc_bool_def)
  show "write_dims sink_ok cw ds = (None, emit cw (concat (map le_u64 ds)))"
    using assms by (induction ds arbitrary: cw) simp_all
qed

lemma write_items_ok:
  assumes "\<And>v cw. v \<in> set vs \<Longrightarrow> cw_ok cw \<Longrightarrow>
      writeMetaValuePayload sink_ok cw v = (None, emit cw (enc_value v))"
    and "\<And>v. v \<in> set vs \<Longrightarrow> Kind v = kind" and "cw_ok cw"
  shows "write_items sink_ok cw kind i vs = (None, emit cw (concat (map enc_value vs)))"
  using assms by (induction vs arbitrary: cw i) simp_all

declare writeMetaValuePayload.simps [simp del] writeMetaArray.simps [simp del]

lemma writeMetaArray_ok:
  fixes a :: meta_any and v :: meta_value
  shows "wf_any d a \<Longrightarrow> cw_ok cw \<Longrightarrow>
      writeMetaValuePayload sink_ok cw (MetaValue (kind_of a) a) = (None, emit cw (enc_any a))"
    and "wf_meta d v \<Longrightarrow> cw_ok cw \<Longrightarrow> writeMetaValuePayload sink_ok cw v = (None, emit cw (enc_value v))"
proof (induction a and v arbitrary: d cw and d cw)
  case (VMetas arr)
  show ?case
  proof (cases arr)
    case Nil
    with VMetas.prems show ?thesis
      by (simp add: writeMetaValuePayload.simps writeMetaArray.simps enc_count_def)
  next
    case (Cons a as)
    have wf: "\<And>v. v \<in> set arr \<Longrightarrow> wf_meta (Suc d) v" using VMetas.prems(1) by (simp add: list_all_iff)
    have kind: "\<And>v. v \<in> set arr \<Longrightarrow> Kind v = Kind a"
      using VMetas.prems(1) Cons by (auto simp: list_all_iff)
    have tag: "kindToWireType (Kind a) = Some (tag_of (Value a))"
      using wf_meta_Kind [OF wf, of a] kindToWireType_kind_of Cons by fastforce
    define cw1 where "cw1 = emit cw (le_u32 (tag_of (Value a)) @ enc_count arr)"
    have "write_items sink_ok cw1 (Kind a) 0 arr = (None, emit cw1 (concat (map enc_value arr)))"
      using VMetas.IH VMetas.prems(2) wf kind unfolding cw1_def by (intro write_items_ok) auto
    then show ?thesis using Cons VMetas.prems(2) tag
      by (simp add: writeMetaValuePayload.simps writeMetaArray.simps enc_count_def cw1_def)
  qed
qed (simp_all add: writeMetaValuePayload.simps writeMetaArray.simps write_list_ok enc_bool_def enc_count_def)

lemma writeMetaValue_ok:
  "wf_meta d v \<Longrightarrow> cw_ok cw \<Longrightarrow>
    writeMetaValue sink_ok cw v = (None, emit cw (le_u32 (tag_of (Value v)) @ enc_value v))"
  using wf_meta_Kind [of d v] kindToWireType_kind_of [of d "Value v"]
  by (simp add: writeMetaValue_def writeMetaArray_ok(2))

section \<open>The header\<close>

definition enc_kv :: "string \<Rightarrow> meta_value \<Rightarrow> u8 list" where
  "enc_kv k v = enc_str k @ le_u32 (tag_of (Value v)) @ enc_value v"

definition enc_desc :: "TensorInfo \<Rightarrow> u8 list" where
  "enc_desc t = enc_str (Name t) @ le_u32 (word_of_nat (length (Dims t))) @ concat (map le_u64 (Dims t))
     @ le_u32 (ggml_id (DType t)) @ le_u64 (Offset t)"

definition kv_of :: "(string, meta_value) gomap \<Rightarrow> string \<Rightarrow> u8 list" where
  "kv_of m k = enc_kv k (the (map_of m k))"

definition desc_ok :: "TensorInfo \<Rightarrow> bool" where
  "desc_ok t \<longleftrightarrow> str_ok (Name t) \<and> 1 \<le> length (Dims t) \<and> length (Dims t) \<le> 16 \<and> Shard t = None"

definition meta_ok :: "(string, meta_value) gomap \<Rightarrow> bool" where
  "meta_ok m \<longleftrightarrow> gomap_wf m \<and> (\<forall>(k, v) \<in> set m. str_ok k \<and> wf_meta 0 v)"

lemma meta_okD: "meta_ok m \<Longrightarrow> k \<in> fst ` set m \<Longrightarrow> str_ok k \<and> wf_meta 0 (the (map_of m k)) \<and> map_of m k \<noteq> None"
  by (auto simp: meta_ok_def gomap_wf_def map_of_eq_None_iff dest!: map_of_is_SomeI)

lemma write_metadata_ok:
  "meta_ok m \<Longrightarrow> set keys \<subseteq> fst ` set m \<Longrightarrow> cw_ok cw \<Longrightarrow>
    write_metadata sink_ok cw m keys = (None, emit cw (concat (map (kv_of m) keys)))"
proof (induction keys arbitrary: cw)
  case Nil
  then show ?case by simp
next
  case (Cons k keys)
  then have "wf_meta 0 (the (map_of m k))" "map_of m k \<noteq> None"
    using meta_okD by (fastforce)+
  with Cons show ?case
    by (auto simp: writeMetaValue_ok [where d = 0] kv_of_def enc_kv_def)
qed

lemma write_descriptors_ok:
  "cw_ok cw \<Longrightarrow> write_descriptors sink_ok cw ts = (None, emit cw (concat (map enc_desc ts)))"
  by (induction ts arbitrary: cw) (simp_all add: write_list_ok enc_desc_def)

lemma update_new: "k \<notin> fst ` set m \<Longrightarrow> AList.update k v m = m @ [(k, v)]"
  by (induction m) auto

lemma parse_metadata_enc:
  assumes "meta_ok m" "set keys \<subseteq> fst ` set m" "distinct keys" "fst ` set acc \<inter> set keys = {}"
    and "feeds c (concat (map (kv_of m) keys) @ post)"
  shows "parse_metadata (length keys) c acc
    = Inr (acc @ map (\<lambda>k. (k, the (map_of m k))) keys, adv c (length (concat (map (kv_of m) keys))))"
  using assms
proof (induction keys arbitrary: c acc)
  case Nil
  then show ?case by simp
next
  case (Cons k keys)
  let ?v = "the (map_of m k)"
  have ok: "str_ok k" "wf_meta 0 ?v" using meta_okD [OF Cons.prems(1)] Cons.prems(2) by auto
  have f1: "feeds c (enc_str k @ (le_u32 (tag_of (Value ?v)) @ enc_value ?v @ concat (map (kv_of m) keys) @ post))"
    using Cons.prems(5) by (simp add: kv_of_def [of m k] enc_kv_def)
  note r1 = cur_str_enc [OF ok(1) f1]
  note f2 = feeds_adv [OF f1 refl]
  note r2 = cur_u32_enc [OF f2]
  note f3 = feeds_adv [OF f2, of 4, simplified]
  note r3 = cur_value_enc(2) [OF ok(2) f3]
  note f4 = feeds_adv [OF f3 refl, simplified]
  have new: "AList.update k ?v acc = acc @ [(k, ?v)]" using Cons.prems(4) by (intro update_new) auto
  have "parse_metadata (length keys) (adv c (8 + length k + 4 + length (enc_value ?v))) (acc @ [(k, ?v)])
    = Inr ((acc @ [(k, ?v)]) @ map (\<lambda>k. (k, the (map_of m k))) keys,
        adv (adv c (8 + length k + 4 + length (enc_value ?v))) (length (concat (map (kv_of m) keys))))"
    using Cons.prems f4 by (intro Cons.IH) auto
  then show ?case
    using r1 r2 r3 by (simp add: new kv_of_def [of m k] enc_kv_def add.assoc)
qed

lemma parse_tensors_enc:
  assumes "\<And>t. t \<in> set ts \<Longrightarrow> desc_ok t" and "feeds c (concat (map enc_desc ts) @ post)"
  shows "parse_tensors (length ts) c = Inr (ts, adv c (length (concat (map enc_desc ts))))"
  using assms
proof (induction ts arbitrary: c)
  case Nil
  then show ?case by simp
next
  case (Cons t ts)
  have ok: "str_ok (Name t)" "1 \<le> length (Dims t)" "length (Dims t) \<le> 16" "Shard t = None"
    using Cons.prems(1) [of t] by (simp_all add: desc_ok_def)
  let ?n = "word_of_nat (length (Dims t)) :: u32"
  have n: "unat ?n = length (Dims t)" using ok(3) by (simp add: unat_of_nat)
  let ?rest = "concat (map enc_desc ts) @ post"
  have f1: "feeds c (enc_str (Name t) @ (le_u32 ?n @ concat (map le_u64 (Dims t))
      @ le_u32 (ggml_id (DType t)) @ le_u64 (Offset t) @ ?rest))"
    using Cons.prems(2) by (simp add: enc_desc_def [of t])
  note r1 = cur_str_enc [OF ok(1) f1]
  note f2 = feeds_adv [OF f1 refl]
  note r2 = cur_u32_enc [OF f2]
  note f3 = feeds_adv [OF f2, of 4, simplified]
  have l: "length (concat (map le_u64 (Dims t))) = 8 * length (Dims t)"
    by (simp add: length_concat comp_def sum_list_triv)
  note r3 = dims_loop.loop_enc [OF _ f3, simplified]
  note f4 = feeds_adv [OF f3 refl, simplified]
  note r4 = cur_u32_enc [OF f4]
  note f5 = feeds_adv [OF f4, of 4, simplified]
  note r5 = cur_u64_enc [OF f5]
  note f6 = feeds_adv [OF f5, of 8, simplified]
  have room: "\<not> length (Dims t) > (length (cur_data c) - (cur_pos c + (12 + length (Name t)))) div 8"
    using feeds_length [OF f3] l by simp
  have small: "\<not> ?n > 16" "?n \<noteq> 0"
    using n ok(2,3) by (auto simp: word_less_nat_alt)
  have "parse_tensors (length ts) (adv c (length (enc_desc t)))
      = Inr (ts, adv (adv c (length (enc_desc t))) (length (concat (map enc_desc ts))))"
    using Cons.prems(1) f6 by (intro Cons.IH [of "adv c (length (enc_desc t))"]) (simp_all add: enc_desc_def [of t] add.assoc)
  moreover have "t = \<lparr>Name = Name t, Dims = Dims t, DType = TypeFromID (ggml_id (DType t)), Offset = Offset t, Shard = None\<rparr>"
    using ok(4) by simp
  ultimately show ?case
    using r1 r2 r3 r4 r5 room small n by (simp add: enc_desc_def [of t] add.assoc add.commute add.left_commute)
qed

section \<open>Alignment\<close>

lemma round_up_nat: "0 < a \<Longrightarrow> (p + a - 1) div a * a = p + (a - p mod a) mod (a :: nat)"
proof -
  assume a: "0 < a"
  define q where "q = p div a"
  define r where "r = p mod a"
  have p: "p = r + q * a" unfolding q_def r_def by simp
  have r: "r < a" using a unfolding r_def by simp
  show ?thesis
  proof (cases "r = 0")
    case True
    have e: "p + a - 1 = (a - 1) + q * a" using a p True by linarith
    have "((a - 1) + q * a) div a = q + (a - 1) div a" using a by (intro div_mult_self1) simp
    also have "(a - 1) div a = 0" using a by simp
    finally have "(p + a - 1) div a = q" unfolding e by simp
    then show ?thesis using True p unfolding r_def by simp
  next
    case False
    have e: "p + a - 1 = (r - 1) + (q + 1) * a" using a p False by (simp add: add_mult_distrib)
    have "((r - 1) + (q + 1) * a) div a = (q + 1) + (r - 1) div a" using a by (intro div_mult_self1) simp
    also have "(r - 1) div a = 0" using r by simp
    finally have d: "(p + a - 1) div a = q + 1" unfolding e by simp
    have "p + (a - r) mod a = q * a + a" using p r False by simp
    then show ?thesis unfolding d r_def by simp
  qed
qed

lemma unat_alignUp64:
  assumes "0 < a" "p + a < 18446744073709551616"
  shows "unat (alignUp64 (word_of_nat p) (word_of_nat a)) = p + (a - p mod a) mod a"
proof -
  let ?N = "word_of_nat p :: u64" and ?A = "word_of_nat a :: u64"
  have A: "unat ?A = a" and N: "unat ?N = p" using assms by (simp_all add: unat_of_nat)
  have A0: "?A \<noteq> 0" using A assms(1) by auto
  have "word_of_nat (p + a - 1) = (word_of_nat (p + a) :: u64) - word_of_nat 1"
    using assms(1) by (intro of_nat_diff) simp
  then have "?N + ?A - 1 = word_of_nat (p + a - 1)" by simp
  moreover have "unat (word_of_nat (p + a - 1) :: u64) = (p + a - 1) mod 2 ^ 64"
    by (simp only: unat_of_nat) simp
  moreover have "(p + a - 1) mod 2 ^ 64 = p + a - 1" using assms by simp
  ultimately have s: "unat (?N + ?A - 1) = p + a - 1" by metis
  have d: "unat ((?N + ?A - 1) div ?A) = (p + a - 1) div a" by (simp only: unat_div s A)
  have "(p + a - 1) div a * a \<le> p + a - 1" by (rule div_times_less_eq_dividend)
  then have "(p + a - 1) div a * a < 18446744073709551616" using assms by linarith
  then have "(p + a - 1) div a * a < 2 ^ LENGTH(64)" by simp
  then have "unat ((?N + ?A - 1) div ?A * ?A) = (p + a - 1) div a * a"
    by (subst unat_word_ariths(2)) (simp only: d A mod_less)
  then show ?thesis using A0 round_up_nat [OF assms(1), of p] by (simp add: alignUp64_def)
qed

lemma sint_small: "unat (x :: u64) < 9223372036854775808 \<Longrightarrow> sint x = int (unat x)"
proof -
  assume "unat x < 9223372036854775808"
  then have u: "0 \<le> uint x" "uint x < 9223372036854775808"
    using unsigned_greater_eq [of x] of_nat_less_iff [of "unat x" 9223372036854775808, where 'a = int] by simp_all
  then have "signed_take_bit 63 (uint x) = uint x"
    using order_trans [OF _ u(1), of "- 9223372036854775808"]
    by (intro signed_take_bit_int_eq_self) simp_all
  then show ?thesis by (simp add: sint_uint)
qed



section \<open>The whole header\<close>

lemma plan_tensors_desc:
  "plan_tensors al off ps = Inr ts \<Longrightarrow>
    list_all2 (\<lambda>p t. Name t = pName p \<and> Dims t = pDims p \<and> DType t = pDType p \<and> Shard t = None) ps ts"
  by (induction ps arbitrary: off ts) (auto split: option.splits)

lemma plan_tensors_total:
  "(\<And>p. p \<in> set ps \<Longrightarrow> pDType p \<noteq> GGMLTypeUnknown) \<Longrightarrow> \<exists>ts. plan_tensors al off ps = Inr ts"
proof (induction ps arbitrary: off)
  case Nil
  then show ?case by simp
next
  case (Cons p ps)
  have "\<exists>sz. DataSize (pDType p) (numel_loop 1 (pDims p)) = Some sz"
    using Cons.prems [of p] by (cases "pDType p") simp_all
  then obtain sz where sz: "DataSize (pDType p) (numel_loop 1 (pDims p)) = Some sz" by blast
  obtain ts where "plan_tensors al (alignUp64 (off + word_of_int sz) al) ps = Inr ts"
    using Cons.IH Cons.prems by fastforce
  with sz show ?case by simp
qed

definition planned_ok :: "PlannedTensor \<Rightarrow> bool" where
  "planned_ok p \<longleftrightarrow> str_ok (pName p) \<and> 1 \<le> length (pDims p) \<and> length (pDims p) \<le> 16"

definition header_bytes :: "(string, meta_value) gomap \<Rightarrow> TensorInfo list \<Rightarrow> u8 list" where
  "header_bytes m ts = bytes_of_string ''GGUF'' @ le_u32 3 @ le_u64 (word_of_nat (length ts))
     @ le_u64 (word_of_nat (length m)) @ concat (map (kv_of m) (sort (map fst m)))
     @ concat (map enc_desc ts)"

lemma in_set_update: "x \<in> set (AList.update k v m) \<Longrightarrow> x = (k, v) \<or> x \<in> set m"
  by (induction m) (auto split: if_splits)

lemma meta_ok_effective:
  "meta_ok m \<Longrightarrow> meta_ok (effective_metadata m a)"
  by (auto simp: meta_ok_def effective_metadata_def str_ok_def dest!: in_set_update)

lemma map_of_effective_alignment:
  "map_of (effective_metadata m a) ''general.alignment'' = Some (MetaValue ''u32'' (VU32 (word_of_int a)))"
  by (simp add: effective_metadata_def update_conv')

lemma header_prefix_ok:
  assumes "meta_ok m" "cw_ok cw"
  shows "header_prefix sink_ok cw n m = (None, emit cw (bytes_of_string ''GGUF'' @ le_u32 3
     @ le_u64 (word_of_nat n) @ le_u64 (word_of_nat (length m)) @ concat (map (kv_of m) (sort (map fst m)))))"
  using assms by (simp add: header_prefix_def write_metadata_ok)

text \<open>The number of padding bytes before the tensor data.\<close>

definition pad_len :: "nat \<Rightarrow> nat \<Rightarrow> nat" where
  "pad_len p a = (a - p mod a) mod a"

lemma pad_to_data_ok:
  assumes "cw_err cw = None" "cw_pos cw = int p" "0 < a" "p + a < 9223372036854775808"
  shows "pad_to_data sink_ok cw (int a) =
    (None, if pad_len p a = 0 then cw else emit cw (replicate (pad_len p a) 0))"
proof -
  have lt: "pad_len p a < a" using assms(3) by (simp add: pad_len_def)
  have u: "unat (alignUp64 (word_of_nat p) (word_of_nat a)) = p + pad_len p a"
    using unat_alignUp64 [of a p] assms(3,4) by (simp add: pad_len_def)
  then have "sint (alignUp64 (word_of_nat p) (word_of_nat a)) = int (p + pad_len p a)"
    using sint_small [of "alignUp64 (word_of_nat p) (word_of_nat a)"] lt assms(4) by simp
  moreover have "wrap64 (int (p + pad_len p a) - int p) = int (pad_len p a)"
    using lt assms(4) by (simp add: max_int_def)
  ultimately show ?thesis using assms(1,2) by (simp add: pad_to_data_def Let_def)
qed

lemma NewGGUFWriter_ok:
  assumes m: "meta_ok m0" and a: "al = effective_alignment a0"
    and ts: "plan_tensors (word_of_int al) 0 planned = Inr ts"
    and hdr: "hdr = header_bytes (effective_metadata m0 al) ts"
    and size: "length hdr + nat al < 9223372036854775808"
  shows "\<exists>gw. NewGGUFWriter sink_ok m0 planned a0 = Inr gw \<and> gw_tensors gw = ts
    \<and> cw_out (gw_cw gw) = hdr @ replicate (pad_len (length hdr) (nat al)) 0
    \<and> gw_dataOffset gw = int (length hdr + pad_len (length hdr) (nat al))
    \<and> cw_ok (gw_cw gw) \<and> cw_pos (gw_cw gw) = gw_dataOffset gw \<and> gw_next gw = 0 \<and> gw_alignment gw = al"
proof -
  let ?m = "effective_metadata m0 al"
  have al: "0 < al" by (simp add: a effective_alignment_def)
  have len: "length ts = length planned" using plan_tensors_desc [OF ts] by (simp add: list_all2_lengthD)
  define pre where "pre = bytes_of_string ''GGUF'' @ le_u32 3 @ le_u64 (word_of_nat (length planned))
     @ le_u64 (word_of_nat (length ?m)) @ concat (map (kv_of ?m) (sort (map fst ?m)))"
  have hdr': "hdr = pre @ concat (map enc_desc ts)" by (simp add: hdr header_bytes_def pre_def len)
  let ?c = "emit newCountingWriter hdr"
  have hp: "header_prefix sink_ok newCountingWriter (length planned) ?m = (None, emit newCountingWriter pre)"
    unfolding pre_def by (rule header_prefix_ok [OF meta_ok_effective [OF m] cw_ok_new])
  have wd: "write_descriptors sink_ok (emit newCountingWriter pre) ts = (None, ?c)"
    by (simp add: write_descriptors_ok hdr')
  let ?p = "pad_len (length hdr) (nat al)"
  have plt: "?p < nat al" using al by (simp add: pad_len_def)
  have pos: "cw_pos ?c = int (length hdr)"
    using size by (simp add: emit_def newCountingWriter_def max_int_def)
  have pad: "pad_to_data sink_ok ?c al = (None, if ?p = 0 then ?c else emit ?c (replicate ?p 0))"
    using pad_to_data_ok [of ?c "length hdr" "nat al"] pos size al by simp
  define cw where "cw = (if ?p = 0 then ?c else emit ?c (replicate ?p 0))"
  have cw: "cw_ok cw" "cw_out cw = hdr @ replicate ?p 0" "cw_pos cw = int (length hdr + ?p)"
    using pos size plt by (simp_all add: cw_def) (simp_all add: emit_def newCountingWriter_def max_int_def)
  have new: "NewGGUFWriter sink_ok m0 planned a0 = Inr \<lparr>gw_cw = cw, gw_alignment = al, gw_tensors = ts,
      gw_dataOffset = cw_pos cw, gw_next = 0\<rparr>"
    by (simp add: NewGGUFWriter_def Let_def a [symmetric] ts hp wd pad cw_def [symmetric] cw(1))
  show ?thesis using new cw by simp
qed


lemma length_kv_of: "meta_ok m \<Longrightarrow> k \<in> fst ` set m \<Longrightarrow> 13 \<le> length (kv_of m k)"
  using meta_okD [of m k] enc_any_minimum [of 0 "Value (the (map_of m k))"]
    wf_meta_Kind [of 0 "the (map_of m k)"]
  by (auto simp: kv_of_def enc_kv_def enc_value_Value)

lemma length_enc_desc: "desc_ok t \<Longrightarrow> 32 \<le> length (enc_desc t)"
proof -
  assume "desc_ok t"
  then have "1 \<le> length (Dims t)" by (simp add: desc_ok_def)
  moreover have "length (concat (map le_u64 (Dims t))) = 8 * length (Dims t)"
    by (simp add: length_concat comp_def sum_list_triv)
  ultimately show ?thesis by (simp add: enc_desc_def)
qed

lemma parseGGUF_header:
  assumes m: "meta_ok m" and ts: "\<And>t. t \<in> set ts \<Longrightarrow> desc_ok t"
    and nm: "length m \<le> 1048576" and nt: "length ts \<le> 1048576"
    and al: "metadata_alignment (map (\<lambda>k. (k, the (map_of m k))) (sort (map fst m))) = Inr a"
    and data: "data = header_bytes m ts @ rest"
    and size: "int (length (header_bytes m ts) + pad_len (length (header_bytes m ts)) a) \<le> max_int"
  shows "parseGGUF data = Inr \<lparr>Metadata = map (\<lambda>k. (k, the (map_of m k))) (sort (map fst m)),
     Tensors = ts, DataOffset = length (header_bytes m ts) + pad_len (length (header_bytes m ts)) a, Version = 3\<rparr>"
proof -
  let ?keys = "sort (map fst m)"
  let ?kvs = "concat (map (kv_of m) ?keys)" and ?ds = "concat (map enc_desc ts)"
  let ?nt = "word_of_nat (length ts) :: u64" and ?nm = "word_of_nat (length m) :: u64"
  let ?c = "\<lparr>cur_data = data, cur_pos = 4\<rparr>"
  have keys: "distinct ?keys" "set ?keys = fst ` set m" "length ?keys = length m"
    using m by (simp_all add: meta_ok_def gomap_wf_def)
  have unt: "unat ?nt = length ts" and unm: "unat ?nm = length m" using nm nt by (simp_all add: unat_of_len)
  have d: "data = bytes_of_string ''GGUF'' @ (le_u32 3 @ le_u64 ?nt @ le_u64 ?nm @ ?kvs @ ?ds @ rest)"
    by (simp add: data header_bytes_def)
  have f0: "feeds ?c (le_u32 3 @ (le_u64 ?nt @ le_u64 ?nm @ ?kvs @ ?ds @ rest))"
    by (simp add: feeds_def d bytes_of_string_def)
  note r1 = cur_u32_enc [OF f0]
  note f1 = feeds_adv [OF f0, of 4, simplified]
  note r2 = cur_u64_enc [OF f1]
  note f2 = feeds_adv [OF f1, of 8, simplified]
  note r3 = cur_u64_enc [OF f2]
  note f3 = feeds_adv [OF f2, of 8, simplified]
  have kl: "length ?keys * 13 \<le> length ?kvs"
    using length_kv_of [OF m] keys(2) by (intro concat_min_length) auto
  have dl: "length ts * 32 \<le> length ?ds"
    using length_enc_desc ts by (intro concat_min_length) auto
  have room: "length m \<le> (length data - 24) div 13" "length ts \<le> (length data - 24) div 32"
    using kl dl keys(3) feeds_length [OF f3] by (simp_all add: less_eq_div_iff_mult_less_eq)
  have r4: "parse_metadata (length m) (adv ?c 20) [] = Inr (map (\<lambda>k. (k, the (map_of m k))) ?keys, adv (adv ?c 20) (length ?kvs))"
    using parse_metadata_enc [OF m, of ?keys "[]"] keys f3 by simp
  note f4 = feeds_adv [OF f3 refl, simplified]
  have r5: "parse_tensors (length ts) (adv ?c (20 + length ?kvs)) = Inr (ts, adv (adv ?c (20 + length ?kvs)) (length ?ds))"
    using parse_tensors_enc [OF ts f4] by simp
  have hl: "length (header_bytes m ts) = 24 + length ?kvs + length ?ds"
    by (simp add: header_bytes_def)
  define P where "P = length (header_bytes m ts)"
  obtain c5 where c5: "c5 = adv (adv ?c (20 + length ?kvs)) (length ?ds)" by blast
  have P: "cur_pos c5 = P" by (simp add: c5 P_def hl)
  have r5': "parse_tensors (length ts) (adv ?c (20 + length ?kvs)) = Inr (ts, c5)" using r5 c5 by simp
  have t4: "string_of_bytes (take 4 data) = ''GGUF''" "\<not> length data < 4"
    by (simp_all add: d bytes_of_string_def string_of_bytes_def)
  have off: "\<not> max_int - int (pad_len P a) < int P" using size by (simp add: P_def)
  show ?thesis
    using r1 r2 r3 r4 r5' al off room nm nt unt unm t4 P
    by (simp add: parseGGUF_def Let_def pad_len_def [symmetric] P_def [symmetric])
qed


text \<open>Sorting the entries by key loses nothing.\<close>

lemma map_of_sorted_entries:
  "map_of (map (\<lambda>k. (k, the (map_of m k))) (sort (map fst m))) = map_of m"
proof
  fix x show "map_of (map (\<lambda>k. (k, the (map_of m k))) (sort (map fst m))) x = map_of m x"
    using map_of_eq_None_iff [of m x]
    by (cases "x \<in> fst ` set m") (auto simp: map_of_map_restrict restrict_map_def)
qed

lemma metadata_alignment_effective:
  assumes "0 < al" "al < 4294967296"
  shows "map_of m' = map_of (effective_metadata m al) \<Longrightarrow> metadata_alignment m' = Inr (nat al)"
proof -
  let ?w = "word_of_int al :: u32"
  have u: "unat ?w = nat al" using assms by (simp add: unat_eq_nat_uint uint_word_of_int)
  then have "?w > 0" using assms(1) by (simp add: word_less_nat_alt)
  moreover have "\<not> int (unat ?w) > max_int" using u assms by (simp add: max_int_def)
  ultimately show "map_of m' = map_of (effective_metadata m al) \<Longrightarrow> ?thesis"
    using u by (simp add: metadata_alignment_def map_of_effective_alignment AsU32_def)
qed

lemma length_effective: "length (effective_metadata m a) \<le> Suc (length m)"
  unfolding effective_metadata_def by (induction m) auto

text \<open>
  Everything the header writer accepts for well-formed metadata is read back by the parser: the
  same metadata, the same tensor table, and the data offset the writer will use. Bytes after the
  header do not matter.
\<close>

lemma header_roundtrip:
  assumes m: "meta_ok m0" "length m0 < 1048576"
    and p: "\<And>p. p \<in> set planned \<Longrightarrow> planned_ok p" "length planned \<le> 1048576"
    and al: "al = effective_alignment a0" "al < 4294967296"
    and ts: "plan_tensors (word_of_int al) 0 planned = Inr ts"
    and size: "length (header_bytes (effective_metadata m0 al) ts) < 4611686018427387904"
  shows "\<exists>gw g. NewGGUFWriter sink_ok m0 planned a0 = Inr gw
    \<and> parseGGUF (cw_out (gw_cw gw) @ rest) = Inr g
    \<and> map_of (Metadata g) = map_of (effective_metadata m0 al) \<and> Tensors g = gw_tensors gw
    \<and> int (DataOffset g) = gw_dataOffset gw \<and> DataOffset g = length (cw_out (gw_cw gw)) \<and> Version g = 3
    \<and> gw_tensors gw = ts \<and> cw_pos (gw_cw gw) = gw_dataOffset gw \<and> gw_next gw = 0
    \<and> int (DataOffset g) \<le> max_int"
proof -
  let ?m = "effective_metadata m0 al"
  let ?h = "header_bytes ?m ts"
  have al0: "0 < al" by (simp add: al(1) effective_alignment_def)
  have desc: "desc_ok t" if tin: "t \<in> set ts" for t
  proof -
    obtain i where i: "i < length ts" "t = ts ! i" using tin by (metis in_set_conv_nth)
    have q: "Name t = pName (planned ! i)" "Dims t = pDims (planned ! i)" "Shard t = None" "i < length planned"
      using list_all2_nthD2 [OF plan_tensors_desc [OF ts] i(1)] i(2)
        list_all2_lengthD [OF plan_tensors_desc [OF ts]] i(1) by simp_all
    then have "planned_ok (planned ! i)" by (intro p(1)) simp
    with q show ?thesis by (simp add: desc_ok_def planned_ok_def)
  qed
  have lts: "length ts \<le> 1048576" using plan_tensors_desc [OF ts] p(2) by (simp add: list_all2_lengthD [symmetric])
  have lm: "length ?m \<le> 1048576" using length_effective [of m0 al] m(2) by simp
  obtain gw where gw: "NewGGUFWriter sink_ok m0 planned a0 = Inr gw" "gw_tensors gw = ts"
      "cw_out (gw_cw gw) = ?h @ replicate (pad_len (length ?h) (nat al)) 0"
      "gw_dataOffset gw = int (length ?h + pad_len (length ?h) (nat al))"
      "cw_pos (gw_cw gw) = gw_dataOffset gw" "gw_next gw = 0"
    using NewGGUFWriter_ok [OF m(1) al(1) ts refl] size al by fastforce
  have "pad_len (length ?h) (nat al) < 4294967296"
    unfolding pad_len_def
    by (rule less_trans [OF mod_less_divisor]) (use al0 al(2) in simp_all)
  then have sz: "int (length ?h + pad_len (length ?h) (nat al)) \<le> max_int"
    using size by (simp add: max_int_def)
  have "parseGGUF (cw_out (gw_cw gw) @ rest) = Inr \<lparr>Metadata = map (\<lambda>k. (k, the (map_of ?m k))) (sort (map fst ?m)),
     Tensors = ts, DataOffset = length ?h + pad_len (length ?h) (nat al), Version = 3\<rparr>"
    by (rule parseGGUF_header [OF meta_ok_effective [OF m(1)] desc lm lts _ _ sz])
      (simp_all add: metadata_alignment_effective [OF al0 al(2) map_of_sorted_entries] gw(3))
  then show ?thesis using gw sz by (simp add: map_of_sorted_entries)
qed

end
