(* ===== verification/Gguf_Stream.thy ===== *)
theory Gguf_Stream
  imports Gguf_Roundtrip
begin

text \<open>
  The tensor-data half of the GGUF writer: for every sink that keeps the \<^verbatim>\<open>io.Writer\<close> contract and
  every callback, a successful \<open>WriteTensorStream\<close> takes exactly the planned number of bytes and
  leaves the writer at the next tensor's planned offset (\<open>gw_inv\<close>); \<open>write_all\<close> is a caller that
  hands the tensors over in order, and the file it produces parses back to what was written.
\<close>


section \<open>Tensor data\<close>

text \<open>The contract of \<^verbatim>\<open>io.Writer\<close>: at most \<open>len(p)\<close> bytes are taken, and fewer only with an error.\<close>

definition sink_law :: "sink \<Rightarrow> bool" where
  "sink_law sink \<longleftrightarrow> (\<forall>taken p. fst (sink taken p) \<le> length p
     \<and> (snd (sink taken p) = None \<longrightarrow> fst (sink taken p) = length p))"

lemma sink_law_ok: "sink_law sink_ok"
  by (simp add: sink_law_def sink_ok_def)

text \<open>The position a counting writer reports is the number of bytes it has taken, modulo \<open>2^64\<close>.\<close>

definition pos_ok :: "countingWriter \<Rightarrow> bool" where
  "pos_ok cw \<longleftrightarrow> cw_pos cw = wrap64 (int (length (cw_out cw)))"

lemma cw_Write_spec:
  assumes "sink_law sink" "cw_Write sink cw p = ((n, e), cw')"
  shows "n \<le> length p" "e = None \<Longrightarrow> n = length p \<and> cw_err cw' = None"
    "\<exists>q. cw_out cw' = cw_out cw @ q \<and> length q = n" "e = None \<Longrightarrow> cw_out cw' = cw_out cw @ p"
    "pos_ok cw \<Longrightarrow> pos_ok cw'" "e = cw_err cw'"
proof -
  obtain k d where s: "sink (cw_out cw) p = (k, d)" by (cases "sink (cw_out cw) p")
  then have law: "k \<le> length p" "d = None \<Longrightarrow> k = length p"
    using assms(1) unfolding sink_law_def by (metis fst_conv, metis fst_conv snd_conv)
  note d = assms(2) [unfolded cw_Write_def Let_def s, simplified]
  show "n \<le> length p" "e = None \<Longrightarrow> n = length p \<and> cw_err cw' = None"
    "\<exists>q. cw_out cw' = cw_out cw @ q \<and> length q = n" "e = None \<Longrightarrow> cw_out cw' = cw_out cw @ p" "e = cw_err cw'"
    using d law by (auto split: if_splits)
  show "pos_ok cw \<Longrightarrow> pos_ok cw'"
    using d law by (auto simp: pos_ok_def wrap64_add min_def split: if_splits)
qed

lemma stream_Write_spec:
  assumes "sink_law sink" "stream_Write sink s p = (r, s')" "sw_err s' = None"
  shows "sw_err s = None \<and> sw_remaining s' = sw_remaining s - int (length p)
    \<and> cw_out (sw_w s') = cw_out (sw_w s) @ p \<and> 0 \<le> sw_remaining s' \<and> cw_err (sw_w s') = None
    \<and> (pos_ok (sw_w s) \<longrightarrow> pos_ok (sw_w s'))"
proof -
  obtain n0 e0 c where c: "cw_Write sink (sw_w s) p = ((n0, e0), c)" by (metis surj_pair)
  note w = cw_Write_spec [OF assms(1) c]
  show ?thesis
    using assms(2,3) w unfolding stream_Write_def c Let_def by (auto split: if_splits)
qed

lemma stream_Write_err: "sw_err s \<noteq> None \<Longrightarrow> snd (stream_Write sink s p) = s"
  by (simp add: stream_Write_def)

lemma run_callback_err: "sw_err s \<noteq> None \<Longrightarrow> snd (run_callback cb sink s) = s"
  by (induction cb arbitrary: s) (auto simp: Let_def stream_Write_err)

text \<open>Whatever the callback does, the bytes it got through and the budget left add up.\<close>

lemma run_callback_spec:
  assumes "sink_law sink" "run_callback cb sink s = (e, s')" "sw_err s' = None" "0 \<le> sw_remaining s"
    "cw_err (sw_w s) = None"
  shows "\<exists>q. cw_out (sw_w s') = cw_out (sw_w s) @ q \<and> sw_remaining s' = sw_remaining s - int (length q)
    \<and> 0 \<le> sw_remaining s' \<and> cw_err (sw_w s') = None \<and> (pos_ok (sw_w s) \<longrightarrow> pos_ok (sw_w s'))"
  using assms(2-)
proof (induction cb arbitrary: s)
  case (Return x)
  then show ?case by auto
next
  case (Write p k)
  obtain r s1 where s1: "stream_Write sink s p = (r, s1)" by (cases "stream_Write sink s p")
  then have run: "run_callback (k r) sink s1 = (e, s')" using Write.prems(1) by (simp add: Let_def)
  have err1: "sw_err s1 = None"
    using run run_callback_err [of s1 "k r" sink] Write.prems(2) by (cases "sw_err s1") auto
  note w = stream_Write_spec [OF assms(1) s1 err1]
  from Write.IH [OF rangeI run Write.prems(2)] w obtain q where
    "cw_out (sw_w s') = cw_out (sw_w s1) @ q" "sw_remaining s' = sw_remaining s1 - int (length q)"
    "0 \<le> sw_remaining s'" "cw_err (sw_w s') = None" "pos_ok (sw_w s1) \<longrightarrow> pos_ok (sw_w s')"
    by auto
  with w show ?case by (intro exI [of _ "p @ q"]) auto
qed


lemma cw_put_spec:
  assumes "sink_law sink" "cw_put sink cw p = (None, cw')"
  shows "cw_out cw' = cw_out cw @ p \<and> cw_err cw' = None \<and> (pos_ok cw \<longrightarrow> pos_ok cw')"
proof -
  obtain n where "cw_Write sink cw p = ((n, None), cw')"
    using assms(2) by (auto simp: cw_put_def split: prod.splits)
  from cw_Write_spec [OF assms(1) this] show ?thesis by auto
qed

lemma cw_put_pos:
  assumes "sink_law sink" "cw_put sink cw p = (None, cw')"
  shows "cw_pos cw' = wrap64 (cw_pos cw + int (length p))"
  using assms unfolding cw_put_def cw_Write_def sink_law_def
  by (auto simp: Let_def split: prod.splits if_splits) (metis fst_conv snd_conv)

definition gw_inv :: "GGUFWriter \<Rightarrow> bool" where
  "gw_inv gw \<longleftrightarrow> pos_ok (gw_cw gw) \<and> (gw_next gw < length (gw_tensors gw) \<longrightarrow>
     cw_pos (gw_cw gw) = wrap64 (gw_dataOffset gw + sint (Offset (gw_tensors gw ! gw_next gw))))"

lemma pad_to_next_spec:
  assumes "sink_law sink" "pad_to_next sink gw name = (None, gw')" "pos_ok (gw_cw gw)"
  shows "gw_inv gw' \<and> gw_next gw' = gw_next gw \<and> gw_tensors gw' = gw_tensors gw
    \<and> gw_dataOffset gw' = gw_dataOffset gw \<and> (\<exists>k. cw_out (gw_cw gw') = cw_out (gw_cw gw) @ replicate k 0)"
proof (cases "gw_next gw < length (gw_tensors gw)")
  case False
  with assms show ?thesis by (auto simp: pad_to_next_def gw_inv_def)
next
  case True
  define want where "want = wrap64 (gw_dataOffset gw + sint (Offset (gw_tensors gw ! gw_next gw)))"
  define pad where "pad = wrap64 (want - cw_pos (gw_cw gw))"
  note p = assms(2) [unfolded pad_to_next_def Let_def, simplified True if_True,
    folded want_def, folded pad_def]
  have pos: "wrap64 (cw_pos (gw_cw gw)) = cw_pos (gw_cw gw)" using assms(3) by (simp add: pos_ok_def)
  have ret: "wrap64 (cw_pos (gw_cw gw) + pad) = want"
    using wrap64_add [of "want - cw_pos (gw_cw gw)" "cw_pos (gw_cw gw)"]
    by (simp add: pad_def want_def add.commute)
  show ?thesis
  proof (cases "pad > 0")
    case True
    then obtain c where c: "cw_put sink (gw_cw gw) (replicate (nat pad) 0) = (None, c)"
        and gw': "gw' = gw\<lparr>gw_cw := c\<rparr>"
      using p by (auto split: prod.splits option.splits)
    then show ?thesis using True cw_put_spec [OF assms(1) c] cw_put_pos [OF assms(1) c] assms(3) ret
      by (auto simp: gw_inv_def want_def)
  next
    case False
    then have "pad = 0" "gw' = gw" using p by (auto split: if_splits)
    with ret pos assms(3) show ?thesis by (auto simp: gw_inv_def want_def intro: exI [of _ 0])
  qed
qed

text \<open>One successful tensor: exactly the planned bytes, then zero padding up to the next offset.\<close>

lemma WriteTensorStream_spec:
  assumes "sink_law sink" "gw_inv gw" "WriteTensorStream sink gw cb = (None, gw')"
    and "0 \<le> sz" "DataSize (DType (gw_tensors gw ! gw_next gw)) (Numel (gw_tensors gw ! gw_next gw)) = Some sz"
  shows "gw_next gw < length (gw_tensors gw) \<and> gw_inv gw' \<and> gw_next gw' = gw_next gw + 1
    \<and> gw_tensors gw' = gw_tensors gw \<and> gw_dataOffset gw' = gw_dataOffset gw
    \<and> (\<exists>q k. cw_out (gw_cw gw') = cw_out (gw_cw gw) @ q @ replicate k 0 \<and> int (length q) = sz)"
proof -
  let ?t = "gw_tensors gw ! gw_next gw"
  let ?s0 = "\<lparr>sw_w = gw_cw gw, sw_remaining = sz, sw_err = None\<rparr>"
  have ok: "cw_err (gw_cw gw) = None" "gw_next gw < length (gw_tensors gw)"
    using assms(3) by (auto simp: WriteTensorStream_def split: if_splits)
  obtain c where cb: "cb = Some c"
    using assms(3,5) ok by (cases cb) (auto simp: WriteTensorStream_def Let_def or_else_def split: if_splits)
  obtain e s where run: "run_callback c sink ?s0 = (e, s)" by (cases "run_callback c sink ?s0")
  note r = assms(3) [unfolded WriteTensorStream_def Let_def cb, simplified ok assms(5), simplified run]
  have fin: "sw_err s = None" "sw_remaining s = 0"
    and pad: "pad_to_next sink (gw\<lparr>gw_cw := sw_w s, gw_next := gw_next gw + 1\<rparr>) (Name ?t) = (None, gw')"
    using r ok(2) by (auto simp: or_else_def run split: option.splits if_splits)
  obtain q where q: "cw_out (sw_w s) = cw_out (gw_cw gw) @ q" "sw_remaining s = sz - int (length q)" "pos_ok (sw_w s)"
    using run_callback_spec [OF assms(1) run fin(1)] assms(2,4) ok by (auto simp: gw_inv_def)
  from pad_to_next_spec [OF assms(1) pad] q fin(2) ok(2) show ?thesis by auto
qed


lemma Numel_loop: "Numel t = numel_loop 1 (Dims t)"
  by (simp add: Numel_def)

lemma WriteTensor_spec:
  assumes "sink_law sink" "gw_inv gw" "WriteTensor sink gw data = (None, gw')"
  shows "gw_next gw < length (gw_tensors gw) \<and> gw_inv gw' \<and> gw_next gw' = gw_next gw + 1
    \<and> gw_tensors gw' = gw_tensors gw \<and> gw_dataOffset gw' = gw_dataOffset gw
    \<and> (\<exists>k. cw_out (gw_cw gw') = cw_out (gw_cw gw) @ data @ replicate k 0)"
proof -
  let ?t = "gw_tensors gw ! gw_next gw"
  let ?cb = "Write data (\<lambda>(n, e). Return e)"
  let ?s0 = "\<lparr>sw_w = gw_cw gw, sw_remaining = int (length data), sw_err = None\<rparr>"
  have ok: "cw_err (gw_cw gw) = None" "gw_next gw < length (gw_tensors gw)"
    and sz: "DataSize (DType ?t) (Numel ?t) = Some (int (length data))"
    and run: "WriteTensorStream sink gw (Some ?cb) = (None, gw')"
    using assms(3) by (auto simp: WriteTensor_def Let_def Numel_loop split: if_splits)
  obtain n e s where w: "stream_Write sink ?s0 data = ((n, e), s)" by (metis surj_pair)
  note r = run [unfolded WriteTensorStream_def Let_def, simplified ok sz]
  have fin: "sw_err s = None"
    and pad: "pad_to_next sink (gw\<lparr>gw_cw := sw_w s, gw_next := gw_next gw + 1\<rparr>) (Name ?t) = (None, gw')"
    using r ok(2) by (auto simp: or_else_def w Let_def split: option.splits if_splits)
  from stream_Write_spec [OF assms(1) w fin] assms(2) ok
  have q: "cw_out (sw_w s) = cw_out (gw_cw gw) @ data" "pos_ok (sw_w s)" by (auto simp: gw_inv_def)
  from pad_to_next_spec [OF assms(1) pad] q ok(2) show ?thesis by auto
qed

fun write_all :: "sink \<Rightarrow> GGUFWriter \<Rightarrow> u8 list list \<Rightarrow> werror option \<times> GGUFWriter" where
  "write_all sink gw [] = (None, gw)"
| "write_all sink gw (d # ds) = (case WriteTensor sink gw d of
     (Some e, gw) \<Rightarrow> (Some e, gw) | (None, gw) \<Rightarrow> write_all sink gw ds)"

lemma write_all_out:
  assumes "sink_law sink" "gw_inv gw" "write_all sink gw ds = (None, gw')"
  shows "gw_inv gw' \<and> (\<exists>q. cw_out (gw_cw gw') = cw_out (gw_cw gw) @ q)"
  using assms(2,3)
proof (induction ds arbitrary: gw)
  case Nil
  then show ?case by auto
next
  case (Cons d ds)
  then obtain g1 where g1: "WriteTensor sink gw d = (None, g1)" "write_all sink g1 ds = (None, gw')"
    by (auto split: prod.splits option.splits)
  from WriteTensor_spec [OF assms(1) Cons.prems(1) g1(1)] Cons.IH [OF _ g1(2)] show ?case by auto
qed

text \<open>
  Every tensor's bytes stand in the output at the data start plus the tensor's planned offset.
\<close>

lemma write_all_placed:
  assumes "sink_law sink" "gw_inv gw" "write_all sink gw ds = (None, gw')"
    and "length (cw_out (gw_cw gw')) < 9223372036854775808" "i < length ds"
  shows "gw_next gw + i < length (gw_tensors gw) \<and>
    (\<exists>start. int start = wrap64 (gw_dataOffset gw + sint (Offset (gw_tensors gw ! (gw_next gw + i))))
      \<and> take (length (ds ! i)) (drop start (cw_out (gw_cw gw'))) = ds ! i)"
  using assms(2,3,5)
proof (induction ds arbitrary: gw i)
  case Nil
  then show ?case by simp
next
  case (Cons d ds)
  then obtain g1 where g1: "WriteTensor sink gw d = (None, g1)" "write_all sink g1 ds = (None, gw')"
    by (auto split: prod.splits option.splits)
  note w = WriteTensor_spec [OF assms(1) Cons.prems(1) g1(1)]
  show ?case
  proof (cases i)
    case 0
    obtain q k where q: "cw_out (gw_cw gw') = cw_out (gw_cw gw) @ d @ replicate k 0 @ q"
      using w write_all_out [OF assms(1) _ g1(2)] by auto
    let ?start = "length (cw_out (gw_cw gw))"
    have "cw_pos (gw_cw gw) = wrap64 (int ?start)" using Cons.prems(1) by (simp add: gw_inv_def pos_ok_def)
    moreover have "int ?start \<le> max_int" using assms(4) q by (simp add: max_int_def)
    ultimately have "int ?start = cw_pos (gw_cw gw)" by simp
    then have "int ?start = wrap64 (gw_dataOffset gw + sint (Offset (gw_tensors gw ! gw_next gw)))"
      using Cons.prems(1) w by (simp add: gw_inv_def)
    then show ?thesis using 0 w q by (intro conjI exI [of _ ?start]) auto
  next
    case (Suc j)
    then have "j < length ds" using Cons.prems(3) by simp
    with Cons.IH [OF _ g1(2)] w Suc show ?thesis by auto
  qed
qed

section \<open>Writing a whole file\<close>

lemma cw_Write_sink_ok:
  "cw_err cw = None \<Longrightarrow> cw_Write sink_ok cw p = ((length p, None), emit cw p)"
  by (simp add: cw_Write_def sink_ok_def emit_def Let_def)

lemma WriteTensor_ok:
  assumes "cw_err (gw_cw gw) = None" "gw_next gw < length (gw_tensors gw)"
    and t: "t = gw_tensors gw ! gw_next gw" "DataSize (DType t) (Numel t) = Some (int (length d))"
  shows "WriteTensor sink_ok gw d =
    pad_to_next sink_ok (gw\<lparr>gw_cw := emit (gw_cw gw) d, gw_next := gw_next gw + 1\<rparr>) (Name t)"
proof -
  have "numel_loop 1 (Dims t) = Numel t" by (simp add: Numel_loop)
  then show ?thesis using assms
    by (simp add: WriteTensor_def WriteTensorStream_def Let_def cw_Write_sink_ok stream_Write_def or_else_def)
qed

definition sizes_ok :: "TensorInfo list \<Rightarrow> u8 list list \<Rightarrow> bool" where
  "sizes_ok ts ds \<longleftrightarrow> list_all2 (\<lambda>t d. DataSize (DType t) (Numel t) = Some (int (length d))) ts ds"

lemma plan_tensors_Cons:
  assumes "plan_tensors A off ps = Inr (t # ts)" "DataSize (DType t) (Numel t) = Some sz"
  shows "\<exists>ps'. plan_tensors A (alignUp64 (off + word_of_int sz) A) ps' = Inr ts \<and> Offset t = off"
proof (cases ps)
  case Nil
  then show ?thesis using assms(1) by simp
next
  case (Cons p ps')
  with assms(1) obtain sz' where s: "DataSize (pDType p) (numel_loop 1 (pDims p)) = Some sz'"
    by (auto split: option.splits)
  have r: "plan_tensors A (alignUp64 (off + word_of_int sz') A) ps' = Inr ts"
      "t = \<lparr>Name = pName p, Dims = pDims p, DType = pDType p, Offset = off, Shard = None\<rparr>"
    using assms(1) s Cons by auto
  then have "sz' = sz" using assms(2) s by (simp add: Numel_def)
  then show ?thesis using r by auto
qed

lemma plan_tensors_first:
  "plan_tensors A off ps = Inr ts \<Longrightarrow> ts \<noteq> [] \<Longrightarrow> Offset (hd ts) = off"
  by (cases ps) (auto split: option.splits)

lemma pad_to_next_ok:
  assumes "cw_err (gw_cw gw) = None" "cw_pos (gw_cw gw) = gw_dataOffset gw + int n" "0 \<le> gw_dataOffset gw"
    and "gw_next gw < length (gw_tensors gw) \<Longrightarrow> unat (Offset (gw_tensors gw ! gw_next gw)) = n + k"
    and "gw_dataOffset gw + int (n + k) < 9223372036854775808"
  shows "\<exists>c. pad_to_next sink_ok gw nm = (None, gw\<lparr>gw_cw := c\<rparr>) \<and> cw_err c = None
    \<and> (gw_next gw < length (gw_tensors gw) \<longrightarrow> cw_pos c = gw_dataOffset gw + int (n + k))
    \<and> length (cw_out c) \<le> length (cw_out (gw_cw gw)) + k"
proof (cases "gw_next gw < length (gw_tensors gw)")
  case False
  then show ?thesis using assms(1) by (intro exI [of _ "gw_cw gw"]) (simp add: pad_to_next_def)
next
  case True
  have o: "sint (Offset (gw_tensors gw ! gw_next gw)) = int (n + k)"
    using sint_small [of "Offset (gw_tensors gw ! gw_next gw)"] assms(3,4,5) True by simp
  have wp: "wrap64 (gw_dataOffset gw + int (n + k)) = gw_dataOffset gw + int (n + k)"
    by (rule wrap64_id) (use assms(3,5) in \<open>simp_all add: max_int_def\<close>)
  have pd: "wrap64 (gw_dataOffset gw + int (n + k) - cw_pos (gw_cw gw)) = int k"
    by (subst wrap64_id) (use assms(2,3,5) in \<open>simp_all add: max_int_def\<close>)
  show ?thesis
  proof (cases "k = 0")
    case True
    then show ?thesis using \<open>gw_next gw < _\<close> assms(1,2) wp pd o
      by (intro exI [of _ "gw_cw gw"]) (simp add: pad_to_next_def Let_def)
  next
    case False
    let ?c = "emit (gw_cw gw) (replicate k 0)"
    have "cw_pos ?c = gw_dataOffset gw + int (n + k)"
      using wp by (simp add: emit_def assms(2) add.assoc)
    then show ?thesis using \<open>gw_next gw < _\<close> assms(1) wp pd o False
      by (intro exI [of _ ?c]) (simp add: pad_to_next_def Let_def)
  qed
qed

lemma write_all_ok:
  assumes "plan_tensors (word_of_nat al) off ps = Inr ts" "0 < al" "sizes_ok ts ds"
    and "drop (gw_next gw) (gw_tensors gw) = ts" "cw_err (gw_cw gw) = None" "0 \<le> gw_dataOffset gw"
    and "ts \<noteq> [] \<longrightarrow> cw_pos (gw_cw gw) = gw_dataOffset gw + int (unat off)"
    and "gw_dataOffset gw + int (unat off + sum_list (map length ds) + length ds * al) < 4611686018427387904"
  shows "\<exists>gw'. write_all sink_ok gw ds = (None, gw') \<and> gw_next gw' = gw_next gw + length ds
    \<and> gw_tensors gw' = gw_tensors gw \<and> cw_err (gw_cw gw') = None
    \<and> length (cw_out (gw_cw gw')) \<le> length (cw_out (gw_cw gw)) + (sum_list (map length ds) + length ds * al)"
  using assms
proof (induction ds arbitrary: off ps ts gw)
  case Nil
  then show ?case by simp
next
  case (Cons d ds)
  from Cons.prems(3) obtain t ts' where ts: "ts = t # ts'"
      "DataSize (DType t) (Numel t) = Some (int (length d))" "sizes_ok ts' ds"
    by (auto simp: sizes_ok_def list_all2_Cons2)
  obtain ps' where pl: "Offset t = off"
      "plan_tensors (word_of_nat al) (alignUp64 (off + word_of_int (int (length d))) (word_of_nat al)) ps' = Inr ts'"
    using plan_tensors_Cons [OF Cons.prems(1) [unfolded ts(1)] ts(2)] by blast
  have nx: "gw_next gw < length (gw_tensors gw)" "t = gw_tensors gw ! gw_next gw"
      "drop (gw_next gw + 1) (gw_tensors gw) = ts'"
  proof -
    show a: "gw_next gw < length (gw_tensors gw)" using Cons.prems(4) ts(1) by (intro not_le_imp_less notI) simp
    show "t = gw_tensors gw ! gw_next gw" "drop (gw_next gw + 1) (gw_tensors gw) = ts'"
      using Cons_nth_drop_Suc [OF a] Cons.prems(4) ts(1) by simp_all
  qed
  let ?off = "alignUp64 (off + word_of_int (int (length d))) (word_of_nat al)"
  let ?g = "gw\<lparr>gw_cw := emit (gw_cw gw) d, gw_next := gw_next gw + 1\<rparr>"
  let ?n = "unat off + length d"
  have small: "gw_dataOffset gw + int (?n + al) < 4611686018427387904"
  proof -
    have "?n + al \<le> unat off + sum_list (map length (d # ds)) + length (d # ds) * al" by simp
    then show ?thesis using Cons.prems(8) by linarith
  qed
  have offn: "off + word_of_int (int (length d)) = word_of_nat ?n" by simp
  have uo: "unat ?off = ?n + (al - ?n mod al) mod al"
    unfolding offn by (rule unat_alignUp64) (use Cons.prems(2,6) small in linarith)+
  have kl: "(al - ?n mod al) mod al < al" using Cons.prems(2) by simp
  let ?k = "(al - ?n mod al) mod al"
  have pos: "cw_pos (gw_cw gw) = gw_dataOffset gw + int (unat off)" using Cons.prems(7) ts(1) by simp
  have pos': "cw_pos (gw_cw ?g) = gw_dataOffset ?g + int ?n"
    using small Cons.prems(6) by (simp add: emit_def pos max_int_def add.assoc del: of_nat_unat)
  have nxo: "unat (Offset (gw_tensors ?g ! gw_next ?g)) = ?n + ?k" if a: "gw_next ?g < length (gw_tensors ?g)"
  proof -
    have "gw_tensors ?g ! gw_next ?g = hd ts'" "ts' \<noteq> []"
      using nx(3) a by (auto simp: hd_drop_conv_nth)
    then show ?thesis using plan_tensors_first [OF pl(2)] uo by simp
  qed
  obtain c where c: "pad_to_next sink_ok ?g (Name t) = (None, ?g\<lparr>gw_cw := c\<rparr>)" "cw_err c = None"
      "gw_next ?g < length (gw_tensors ?g) \<longrightarrow> cw_pos c = gw_dataOffset ?g + int (?n + ?k)"
      "length (cw_out c) \<le> length (cw_out (gw_cw ?g)) + ?k"
    using pad_to_next_ok [of ?g ?n ?k "Name t"] pos' nxo small kl Cons.prems(5,6) by auto
  let ?h = "?g\<lparr>gw_cw := c\<rparr>"
  have w: "WriteTensor sink_ok gw d = (None, ?h)"
    using WriteTensor_ok [OF Cons.prems(5) nx(1,2) ts(2)] c(1) by simp
  have bound: "gw_dataOffset ?h + int (unat ?off + sum_list (map length ds) + length ds * al) < 4611686018427387904"
  proof -
    have "unat ?off + sum_list (map length ds) + length ds * al
        \<le> unat off + sum_list (map length (d # ds)) + length (d # ds) * al"
      unfolding uo using kl by simp
    then have "gw_dataOffset gw + int (unat ?off + sum_list (map length ds) + length ds * al) < 4611686018427387904"
      using Cons.prems(8) by linarith
    then show ?thesis by simp
  qed
  have pos2: "ts' \<noteq> [] \<longrightarrow> cw_pos (gw_cw ?h) = gw_dataOffset ?h + int (unat ?off)"
    using c(3) nx(3) uo by auto
  have "\<exists>gw'. write_all sink_ok ?h ds = (None, gw') \<and> gw_next gw' = gw_next ?h + length ds
    \<and> gw_tensors gw' = gw_tensors ?h \<and> cw_err (gw_cw gw') = None
    \<and> length (cw_out (gw_cw gw')) \<le> length (cw_out (gw_cw ?h)) + (sum_list (map length ds) + length ds * al)"
    by (rule Cons.IH [OF pl(2) Cons.prems(2) ts(3) _ _ _ pos2 bound]) (use nx(3) c(2) Cons.prems(6) in simp_all)
  then obtain gw' where gw': "write_all sink_ok ?h ds = (None, gw')" "gw_next gw' = gw_next ?h + length ds"
      "gw_tensors gw' = gw_tensors ?h" "cw_err (gw_cw gw') = None"
      "length (cw_out (gw_cw gw')) \<le> length (cw_out (gw_cw ?h)) + (sum_list (map length ds) + length ds * al)"
    by blast
  have "length (cw_out (gw_cw ?h)) \<le> length (cw_out (gw_cw gw)) + length d + al"
    using c(4) kl by simp
  then show ?case using w gw' by simp
qed

lemma plan_offsets_small:
  assumes "plan_tensors (word_of_nat al) off ps = Inr ts" "0 < al" "sizes_ok ts ds" "i < length ts"
    and "unat off + sum_list (map length ds) + length ds * al < 9223372036854775808"
  shows "unat (Offset (ts ! i)) \<le> unat off + sum_list (map length ds) + length ds * al"
  using assms
proof (induction ds arbitrary: off ps ts i)
  case Nil
  then show ?case by (simp add: sizes_ok_def)
next
  case (Cons d ds)
  from Cons.prems(3) obtain t ts' where ts: "ts = t # ts'"
      "DataSize (DType t) (Numel t) = Some (int (length d))" "sizes_ok ts' ds"
    by (auto simp: sizes_ok_def list_all2_Cons2)
  let ?off = "alignUp64 (off + word_of_int (int (length d))) (word_of_nat al)"
  obtain ps' where pl: "Offset t = off" "plan_tensors (word_of_nat al) ?off ps' = Inr ts'"
    using plan_tensors_Cons [OF Cons.prems(1) [unfolded ts(1)] ts(2)] by blast
  let ?n = "unat off + length d"
  have lim: "?n + al + sum_list (map length ds) + length ds * al < 9223372036854775808"
    using Cons.prems(5) by simp
  have offn: "off + word_of_int (int (length d)) = word_of_nat ?n" by simp
  have uo: "unat ?off = ?n + (al - ?n mod al) mod al"
    unfolding offn by (rule unat_alignUp64) (use Cons.prems(2) lim in linarith)+
  moreover have "(al - ?n mod al) mod al < al" using Cons.prems(2) by simp
  ultimately have bnd: "unat ?off + sum_list (map length ds) + length ds * al < 9223372036854775808"
    using lim by linarith
  show ?case
  proof (cases i)
    case 0
    then show ?thesis using ts(1) pl(1) lim by simp
  next
    case (Suc j)
    have "unat (Offset (ts' ! j)) \<le> unat ?off + sum_list (map length ds) + length ds * al"
      by (rule Cons.IH [OF pl(2) Cons.prems(2) ts(3) _ bnd]) (use Cons.prems(4) ts(1) Suc in simp)
    moreover have "unat ?off \<le> ?n + al" unfolding uo using Cons.prems(2) by simp
    ultimately show ?thesis using Suc ts(1) by simp
  qed
qed

lemma write_file:
  assumes m: "meta_ok m0" "length m0 < 1048576"
    and p: "\<And>p. p \<in> set planned \<Longrightarrow> planned_ok p" "length planned \<le> 1048576"
    and al: "al = effective_alignment a0" "al < 4294967296"
    and ts: "plan_tensors (word_of_int al) 0 planned = Inr ts"
    and ds: "sizes_ok ts ds"
    and size: "length (header_bytes (effective_metadata m0 al) ts) + sum_list (map length ds)
       + Suc (length ds) * nat al < 4611686018427387904"
  shows "\<exists>gw gw' g. NewGGUFWriter sink_ok m0 planned a0 = Inr gw
    \<and> write_all sink_ok gw ds = (None, gw')
    \<and> writer_Close flush gw' = (let e = flush (cw_out (gw_cw gw')) in (e, gw'\<lparr>gw_cw := (gw_cw gw')\<lparr>cw_err := e\<rparr>\<rparr>))
    \<and> parseGGUF (cw_out (gw_cw gw')) = Inr g
    \<and> map_of (Metadata g) = map_of (effective_metadata m0 al) \<and> Tensors g = ts \<and> Version g = 3
    \<and> (\<forall>i < length ds. take (length (ds ! i)) (drop (DataOffset g + unat (Offset (ts ! i))) (cw_out (gw_cw gw'))) = ds ! i)"
proof -
  let ?h = "header_bytes (effective_metadata m0 al) ts"
  have al0: "0 < al" by (simp add: al(1) effective_alignment_def)
  have hs: "length ?h < 4611686018427387904" using size by linarith
  note rt = header_roundtrip [OF m p al ts hs]
  obtain gw where gw: "NewGGUFWriter sink_ok m0 planned a0 = Inr gw" "gw_tensors gw = ts"
      "cw_out (gw_cw gw) = ?h @ replicate (pad_len (length ?h) (nat al)) 0"
      "gw_dataOffset gw = int (length ?h + pad_len (length ?h) (nat al))" "cw_ok (gw_cw gw)"
      "cw_pos (gw_cw gw) = gw_dataOffset gw" "gw_next gw = 0"
    using NewGGUFWriter_ok [OF m(1) al(1) ts refl] size al0 by fastforce
  have padl: "pad_len (length ?h) (nat al) < nat al" using al0 by (simp add: pad_len_def)
  have len: "length ts = length ds" using ds by (simp add: sizes_ok_def list_all2_lengthD)
  have ts': "plan_tensors (word_of_nat (nat al)) 0 planned = Inr ts" using ts al0 by simp
  have total: "gw_dataOffset gw + int (sum_list (map length ds) + length ds * nat al) < 4611686018427387904"
  proof -
    have "length ?h + pad_len (length ?h) (nat al) + (sum_list (map length ds) + length ds * nat al) < 4611686018427387904"
      using size padl by simp
    then show ?thesis unfolding gw(4) by linarith
  qed
  obtain gw' where gw': "write_all sink_ok gw ds = (None, gw')" "gw_next gw' = length ds" "gw_tensors gw' = ts"
      "cw_err (gw_cw gw') = None"
      "length (cw_out (gw_cw gw')) \<le> length (cw_out (gw_cw gw)) + (sum_list (map length ds) + length ds * nat al)"
    using write_all_ok [OF ts' _ ds, of gw] al0 gw(2,4-7) total by auto
  have outlen: "length (cw_out (gw_cw gw')) < 9223372036854775808"
    using gw'(5) gw(3) size padl by simp
  obtain g where g: "parseGGUF (cw_out (gw_cw gw) @ drop (length (cw_out (gw_cw gw))) (cw_out (gw_cw gw'))) = Inr g"
      "map_of (Metadata g) = map_of (effective_metadata m0 al)" "Tensors g = ts" "Version g = 3"
      "int (DataOffset g) = gw_dataOffset gw"
    using rt [of "drop (length (cw_out (gw_cw gw))) (cw_out (gw_cw gw'))"] gw(1,2) by auto
  have inv: "gw_inv gw"
  proof -
    have first: "Offset (ts ! 0) = 0" if "ts \<noteq> []" using plan_tensors_first [OF ts that] that by (simp add: hd_conv_nth)
    have "cw_pos (gw_cw gw) = wrap64 (cw_pos (gw_cw gw))" using gw(5) by (simp add: cw_ok_def)
    then show ?thesis using gw(2,3,4,6,7) first by (auto simp: gw_inv_def pos_ok_def)
  qed
  obtain q where q: "cw_out (gw_cw gw') = cw_out (gw_cw gw) @ q"
    using write_all_out [OF sink_law_ok inv gw'(1)] by blast
  have place: "take (length (ds ! i)) (drop (DataOffset g + unat (Offset (ts ! i))) (cw_out (gw_cw gw'))) = ds ! i"
    if i: "i < length ds" for i
  proof -
    have ut: "unat (Offset (ts ! i)) + DataOffset g < 9223372036854775808"
    proof -
      have "unat (Offset (ts ! i)) \<le> unat (0 :: u64) + sum_list (map length ds) + length ds * nat al"
        by (rule plan_offsets_small [OF ts' _ ds]) (use al0 i len size in simp_all)
      moreover have "DataOffset g \<le> length ?h + nat al" using g(5) gw(4) padl by simp
      ultimately show ?thesis using size by simp
    qed
    obtain start where st: "int start = wrap64 (gw_dataOffset gw + sint (Offset (ts ! i)))"
        "take (length (ds ! i)) (drop start (cw_out (gw_cw gw'))) = ds ! i"
      using write_all_placed [OF sink_law_ok inv gw'(1) outlen i] gw(2,7) by auto
    have "sint (Offset (ts ! i)) = int (unat (Offset (ts ! i)))" using ut by (intro sint_small) simp
    then have "int start = int (DataOffset g + unat (Offset (ts ! i)))"
      using st(1) ut g(5) by (simp add: max_int_def del: of_nat_unat)
    then have "start = DataOffset g + unat (Offset (ts ! i))" by (simp only: of_nat_eq_iff)
    then show ?thesis using st(2) by simp
  qed
  have close: "writer_Close flush gw' = (let e = flush (cw_out (gw_cw gw')) in (e, gw'\<lparr>gw_cw := (gw_cw gw')\<lparr>cw_err := e\<rparr>\<rparr>))"
    using gw'(2-4) len by (simp add: writer_Close_def)
  show ?thesis using gw(1) gw'(1) close g q place by auto
qed


end
