(* ===== verification/Gguf_Sound.thy ===== *)
theory Gguf_Sound
  imports Gguf_Stream
begin

text \<open>
  Soundness of the GGUF parser: a successful read consumes exactly as many bytes as the writer
  emits for the value, never leaves the buffer, and yields only values, keys and descriptors that
  satisfy the writer's well-formedness conditions (nesting at most 16, arrays at most \<open>2^24\<close>).
\<close>

section \<open>What the parser returns\<close>

text \<open>
  \<open>cur_read d t c v c'\<close>: the bytes between the two cursors are as many as the writer would emit
  for \<open>v\<close>, and \<open>v\<close> is a value the writer accepts under wire tag \<open>t\<close> at nesting depth \<open>d\<close>.
\<close>

definition cur_read :: "nat \<Rightarrow> u32 \<Rightarrow> cursor \<Rightarrow> meta_value \<Rightarrow> cursor \<Rightarrow> bool" where
  "cur_read d t c v c' \<longleftrightarrow> wf_meta d v \<and> tag_of (Value v) = t \<and> cur_data c' = cur_data c
     \<and> cur_pos c' = cur_pos c + length (enc_value v) \<and> cur_pos c' \<le> length (cur_data c)"

definition cur_ok :: "cursor \<Rightarrow> bool" where
  "cur_ok c \<longleftrightarrow> cur_pos c \<le> length (cur_data c) \<and> length (cur_data c) < 18446744073709551616"

lemma cur_scalar_exact:
  "cur_u8 c = Inr (x8, c') \<Longrightarrow> cur_data c' = cur_data c \<and> cur_pos c' = cur_pos c + 1 \<and> cur_pos c' \<le> length (cur_data c)"
  "cur_u16 c = Inr (x16, c') \<Longrightarrow> cur_data c' = cur_data c \<and> cur_pos c' = cur_pos c + 2 \<and> cur_pos c' \<le> length (cur_data c)"
  "cur_u32 c = Inr (x32, c') \<Longrightarrow> cur_data c' = cur_data c \<and> cur_pos c' = cur_pos c + 4 \<and> cur_pos c' \<le> length (cur_data c)"
  "cur_u64 c = Inr (x64, c') \<Longrightarrow> cur_data c' = cur_data c \<and> cur_pos c' = cur_pos c + 8 \<and> cur_pos c' \<le> length (cur_data c)"
  by (auto simp: cur_u8_def cur_u16_def cur_u32_def cur_u64_def)

lemma cur_str_exact:
  assumes "cur_str c = Inr (s, c')" "cur_ok c"
  shows "cur_data c' = cur_data c \<and> cur_pos c' = cur_pos c + length (enc_str s) \<and> cur_pos c' \<le> length (cur_data c) \<and> str_ok s"
proof -
  obtain n c1 where c1: "cur_u64 c = Inr (n, c1)"
    and le: "cur_pos c1 + unat n \<le> length (cur_data c1)"
    and r: "s = string_of_bytes (take (unat n) (drop (cur_pos c1) (cur_data c1)))" "c' = c1\<lparr>cur_pos := cur_pos c1 + unat n\<rparr>"
    using assms(1) by (auto simp: cur_str_def Let_def split: if_splits)
  from cur_scalar_exact(4) [OF c1] le r assms(2) show ?thesis
    by (auto simp: cur_ok_def str_ok_def)
qed

lemma cur_ok_exact: "cur_ok c \<Longrightarrow> cur_data c' = cur_data c \<Longrightarrow> cur_pos c' \<le> length (cur_data c) \<Longrightarrow> cur_ok c'"
  by (simp add: cur_ok_def)

locale exact_loop =
  fixes enc :: "'a \<Rightarrow> u8 list"
    and dec :: "cursor \<Rightarrow> gguf_error + ('a \<times> cursor)"
    and valid :: "'a \<Rightarrow> bool"
    and loop :: "nat \<Rightarrow> cursor \<Rightarrow> gguf_error + ('a list \<times> cursor)"
  assumes dec_exact: "dec c = Inr (v, c') \<Longrightarrow> cur_ok c \<Longrightarrow> valid v \<and> cur_data c' = cur_data c
      \<and> cur_pos c' = cur_pos c + length (enc v) \<and> cur_pos c' \<le> length (cur_data c)"
    and exact_0: "loop 0 c = Inr ([], c)"
    and exact_Suc: "loop (Suc n) c = and_then (dec c) (\<lambda>(v, c). and_then (loop n c) (\<lambda>(vs, c). Inr (v # vs, c)))"
begin

lemma loop_exact:
  "loop n c = Inr (vs, c') \<Longrightarrow> cur_ok c \<Longrightarrow> length vs = n \<and> list_all valid vs \<and> cur_data c' = cur_data c
      \<and> cur_pos c' = cur_pos c + length (concat (map enc vs)) \<and> cur_pos c' \<le> length (cur_data c)"
proof (induction n arbitrary: c vs c')
  case 0
  then show ?case by (simp add: exact_0 cur_ok_def)
next
  case (Suc n)
  then obtain v c1 vs1 where d: "dec c = Inr (v, c1)" "loop n c1 = Inr (vs1, c')" "vs = v # vs1"
    by (auto simp: exact_Suc)
  note e = dec_exact [OF d(1) Suc.prems(2)]
  with Suc.IH [OF d(2) cur_ok_exact [OF Suc.prems(2)]] d(3) show ?case by simp
qed

end

interpretation str_exact: exact_loop enc_str cur_str str_ok cur_strs
  by unfold_locales (auto dest: cur_str_exact)

interpretation f32_exact: exact_loop le_u32 cur_u32 "\<lambda>_. True" cur_f32s
  by unfold_locales (auto dest: cur_scalar_exact(3))

interpretation dims_exact: exact_loop le_u64 cur_u64 "\<lambda>_. True" parse_dims
  by unfold_locales (auto dest: cur_scalar_exact(4))

lemma cur_bools_exact:
  "cur_bools n c = Inr (bs, c') \<Longrightarrow> cur_ok c \<Longrightarrow> length bs = n \<and> cur_data c' = cur_data c
      \<and> cur_pos c' = cur_pos c + length (concat (map enc_bool bs)) \<and> cur_pos c' \<le> length (cur_data c)"
proof (induction n arbitrary: c bs c')
  case 0
  then show ?case by (simp add: cur_ok_def)
next
  case (Suc n)
  then obtain v c1 bs1 where d: "cur_u8 c = Inr (v, c1)" "cur_bools n c1 = Inr (bs1, c')" "bs = (v \<noteq> 0) # bs1"
    by auto
  note e = cur_scalar_exact(1) [OF d(1)]
  with Suc.IH [OF d(2) cur_ok_exact [OF Suc.prems(2)]] d(3) show ?case by (simp add: enc_bool_def)
qed

lemma tag_value_Inr: "tag_value k f r = Inr (v, c') \<longleftrightarrow> (\<exists>x. r = Inr (x, c') \<and> v = MetaValue k (f x))"
  by (auto simp: tag_value_def)

lemma elem_minimum_tags: "elem_minimum t = Some m \<Longrightarrow> t \<noteq> 8 \<Longrightarrow> t \<noteq> 6 \<Longrightarrow> t \<noteq> 7 \<Longrightarrow> tag_of a = t \<Longrightarrow> wf_any d a \<Longrightarrow>
   kind_of a \<notin> {''str'', ''f32'', ''bool''}"
  by (cases a) auto

lemma tag_kind_eq: "wf_any d a \<Longrightarrow> wf_any d b \<Longrightarrow> tag_of a = tag_of b \<Longrightarrow> kind_of a = kind_of b"
  by (cases a; cases b) simp_all


definition cur_reads :: "nat \<Rightarrow> u32 \<Rightarrow> cursor \<Rightarrow> meta_value list \<Rightarrow> cursor \<Rightarrow> bool" where
  "cur_reads d t c vs c' \<longleftrightarrow> list_all (\<lambda>v. wf_meta d v \<and> tag_of (Value v) = t) vs \<and> cur_data c' = cur_data c
     \<and> cur_pos c' = cur_pos c + length (concat (map enc_value vs)) \<and> cur_pos c' \<le> length (cur_data c)"

lemma array_exact:
  assumes c1: "cur_u32 c = Inr (elem, c1)" "cur_u64 c1 = Inr (count, c2)" "cur_ok c"
    and bound: "unat count \<le> 16777216" "d < 16"
    and mn: "elem_minimum elem = Some minimum"
    and IH: "\<And>vs c3. cur_values (d + 1) elem (unat count) c2 = Inr (vs, c3) \<Longrightarrow> elem \<notin> {8, 6, 7} \<Longrightarrow> cur_ok c2 \<Longrightarrow>
        cur_reads (d + 1) elem c2 vs c3 \<and> length vs = unat count"
    and r: "(if elem = 8 then tag_value ''array'' VStrs (cur_strs (unat count) c2)
              else if elem = 6 then tag_value ''array'' VF32s (cur_f32s (unat count) c2)
              else if elem = 7 then tag_value ''array'' VBools (cur_bools (unat count) c2)
              else tag_value ''array'' VMetas (cur_values (d + 1) elem (unat count) c2)) = Inr (v, c')"
  shows "cur_read d 9 c v c'"
proof -
  note e1 = cur_scalar_exact(3) [OF c1(1)] and e2 = cur_scalar_exact(4) [OF c1(2)]
  have ok2: "cur_ok c2" "cur_data c2 = cur_data c" "cur_pos c2 = cur_pos c + 12"
    using e1 e2 c1(3) by (simp_all add: cur_ok_def)
  consider (s) ss where "elem = 8" "cur_strs (unat count) c2 = Inr (ss, c')" "v = MetaValue ''array'' (VStrs ss)"
    | (f) fs where "elem = 6" "cur_f32s (unat count) c2 = Inr (fs, c')" "v = MetaValue ''array'' (VF32s fs)"
    | (b) bs where "elem = 7" "cur_bools (unat count) c2 = Inr (bs, c')" "v = MetaValue ''array'' (VBools bs)"
    | (m) vs where "elem \<notin> {8, 6, 7}" "cur_values (d + 1) elem (unat count) c2 = Inr (vs, c')"
        "v = MetaValue ''array'' (VMetas vs)"
    using r by (auto simp: tag_value_Inr split: if_splits)
  then show ?thesis
  proof cases
    case s
    from str_exact.loop_exact [OF s(2) ok2(1)] ok2 s(3) bound show ?thesis by (simp add: cur_read_def)
  next
    case f
    from f32_exact.loop_exact [OF f(2) ok2(1)] ok2 f(3) bound show ?thesis by (simp add: cur_read_def)
  next
    case b
    from cur_bools_exact [OF b(2) ok2(1)] ok2 b(3) bound show ?thesis by (simp add: cur_read_def)
  next
    case m
    from IH [OF m(2,1) ok2(1)] have rs: "cur_reads (d + 1) elem c2 vs c'" and len: "length vs = unat count" by auto
    have wf: "wf_meta (Suc d) x \<and> tag_of (Value x) = elem" if "x \<in> set vs" for x
      using rs that by (simp add: cur_reads_def list_all_iff)
    have kinds: "Kind x = Kind (hd vs) \<and> Kind x \<notin> {''str'', ''f32'', ''bool''}" if x: "x \<in> set vs" for x
    proof -
      have h: "hd vs \<in> set vs" using x by (cases vs) auto
      note wx = wf [OF x] wf_meta_Kind [of "Suc d" x] and wh = wf [OF h] wf_meta_Kind [of "Suc d" "hd vs"]
      then have "Kind x = Kind (hd vs)" using tag_kind_eq [of "Suc d" "Value x" "Value (hd vs)"] by simp
      moreover have "Kind x \<notin> {''str'', ''f32'', ''bool''}"
        using elem_minimum_tags [OF mn, of "Value x" "Suc d"] wx m(1) by simp
      ultimately show ?thesis by simp
    qed
    have "list_all (wf_meta (Suc d)) vs" "list_all (\<lambda>v. Kind v = Kind (hd vs) \<and> Kind v \<notin> {''str'', ''f32'', ''bool''}) vs"
      using wf kinds unfolding list_all_iff by blast+
    then have "wf_meta d v" using m(3) bound len by simp
    then show ?thesis using rs ok2 m(3) by (simp add: cur_read_def cur_reads_def)
  qed
qed


lemma cur_scalar_read:
  assumes "t \<noteq> 9" "cur_value d t c = Inr (v, c')" "cur_ok c"
  shows "cur_read d t c v c'"
proof -
  consider "t = 0" | "t = 1" | "t = 2" | "t = 3" | "t = 4" | "t = 5" | "t = 6" | "t = 7" | "t = 8"
    | "t = 10" | "t = 11" | "t = 12"
    using assms(1,2) unfolding cur_value.simps by (auto split: if_splits)
  then show ?thesis using assms(2,3)
    by cases (auto simp: cur_value.simps tag_value_Inr cur_read_def enc_bool_def dest!: cur_scalar_exact cur_str_exact)
qed

lemma cur_value_read_all:
  "(cur_value d t c = Inr (v, c') \<longrightarrow> cur_ok c \<longrightarrow> cur_read d t c v c')"
  "(cur_values d e n c = Inr (vs, c') \<longrightarrow> cur_ok c \<longrightarrow> cur_reads d e c vs c' \<and> length vs = n)"
proof (induction d t c and d e n c arbitrary: v c' and vs c' rule: cur_value_cur_values.induct)
  case (1 d t c)
  show ?case
  proof (intro impI)
    assume r: "cur_value d t c = Inr (v, c')" and ok: "cur_ok c"
    show "cur_read d t c v c'"
    proof (cases "t = 9")
      case False
      then show ?thesis by (rule cur_scalar_read [OF _ r ok])
    next
      case True
      obtain elem c1 count c2 m where a: "cur_u32 c = Inr (elem, c1)" "cur_u64 c1 = Inr (count, c2)"
          "elem_minimum elem = Some m" "\<not> unat count > (length (cur_data c2) - cur_pos c2) div m"
          "unat count \<le> 16777216" "d < 16"
        and body: "(if elem = 8 then tag_value ''array'' VStrs (cur_strs (unat count) c2)
              else if elem = 6 then tag_value ''array'' VF32s (cur_f32s (unat count) c2)
              else if elem = 7 then tag_value ''array'' VBools (cur_bools (unat count) c2)
              else tag_value ''array'' VMetas (cur_values (d + 1) elem (unat count) c2)) = Inr (v, c')"
        using r True unfolding cur_value.simps [of d t c]
        by (auto split: option.splits if_splits)
      have "cur_read d 9 c v c'"
      proof (rule array_exact [OF a(1,2) ok a(5,6,3) _ body])
        fix vs c3
        assume v: "cur_values (d + 1) elem (unat count) c2 = Inr (vs, c3)" and n: "elem \<notin> {8, 6, 7}" and ok2: "cur_ok c2"
        show "cur_reads (d + 1) elem c2 vs c3 \<and> length vs = unat count"
          using 1 v n ok2 True a by fastforce
      qed
      then show ?thesis using True by simp
    qed
  qed
next
  case (2 d e c)
  then show ?case by (simp add: cur_reads_def cur_ok_def)
next
  case (3 d e n c)
  show ?case
  proof (intro impI)
    assume r: "cur_values d e (Suc n) c = Inr (vs, c')" and ok: "cur_ok c"
    then obtain v c1 vs1 where s: "cur_value d e c = Inr (v, c1)" "cur_values d e n c1 = Inr (vs1, c')" "vs = v # vs1"
      by auto
    have v: "cur_read d e c v c1" using 3(1) s(1) ok by blast
    then have ok1: "cur_ok c1" using ok by (simp add: cur_read_def cur_ok_def)
    have "cur_reads d e c1 vs1 c' \<and> length vs1 = n" using 3(2) [OF s(1) refl] s(2) ok1 by blast
    then show "cur_reads d e c vs c' \<and> length vs = Suc n"
      using v s(3) by (simp add: cur_read_def cur_reads_def)
  qed
qed

lemma cur_value_read: "cur_value d t c = Inr (v, c') \<Longrightarrow> cur_ok c \<Longrightarrow> cur_read d t c v c'"
  using cur_value_read_all(1) by blast


lemma meta_ok_update:
  assumes "meta_ok m" "str_ok k" "wf_meta 0 v"
  shows "meta_ok (AList.update k v m)"
  using assms by (auto simp: meta_ok_def dest!: in_set_update)

lemma length_update_le: "length (AList.update k v m) \<le> Suc (length m)"
  by (induction m) auto

lemma parse_metadata_read:
  "parse_metadata n c m = Inr (m', c') \<Longrightarrow> cur_ok c \<Longrightarrow> meta_ok m \<Longrightarrow>
    meta_ok m' \<and> length m' \<le> length m + n \<and> cur_data c' = cur_data c \<and> cur_pos c \<le> cur_pos c' \<and> cur_ok c'"
proof (induction n arbitrary: c m)
  case 0
  then show ?case by simp
next
  case (Suc n)
  then obtain key c1 wt c2 where s12: "cur_str c = Inr (key, c1)" "cur_u32 c1 = Inr (wt, c2)" by auto
  with Suc.prems(1) obtain mv c3 where s34: "cur_value 0 wt c2 = Inr (mv, c3)"
      "parse_metadata n c3 (AList.update key mv m) = Inr (m', c')"
    by (cases "cur_value 0 wt c2") auto
  note s = s12 s34
  note k = cur_str_exact [OF s(1) Suc.prems(2)]
  note t = cur_scalar_exact(3) [OF s(2)]
  have ok2: "cur_ok c2" using k t Suc.prems(2) by (simp add: cur_ok_def)
  note v = cur_value_read [OF s(3) ok2, unfolded cur_read_def]
  have ok3: "cur_ok c3" using v ok2 by (simp add: cur_ok_def)
  have "meta_ok (AList.update key mv m)" using meta_ok_update Suc.prems(3) k v by simp
  from Suc.IH [OF s(4) ok3 this] k t v length_update_le [of key mv m] show ?case by simp
qed

lemma parse_tensors_read:
  "parse_tensors n c = Inr (ts, c') \<Longrightarrow> cur_ok c \<Longrightarrow>
    list_all desc_ok ts \<and> length ts = n \<and> cur_data c' = cur_data c \<and> cur_pos c \<le> cur_pos c' \<and> cur_ok c'"
proof (induction n arbitrary: c ts)
  case 0
  then show ?case by simp
next
  case (Suc n)
  then obtain nm c1 r c2 ds c3 dt c4 off c5 ts1 where s: "cur_str c = Inr (nm, c1)" "cur_u32 c1 = Inr (r, c2)"
      "\<not> (r = 0 \<or> r > 16 \<or> unat r > (length (cur_data c2) - cur_pos c2) div 8)"
      "parse_dims (unat r) c2 = Inr (ds, c3)" "cur_u32 c3 = Inr (dt, c4)" "cur_u64 c4 = Inr (off, c5)"
      "parse_tensors n c5 = Inr (ts1, c')"
      "ts = \<lparr>Name = nm, Dims = ds, DType = TypeFromID dt, Offset = off, Shard = None\<rparr> # ts1"
    by (auto split: if_splits)
  note k = cur_str_exact [OF s(1) Suc.prems(2)]
  note t = cur_scalar_exact(3) [OF s(2)]
  have ok2: "cur_ok c2" using k t Suc.prems(2) by (simp add: cur_ok_def)
  note d = dims_exact.loop_exact [OF s(4) ok2]
  note e = cur_scalar_exact(3) [OF s(5)] cur_scalar_exact(4) [OF s(6)]
  have ok5: "cur_ok c5" using k t d e Suc.prems(2) by (simp add: cur_ok_def)
  have "1 \<le> unat r \<and> unat r \<le> 16"
    using s(3) unat_eq_0 [of r] word_le_nat_alt [of r 16] by (simp add: not_less)
  then show ?case using Suc.IH [OF s(7) ok5] k t d e s(8) by (simp add: desc_ok_def)
qed

text \<open>The state of the header parser is well formed whenever it succeeds.\<close>

lemma parseGGUF_sound:
  assumes "parseGGUF data = Inr g" "length data < 18446744073709551616"
  shows "\<exists>a. meta_ok (Metadata g) \<and> length (Metadata g) \<le> 1048576 \<and> list_all desc_ok (Tensors g)
    \<and> length (Tensors g) \<le> 1048576 \<and> metadata_alignment (Metadata g) = Inr a \<and> 0 < a
    \<and> a dvd DataOffset g \<and> 24 \<le> DataOffset g \<and> DataOffset g < length data + a"
proof -
  let ?c = "\<lparr>cur_data = data, cur_pos = 4\<rparr>"
  obtain ver c1 nt c2 nkv c3 m c4 ts c5 a where s: "\<not> length data < 4" "cur_u32 ?c = Inr (ver, c1)" "cur_u64 c1 = Inr (nt, c2)"
      "cur_u64 c2 = Inr (nkv, c3)" "unat nkv \<le> 1048576" "unat nt \<le> 1048576"
      "parse_metadata (unat nkv) c3 [] = Inr (m, c4)" "parse_tensors (unat nt) c4 = Inr (ts, c5)"
      "metadata_alignment m = Inr a"
      "g = \<lparr>Metadata = m, Tensors = ts, DataOffset = cur_pos c5 + (a - cur_pos c5 mod a) mod a, Version = ver\<rparr>"
    using assms(1) unfolding parseGGUF_def Let_def by (auto split: if_splits)
  note e = cur_scalar_exact(3) [OF s(2)] cur_scalar_exact(4) [OF s(3)] cur_scalar_exact(4) [OF s(4)]
  have ok: "cur_ok c3" "cur_data c3 = data" "cur_pos c3 = 24" using e assms(2) by (simp_all add: cur_ok_def)
  have m0: "meta_ok []" by (simp add: meta_ok_def)
  note pm = parse_metadata_read [OF s(7) ok(1) m0]
  have ok4: "cur_ok c4" using pm by simp
  note pt = parse_tensors_read [OF s(8) ok4]
  have a: "0 < a" using s(9) unfolding metadata_alignment_def
    by (auto simp: word_less_nat_alt unat_gt_0 split: option.splits if_splits)
  have "cur_pos c5 + (a - cur_pos c5 mod a) mod a = (cur_pos c5 + a - 1) div a * a"
    using round_up_nat [OF a] by simp
  then have dv: "a dvd cur_pos c5 + (a - cur_pos c5 mod a) mod a" by simp
  have "(a - cur_pos c5 mod a) mod a < a" using a by simp
  have bnd: "cur_pos c5 + (a - cur_pos c5 mod a) mod a < length data + a"
  proof -
    have "cur_pos c5 \<le> length data" using pm pt ok by (auto simp: cur_ok_def)
    then show ?thesis using \<open>(a - cur_pos c5 mod a) mod a < a\<close> by linarith
  qed
  show ?thesis using bnd dv pm pt s(5,6,9,10) a ok by (intro exI [of _ a]) simp
qed

end
