(* ===== verification/Gguf_Caller.thy ===== *)
theory Gguf_Caller
  imports Gguf_Sound
begin

text \<open>
  Safety of the GGUF writer against its callers. \<open>wop\<close> is a call a program can make on a
  \<open>GGUFWriter\<close>; \<open>on_plan\<close> is the invariant every reachable, not yet failed, writer satisfies; the
  \<open>_agree\<close> lemmas show that a sink that let the header through saw the bytes of the header.
\<close>

section \<open>Callers that ignore errors\<close>

text \<open>Any sequence of calls on the writer, whether or not the caller looked at the returned errors.\<close>

datatype wop = OpTensor "u8 list" | OpStream "callback option"

fun wop_step :: "sink \<Rightarrow> GGUFWriter \<Rightarrow> wop \<Rightarrow> GGUFWriter" where
  "wop_step sink gw (OpTensor data) = snd (WriteTensor sink gw data)"
| "wop_step sink gw (OpStream cb) = snd (WriteTensorStream sink gw cb)"

definition run_wops :: "sink \<Rightarrow> GGUFWriter \<Rightarrow> wop list \<Rightarrow> GGUFWriter" where
  "run_wops sink = foldl (wop_step sink)"

fun planned_at :: "nat \<Rightarrow> nat \<Rightarrow> nat \<Rightarrow> TensorInfo list \<Rightarrow> bool" where
  "planned_at al b off [] \<longleftrightarrow> True"
| "planned_at al b off (t # ts) \<longleftrightarrow> unat (Offset t) = off \<and> b + off < 9223372036854775808 \<and>
    (case DataSize (DType t) (Numel t) of None \<Rightarrow> False
     | Some sz \<Rightarrow> 0 \<le> sz \<and> b + off + nat sz < 9223372036854775808 \<and>
         planned_at al b (off + nat sz + (al - (off + nat sz) mod al) mod al) ts)"

type_synonym segment = "u8 list \<times> nat"

definition seg_bytes :: "segment list \<Rightarrow> u8 list" where
  "seg_bytes segs = concat (map (\<lambda>(q, k). q @ replicate k 0) segs)"

lemma seg_bytes_snoc [simp]: "seg_bytes (segs @ [(q, k)]) = seg_bytes segs @ q @ replicate k 0"
  and seg_bytes_Nil [simp]: "seg_bytes [] = []"
  by (simp_all add: seg_bytes_def)

text \<open>
  \<open>on_plan al gw0 gw segs\<close>: \<open>gw\<close> is \<open>gw0\<close> after the complete tensors \<open>segs\<close>, each with its zero padding.
\<close>

definition on_plan :: "nat \<Rightarrow> GGUFWriter \<Rightarrow> GGUFWriter \<Rightarrow> segment list \<Rightarrow> bool" where
  "on_plan al gw0 gw segs \<longleftrightarrow>
     gw_tensors gw = gw_tensors gw0 \<and> gw_dataOffset gw = gw_dataOffset gw0 \<and> gw_next gw = length segs
     \<and> length segs \<le> length (gw_tensors gw0) \<and> gw_inv gw
     \<and> cw_out (gw_cw gw) = cw_out (gw_cw gw0) @ seg_bytes segs
     \<and> planned_at al (nat (gw_dataOffset gw0)) (length (seg_bytes segs)) (drop (length segs) (gw_tensors gw0))
     \<and> (\<forall>i < length segs. DataSize (DType (gw_tensors gw0 ! i)) (Numel (gw_tensors gw0 ! i)) = Some (int (length (fst (segs ! i))))
          \<and> unat (Offset (gw_tensors gw0 ! i)) = length (seg_bytes (take i segs)))"

text \<open>The start: the header is out and no tensor is.\<close>

definition at_start :: "nat \<Rightarrow> GGUFWriter \<Rightarrow> bool" where
  "at_start al gw \<longleftrightarrow> gw_next gw = 0 \<and> cw_err (gw_cw gw) = None \<and> 0 < al \<and> pos_ok (gw_cw gw)
     \<and> gw_dataOffset gw = int (length (cw_out (gw_cw gw))) \<and> gw_dataOffset gw \<le> max_int
     \<and> planned_at al (length (cw_out (gw_cw gw))) 0 (gw_tensors gw)"

lemma cw_put_err: "sink_law sink \<Longrightarrow> cw_put sink cw p = (Some e, cw') \<Longrightarrow> cw_err cw' = Some e"
  unfolding cw_put_def by (auto dest: cw_Write_spec(6) split: prod.splits)

lemma pad_to_next_planned:
  assumes "sink_law sink" "pad_to_next sink gw nm = (r, gw')" "cw_err (gw_cw gw) = None"
    and "cw_pos (gw_cw gw) = gw_dataOffset gw + int n" "0 \<le> gw_dataOffset gw"
    and "gw_next gw < length (gw_tensors gw) \<Longrightarrow> unat (Offset (gw_tensors gw ! gw_next gw)) = n + k
        \<and> gw_dataOffset gw + int (n + k) < 9223372036854775808"
  shows "cw_err (gw_cw gw') \<noteq> None \<or> r = None \<and>
    cw_out (gw_cw gw') = cw_out (gw_cw gw) @ replicate (if gw_next gw < length (gw_tensors gw) then k else 0) 0"
proof (cases "gw_next gw < length (gw_tensors gw)")
  case False
  then show ?thesis using assms(2,3) by (simp add: pad_to_next_def)
next
  case True
  note k = assms(6) [OF True]
  have o: "sint (Offset (gw_tensors gw ! gw_next gw)) = int (n + k)"
    using sint_small [of "Offset (gw_tensors gw ! gw_next gw)"] assms(5) k by simp
  have wp: "wrap64 (gw_dataOffset gw + int (n + k)) = gw_dataOffset gw + int (n + k)"
    by (rule wrap64_id) (use assms(5) k in \<open>simp_all add: max_int_def\<close>)
  have pd: "wrap64 (gw_dataOffset gw + int (n + k) - cw_pos (gw_cw gw)) = int k"
    by (subst wrap64_id) (use assms(4,5) k in \<open>simp_all add: max_int_def\<close>)
  show ?thesis
  proof (cases "k = 0")
    case True
    then show ?thesis
      using assms(2,3) \<open>gw_next gw < _\<close> o wp pd by (simp add: pad_to_next_def Let_def)
  next
    case False
    obtain x c where c: "cw_put sink (gw_cw gw) (replicate k 0) = (x, c)"
      by (cases "cw_put sink (gw_cw gw) (replicate k 0)")
    show ?thesis
    proof (cases x)
      case None
      then show ?thesis using assms(2) \<open>gw_next gw < _\<close> o wp pd False c cw_put_spec [OF assms(1), of "gw_cw gw"]
        by (auto simp: pad_to_next_def Let_def)
    next
      case (Some e)
      then show ?thesis using assms(2) \<open>gw_next gw < _\<close> o wp pd False c cw_put_err [OF assms(1)]
        by (auto simp: pad_to_next_def Let_def)
    qed
  qed
qed

lemma seg_bytes_len_snoc: "length (seg_bytes (segs @ [(q, k)])) = length (seg_bytes segs) + length q + k"
  by simp

lemma on_plan_snoc:
  assumes "on_plan al gw0 gw segs" "gw_next gw < length (gw_tensors gw)"
    and t: "t = gw_tensors gw ! gw_next gw" "DataSize (DType t) (Numel t) = Some (int (length q))"
    and k: "k = (if gw_next gw + 1 < length (gw_tensors gw)
        then (let n = length (seg_bytes segs) + length q in (al - n mod al) mod al) else 0)"
    and g: "gw_tensors gw' = gw_tensors gw" "gw_dataOffset gw' = gw_dataOffset gw" "gw_next gw' = gw_next gw + 1"
      "gw_inv gw'" "cw_out (gw_cw gw') = cw_out (gw_cw gw) @ q @ replicate k 0"
  shows "on_plan al gw0 gw' (segs @ [(q, k)])"
proof -
  note o = assms(1) [unfolded on_plan_def]
  have len: "length segs < length (gw_tensors gw0)" using o assms(2) by simp
  have dr: "drop (length segs) (gw_tensors gw0) = t # drop (Suc (length segs)) (gw_tensors gw0)"
    using Cons_nth_drop_Suc [OF len] o t(1) by simp
  have pl: "unat (Offset t) = length (seg_bytes segs)"
      "planned_at al (nat (gw_dataOffset gw0)) (length (seg_bytes segs) + length q
         + (al - (length (seg_bytes segs) + length q) mod al) mod al) (drop (Suc (length segs)) (gw_tensors gw0))"
    using o t(2) unfolding dr by auto
  have "planned_at al (nat (gw_dataOffset gw0)) (length (seg_bytes (segs @ [(q, k)]))) (drop (Suc (length segs)) (gw_tensors gw0))"
  proof (cases "gw_next gw + 1 < length (gw_tensors gw)")
    case True
    then have kk: "k = (al - (length (seg_bytes segs) + length q) mod al) mod al" using k by (simp add: Let_def)
    show ?thesis using pl(2) unfolding seg_bytes_len_snoc kk by simp
  next
    case False
    then have "drop (Suc (length segs)) (gw_tensors gw0) = []" using o by simp
    then show ?thesis by simp
  qed
  moreover have "\<forall>i < length (segs @ [(q, k)]). DataSize (DType (gw_tensors gw0 ! i)) (Numel (gw_tensors gw0 ! i))
        = Some (int (length (fst ((segs @ [(q, k)]) ! i))))
      \<and> unat (Offset (gw_tensors gw0 ! i)) = length (seg_bytes (take i (segs @ [(q, k)])))"
    using o t pl(1) by (auto simp: nth_append less_Suc_eq)
  ultimately show ?thesis using o g len by (simp add: on_plan_def)
qed

lemma stream_on_plan:
  assumes "sink_law sink" "at_start al gw0" "on_plan al gw0 gw segs" "cw_err (gw_cw gw) = None"
    "WriteTensorStream sink gw cb = (r, gw')"
  shows "cw_err (gw_cw gw') \<noteq> None \<or> (\<exists>segs'. on_plan al gw0 gw' segs')"
proof (cases "gw_next gw < length (gw_tensors gw)")
  case False
  then show ?thesis using assms(3-5) by (auto simp: WriteTensorStream_def)
next
  case True
  note o = assms(3) [unfolded on_plan_def] and st = assms(2) [unfolded at_start_def]
  let ?t = "gw_tensors gw ! gw_next gw"
  let ?b = "length (cw_out (gw_cw gw0))" and ?off = "length (seg_bytes segs)"
  have len: "length segs < length (gw_tensors gw0)" using o True by simp
  have dr: "drop (length segs) (gw_tensors gw0) = ?t # drop (Suc (length segs)) (gw_tensors gw0)"
    using Cons_nth_drop_Suc [OF len] o by simp
  obtain sz where sz: "DataSize (DType ?t) (Numel ?t) = Some sz" "0 \<le> sz" "?b + ?off + nat sz < 9223372036854775808"
      "planned_at al ?b (?off + nat sz + (al - (?off + nat sz) mod al) mod al) (drop (Suc (length segs)) (gw_tensors gw0))"
    using o st unfolding dr by (auto split: option.splits)
  let ?s0 = "\<lparr>sw_w = gw_cw gw, sw_remaining = sz, sw_err = None\<rparr>"
  obtain e1 s where run: "(case cb of None \<Rightarrow> (Some NilCallback, ?s0) | Some c \<Rightarrow> run_callback c sink ?s0) = (e1, s)"
    by (metis surj_pair)
  define e3 where "e3 = or_else (or_else e1 (sw_err s)) (if sw_remaining s \<noteq> 0 then Some (StreamMissing (sw_remaining s)) else None)"
  note res = assms(5) [unfolded WriteTensorStream_def Let_def, simplified True assms(4) sz(1),
      simplified run, simplified e3_def [symmetric] prod.case]
  show ?thesis
  proof (cases e3)
    case (Some e)
    then show ?thesis using res True run e3_def by auto
  next
    case None
    have fin: "sw_err s = None" "sw_remaining s = 0" "e1 = None"
      using None unfolding e3_def by (auto simp: or_else_def split: option.splits if_splits)
    then obtain c where c: "run_callback c sink ?s0 = (None, s)" using run by (cases cb) auto
    obtain q where q: "cw_out (sw_w s) = cw_out (gw_cw gw) @ q" "sz = int (length q)" "pos_ok (sw_w s)" "cw_err (sw_w s) = None"
      using run_callback_spec [OF assms(1) c fin(1)] fin(2) sz(2) assms(4) o by (auto simp: gw_inv_def)
    let ?g = "gw\<lparr>gw_cw := sw_w s, gw_next := gw_next gw + 1\<rparr>"
    let ?n = "?off + length q"
    let ?k = "(al - ?n mod al) mod al"
    have pad: "pad_to_next sink ?g (Name ?t) = (r, gw')" using res True None run e3_def by auto
    have outlen: "length (cw_out (sw_w s)) = ?b + ?n" using q(1) o by simp
    have pos: "cw_pos (gw_cw ?g) = gw_dataOffset ?g + int ?n"
      using q(2,3) sz(3) outlen o st by (simp add: pos_ok_def max_int_def)
    have nx: "unat (Offset (gw_tensors ?g ! gw_next ?g)) = ?n + ?k \<and> gw_dataOffset ?g + int (?n + ?k) < 9223372036854775808"
      if l: "gw_next ?g < length (gw_tensors ?g)"
    proof -
      have l': "Suc (length segs) < length (gw_tensors gw0)" using l o by simp
      show ?thesis using sz(4) o st q(2) unfolding Cons_nth_drop_Suc [OF l', symmetric] by simp
    qed
    have pp: "cw_err (gw_cw gw') \<noteq> None \<or> r = None \<and>
        cw_out (gw_cw gw') = cw_out (gw_cw ?g) @ replicate (if gw_next ?g < length (gw_tensors ?g) then ?k else 0) 0"
      using pad_to_next_planned [OF assms(1) pad _ pos _ nx] q(4) o st by simp
    show ?thesis
    proof (cases "cw_err (gw_cw gw')")
      case None
      with pp have r: "r = None" and out': "cw_out (gw_cw gw') = cw_out (gw_cw ?g) @ replicate (if gw_next ?g < length (gw_tensors ?g) then ?k else 0) 0"
        by auto
      have "gw_inv gw' \<and> gw_next gw' = gw_next ?g \<and> gw_tensors gw' = gw_tensors ?g \<and> gw_dataOffset gw' = gw_dataOffset ?g"
        using pad_to_next_spec [OF assms(1) pad [unfolded r]] q(3) by simp
      then have "on_plan al gw0 gw' (segs @ [(q, if gw_next gw + 1 < length (gw_tensors gw) then ?k else 0)])"
        by (intro on_plan_snoc [OF assms(3) True refl]) (use sz(1) q(1,2) out' in \<open>simp_all add: Let_def\<close>)
      then show ?thesis by blast
    qed simp
  qed
qed

lemma wop_on_plan:
  assumes "sink_law sink" "at_start al gw0" "cw_err (gw_cw gw) \<noteq> None \<or> (\<exists>segs. on_plan al gw0 gw segs)"
  shows "cw_err (gw_cw (wop_step sink gw op)) \<noteq> None \<or> (\<exists>segs. on_plan al gw0 (wop_step sink gw op) segs)"
proof (cases "cw_err (gw_cw gw)")
  case (Some e)
  then show ?thesis by (cases op) (simp_all add: WriteTensor_def WriteTensorStream_def)
next
  case None
  then obtain segs where segs: "on_plan al gw0 gw segs" using assms(3) by auto
  have ws: "cw_err (gw_cw (snd (WriteTensorStream sink gw cb))) \<noteq> None \<or>
      (\<exists>segs. on_plan al gw0 (snd (WriteTensorStream sink gw cb)) segs)" for cb
    using stream_on_plan [OF assms(1,2) segs None] by (metis surjective_pairing)
  show ?thesis
  proof (cases op)
    case (OpTensor d)
    have "snd (WriteTensor sink gw d) = gw \<or>
        snd (WriteTensor sink gw d) = snd (WriteTensorStream sink gw (Some (Write d (\<lambda>(n, e). Return e))))"
      by (simp add: WriteTensor_def Let_def)
    then show ?thesis using ws [of "Some (Write d (\<lambda>(n, e). Return e))"] segs OpTensor by auto
  next
    case (OpStream cb)
    then show ?thesis using ws by simp
  qed
qed

lemma run_wops_on_plan:
  assumes "sink_law sink" "at_start al gw0" "cw_err (gw_cw gw) \<noteq> None \<or> (\<exists>segs. on_plan al gw0 gw segs)"
  shows "cw_err (gw_cw (run_wops sink gw ops)) \<noteq> None \<or> (\<exists>segs. on_plan al gw0 (run_wops sink gw ops) segs)"
  using assms(3)
proof (induction ops arbitrary: gw)
  case Nil
  then show ?case by (simp add: run_wops_def)
next
  case (Cons op ops)
  show ?case using Cons.IH [OF wop_on_plan [OF assms(1,2) Cons.prems]] by (simp add: run_wops_def)
qed

lemma at_start_on_plan: "at_start al gw \<Longrightarrow> on_plan al gw gw []"
proof -
  assume st: "at_start al gw"
  have "cw_pos (gw_cw gw) = gw_dataOffset gw" using st by (simp add: at_start_def pos_ok_def)
  moreover have "Offset (gw_tensors gw ! 0) = 0" if "gw_tensors gw \<noteq> []"
    using st that by (cases "gw_tensors gw") (simp_all add: at_start_def unat_eq_0)
  ultimately show ?thesis using st by (auto simp: on_plan_def at_start_def gw_inv_def pos_ok_def)
qed

section \<open>Any sink that lets the header through\<close>

lemma w_then_eq_None: "w_then r f = (None, c') \<longleftrightarrow> (\<exists>c. r = (None, c) \<and> f c = (None, c'))"
  by (cases r rule: prod.exhaust) (auto simp: w_then_def split: option.splits prod.splits)

lemma cw_put_agree:
  assumes "sink_law sink" "cw_put sink cw p = (None, c')"
  shows "cw_put sink_ok cw p = (None, c')"
proof -
  have "cw_out c' = cw_out cw @ p" "cw_err c' = None" "cw_pos c' = wrap64 (cw_pos cw + int (length p))"
    using cw_put_spec [OF assms] cw_put_pos [OF assms] by simp_all
  moreover have "cw_err cw = None" using assms(2) by (auto simp: cw_put_def cw_Write_def split: if_splits)
  ultimately show ?thesis by (simp add: emit_def)
qed

lemma cw_scalar_agree:
  assumes "sink_law sink"
  shows "cw_u8 sink cw a = (None, c') \<Longrightarrow> cw_u8 sink_ok cw a = (None, c')"
    and "cw_u16 sink cw b = (None, c') \<Longrightarrow> cw_u16 sink_ok cw b = (None, c')"
    and "cw_u32 sink cw x = (None, c') \<Longrightarrow> cw_u32 sink_ok cw x = (None, c')"
    and "cw_u64 sink cw y = (None, c') \<Longrightarrow> cw_u64 sink_ok cw y = (None, c')"
    and "cw_str sink cw t = (None, c') \<Longrightarrow> cw_str sink_ok cw t = (None, c')"
  by (auto simp: cw_u8_def cw_u16_def cw_u32_def cw_u64_def cw_str_def w_then_eq_None dest!: cw_put_agree [OF assms])

lemma write_list_agree:
  assumes "sink_law sink"
  shows "write_strs sink cw ss = (None, c') \<Longrightarrow> write_strs sink_ok cw ss = (None, c')"
    and "write_f32s sink cw fs = (None, c') \<Longrightarrow> write_f32s sink_ok cw fs = (None, c')"
    and "write_bools sink cw bs = (None, c') \<Longrightarrow> write_bools sink_ok cw bs = (None, c')"
    and "write_dims sink cw ds = (None, c') \<Longrightarrow> write_dims sink_ok cw ds = (None, c')"
proof -
  show "write_strs sink cw ss = (None, c') \<Longrightarrow> write_strs sink_ok cw ss = (None, c')"
    by (induction ss arbitrary: cw) (auto simp: w_then_eq_None dest: cw_scalar_agree [OF assms])
  show "write_f32s sink cw fs = (None, c') \<Longrightarrow> write_f32s sink_ok cw fs = (None, c')"
    by (induction fs arbitrary: cw) (auto simp: w_then_eq_None dest: cw_scalar_agree [OF assms])
  show "write_bools sink cw bs = (None, c') \<Longrightarrow> write_bools sink_ok cw bs = (None, c')"
    by (induction bs arbitrary: cw) (auto simp: w_then_eq_None simp del: if_split dest: cw_scalar_agree [OF assms])
  show "write_dims sink cw ds = (None, c') \<Longrightarrow> write_dims sink_ok cw ds = (None, c')"
    by (induction ds arbitrary: cw) (auto simp: w_then_eq_None dest: cw_scalar_agree [OF assms])
qed

lemma write_items_agree:
  assumes "\<And>v cw c'. v \<in> set vs \<Longrightarrow> writeMetaValuePayload sink cw v = (None, c') \<Longrightarrow>
      writeMetaValuePayload sink_ok cw v = (None, c')"
  shows "write_items sink cw k i vs = (None, c') \<Longrightarrow> write_items sink_ok cw k i vs = (None, c')"
  using assms
proof (induction vs arbitrary: cw i)
  case Nil
  then show ?case by simp
next
  case (Cons v vs)
  from Cons.prems(1) obtain c where c: "Kind v = k" "writeMetaValuePayload sink cw v = (None, c)"
      "write_items sink c k (Suc i) vs = (None, c')"
    by (auto simp: w_then_eq_None split: if_splits)
  have "writeMetaValuePayload sink_ok cw v = (None, c)" by (rule Cons.prems(2) [OF _ c(2)]) simp
  moreover have "write_items sink_ok c k (Suc i) vs = (None, c')"
    by (rule Cons.IH [OF c(3)]) (simp add: Cons.prems(2))
  ultimately show ?case using c(1) by simp
qed

lemma payload_agree:
  assumes law: "sink_law sink"
    and arr: "\<And>cw c'. writeMetaArray sink cw a = (None, c') \<Longrightarrow> writeMetaArray sink_ok cw a = (None, c')"
    and r: "writeMetaValuePayload sink cw (MetaValue k a) = (None, c')"
  shows "writeMetaValuePayload sink_ok cw (MetaValue k a) = (None, c')"
proof -
  have "writeMetaValuePayload sink_ok cw (MetaValue k a) = writeMetaValuePayload sink cw (MetaValue k a)"
    if "k \<noteq> ''array''"
    using r that by (cases a) (auto simp: writeMetaValuePayload.simps cw_scalar_agree [OF law] simp del: if_split split: if_split_asm)
  then show ?thesis using r arr by (cases "k = ''array''") (simp_all add: writeMetaValuePayload.simps)
qed

lemma writeMetaValuePayload_agree:
  assumes law: "sink_law sink"
  shows "\<forall>cw c'. writeMetaValuePayload sink cw v = (None, c') \<longrightarrow> writeMetaValuePayload sink_ok cw v = (None, c')"
    and "\<forall>cw c'. writeMetaArray sink cw a = (None, c') \<longrightarrow> writeMetaArray sink_ok cw a = (None, c')"
proof (induction v and a)
  case (MetaValue k a)
  then show ?case using payload_agree [OF law] by blast
next
  case (VMetas arr)
  show ?case
  proof (intro allI impI)
    fix cw c' assume r: "writeMetaArray sink cw (VMetas arr) = (None, c')"
    show "writeMetaArray sink_ok cw (VMetas arr) = (None, c')"
    proof (cases arr)
      case Nil
      then show ?thesis using r by (auto simp: writeMetaArray.simps w_then_eq_None dest: cw_scalar_agree [OF law])
    next
      case (Cons x xs)
      obtain tag c1 c2 where t: "kindToWireType (Kind x) = Some tag" "cw_u32 sink cw tag = (None, c1)"
          "cw_u64 sink c1 (word_of_nat (length arr)) = (None, c2)" "write_items sink c2 (Kind x) 0 arr = (None, c')"
        using r Cons by (auto simp del: write_items.simps simp: writeMetaArray.simps w_then_eq_None split: option.splits)
      have "write_items sink_ok c2 (Kind x) 0 arr = (None, c')"
        by (rule write_items_agree [OF _ t(4)]) (use VMetas.IH in blast)
      then show ?thesis using t(1) cw_scalar_agree(3) [OF law t(2)] cw_scalar_agree(4) [OF law t(3)] Cons
        by (simp add: writeMetaArray.simps del: write_items.simps)
    qed
  qed
qed (auto simp: writeMetaArray.simps w_then_eq_None dest: cw_scalar_agree [OF law] write_list_agree [OF law])

lemma writeMetaValue_agree:
  "sink_law sink \<Longrightarrow> writeMetaValue sink cw v = (None, c') \<Longrightarrow> writeMetaValue sink_ok cw v = (None, c')"
  using writeMetaValuePayload_agree(1) [of sink v]
  by (auto simp: writeMetaValue_def w_then_eq_None split: option.splits dest: cw_scalar_agree)

lemma write_metadata_agree:
  "sink_law sink \<Longrightarrow> write_metadata sink cw m keys = (None, c') \<Longrightarrow> write_metadata sink_ok cw m keys = (None, c')"
proof (induction keys arbitrary: cw)
  case Nil
  then show ?case by simp
next
  case (Cons key keys)
  let ?v = "case map_of m key of Some v \<Rightarrow> v | None \<Rightarrow> MetaValue '''' VNil"
  from Cons.prems(2) obtain c1 where c1: "cw_str sink cw key = (None, c1)"
      "(case writeMetaValue sink c1 ?v of (Some e, cw) \<Rightarrow> (Some (InMetadata key e), cw)
        | (None, cw) \<Rightarrow> write_metadata sink cw m keys) = (None, c')"
    by (auto simp: w_then_eq_None)
  then obtain c2 where c2: "writeMetaValue sink c1 ?v = (None, c2)" "write_metadata sink c2 m keys = (None, c')"
    by (cases "writeMetaValue sink c1 ?v" rule: prod.exhaust) (simp split: option.splits)
  show ?case
    using cw_scalar_agree(5) [OF Cons.prems(1) c1(1)] writeMetaValue_agree [OF Cons.prems(1) c2(1)]
      Cons.IH [OF Cons.prems(1) c2(2)] by simp
qed

lemma write_descriptors_agree:
  "sink_law sink \<Longrightarrow> write_descriptors sink cw ts = (None, c') \<Longrightarrow> write_descriptors sink_ok cw ts = (None, c')"
proof (induction ts arbitrary: cw)
  case Nil
  then show ?case by simp
next
  case (Cons t ts)
  from Cons.prems(2) obtain a b c d e where s: "cw_str sink cw (Name t) = (None, a)"
      "cw_u32 sink a (word_of_nat (length (Dims t))) = (None, b)" "write_dims sink b (Dims t) = (None, c)"
      "cw_u32 sink c (ggml_id (DType t)) = (None, d)" "cw_u64 sink d (Offset t) = (None, e)"
      "write_descriptors sink e ts = (None, c')"
    by (auto simp: w_then_eq_None)
  note law = Cons.prems(1)
  show ?case
    using cw_scalar_agree(5) [OF law s(1)] cw_scalar_agree(3) [OF law s(2)] write_list_agree(4) [OF law s(3)]
      cw_scalar_agree(3) [OF law s(4)] cw_scalar_agree(4) [OF law s(5)] Cons.IH [OF law s(6)] by simp
qed

lemma header_prefix_agree:
  assumes "sink_law sink" "header_prefix sink cw n m = (None, c')"
  shows "header_prefix sink_ok cw n m = (None, c')"
proof -
  obtain a b c d where s: "cw_put sink cw (bytes_of_string ''GGUF'') = (None, a)" "cw_u32 sink a 3 = (None, b)"
      "cw_u64 sink b (word_of_nat n) = (None, c)" "cw_u64 sink c (word_of_nat (length m)) = (None, d)"
      "write_metadata sink d m (sort (map fst m)) = (None, c')"
    using assms(2) by (auto simp: header_prefix_def w_then_eq_None)
  show ?thesis
    using cw_put_agree [OF assms(1) s(1)] cw_scalar_agree(3) [OF assms(1) s(2)] cw_scalar_agree(4) [OF assms(1) s(3)]
      cw_scalar_agree(4) [OF assms(1) s(4)] write_metadata_agree [OF assms(1) s(5)]
    by (simp add: header_prefix_def)
qed

lemma wcase_Inr:
  "(case r of (None, cw) \<Rightarrow> f cw | (Some e, cw) \<Rightarrow> Inl e) = Inr x \<longleftrightarrow> (\<exists>c. r = (None, c) \<and> f c = Inr x)"
  by (cases r rule: prod.exhaust) (auto split: option.splits)

lemma NewGGUFWriter_InrD:
  assumes "NewGGUFWriter sink m planned a = Inr gw"
  obtains c1 ts c2 c3 where
    "header_prefix sink newCountingWriter (length planned) (effective_metadata m (effective_alignment a)) = (None, c1)"
    "plan_tensors (word_of_int (effective_alignment a)) 0 planned = Inr ts" "write_descriptors sink c1 ts = (None, c2)"
    "pad_to_data sink c2 (effective_alignment a) = (None, c3)" "cw_err c3 = None"
    "gw = \<lparr>gw_cw = c3, gw_alignment = effective_alignment a, gw_tensors = ts, gw_dataOffset = cw_pos c3, gw_next = 0\<rparr>"
proof -
  have None_err: "(case x of None \<Rightarrow> Inr y | Some e \<Rightarrow> Inl e) = Inr z \<longleftrightarrow> x = None \<and> y = z" for x y z
    by (cases x) auto
  show ?thesis
    using assms unfolding NewGGUFWriter_def Let_def wcase_Inr and_then_eq_Inr None_err
    by (elim exE conjE) (rule that, assumption+, rule sym)
qed

lemma NewGGUFWriter_agree:
  assumes law: "sink_law sink" and r: "NewGGUFWriter sink m planned a = Inr gw"
  shows "NewGGUFWriter sink_ok m planned a = Inr gw"
proof -
  let ?al = "effective_alignment a"
  obtain c1 ts c2 c3 where s: "header_prefix sink newCountingWriter (length planned) (effective_metadata m ?al) = (None, c1)"
      "plan_tensors (word_of_int ?al) 0 planned = Inr ts" "write_descriptors sink c1 ts = (None, c2)"
      "pad_to_data sink c2 ?al = (None, c3)"
      "cw_err c3 = None" "gw = \<lparr>gw_cw = c3, gw_alignment = ?al, gw_tensors = ts, gw_dataOffset = cw_pos c3, gw_next = 0\<rparr>"
    by (rule NewGGUFWriter_InrD [OF r])
  have "pad_to_data sink_ok c2 ?al = (None, c3)"
    using s(4) cw_put_agree [OF law] by (auto simp: pad_to_data_def Let_def split: if_splits)
  then show ?thesis
    using header_prefix_agree [OF law s(1)] write_descriptors_agree [OF law s(3)] s(2,5,6)
    by (simp add: NewGGUFWriter_def Let_def)
qed

lemma planned_at_plan:
  assumes "plan_tensors (word_of_nat al) off ps = Inr ts" "0 < al" "sizes_ok ts ds"
    and "b + unat off + sum_list (map length ds) + length ds * al < 9223372036854775808"
  shows "planned_at al b (unat off) ts"
  using assms
proof (induction ds arbitrary: off ps ts)
  case Nil
  then show ?case by (simp add: sizes_ok_def)
next
  case (Cons d ds)
  from Cons.prems(3) obtain t ts' where ts: "ts = t # ts'"
      "DataSize (DType t) (Numel t) = Some (int (length d))" "sizes_ok ts' ds"
    by (auto simp: sizes_ok_def list_all2_Cons2)
  let ?off = "alignUp64 (off + word_of_int (int (length d))) (word_of_nat al)"
  obtain ps' where pl: "Offset t = off" "plan_tensors (word_of_nat al) ?off ps' = Inr ts'"
    using plan_tensors_Cons [OF Cons.prems(1) [unfolded ts(1)] ts(2)] by blast
  let ?n = "unat off + length d"
  have lim: "b + ?n + al + sum_list (map length ds) + length ds * al < 9223372036854775808"
    using Cons.prems(4) by simp
  have offn: "off + word_of_int (int (length d)) = word_of_nat ?n" by simp
  have uo: "unat ?off = ?n + (al - ?n mod al) mod al"
    unfolding offn by (rule unat_alignUp64) (use Cons.prems(2) lim in linarith)+
  moreover have "(al - ?n mod al) mod al < al" using Cons.prems(2) by simp
  ultimately have bnd: "b + unat ?off + sum_list (map length ds) + length ds * al < 9223372036854775808"
    using lim by linarith
  have "planned_at al b (unat ?off) ts'" by (rule Cons.IH [OF pl(2) Cons.prems(2) ts(3) bnd])
  then show ?case using ts(1,2) pl(1) lim unfolding uo by simp
qed

text \<open>A writer that \<open>NewGGUFWriter\<close> returned, over whatever sink, is at its start.\<close>

lemma NewGGUFWriter_at_start:
  assumes law: "sink_law sink" and r: "NewGGUFWriter sink m planned a = Inr gw"
    and m: "meta_ok m" and al: "al = effective_alignment a"
    and ds: "sizes_ok (gw_tensors gw) ds"
    and size: "length (header_bytes (effective_metadata m al) (gw_tensors gw)) + sum_list (map length ds)
       + Suc (length ds) * nat al < 9223372036854775808"
  shows "at_start (nat al) gw"
proof -
  note ok = NewGGUFWriter_agree [OF law r]
  have al0: "0 < al" by (simp add: al effective_alignment_def)
  obtain ts where ts: "plan_tensors (word_of_int al) 0 planned = Inr ts" and "gw_tensors gw = ts"
    by (rule NewGGUFWriter_InrD [OF ok]) (simp add: al)
  let ?h = "header_bytes (effective_metadata m al) ts"
  note size = size [unfolded \<open>gw_tensors gw = ts\<close>] and ds = ds [unfolded \<open>gw_tensors gw = ts\<close>]
  obtain gw2 where gw: "NewGGUFWriter sink_ok m planned a = Inr gw2" "gw_tensors gw2 = ts"
      "cw_out (gw_cw gw2) = ?h @ replicate (pad_len (length ?h) (nat al)) 0"
      "gw_dataOffset gw2 = int (length ?h + pad_len (length ?h) (nat al))" "cw_ok (gw_cw gw2)"
      "cw_pos (gw_cw gw2) = gw_dataOffset gw2" "gw_next gw2 = 0"
    using NewGGUFWriter_ok [OF m al ts refl] size al0 by fastforce
  have [simp]: "gw2 = gw" using gw(1) ok by simp
  have padl: "pad_len (length ?h) (nat al) < nat al" using al0 by (simp add: pad_len_def)
  have len: "length (cw_out (gw_cw gw)) = length ?h + pad_len (length ?h) (nat al)" using gw(3) by simp
  have big: "length (cw_out (gw_cw gw)) + sum_list (map length ds) + length ds * nat al < 9223372036854775808"
    unfolding len using size padl by simp
  have mx: "gw_dataOffset gw \<le> max_int"
  proof -
    have "length ?h + pad_len (length ?h) (nat al) < 9223372036854775808" using size padl by simp
    then show ?thesis using gw(4) by (simp add: max_int_def)
  qed
  have ts': "plan_tensors (word_of_nat (nat al)) 0 planned = Inr ts" using ts al0 by simp
  have pos: "wrap64 (int (length (cw_out (gw_cw gw)))) = int (length (cw_out (gw_cw gw)))"
    by (rule wrap64_id) (use mx gw(4) len in simp_all)
  have "planned_at (nat al) (length (cw_out (gw_cw gw))) (unat (0 :: u64)) ts"
    by (rule planned_at_plan [OF ts' _ ds]) (use al0 big in simp_all)
  then show ?thesis using gw al0 mx pos len by (simp add: at_start_def pos_ok_def)
qed


lemma close_complete:
  assumes "sink_law sink" "at_start al gw" "writer_Close flush (run_wops sink gw ops) = (None, gw')"
  shows "\<exists>segs. length segs = length (gw_tensors gw) \<and> cw_out (gw_cw gw') = cw_out (gw_cw gw) @ seg_bytes segs
    \<and> (\<forall>i < length segs. DataSize (DType (gw_tensors gw ! i)) (Numel (gw_tensors gw ! i)) = Some (int (length (fst (segs ! i))))
          \<and> unat (Offset (gw_tensors gw ! i)) = length (seg_bytes (take i segs)))"
proof -
  have c: "cw_err (gw_cw (run_wops sink gw ops)) = None"
      "gw_next (run_wops sink gw ops) = length (gw_tensors (run_wops sink gw ops))"
      "cw_out (gw_cw gw') = cw_out (gw_cw (run_wops sink gw ops))"
    using assms(3) by (auto simp: writer_Close_def Let_def split: if_splits)
  obtain segs where "on_plan al gw (run_wops sink gw ops) segs"
    using run_wops_on_plan [OF assms(1,2), of gw ops] at_start_on_plan [OF assms(2)] c(1) by auto
  then show ?thesis using c(2,3) by (intro exI [of _ segs]) (auto simp: on_plan_def)
qed

end
