(* ===== verification/Gguf_Contract.thy ===== *)
theory Gguf_Contract
  imports Gguf_Caller "HOL-Library.Multiset"
begin

text \<open>
  The properties of the GGUF container, each with an instance on a small concrete file: the round
  trip of a whole file, the safety of \<open>Close\<close>, the well-formedness of what the parser returns, the
  exactness of the value decoder, rewriting a parsed file, and the block geometry of tensor sizes.
\<close>

section \<open>The size of what was read\<close>

definition meta_size :: "(string, meta_value) gomap \<Rightarrow> nat" where
  "meta_size m = sum_list (map (\<lambda>(k, v). length (enc_kv k v)) m)"

lemma meta_size_update: "meta_size (AList.update k v m) \<le> meta_size m + length (enc_kv k v)"
  unfolding meta_size_def by (induction m) (auto simp: add.commute)

lemma length_kvs: "gomap_wf m \<Longrightarrow> length (concat (map (kv_of m) (sort (map fst m)))) = meta_size m"
proof -
  assume wf: "gomap_wf m"
  have "length (concat (map (kv_of m) (sort (map fst m)))) = sum_list (map (length \<circ> kv_of m) (sort (map fst m)))"
    by (simp add: length_concat comp_def)
  also have "\<dots> = sum_mset (image_mset (length \<circ> kv_of m) (mset (sort (map fst m))))"
    by (simp only: mset_map [symmetric] sum_mset_sum_list)
  also have "\<dots> = sum_list (map (length \<circ> kv_of m) (map fst m))"
    by (simp only: mset_sort mset_map [symmetric] sum_mset_sum_list)
  also have "map (length \<circ> kv_of m) (map fst m) = map (\<lambda>(k, v). length (enc_kv k v)) m"
    using wf by (auto simp: gomap_wf_def kv_of_def)
  finally show ?thesis by (simp add: meta_size_def)
qed

lemma parse_metadata_size:
  "parse_metadata n c m = Inr (m', c') \<Longrightarrow> cur_ok c \<Longrightarrow> meta_size m' + cur_pos c \<le> meta_size m + cur_pos c'"
proof (induction n arbitrary: c m)
  case 0
  then show ?case by simp
next
  case (Suc n)
  then obtain key c1 wt c2 where s12: "cur_str c = Inr (key, c1)" "cur_u32 c1 = Inr (wt, c2)" by auto
  with Suc.prems(1) obtain mv c3 where s34: "cur_value 0 wt c2 = Inr (mv, c3)"
      "parse_metadata n c3 (AList.update key mv m) = Inr (m', c')"
    by (cases "cur_value 0 wt c2") auto
  note k = cur_str_exact [OF s12(1) Suc.prems(2)]
  note t = cur_scalar_exact(3) [OF s12(2)]
  have ok2: "cur_ok c2" using k t Suc.prems(2) by (simp add: cur_ok_def)
  note v = cur_value_read [OF s34(1) ok2, unfolded cur_read_def]
  have ok3: "cur_ok c3" using v ok2 by (simp add: cur_ok_def)
  have "length (enc_kv key mv) = length (enc_str key) + 4 + length (enc_value mv)" by (simp add: enc_kv_def)
  with Suc.IH [OF s34(2) ok3] k t v meta_size_update [of key mv m] show ?case by simp
qed

lemma parse_tensors_size:
  "parse_tensors n c = Inr (ts, c') \<Longrightarrow> cur_ok c \<Longrightarrow>
    length (concat (map enc_desc ts)) + cur_pos c = cur_pos c'"
proof (induction n arbitrary: c ts)
  case 0
  then show ?case by simp
next
  case (Suc n)
  then obtain nm c1 r c2 ds c3 dt c4 off c5 ts1 where s: "cur_str c = Inr (nm, c1)" "cur_u32 c1 = Inr (r, c2)"
      "parse_dims (unat r) c2 = Inr (ds, c3)" "cur_u32 c3 = Inr (dt, c4)" "cur_u64 c4 = Inr (off, c5)"
      "parse_tensors n c5 = Inr (ts1, c')"
      "ts = \<lparr>Name = nm, Dims = ds, DType = TypeFromID dt, Offset = off, Shard = None\<rparr> # ts1"
    by (auto split: if_splits)
  note k = cur_str_exact [OF s(1) Suc.prems(2)]
  note t = cur_scalar_exact(3) [OF s(2)]
  have ok2: "cur_ok c2" using k t Suc.prems(2) by (simp add: cur_ok_def)
  note d = dims_exact.loop_exact [OF s(3) ok2]
  note e = cur_scalar_exact(3) [OF s(4)] cur_scalar_exact(4) [OF s(5)]
  have ok5: "cur_ok c5" using k t d e Suc.prems(2) by (simp add: cur_ok_def)
  show ?case using Suc.IH [OF s(6) ok5] k t d e s(7) by (simp add: enc_desc_def)
qed

lemma parseGGUF_size:
  assumes "parseGGUF data = Inr g" "length data < 18446744073709551616"
  shows "24 + meta_size (Metadata g) + length (concat (map enc_desc (Tensors g))) \<le> length data"
proof -
  let ?c = "\<lparr>cur_data = data, cur_pos = 4\<rparr>"
  obtain ver c1 nt c2 nkv c3 m c4 ts c5 a where s: "\<not> length data < 4" "cur_u32 ?c = Inr (ver, c1)" "cur_u64 c1 = Inr (nt, c2)"
      "cur_u64 c2 = Inr (nkv, c3)"
      "parse_metadata (unat nkv) c3 [] = Inr (m, c4)" "parse_tensors (unat nt) c4 = Inr (ts, c5)"
      "g = \<lparr>Metadata = m, Tensors = ts, DataOffset = cur_pos c5 + (a - cur_pos c5 mod a) mod a, Version = ver\<rparr>"
    using assms(1) unfolding parseGGUF_def Let_def by (auto split: if_splits)
  note e = cur_scalar_exact(3) [OF s(2)] cur_scalar_exact(4) [OF s(3)] cur_scalar_exact(4) [OF s(4)]
  have ok: "cur_ok c3" "cur_data c3 = data" "cur_pos c3 = 24" using e assms(2) by (simp_all add: cur_ok_def)
  have m0: "meta_ok []" by (simp add: meta_ok_def)
  note pm = parse_metadata_read [OF s(5) ok(1) m0]
  have ok4: "cur_ok c4" using pm by simp
  note pt = parse_tensors_read [OF s(6) ok4]
  have "cur_pos c5 \<le> length data" using pm pt ok by (auto simp: cur_ok_def)
  then show ?thesis
    using parse_metadata_size [OF s(5) ok(1)] parse_tensors_size [OF s(6) ok4] ok(3) s(7) by (simp add: meta_size_def)
qed

lemma length_enc_desc_cong: "Name t = Name u \<Longrightarrow> Dims t = Dims u \<Longrightarrow> length (enc_desc t) = length (enc_desc u)"
  by (simp add: enc_desc_def)

lemma length_descs_cong:
  assumes "map (\<lambda>t. (Name t, Dims t)) ts = map (\<lambda>t. (Name t, Dims t)) us"
  shows "length (concat (map enc_desc ts)) = length (concat (map enc_desc us))"
proof -
  have l: "length ts = length us" by (rule map_eq_imp_length_eq [OF assms])
  have "map (\<lambda>t. length (enc_desc t)) ts = map (\<lambda>t. length (enc_desc t)) us"
  proof (rule nth_equalityI)
    fix i assume "i < length (map (\<lambda>t. length (enc_desc t)) ts)"
    then have i: "i < length ts" by simp
    then have "(Name (ts ! i), Dims (ts ! i)) = (Name (us ! i), Dims (us ! i))"
      using arg_cong [OF assms, of "\<lambda>xs. xs ! i"] l by simp
    then show "map (\<lambda>t. length (enc_desc t)) ts ! i = map (\<lambda>t. length (enc_desc t)) us ! i"
      using i l length_enc_desc_cong [of "ts ! i" "us ! i"] by simp
  qed (simp add: l)
  then have "length (concat (map enc_desc ts)) = length (concat (map enc_desc us))"
    by (simp add: length_concat comp_def)
  then show ?thesis .
qed

lemma length_key_alignment: "length (enc_kv ''general.alignment'' (MetaValue ''u32'' (VU32 x))) = 33"
  by (simp add: enc_kv_def)

lemma meta_size_effective: "meta_size (effective_metadata m a) \<le> meta_size m + 33"
  unfolding effective_metadata_def by (rule order_trans [OF meta_size_update]) (simp only: length_key_alignment)

lemma length_header_bytes:
  "gomap_wf m \<Longrightarrow> length (header_bytes m ts) = 24 + meta_size m + length (concat (map enc_desc ts))"
  by (simp only: header_bytes_def length_append length_kvs) (simp add: bytes_of_string_def)

lemma length_effective_header:
  assumes "gomap_wf m" "map (\<lambda>t. (Name t, Dims t)) ts = map (\<lambda>t. (Name t, Dims t)) us"
  shows "length (header_bytes (effective_metadata m a) ts) \<le> 24 + meta_size m + 33 + length (concat (map enc_desc us))"
proof -
  have "gomap_wf (effective_metadata m a)" using assms(1) by (simp add: effective_metadata_def)
  then show ?thesis
    using length_header_bytes [of "effective_metadata m a" ts] length_descs_cong [OF assms(2)]
      meta_size_effective [of m a] by linarith
qed


lemma rewrite_parsed:
  assumes "parseGGUF data = Inr g" "length data < 4611686018427380000" "length (Metadata g) < 1048576"
    and "metadata_alignment (Metadata g) = Inr a" "a < 4294967296"
    and known: "\<And>t. t \<in> set (Tensors g) \<Longrightarrow> DType t \<noteq> GGMLTypeUnknown"
    and planned: "planned = map (\<lambda>t. \<lparr>pName = Name t, pDims = Dims t, pDType = DType t\<rparr>) (Tensors g)"
  shows "\<exists>gw h. NewGGUFWriter sink_ok (Metadata g) planned (int a) = Inr gw
    \<and> parseGGUF (cw_out (gw_cw gw) @ rest) = Inr h
    \<and> map_of (Metadata h) = (map_of (Metadata g))(''general.alignment'' \<mapsto> MetaValue ''u32'' (VU32 (word_of_nat a)))
    \<and> map (\<lambda>t. (Name t, Dims t, DType t)) (Tensors h) = map (\<lambda>t. (Name t, Dims t, DType t)) (Tensors g)"
proof -
  have d64: "length data < 18446744073709551616" using assms(2) by simp
  note wf = parseGGUF_sound [OF assms(1) d64]
  have a: "0 < a" using wf assms(4) by auto
  have "\<exists>ts. plan_tensors (word_of_int (int a)) 0 planned = Inr ts"
    by (rule plan_tensors_total) (use known in \<open>auto simp: planned\<close>)
  then obtain ts where ts: "plan_tensors (word_of_int (int a)) 0 planned = Inr ts" by blast
  have rel: "list_all2 (\<lambda>p t. Name t = pName p \<and> Dims t = pDims p \<and> DType t = pDType p \<and> Shard t = None) planned ts"
    by (rule plan_tensors_desc [OF ts])
  then have len: "length ts = length (Tensors g)" unfolding planned by (auto dest: list_all2_lengthD)
  have nth: "Name (ts ! i) = Name (Tensors g ! i) \<and> Dims (ts ! i) = Dims (Tensors g ! i) \<and> DType (ts ! i) = DType (Tensors g ! i)"
    if "i < length ts" for i
    using list_all2_nthD2 [OF rel that] that len unfolding planned by simp
  have eqs: "map (\<lambda>t. (Name t, Dims t, DType t)) ts = map (\<lambda>t. (Name t, Dims t, DType t)) (Tensors g)"
      "map (\<lambda>t. (Name t, Dims t)) ts = map (\<lambda>t. (Name t, Dims t)) (Tensors g)"
    by (rule nth_equalityI; use nth len in simp)+
  have pok: "planned_ok p" if "p \<in> set planned" for p
    using that wf planned by (auto simp: planned_ok_def list_all_iff desc_ok_def)
  have lp: "length planned \<le> 1048576" using wf planned by auto
  have mok: "meta_ok (Metadata g)" using wf by blast
  have "length (header_bytes (effective_metadata (Metadata g) (int a)) ts) \<le> length data + 33"
    using length_effective_header [OF _ eqs(2), of "Metadata g" "int a"] parseGGUF_size [OF assms(1) d64] mok
    by (simp add: meta_ok_def)
  then have size: "length (header_bytes (effective_metadata (Metadata g) (int a)) ts) < 4611686018427387904"
    using assms(2) by linarith
  have al: "int a = effective_alignment (int a)" "int a < 4294967296"
    using a assms(5) by (simp_all add: effective_alignment_def)
  show ?thesis
    using header_roundtrip [OF mok assms(3) pok lp al ts size, of rest] eqs(1)
    by (force simp: effective_metadata_def update_conv)
qed

section \<open>The contract of the container\<close>

text \<open>The example file of the witnesses: two small tensors at the default alignment.\<close>

definition ex_planned :: "PlannedTensor list" where
  "ex_planned = [\<lparr>pName = ''a'', pDims = [1], pDType = GGMLTypeF32\<rparr>, \<lparr>pName = ''b'', pDims = [2], pDType = GGMLTypeF16\<rparr>]"

definition ex_tensors :: "TensorInfo list" where
  "ex_tensors = [\<lparr>Name = ''a'', Dims = [1], DType = GGMLTypeF32, Offset = 0, Shard = None\<rparr>,
     \<lparr>Name = ''b'', Dims = [2], DType = GGMLTypeF16, Offset = 32, Shard = None\<rparr>]"

definition ex_data :: "u8 list list" where
  "ex_data = [[1, 2, 3, 4], [5, 6, 7, 8]]"

lemma ex_plan: "plan_tensors (word_of_int 32) 0 ex_planned = Inr ex_tensors"
  by code_simp

lemma ex_header: "length (header_bytes (effective_metadata [] 32) ex_tensors) = 123"
  by code_simp

lemma ex_sizes: "sizes_ok ex_tensors ex_data" "length ex_data = 2" "sum_list (map length ex_data) = 8"
  by code_simp+

lemma ex_ok: "meta_ok []" "\<And>p. p \<in> set ex_planned \<Longrightarrow> planned_ok p" "length ex_planned = 2"
  "effective_alignment 0 = 32"
  by (auto simp: meta_ok_def ex_planned_def planned_ok_def str_ok_def effective_alignment_def)

definition block_bytes :: "GGMLType \<Rightarrow> int" where
  "block_bytes t = the (DataSize t (BlockSize t))"

lemma DataSize_table:
  assumes "t \<noteq> GGMLTypeUnknown"
  shows "0 < block_bytes t \<and> (\<forall>b. BlockBytes t = Some b \<longrightarrow> b = block_bytes t) \<and>
    (\<forall>k r. 0 \<le> k \<longrightarrow> 0 \<le> r \<longrightarrow> r < BlockSize t \<longrightarrow> k * block_bytes t \<le> max_int \<longrightarrow>
       DataSize t (k * BlockSize t + r) = Some (k * block_bytes t))"
  using assms
  by (cases t) (simp_all add: block_bytes_def BlockSize_def wrap64_def max_int_def)

text \<open>
  C1. Writing and reading a GGUF file agree: for well-formed metadata and a plan of known tensor
  types, creating the writer, handing it every tensor's bytes in order and closing it all succeed,
  and parsing the bytes that came out yields the metadata (with the effective alignment), the
  planned tensor table, and every tensor's bytes at the data offset plus its table offset.
\<close>

theorem gguf_file_roundtrip:
  assumes "meta_ok m" "length m < 1048576"
    and "\<And>p. p \<in> set planned \<Longrightarrow> planned_ok p" "length planned \<le> 1048576"
    and "al = effective_alignment a" "al < 4294967296"
    and "plan_tensors (word_of_int al) 0 planned = Inr ts" "sizes_ok ts ds"
    and "length (header_bytes (effective_metadata m al) ts) + sum_list (map length ds)
       + Suc (length ds) * nat al < 4611686018427387904"
    and "\<And>bs. flush bs = None"
  shows "\<exists>gw gw' gw'' g. NewGGUFWriter sink_ok m planned a = Inr gw
    \<and> write_all sink_ok gw ds = (None, gw') \<and> writer_Close flush gw' = (None, gw'')
    \<and> parseGGUF (cw_out (gw_cw gw'')) = Inr g
    \<and> map_of (Metadata g) = (map_of m)(''general.alignment'' \<mapsto> MetaValue ''u32'' (VU32 (word_of_int al)))
    \<and> Tensors g = ts \<and> Version g = 3
    \<and> (\<forall>i < length ds. take (length (ds ! i)) (drop (DataOffset g + unat (Offset (ts ! i))) (cw_out (gw_cw gw''))) = ds ! i)"
  using write_file [OF assms(1-9), of flush] assms(10)
  by (fastforce simp: effective_metadata_def update_conv Let_def)

theorem gguf_file_roundtrip_witness:
  "\<exists>gw gw' gw'' g. NewGGUFWriter sink_ok [] ex_planned 0 = Inr gw
    \<and> write_all sink_ok gw ex_data = (None, gw') \<and> writer_Close (\<lambda>_. None) gw' = (None, gw'')
    \<and> parseGGUF (cw_out (gw_cw gw'')) = Inr g
    \<and> map_of (Metadata g) = (map_of [])(''general.alignment'' \<mapsto> MetaValue ''u32'' (VU32 (word_of_int 32)))
    \<and> Tensors g = ex_tensors \<and> Version g = 3
    \<and> (\<forall>i < length ex_data. take (length (ex_data ! i)) (drop (DataOffset g + unat (Offset (ex_tensors ! i))) (cw_out (gw_cw gw''))) = ex_data ! i)"
  by (rule gguf_file_roundtrip [OF ex_ok(1) _ ex_ok(2) _ ex_ok(4) [symmetric] _ ex_plan ex_sizes(1)])
    (simp_all add: ex_ok ex_sizes ex_header)

text \<open>
  C2. A caller cannot obtain an incomplete file: after any sequence of \<open>WriteTensor\<close> and
  \<open>WriteTensorStream\<close> calls with any callbacks, over any sink that keeps the writer contract and with
  every returned error ignored, \<open>Close\<close> succeeds only if every planned tensor has been written in
  full, in order, each at its planned offset, with nothing but zero padding in between.
\<close>

theorem close_only_complete:
  assumes "sink_law sink" "NewGGUFWriter sink m planned a = Inr gw"
    and "meta_ok m" "al = effective_alignment a" "sizes_ok (gw_tensors gw) ds"
    and "length (header_bytes (effective_metadata m al) (gw_tensors gw)) + sum_list (map length ds)
       + Suc (length ds) * nat al < 9223372036854775808"
    and "writer_Close flush (run_wops sink gw ops) = (None, gw')"
  shows "\<exists>segs. length segs = length (gw_tensors gw) \<and> cw_out (gw_cw gw') = cw_out (gw_cw gw) @ seg_bytes segs
    \<and> (\<forall>i < length segs. DataSize (DType (gw_tensors gw ! i)) (Numel (gw_tensors gw ! i)) = Some (int (length (fst (segs ! i))))
          \<and> unat (Offset (gw_tensors gw ! i)) = length (seg_bytes (take i segs)))"
  by (rule close_complete [OF assms(1) NewGGUFWriter_at_start [OF assms(1-6)] assms(7)])

theorem close_only_complete_witness:
  "\<exists>gw gw' segs. NewGGUFWriter sink_ok [] ex_planned 0 = Inr gw
    \<and> writer_Close (\<lambda>_. None) (run_wops sink_ok gw (map OpTensor ex_data)) = (None, gw')
    \<and> length segs = length (gw_tensors gw) \<and> cw_out (gw_cw gw') = cw_out (gw_cw gw) @ seg_bytes segs"
proof -
  obtain gw gw1 where gw: "NewGGUFWriter sink_ok [] ex_planned 0 = Inr gw" "write_all sink_ok gw ex_data = (None, gw1)"
      "gw_tensors gw = ex_tensors" "fst (writer_Close (\<lambda>_. None) gw1) = None"
    using write_file [OF ex_ok(1) _ ex_ok(2) _ ex_ok(4) [symmetric] _ ex_plan ex_sizes(1), of "\<lambda>_. None"]
      NewGGUFWriter_ok [OF ex_ok(1) ex_ok(4) [symmetric] ex_plan refl]
    by (auto simp: ex_ok ex_sizes ex_header Let_def)
  have "run_wops sink_ok gw (map OpTensor ex_data) = gw1"
    using gw(2) by (auto simp: ex_data_def run_wops_def split: prod.splits option.splits)
  then obtain gw' where c: "writer_Close (\<lambda>_. None) (run_wops sink_ok gw (map OpTensor ex_data)) = (None, gw')"
    using gw(4) by (metis prod.collapse)
  have "length (header_bytes (effective_metadata [] 32) (gw_tensors gw)) + sum_list (map length ex_data)
       + Suc (length ex_data) * nat 32 < 9223372036854775808"
    by (simp add: gw(3) ex_header ex_sizes)
  from close_only_complete [OF sink_law_ok gw(1) ex_ok(1) ex_ok(4) [symmetric] ex_sizes(1) [folded gw(3)] this c]
  show ?thesis using gw(1) c by blast
qed

text \<open>
  C3. Whatever bytes are given to the parser, success means a well-formed file: distinct keys,
  values nested at most 16 deep with arrays of at most \<open>2^24\<close> elements whose Go type matches their
  kind, tensors of rank 1 to 16, at most \<open>2^20\<close> entries of each table, and a data offset that is a
  positive multiple of the alignment, less than one alignment past the end of the input.
\<close>

theorem parseGGUF_wellformed:
  assumes "parseGGUF data = Inr g" "length data < 18446744073709551616"
  shows "\<exists>a. meta_ok (Metadata g) \<and> length (Metadata g) \<le> 1048576 \<and> list_all desc_ok (Tensors g)
    \<and> length (Tensors g) \<le> 1048576 \<and> metadata_alignment (Metadata g) = Inr a \<and> 0 < a
    \<and> a dvd DataOffset g \<and> 24 \<le> DataOffset g \<and> DataOffset g < length data + a"
  by (rule parseGGUF_sound [OF assms])

definition ex_meta :: "(string, meta_value) gomap" where
  "ex_meta = [(''k'', MetaValue ''array'' (VMetas [MetaValue ''u32'' (VU32 7), MetaValue ''u32'' (VU32 9)]))]"

definition ex_file :: "u8 list" where
  "ex_file = header_bytes ex_meta ex_tensors @ replicate 60 0"

lemma ex_meta: "meta_ok ex_meta" "map (\<lambda>k. (k, the (map_of ex_meta k))) (sort (map fst ex_meta)) = ex_meta" "length ex_meta = 1"
  by (simp_all add: ex_meta_def meta_ok_def str_ok_def gomap_wf_def)

lemma ex_desc: "list_all desc_ok ex_tensors" "length ex_tensors = 2"
  by (simp_all add: ex_tensors_def desc_ok_def str_ok_def)

lemma ex_file_size: "length (header_bytes ex_meta ex_tensors) = 123"
  by code_simp

lemma ex_file_parse: "parseGGUF ex_file = Inr \<lparr>Metadata = ex_meta, Tensors = ex_tensors, DataOffset = 128, Version = 3\<rparr>"
proof -
  have "parseGGUF ex_file = Inr \<lparr>Metadata = map (\<lambda>k. (k, the (map_of ex_meta k))) (sort (map fst ex_meta)),
      Tensors = ex_tensors, DataOffset = length (header_bytes ex_meta ex_tensors) + pad_len (length (header_bytes ex_meta ex_tensors)) 32, Version = 3\<rparr>"
    by (rule parseGGUF_header [OF ex_meta(1) _ _ _ _ ex_file_def])
      (use ex_desc in \<open>simp_all add: ex_meta ex_file_size list_all_iff pad_len_def max_int_def\<close>,
       simp add: metadata_alignment_def ex_meta_def)
  then show ?thesis by (simp add: ex_meta ex_file_size pad_len_def)
qed

lemma ex_file_len: "length ex_file = 183"
  by (simp add: ex_file_def ex_file_size)

theorem parseGGUF_wellformed_witness:
  "\<exists>g a. parseGGUF ex_file = Inr g \<and> meta_ok (Metadata g) \<and> list_all desc_ok (Tensors g)
    \<and> metadata_alignment (Metadata g) = Inr a \<and> a dvd DataOffset g"
  using parseGGUF_wellformed [OF ex_file_parse] ex_file_parse by (auto simp: ex_file_len)

text \<open>
  Decoding a metadata value consumes exactly the bytes the writer would emit for the value it
  returns, never leaves the buffer, and returns a value of the requested wire type.
\<close>

theorem cur_value_consumes_encoding:
  assumes "cur_value d t c = Inr (v, c')" "cur_pos c \<le> length (cur_data c)" "length (cur_data c) < 18446744073709551616"
  shows "wf_meta d v \<and> tag_of (Value v) = t \<and> cur_data c' = cur_data c
     \<and> cur_pos c' = cur_pos c + length (enc_value v) \<and> cur_pos c' \<le> length (cur_data c)"
  using cur_value_read [OF assms(1)] assms(2,3) by (simp add: cur_read_def cur_ok_def)

lemma ex_value: "cur_value 0 9 \<lparr>cur_data = enc_any (VStrs [''x'']) @ [255], cur_pos = 0\<rparr> =
   Inr (MetaValue ''array'' (VStrs [''x'']), \<lparr>cur_data = enc_any (VStrs [''x'']) @ [255], cur_pos = 21\<rparr>)"
  using cur_value_enc(1) [of 0 "VStrs [''x'']" "\<lparr>cur_data = enc_any (VStrs [''x'']) @ [255], cur_pos = 0\<rparr>" "[255]"]
  by (simp add: feeds_def adv_def str_ok_def)

theorem cur_value_consumes_encoding_witness:
  "wf_meta 0 (MetaValue ''array'' (VStrs [''x'']))"
  using cur_value_consumes_encoding [OF ex_value] by simp

text \<open>
  Reading a file and writing its header again: when all tensor types are known and the metadata carry a usable
  alignment, the metadata a successful parse returned can be written for the table of tensors that was read, and
  parsing the new header returns the same metadata, except that \<open>general.alignment\<close> is a \<open>u32\<close> entry afterwards, and
  the same names, dimensions and types. The offsets are computed anew.
\<close>

theorem gguf_rewrite:
  assumes "parseGGUF data = Inr g" "length data < 4611686018427380000" "length (Metadata g) < 1048576"
    and "metadata_alignment (Metadata g) = Inr a" "a < 4294967296"
    and "\<And>t. t \<in> set (Tensors g) \<Longrightarrow> DType t \<noteq> GGMLTypeUnknown"
    and planned: "planned = map (\<lambda>t. \<lparr>pName = Name t, pDims = Dims t, pDType = DType t\<rparr>) (Tensors g)"
  shows "\<exists>gw h. NewGGUFWriter sink_ok (Metadata g) planned (int a) = Inr gw
    \<and> parseGGUF (cw_out (gw_cw gw) @ rest) = Inr h
    \<and> map_of (Metadata h) = (map_of (Metadata g))(''general.alignment'' \<mapsto> MetaValue ''u32'' (VU32 (word_of_nat a)))
    \<and> map (\<lambda>t. (Name t, Dims t, DType t)) (Tensors h) = map (\<lambda>t. (Name t, Dims t, DType t)) (Tensors g)"
  by (rule rewrite_parsed [OF assms])

theorem gguf_rewrite_witness:
  "\<exists>gw h. NewGGUFWriter sink_ok ex_meta (map (\<lambda>t. \<lparr>pName = Name t, pDims = Dims t, pDType = DType t\<rparr>) ex_tensors) (int 32) = Inr gw
    \<and> parseGGUF (cw_out (gw_cw gw) @ []) = Inr h
    \<and> map_of (Metadata h) = (map_of ex_meta)(''general.alignment'' \<mapsto> MetaValue ''u32'' (VU32 (word_of_nat 32)))"
proof -
  have "metadata_alignment ex_meta = Inr 32" by (simp add: metadata_alignment_def ex_meta_def)
  moreover have "t \<in> set ex_tensors \<Longrightarrow> DType t \<noteq> GGMLTypeUnknown" for t by (auto simp: ex_tensors_def)
  ultimately show ?thesis
    using gguf_rewrite [OF ex_file_parse _ _ _ _ _ refl, of 32 "[]"] by (fastforce simp: ex_file_len ex_meta)
qed

text \<open>
  The size of a tensor follows its block geometry: every known type has a positive block size in
  bytes, equal to \<open>BlockBytes\<close> where that is defined, so that \<open>k\<close> blocks of elements take \<open>k\<close> times
  as many bytes, and elements beyond the last full block take none.
\<close>

theorem DataSize_blocks:
  assumes "t \<noteq> GGMLTypeUnknown"
  shows "\<exists>b > 0. (BlockBytes t \<noteq> None \<longrightarrow> BlockBytes t = Some b) \<and>
    (\<forall>k r. 0 \<le> k \<longrightarrow> 0 \<le> r \<longrightarrow> r < BlockSize t \<longrightarrow> k * b \<le> max_int \<longrightarrow>
       DataSize t (k * BlockSize t + r) = Some (k * b))"
  using DataSize_table [OF assms] by (intro exI [of _ "block_bytes t"]) (cases "BlockBytes t"; simp)

theorem DataSize_blocks_witness:
  "\<exists>b > 0. BlockBytes GGMLTypeQ8_0 = Some b \<and> DataSize GGMLTypeQ8_0 (2 * BlockSize GGMLTypeQ8_0 + 5) = Some (2 * b)"
  using DataSize_blocks [of GGMLTypeQ8_0] by (auto simp: BlockSize_def max_int_def)

end
