(* ===== verification/Bpe_Heap.thy ===== *)
theory Bpe_Heap
  imports Complex_Main "HOL-Library.Multiset" "HOL-Library.Product_Lexorder" Go_Prelude
begin

text \<open>
  The candidate heap of \<^verbatim>\<open>internal/tokenizer/tokenizer_merge.go\<close>: the array heap with its sift loops,
  as a priority queue over candidates whose priority is a number.

  A \<^verbatim>\<open>float64\<close> is a rational or one of the three special values, compared as IEEE 754 compares.
\<close>

datatype float64 = NaN | NegInf | Num rat | PosInf

fun fl_less :: "float64 \<Rightarrow> float64 \<Rightarrow> bool" where
  "fl_less (Num a) (Num b) = (a < b)"
| "fl_less NegInf (Num b) = True"
| "fl_less NegInf PosInf = True"
| "fl_less (Num a) PosInf = True"
| "fl_less _ _ = False"

definition fl_ne :: "float64 \<Rightarrow> float64 \<Rightarrow> bool" where
  "fl_ne a b \<longleftrightarrow> a = NaN \<or> b = NaN \<or> a \<noteq> b"

text \<open>Indices and lengths are \<open>int32\<close> in the code; a text of fewer than \<open>2 ^ 31\<close> symbols never leaves that range.\<close>

record bpeCandidate =
  c_prio :: float64
  c_left :: int
  c_right :: int
  c_id :: u32
  c_leftLen :: nat
  c_rightLen :: nat

definition cand_less :: "bpeCandidate \<Rightarrow> bpeCandidate \<Rightarrow> bool" where
  "cand_less a b = (if fl_ne (c_prio a) (c_prio b) then fl_less (c_prio a) (c_prio b)
     else c_left a < c_left b)"

definition heap_less :: "bpeCandidate list \<Rightarrow> nat \<Rightarrow> nat \<Rightarrow> bool" where
  "heap_less h i j = cand_less (h ! i) (h ! j)"

definition swap :: "'a list \<Rightarrow> nat \<Rightarrow> nat \<Rightarrow> 'a list" where
  "swap h i j = h[i := h ! j, j := h ! i]"

function sift_up :: "bpeCandidate list \<Rightarrow> nat \<Rightarrow> bpeCandidate list" where
  "sift_up s i = (if i > 0 then
     let p = (i - 1) div 2 in
     if \<not> heap_less s i p then s else sift_up (swap s i p) p
   else s)"
  by pat_completeness auto
termination
  by (relation "measure snd") auto

definition heap_push :: "bpeCandidate list \<Rightarrow> bpeCandidate \<Rightarrow> bpeCandidate list" where
  "heap_push h c = (let s = h @ [c] in sift_up s (length s - 1))"

function sift_down :: "bpeCandidate list \<Rightarrow> nat \<Rightarrow> bpeCandidate list" where
  "sift_down s i =
    (let l = 2 * i + 1 in
     if l \<ge> length s then s
     else let m = (if l + 1 < length s \<and> heap_less s (l + 1) l then l + 1 else l) in
       if \<not> heap_less s m i then s else sift_down (swap s i m) m)"
  by pat_completeness auto
termination
  by (relation "measure (\<lambda>(s, i). length s - i)") (auto simp: swap_def)

definition heap_pop :: "bpeCandidate list \<Rightarrow> bpeCandidate \<times> bpeCandidate list" where
  "heap_pop h = (let n = length h - 1; s = take n (h[0 := h ! n]) in (h ! 0, sift_down s 0))"

declare sift_up.simps [simp del] sift_down.simps [simp del]

section \<open>The order\<close>

text \<open>On candidates without NaN the comparison is a linear order of keys.\<close>

fun fl_key :: "float64 \<Rightarrow> nat \<times> rat" where
  "fl_key NegInf = (0, 0)" | "fl_key (Num q) = (1, q)" | "fl_key PosInf = (2, 0)" | "fl_key NaN = (3, 0)"

definition cand_key :: "bpeCandidate \<Rightarrow> (nat \<times> rat) \<times> int" where
  "cand_key c = (fl_key (c_prio c), c_left c)"

definition rated :: "bpeCandidate list \<Rightarrow> bool" where
  "rated h \<longleftrightarrow> (\<forall>c \<in> set h. c_prio c \<noteq> NaN)"

lemma fl_less_key: "a \<noteq> NaN \<Longrightarrow> b \<noteq> NaN \<Longrightarrow> fl_less a b \<longleftrightarrow> fl_key a < fl_key b"
  by (cases a; cases b) auto

lemma fl_key_inj: "fl_key a = fl_key b \<longleftrightarrow> a = b"
  by (cases a; cases b) auto

lemma cand_less_key:
  assumes "c_prio a \<noteq> NaN" "c_prio b \<noteq> NaN"
  shows "cand_less a b \<longleftrightarrow> cand_key a < cand_key b"
proof (cases "c_prio a = c_prio b")
  case True
  then show ?thesis using assms by (simp add: cand_less_def cand_key_def fl_ne_def)
next
  case False
  then have "fl_key (c_prio a) \<noteq> fl_key (c_prio b)" by (simp add: fl_key_inj)
  then have "fl_key (c_prio a) \<le> fl_key (c_prio b) \<longleftrightarrow> fl_key (c_prio a) < fl_key (c_prio b)"
    by (simp only: order.order_iff_strict) blast
  then show ?thesis using assms False by (auto simp: cand_less_def cand_key_def fl_ne_def fl_less_key)
qed

lemma heap_less_key:
  "rated h \<Longrightarrow> i < length h \<Longrightarrow> j < length h \<Longrightarrow> heap_less h i j \<longleftrightarrow> cand_key (h ! i) < cand_key (h ! j)"
  by (simp add: heap_less_def cand_less_key rated_def)

lemma length_swap [simp]: "length (swap h i j) = length h"
  by (simp add: swap_def)

lemma swap_nth:
  "i < length h \<Longrightarrow> j < length h \<Longrightarrow> swap h i j ! k = (if k = j then h ! i else if k = i then h ! j else h ! k)"
  by (cases "k < length h") (auto simp: swap_def nth_list_update)

lemma mset_swap [simp]: "i < length h \<Longrightarrow> j < length h \<Longrightarrow> mset (swap h i j) = mset h"
  unfolding swap_def by (rule mset_swap)

lemma rated_mset: "mset h = mset h' \<Longrightarrow> rated h \<longleftrightarrow> rated h'"
  unfolding rated_def by (metis mset_eq_setD)

section \<open>Heap order\<close>

abbreviation parent :: "nat \<Rightarrow> nat" where
  "parent i \<equiv> (i - 1) div 2"

definition heap_ok_but :: "bpeCandidate list \<Rightarrow> nat set \<Rightarrow> bool" where
  "heap_ok_but h A \<longleftrightarrow> (\<forall>j. 0 < j \<longrightarrow> j < length h \<longrightarrow> j \<notin> A \<longrightarrow> cand_key (h ! parent j) \<le> cand_key (h ! j))"

definition heap_inv :: "bpeCandidate list \<Rightarrow> bool" where
  "heap_inv h \<longleftrightarrow> rated h \<and> heap_ok_but h {}"

text \<open>The grandparent condition both sifts keep while one element is out of place at \<open>i\<close>.\<close>

definition bridge :: "bpeCandidate list \<Rightarrow> nat \<Rightarrow> bool" where
  "bridge h i \<longleftrightarrow> (\<forall>j. 0 < i \<longrightarrow> 0 < j \<longrightarrow> j < length h \<longrightarrow> parent j = i \<longrightarrow> cand_key (h ! parent i) \<le> cand_key (h ! j))"

lemma sift_up_ok:
  assumes "rated h" "i < length h" "heap_ok_but h {i}" "bridge h i"
  shows "heap_inv (sift_up h i) \<and> mset (sift_up h i) = mset h"
  using assms
proof (induction h i rule: sift_up.induct)
  case (1 h i)
  note rated = 1(2) and i = 1(3) and ok = 1(4) and br = 1(5)
  show ?case
  proof (cases "i > 0 \<and> heap_less h i (parent i)")
    case False
    have up: "cand_key (h ! parent i) \<le> cand_key (h ! i)" if "0 < i"
    proof -
      have "parent i < length h" using i by linarith
      then show ?thesis using False that heap_less_key [OF rated i, of "parent i"] by auto
    qed
    have "heap_ok_but h {}"
      unfolding heap_ok_but_def
    proof (intro allI impI)
      fix j assume "0 < j" "j < length h"
      then show "cand_key (h ! parent j) \<le> cand_key (h ! j)"
        using ok up by (cases "j = i") (auto simp: heap_ok_but_def)
    qed
    moreover have "sift_up h i = h" using False by (auto simp: sift_up.simps [of h i] Let_def)
    ultimately show ?thesis using rated by (simp add: heap_inv_def)
  next
    case True
    obtain p where pd: "parent i = p" by blast
    let ?h = "swap h i p"
    have p: "p < i" "p < length h" using True i pd by auto
    have lt: "cand_key (h ! i) < cand_key (h ! p)"
      using True heap_less_key [OF rated i p(2)] pd by simp
    have step: "sift_up h i = sift_up ?h p" using True pd by (simp add: sift_up.simps [of h i] Let_def)
    have nth: "?h ! k = (if k = p then h ! i else if k = i then h ! p else h ! k)" for k
      by (rule swap_nth [OF i p(2)])
    have m: "mset ?h = mset h" by (rule mset_swap [OF i p(2)])
    have r': "rated ?h" using rated rated_mset [OF m] by simp
    have up: "cand_key (h ! q) \<le> cand_key (h ! j)" if "0 < j" "j < length h" "j \<noteq> i" "parent j = q" for j q
      using ok that by (auto simp: heap_ok_but_def)
    have ok': "heap_ok_but ?h {p}"
      unfolding heap_ok_but_def
    proof (intro allI impI)
      fix j assume j: "0 < j" "j < length ?h" "j \<notin> {p}"
      obtain q where q: "parent j = q" by blast
      have jl: "j < length h" "q < j" using j q by auto
      show "cand_key (?h ! parent j) \<le> cand_key (?h ! j)"
      proof (cases "j = i")
        case True
        then show ?thesis using lt p pd unfolding nth by auto
      next
        case False
        have "cand_key (h ! p) \<le> cand_key (h ! j)" if "q = i"
          using br \<open>i > 0 \<and> _\<close> j jl that q pd unfolding bridge_def by blast
        then show ?thesis using False j q p lt up [OF j(1) jl(1) False q] unfolding q nth by auto
      qed
    qed
    have br': "bridge ?h p"
      unfolding bridge_def
    proof (intro allI impI)
      fix j assume j: "0 < p" "0 < j" "j < length ?h" "parent j = p"
      obtain g where g: "parent p = g" by blast
      have gp: "g < p" using g j(1) by auto
      have a: "cand_key (h ! g) \<le> cand_key (h ! p)" using up [OF j(1) p(2) _ g] p by simp
      have b: "cand_key (h ! p) \<le> cand_key (h ! j)" if "j \<noteq> i" using up [OF j(2) _ that j(4)] j(3) by simp
      have "p < j" using j by auto
      then show "cand_key (?h ! parent p) \<le> cand_key (?h ! j)"
        using a b gp p unfolding g nth by auto
    qed
    have "heap_inv (sift_up ?h p) \<and> mset (sift_up ?h p) = mset ?h"
      using True p pd 1(1) [of p] r' ok' br' by simp
    then show ?thesis using step m by simp
  qed
qed

lemma heap_push_ok:
  assumes "heap_inv h" "c_prio c \<noteq> NaN"
  shows "heap_inv (heap_push h c) \<and> mset (heap_push h c) = add_mset c (mset h)"
proof -
  have "rated (h @ [c])" using assms by (auto simp: heap_inv_def rated_def)
  moreover have "heap_ok_but (h @ [c]) {length h}"
    unfolding heap_ok_but_def
  proof (intro allI impI)
    fix j assume "0 < j" "j < length (h @ [c])" "j \<notin> {length h}"
    then have "j < length h" "parent j < length h" "0 < j" by auto
    then show "cand_key ((h @ [c]) ! parent j) \<le> cand_key ((h @ [c]) ! j)"
      using assms(1) by (simp add: heap_inv_def heap_ok_but_def nth_append)
  qed
  moreover have "bridge (h @ [c]) (length h)" by (auto simp: bridge_def)
  ultimately show ?thesis using sift_up_ok [of "h @ [c]" "length h"] by (simp add: heap_push_def Let_def)
qed


text \<open>Sinking: everything is in order except possibly the children of \<open>i\<close>.\<close>

lemma sift_down_ok:
  assumes "rated h" "heap_ok_but h {j. 0 < j \<and> parent j = i}" "bridge h i"
  shows "heap_inv (sift_down h i) \<and> mset (sift_down h i) = mset h"
  using assms
proof (induction h i rule: sift_down.induct)
  case (1 h i)
  note rated = 1(2) and ok = 1(3) and br = 1(4)
  obtain l where l_def: "2 * i + 1 = l" by blast
  obtain m where m_def: "(if l + 1 < length h \<and> heap_less h (l + 1) l then l + 1 else l) = m" by blast
  have kids: "parent j = i \<longleftrightarrow> j = l \<or> j = l + 1" if "0 < j" for j using that l_def by auto
  have il: "i < l" "parent l = i" "parent (l + 1) = i" using l_def by auto
  have eq: "sift_down h i = (if l < length h \<and> heap_less h m i then sift_down (swap h i m) m else h)"
    unfolding sift_down.simps [of h i] Let_def l_def m_def by (simp add: not_less)
  have least: "cand_key (h ! m) \<le> cand_key (h ! j)" if j: "0 < j" "j < length h" "parent j = i" "l < length h" for j
    using kids [OF j(1)] j heap_less_key [OF rated _ j(4), of "l + 1"] m_def by (auto split: if_splits)
  have ml: "m < length h" "i < m" "0 < m" "parent m = i" if "l < length h"
    using that m_def il by (auto split: if_splits)
  show ?case
  proof (cases "l < length h \<and> heap_less h m i")
    case False
    then have stop: "sift_down h i = h" by (simp only: eq if_False)
    have "cand_key (h ! i) \<le> cand_key (h ! j)" if j: "0 < j" "j < length h" "parent j = i" for j
    proof -
      have l: "l < length h" using j kids [OF j(1)] by auto
      then have "cand_key (h ! i) \<le> cand_key (h ! m)"
        using False heap_less_key [OF rated ml(1) [OF l], of i] ml [OF l] by auto
      then show ?thesis using least [OF j l] by (rule order.trans)
    qed
    then have "heap_ok_but h {}" using ok unfolding heap_ok_but_def by blast
    then show ?thesis using rated stop by (simp add: heap_inv_def)
  next
    case True
    then have l: "l < length h" ..
    note ml = ml [OF l]
    have i: "i < length h" using ml by simp
    let ?h = "swap h i m"
    have lt: "cand_key (h ! m) < cand_key (h ! i)" using True heap_less_key [OF rated ml(1) i] by simp
    have step: "sift_down h i = sift_down ?h m" unfolding eq using True by (simp only: simp_thms if_True)
    have nth: "?h ! k = (if k = m then h ! i else if k = i then h ! m else h ! k)" for k
      by (rule swap_nth [OF i ml(1)])
    have ms: "mset ?h = mset h" by (rule mset_swap [OF i ml(1)])
    have r': "rated ?h" using rated rated_mset [OF ms] by simp
    have up: "cand_key (h ! q) \<le> cand_key (h ! j)" if "0 < j" "j < length h" "parent j = q" "q \<noteq> i" for j q
      using ok that by (auto simp: heap_ok_but_def)
    have ok': "heap_ok_but ?h {j. 0 < j \<and> parent j = m}"
      unfolding heap_ok_but_def
    proof (intro allI impI)
      fix j assume j: "0 < j" "j < length ?h" "j \<notin> {j. 0 < j \<and> parent j = m}"
      obtain q where q: "parent j = q" by blast
      have jl: "j < length h" "q \<noteq> m" "q < j" using j q by auto
      have top: "cand_key (h ! q) \<le> cand_key (h ! m)" if "j = i"
        using br j(1) that q ml unfolding bridge_def by blast
      show "cand_key (?h ! parent j) \<le> cand_key (?h ! j)"
      proof (cases "q = i")
        case True
        then show ?thesis using least [OF j(1) jl(1) _ l] q lt ml jl unfolding q nth by auto
      next
        case False
        then have "j \<noteq> m" using q ml(4) by auto
        then show ?thesis using up [OF j(1) jl(1) q False] top ml(1,2) jl False unfolding q nth by auto
      qed
    qed
    have br': "bridge ?h m"
      unfolding bridge_def
    proof (intro allI impI)
      fix j assume j: "0 < m" "0 < j" "j < length ?h" "parent j = m"
      then have jm: "m < j" by auto
      have "cand_key (h ! m) \<le> cand_key (h ! j)" using up [OF j(2) _ j(4)] j(3) ml by simp
      then show "cand_key (?h ! parent m) \<le> cand_key (?h ! j)" using jm ml unfolding ml(4) nth by auto
    qed
    have "heap_inv (sift_down ?h m) \<and> mset (sift_down ?h m) = mset ?h"
      using 1(1) [OF refl _ refl] True r' ok' br' l unfolding l_def m_def by (simp add: not_le)
    then show ?thesis using step ms by simp
  qed
qed

lemma heap_root_least:
  "heap_inv h \<Longrightarrow> i < length h \<Longrightarrow> cand_key (h ! 0) \<le> cand_key (h ! i)"
proof (induction i rule: less_induct)
  case (less i)
  show ?case
  proof (cases "i = 0")
    case False
    then have "parent i < i" "parent i < length h" using less.prems by auto
    then have "cand_key (h ! 0) \<le> cand_key (h ! parent i)" using less by blast
    moreover have "cand_key (h ! parent i) \<le> cand_key (h ! i)"
      using less.prems False by (simp add: heap_inv_def heap_ok_but_def)
    ultimately show ?thesis by (rule order.trans)
  qed simp
qed

lemma heap_pop_ok:
  assumes "heap_inv h" "h \<noteq> []" "heap_pop h = (c, h')"
  shows "heap_inv h' \<and> mset h = add_mset c (mset h') \<and> (\<forall>x \<in> set h. cand_key c \<le> cand_key x)"
proof -
  let ?n = "length h - 1"
  let ?s = "take ?n (h[0 := h ! ?n])"
  have c: "c = h ! 0" "h' = sift_down ?s 0" using assms(3) by (simp_all add: heap_pop_def Let_def)
  have lens: "length ?s = ?n" by simp
  have nth: "?s ! k = (if k = 0 then h ! ?n else h ! k)" if "k < ?n" for k
    using that assms(2) by (cases "k = 0") (auto simp: nth_list_update_eq)
  have ms: "mset h = add_mset (h ! 0) (mset ?s)"
  proof (cases "?n = 0")
    case True
    then obtain x where "h = [x]" using assms(2) by (cases h) auto
    then show ?thesis by simp
  next
    case False
    then have n: "0 < ?n" "?n < length h" by auto
    have "mset (swap h 0 ?n) = mset h" using n by (intro mset_swap) auto
    moreover have "swap h 0 ?n = take ?n (swap h 0 ?n) @ [swap h 0 ?n ! ?n]"
      using n take_Suc_conv_app_nth [of ?n "swap h 0 ?n"] by (simp add: Suc_diff_Suc)
    moreover have "take ?n (swap h 0 ?n) = ?s" using n by (simp add: swap_def)
    moreover have "swap h 0 ?n ! ?n = h ! 0" using n by (simp add: swap_def)
    ultimately show ?thesis by (metis mset.simps(2) mset_append union_mset_add_mset_right add_mset_add_single mset_single_iff_right mset_single_iff)
  qed
  have "set ?s \<subseteq> set h" using ms by (metis mset_subset_eq_insertD set_mset_mset set_mset_add_mset_insert subset_insertI)
  then have "rated ?s" using assms(1) by (auto simp: heap_inv_def rated_def)
  moreover have "heap_ok_but ?s {j. 0 < j \<and> parent j = 0}"
    unfolding heap_ok_but_def
  proof (intro allI impI)
    fix j assume j: "0 < j" "j < length ?s" "j \<notin> {j. 0 < j \<and> parent j = 0}"
    then have "j < ?n" "parent j < ?n" "0 < parent j" by auto
    then show "cand_key (?s ! parent j) \<le> cand_key (?s ! j)"
      using assms(1) j nth by (auto simp: heap_inv_def heap_ok_but_def)
  qed
  moreover have "bridge ?s 0" by (simp add: bridge_def)
  ultimately have "heap_inv h' \<and> mset h' = mset ?s" using sift_down_ok [of ?s 0] c(2) by simp
  moreover have "\<forall>x \<in> set h. cand_key c \<le> cand_key x"
    using heap_root_least [OF assms(1)] c(1) by (metis in_set_conv_nth)
  ultimately show ?thesis using ms c(1) by simp
qed

section \<open>The interface the merge loop uses\<close>

locale cand_queue =
  fixes inv :: "'q \<Rightarrow> bool"
    and items :: "'q \<Rightarrow> bpeCandidate multiset"
    and push :: "'q \<Rightarrow> bpeCandidate \<Rightarrow> 'q"
    and pop :: "'q \<Rightarrow> bpeCandidate \<times> 'q"
  assumes push_inv: "inv q \<Longrightarrow> c_prio c \<noteq> NaN \<Longrightarrow> inv (push q c)"
    and push_items: "inv q \<Longrightarrow> c_prio c \<noteq> NaN \<Longrightarrow> items (push q c) = add_mset c (items q)"
    and pop_inv: "inv q \<Longrightarrow> items q \<noteq> {#} \<Longrightarrow> pop q = (c, q') \<Longrightarrow> inv q'"
    and pop_items: "inv q \<Longrightarrow> items q \<noteq> {#} \<Longrightarrow> pop q = (c, q') \<Longrightarrow> items q = add_mset c (items q')"
    and pop_least: "inv q \<Longrightarrow> items q \<noteq> {#} \<Longrightarrow> pop q = (c, q') \<Longrightarrow> x \<in># items q \<Longrightarrow> cand_key c \<le> cand_key x"
begin

lemma pop_size: "inv q \<Longrightarrow> items q \<noteq> {#} \<Longrightarrow> pop q = (c, q') \<Longrightarrow> size (items q) = Suc (size (items q'))"
  using pop_items [of q c q'] by simp

lemma pop_rest: "inv q \<Longrightarrow> items q \<noteq> {#} \<Longrightarrow> pop q = (c, q') \<Longrightarrow> x \<in># items q \<Longrightarrow> x \<noteq> c \<Longrightarrow> x \<in># items q'"
  using pop_items [of q c q'] by simp

lemma pop_mem: "inv q \<Longrightarrow> items q \<noteq> {#} \<Longrightarrow> pop q = (c, q') \<Longrightarrow> c \<in># items q \<and> (x \<in># items q' \<longrightarrow> x \<in># items q)"
  using pop_items [of q c q'] by simp

end

interpretation heap: cand_queue heap_inv mset heap_push heap_pop
proof
  fix q q' :: "bpeCandidate list" and c x
  show "heap_inv q \<Longrightarrow> c_prio c \<noteq> NaN \<Longrightarrow> heap_inv (heap_push q c)"
    and "heap_inv q \<Longrightarrow> c_prio c \<noteq> NaN \<Longrightarrow> mset (heap_push q c) = add_mset c (mset q)"
    by (simp_all add: heap_push_ok)
  assume q: "heap_inv q" "mset q \<noteq> {#}" "heap_pop q = (c, q')"
  then have "q \<noteq> []" by auto
  note p = heap_pop_ok [OF q(1) this q(3)]
  show "heap_inv q'" "mset q = add_mset c (mset q')" using p by simp_all
  show "x \<in># mset q \<Longrightarrow> cand_key c \<le> cand_key x" using p by (metis set_mset_mset)
qed

end
