(* ===== verification/Bpe_Merge.thy ===== *)
theory Bpe_Merge
  imports Bpe_Heap
begin

text \<open>
  The BPE merge loop of \<^verbatim>\<open>internal/tokenizer/tokenizer_merge.go\<close>, in its two forms: the linear scan
  and the candidate heap. The main result is that both perform the same merges in the same order, so
  the speed knob \<^verbatim>\<open>bpeScanMaxSymbols\<close> does not change any token sequence.

  Symbols stand in one slice and are linked by index. Both loops carry fuel: the scan performs at
  most one merge per symbol and walks at most the length of the slice, the heap loop pops at most
  three candidates per symbol.
\<close>

record bpeSymbol =
  bs_text :: string
  bs_id :: u32
  bs_prev :: int
  bs_next :: int
  bs_dead :: bool

type_synonym rating = "bpeSymbol \<Rightarrow> bpeSymbol \<Rightarrow> (float64 \<times> u32) option"
type_synonym joining = "bpeSymbol \<Rightarrow> bpeSymbol \<Rightarrow> u32 \<Rightarrow> string"

definition unrated :: "float64 \<Rightarrow> bool" where
  "unrated p \<longleftrightarrow> p = NaN \<or> p = PosInf"

text \<open>The merge both loops perform: extend the left symbol, unlink and kill the right one.\<close>

definition merge_pair :: "joining \<Rightarrow> bpeSymbol list \<Rightarrow> nat \<Rightarrow> nat \<Rightarrow> u32 \<Rightarrow> bpeSymbol list" where
  "merge_pair joined syms l r tid =
    (let nxt = bs_next (syms ! r);
         s1 = syms[l := (syms ! l)\<lparr>bs_text := joined (syms ! l) (syms ! r) tid, bs_id := tid, bs_next := nxt\<rparr>];
         s2 = (if nxt \<ge> 0 then s1[nat nxt := (s1 ! nat nxt)\<lparr>bs_prev := int l\<rparr>] else s1)
     in s2[r := (s2 ! r)\<lparr>bs_dead := True\<rparr>])"

section \<open>The scan\<close>

record best =
  b_prio :: float64
  b_left :: int
  b_right :: int
  b_id :: u32

fun scan_walk :: "nat \<Rightarrow> rating \<Rightarrow> bpeSymbol list \<Rightarrow> int \<Rightarrow> best \<Rightarrow> best" where
  "scan_walk 0 rate syms l b = b"
| "scan_walk (Suc f) rate syms l b =
    (if l < 0 then b
     else let r = bs_next (syms ! nat l) in
       if r < 0 then b
       else case rate (syms ! nat l) (syms ! nat r) of
           None \<Rightarrow> scan_walk f rate syms r b
         | Some (prio, tid) \<Rightarrow>
             (if unrated prio then scan_walk f rate syms r b
              else if fl_less prio (b_prio b)
              then scan_walk f rate syms r \<lparr>b_prio = prio, b_left = l, b_right = r, b_id = tid\<rparr>
              else scan_walk f rate syms r b))"

definition scan_best :: "rating \<Rightarrow> bpeSymbol list \<Rightarrow> best" where
  "scan_best rate syms =
     scan_walk (length syms) rate syms 0 \<lparr>b_prio = PosInf, b_left = - 1, b_right = - 1, b_id = 0\<rparr>"

fun scan_loop :: "nat \<Rightarrow> rating \<Rightarrow> joining \<Rightarrow> bpeSymbol list \<Rightarrow> bpeSymbol list" where
  "scan_loop 0 rate joined syms = syms"
| "scan_loop (Suc f) rate joined syms =
    (let b = scan_best rate syms in
     if b_left b < 0 then syms
     else scan_loop f rate joined (merge_pair joined syms (nat (b_left b)) (nat (b_right b)) (b_id b)))"

definition mergeBPESymbolsScan :: "rating \<Rightarrow> joining \<Rightarrow> bpeSymbol list \<Rightarrow> bpeSymbol list" where
  "mergeBPESymbolsScan rate joined syms = scan_loop (length syms) rate joined syms"

section \<open>The heap\<close>

definition consider_pair :: "rating \<Rightarrow> bpeSymbol list \<Rightarrow> bpeCandidate list \<Rightarrow> int \<Rightarrow> int \<Rightarrow> bpeCandidate list" where
  "consider_pair rate syms h l r =
    (if l < 0 \<or> r < 0 then h
     else case rate (syms ! nat l) (syms ! nat r) of
         None \<Rightarrow> h
       | Some (prio, tid) \<Rightarrow>
           (if unrated prio then h
            else heap_push h \<lparr>c_prio = prio, c_left = l, c_right = r, c_id = tid,
                   c_leftLen = length (bs_text (syms ! nat l)), c_rightLen = length (bs_text (syms ! nat r))\<rparr>))"

definition first_candidates :: "rating \<Rightarrow> bpeSymbol list \<Rightarrow> bpeCandidate list" where
  "first_candidates rate syms =
     foldl (\<lambda>h i. consider_pair rate syms h (int i) (bs_next (syms ! i))) [] [0..<length syms]"

definition stale :: "bpeSymbol list \<Rightarrow> bpeCandidate \<Rightarrow> bool" where
  "stale syms c \<longleftrightarrow> (let l = syms ! nat (c_left c); r = syms ! nat (c_right c) in
     bs_dead l \<or> bs_dead r \<or> bs_next l \<noteq> c_right c
     \<or> length (bs_text l) \<noteq> c_leftLen c \<or> length (bs_text r) \<noteq> c_rightLen c)"

fun heap_loop :: "nat \<Rightarrow> rating \<Rightarrow> joining \<Rightarrow> bpeSymbol list \<Rightarrow> bpeCandidate list \<Rightarrow> bpeSymbol list" where
  "heap_loop 0 rate joined syms h = syms"
| "heap_loop (Suc f) rate joined syms h =
    (if h = [] then syms
     else let (c, h) = heap_pop h in
       if stale syms c then heap_loop f rate joined syms h
       else let syms = merge_pair joined syms (nat (c_left c)) (nat (c_right c)) (c_id c);
                h = consider_pair rate syms h (bs_prev (syms ! nat (c_left c))) (c_left c);
                h = consider_pair rate syms h (c_left c) (bs_next (syms ! nat (c_left c)))
            in heap_loop f rate joined syms h)"

definition mergeBPESymbols :: "nat \<Rightarrow> rating \<Rightarrow> joining \<Rightarrow> bpeSymbol list \<Rightarrow> bpeSymbol list" where
  "mergeBPESymbols scanMax rate joined syms =
    (if length syms \<le> scanMax then mergeBPESymbolsScan rate joined syms
     else heap_loop (3 * length syms) rate joined syms (first_candidates rate syms))"

definition newBPESymbols :: "nat \<Rightarrow> bpeSymbol list" where
  "newBPESymbols n = map (\<lambda>i. \<lparr>bs_text = [], bs_id = 0, bs_prev = int i - 1,
     bs_next = (if Suc i = n then - 1 else int i + 1), bs_dead = False\<rparr>) [0..<n]"

section \<open>The linked list\<close>

text \<open>\<open>linked syms xs\<close>: the live symbols are those at the indices \<open>xs\<close>, in this order.\<close>

definition linked :: "bpeSymbol list \<Rightarrow> nat list \<Rightarrow> bool" where
  "linked syms xs \<longleftrightarrow> xs \<noteq> [] \<and> xs ! 0 = 0 \<and> sorted_wrt (<) xs \<and> (\<forall>x \<in> set xs. x < length syms)
     \<and> (\<forall>i < length syms. bs_dead (syms ! i) \<longleftrightarrow> i \<notin> set xs)
     \<and> (\<forall>k < length xs. bs_text (syms ! (xs ! k)) \<noteq> []
          \<and> bs_next (syms ! (xs ! k)) = (if Suc k < length xs then int (xs ! Suc k) else - 1)
          \<and> bs_prev (syms ! (xs ! k)) = (if k = 0 then - 1 else int (xs ! (k - 1))))"

lemma linked_less: "linked syms xs \<Longrightarrow> i < j \<Longrightarrow> j < length xs \<Longrightarrow> xs ! i < xs ! j"
  by (simp add: linked_def sorted_wrt_nth_less)

lemma linked_inj: "linked syms xs \<Longrightarrow> i < length xs \<Longrightarrow> j < length xs \<Longrightarrow> xs ! i = xs ! j \<longleftrightarrow> i = j"
  using linked_less [of syms xs i j] linked_less [of syms xs j i] by (metis less_irrefl linorder_neqE_nat)

lemma linkedD:
  assumes "linked syms xs" "k < length xs"
  shows "xs ! k < length syms" "\<not> bs_dead (syms ! (xs ! k))" "bs_text (syms ! (xs ! k)) \<noteq> []"
    "bs_next (syms ! (xs ! k)) = (if Suc k < length xs then int (xs ! Suc k) else - 1)"
    "bs_prev (syms ! (xs ! k)) = (if k = 0 then - 1 else int (xs ! (k - 1)))"
  using assms by (simp_all add: linked_def)

lemma linked_length: "linked syms xs \<Longrightarrow> length xs \<le> length syms"
proof -
  assume l: "linked syms xs"
  then have "distinct xs" by (auto simp: linked_def distinct_conv_nth dest: linked_inj [OF l])
  moreover have "set xs \<subseteq> {..<length syms}" using l by (auto simp: linked_def)
  ultimately show ?thesis
    using card_mono [of "{..<length syms}" "set xs"] by (simp add: distinct_card)
qed

definition unlink :: "nat list \<Rightarrow> nat \<Rightarrow> nat list" where
  "unlink xs k = take (Suc k) xs @ drop (k + 2) xs"

lemma length_unlink: "Suc k < length xs \<Longrightarrow> length (unlink xs k) = length xs - 1"
  by (simp add: unlink_def)

lemma nth_unlink: "Suc k < length xs \<Longrightarrow> j < length xs - 1 \<Longrightarrow> unlink xs k ! j = (if j \<le> k then xs ! j else xs ! Suc j)"
  by (auto simp: unlink_def nth_append)

lemma set_unlink:
  assumes "linked syms xs" "Suc k < length xs"
  shows "set (unlink xs k) = set xs - {xs ! Suc k}"
proof -
  have "xs = take (Suc k) xs @ xs ! Suc k # drop (k + 2) xs"
    using assms(2) id_take_nth_drop [of "Suc k" xs] by simp
  moreover have "distinct xs"
    using assms(1) by (auto simp: linked_def distinct_conv_nth dest: linked_inj [OF assms(1)])
  ultimately have "set xs = set (unlink xs k) \<union> {xs ! Suc k}" "xs ! Suc k \<notin> set (unlink xs k)"
    unfolding unlink_def by (metis Un_insert_right list.simps(15) set_append sup_bot_right insert_is_Un sup_commute,
        metis distinct_append distinct.simps(2) Un_iff set_append disjoint_iff list.set_intros(1))
  then show ?thesis by auto
qed

section \<open>One merge\<close>

lemma length_merge_pair [simp]: "length (merge_pair joined syms l r t) = length syms"
  by (simp add: merge_pair_def Let_def)

lemma update_at: "x < length xs \<Longrightarrow> xs[i := y] ! x = (if i = x then y else xs ! x)"
  by (cases "i = x") simp_all

lemma nat_eq_at: "0 \<le> a \<Longrightarrow> nat a = x \<longleftrightarrow> a = int x"
  by auto

lemma merge_pair_nth:
  assumes "l < length syms" "r < length syms" "l \<noteq> r" "x < length syms"
  shows "bs_text (merge_pair joined syms l r t ! x) = (if x = l then joined (syms ! l) (syms ! r) t else bs_text (syms ! x))"
    and "bs_id (merge_pair joined syms l r t ! x) = (if x = l then t else bs_id (syms ! x))"
    and "bs_next (merge_pair joined syms l r t ! x) = (if x = l then bs_next (syms ! r) else bs_next (syms ! x))"
    and "bs_prev (merge_pair joined syms l r t ! x) = (if bs_next (syms ! r) = int x then int l else bs_prev (syms ! x))"
    and "bs_dead (merge_pair joined syms l r t ! x) = (x = r \<or> bs_dead (syms ! x))"
proof -
  have n: "a \<noteq> int x" if "\<not> 0 \<le> a" for a using that by simp
  let ?N = "bs_next (syms ! r)"
  let ?v = "(syms ! l)\<lparr>bs_text := joined (syms ! l) (syms ! r) t, bs_id := t, bs_next := ?N\<rparr>"
  have m: "merge_pair joined syms l r t ! x =
     (let y = (if x = l then ?v else syms ! x); z = (if ?N = int x then y\<lparr>bs_prev := int l\<rparr> else y)
      in if x = r then z\<lparr>bs_dead := True\<rparr> else z)"
  proof (cases "0 \<le> ?N")
    case True
    then show ?thesis using assms by (simp add: merge_pair_def Let_def update_at nat_eq_at)
  next
    case False
    then show ?thesis using assms n [OF False] by (simp add: merge_pair_def Let_def update_at)
  qed
  show "bs_text (merge_pair joined syms l r t ! x) = (if x = l then joined (syms ! l) (syms ! r) t else bs_text (syms ! x))"
    "bs_id (merge_pair joined syms l r t ! x) = (if x = l then t else bs_id (syms ! x))"
    "bs_next (merge_pair joined syms l r t ! x) = (if x = l then bs_next (syms ! r) else bs_next (syms ! x))"
    "bs_prev (merge_pair joined syms l r t ! x) = (if bs_next (syms ! r) = int x then int l else bs_prev (syms ! x))"
    "bs_dead (merge_pair joined syms l r t ! x) = (x = r \<or> bs_dead (syms ! x))"
    unfolding m Let_def using assms(3) by simp_all
qed

lemma linked_merge:
  assumes l: "linked syms xs" and k: "Suc k < length xs"
    and j: "joined (syms ! (xs ! k)) (syms ! (xs ! Suc k)) t \<noteq> []"
  shows "linked (merge_pair joined syms (xs ! k) (xs ! Suc k) t) (unlink xs k)"
proof -
  let ?l = "xs ! k" and ?r = "xs ! Suc k" and ?m = "merge_pair joined syms (xs ! k) (xs ! Suc k) t" and ?u = "unlink xs k"
  have lr: "?l < length syms" "?r < length syms" "?l \<noteq> ?r"
  proof -
    show "?l < length syms" by (rule linkedD(1) [OF l]) (use k in simp)
    show "?r < length syms" by (rule linkedD(1) [OF l k])
    show "?l \<noteq> ?r" using linked_less [OF l lessI k] by simp
  qed
  note f = merge_pair_nth [OF lr, of _ joined t]
  have len: "length ?u = length xs - 1" by (rule length_unlink [OF k])
  have nr: "bs_next (syms ! ?r) = (if Suc (Suc k) < length xs then int (xs ! Suc (Suc k)) else - 1)"
    using linkedD(4) [OF l k] by simp
  have su: "set ?u = set xs - {?r}" by (rule set_unlink [OF l k])
  have nth: "?u ! i = (if i \<le> k then xs ! i else xs ! Suc i)" if "i < length xs - 1" for i
    by (rule nth_unlink [OF k that])
  show ?thesis
    unfolding linked_def
  proof (intro conjI allI impI)
    show "?u \<noteq> []" using len k by auto
    show "?u ! 0 = 0" using nth [of 0] k l by (simp add: linked_def)
    show "sorted_wrt (<) ?u"
      unfolding sorted_wrt_iff_nth_less
    proof (intro allI impI)
      fix a b assume ab: "a < b" "b < length ?u"
      then show "?u ! a < ?u ! b"
        using linked_less [OF l, of a b] linked_less [OF l, of a "Suc b"] linked_less [OF l, of "Suc a" "Suc b"] len
        by (auto simp: nth)
    qed
    show "\<forall>x \<in> set ?u. x < length ?m" using l su by (auto simp: linked_def)
    fix i assume "i < length ?m"
    then show "bs_dead (?m ! i) \<longleftrightarrow> i \<notin> set ?u" using l su f(5) by (auto simp: linked_def)
  next
    fix i assume i: "i < length ?u"
    then have i1: "i < length xs - 1" using len by simp
    define a where "a = (if i \<le> k then i else Suc i)"
    have a: "a < length xs" "?u ! i = xs ! a" "a \<noteq> Suc k" using i1 k by (auto simp: a_def nth)
    have xa: "xs ! a < length syms" by (rule linkedD(1) [OF l a(1)])
    have inj: "xs ! b = xs ! c \<longleftrightarrow> b = c" if "b < length xs" "c < length xs" for b c
      using linked_inj [OF l that] .
    show "bs_text (?m ! (?u ! i)) \<noteq> []"
      using linkedD(3) [OF l a(1)] j unfolding a(2) f(1) [OF xa] by simp
    have ui: "?u ! i = xs ! a" by (rule a(2))
    have nxt: "bs_next (?m ! (?u ! i)) = (if a = k then bs_next (syms ! ?r) else bs_next (syms ! (xs ! a)))"
      unfolding ui f(3) [OF xa] using inj [OF a(1), of k] k by simp
    have uS: "?u ! Suc i = (if Suc i \<le> k then xs ! Suc i else xs ! Suc (Suc i))" if "Suc i < length xs - 1"
      by (rule nth [OF that])
    show "bs_next (?m ! (?u ! i)) = (if Suc i < length ?u then int (?u ! Suc i) else - 1)"
    proof (cases "Suc i < length xs - 1")
      case True
      then show ?thesis unfolding nxt nr linkedD(4) [OF l a(1)] len using uS k by (auto simp: a_def)
    next
      case False
      then have "length xs = Suc (Suc i)" using i1 by simp
      then show ?thesis unfolding nxt nr linkedD(4) [OF l a(1)] len using k by (auto simp: a_def)
    qed
    have prv: "bs_prev (?m ! (?u ! i)) = (if a = Suc (Suc k) then int ?l else bs_prev (syms ! (xs ! a)))"
    proof (cases "Suc (Suc k) < length xs")
      case True
      then show ?thesis unfolding ui f(4) [OF xa] nr using inj [OF _ a(1), of "Suc (Suc k)"] by auto
    next
      case False
      then show ?thesis unfolding ui f(4) [OF xa] nr using a(1) by auto
    qed
    have uP: "?u ! (i - 1) = (if i - 1 \<le> k then xs ! (i - 1) else xs ! Suc (i - 1))"
      by (rule nth) (use i1 in simp)
    show "bs_prev (?m ! (?u ! i)) = (if i = 0 then - 1 else int (?u ! (i - 1)))"
    proof (cases "i \<le> k")
      case True
      then show ?thesis unfolding prv uP linkedD(5) [OF l a(1)] using a(1) by (auto simp: a_def)
    next
      case False
      then show ?thesis unfolding prv uP linkedD(5) [OF l a(1)] using a(1) by (cases i) (auto simp: a_def)
    qed
  qed
qed

section \<open>The specification of the merge loop\<close>

definition pair_rate :: "rating \<Rightarrow> bpeSymbol list \<Rightarrow> nat list \<Rightarrow> nat \<Rightarrow> (float64 \<times> u32) option" where
  "pair_rate rate syms xs k = (case rate (syms ! (xs ! k)) (syms ! (xs ! Suc k)) of
     None \<Rightarrow> None | Some (p, t) \<Rightarrow> if unrated p then None else Some (p, t))"

text \<open>The best pair: no pair is rated better, and none to its left is rated as good.\<close>

definition best_at :: "rating \<Rightarrow> bpeSymbol list \<Rightarrow> nat list \<Rightarrow> nat \<Rightarrow> float64 \<Rightarrow> u32 \<Rightarrow> bool" where
  "best_at rate syms xs k p t \<longleftrightarrow> Suc k < length xs \<and> pair_rate rate syms xs k = Some (p, t)
     \<and> (\<forall>j q u. Suc j < length xs \<longrightarrow> pair_rate rate syms xs j = Some (q, u) \<longrightarrow>
          \<not> fl_less q p \<and> (j < k \<longrightarrow> fl_less p q))"

inductive merged :: "rating \<Rightarrow> joining \<Rightarrow> bpeSymbol list \<Rightarrow> nat list \<Rightarrow> bpeSymbol list \<Rightarrow> nat list \<Rightarrow> bool"
  for rate joined where
  merged_stop: "(\<And>k. Suc k < length xs \<Longrightarrow> pair_rate rate syms xs k = None) \<Longrightarrow> merged rate joined syms xs syms xs"
| merged_step: "best_at rate syms xs k p t \<Longrightarrow>
    merged rate joined (merge_pair joined syms (xs ! k) (xs ! Suc k) t) (unlink xs k) syms' xs' \<Longrightarrow>
    merged rate joined syms xs syms' xs'"

lemma pair_rate_rated: "pair_rate rate syms xs k = Some (p, t) \<Longrightarrow> \<not> unrated p"
  by (auto simp: pair_rate_def split: option.splits if_splits)

lemma fl_less_irrefl [simp]: "\<not> fl_less a a"
  by (cases a) simp_all

lemma fl_total: "\<not> unrated a \<Longrightarrow> \<not> unrated b \<Longrightarrow> fl_less a b \<or> a = b \<or> fl_less b a"
  by (cases a; cases b) (auto simp: unrated_def)

lemma best_at_unique: "best_at rate syms xs k p t \<Longrightarrow> best_at rate syms xs k' p' t' \<Longrightarrow> k = k' \<and> p = p' \<and> t = t'"
proof -
  assume a: "best_at rate syms xs k p t" and b: "best_at rate syms xs k' p' t'"
  have "\<not> k < k'" "\<not> k' < k" using a b unfolding best_at_def by blast+
  then show ?thesis using a b by (auto simp: best_at_def)
qed

lemma merged_deterministic:
  "merged rate joined syms xs s1 x1 \<Longrightarrow> merged rate joined syms xs s2 x2 \<Longrightarrow> s1 = s2 \<and> x1 = x2"
proof (induction arbitrary: s2 x2 rule: merged.induct)
  case (merged_stop xs syms)
  from merged_stop(2) show ?case
    by cases (use merged_stop(1) in \<open>auto simp: best_at_def\<close>)
next
  case (merged_step syms xs k p t syms' xs')
  note IH = merged_step(3)
  from merged_step(4) show ?case
  proof cases
    case merged_stop
    then show ?thesis using merged_step(1) by (auto simp: best_at_def)
  next
    case (merged_step k' p' t')
    then have "k' = k" "t' = t" using best_at_unique [OF \<open>best_at rate syms xs k p t\<close>] by blast+
    then show ?thesis using IH merged_step(2) by blast
  qed
qed

section \<open>The scan performs the specified merges\<close>

definition best_upto :: "rating \<Rightarrow> bpeSymbol list \<Rightarrow> nat list \<Rightarrow> nat \<Rightarrow> best \<Rightarrow> bool" where
  "best_upto rate syms xs k b \<longleftrightarrow>
     (b_left b < 0 \<and> b_prio b = PosInf \<and> (\<forall>j < k. pair_rate rate syms xs j = None)) \<or>
     (\<exists>i < k. pair_rate rate syms xs i = Some (b_prio b, b_id b) \<and> b_left b = int (xs ! i) \<and> b_right b = int (xs ! Suc i)
        \<and> (\<forall>j q u. j < k \<longrightarrow> pair_rate rate syms xs j = Some (q, u) \<longrightarrow>
              \<not> fl_less q (b_prio b) \<and> (j < i \<longrightarrow> fl_less (b_prio b) q)))"

lemma fl_less_le_trans: "fl_less p b \<Longrightarrow> \<not> fl_less q b \<Longrightarrow> \<not> unrated q \<Longrightarrow> fl_less p q"
  by (cases p; cases b; cases q) (auto simp: unrated_def)

lemma fl_less_asym: "fl_less p q \<Longrightarrow> \<not> fl_less q p"
  by (cases p; cases q) auto

lemma fl_less_PosInf: "\<not> unrated p \<Longrightarrow> fl_less p PosInf"
  by (cases p) (auto simp: unrated_def)

lemma best_upto_skip: "best_upto rate syms xs k b \<Longrightarrow> pair_rate rate syms xs k = None \<Longrightarrow> best_upto rate syms xs (Suc k) b"
  unfolding best_upto_def by (auto simp: less_Suc_eq)

lemma best_upto_keep:
  assumes "best_upto rate syms xs k b" "pair_rate rate syms xs k = Some (p, t)" "\<not> fl_less p (b_prio b)"
  shows "best_upto rate syms xs (Suc k) b"
proof -
  have "fl_less p PosInf" using fl_less_PosInf pair_rate_rated [OF assms(2)] by blast
  then have "b_prio b \<noteq> PosInf" using assms(3) by auto
  then obtain i where i: "i < k" "pair_rate rate syms xs i = Some (b_prio b, b_id b)" "b_left b = int (xs ! i)" "b_right b = int (xs ! Suc i)"
      "\<forall>j q u. j < k \<longrightarrow> pair_rate rate syms xs j = Some (q, u) \<longrightarrow> \<not> fl_less q (b_prio b) \<and> (j < i \<longrightarrow> fl_less (b_prio b) q)"
    using assms(1) unfolding best_upto_def by blast
  have "\<forall>j q u. j < Suc k \<longrightarrow> pair_rate rate syms xs j = Some (q, u) \<longrightarrow> \<not> fl_less q (b_prio b) \<and> (j < i \<longrightarrow> fl_less (b_prio b) q)"
    using i(1,5) assms(2,3) by (auto simp: less_Suc_eq)
  then show ?thesis using i(1-4) less_SucI unfolding best_upto_def by blast
qed

lemma best_upto_take:
  assumes "best_upto rate syms xs k b" "pair_rate rate syms xs k = Some (p, t)" "fl_less p (b_prio b)"
  shows "best_upto rate syms xs (Suc k) \<lparr>b_prio = p, b_left = int (xs ! k), b_right = int (xs ! Suc k), b_id = t\<rparr>"
proof -
  have "fl_less p q" if "j < k" "pair_rate rate syms xs j = Some (q, u)" for j q u
  proof -
    have "\<not> fl_less q (b_prio b)" using assms(1) that unfolding best_upto_def by auto
    then show ?thesis by (rule fl_less_le_trans [OF assms(3) _ pair_rate_rated [OF that(2)]])
  qed
  then show ?thesis using assms(2) fl_less_asym unfolding best_upto_def by (auto simp: less_Suc_eq)
qed

lemma scan_walk_best:
  assumes l: "linked syms xs"
  shows "k < length xs \<Longrightarrow> length xs \<le> k + f \<Longrightarrow> best_upto rate syms xs k b \<Longrightarrow>
    best_upto rate syms xs (length xs - 1) (scan_walk f rate syms (int (xs ! k)) b)"
proof (induction f arbitrary: k b)
  case 0
  then show ?case by simp
next
  case (Suc f)
  show ?case
  proof (cases "Suc k < length xs")
    case False
    then have "bs_next (syms ! (xs ! k)) = - 1" "k = length xs - 1"
      using linkedD(4) [OF l Suc.prems(1)] Suc.prems(1) by auto
    then show ?thesis using Suc.prems(3) by simp
  next
    case True
    have nx: "bs_next (syms ! (xs ! k)) = int (xs ! Suc k)" using linkedD(4) [OF l Suc.prems(1)] True by simp
    have step: "scan_walk (Suc f) rate syms (int (xs ! k)) b =
       (case pair_rate rate syms xs k of None \<Rightarrow> scan_walk f rate syms (int (xs ! Suc k)) b
        | Some (p, t) \<Rightarrow> if fl_less p (b_prio b)
            then scan_walk f rate syms (int (xs ! Suc k)) \<lparr>b_prio = p, b_left = int (xs ! k), b_right = int (xs ! Suc k), b_id = t\<rparr>
            else scan_walk f rate syms (int (xs ! Suc k)) b)"
      by (cases "rate (syms ! (xs ! k)) (syms ! (xs ! Suc k))") (auto simp: nx pair_rate_def Let_def)
    have f: "length xs \<le> Suc k + f" using Suc.prems(2) by simp
    show ?thesis
    proof (cases "pair_rate rate syms xs k")
      case None
      then show ?thesis unfolding step using Suc.IH [OF True f best_upto_skip [OF Suc.prems(3) None]] by simp
    next
      case (Some pt)
      obtain p t where pt: "pair_rate rate syms xs k = Some (p, t)" using Some by (cases pt) simp
      show ?thesis
        unfolding step pt
        using Suc.IH [OF True f best_upto_take [OF Suc.prems(3) pt]] Suc.IH [OF True f best_upto_keep [OF Suc.prems(3) pt]]
        by simp
    qed
  qed
qed

lemma scan_best_ok:
  assumes l: "linked syms xs"
  shows "if b_left (scan_best rate syms) < 0 then \<forall>k. Suc k < length xs \<longrightarrow> pair_rate rate syms xs k = None
    else \<exists>k. best_at rate syms xs k (b_prio (scan_best rate syms)) (b_id (scan_best rate syms))
      \<and> nat (b_left (scan_best rate syms)) = xs ! k \<and> nat (b_right (scan_best rate syms)) = xs ! Suc k"
proof -
  have x0: "xs ! 0 = 0" "0 < length xs" using l by (simp_all add: linked_def)
  have b: "best_upto rate syms xs (length xs - 1) (scan_best rate syms)"
    using scan_walk_best [OF l x0(2), of "length syms"] linked_length [OF l] x0
    by (simp add: scan_best_def best_upto_def)
  have idx: "k < length xs - 1 \<longleftrightarrow> Suc k < length xs" for k by auto
  show ?thesis
    using b unfolding best_upto_def best_at_def idx by auto
qed

text \<open>
  The class of ratings the callers use: \<open>R\<close> looks at the two texts only, and merging a rated pair
  concatenates them.
\<close>

definition text_rating :: "(string \<Rightarrow> string \<Rightarrow> (float64 \<times> u32) option) \<Rightarrow> rating" where
  "text_rating R = (\<lambda>l r. R (bs_text l) (bs_text r))"

definition joins :: "rating \<Rightarrow> joining \<Rightarrow> bool" where
  "joins rate joined \<longleftrightarrow> (\<forall>l r p t. rate l r = Some (p, t) \<longrightarrow> joined l r t = bs_text l @ bs_text r)"

lemma best_at_joined:
  assumes "joins rate joined" "best_at rate syms xs k p t"
  shows "joined (syms ! (xs ! k)) (syms ! (xs ! Suc k)) t = bs_text (syms ! (xs ! k)) @ bs_text (syms ! (xs ! Suc k))"
  using assms by (auto simp: joins_def best_at_def pair_rate_def split: option.splits if_splits)

lemma linked_best:
  assumes "linked syms xs" "joins rate joined" "best_at rate syms xs k p t"
  shows "linked (merge_pair joined syms (xs ! k) (xs ! Suc k) t) (unlink xs k)"
    and "length (unlink xs k) = length xs - 1" "Suc k < length xs"
proof -
  show k: "Suc k < length xs" using assms(3) by (simp add: best_at_def)
  show "length (unlink xs k) = length xs - 1" by (rule length_unlink [OF k])
  show "linked (merge_pair joined syms (xs ! k) (xs ! Suc k) t) (unlink xs k)"
    by (rule linked_merge [OF assms(1) k])
      (simp add: best_at_joined [OF assms(2,3)] linkedD(3) [OF assms(1) k])
qed

lemma scan_loop_merged:
  assumes "joins rate joined"
  shows "linked syms xs \<Longrightarrow> length xs \<le> Suc f \<Longrightarrow>
    \<exists>xs'. merged rate joined syms xs (scan_loop f rate joined syms) xs' \<and> linked (scan_loop f rate joined syms) xs'"
proof (induction f arbitrary: syms xs)
  case 0
  then have "merged rate joined syms xs syms xs" by (intro merged_stop) simp
  then show ?case using 0 by auto
next
  case (Suc f)
  let ?b = "scan_best rate syms"
  show ?case
  proof (cases "b_left ?b < 0")
    case True
    then have "merged rate joined syms xs syms xs" using scan_best_ok [OF Suc.prems(1), of rate] by (intro merged_stop) simp
    then show ?thesis using True Suc.prems(1) by (auto simp: Let_def)
  next
    case False
    then obtain k where k: "best_at rate syms xs k (b_prio ?b) (b_id ?b)" "nat (b_left ?b) = xs ! k" "nat (b_right ?b) = xs ! Suc k"
      using scan_best_ok [OF Suc.prems(1), of rate] by auto
    note m = linked_best [OF Suc.prems(1) assms k(1)]
    have "length (unlink xs k) \<le> Suc f" using m(2,3) Suc.prems(2) by simp
    from Suc.IH [OF m(1) this] show ?thesis
      using False k merged_step [OF k(1)] by (auto simp: Let_def)
  qed
qed

section \<open>The heap performs the same merges\<close>

definition current_cand :: "bpeSymbol list \<Rightarrow> nat list \<Rightarrow> nat \<Rightarrow> float64 \<Rightarrow> u32 \<Rightarrow> bpeCandidate" where
  "current_cand syms xs k p t = \<lparr>c_prio = p, c_left = int (xs ! k), c_right = int (xs ! Suc k), c_id = t,
     c_leftLen = length (bs_text (syms ! (xs ! k))), c_rightLen = length (bs_text (syms ! (xs ! Suc k)))\<rparr>"

definition current_set :: "rating \<Rightarrow> bpeSymbol list \<Rightarrow> nat list \<Rightarrow> nat \<Rightarrow> bpeCandidate set" where
  "current_set rate syms xs k =
     (case pair_rate rate syms xs k of None \<Rightarrow> {} | Some (p, t) \<Rightarrow> {current_cand syms xs k p t})"

text \<open>What a queued candidate remembers was true of a prefix of its symbols' texts.\<close>

definition cand_ok :: "(string \<Rightarrow> string \<Rightarrow> (float64 \<times> u32) option) \<Rightarrow> bpeSymbol list \<Rightarrow> bpeCandidate \<Rightarrow> bool" where
  "cand_ok R syms c \<longleftrightarrow> \<not> unrated (c_prio c) \<and> (\<exists>x y. c_left c = int x \<and> c_right c = int y
     \<and> x < length syms \<and> y < length syms
     \<and> R (take (c_leftLen c) (bs_text (syms ! x))) (take (c_rightLen c) (bs_text (syms ! y))) = Some (c_prio c, c_id c)
     \<and> c_leftLen c \<le> length (bs_text (syms ! x)) \<and> c_rightLen c \<le> length (bs_text (syms ! y)))"

definition heap_covers :: "(string \<Rightarrow> string \<Rightarrow> (float64 \<times> u32) option) \<Rightarrow> bpeSymbol list \<Rightarrow> nat list \<Rightarrow> bpeCandidate list \<Rightarrow> bool" where
  "heap_covers R syms xs h \<longleftrightarrow> heap_inv h \<and> (\<forall>c \<in> set h. cand_ok R syms c)
     \<and> (\<forall>k. Suc k < length xs \<longrightarrow> current_set (text_rating R) syms xs k \<subseteq> set h)"

lemma consider_live:
  assumes "linked syms xs" "Suc k < length xs" "heap_inv h"
  shows "heap_inv (consider_pair rate syms h (int (xs ! k)) (int (xs ! Suc k)))
    \<and> set (consider_pair rate syms h (int (xs ! k)) (int (xs ! Suc k))) = set h \<union> current_set rate syms xs k
    \<and> length (consider_pair rate syms h (int (xs ! k)) (int (xs ! Suc k))) \<le> Suc (length h)"
proof (cases "pair_rate rate syms xs k")
  case None
  then have "consider_pair rate syms h (int (xs ! k)) (int (xs ! Suc k)) = h"
    by (auto simp: consider_pair_def pair_rate_def split: option.splits if_splits)
  then show ?thesis using assms(3) None by (simp add: current_set_def)
next
  case (Some pt)
  obtain p t where pt: "pair_rate rate syms xs k = Some (p, t)" using Some by (cases pt) simp
  have c: "consider_pair rate syms h (int (xs ! k)) (int (xs ! Suc k)) = heap_push h (current_cand syms xs k p t)"
    using pt by (auto simp: consider_pair_def pair_rate_def current_cand_def split: option.splits if_splits)
  have nn: "c_prio (current_cand syms xs k p t) \<noteq> NaN"
    using pair_rate_rated [OF pt] by (simp add: current_cand_def unrated_def)
  note pi = heap.push_inv [OF assms(3) nn] and pm = heap.push_items [OF assms(3) nn]
  have "set (heap_push h (current_cand syms xs k p t)) = insert (current_cand syms xs k p t) (set h)"
    using pm by (metis set_mset_add_mset_insert set_mset_mset)
  moreover have "length (heap_push h (current_cand syms xs k p t)) = Suc (length h)"
    using pm by (metis size_add_mset size_mset)
  ultimately show ?thesis using pi pt by (simp add: c current_set_def)
qed

lemma consider_none [simp]: "consider_pair rate syms h (- 1) r = h" "consider_pair rate syms h l (- 1) = h"
  by (simp_all add: consider_pair_def)

lemma current_not_stale:
  assumes "linked syms xs" "Suc k < length xs" "c \<in> current_set rate syms xs k"
  shows "\<not> stale syms c"
  using assms(3) linkedD [OF assms(1), of k] linkedD [OF assms(1,2)] assms(2)
  by (auto simp: current_set_def stale_def current_cand_def Let_def split: option.splits prod.splits)

lemma current_ok:
  assumes "linked syms xs" "Suc k < length xs" "c \<in> current_set (text_rating R) syms xs k"
  shows "cand_ok R syms c"
proof -
  obtain p t where pt: "pair_rate (text_rating R) syms xs k = Some (p, t)" "c = current_cand syms xs k p t"
    using assms(3) by (auto simp: current_set_def split: option.splits)
  have "R (bs_text (syms ! (xs ! k))) (bs_text (syms ! (xs ! Suc k))) = Some (p, t)"
    using pt(1) by (auto simp: pair_rate_def text_rating_def split: option.splits if_splits)
  then show ?thesis
    using pair_rate_rated [OF pt(1)] linkedD(1) [OF assms(1), of k] linkedD(1) [OF assms(1,2)] assms(2)
    by (auto simp: cand_ok_def pt(2) current_cand_def)
qed

lemma fresh_current:
  assumes l: "linked syms xs" and ok: "cand_ok R syms c" and st: "\<not> stale syms c"
  shows "\<exists>k. Suc k < length xs \<and> c = current_cand syms xs k (c_prio c) (c_id c)
    \<and> pair_rate (text_rating R) syms xs k = Some (c_prio c, c_id c)"
proof -
  obtain x y where xy: "c_left c = int x" "c_right c = int y" "x < length syms" "y < length syms"
      "R (take (c_leftLen c) (bs_text (syms ! x))) (take (c_rightLen c) (bs_text (syms ! y))) = Some (c_prio c, c_id c)"
    and nu: "\<not> unrated (c_prio c)"
    using ok by (auto simp: cand_ok_def)
  have f: "\<not> bs_dead (syms ! x)" "bs_next (syms ! x) = int y" "length (bs_text (syms ! x)) = c_leftLen c"
      "length (bs_text (syms ! y)) = c_rightLen c"
    using st xy by (auto simp: stale_def Let_def)
  have "x \<in> set xs" using l f(1) xy(3) by (auto simp: linked_def)
  then obtain k where k: "k < length xs" "x = xs ! k" by (metis in_set_conv_nth)
  have sk: "Suc k < length xs" "y = xs ! Suc k"
    using linkedD(4) [OF l k(1)] f(2) k(2) by (auto split: if_splits)
  have "pair_rate (text_rating R) syms xs k = Some (c_prio c, c_id c)"
    using xy(5) f(3,4) nu k(2) sk(2) by (simp add: pair_rate_def text_rating_def)
  moreover have "c = current_cand syms xs k (c_prio c) (c_id c)"
    using xy(1,2) f(3,4) k(2) sk(2) by (simp add: current_cand_def)
  ultimately show ?thesis using sk(1) by blast
qed

lemma least_is_best:
  assumes l: "linked syms xs" and cov: "heap_covers R syms xs h"
    and k: "Suc k < length xs" "pair_rate (text_rating R) syms xs k = Some (p, t)"
    and least: "\<And>x. x \<in> set h \<Longrightarrow> cand_key (current_cand syms xs k p t) \<le> cand_key x"
  shows "best_at (text_rating R) syms xs k p t"
  unfolding best_at_def
proof (intro conjI allI impI)
  show "Suc k < length xs" "pair_rate (text_rating R) syms xs k = Some (p, t)" by (fact k)+
  fix j q u assume j: "Suc j < length xs" "pair_rate (text_rating R) syms xs j = Some (q, u)"
  have "current_cand syms xs j q u \<in> set h"
    using cov j by (auto simp: heap_covers_def current_set_def)
  from least [OF this] have key: "(fl_key p, int (xs ! k)) \<le> (fl_key q, int (xs ! j))"
    by (simp add: cand_key_def current_cand_def)
  have nn: "p \<noteq> NaN" "q \<noteq> NaN"
    using pair_rate_rated [OF k(2)] pair_rate_rated [OF j(2)] by (auto simp: unrated_def)
  show "\<not> fl_less q p" using key by (auto simp: fl_less_key nn)
  assume "j < k"
  then have "xs ! j < xs ! k" using linked_less [OF l] k(1) by simp
  then show "fl_less p q" using key by (auto simp: fl_less_key nn)
qed

lemma cand_ok_merge:
  assumes "cand_ok R syms c" "l < length syms" "r < length syms" "l \<noteq> r"
    "joined (syms ! l) (syms ! r) t = bs_text (syms ! l) @ bs_text (syms ! r)"
  shows "cand_ok R (merge_pair joined syms l r t) c"
proof -
  note f = merge_pair_nth(1) [OF assms(2-4), of _ joined t]
  have "\<exists>z. bs_text (merge_pair joined syms l r t ! x) = bs_text (syms ! x) @ z" if "x < length syms" for x
    using assms(5) by (simp add: f [OF that])
  then have g: "n \<le> length (bs_text (syms ! x)) \<Longrightarrow>
      take n (bs_text (merge_pair joined syms l r t ! x)) = take n (bs_text (syms ! x))
      \<and> n \<le> length (bs_text (merge_pair joined syms l r t ! x))" if "x < length syms" for x n
    using that by fastforce
  show ?thesis using assms(1) g unfolding cand_ok_def by (metis length_merge_pair)
qed

lemma current_set_cong:
  assumes "xs ! k = ys ! j" "xs ! Suc k = ys ! Suc j"
    "bs_text (syms ! (xs ! k)) = bs_text (syms' ! (xs ! k))"
    "bs_text (syms ! (xs ! Suc k)) = bs_text (syms' ! (xs ! Suc k))"
  shows "current_set (text_rating R) syms xs k = current_set (text_rating R) syms' ys j"
proof -
  have "current_cand syms xs k = current_cand syms' ys j"
    using assms by (intro ext) (simp add: current_cand_def)
  moreover have "pair_rate (text_rating R) syms xs k = pair_rate (text_rating R) syms' ys j"
    using assms by (simp add: pair_rate_def text_rating_def)
  ultimately show ?thesis by (simp only: current_set_def)
qed

lemma current_set_left: "c \<in> current_set rate syms xs k \<Longrightarrow> c_left c = int (xs ! k)"
  by (auto simp: current_set_def current_cand_def split: option.splits)

text \<open>The pairs of the merged list that did not touch the two merged symbols.\<close>

lemma unlink_pair:
  assumes l: "linked syms xs" and k: "Suc k < length xs"
    and jn: "joined (syms ! (xs ! k)) (syms ! (xs ! Suc k)) t = bs_text (syms ! (xs ! k)) @ bs_text (syms ! (xs ! Suc k))"
    and j: "Suc j < length (unlink xs k)" "j \<noteq> k" "Suc j \<noteq> k"
  shows "\<exists>i. Suc i < length xs \<and> i \<noteq> k \<and> current_set (text_rating R)
      (merge_pair joined syms (xs ! k) (xs ! Suc k) t) (unlink xs k) j = current_set (text_rating R) syms xs i"
proof -
  let ?m = "merge_pair joined syms (xs ! k) (xs ! Suc k) t"
  define i where "i = (if j < k then j else Suc j)"
  have len: "Suc j < length xs - 1" using j(1) by (simp add: length_unlink [OF k])
  have i: "Suc i < length xs" "i \<noteq> k" "Suc i \<noteq> k" using len j by (auto simp: i_def)
  have u: "unlink xs k ! j = xs ! i" "unlink xs k ! Suc j = xs ! Suc i"
    using nth_unlink [OF k, of j] nth_unlink [OF k, of "Suc j"] len j by (auto simp: i_def)
  have lr: "xs ! k < length syms" "xs ! Suc k < length syms" "xs ! k \<noteq> xs ! Suc k"
    using linkedD(1) [OF l, of k] linkedD(1) [OF l k] linked_less [OF l lessI k] k by simp_all
  have t: "bs_text (?m ! (xs ! a)) = bs_text (syms ! (xs ! a))" if "a < length xs" "a \<noteq> k" for a
  proof -
    have "xs ! a \<noteq> xs ! k" using linked_inj [OF l that(1), of k] k that(2) by simp
    then show ?thesis using merge_pair_nth(1) [OF lr linkedD(1) [OF l that(1)], of joined t] by simp
  qed
  have "current_set (text_rating R) ?m (unlink xs k) j = current_set (text_rating R) syms xs i"
    by (rule current_set_cong) (use u i t in simp_all)
  then show ?thesis using i by blast
qed

lemma heap_step:
  assumes l: "linked syms xs" and cov: "heap_covers R syms xs h" and h: "h \<noteq> []" "heap_pop h = (c, h')"
    and jn: "joins (text_rating R) joined" and fresh: "\<not> stale syms c"
    and m: "m = merge_pair joined syms (nat (c_left c)) (nat (c_right c)) (c_id c)"
    and h1: "h1 = consider_pair (text_rating R) m h' (bs_prev (m ! nat (c_left c))) (c_left c)"
    and h2: "h2 = consider_pair (text_rating R) m h1 (c_left c) (bs_next (m ! nat (c_left c)))"
  shows "\<exists>k. best_at (text_rating R) syms xs k (c_prio c) (c_id c) \<and> nat (c_left c) = xs ! k \<and> nat (c_right c) = xs ! Suc k
    \<and> linked m (unlink xs k) \<and> heap_covers R m (unlink xs k) h2 \<and> length h2 \<le> Suc (length h)
    \<and> Suc (length (unlink xs k)) = length xs"
proof -
  have inv: "heap_inv h" and oks: "\<forall>x \<in> set h. cand_ok R syms x"
    and cur: "\<And>k. Suc k < length xs \<Longrightarrow> current_set (text_rating R) syms xs k \<subseteq> set h"
    using cov by (auto simp: heap_covers_def)
  have ne: "mset h \<noteq> {#}" using h(1) by simp
  note pi = heap.pop_inv [OF inv ne h(2)] and pm = heap.pop_items [OF inv ne h(2)]
  have c: "c \<in> set h" "set h = insert c (set h')" "length h = Suc (length h')"
    using pm by (metis set_mset_mset union_single_eq_member, metis set_mset_add_mset_insert set_mset_mset,
        metis size_add_mset size_mset)
  obtain k where k: "Suc k < length xs" "c = current_cand syms xs k (c_prio c) (c_id c)"
      "pair_rate (text_rating R) syms xs k = Some (c_prio c, c_id c)"
    using fresh_current [OF l _ fresh] oks c(1) by blast
  have lr: "c_left c = int (xs ! k)" "c_right c = int (xs ! Suc k)"
    using k(2) by (metis bpeCandidate.select_convs(2) current_cand_def, metis bpeCandidate.select_convs(3) current_cand_def)
  have best: "best_at (text_rating R) syms xs k (c_prio c) (c_id c)"
  proof (rule least_is_best [OF l cov k(1,3)])
    fix x assume "x \<in> set h"
    then have "cand_key c \<le> cand_key x" by (intro heap.pop_least [OF inv ne h(2)]) simp
    then show "cand_key (current_cand syms xs k (c_prio c) (c_id c)) \<le> cand_key x" using k(2) by simp
  qed
  note lk = linked_best [OF l jn best]
  have m': "m = merge_pair joined syms (xs ! k) (xs ! Suc k) (c_id c)" using m lr by simp
  let ?u = "unlink xs k"
  have lm: "linked m ?u" using lk(1) m' by simp
  have lu: "length ?u = length xs - 1" using lk(2) .
  have uk: "?u ! k = xs ! k" "k < length ?u" using nth_unlink [OF k(1), of k] k(1) lu by auto
  note ps = linkedD(4,5) [OF lm uk(2), unfolded uk(1)]
  have jtext: "joined (syms ! (xs ! k)) (syms ! (xs ! Suc k)) (c_id c) = bs_text (syms ! (xs ! k)) @ bs_text (syms ! (xs ! Suc k))"
    by (rule best_at_joined [OF jn best])
  text \<open>the first push\<close>
  let ?A = "if k = 0 then {} else current_set (text_rating R) m ?u (k - 1)"
  have one: "heap_inv h1 \<and> set h1 = set h' \<union> ?A \<and> length h1 \<le> Suc (length h')"
  proof (cases k)
    case 0
    then show ?thesis using pi ps(2) h1 lr(1) by simp
  next
    case (Suc a)
    then have "bs_prev (m ! (xs ! k)) = int (?u ! a)" "int (xs ! k) = int (?u ! Suc a)" using ps(2) uk(1) by simp_all
    then show ?thesis using consider_live [OF lm _ pi, of a "text_rating R"] uk(2) Suc h1 lr(1) by simp
  qed
  let ?B = "if Suc k < length ?u then current_set (text_rating R) m ?u k else {}"
  have two: "heap_inv h2 \<and> set h2 = set h1 \<union> ?B \<and> length h2 \<le> Suc (length h1)"
  proof (cases "Suc k < length ?u")
    case False
    then show ?thesis using one ps(1) h2 lr(1) by simp
  next
    case True
    then have "bs_next (m ! (xs ! k)) = int (?u ! Suc k)" using ps(1) by simp
    then show ?thesis using consider_live [OF lm True, of h1 "text_rating R"] one True h2 lr(1) uk(1) by simp
  qed
  have idx: "xs ! k < length syms" "xs ! Suc k < length syms" "xs ! k \<noteq> xs ! Suc k"
    using linkedD(1) [OF l, of k] linkedD(1) [OF l k(1)] linked_less [OF l lessI k(1)] k(1) by simp_all
  have oks2: "\<forall>x \<in> set h2. cand_ok R m x"
  proof
    fix x assume "x \<in> set h2"
    then consider "x \<in> set h'" | "k \<noteq> 0" "x \<in> current_set (text_rating R) m ?u (k - 1)"
      | "Suc k < length ?u" "x \<in> current_set (text_rating R) m ?u k"
      using one two by (auto split: if_splits)
    then show "cand_ok R m x"
    proof cases
      case 1
      then have "cand_ok R syms x" using oks c(2) by simp
      then show ?thesis unfolding m' by (rule cand_ok_merge [where joined = joined and t = "c_id c", OF _ idx jtext])
    next
      case 2
      then show ?thesis using current_ok [OF lm _ 2(2)] uk(2) by simp
    next
      case 3
      then show ?thesis using current_ok [OF lm 3] by simp
    qed
  qed
  have covers: "current_set (text_rating R) m ?u j \<subseteq> set h2" if j: "Suc j < length ?u" for j
  proof -
    consider "j = k" | "Suc j = k" | "j \<noteq> k" "Suc j \<noteq> k" by blast
    then show ?thesis
    proof cases
      case 1
      then show ?thesis using j two by auto
    next
      case 2
      then show ?thesis using one two by auto
    next
      case 3
      obtain i where i: "Suc i < length xs" "i \<noteq> k"
          "current_set (text_rating R) m ?u j = current_set (text_rating R) syms xs i"
        using unlink_pair [where joined = joined and t = "c_id c" and R = R, OF l k(1) jtext j 3] m' by blast
      have "c \<notin> current_set (text_rating R) syms xs i"
        using current_set_left [of c "text_rating R" syms xs i] lr(1) linked_inj [OF l, of i k] i k(1) by auto
      then have "current_set (text_rating R) syms xs i \<subseteq> set h'" using cur [OF i(1)] c(2) by auto
      then show ?thesis using i(3) one two by auto
    qed
  qed
  have "length h2 \<le> Suc (length h)" using one two c(3) by linarith
  moreover have "heap_covers R m ?u h2" using two oks2 covers by (simp add: heap_covers_def)
  ultimately show ?thesis using best lr lm lu k(1) by (intro exI [of _ k]) simp
qed

lemma heap_drop:
  assumes l: "linked syms xs" and cov: "heap_covers R syms xs h" and h: "h \<noteq> []" "heap_pop h = (c, h')"
    and st: "stale syms c"
  shows "heap_covers R syms xs h' \<and> length h = Suc (length h')"
proof -
  have inv: "heap_inv h" using cov by (simp add: heap_covers_def)
  have ne: "mset h \<noteq> {#}" using h(1) by simp
  note pi = heap.pop_inv [OF inv ne h(2)] and pm = heap.pop_items [OF inv ne h(2)]
  have c: "set h = insert c (set h')" "length h = Suc (length h')"
    using pm by (metis set_mset_add_mset_insert set_mset_mset, metis size_add_mset size_mset)
  have "current_set (text_rating R) syms xs k \<subseteq> set h'" if "Suc k < length xs" for k
  proof -
    have "c \<notin> current_set (text_rating R) syms xs k" using current_not_stale [OF l that] st by blast
    moreover have "current_set (text_rating R) syms xs k \<subseteq> set h" using cov that by (simp add: heap_covers_def)
    ultimately show ?thesis using c(1) by (metis subset_insert)
  qed
  then show ?thesis using cov pi c by (simp add: heap_covers_def)
qed

lemma heap_loop_merged:
  assumes jn: "joins (text_rating R) joined"
  shows "linked syms xs \<Longrightarrow> heap_covers R syms xs h \<Longrightarrow> length h + 2 * length xs \<le> f \<Longrightarrow>
    \<exists>xs'. merged (text_rating R) joined syms xs (heap_loop f (text_rating R) joined syms h) xs'"
proof (induction f arbitrary: syms xs h)
  case 0
  then show ?case by (simp add: linked_def)
next
  case (Suc f)
  show ?case
  proof (cases "h = []")
    case True
    have "pair_rate (text_rating R) syms xs k = None" if "Suc k < length xs" for k
      using Suc.prems(2) that True
      by (cases "pair_rate (text_rating R) syms xs k") (auto simp: heap_covers_def current_set_def)
    then have "merged (text_rating R) joined syms xs syms xs" by (rule merged_stop)
    then show ?thesis using True by auto
  next
    case False
    obtain c h' where p: "heap_pop h = (c, h')" by (cases "heap_pop h")
    show ?thesis
    proof (cases "stale syms c")
      case True
      note d = heap_drop [OF Suc.prems(1,2) False p True]
      have "length h' + 2 * length xs \<le> f" using d Suc.prems(3) by simp
      from Suc.IH [OF Suc.prems(1) _ this] d show ?thesis using False p True by simp
    next
      case fresh: False
      define m where "m = merge_pair joined syms (nat (c_left c)) (nat (c_right c)) (c_id c)"
      define h1 where "h1 = consider_pair (text_rating R) m h' (bs_prev (m ! nat (c_left c))) (c_left c)"
      define h2 where "h2 = consider_pair (text_rating R) m h1 (c_left c) (bs_next (m ! nat (c_left c)))"
      from heap_step [OF Suc.prems(1,2) False p jn fresh m_def h1_def h2_def]
      obtain k where k: "best_at (text_rating R) syms xs k (c_prio c) (c_id c)" "nat (c_left c) = xs ! k"
          "nat (c_right c) = xs ! Suc k" "linked m (unlink xs k)" "heap_covers R m (unlink xs k) h2"
          "length h2 \<le> Suc (length h)" "Suc (length (unlink xs k)) = length xs" by blast
      have "length h2 + 2 * length (unlink xs k) \<le> f" using k(6,7) Suc.prems(3) by linarith
      from Suc.IH [OF k(4,5) this] obtain xs' where
        "merged (text_rating R) joined m (unlink xs k) (heap_loop f (text_rating R) joined m h2) xs'" by blast
      then have "merged (text_rating R) joined syms xs (heap_loop f (text_rating R) joined m h2) xs'"
        using merged_step [OF k(1)] k(2,3) m_def by simp
      moreover have "heap_loop (Suc f) (text_rating R) joined syms h = heap_loop f (text_rating R) joined m h2"
        using False p fresh by (simp add: Let_def m_def h1_def h2_def)
      ultimately show ?thesis by auto
    qed
  qed
qed

lemma first_candidates_cover:
  assumes l: "linked syms [0..<length syms]"
  shows "heap_covers R syms [0..<length syms] (first_candidates (text_rating R) syms)
    \<and> length (first_candidates (text_rating R) syms) < length syms"
proof -
  let ?n = "length syms"
  let ?f = "\<lambda>h i. consider_pair (text_rating R) syms h (int i) (bs_next (syms ! i))"
  have n: "0 < ?n" using l by (auto simp: linked_def)
  have nx: "bs_next (syms ! i) = (if Suc i < ?n then int (Suc i) else - 1)" if "i < ?n" for i
    using linkedD(4) [OF l, of i] that by simp
  have "heap_inv (foldl ?f [] [0..<m]) \<and> set (foldl ?f [] [0..<m]) = (\<Union>k \<in> {k. k < m \<and> Suc k < ?n}. current_set (text_rating R) syms [0..<?n] k)
      \<and> length (foldl ?f [] [0..<m]) \<le> min m (?n - 1)" if "m \<le> ?n" for m
    using that
  proof (induction m)
    case 0
    then show ?case by (simp add: heap_inv_def rated_def heap_ok_but_def)
  next
    case (Suc m)
    let ?h = "foldl ?f [] [0..<m]"
    have IH: "heap_inv ?h" "set ?h = (\<Union>k \<in> {k. k < m \<and> Suc k < ?n}. current_set (text_rating R) syms [0..<?n] k)"
        "length ?h \<le> min m (?n - 1)" using Suc by simp_all
    have step: "foldl ?f [] [0..<Suc m] = ?f ?h m" by simp
    show ?case
    proof (cases "Suc m < ?n")
      case True
      have "consider_pair (text_rating R) syms ?h (int ([0..<?n] ! m)) (int ([0..<?n] ! Suc m)) = ?f ?h m"
        using True nx [of m] by simp
      with consider_live [OF l, of m ?h "text_rating R"] True IH
      have "heap_inv (?f ?h m) \<and> set (?f ?h m) = set ?h \<union> current_set (text_rating R) syms [0..<?n] m
          \<and> length (?f ?h m) \<le> Suc (length ?h)" by simp
      moreover have "{k. k < Suc m \<and> Suc k < ?n} = insert m {k. k < m \<and> Suc k < ?n}" using True by auto
      ultimately show ?thesis unfolding step using IH True by auto
    next
      case False
      then have "?f ?h m = ?h" using nx [of m] Suc.prems by simp
      moreover have "{k. k < Suc m \<and> Suc k < ?n} = {k. k < m \<and> Suc k < ?n}" using False by (auto simp: less_Suc_eq)
      ultimately show ?thesis unfolding step using IH by simp
    qed
  qed
  from this [of ?n] have f: "heap_inv (first_candidates (text_rating R) syms)"
      "set (first_candidates (text_rating R) syms) = (\<Union>k \<in> {k. k < ?n \<and> Suc k < ?n}. current_set (text_rating R) syms [0..<?n] k)"
      "length (first_candidates (text_rating R) syms) \<le> ?n - 1"
    by (simp_all add: first_candidates_def)
  have "cand_ok R syms c" if "c \<in> set (first_candidates (text_rating R) syms)" for c
    using that current_ok [OF l] f(2) by auto
  moreover have "length (first_candidates (text_rating R) syms) < ?n" using f(3) n by linarith
  ultimately show ?thesis using f by (auto simp: heap_covers_def)
qed

text \<open>Both loops perform the specified merges, so they agree on the whole slice.\<close>

lemma mergeBPESymbols_scan:
  assumes "linked syms [0..<length syms]" "joins (text_rating R) joined"
  shows "mergeBPESymbols n (text_rating R) joined syms = mergeBPESymbolsScan (text_rating R) joined syms"
proof (cases "length syms \<le> n")
  case True
  then show ?thesis by (simp add: mergeBPESymbols_def)
next
  case False
  note c = first_candidates_cover [OF assms(1), of R]
  obtain x1 where x1: "merged (text_rating R) joined syms [0..<length syms]
      (heap_loop (3 * length syms) (text_rating R) joined syms (first_candidates (text_rating R) syms)) x1"
    using heap_loop_merged [OF assms(2,1), of "first_candidates (text_rating R) syms" "3 * length syms"] c by auto
  obtain x2 where "merged (text_rating R) joined syms [0..<length syms] (mergeBPESymbolsScan (text_rating R) joined syms) x2"
    using scan_loop_merged [OF assms(2,1), of "length syms"] by (auto simp: mergeBPESymbolsScan_def)
  from merged_deterministic [OF x1 this] False show ?thesis by (simp add: mergeBPESymbols_def)
qed

section \<open>What the callers see\<close>

text \<open>\<open>for i := int32(0); i >= 0; i = syms[i].next\<close>, the read-out of the live symbols.\<close>

fun live_walk :: "nat \<Rightarrow> bpeSymbol list \<Rightarrow> int \<Rightarrow> bpeSymbol list" where
  "live_walk 0 syms i = []"
| "live_walk (Suc f) syms i = (if i < 0 then [] else syms ! nat i # live_walk f syms (bs_next (syms ! nat i)))"

definition live :: "bpeSymbol list \<Rightarrow> bpeSymbol list" where
  "live syms = live_walk (length syms) syms 0"

lemma live_walk_linked:
  assumes "linked syms xs"
  shows "k < length xs \<Longrightarrow> length xs \<le> k + f \<Longrightarrow>
    live_walk f syms (int (xs ! k)) = map ((!) syms) (drop k xs)"
proof (induction f arbitrary: k)
  case 0
  then show ?case by simp
next
  case (Suc f)
  have d: "drop k xs = xs ! k # drop (Suc k) xs" using Cons_nth_drop_Suc [OF Suc.prems(1)] by simp
  show ?case
  proof (cases "Suc k < length xs")
    case True
    then show ?thesis using Suc.IH [OF True] Suc.prems linkedD(4) [OF assms Suc.prems(1)] d by simp
  next
    case False
    then show ?thesis using Suc.prems linkedD(4) [OF assms Suc.prems(1)] d by (cases f) simp_all
  qed
qed

lemma live_linked: "linked syms xs \<Longrightarrow> live syms = map ((!) syms) xs"
  using live_walk_linked [of syms xs 0 "length syms"] linked_length [of syms xs]
  by (simp add: live_def linked_def)

lemma concat_merge:
  assumes l: "linked syms xs" and k: "Suc k < length xs"
    and jn: "joined (syms ! (xs ! k)) (syms ! (xs ! Suc k)) t = bs_text (syms ! (xs ! k)) @ bs_text (syms ! (xs ! Suc k))"
  shows "concat (map (\<lambda>x. bs_text (merge_pair joined syms (xs ! k) (xs ! Suc k) t ! x)) (unlink xs k))
    = concat (map (\<lambda>x. bs_text (syms ! x)) xs)"
proof -
  let ?m = "merge_pair joined syms (xs ! k) (xs ! Suc k) t"
  have lr: "xs ! k < length syms" "xs ! Suc k < length syms" "xs ! k \<noteq> xs ! Suc k"
    using linkedD(1) [OF l, of k] linkedD(1) [OF l k] linked_less [OF l lessI k] k by simp_all
  have other: "bs_text (?m ! (xs ! a)) = bs_text (syms ! (xs ! a))" if "a < length xs" "a \<noteq> k" for a
  proof -
    have "xs ! a \<noteq> xs ! k" using linked_inj [OF l that(1), of k] k that(2) by simp
    then show ?thesis using merge_pair_nth(1) [OF lr linkedD(1) [OF l that(1)], of joined t] by simp
  qed
  have pre: "map (\<lambda>x. bs_text (?m ! x)) (take k xs) = map (\<lambda>x. bs_text (syms ! x)) (take k xs)"
    by (rule nth_equalityI) (use other k in simp_all)
  have post: "map (\<lambda>x. bs_text (?m ! x)) (drop (k + 2) xs) = map (\<lambda>x. bs_text (syms ! x)) (drop (k + 2) xs)"
    by (rule nth_equalityI) (use other k in simp_all)
  have at: "bs_text (?m ! (xs ! k)) = bs_text (syms ! (xs ! k)) @ bs_text (syms ! (xs ! Suc k))"
    using merge_pair_nth(1) [OF lr lr(1), of joined t] jn by simp
  have xs: "xs = take k xs @ xs ! k # xs ! Suc k # drop (k + 2) xs"
    using id_take_nth_drop [of k xs] Cons_nth_drop_Suc [OF k] k by simp
  have u: "unlink xs k = take k xs @ xs ! k # drop (k + 2) xs"
    using take_Suc_conv_app_nth [of k xs] k by (simp add: unlink_def)
  have "concat (map (\<lambda>x. bs_text (?m ! x)) (unlink xs k)) = concat (map (\<lambda>x. bs_text (syms ! x)) (take k xs))
      @ bs_text (syms ! (xs ! k)) @ bs_text (syms ! (xs ! Suc k)) @ concat (map (\<lambda>x. bs_text (syms ! x)) (drop (k + 2) xs))"
    by (simp only: u map_append list.map concat_append concat.simps pre post at append_assoc)
  also have "\<dots> = concat (map (\<lambda>x. bs_text (syms ! x)) (take k xs @ xs ! k # xs ! Suc k # drop (k + 2) xs))" by simp
  finally show ?thesis by (simp only: xs [symmetric])
qed

lemma merged_concat:
  assumes "merged rate joined syms xs syms' xs'" "joins rate joined" "linked syms xs"
  shows "linked syms' xs' \<and> concat (map (\<lambda>x. bs_text (syms' ! x)) xs') = concat (map (\<lambda>x. bs_text (syms ! x)) xs)
    \<and> length syms' = length syms"
  using assms
proof (induction rule: merged.induct)
  case (merged_stop xs syms)
  then show ?case by simp
next
  case (merged_step syms xs k p t syms' xs')
  note b = linked_best [OF merged_step.prems(2,1) merged_step.hyps(1)]
  note j = best_at_joined [OF merged_step.prems(1) merged_step.hyps(1)]
  show ?case using merged_step.IH [OF merged_step.prems(1) b(1)] concat_merge [where joined = joined and t = t, OF merged_step.prems(2) b(3) j] by simp
qed

text \<open>
  A predicate on symbols kept by every merge holds of all live symbols at the end.
\<close>

lemma merged_all:
  assumes "merged rate joined syms xs syms' xs'" "joins rate joined" "linked syms xs"
    and "\<And>x. x \<in> set xs \<Longrightarrow> P (bs_text (syms ! x)) (bs_id (syms ! x))"
    and "\<And>l r p t. rate l r = Some (p, t) \<Longrightarrow> P (bs_text l) (bs_id l) \<Longrightarrow> P (bs_text r) (bs_id r) \<Longrightarrow> P (joined l r t) t"
  shows "\<forall>x \<in> set xs'. P (bs_text (syms' ! x)) (bs_id (syms' ! x))"
  using assms(1-4)
proof (induction rule: merged.induct)
  case (merged_stop xs syms)
  then show ?case by simp
next
  case (merged_step syms xs k p t syms' xs')
  note b = linked_best [OF merged_step.prems(2,1) merged_step.hyps(1)]
  note l = merged_step.prems(2) and all = merged_step.prems(3)
  let ?m = "merge_pair joined syms (xs ! k) (xs ! Suc k) t"
  have lr: "xs ! k < length syms" "xs ! Suc k < length syms" "xs ! k \<noteq> xs ! Suc k"
    using linkedD(1) [OF l, of k] linkedD(1) [OF l b(3)] linked_less [OF l lessI b(3)] b(3) by simp_all
  have rt: "rate (syms ! (xs ! k)) (syms ! (xs ! Suc k)) = Some (p, t)"
    using merged_step.hyps(1) by (auto simp: best_at_def pair_rate_def split: option.splits if_splits)
  have new: "P (joined (syms ! (xs ! k)) (syms ! (xs ! Suc k)) t) t"
    using assms(5) [OF rt] all b(3) by simp
  have "P (bs_text (?m ! x)) (bs_id (?m ! x))" if "x \<in> set (unlink xs k)" for x
  proof -
    have x: "x \<in> set xs" "x < length syms" using that set_unlink [OF l b(3)] l by (auto simp: linked_def)
    then show ?thesis using all [OF x(1)] new merge_pair_nth(1,2) [OF lr x(2), of joined t] by simp
  qed
  from merged_step.IH [OF merged_step.prems(1) b(1) this] show ?case .
qed

lemma mergeBPESymbols_merged:
  assumes "linked syms [0..<length syms]" "joins (text_rating R) joined"
  shows "\<exists>xs. merged (text_rating R) joined syms [0..<length syms] (mergeBPESymbols n (text_rating R) joined syms) xs"
  using scan_loop_merged [OF assms(2,1), of "length syms"] mergeBPESymbols_scan [OF assms]
  by (auto simp: mergeBPESymbolsScan_def)

text \<open>The live texts still spell the input, and every live symbol satisfies what merging keeps.\<close>

lemma mergeBPESymbols_live:
  assumes "linked syms [0..<length syms]" "joins (text_rating R) joined"
    and "\<And>s. s \<in> set syms \<Longrightarrow> P (bs_text s) (bs_id s)"
    and "\<And>l r p t. R (bs_text l) (bs_text r) = Some (p, t) \<Longrightarrow> P (bs_text l) (bs_id l) \<Longrightarrow> P (bs_text r) (bs_id r) \<Longrightarrow> P (joined l r t) t"
  shows "concat (map bs_text (live (mergeBPESymbols n (text_rating R) joined syms))) = concat (map bs_text syms)"
    and "\<forall>s \<in> set (live (mergeBPESymbols n (text_rating R) joined syms)). P (bs_text s) (bs_id s) \<and> bs_text s \<noteq> []"
proof -
  let ?s = "mergeBPESymbols n (text_rating R) joined syms"
  obtain xs where m: "merged (text_rating R) joined syms [0..<length syms] ?s xs"
    using mergeBPESymbols_merged [OF assms(1,2)] by blast
  note c = merged_concat [OF m assms(2,1)]
  then have lv: "live ?s = map ((!) ?s) xs" by (intro live_linked) simp
  have "concat (map bs_text (live ?s)) = concat (map (\<lambda>x. bs_text (syms ! x)) [0..<length syms])"
    using c by (simp add: lv comp_def)
  also have "map (\<lambda>x. bs_text (syms ! x)) [0..<length syms] = map bs_text syms"
    by (rule nth_equalityI) simp_all
  finally show "concat (map bs_text (live ?s)) = concat (map bs_text syms)" .
  have "\<forall>x \<in> set xs. P (bs_text (?s ! x)) (bs_id (?s ! x))"
    by (rule merged_all [OF m assms(2,1)]) (use assms(3,4) in \<open>auto simp: text_rating_def\<close>)
  moreover have "bs_text (?s ! x) \<noteq> []" if "x \<in> set xs" for x
    using that c linkedD(3) [of ?s xs] by (metis in_set_conv_nth)
  ultimately show "\<forall>s \<in> set (live ?s). P (bs_text s) (bs_id s) \<and> bs_text s \<noteq> []" by (simp add: lv)
qed

text \<open>A freshly linked slice.\<close>

lemma linked_fresh:
  assumes "syms \<noteq> []" "\<And>i. i < length syms \<Longrightarrow> bs_text (syms ! i) \<noteq> [] \<and> \<not> bs_dead (syms ! i)
      \<and> bs_prev (syms ! i) = int i - 1 \<and> bs_next (syms ! i) = (if Suc i = length syms then - 1 else int i + 1)"
  shows "linked syms [0..<length syms]"
proof -
  have n: "0 < length syms" using assms(1) by simp
  show ?thesis unfolding linked_def
  proof (intro conjI allI impI)
    fix k assume k: "k < length [0..<length syms]"
    then have k': "k < length syms" by simp
    note a = assms(2) [OF k']
    show "bs_text (syms ! ([0..<length syms] ! k)) \<noteq> []" using a k' by simp
    show "bs_next (syms ! ([0..<length syms] ! k)) = (if Suc k < length [0..<length syms] then int ([0..<length syms] ! Suc k) else - 1)"
      using a k' by auto
    show "bs_prev (syms ! ([0..<length syms] ! k)) = (if k = 0 then - 1 else int ([0..<length syms] ! (k - 1)))"
      using a k' by simp
  qed (use n assms(2) in simp_all)
qed

end
