(* ===== verification/Go_Utf8.thy ===== *)
theory Go_Utf8
  imports Go_Prelude
begin

text \<open>
  UTF-8 as Go's \<^verbatim>\<open>unicode/utf8\<close> and string conversions treat it. A rune is a \<open>nat\<close>, a string a
  list of bytes. Decoding never fails: an invalid byte is the replacement rune \<open>U+FFFD\<close> of size 1.
\<close>

type_synonym rune = nat

abbreviation ord :: "char \<Rightarrow> nat" where
  "ord c \<equiv> of_char c"

definition RuneError :: rune where
  "RuneError = 65533"

definition cont_byte :: "char \<Rightarrow> bool" where
  "cont_byte c \<longleftrightarrow> 128 \<le> ord c \<and> ord c \<le> 191"

text \<open>The second byte's admissible range depends on the first byte (\<^verbatim>\<open>acceptRanges\<close>).\<close>

definition accept_second :: "nat \<Rightarrow> char \<Rightarrow> bool" where
  "accept_second b c \<longleftrightarrow>
    (if b = 224 then 160 \<le> ord c \<and> ord c \<le> 191
     else if b = 237 then 128 \<le> ord c \<and> ord c \<le> 159
     else if b = 240 then 144 \<le> ord c \<and> ord c \<le> 191
     else if b = 244 then 128 \<le> ord c \<and> ord c \<le> 143
     else cont_byte c)"

definition seq_len :: "nat \<Rightarrow> nat" where
  "seq_len b = (if b < 128 then 1
     else if 194 \<le> b \<and> b \<le> 223 then 2
     else if 224 \<le> b \<and> b \<le> 239 then 3
     else if 240 \<le> b \<and> b \<le> 244 then 4
     else 0)"

fun DecodeRune :: "string \<Rightarrow> rune \<times> nat" where
  "DecodeRune [] = (RuneError, 0)"
| "DecodeRune (c # s) =
    (if seq_len (ord c) = 1 then (ord c, 1)
     else if seq_len (ord c) = 2 then
       (case s of c1 # _ \<Rightarrow> if cont_byte c1
          then ((ord c - 192) * 64 + (ord c1 - 128), 2) else (RuneError, 1)
        | _ \<Rightarrow> (RuneError, 1))
     else if seq_len (ord c) = 3 then
       (case s of c1 # c2 # _ \<Rightarrow> if accept_second (ord c) c1 \<and> cont_byte c2
          then ((ord c - 224) * 4096 + (ord c1 - 128) * 64 + (ord c2 - 128), 3) else (RuneError, 1)
        | _ \<Rightarrow> (RuneError, 1))
     else if seq_len (ord c) = 4 then
       (case s of c1 # c2 # c3 # _ \<Rightarrow> if accept_second (ord c) c1 \<and> cont_byte c2 \<and> cont_byte c3
          then ((ord c - 240) * 262144 + (ord c1 - 128) * 4096 + (ord c2 - 128) * 64 + (ord c3 - 128), 4)
          else (RuneError, 1)
        | _ \<Rightarrow> (RuneError, 1))
     else (RuneError, 1))"

text \<open>
  \<open>FullRune\<close>: whether the string starts with a complete encoding; an encoding already known to be
  invalid counts as complete.
\<close>

definition FullRune :: "string \<Rightarrow> bool" where
  "FullRune s = (case s of [] \<Rightarrow> False
    | c # t \<Rightarrow>
       (let n = seq_len (ord c) in
        if n \<le> 1 \<or> n \<le> length s then True
        else if t \<noteq> [] \<and> \<not> accept_second (ord c) (hd t) then True
        else if length t > 1 \<and> \<not> cont_byte (t ! 1) then True
        else False))"

definition valid_rune :: "rune \<Rightarrow> bool" where
  "valid_rune r \<longleftrightarrow> r < 55296 \<or> (57344 \<le> r \<and> r < 1114112)"

definition chr :: "nat \<Rightarrow> char" where
  "chr n = char_of n"

definition encode_raw :: "rune \<Rightarrow> string" where
  "encode_raw r =
    (if r < 128 then [chr r]
     else if r < 2048 then [chr (192 + r div 64), chr (128 + r mod 64)]
     else if r < 65536 then [chr (224 + r div 4096), chr (128 + r div 64 mod 64), chr (128 + r mod 64)]
     else [chr (240 + r div 262144), chr (128 + r div 4096 mod 64), chr (128 + r div 64 mod 64),
           chr (128 + r mod 64)])"

definition EncodeRune :: "rune \<Rightarrow> string" where
  "EncodeRune r = encode_raw (if valid_rune r then r else RuneError)"

text \<open>\<open>[]rune(s)\<close> and \<open>string(rs)\<close>.\<close>

lemma DecodeRune_size: "s \<noteq> [] \<Longrightarrow> 1 \<le> snd (DecodeRune s) \<and> snd (DecodeRune s) \<le> 4 \<and> snd (DecodeRune s) \<le> length s"
  by (cases s) (auto split: list.splits)

function runes :: "string \<Rightarrow> rune list" where
  "runes s = (if s = [] then [] else fst (DecodeRune s) # runes (drop (snd (DecodeRune s)) s))"
  by pat_completeness auto
termination
  by (relation "measure length") (use DecodeRune_size in fastforce)+

declare runes.simps [simp del]

lemma runes_Nil [simp]: "runes [] = []"
  by (simp add: runes.simps)

lemma runes_step: "s \<noteq> [] \<Longrightarrow> runes s = fst (DecodeRune s) # runes (drop (snd (DecodeRune s)) s)"
  by (simp add: runes.simps [of s])

definition string_of_runes :: "rune list \<Rightarrow> string" where
  "string_of_runes rs = concat (map EncodeRune rs)"

lemma string_of_runes_simps [simp]:
  "string_of_runes [] = []"
  "string_of_runes (r # rs) = EncodeRune r @ string_of_runes rs"
  "string_of_runes (rs @ qs) = string_of_runes rs @ string_of_runes qs"
  by (simp_all add: string_of_runes_def)

section \<open>Decoding inverts encoding\<close>

lemma ord_chr [simp]: "n < 256 \<Longrightarrow> ord (chr n) = (n::nat)"
  by (simp add: chr_def)

lemma chr_ord [simp]: "chr (ord c) = c"
  by (simp add: chr_def)

lemma ord_less [simp]: "ord c < (256::nat)"
  by (rule nat_of_char_less_256)

lemma div64_steps:
  "(r::nat) div 4096 = r div 64 div 64" "r div 262144 = r div 4096 div 64"
  by (simp_all add: div_mult2_eq [symmetric])

lemma enc3_digits:
  obtains a b c where "(r::nat) = a * 4096 + b * 64 + c" "b < 64" "c < 64"
    "r div 4096 = a" "r div 64 mod 64 = b" "r mod 64 = c"
proof
  show "r = r div 4096 * 4096 + r div 64 mod 64 * 64 + r mod 64"
    using div_mult_mod_eq [of r 64] div_mult_mod_eq [of "r div 64" 64] div64_steps(1) [of r] by linarith
qed simp_all

lemma enc4_digits:
  obtains a b c d where "(r::nat) = a * 262144 + b * 4096 + c * 64 + d" "b < 64" "c < 64" "d < 64"
    "r div 262144 = a" "r div 4096 mod 64 = b" "r div 64 mod 64 = c" "r mod 64 = d"
proof
  show "r = r div 262144 * 262144 + r div 4096 mod 64 * 4096 + r div 64 mod 64 * 64 + r mod 64"
    using div_mult_mod_eq [of r 64] div_mult_mod_eq [of "r div 64" 64] div_mult_mod_eq [of "r div 4096" 64]
      div64_steps [of r] by linarith
qed simp_all

lemma DecodeRune_3:
  assumes "a < 16" "b < 64" "c < 64" "a = 0 \<longrightarrow> 32 \<le> b" "a = 13 \<longrightarrow> b < 32"
  shows "DecodeRune (chr (224 + a) # chr (128 + b) # chr (128 + c) # s) = (a * 4096 + b * 64 + c, 3)"
  using assms by (auto simp: seq_len_def cont_byte_def accept_second_def)

lemma DecodeRune_4:
  assumes "a < 5" "b < 64" "c < 64" "d < 64" "a = 0 \<longrightarrow> 16 \<le> b" "a = 4 \<longrightarrow> b < 16"
  shows "DecodeRune (chr (240 + a) # chr (128 + b) # chr (128 + c) # chr (128 + d) # s)
    = (a * 262144 + b * 4096 + c * 64 + d, 4)"
  using assms by (auto simp: seq_len_def cont_byte_def accept_second_def)

lemma DecodeRune_encode_raw:
  assumes "valid_rune r"
  shows "DecodeRune (encode_raw r @ s) = (r, length (encode_raw r))"
proof -
  consider "r < 128" | "128 \<le> r" "r < 2048" | "2048 \<le> r" "r < 65536" | "65536 \<le> r" "r < 1114112"
    using assms unfolding valid_rune_def by linarith
  then show ?thesis
  proof cases
    case 1
    then show ?thesis by (simp add: encode_raw_def seq_len_def)
  next
    case 2
    have "2 \<le> r div 64" "r div 64 < 32" using 2 by (simp_all add: div_less_iff_less_mult less_eq_div_iff_mult_less_eq)
    then show ?thesis using 2 by (simp add: encode_raw_def seq_len_def cont_byte_def)
  next
    case 3
    obtain a b c where d: "r = a * 4096 + b * 64 + c" "b < 64" "c < 64"
        "r div 4096 = a" "r div 64 mod 64 = b" "r mod 64 = c" by (rule enc3_digits)
    have "DecodeRune (chr (224 + a) # chr (128 + b) # chr (128 + c) # s) = (a * 4096 + b * 64 + c, 3)"
    proof (rule DecodeRune_3)
      show "a < 16" using 3 d by linarith
      show "a = 0 \<longrightarrow> 32 \<le> b" using 3 d by linarith
      show "a = 13 \<longrightarrow> b < 32" using assms 3 d unfolding valid_rune_def by linarith
    qed (use d in simp_all)
    then show ?thesis using 3 d by (simp add: encode_raw_def)
  next
    case 4
    obtain a b c e where d: "r = a * 262144 + b * 4096 + c * 64 + e" "b < 64" "c < 64" "e < 64"
        "r div 262144 = a" "r div 4096 mod 64 = b" "r div 64 mod 64 = c" "r mod 64 = e" by (rule enc4_digits)
    have "DecodeRune (chr (240 + a) # chr (128 + b) # chr (128 + c) # chr (128 + e) # s)
        = (a * 262144 + b * 4096 + c * 64 + e, 4)"
    proof (rule DecodeRune_4)
      show "a < 5" using 4 d by linarith
      show "a = 0 \<longrightarrow> 16 \<le> b" using 4 d by linarith
      show "a = 4 \<longrightarrow> b < 16" using 4 d by linarith
    qed (use d in simp_all)
    then show ?thesis using 4 d by (simp add: encode_raw_def)
  qed
qed

lemma DecodeRune_encode [simp]:
  "valid_rune r \<Longrightarrow> DecodeRune (EncodeRune r @ s) = (r, length (EncodeRune r))"
  by (simp add: EncodeRune_def DecodeRune_encode_raw)

lemma EncodeRune_nonempty [simp]: "EncodeRune r \<noteq> []"
  by (simp add: EncodeRune_def encode_raw_def)

lemma runes_encode [simp]: "valid_rune r \<Longrightarrow> runes (EncodeRune r @ s) = r # runes s"
  by (simp add: runes_step)

lemma runes_string_of_runes: "list_all valid_rune rs \<Longrightarrow> runes (string_of_runes rs) = rs"
  by (induction rs) simp_all

section \<open>Encoding inverts decoding of valid text\<close>

lemma accept_second_cont: "accept_second b c \<Longrightarrow> cont_byte c"
  by (auto simp: accept_second_def cont_byte_def split: if_splits)

lemma cont_byteE:
  assumes "cont_byte c"
  obtains b where "c = chr (128 + b)" "b < 64"
proof
  show "c = chr (128 + (ord c - 128))" using assms by (simp add: cont_byte_def)
  show "ord c - 128 < 64" using assms unfolding cont_byte_def by linarith
qed

lemma seq_lenE:
  assumes "seq_len (ord c) = n" "2 \<le> n"
  obtains a where "n = 2" "c = chr (192 + a)" "2 \<le> a" "a < 32"
  | a where "n = 3" "c = chr (224 + a)" "a < 16"
  | a where "n = 4" "c = chr (240 + a)" "a < 5"
proof -
  consider "n = 2" "194 \<le> ord c" "ord c \<le> 223" | "n = 3" "224 \<le> ord c" "ord c \<le> 239"
    | "n = 4" "240 \<le> ord c" "ord c \<le> 244"
    using assms by (auto simp: seq_len_def split: if_splits)
  then show ?thesis
  proof cases
    case 1
    then show ?thesis by (intro that(1) [of "ord c - 192"]) simp_all
  next
    case 2
    then show ?thesis by (intro that(2) [of "ord c - 224"]) simp_all
  next
    case 3
    then show ?thesis by (intro that(3) [of "ord c - 240"]) simp_all
  qed
qed

lemma digits64:
  "d < 64 \<Longrightarrow> (x * 64 + d) div 64 = (x::nat)" "d < 64 \<Longrightarrow> (x * 64 + d) mod 64 = (d::nat)"
  "a * 4096 + b * 64 + d = (a * 64 + b) * 64 + (d::nat)"
  "a * 262144 + b * 4096 + d * 64 + e = ((a * 64 + b) * 64 + d) * 64 + (e::nat)"
  by (simp_all add: algebra_simps)

text \<open>A successful multi-byte decode is the encoding of its rune, byte by byte.\<close>

lemma DecodeRune_inverse:
  assumes "DecodeRune s = (r, n)" "s \<noteq> []" "\<not> (r = RuneError \<and> n = 1)"
  shows "valid_rune r \<and> EncodeRune r = take n s"
proof -
  obtain c t where s: "s = c # t" using assms(2) by (cases s) auto
  have len: "seq_len (ord c) \<le> 4" by (simp add: seq_len_def)
  show ?thesis
  proof (cases "2 \<le> seq_len (ord c)")
    case False
    then have "seq_len (ord c) = 1" using assms(1,3) s by (auto split: if_splits)
    moreover from this have "ord c < 128" by (auto simp: seq_len_def split: if_splits)
    moreover from calculation have "r = ord c" "n = 1" using assms(1) s by simp_all
    ultimately show ?thesis using s by (simp add: valid_rune_def EncodeRune_def encode_raw_def)
  next
    case True
    from refl True show ?thesis
    proof (cases rule: seq_lenE)
      case (1 a)
      then obtain c1 u where u: "t = c1 # u" "cont_byte c1" "r = (ord c - 192) * 64 + (ord c1 - 128)" "n = 2"
        using assms(1,3) s by (auto split: list.splits if_splits)
      obtain b where b: "c1 = chr (128 + b)" "b < 64" using u(2) by (rule cont_byteE)
      then have r: "r = a * 64 + b" using u 1 by simp
      have "r div 64 = a" "r mod 64 = b" using r b by simp_all
      then show ?thesis using r b u 1 s by (simp add: valid_rune_def EncodeRune_def encode_raw_def)
    next
      case (2 a)
      then obtain c1 c2 u where u: "t = c1 # c2 # u" "accept_second (ord c) c1" "cont_byte c2"
          "r = (ord c - 224) * 4096 + (ord c1 - 128) * 64 + (ord c2 - 128)" "n = 3"
        using assms(1,3) s by (auto split: list.splits if_splits)
      obtain b where b: "c1 = chr (128 + b)" "b < 64" using accept_second_cont [OF u(2)] by (rule cont_byteE)
      obtain d where d: "c2 = chr (128 + d)" "d < 64" using u(3) by (rule cont_byteE)
      have r: "r = a * 4096 + b * 64 + d" using u(4) 2 b d by simp
      have dg: "r div 4096 = a" "r div 64 mod 64 = b" "r mod 64 = d"
        unfolding r digits64(3) div64_steps using b(2) d(2) by (simp_all only: digits64(1,2))
      have acc: "a = 0 \<longrightarrow> 32 \<le> b" "a = 13 \<longrightarrow> b < 32" using u(2) 2 b by (auto simp: accept_second_def)
      have "2048 \<le> r" "r < 65536" using r acc 2 b d by linarith+
      moreover have "valid_rune r"
      proof (cases "a = 13")
        case True
        then show ?thesis unfolding valid_rune_def using r acc b d by linarith
      next
        case False
        then have "a \<le> 12 \<or> 14 \<le> a" by linarith
        then show ?thesis unfolding valid_rune_def using r 2 b d by linarith
      qed
      ultimately show ?thesis using u 2 s b d dg by (simp add: EncodeRune_def encode_raw_def)
    next
      case (3 a)
      then obtain c1 c2 c3 u where u: "t = c1 # c2 # c3 # u" "accept_second (ord c) c1" "cont_byte c2" "cont_byte c3"
          "r = (ord c - 240) * 262144 + (ord c1 - 128) * 4096 + (ord c2 - 128) * 64 + (ord c3 - 128)" "n = 4"
        using assms(1,3) s by (auto split: list.splits if_splits)
      obtain b where b: "c1 = chr (128 + b)" "b < 64" using accept_second_cont [OF u(2)] by (rule cont_byteE)
      obtain d where d: "c2 = chr (128 + d)" "d < 64" using u(3) by (rule cont_byteE)
      obtain e where e: "c3 = chr (128 + e)" "e < 64" using u(4) by (rule cont_byteE)
      have r: "r = a * 262144 + b * 4096 + d * 64 + e" using u(5) 3 b d e by simp
      have dg: "r div 262144 = a" "r div 4096 mod 64 = b" "r div 64 mod 64 = d" "r mod 64 = e"
        unfolding r digits64(4) div64_steps using b(2) d(2) e(2) by (simp_all only: digits64(1,2))
      have acc: "a = 0 \<longrightarrow> 16 \<le> b" "a = 4 \<longrightarrow> b < 16" using u(2) 3 b by (auto simp: accept_second_def)
      have "65536 \<le> r" "r < 1114112" using r acc 3 b d e by linarith+
      then show ?thesis using u 3 s b d e dg by (simp add: EncodeRune_def encode_raw_def valid_rune_def)
    qed
  qed
qed


text \<open>\<open>utf8.ValidString\<close>.\<close>

function ValidString :: "string \<Rightarrow> bool" where
  "ValidString s = (if s = [] then True
     else if DecodeRune s = (RuneError, 1) then False
     else ValidString (drop (snd (DecodeRune s)) s))"
  by pat_completeness auto
termination
  by (relation "measure length") (use DecodeRune_size in fastforce)+

declare ValidString.simps [simp del]

lemma ValidString_Nil [simp]: "ValidString []"
  by (simp add: ValidString.simps)

lemma ValidString_step: "s \<noteq> [] \<Longrightarrow> ValidString s \<longleftrightarrow> DecodeRune s \<noteq> (RuneError, 1) \<and> ValidString (drop (snd (DecodeRune s)) s)"
  by (simp add: ValidString.simps [of s])

lemma runes_induct [case_names Nil Step]:
  assumes "P []" "\<And>s. s \<noteq> [] \<Longrightarrow> P (drop (snd (DecodeRune s)) s) \<Longrightarrow> P s"
  shows "P s"
proof (induction s rule: runes.induct)
  case (1 s)
  then show ?case using assms by (cases "s = []") auto
qed

lemma string_of_runes_runes: "ValidString s \<Longrightarrow> string_of_runes (runes s) = s"
proof (induction s rule: runes_induct)
  case (Step s)
  obtain r n where d: "DecodeRune s = (r, n)" by (cases "DecodeRune s")
  have v: "\<not> (r = RuneError \<and> n = 1)" "ValidString (drop n s)"
    using Step.prems Step.hyps d by (simp_all add: ValidString_step)
  then have "EncodeRune r = take n s" using DecodeRune_inverse [OF d Step.hyps] by simp
  then show ?case using Step.IH v d by (simp add: runes_step [OF Step.hyps])
qed simp

lemma runes_valid: "list_all valid_rune (runes s)"
proof (induction s rule: runes_induct)
  case (Step s)
  have "valid_rune (fst (DecodeRune s))"
    using DecodeRune_inverse [of s "fst (DecodeRune s)" "snd (DecodeRune s)"] Step.hyps
    by (cases "fst (DecodeRune s) = RuneError \<and> snd (DecodeRune s) = 1") (auto simp: valid_rune_def RuneError_def)
  then show ?case using Step.IH by (simp add: runes_step [OF Step.hyps])
qed simp

lemma runes_runes [simp]: "runes (string_of_runes (runes s)) = runes s"
  by (rule runes_string_of_runes [OF runes_valid])

lemma valid_rune_RuneError: "valid_rune RuneError"
  by (simp add: valid_rune_def RuneError_def)

lemma length_EncodeRune_RuneError: "length (EncodeRune RuneError) = 3"
  by (simp add: EncodeRune_def encode_raw_def valid_rune_def RuneError_def)

lemma EncodeRune_decodable: "valid_rune r \<Longrightarrow> DecodeRune (EncodeRune r @ s) \<noteq> (RuneError, 1)"
  using length_EncodeRune_RuneError by auto

lemma ValidString_encode [simp]: "valid_rune r \<Longrightarrow> ValidString (EncodeRune r @ s) \<longleftrightarrow> ValidString s"
  using EncodeRune_decodable [of r s] by (simp add: ValidString_step)

lemma ValidString_runes [simp]: "list_all valid_rune rs \<Longrightarrow> ValidString (string_of_runes rs)"
  by (induction rs) simp_all

lemma ValidString_iff: "ValidString s \<longleftrightarrow> string_of_runes (runes s) = s"
  using string_of_runes_runes ValidString_runes [OF runes_valid] by metis

text \<open>The text cut into its encoded runes.\<close>

function rune_strings :: "string \<Rightarrow> string list" where
  "rune_strings s = (if s = [] then []
     else take (snd (DecodeRune s)) s # rune_strings (drop (snd (DecodeRune s)) s))"
  by pat_completeness auto
termination
  by (relation "measure length") (use DecodeRune_size in fastforce)+

declare rune_strings.simps [simp del]

lemma rune_strings_Nil [simp]: "rune_strings [] = []"
  by (simp add: rune_strings.simps)

end
