(* ===== verification/Go_Strings.thy ===== *)
theory Go_Strings
  imports Go_Utf8
begin

text \<open>
  The functions of \<^verbatim>\<open>strings\<close> and \<^verbatim>\<open>unicode\<close> the program uses. The property tables of Unicode
  (letters, numbers, cases, ...) are a record of predicates, a parameter of every definition that
  consults them; white space is spelled out.
\<close>

section \<open>Strings\<close>

definition HasPrefix :: "string \<Rightarrow> string \<Rightarrow> bool" where
  "HasPrefix s p \<longleftrightarrow> take (length p) s = p"

definition HasSuffix :: "string \<Rightarrow> string \<Rightarrow> bool" where
  "HasSuffix s p \<longleftrightarrow> length p \<le> length s \<and> drop (length s - length p) s = p"

definition TrimPrefix :: "string \<Rightarrow> string \<Rightarrow> string" where
  "TrimPrefix s p = (if HasPrefix s p then drop (length p) s else s)"

definition TrimSuffix :: "string \<Rightarrow> string \<Rightarrow> string" where
  "TrimSuffix s p = (if HasSuffix s p then take (length s - length p) s else s)"

text \<open>\<open>strings.Index\<close>: the first occurrence, \<open>None\<close> for \<open>-1\<close>.\<close>

fun Index :: "string \<Rightarrow> string \<Rightarrow> nat option" where
  "Index [] p = (if p = [] then Some 0 else None)"
| "Index (c # s) p = (if HasPrefix (c # s) p then Some 0 else map_option Suc (Index s p))"

definition Contains :: "string \<Rightarrow> string \<Rightarrow> bool" where
  "Contains s p \<longleftrightarrow> Index s p \<noteq> None"

text \<open>\<open>before, after, ok := strings.Cut(s, sep)\<close>; \<open>None\<close> is \<open>ok = false\<close>.\<close>

definition Cut :: "string \<Rightarrow> string \<Rightarrow> (string \<times> string) option" where
  "Cut s sep = (case Index s sep of None \<Rightarrow> None
     | Some i \<Rightarrow> Some (take i s, drop (i + length sep) s))"

text \<open>\<open>strings.ReplaceAll\<close> for a non-empty old text.\<close>

function ReplaceAll :: "string \<Rightarrow> string \<Rightarrow> string \<Rightarrow> string" where
  "ReplaceAll s old new =
    (if s = [] \<or> old = [] then s
     else if HasPrefix s old then new @ ReplaceAll (drop (length old) s) old new
     else hd s # ReplaceAll (tl s) old new)"
  by pat_completeness auto
termination
  by (relation "measure (\<lambda>(s, _, _). length s)") auto

declare ReplaceAll.simps [simp del]

lemma ReplaceAll_Nil [simp]: "ReplaceAll [] old new = []"
  by (simp add: ReplaceAll.simps)

lemma HasPrefix_append [simp]: "HasPrefix (p @ s) p"
  by (simp add: HasPrefix_def)

lemma HasPrefix_Nil [simp]: "HasPrefix s []"
  by (simp add: HasPrefix_def)

lemma HasPrefixE: "HasPrefix s p \<Longrightarrow> \<exists>t. s = p @ t"
  unfolding HasPrefix_def by (metis append_take_drop_id)

lemma HasPrefix_Cons [simp]: "HasPrefix (c # s) (d # p) \<longleftrightarrow> c = d \<and> HasPrefix s p"
  by (auto simp: HasPrefix_def)

lemma HasPrefix_empty [simp]: "HasPrefix [] p \<longleftrightarrow> p = []"
  by (auto simp: HasPrefix_def)

lemma HasSuffixE: "HasSuffix s p \<Longrightarrow> \<exists>t. s = t @ p"
  unfolding HasSuffix_def by (metis append_take_drop_id)

lemma Index_Some: "Index s p = Some i \<Longrightarrow> \<exists>t u. s = t @ p @ u \<and> length t = i"
proof (induction s arbitrary: i)
  case Nil
  then show ?case by (auto split: if_splits)
next
  case (Cons c s)
  show ?case
  proof (cases "HasPrefix (c # s) p")
    case True
    then show ?thesis using Cons.prems HasPrefixE [OF True] by auto
  next
    case False
    then obtain j where "Index s p = Some j" "i = Suc j" using Cons.prems by auto
    with Cons.IH obtain t u where "s = t @ p @ u" "length t = j" by blast
    then have "c # s = (c # t) @ p @ u \<and> length (c # t) = i" using \<open>i = Suc j\<close> by simp
    then show ?thesis by blast
  qed
qed

lemma Index_bound: "Index s p = Some i \<Longrightarrow> i + length p \<le> length s"
  using Index_Some by fastforce

lemma Index_None: "Index s p = None \<Longrightarrow> s \<noteq> t @ p @ u"
proof (induction s arbitrary: t)
  case Nil
  then show ?case by (auto split: if_splits)
next
  case (Cons c s)
  have n: "\<not> HasPrefix (c # s) p" "Index s p = None" using Cons.prems by (auto split: if_splits)
  show ?case
  proof (cases t)
    case Nil
    then show ?thesis using n(1) by auto
  next
    case (Cons d t')
    then show ?thesis using Cons.IH [OF n(2), of t'] by auto
  qed
qed

lemma Index_first: "Index s p = Some i \<Longrightarrow> length t < i \<Longrightarrow> s \<noteq> t @ p @ u"
proof (induction s arbitrary: i t)
  case Nil
  then show ?case by (auto split: if_splits)
next
  case (Cons c s)
  have n: "\<not> HasPrefix (c # s) p" using Cons.prems by (auto split: if_splits)
  then obtain j where j: "Index s p = Some j" "i = Suc j" using Cons.prems by auto
  show ?case
  proof (cases t)
    case Nil
    then show ?thesis using n by auto
  next
    case (Cons d t')
    then show ?thesis using Cons.IH [OF j(1), of t'] Cons.prems(2) j(2) by auto
  qed
qed

section \<open>Case mapping of ASCII letters\<close>

definition ascii_lower :: "char \<Rightarrow> char" where
  "ascii_lower c = (if 65 \<le> ord c \<and> ord c \<le> (90::nat) then chr (ord c + 32) else c)"

text \<open>
  \<open>strings.EqualFold(s, t)\<close> for a \<open>t\<close> of ASCII letters other than k and s, and digits: no rune outside
  ASCII folds to one of these.
\<close>

definition EqualFold_plain :: "string \<Rightarrow> string \<Rightarrow> bool" where
  "EqualFold_plain s t \<longleftrightarrow> map ascii_lower s = map ascii_lower t"

section \<open>Unicode\<close>

record unicode_tables =
  IsLetter :: "rune \<Rightarrow> bool"
  IsNumber :: "rune \<Rightarrow> bool"
  IsDigit :: "rune \<Rightarrow> bool"
  IsUpper :: "rune \<Rightarrow> bool"
  IsLower :: "rune \<Rightarrow> bool"
  IsTitle :: "rune \<Rightarrow> bool"
  IsPunct :: "rune \<Rightarrow> bool"
  IsSymbol :: "rune \<Rightarrow> bool"
  IsControl :: "rune \<Rightarrow> bool"
  Is_M :: "rune \<Rightarrow> bool"
  Is_Mn :: "rune \<Rightarrow> bool"
  Is_Z :: "rune \<Rightarrow> bool"
  Is_Cf :: "rune \<Rightarrow> bool"
  Is_Lm :: "rune \<Rightarrow> bool"
  Is_Lo :: "rune \<Rightarrow> bool"
  Is_Han :: "rune \<Rightarrow> bool"
  rune_ToLower :: "rune \<Rightarrow> rune"

definition space_runes :: "rune list" where
  "space_runes = [9, 10, 11, 12, 13, 32, 133, 160, 5760, 8192, 8193, 8194, 8195, 8196, 8197, 8198, 8199,
     8200, 8201, 8202, 8232, 8233, 8239, 8287, 12288]"

definition IsSpace :: "rune \<Rightarrow> bool" where
  "IsSpace r \<longleftrightarrow> r \<in> set space_runes"

text \<open>\<open>strings.ToLower\<close> maps rune by rune.\<close>

definition strings_ToLower :: "unicode_tables \<Rightarrow> string \<Rightarrow> string" where
  "strings_ToLower u s = string_of_runes (map (rune_ToLower u) (runes s))"

text \<open>
  \<open>strings.TrimSpace\<close>: cut encoded white space at both ends; the bytes in between are untouched.
\<close>

definition lead_space :: "string \<Rightarrow> nat" where
  "lead_space s = (case find (\<lambda>r. HasPrefix s (EncodeRune r)) space_runes of
     None \<Rightarrow> 0 | Some r \<Rightarrow> length (EncodeRune r))"

definition tail_space :: "string \<Rightarrow> nat" where
  "tail_space s = (case find (\<lambda>r. HasSuffix s (EncodeRune r)) space_runes of
     None \<Rightarrow> 0 | Some r \<Rightarrow> length (EncodeRune r))"

function TrimLeftSpace :: "string \<Rightarrow> string" where
  "TrimLeftSpace s = (if s = [] \<or> lead_space s = 0 then s else TrimLeftSpace (drop (lead_space s) s))"
  by pat_completeness auto
termination
  by (relation "measure length") auto

function TrimRightSpace :: "string \<Rightarrow> string" where
  "TrimRightSpace s = (if s = [] \<or> tail_space s = 0 then s else TrimRightSpace (take (length s - tail_space s) s))"
  by pat_completeness auto
termination
  by (relation "measure length") auto

declare TrimLeftSpace.simps [simp del] TrimRightSpace.simps [simp del]

definition TrimSpace :: "string \<Rightarrow> string" where
  "TrimSpace s = TrimRightSpace (TrimLeftSpace s)"

text \<open>\<open>strconv.Itoa\<close> of a non-negative number.\<close>

fun Itoa :: "nat \<Rightarrow> string" where
  "Itoa n = (if n < 10 then [chr (48 + n)] else Itoa (n div 10) @ [chr (48 + n mod 10)])"

declare Itoa.simps [simp del]

text \<open>\<open>strings.Join\<close>, and \<open>strings.TrimLeft\<close> and \<open>TrimRight\<close> for a set of ASCII characters.\<close>

fun strings_Join :: "string list \<Rightarrow> string \<Rightarrow> string" where
  "strings_Join [] sep = []"
| "strings_Join [s] sep = s"
| "strings_Join (s # t # ss) sep = s @ sep @ strings_Join (t # ss) sep"

definition TrimLeft :: "string \<Rightarrow> string \<Rightarrow> string" where
  "TrimLeft s cutset = dropWhile (\<lambda>c. c \<in> set cutset) s"

definition TrimRight :: "string \<Rightarrow> string \<Rightarrow> string" where
  "TrimRight s cutset = rev (dropWhile (\<lambda>c. c \<in> set cutset) (rev s))"

definition digit :: "char \<Rightarrow> bool" where
  "digit c \<longleftrightarrow> 48 \<le> ord c \<and> ord c \<le> 57"

fun digits_value :: "string \<Rightarrow> int" where
  "digits_value [] = 0"
| "digits_value (c # s) = (int (ord c) - 48) * 10 ^ length s + digits_value s"

text \<open>\<open>strconv.Atoi\<close> on a 64-bit platform; \<open>None\<close> is a syntax or range error.\<close>

definition Atoi :: "string \<Rightarrow> int option" where
  "Atoi s =
    (let (neg, ds) = (case s of c # r \<Rightarrow> if c = CHR ''-'' then (True, r) else if c = CHR ''+'' then (False, r) else (False, s)
                      | [] \<Rightarrow> (False, s));
         v = (if neg then - digits_value ds else digits_value ds)
     in if ds = [] \<or> \<not> list_all digit ds \<or> v < - 9223372036854775808 \<or> v > 9223372036854775807 then None else Some v)"

text \<open>The ASCII part of the tables, used by concrete instances.\<close>

definition ascii_tables :: unicode_tables where
  "ascii_tables = \<lparr>
     IsLetter = (\<lambda>r. (65 \<le> r \<and> r \<le> 90) \<or> (97 \<le> r \<and> r \<le> 122)),
     IsNumber = (\<lambda>r. 48 \<le> r \<and> r \<le> 57),
     IsDigit = (\<lambda>r. 48 \<le> r \<and> r \<le> 57),
     IsUpper = (\<lambda>r. 65 \<le> r \<and> r \<le> 90),
     IsLower = (\<lambda>r. 97 \<le> r \<and> r \<le> 122),
     IsTitle = (\<lambda>r. False),
     IsPunct = (\<lambda>r. r \<in> {33, 34, 35, 37, 38, 39, 40, 41, 42, 44, 45, 46, 47, 58, 59, 63, 64, 91, 92, 93, 95, 123, 125}),
     IsSymbol = (\<lambda>r. r \<in> {36, 43, 60, 61, 62, 94, 96, 124, 126}),
     IsControl = (\<lambda>r. r < 32 \<or> (127 \<le> r \<and> r < 160)),
     Is_M = (\<lambda>r. False), Is_Mn = (\<lambda>r. False), Is_Z = (\<lambda>r. r = 32), Is_Cf = (\<lambda>r. False),
     Is_Lm = (\<lambda>r. False), Is_Lo = (\<lambda>r. False), Is_Han = (\<lambda>r. False),
     rune_ToLower = (\<lambda>r. if 65 \<le> r \<and> r \<le> 90 then r + 32 else r)\<rparr>"

end
