(* ===== verification/Pretokenize.thy ===== *)
theory Pretokenize
  imports Go_Strings
begin

text \<open>
  The four pre-tokenizers of \<^verbatim>\<open>internal/tokenizer/tokenizer.go\<close>. Three of them work on the rune slice
  of the text, Tekken's on byte offsets. Each is a loop that picks the end of the next piece; the
  loops terminate because every matcher that succeeds advances.
\<close>

section \<open>Scanning\<close>

text \<open>\<open>for end < len(r) \<and> p(r[end]) { end++ }\<close>\<close>

definition skip_while :: "(rune \<Rightarrow> bool) \<Rightarrow> rune list \<Rightarrow> nat \<Rightarrow> nat" where
  "skip_while p r i = i + length (takeWhile p (drop i r))"

lemma skip_while_bounds: "i \<le> length r \<Longrightarrow> i \<le> skip_while p r i \<and> skip_while p r i \<le> length r"
  using length_takeWhile_le [of p "drop i r"] by (simp add: skip_while_def)

lemma skip_while_gt: "i < length r \<Longrightarrow> p (r ! i) \<Longrightarrow> i < skip_while p r i"
  by (simp add: skip_while_def Cons_nth_drop_Suc [symmetric])

lemma skip_while_ge: "i \<le> skip_while p r i"
  by (simp add: skip_while_def)

text \<open>The shared contraction suffixes: re, ve, ll, s, t, m, d, in any case of ASCII letters.\<close>

definition lower_rune :: "rune \<Rightarrow> rune" where
  "lower_rune c = (if 65 \<le> c \<and> c \<le> 90 then c + 32 else c)"

definition contraction_suffixes :: "string list" where
  "contraction_suffixes = [''re'', ''ve'', ''ll'', ''s'', ''t'', ''m'', ''d'']"

definition suffix_matches :: "rune list \<Rightarrow> nat \<Rightarrow> string \<Rightarrow> bool" where
  "suffix_matches r i suffix \<longleftrightarrow> \<not> (i + 1 + length suffix > length r)
     \<and> map lower_rune (take (length suffix) (drop (i + 1) r)) = map ord suffix"

definition contraction_at :: "rune list \<Rightarrow> nat \<Rightarrow> nat option" where
  "contraction_at r i = (if i \<ge> length r \<or> r ! i \<noteq> 39 then None
     else map_option (\<lambda>suffix. i + 1 + length suffix) (find (suffix_matches r i) contraction_suffixes))"

lemma contraction_at_bounds: "contraction_at r i = Some e \<Longrightarrow> i < e \<and> e \<le> length r"
  by (auto simp: contraction_at_def find_Some_iff suffix_matches_def split: if_splits)

definition is_newline :: "rune \<Rightarrow> bool" where
  "is_newline c \<longleftrightarrow> c = 13 \<or> c = 10"

text \<open>A white-space run ends after its last newline, or as a whole when it has none.\<close>

definition whitespace_end :: "rune list \<Rightarrow> nat \<Rightarrow> nat" where
  "whitespace_end r i = (let run = takeWhile IsSpace (drop i r); tail = takeWhile (\<lambda>c. \<not> is_newline c) (rev run)
     in if list_ex is_newline run then i + (length run - length tail) else i + length run)"

lemma whitespace_end_bounds:
  assumes "i < length r" "IsSpace (r ! i)"
  shows "i < whitespace_end r i \<and> whitespace_end r i \<le> length r"
proof -
  let ?run = "takeWhile IsSpace (drop i r)"
  let ?tail = "takeWhile (\<lambda>c. \<not> is_newline c) (rev ?run)"
  have ne: "?run \<noteq> []" using assms by (simp add: Cons_nth_drop_Suc [symmetric])
  have le: "i + length ?run \<le> length r" using length_takeWhile_le [of IsSpace "drop i r"] assms(1) by simp
  have tl: "length ?tail \<le> length ?run" using length_takeWhile_le [of _ "rev ?run"] by simp
  have "length ?tail < length ?run" if "list_ex is_newline ?run"
  proof -
    have "?tail \<noteq> rev ?run" using that by (auto simp: list_ex_iff takeWhile_eq_all_conv)
    then have "length ?tail \<noteq> length (rev ?run)" by (metis takeWhile_eq_take take_all le_refl)
    then show ?thesis using tl by simp
  qed
  moreover have "0 < length ?run" using ne by simp
  ultimately show ?thesis using le by (simp add: whitespace_end_def Let_def) linarith
qed

section \<open>Qwen 3.5\<close>

definition qwen35WordRune :: "unicode_tables \<Rightarrow> rune \<Rightarrow> bool" where
  "qwen35WordRune u c \<longleftrightarrow> IsLetter u c \<or> Is_M u c"

definition matchQwen35Contraction :: "rune list \<Rightarrow> nat \<Rightarrow> nat option" where
  "matchQwen35Contraction r i = contraction_at r i"

definition matchQwen35Word :: "unicode_tables \<Rightarrow> rune list \<Rightarrow> nat \<Rightarrow> nat option" where
  "matchQwen35Word u r i =
    (if skip_while (qwen35WordRune u) r i > i then Some (skip_while (qwen35WordRune u) r i)
     else if i < length r \<and> r ! i \<noteq> 13 \<and> r ! i \<noteq> 10 \<and> \<not> IsLetter u (r ! i) \<and> \<not> IsNumber u (r ! i)
         \<and> skip_while (qwen35WordRune u) r (i + 1) > i + 1
     then Some (skip_while (qwen35WordRune u) r (i + 1))
     else None)"

definition matchQwen35Punct :: "unicode_tables \<Rightarrow> rune list \<Rightarrow> nat \<Rightarrow> nat option" where
  "matchQwen35Punct u r i =
    (let start = (if i < length r \<and> r ! i = 32 then i + 1 else i);
         j = skip_while (\<lambda>c. \<not> IsSpace c \<and> \<not> qwen35WordRune u c \<and> \<not> IsNumber u c) r start
     in if j = start then None else Some (skip_while is_newline r j))"

definition qwen35WhitespaceEnd :: "rune list \<Rightarrow> nat \<Rightarrow> nat" where
  "qwen35WhitespaceEnd r i = whitespace_end r i"

definition qwen35_end :: "unicode_tables \<Rightarrow> rune list \<Rightarrow> nat \<Rightarrow> nat" where
  "qwen35_end u r i = (case matchQwen35Contraction r i of Some e \<Rightarrow> e
     | None \<Rightarrow> (case matchQwen35Word u r i of Some e \<Rightarrow> e
     | None \<Rightarrow> if IsNumber u (r ! i) then i + 1
       else (case matchQwen35Punct u r i of Some e \<Rightarrow> e
     | None \<Rightarrow> if IsSpace (r ! i) then qwen35WhitespaceEnd r i else i + 1)))"

lemma matchQwen35Word_bounds: "matchQwen35Word u r i = Some e \<Longrightarrow> i < length r \<Longrightarrow> i < e \<and> e \<le> length r"
  using skip_while_bounds [of i r "qwen35WordRune u"] skip_while_bounds [of "i + 1" r "qwen35WordRune u"]
  by (auto simp: matchQwen35Word_def split: if_splits)

lemma punct_bounds:
  assumes "(let start = (if i < length r \<and> r ! i = 32 then i + 1 else i); j = skip_while p r start
     in if j = start then None else Some (skip_while q r j)) = Some e" "i < length r"
  shows "i < e \<and> e \<le> length r"
proof -
  obtain start where st: "start = (if i < length r \<and> r ! i = 32 then i + 1 else i)" by blast
  obtain j where j: "j = skip_while p r start" by blast
  have s: "i \<le> start" "start \<le> length r" using assms(2) st by auto
  have e: "j \<noteq> start" "e = skip_while q r j"
    using assms(1) unfolding Let_def st [symmetric] j [symmetric] by (auto split: if_splits)
  have "start < j" "j \<le> length r" using skip_while_bounds [OF s(2), of p] e(1) j by auto
  moreover have "j \<le> e" "e \<le> length r" using skip_while_bounds [OF calculation(2), of q] e(2) by auto
  ultimately show ?thesis using s by linarith
qed

lemma matchQwen35Punct_bounds: "matchQwen35Punct u r i = Some e \<Longrightarrow> i < length r \<Longrightarrow> i < e \<and> e \<le> length r"
  unfolding matchQwen35Punct_def by (rule punct_bounds)

lemma qwen35_end_bounds: "i < length r \<Longrightarrow> i < qwen35_end u r i \<and> qwen35_end u r i \<le> length r"
  using contraction_at_bounds [of r i] matchQwen35Word_bounds [of u r i] matchQwen35Punct_bounds [of u r i]
    whitespace_end_bounds [of i r]
  by (auto simp: qwen35_end_def matchQwen35Contraction_def qwen35WhitespaceEnd_def split: option.splits)

function qwen35_loop :: "unicode_tables \<Rightarrow> rune list \<Rightarrow> nat \<Rightarrow> string list" where
  "qwen35_loop u r i = (if i < length r
     then string_of_runes (sublst r i (qwen35_end u r i)) # qwen35_loop u r (qwen35_end u r i) else [])"
  by pat_completeness auto
termination
  by (relation "measure (\<lambda>(u, r, i). length r - i)") (use qwen35_end_bounds in \<open>auto simp: diff_less_mono2\<close>)

definition pretokenizeQwen35 :: "unicode_tables \<Rightarrow> string \<Rightarrow> string list" where
  "pretokenizeQwen35 u text = qwen35_loop u (runes text) 0"


section \<open>Kimi\<close>

definition kimiUpperClass :: "unicode_tables \<Rightarrow> rune \<Rightarrow> bool" where
  "kimiUpperClass u c \<longleftrightarrow> \<not> Is_Han u c \<and> (IsUpper u c \<or> IsTitle u c \<or> Is_Lm u c \<or> Is_Lo u c \<or> Is_M u c)"

definition kimiLowerClass :: "unicode_tables \<Rightarrow> rune \<Rightarrow> bool" where
  "kimiLowerClass u c \<longleftrightarrow> \<not> Is_Han u c \<and> (IsLower u c \<or> Is_Lm u c \<or> Is_Lo u c \<or> Is_M u c)"

definition kimiContractionEnd :: "rune list \<Rightarrow> nat \<Rightarrow> nat" where
  "kimiContractionEnd r i = (case contraction_at r i of None \<Rightarrow> i | Some e \<Rightarrow> e)"

definition matchKimiWord :: "unicode_tables \<Rightarrow> rune list \<Rightarrow> nat \<Rightarrow> nat option" where
  "matchKimiWord u r i =
    (let start = (if i < length r \<and> r ! i \<noteq> 13 \<and> r ! i \<noteq> 10 \<and> \<not> IsLetter u (r ! i) \<and> \<not> IsNumber u (r ! i)
                  then i + 1 else i);
         lowerStart = skip_while (kimiUpperClass u) r start;
         k = skip_while (kimiLowerClass u) r lowerStart
     in if k > lowerStart then Some (kimiContractionEnd r k)
        else if lowerStart > start
        then Some (kimiContractionEnd r (skip_while (kimiLowerClass u) r lowerStart))
        else None)"

definition matchKimiPunct :: "unicode_tables \<Rightarrow> rune list \<Rightarrow> nat \<Rightarrow> nat option" where
  "matchKimiPunct u r i =
    (let start = (if i < length r \<and> r ! i = 32 then i + 1 else i);
         j = skip_while (\<lambda>c. \<not> IsSpace c \<and> \<not> IsLetter u c \<and> \<not> IsNumber u c) r start
     in if j = start then None else Some (skip_while is_newline r j))"

definition kimiWhitespaceEnd :: "rune list \<Rightarrow> nat \<Rightarrow> nat" where
  "kimiWhitespaceEnd r i = whitespace_end r i"

text \<open>Numbers are grouped in threes.\<close>

definition kimi_number_end :: "unicode_tables \<Rightarrow> rune list \<Rightarrow> nat \<Rightarrow> nat" where
  "kimi_number_end u r i = i + 1 + length (takeWhile (IsNumber u) (take 2 (drop (i + 1) r)))"

definition kimi_end :: "unicode_tables \<Rightarrow> rune list \<Rightarrow> nat \<Rightarrow> nat" where
  "kimi_end u r i = (if Is_Han u (r ! i) then skip_while (Is_Han u) r (i + 1)
     else case matchKimiWord u r i of Some e \<Rightarrow> e
     | None \<Rightarrow> if IsNumber u (r ! i) then kimi_number_end u r i
       else (case matchKimiPunct u r i of Some e \<Rightarrow> e
     | None \<Rightarrow> if IsSpace (r ! i) then kimiWhitespaceEnd r i else i + 1))"

lemma kimiContractionEnd_bounds: "k \<le> length r \<Longrightarrow> k \<le> kimiContractionEnd r k \<and> kimiContractionEnd r k \<le> length r"
  using contraction_at_bounds [of r k] by (auto simp: kimiContractionEnd_def split: option.splits)

lemma matchKimiWord_bounds:
  assumes "matchKimiWord u r i = Some e" "i < length r"
  shows "i < e \<and> e \<le> length r"
proof -
  obtain start where st: "start = (if i < length r \<and> r ! i \<noteq> 13 \<and> r ! i \<noteq> 10 \<and> \<not> IsLetter u (r ! i) \<and> \<not> IsNumber u (r ! i)
                  then i + 1 else i)" by blast
  obtain a where a: "a = skip_while (kimiUpperClass u) r start" by blast
  obtain k where k: "k = skip_while (kimiLowerClass u) r a" by blast
  have s: "i \<le> start" "start \<le> length r" using assms(2) st by auto
  have ab: "start \<le> a" "a \<le> length r" using skip_while_bounds [OF s(2)] a by auto
  have kb: "a \<le> k" "k \<le> length r" using skip_while_bounds [OF ab(2)] k by auto
  have "start < k" "e = kimiContractionEnd r k"
    using assms(1) ab kb unfolding matchKimiWord_def Let_def st [symmetric] a [symmetric] k [symmetric]
    by (auto split: if_splits)
  then show ?thesis using kimiContractionEnd_bounds [OF kb(2)] s(1) by auto
qed

lemma kimi_end_bounds:
  assumes i: "i < length r"
  shows "i < kimi_end u r i \<and> kimi_end u r i \<le> length r"
proof -
  have "i + 1 \<le> skip_while (Is_Han u) r (i + 1) \<and> skip_while (Is_Han u) r (i + 1) \<le> length r"
    by (rule skip_while_bounds) (use i in simp)
  moreover have "i < kimi_number_end u r i \<and> kimi_number_end u r i \<le> length r"
    using length_takeWhile_le [of "IsNumber u" "take 2 (drop (i + 1) r)"] i by (auto simp: kimi_number_end_def)
  moreover have "matchKimiPunct u r i = Some e \<Longrightarrow> i < e \<and> e \<le> length r" for e
    unfolding matchKimiPunct_def by (rule punct_bounds [OF _ i])
  ultimately show ?thesis
    using matchKimiWord_bounds [of u r i] whitespace_end_bounds [of i r] i
    by (auto simp: kimi_end_def kimiWhitespaceEnd_def split: option.splits)
qed

function kimi_loop :: "unicode_tables \<Rightarrow> rune list \<Rightarrow> nat \<Rightarrow> string list" where
  "kimi_loop u r i = (if i < length r
     then string_of_runes (sublst r i (kimi_end u r i)) # kimi_loop u r (kimi_end u r i) else [])"
  by pat_completeness auto
termination
  by (relation "measure (\<lambda>(u, r, i). length r - i)") (use kimi_end_bounds in \<open>auto simp: diff_less_mono2\<close>)

definition pretokenizeKimi :: "unicode_tables \<Rightarrow> string \<Rightarrow> string list" where
  "pretokenizeKimi u text = kimi_loop u (runes text) 0"

section \<open>GPT-2\<close>

text \<open>The end of the run after the leading white space, by the class of its first rune.\<close>

definition gpt2_run_end :: "unicode_tables \<Rightarrow> rune list \<Rightarrow> nat \<Rightarrow> nat" where
  "gpt2_run_end u r i =
    (if IsLetter u (r ! i) then skip_while (IsLetter u) r i
     else if IsDigit u (r ! i) then skip_while (IsDigit u) r i
     else skip_while (\<lambda>c. \<not> IsSpace c \<and> \<not> IsLetter u c \<and> \<not> IsDigit u c) r i)"

lemma gpt2_run_end_gt: "i < length r \<Longrightarrow> \<not> IsSpace (r ! i) \<Longrightarrow> i < gpt2_run_end u r i \<and> gpt2_run_end u r i \<le> length r"
  using skip_while_bounds [of i r] by (auto simp: gpt2_run_end_def intro!: skip_while_gt)

lemma skip_while_stop: "skip_while p r i < length r \<Longrightarrow> i \<le> length r \<Longrightarrow> \<not> p (r ! skip_while p r i)"
proof -
  assume l: "skip_while p r i < length r" "i \<le> length r"
  then have "length (takeWhile p (drop i r)) < length (drop i r)" by (simp add: skip_while_def)
  from nth_length_takeWhile [OF this] show ?thesis using l by (simp add: skip_while_def)
qed

function gpt2_loop :: "unicode_tables \<Rightarrow> rune list \<Rightarrow> nat \<Rightarrow> string list" where
  "gpt2_loop u r start =
    (if start < length r then
       let i = skip_while IsSpace r start in
       if i \<ge> length r then (if i > start then [string_of_runes (sublst r start i)] else [])
       else let j = gpt2_run_end u r i; pieceStart = (if i > start then start else i) in
         string_of_runes (sublst r pieceStart j) # gpt2_loop u r j
     else [])"
  by pat_completeness auto
termination
proof (relation "measure (\<lambda>(u, r, i). length r - i)")
  fix u :: unicode_tables and r :: "rune list" and start i j pieceStart :: nat
  assume s: "start < length r" "i = skip_while IsSpace r start" "\<not> length r \<le> i" "j = gpt2_run_end u r i"
  then have "\<not> IsSpace (r ! i)" using skip_while_stop [of IsSpace r start] by simp
  then have "i < j" using gpt2_run_end_gt [of i r u] s by simp
  moreover have "start \<le> i" using s skip_while_ge by simp
  ultimately show "((u, r, j), u, r, start) \<in> measure (\<lambda>(u, r, i). length r - i)" using s by auto
qed simp

definition pretokenizeGPT2 :: "unicode_tables \<Rightarrow> string \<Rightarrow> string list" where
  "pretokenizeGPT2 u text = gpt2_loop u (runes text) 0"

section \<open>The pieces of a rune-based splitter spell the text\<close>

declare qwen35_loop.simps [simp del] kimi_loop.simps [simp del] gpt2_loop.simps [simp del]

lemma string_of_runes_sublst: "i \<le> e \<Longrightarrow> e \<le> length r \<Longrightarrow>
    string_of_runes (sublst r i e) @ string_of_runes (drop e r) = string_of_runes (drop i r)"
proof -
  assume le: "i \<le> e" "e \<le> length r"
  then have "sublst r i e @ drop e r = drop i r"
    using sublst_append [of i e "length r" r] by (simp add: sublst_drop)
  then show ?thesis by (metis string_of_runes_simps(3))
qed

lemma string_of_runes_Nil_iff: "string_of_runes r = [] \<longleftrightarrow> r = []"
  by (cases r) simp_all

lemma sublst_nonempty: "i < e \<Longrightarrow> e \<le> length r \<Longrightarrow> sublst r i e \<noteq> []"
  by (simp add: sublst_def)

definition spells :: "string list \<Rightarrow> string \<Rightarrow> bool" where
  "spells pieces text \<longleftrightarrow> concat pieces = text \<and> [] \<notin> set pieces"

lemma spells_Cons: "p \<noteq> [] \<Longrightarrow> spells ps t \<Longrightarrow> spells (p # ps) (p @ t)"
  by (simp add: spells_def)

lemma spells_step:
  assumes "i < e" "e \<le> length r" "spells ps (string_of_runes (drop e r))"
  shows "spells (string_of_runes (sublst r i e) # ps) (string_of_runes (drop i r))"
proof -
  have "string_of_runes (sublst r i e) \<noteq> []"
    using sublst_nonempty [OF assms(1,2)] by (simp add: string_of_runes_Nil_iff)
  from spells_Cons [OF this assms(3)] show ?thesis
    using string_of_runes_sublst [of i e r] assms(1,2) by simp
qed

lemma qwen35_loop_spells: "spells (qwen35_loop u r i) (string_of_runes (drop i r))"
proof (induction u r i rule: qwen35_loop.induct)
  case (1 u r i)
  then show ?case using qwen35_end_bounds [of i r u] spells_step
    by (cases "i < length r") (auto simp: qwen35_loop.simps [of u r i] spells_def)
qed

lemma kimi_loop_spells: "spells (kimi_loop u r i) (string_of_runes (drop i r))"
proof (induction u r i rule: kimi_loop.induct)
  case (1 u r i)
  then show ?case using kimi_end_bounds [of i r u] spells_step
    by (cases "i < length r") (auto simp: kimi_loop.simps [of u r i] spells_def)
qed

lemma gpt2_loop_spells: "spells (gpt2_loop u r i) (string_of_runes (drop i r))"
proof (induction u r i rule: gpt2_loop.induct)
  case (1 u r s)
  let ?i = "skip_while IsSpace r s"
  have b: "s \<le> ?i" "?i \<le> length r" if "s < length r" using skip_while_bounds [of s r IsSpace] that by auto
  show ?case
  proof (cases "s < length r")
    case False
    then show ?thesis by (simp add: gpt2_loop.simps [of u r s] spells_def)
  next
    case s: True
    show ?thesis
    proof (cases "length r \<le> ?i")
      case True
      then have "?i = length r" using b s by simp
      then have "gpt2_loop u r s = [string_of_runes (sublst r s ?i)]" using s by (simp add: gpt2_loop.simps [of u r s] Let_def)
      moreover have "spells [string_of_runes (sublst r s ?i)] (string_of_runes (drop s r))"
        by (rule spells_step) (use s b True in \<open>auto simp: spells_def\<close>)
      ultimately show ?thesis by simp
    next
      case False
      then have "\<not> IsSpace (r ! ?i)" using skip_while_stop [of IsSpace r s] s by simp
      note j = gpt2_run_end_gt [OF _ this, of u]
      have "gpt2_loop u r s = string_of_runes (sublst r s (gpt2_run_end u r ?i)) # gpt2_loop u r (gpt2_run_end u r ?i)"
        using s False b by (auto simp: gpt2_loop.simps [of u r s] Let_def)
      moreover have "spells (gpt2_loop u r (gpt2_run_end u r ?i)) (string_of_runes (drop (gpt2_run_end u r ?i) r))"
        using 1 s False by simp
      ultimately show ?thesis using spells_step [of s "gpt2_run_end u r ?i" r] j False b s by simp
    qed
  qed
qed


section \<open>Tekken\<close>

text \<open>Offsets are bytes; a rune is read with its width.\<close>

definition tekkenRune :: "string \<Rightarrow> nat \<Rightarrow> rune \<times> nat" where
  "tekkenRune inp i = (if ord (inp ! i) < (128::nat) then (ord (inp ! i), 1) else DecodeRune (drop i inp))"

lemma tekkenRune_width: "i < length inp \<Longrightarrow> 1 \<le> snd (tekkenRune inp i) \<and> i + snd (tekkenRune inp i) \<le> length inp"
  using DecodeRune_size [of "drop i inp"] by (auto simp: tekkenRune_def)

function tekken_skip :: "(rune \<Rightarrow> bool) \<Rightarrow> string \<Rightarrow> nat \<Rightarrow> nat" where
  "tekken_skip p inp k = (if k < length inp \<and> p (fst (tekkenRune inp k))
     then tekken_skip p inp (k + snd (tekkenRune inp k)) else k)"
  by pat_completeness auto
termination
  by (relation "measure (\<lambda>(p, inp, k). length inp - k)") (use tekkenRune_width in \<open>fastforce+\<close>)

declare tekken_skip.simps [simp del]

lemma tekken_skip_bounds: "k \<le> length inp \<Longrightarrow> k \<le> tekken_skip p inp k \<and> tekken_skip p inp k \<le> length inp"
proof (induction p inp k rule: tekken_skip.induct)
  case (1 p inp k)
  show ?case
  proof (cases "k < length inp \<and> p (fst (tekkenRune inp k))")
    case True
    then show ?thesis using 1 tekkenRune_width [of k inp] by (simp add: tekken_skip.simps [of p inp k])
  next
    case False
    then have "tekken_skip p inp k = k" unfolding tekken_skip.simps [of p inp k] by (simp only: if_False)
    then show ?thesis using 1(2) by simp
  qed
qed

definition byte_skip :: "char set \<Rightarrow> string \<Rightarrow> nat \<Rightarrow> nat" where
  "byte_skip cs inp j = j + length (takeWhile (\<lambda>c. c \<in> cs) (drop j inp))"

lemma byte_skip_bounds: "j \<le> length inp \<Longrightarrow> j \<le> byte_skip cs inp j \<and> byte_skip cs inp j \<le> length inp"
  using length_takeWhile_le [of "\<lambda>c. c \<in> cs" "drop j inp"] by (simp add: byte_skip_def)

definition tekkenUpperClass :: "unicode_tables \<Rightarrow> rune \<Rightarrow> bool" where
  "tekkenUpperClass u c \<longleftrightarrow> (IsLetter u c \<and> \<not> IsLower u c) \<or> Is_M u c"

definition tekkenLowerClass :: "unicode_tables \<Rightarrow> rune \<Rightarrow> bool" where
  "tekkenLowerClass u c \<longleftrightarrow> (IsLetter u c \<and> \<not> IsUpper u c \<and> \<not> IsTitle u c) \<or> Is_M u c"

definition matchTekkenWord :: "unicode_tables \<Rightarrow> string \<Rightarrow> nat \<Rightarrow> nat option" where
  "matchTekkenWord u inp i =
    (let (c, width) = tekkenRune inp i;
         opt = (if c \<noteq> 13 \<and> c \<noteq> 10 \<and> \<not> IsLetter u c \<and> \<not> IsNumber u c then i + width else i);
         lStart = tekken_skip (tekkenUpperClass u) inp opt;
         k = tekken_skip (tekkenLowerClass u) inp lStart
     in if k > lStart then Some k else if k > opt then Some k else None)"

definition matchTekkenPunct :: "unicode_tables \<Rightarrow> string \<Rightarrow> nat \<Rightarrow> nat option" where
  "matchTekkenPunct u inp i =
    (let pStart = (if inp ! i = CHR '' '' then i + 1 else i);
         j = tekken_skip (\<lambda>c. \<not> (IsSpace c \<or> IsLetter u c \<or> IsNumber u c)) inp pStart
     in if j = pStart then None else Some (byte_skip {chr 13, chr 10, CHR ''/''} inp j))"

function tekken_ws :: "string \<Rightarrow> nat \<Rightarrow> nat option \<Rightarrow> nat" where
  "tekken_ws inp k lastNL = (if k < length inp \<and> IsSpace (fst (tekkenRune inp k))
     then tekken_ws inp (k + snd (tekkenRune inp k))
            (if is_newline (fst (tekkenRune inp k)) then Some (k + snd (tekkenRune inp k)) else lastNL)
     else case lastNL of Some n \<Rightarrow> n | None \<Rightarrow> k)"
  by pat_completeness auto
termination
  by (relation "measure (\<lambda>(inp, k, lastNL). length inp - k)") (use tekkenRune_width in \<open>fastforce+\<close>)

declare tekken_ws.simps [simp del]

definition tekkenWhitespaceEnd :: "string \<Rightarrow> nat \<Rightarrow> nat" where
  "tekkenWhitespaceEnd inp i = tekken_ws inp i None"

definition tekken_end :: "unicode_tables \<Rightarrow> string \<Rightarrow> nat \<Rightarrow> nat" where
  "tekken_end u inp i = (case matchTekkenWord u inp i of Some e \<Rightarrow> e
     | None \<Rightarrow> (let (c, width) = tekkenRune inp i in
         if IsNumber u c then i + width
         else (case matchTekkenPunct u inp i of Some e \<Rightarrow> e
     | None \<Rightarrow> if IsSpace c then tekkenWhitespaceEnd inp i else i + width)))"

lemma matchTekkenWord_bounds:
  assumes "matchTekkenWord u inp i = Some e" "i < length inp"
  shows "i < e \<and> e \<le> length inp"
proof -
  obtain c w where cw: "tekkenRune inp i = (c, w)" by (cases "tekkenRune inp i")
  have w: "1 \<le> w" "i + w \<le> length inp" using tekkenRune_width [OF assms(2)] cw by auto
  obtain opt where opt: "opt = (if c \<noteq> 13 \<and> c \<noteq> 10 \<and> \<not> IsLetter u c \<and> \<not> IsNumber u c then i + w else i)" by blast
  obtain a where a: "a = tekken_skip (tekkenUpperClass u) inp opt" by blast
  obtain k where k: "k = tekken_skip (tekkenLowerClass u) inp a" by blast
  have o: "i \<le> opt" "opt \<le> length inp" using opt w assms(2) by auto
  have ab: "opt \<le> a" "a \<le> length inp" using tekken_skip_bounds [OF o(2)] a by auto
  have kb: "a \<le> k" "k \<le> length inp" using tekken_skip_bounds [OF ab(2)] k by auto
  have "opt < k" "e = k"
    using assms(1) ab kb unfolding matchTekkenWord_def cw Let_def prod.case opt [symmetric] a [symmetric] k [symmetric]
    by (auto split: if_splits)
  then show ?thesis using kb o by linarith
qed

lemma matchTekkenPunct_bounds:
  assumes "matchTekkenPunct u inp i = Some e" "i < length inp"
  shows "i < e \<and> e \<le> length inp"
proof -
  obtain start where st: "start = (if inp ! i = CHR '' '' then i + 1 else i)" by blast
  obtain j where j: "j = tekken_skip (\<lambda>c. \<not> (IsSpace c \<or> IsLetter u c \<or> IsNumber u c)) inp start" by blast
  have s: "i \<le> start" "start \<le> length inp" using assms(2) st by auto
  have e: "j \<noteq> start" "e = byte_skip {chr 13, chr 10, CHR ''/''} inp j"
    using assms(1) unfolding matchTekkenPunct_def Let_def st [symmetric] j [symmetric] by (auto split: if_splits)
  have "start < j" "j \<le> length inp"
    using tekken_skip_bounds [OF s(2), of "\<lambda>c. \<not> (IsSpace c \<or> IsLetter u c \<or> IsNumber u c)"] e(1) j by auto
  moreover have "j \<le> e" "e \<le> length inp" using byte_skip_bounds [OF calculation(2)] e(2) by auto
  ultimately show ?thesis using s by linarith
qed

lemma tekken_ws_bounds:
  "k \<le> length inp \<Longrightarrow> i < k \<Longrightarrow> (case lastNL of None \<Rightarrow> True | Some n \<Rightarrow> i < n \<and> n \<le> length inp) \<Longrightarrow>
    i < tekken_ws inp k lastNL \<and> tekken_ws inp k lastNL \<le> length inp"
proof (induction inp k lastNL rule: tekken_ws.induct)
  case (1 inp k lastNL)
  show ?case
  proof (cases "k < length inp \<and> IsSpace (fst (tekkenRune inp k))")
    case True
    have w: "1 \<le> snd (tekkenRune inp k)" "k + snd (tekkenRune inp k) \<le> length inp"
      using tekkenRune_width [of k inp] True by auto
    have "i < tekken_ws inp (k + snd (tekkenRune inp k))
            (if is_newline (fst (tekkenRune inp k)) then Some (k + snd (tekkenRune inp k)) else lastNL)
        \<and> tekken_ws inp (k + snd (tekkenRune inp k))
            (if is_newline (fst (tekkenRune inp k)) then Some (k + snd (tekkenRune inp k)) else lastNL) \<le> length inp"
      by (rule 1(1) [OF True]) (use w 1(2-4) in auto)
    then show ?thesis using True by (simp add: tekken_ws.simps [of inp k lastNL])
  next
    case False
    then have "tekken_ws inp k lastNL = (case lastNL of Some n \<Rightarrow> n | None \<Rightarrow> k)"
      unfolding tekken_ws.simps [of inp k lastNL] by (simp only: if_False)
    then show ?thesis using 1(2-4) by (auto split: option.splits)
  qed
qed

lemma tekkenWhitespaceEnd_bounds:
  assumes i: "i < length inp" and sp: "IsSpace (fst (tekkenRune inp i))"
  shows "i < tekkenWhitespaceEnd inp i \<and> tekkenWhitespaceEnd inp i \<le> length inp"
proof -
  let ?k = "i + snd (tekkenRune inp i)"
  let ?nl = "if is_newline (fst (tekkenRune inp i)) then Some ?k else None"
  have "tekkenWhitespaceEnd inp i = tekken_ws inp ?k ?nl"
    using i sp by (simp add: tekkenWhitespaceEnd_def tekken_ws.simps [of inp i None])
  moreover have "i < tekken_ws inp ?k ?nl \<and> tekken_ws inp ?k ?nl \<le> length inp"
    by (rule tekken_ws_bounds) (use tekkenRune_width [OF i] in auto)
  ultimately show ?thesis by simp
qed

lemma tekken_end_bounds:
  assumes i: "i < length inp"
  shows "i < tekken_end u inp i \<and> tekken_end u inp i \<le> length inp"
  using matchTekkenWord_bounds [of u inp i] matchTekkenPunct_bounds [of u inp i] tekkenWhitespaceEnd_bounds [OF i]
    tekkenRune_width [OF i] i
  by (auto simp: tekken_end_def split: option.splits prod.splits)

function tekken_loop :: "unicode_tables \<Rightarrow> string \<Rightarrow> nat \<Rightarrow> string list" where
  "tekken_loop u inp i = (if i < length inp
     then sublst inp i (tekken_end u inp i) # tekken_loop u inp (tekken_end u inp i) else [])"
  by pat_completeness auto
termination
  by (relation "measure (\<lambda>(u, inp, i). length inp - i)") (use tekken_end_bounds in \<open>auto simp: diff_less_mono2\<close>)

declare tekken_loop.simps [simp del]

definition pretokenizeTekken :: "unicode_tables \<Rightarrow> string \<Rightarrow> string list" where
  "pretokenizeTekken u inp =
     tekken_loop u (if \<not> ValidString inp then string_of_runes (runes inp) else inp) 0"

lemma tekken_loop_spells: "spells (tekken_loop u inp i) (drop i inp)"
proof (induction u inp i rule: tekken_loop.induct)
  case (1 u inp i)
  show ?case
  proof (cases "i < length inp")
    case True
    note b = tekken_end_bounds [OF True, of u]
    have "sublst inp i (tekken_end u inp i) @ drop (tekken_end u inp i) inp = drop i inp"
      using sublst_append [of i "tekken_end u inp i" "length inp" inp] b by (simp add: sublst_drop)
    moreover have "sublst inp i (tekken_end u inp i) \<noteq> []" using sublst_nonempty b by blast
    ultimately show ?thesis using 1 [OF True] spells_Cons True
      by (metis tekken_loop.simps)
  next
    case False
    then show ?thesis by (simp add: tekken_loop.simps [of u inp i] spells_def)
  qed
qed

section \<open>All four\<close>

definition pretokenize :: "unicode_tables \<Rightarrow> string \<Rightarrow> string \<Rightarrow> string list" where
  "pretokenize u pre inp =
    (if Contains pre ''qwen35'' then pretokenizeQwen35 u inp
     else if Contains pre ''kimi'' then pretokenizeKimi u inp
     else if Contains pre ''tekken'' then pretokenizeTekken u inp
     else pretokenizeGPT2 u inp)"

text \<open>The text every splitter works on: invalid bytes become replacement runes.\<close>

definition clean_text :: "string \<Rightarrow> string" where
  "clean_text inp = string_of_runes (runes inp)"

lemma clean_valid: "ValidString inp \<Longrightarrow> clean_text inp = inp"
  by (simp add: clean_text_def string_of_runes_runes)

lemma pretokenize_all: "spells (pretokenize u pre inp) (clean_text inp)"
proof -
  have "spells (pretokenizeTekken u inp) (clean_text inp)"
  proof (cases "ValidString inp")
    case True
    then show ?thesis using tekken_loop_spells [of u inp 0] by (simp add: pretokenizeTekken_def clean_valid)
  next
    case False
    then show ?thesis using tekken_loop_spells [of u "clean_text inp" 0] by (simp add: pretokenizeTekken_def clean_text_def)
  qed
  moreover have "spells (pretokenizeQwen35 u inp) (clean_text inp)"
    using qwen35_loop_spells [of u "runes inp" 0] by (simp add: pretokenizeQwen35_def clean_text_def)
  moreover have "spells (pretokenizeKimi u inp) (clean_text inp)"
    using kimi_loop_spells [of u "runes inp" 0] by (simp add: pretokenizeKimi_def clean_text_def)
  moreover have "spells (pretokenizeGPT2 u inp) (clean_text inp)"
    using gpt2_loop_spells [of u "runes inp" 0] by (simp add: pretokenizeGPT2_def clean_text_def)
  ultimately show ?thesis by (simp add: pretokenize_def)
qed

end
