(* ===== verification/Tokenizer.thy ===== *)
theory Tokenizer
  imports Bpe_Merge Pretokenize Gguf_Types
begin

text \<open>
  The tokenizer families of \<^verbatim>\<open>internal/tokenizer/tokenizer.go\<close>: construction from GGUF metadata,
  SentencePiece, WordPiece and byte-level BPE encoding, and decoding of token ids.

  A \<^verbatim>\<open>float32\<close> score is its exact value. The Unicode tables and the accent table are parameters; so
  is the second vocabulary convention (\<^verbatim>\<open>voxtral_tokenizer.go\<close>), which is a file of its own.
\<close>

section \<open>The tokenizer and its byte alphabet\<close>

datatype TokenizerMode = TokenizerSentencePiece | TokenizerGPT2BPE | TokenizerWordPiece

record Tokenizer =
  Vocab :: "string list"
  Scores :: "float64 list"
  TokenToID :: "string \<rightharpoonup> u32"
  MergeRanks :: "(string \<times> string) \<rightharpoonup> nat"
  ByteEncoder :: "char \<rightharpoonup> rune"
  ByteDecoder :: "rune \<rightharpoonup> char"
  Mode :: TokenizerMode
  Pre :: string
  AddBOS :: bool
  AddEOS :: bool
  AddSEP :: bool
  BOSID :: u32
  EOSID :: u32
  UNKID :: u32
  SEPID :: u32
  Lowercase :: bool
  StripAccents :: bool
  RawWordPieceVocab :: bool

definition printable_bytes :: "nat list" where
  "printable_bytes = [33..<127] @ [161..<173] @ [174..<256]"

text \<open>The remaining bytes are assigned the runes from 256 on, in order.\<close>

definition fill_byte :: "nat list \<times> nat list \<times> nat \<Rightarrow> nat \<Rightarrow> nat list \<times> nat list \<times> nat" where
  "fill_byte s b = (case s of (bs, cs, n) \<Rightarrow>
     if b \<in> set bs then (bs, cs, n) else (bs @ [b], cs @ [256 + n], n + 1))"

definition byte_pairs :: "(nat \<times> nat) list" where
  "byte_pairs = (case foldl fill_byte (printable_bytes, printable_bytes, 0) [0..<256] of (bs, cs, n) \<Rightarrow> zip bs cs)"

definition buildByteMaps :: "(char \<rightharpoonup> rune) \<times> (rune \<rightharpoonup> char)" where
  "buildByteMaps =
     (\<lambda>c. map_of (rev byte_pairs) (ord c),
      \<lambda>r. map_option chr (map_of (rev (map prod.swap byte_pairs)) r))"

section \<open>Construction\<close>

datatype tok_error = MissingTokens | TokensNotStrings | VoxtralVocabulary string

text \<open>The value of an IEEE 754 binary32 bit pattern.\<close>

definition f32_value :: "u32 \<Rightarrow> float64" where
  "f32_value w =
    (let s = (if unat w < 2147483648 then 1 else - 1) :: rat;
         e = unat w div 8388608 mod 256;
         m = of_nat (unat w mod 8388608) :: rat
     in if e = 255 then (if m \<noteq> 0 then NaN else if s = 1 then PosInf else NegInf)
        else if e = 0 then Num (s * m / 2 ^ 149)
        else Num (s * (8388608 + m) * 2 ^ e / 2 ^ 150))"

definition fl_neg :: "float64 \<Rightarrow> float64" where
  "fl_neg x = (case x of NaN \<Rightarrow> NaN | PosInf \<Rightarrow> NegInf | NegInf \<Rightarrow> PosInf | Num q \<Rightarrow> Num (- q))"

definition token_ids :: "string list \<Rightarrow> string \<rightharpoonup> u32" where
  "token_ids vocab = map_of (rev (zip vocab (map word_of_nat [0..<length vocab])))"

definition merge_ranks :: "string list \<Rightarrow> (string \<times> string) \<rightharpoonup> nat" where
  "merge_ranks merges = map_of (rev (List.map_filter
     (\<lambda>(rank, merge). map_option (\<lambda>p. (p, rank)) (Cut merge '' '')) (zip [0..<length merges] merges)))"

definition read_scores :: "(u64 \<Rightarrow> u32) \<Rightarrow> (string, meta_value) gomap \<Rightarrow> nat \<Rightarrow> float64 list" where
  "read_scores f64_to_f32 metadata n =
    (let arr = (case map_of metadata ''tokenizer.ggml.scores'' of
         Some v \<Rightarrow> (case AsF32Array f64_to_f32 v of Some arr \<Rightarrow> arr | None \<Rightarrow> []) | None \<Rightarrow> [])
     in map (\<lambda>i. if i < length arr then f32_value (arr ! i) else Num 0) [0..<n])"

definition read_string :: "(string, meta_value) gomap \<Rightarrow> string \<Rightarrow> string" where
  "read_string metadata key = (case map_of metadata key of
     Some v \<Rightarrow> (case AsString v of Some s \<Rightarrow> s | None \<Rightarrow> []) | None \<Rightarrow> [])"

fun find_id :: "(string, meta_value) gomap \<Rightarrow> string list \<Rightarrow> u32 option" where
  "find_id metadata [] = None"
| "find_id metadata (key # keys) =
    (case map_of metadata key of
       Some v \<Rightarrow> (case AsU32 v of Some n \<Rightarrow> Some n | None \<Rightarrow> find_id metadata keys)
     | None \<Rightarrow> find_id metadata keys)"

definition readID :: "(string, meta_value) gomap \<Rightarrow> u32 \<Rightarrow> string list \<Rightarrow> u32" where
  "readID metadata current keys = (case find_id metadata keys of Some n \<Rightarrow> n | None \<Rightarrow> current)"

definition readBool :: "(string, meta_value) gomap \<Rightarrow> bool \<Rightarrow> string \<Rightarrow> bool" where
  "readBool metadata current key = (case map_of metadata key of
     Some v \<Rightarrow> (case AsBool v of Some b \<Rightarrow> b | None \<Rightarrow> current) | None \<Rightarrow> current)"

definition sp_mark :: string where
  "sp_mark = EncodeRune 9601"

definition select_mode :: "string \<Rightarrow> string \<Rightarrow> TokenizerMode" where
  "select_mode model pre =
    (if EqualFold_plain model ''gpt2'' \<or> Contains pre ''qwen'' \<or> Contains pre ''gpt''
        \<or> Contains pre ''tekken'' \<or> Contains pre ''kimi'' then TokenizerGPT2BPE
     else if EqualFold_plain model ''bert'' then TokenizerWordPiece
     else TokenizerSentencePiece)"

definition sep_keys :: "string list" where
  "sep_keys = [''tokenizer.ggml.seperator_token_id'', ''tokenizer.ggml.separator_token_id'',
     ''tokenizer.ggml.sep_token_id'']"

text \<open>A vocabulary is raw WordPiece when it has a ## token, or no phantom-space token at all.\<close>

fun raw_wordpiece :: "bool \<Rightarrow> string list \<Rightarrow> bool" where
  "raw_wordpiece hasPhantomSpace [] = (\<not> hasPhantomSpace)"
| "raw_wordpiece hasPhantomSpace (token # ts) =
    (if HasPrefix token ''##'' then True
     else raw_wordpiece (hasPhantomSpace \<or> HasPrefix token sp_mark) ts)"

definition build_tokenizer :: "unicode_tables \<Rightarrow> (u64 \<Rightarrow> u32) \<Rightarrow> (string, meta_value) gomap \<Rightarrow> string list \<Rightarrow> Tokenizer" where
  "build_tokenizer u f64_to_f32 metadata vocab =
    (let ids = token_ids vocab;
         merges = (case map_of metadata ''tokenizer.ggml.merges'' of
            Some v \<Rightarrow> (case AsStringArray v of Some ms \<Rightarrow> ms | None \<Rightarrow> []) | None \<Rightarrow> []);
         pre = strings_ToLower u (read_string metadata ''tokenizer.ggml.pre'');
         mode = select_mode (read_string metadata ''tokenizer.ggml.model'') pre;
         wp = (mode = TokenizerWordPiece);
         (bos0, eos0, unk0, sep0) = (if wp then (101, 102, 100, 102) else (1, 2, 0, 2));
         bos1 = (case (if wp then ids ''[CLS]'' else None) of Some i \<Rightarrow> i | None \<Rightarrow> bos0);
         unk1 = (case (if wp then ids ''[UNK]'' else None) of Some i \<Rightarrow> i
            | None \<Rightarrow> (case (if wp then ids ''<unk>'' else None) of Some i \<Rightarrow> i | None \<Rightarrow> unk0));
         sepVocab = (if wp then ids ''[SEP]'' else None);
         sep1 = (case sepVocab of Some i \<Rightarrow> i | None \<Rightarrow> sep0);
         eos1 = (case sepVocab of Some i \<Rightarrow> i | None \<Rightarrow> eos0);
         bosID = readID metadata bos1 [''tokenizer.ggml.bos_token_id'', ''tokenizer.ggml.cls_token_id''];
         eosID = readID metadata eos1 [''tokenizer.ggml.eos_token_id''];
         unkID = readID metadata unk1 [''tokenizer.ggml.unknown_token_id''];
         sepID = (case find_id metadata sep_keys of Some n \<Rightarrow> n
            | None \<Rightarrow> if wp \<and> sepVocab = None then eosID else sep1);
         lowercase = readBool metadata wp ''tokenizer.ggml.normalizer.lowercase''
     in \<lparr>Vocab = vocab, Scores = read_scores f64_to_f32 metadata (length vocab), TokenToID = ids,
         MergeRanks = merge_ranks merges, ByteEncoder = fst buildByteMaps, ByteDecoder = snd buildByteMaps,
         Mode = mode, Pre = pre,
         AddBOS = readBool metadata True ''tokenizer.ggml.add_bos_token'',
         AddEOS = readBool metadata False ''tokenizer.ggml.add_eos_token'',
         AddSEP = readBool metadata wp ''tokenizer.ggml.add_sep_token'',
         BOSID = bosID, EOSID = eosID, UNKID = unkID, SEPID = sepID, Lowercase = lowercase,
         StripAccents = readBool metadata lowercase ''tokenizer.ggml.normalizer.strip_accents'',
         RawWordPieceVocab = wp \<and> raw_wordpiece False vocab\<rparr>)"

definition TokenizerFromMetadata :: "unicode_tables \<Rightarrow> (u64 \<Rightarrow> u32) \<Rightarrow>
    ((string, meta_value) gomap \<Rightarrow> tok_error + Tokenizer) \<Rightarrow> (string, meta_value) gomap \<Rightarrow> tok_error + Tokenizer" where
  "TokenizerFromMetadata u f64_to_f32 voxtral metadata =
    (case map_of metadata ''tokenizer.ggml.tokens'' of
       None \<Rightarrow> (if map_of metadata ''voxtral.tokenizer.vocab_token_bytes_b64'' \<noteq> None then voxtral metadata
                else Inl MissingTokens)
     | Some tokensValue \<Rightarrow> (case AsStringArray tokensValue of
         None \<Rightarrow> Inl TokensNotStrings
       | Some vocab \<Rightarrow> Inr (build_tokenizer u f64_to_f32 metadata vocab)))"

section \<open>Decoding\<close>

definition decodeRaw :: "Tokenizer \<Rightarrow> u32 \<Rightarrow> string" where
  "decodeRaw t i = (if unat i < length (Vocab t) then Vocab t ! unat i else [])"

definition decodeGPT2Bytes :: "Tokenizer \<Rightarrow> string \<Rightarrow> string" where
  "decodeGPT2Bytes t raw = concat (map (\<lambda>ch. case ByteDecoder t ch of Some b \<Rightarrow> [b] | None \<Rightarrow> EncodeRune ch) (runes raw))"

definition hex_value :: "char \<Rightarrow> nat option" where
  "hex_value c = (let n = ord c in
     if 48 \<le> n \<and> n \<le> 57 then Some (n - 48)
     else if 65 \<le> n \<and> n \<le> 70 then Some (n - 55)
     else if 97 \<le> n \<and> n \<le> 102 then Some (n - 87)
     else None)"

definition byte_token :: "string \<Rightarrow> char option" where
  "byte_token raw =
    (if HasPrefix raw ''<0x'' \<and> HasSuffix raw ''>'' \<and> length raw = 6
     then (case (hex_value (raw ! 3), hex_value (raw ! 4)) of
             (Some a, Some b) \<Rightarrow> Some (chr (16 * a + b)) | _ \<Rightarrow> None)
     else None)"

definition DecodeToken :: "Tokenizer \<Rightarrow> u32 \<Rightarrow> string" where
  "DecodeToken t i =
    (let raw = decodeRaw t i in
     if Mode t = TokenizerGPT2BPE then decodeGPT2Bytes t raw
     else if Mode t = TokenizerWordPiece \<and> RawWordPieceVocab t then
       (if HasPrefix raw ''##'' then TrimPrefix raw ''##''
        else if (HasPrefix raw ''['' \<and> HasSuffix raw '']'') \<or> (HasPrefix raw ''<'' \<and> HasSuffix raw ''>'') then raw
        else '' '' @ raw)
     else case byte_token raw of Some b \<Rightarrow> [b] | None \<Rightarrow> ReplaceAll raw sp_mark '' '')"

definition SpecialID :: "Tokenizer \<Rightarrow> string \<Rightarrow> u32 option" where
  "SpecialID t token = TokenToID t token"

section \<open>Encoding\<close>

definition hex_digit :: "nat \<Rightarrow> char" where
  "hex_digit n = ''0123456789ABCDEF'' ! n"

definition spByteTokens :: "char \<Rightarrow> string" where
  "spByteTokens c = ''<0x'' @ [hex_digit (ord c div 16), hex_digit (ord c mod 16), CHR ''>'']"

definition piece_tokens :: "Tokenizer \<Rightarrow> string \<Rightarrow> u32 list" where
  "piece_tokens t piece = (case TokenToID t piece of Some i \<Rightarrow> [i]
     | None \<Rightarrow> List.map_filter (\<lambda>b. TokenToID t (spByteTokens b)) piece)"

definition appendPieceTokens :: "Tokenizer \<Rightarrow> u32 list \<Rightarrow> string \<Rightarrow> u32 list" where
  "appendPieceTokens t out piece = out @ piece_tokens t piece"

definition encodeFromPieces :: "Tokenizer \<Rightarrow> string list \<Rightarrow> u32 list" where
  "encodeFromPieces t pieces = foldl (appendPieceTokens t) [] pieces"

definition seedSentencePiece :: "Tokenizer \<Rightarrow> string \<Rightarrow> u32 list" where
  "seedSentencePiece t processed = foldl (appendPieceTokens t) [] (rune_strings processed)"

text \<open>The constant \<open>-3.4e38\<close> as a \<^verbatim>\<open>float32\<close>.\<close>

definition score_floor :: float64 where
  "score_floor = Num (- 339999995214436424907732413799364296704)"

definition sp_rating :: "Tokenizer \<Rightarrow> string \<Rightarrow> string \<Rightarrow> (float64 \<times> u32) option" where
  "sp_rating t l r = (case TokenToID t (l @ r) of None \<Rightarrow> None
     | Some i \<Rightarrow> (let score = (if unat i < length (Scores t) then Scores t ! unat i else Num 0) in
         if \<not> fl_less score_floor score then None else Some (fl_neg score, i)))"

definition sp_symbols :: "Tokenizer \<Rightarrow> u32 list \<Rightarrow> bpeSymbol list" where
  "sp_symbols t current = map (\<lambda>(s, i). s\<lparr>bs_id := i, bs_text := decodeRaw t i\<rparr>)
     (zip (newBPESymbols (length current)) current)"

definition encodeSentencePiece :: "nat \<Rightarrow> Tokenizer \<Rightarrow> string \<Rightarrow> u32 list" where
  "encodeSentencePiece scanMax t inp =
    (let processed = ReplaceAll ('' '' @ inp) '' '' sp_mark;
         current = seedSentencePiece t processed
     in if length current < 2 then current
        else map bs_id (live (mergeBPESymbols scanMax (text_rating (sp_rating t)) (\<lambda>l r i. decodeRaw t i)
               (sp_symbols t current))))"

definition bpeSymbolsFromRunes :: "string \<Rightarrow> bpeSymbol list" where
  "bpeSymbolsFromRunes s = (let ps = rune_strings s; n = length ps in
     map (\<lambda>(i, p). \<lparr>bs_text = p, bs_id = 0, bs_prev = int i - 1,
       bs_next = (if Suc i = n then - 1 else int i + 1), bs_dead = False\<rparr>) (zip [0..<n] ps))"

definition gpt2_rating :: "Tokenizer \<Rightarrow> string \<Rightarrow> string \<Rightarrow> (float64 \<times> u32) option" where
  "gpt2_rating t l r = (case MergeRanks t (l, r) of None \<Rightarrow> None | Some rank \<Rightarrow> Some (Num (of_nat rank), 0))"

definition map_bytes :: "Tokenizer \<Rightarrow> string \<Rightarrow> string" where
  "map_bytes t piece = concat (map (\<lambda>c. case ByteEncoder t c of Some ch \<Rightarrow> EncodeRune ch | None \<Rightarrow> []) piece)"

definition gpt2_piece :: "nat \<Rightarrow> Tokenizer \<Rightarrow> string \<Rightarrow> u32 list" where
  "gpt2_piece scanMax t piece =
    (let mapped = map_bytes t piece in
     if mapped = [] then []
     else concat (map (\<lambda>s. piece_tokens t (bs_text s))
       (live (mergeBPESymbols scanMax (text_rating (gpt2_rating t)) (\<lambda>l r i. bs_text l @ bs_text r)
          (bpeSymbolsFromRunes mapped)))))"

definition encodeGPT2BPE :: "nat \<Rightarrow> unicode_tables \<Rightarrow> Tokenizer \<Rightarrow> string \<Rightarrow> u32 list" where
  "encodeGPT2BPE scanMax u t inp = concat (map (gpt2_piece scanMax t) (pretokenize u (Pre t) inp))"

section \<open>WordPiece\<close>

definition isWordPieceCJK :: "rune \<Rightarrow> bool" where
  "isWordPieceCJK r \<longleftrightarrow> (0x4E00 \<le> r \<and> r \<le> 0x9FFF) \<or> (0x3400 \<le> r \<and> r \<le> 0x4DBF)
     \<or> (0x20000 \<le> r \<and> r \<le> 0x2A6DF) \<or> (0x2A700 \<le> r \<and> r \<le> 0x2B73F) \<or> (0x2B740 \<le> r \<and> r \<le> 0x2B81F)
     \<or> (0x2B920 \<le> r \<and> r \<le> 0x2CEAF) \<or> (0xF900 \<le> r \<and> r \<le> 0xFAFF) \<or> (0x2F800 \<le> r \<and> r \<le> 0x2FA1F)"

definition wp_flush :: "string list \<Rightarrow> rune list \<Rightarrow> string list" where
  "wp_flush words current = (if current = [] then words else words @ [string_of_runes current])"

fun wp_scan :: "unicode_tables \<Rightarrow> (rune \<Rightarrow> rune) \<Rightarrow> Tokenizer \<Rightarrow> string list \<Rightarrow> rune list \<Rightarrow> rune list \<Rightarrow> string list" where
  "wp_scan u strip t words current [] = wp_flush words current"
| "wp_scan u strip t words current (r # rs) =
    (if IsSpace r \<or> Is_Z u r then wp_scan u strip t (wp_flush words current) [] rs
     else if r = 0 \<or> r = RuneError \<or> IsControl u r \<or> Is_Cf u r then wp_scan u strip t words current rs
     else let r1 = (if Lowercase t then rune_ToLower u r else r) in
       if StripAccents t \<and> Is_Mn u r1 then wp_scan u strip t words current rs
       else let r2 = (if StripAccents t then strip r1 else r1) in
         if IsPunct u r2 \<or> (r2 < 127 \<and> IsSymbol u r2) \<or> isWordPieceCJK r2
         then wp_scan u strip t (wp_flush words current @ [string_of_runes [r2]]) [] rs
         else wp_scan u strip t words (current @ [r2]) rs)"

definition preprocessWordPiece :: "unicode_tables \<Rightarrow> (rune \<Rightarrow> rune) \<Rightarrow> Tokenizer \<Rightarrow> string \<Rightarrow> string list" where
  "preprocessWordPiece u strip t inp = wp_scan u strip t [] [] (runes inp)"

definition wp_candidate :: "Tokenizer \<Rightarrow> rune list \<Rightarrow> nat \<Rightarrow> nat \<Rightarrow> string" where
  "wp_candidate t pieces i e =
     (if RawWordPieceVocab t \<and> i > 0 then ''##'' else []) @ string_of_runes (sublst pieces i e)"

text \<open>\<open>for end := len(pieces); end > start; end--\<close>: the longest match.\<close>

definition wp_longest :: "Tokenizer \<Rightarrow> rune list \<Rightarrow> nat \<Rightarrow> nat option" where
  "wp_longest t pieces i =
     find (\<lambda>e. TokenToID t (wp_candidate t pieces i e) \<noteq> None) (rev [i + 1..<length pieces + 1])"

lemma find_member: "find p xs = Some x \<Longrightarrow> p x \<and> x \<in> set xs"
  by (induction xs) (auto split: if_splits)

lemma wp_longest_bounds: "wp_longest t pieces i = Some e \<Longrightarrow> i < e \<and> e \<le> length pieces"
  by (auto simp: wp_longest_def dest!: find_member)

text \<open>\<open>None\<close>: some position has no match, so the word is the unknown token.\<close>

function wp_word :: "Tokenizer \<Rightarrow> rune list \<Rightarrow> nat \<Rightarrow> u32 list option" where
  "wp_word t pieces i =
    (if i < length pieces then
       (case wp_longest t pieces i of
          None \<Rightarrow> None
        | Some e \<Rightarrow> (case TokenToID t (wp_candidate t pieces i e) of
            None \<Rightarrow> None
          | Some tid \<Rightarrow> map_option (Cons tid) (wp_word t pieces e)))
     else Some [])"
  by pat_completeness auto
termination
  by (relation "measure (\<lambda>(t, pieces, i). length pieces - i)") (auto dest!: wp_longest_bounds)

declare wp_word.simps [simp del]

definition wp_pieces :: "Tokenizer \<Rightarrow> string \<Rightarrow> rune list" where
  "wp_pieces t w = (if RawWordPieceVocab t then runes w else 9601 # runes w)"

definition encodeWordPiece :: "unicode_tables \<Rightarrow> (rune \<Rightarrow> rune) \<Rightarrow> Tokenizer \<Rightarrow> string \<Rightarrow> u32 list" where
  "encodeWordPiece u strip t inp =
     concat (map (\<lambda>w. case wp_word t (wp_pieces t w) 0 of Some ids \<Rightarrow> ids | None \<Rightarrow> [UNKID t])
       (preprocessWordPiece u strip t inp))"

section \<open>The entry points\<close>

definition EncodeWithoutBOS :: "nat \<Rightarrow> unicode_tables \<Rightarrow> (rune \<Rightarrow> rune) \<Rightarrow> Tokenizer \<Rightarrow> string \<Rightarrow> u32 list" where
  "EncodeWithoutBOS scanMax u strip t inp =
    (if inp = [] then []
     else case Mode t of
         TokenizerGPT2BPE \<Rightarrow> encodeGPT2BPE scanMax u t inp
       | TokenizerWordPiece \<Rightarrow> encodeWordPiece u strip t inp
       | TokenizerSentencePiece \<Rightarrow> encodeSentencePiece scanMax t inp)"

definition Encode :: "nat \<Rightarrow> unicode_tables \<Rightarrow> (rune \<Rightarrow> rune) \<Rightarrow> Tokenizer \<Rightarrow> string \<Rightarrow> u32 list" where
  "Encode scanMax u strip t inp =
    (let out = (if AddBOS t then [BOSID t] else []) @ EncodeWithoutBOS scanMax u strip t inp in
     if Mode t = TokenizerWordPiece then
       (let out = (if AddSEP t then out @ [SEPID t] else out) in
        if AddEOS t \<and> (\<not> AddSEP t \<or> EOSID t \<noteq> SEPID t) then out @ [EOSID t] else out)
     else out)"

end
