(* ===== verification/Tokenizer_Laws.thy ===== *)
theory Tokenizer_Laws
  imports Tokenizer
begin

section \<open>The byte alphabet is a bijection\<close>

definition fill_ok :: "nat list \<times> nat list \<times> nat \<Rightarrow> bool" where
  "fill_ok s \<longleftrightarrow> (case s of (bs, cs, n) \<Rightarrow> length bs = length cs \<and> distinct bs \<and> distinct cs
     \<and> (\<forall>c \<in> set cs. c < 256 + n) \<and> n \<le> length bs)"

lemma fill_byte_ok: "fill_ok s \<Longrightarrow> fill_ok (fill_byte s b)"
  by (cases s) (fastforce simp: fill_ok_def fill_byte_def)

lemma fill_all_ok: "fill_ok s \<Longrightarrow> fill_ok (foldl fill_byte s xs)"
  by (induction xs arbitrary: s) (simp_all add: fill_byte_ok)

lemma fill_all_set: "set (fst (foldl fill_byte s xs)) = set (fst s) \<union> set xs"
  by (induction xs arbitrary: s) (auto simp: fill_byte_def split: prod.splits)

lemma fill_printable: "fill_ok (printable_bytes, printable_bytes, 0)"
  by (auto simp: fill_ok_def printable_bytes_def)

lemma byte_pairs_ok:
  "distinct (map fst byte_pairs)" "distinct (map snd byte_pairs)"
  "set (map fst byte_pairs) = {..<256}" "\<forall>c \<in> set (map snd byte_pairs). c < 512"
proof -
  obtain bs cs n where s: "foldl fill_byte (printable_bytes, printable_bytes, 0) [0..<256] = (bs, cs, n)"
    by (cases "foldl fill_byte (printable_bytes, printable_bytes, 0) [0..<256]")
  note ok = fill_all_ok [OF fill_printable, of "[0..<256]", unfolded s fill_ok_def prod.case]
  have "set bs = set printable_bytes \<union> {0..<256}"
    using fill_all_set [of "(printable_bytes, printable_bytes, 0)" "[0..<256]", unfolded s fst_conv set_upt] .
  moreover have "set printable_bytes \<subseteq> {0..<256}"
    by (simp only: printable_bytes_def set_append set_upt Un_subset_iff ivl_subset) simp
  ultimately have set: "set bs = {..<256}" by (simp only: Un_absorb1 atLeast0LessThan)
  have "length bs = card (set bs)" using ok by (simp only: distinct_card)
  then have "length bs = 256" by (simp only: set card_lessThan)
  then have "n \<le> 256" using ok by simp
  have pairs: "map fst byte_pairs = bs" "map snd byte_pairs = cs"
    using ok by (simp_all add: byte_pairs_def s)
  show "distinct (map fst byte_pairs)" "distinct (map snd byte_pairs)"
    using ok by (simp_all add: pairs)
  show "set (map fst byte_pairs) = {..<256}" using set by (simp only: pairs)
  show "\<forall>c \<in> set (map snd byte_pairs). c < 512"
  proof
    fix c assume "c \<in> set (map snd byte_pairs)"
    then have "c < 256 + n" using ok by (simp only: pairs)
    then show "c < 512" using \<open>n \<le> 256\<close> by simp
  qed
qed

lemma byte_maps_inverse:
  "\<exists>r. fst buildByteMaps c = Some r \<and> valid_rune r \<and> snd buildByteMaps r = Some c"
proof -
  have "ord c \<in> fst ` set byte_pairs" using byte_pairs_ok(3) by simp
  then obtain r where r: "(ord c, r) \<in> set byte_pairs" by auto
  have d: "distinct (map fst (rev byte_pairs))" "distinct (map fst (rev (map prod.swap byte_pairs)))"
    using byte_pairs_ok(1,2) by (simp_all add: rev_map [symmetric] comp_def)
  have "map_of (rev byte_pairs) (ord c) = Some r" using d(1) r by simp
  moreover have "map_of (rev (map prod.swap byte_pairs)) r = Some (ord c)"
    using d(2) r by (intro map_of_is_SomeI) (auto intro: image_eqI [of _ _ "(ord c, r)"])
  moreover have "valid_rune r" using byte_pairs_ok(4) r by (force simp: valid_rune_def)
  ultimately show ?thesis by (simp add: buildByteMaps_def)
qed

section \<open>The vocabulary index\<close>

definition vocab_ok :: "Tokenizer \<Rightarrow> bool" where
  "vocab_ok t \<longleftrightarrow> (\<forall>s i. TokenToID t s = Some i \<longrightarrow> unat i < length (Vocab t) \<and> Vocab t ! unat i = s)"

lemma vocab_ok_decode: "vocab_ok t \<Longrightarrow> TokenToID t s = Some i \<Longrightarrow> decodeRaw t i = s"
  by (simp add: vocab_ok_def decodeRaw_def)

lemma token_ids_ok:
  assumes "token_ids vocab s = Some i" "length vocab \<le> 4294967296"
  shows "unat i < length vocab \<and> vocab ! unat i = s"
proof -
  have "(s, i) \<in> set (zip vocab (map word_of_nat [0..<length vocab]))"
    using map_of_SomeD [OF assms(1) [unfolded token_ids_def]] by simp
  then obtain k where k: "k < length vocab" "vocab ! k = s" "i = word_of_nat k"
    by (auto simp: in_set_conv_nth)
  have "unat i = k" using k(1,3) assms(2) by (simp add: unat_of_nat)
  then show ?thesis using k by simp
qed

lemma token_ids_dom: "token_ids vocab s \<noteq> None \<longleftrightarrow> s \<in> set vocab"
proof -
  let ?z = "zip vocab (map (word_of_nat :: nat \<Rightarrow> u32) [0..<length vocab])"
  have "set (map fst ?z) = set vocab" by (subst map_fst_zip) simp_all
  then have "dom (map_of (rev ?z)) = set vocab"
    by (simp only: dom_map_of_conv_image_fst set_rev image_set [symmetric])
  then show ?thesis unfolding token_ids_def by blast
qed

text \<open>Everything \<open>TokenizerFromMetadata\<close> builds itself satisfies this.\<close>

definition tokenizer_wf :: "Tokenizer \<Rightarrow> bool" where
  "tokenizer_wf t \<longleftrightarrow> vocab_ok t \<and> length (Scores t) = length (Vocab t)
     \<and> (\<forall>s \<in> set (Vocab t). TokenToID t s \<noteq> None)
     \<and> (\<forall>c. \<exists>r. ByteEncoder t c = Some r \<and> valid_rune r \<and> ByteDecoder t r = Some c)
     \<and> (RawWordPieceVocab t \<longrightarrow> Mode t = TokenizerWordPiece)"

lemma build_tokenizer_fields:
  "Vocab (build_tokenizer u f m v) = v"
  "TokenToID (build_tokenizer u f m v) = token_ids v"
  "Mode (build_tokenizer u f m v) =
     select_mode (read_string m ''tokenizer.ggml.model'') (strings_ToLower u (read_string m ''tokenizer.ggml.pre''))"
  "RawWordPieceVocab (build_tokenizer u f m v) \<longleftrightarrow>
     Mode (build_tokenizer u f m v) = TokenizerWordPiece \<and> raw_wordpiece False v"
  by (simp_all add: build_tokenizer_def Let_def split: prod.splits)

lemma build_tokenizer_wf:
  assumes "length vocab \<le> 4294967296"
  shows "tokenizer_wf (build_tokenizer u f metadata vocab) \<and> Vocab (build_tokenizer u f metadata vocab) = vocab"
proof -
  let ?t = "build_tokenizer u f metadata vocab"
  have f: "Vocab ?t = vocab" "TokenToID ?t = token_ids vocab" "Scores ?t = read_scores f metadata (length vocab)"
    "ByteEncoder ?t = fst buildByteMaps" "ByteDecoder ?t = snd buildByteMaps"
    "RawWordPieceVocab ?t \<longrightarrow> Mode ?t = TokenizerWordPiece"
    by (simp_all add: build_tokenizer_def Let_def split: prod.splits)
  then show ?thesis
    using token_ids_ok [OF _ assms] token_ids_dom [of vocab] byte_maps_inverse
    by (auto simp: tokenizer_wf_def vocab_ok_def read_scores_def Let_def)
qed

section \<open>Cutting a text into runes\<close>

lemma rune_strings_encode [simp]:
  "valid_rune r \<Longrightarrow> rune_strings (EncodeRune r @ s) = EncodeRune r # rune_strings s"
  by (subst rune_strings.simps) simp

lemma rune_strings_runes: "list_all valid_rune rs \<Longrightarrow> rune_strings (string_of_runes rs) = map EncodeRune rs"
  by (induction rs) simp_all

lemma rune_strings_spell: "spells (rune_strings s) s"
proof (induction s rule: runes_induct)
  case (Step s)
  have "0 < snd (DecodeRune s)" using DecodeRune_size [of s] Step.hyps by simp
  then show ?case
    using spells_Cons [OF _ Step.IH, of "take (snd (DecodeRune s)) s"] Step.hyps
    by (simp add: rune_strings.simps [of s])
qed (simp add: spells_def)

lemma concat_map_concat:
  "concat (map f (concat (map g xs))) = concat (map (\<lambda>x. concat (map f (g x))) xs)"
  by (induction xs) simp_all

section \<open>Byte-level BPE\<close>

lemma bpeSymbolsFromRunes_texts: "map bs_text (bpeSymbolsFromRunes s) = rune_strings s"
  by (rule nth_equalityI) (simp_all add: bpeSymbolsFromRunes_def Let_def)

lemma bpeSymbolsFromRunes_linked:
  assumes "s \<noteq> []"
  shows "linked (bpeSymbolsFromRunes s) [0..<length (bpeSymbolsFromRunes s)]"
proof (rule linked_fresh)
  note sp = rune_strings_spell [of s, unfolded spells_def]
  show "bpeSymbolsFromRunes s \<noteq> []" using sp assms by (auto simp: bpeSymbolsFromRunes_def Let_def)
  fix i assume "i < length (bpeSymbolsFromRunes s)"
  then have "i < length (rune_strings s)" by (simp add: bpeSymbolsFromRunes_def Let_def)
  moreover from this have "rune_strings s ! i \<noteq> []" using sp by (metis nth_mem)
  ultimately show "bs_text (bpeSymbolsFromRunes s ! i) \<noteq> [] \<and> \<not> bs_dead (bpeSymbolsFromRunes s ! i)
      \<and> bs_prev (bpeSymbolsFromRunes s ! i) = int i - 1
      \<and> bs_next (bpeSymbolsFromRunes s ! i) = (if Suc i = length (bpeSymbolsFromRunes s) then - 1 else int i + 1)"
    by (simp add: bpeSymbolsFromRunes_def Let_def)
qed

definition bytes_ok :: "Tokenizer \<Rightarrow> bool" where
  "bytes_ok t \<longleftrightarrow> (\<forall>c. \<exists>r. ByteEncoder t c = Some r \<and> valid_rune r \<and> ByteDecoder t r = Some c)"

lemma tokenizer_wfD:
  assumes "tokenizer_wf t"
  shows "vocab_ok t" "bytes_ok t" "\<forall>p \<in> set (Vocab t). TokenToID t p \<noteq> None"
  using assms by (auto simp: tokenizer_wf_def bytes_ok_def)

definition byte_runes :: "Tokenizer \<Rightarrow> string \<Rightarrow> rune list" where
  "byte_runes t s = map (\<lambda>c. the (ByteEncoder t c)) s"

lemma byte_runes_ok:
  assumes "bytes_ok t"
  shows "map_bytes t s = string_of_runes (byte_runes t s)" "list_all valid_rune (byte_runes t s)"
    "decodeGPT2Bytes t (map_bytes t s) = s"
proof -
  have c: "\<exists>r. ByteEncoder t c = Some r \<and> valid_rune r \<and> ByteDecoder t r = Some c" for c
    using assms by (simp add: bytes_ok_def)
  show m: "map_bytes t s = string_of_runes (byte_runes t s)"
  proof (induction s)
    case (Cons a s)
    then show ?case using c [of a] by (auto simp: map_bytes_def byte_runes_def)
  qed (simp add: map_bytes_def byte_runes_def)
  show v: "list_all valid_rune (byte_runes t s)"
  proof (induction s)
    case (Cons a s)
    then show ?case using c [of a] by (auto simp: byte_runes_def)
  qed (simp add: byte_runes_def)
  have "concat (map (\<lambda>ch. case ByteDecoder t ch of Some b \<Rightarrow> [b] | None \<Rightarrow> EncodeRune ch) (byte_runes t s)) = s"
  proof (induction s)
    case (Cons a s)
    then show ?case using c [of a] by (auto simp: byte_runes_def)
  qed (simp add: byte_runes_def)
  then show "decodeGPT2Bytes t (map_bytes t s) = s"
    by (simp add: decodeGPT2Bytes_def m runes_string_of_runes v)
qed

text \<open>A piece that is a sequence of encoded runes.\<close>

definition rune_text :: "string \<Rightarrow> bool" where
  "rune_text s \<longleftrightarrow> (\<exists>rs. s = string_of_runes rs \<and> list_all valid_rune rs)"

lemma rune_text_append: "rune_text a \<Longrightarrow> rune_text b \<Longrightarrow> rune_text (a @ b)"
  by (metis rune_text_def string_of_runes_simps(3) list_all_append)

lemma decodeGPT2Bytes_append:
  "rune_text a \<Longrightarrow> rune_text b \<Longrightarrow> decodeGPT2Bytes t (a @ b) = decodeGPT2Bytes t a @ decodeGPT2Bytes t b"
  by (auto simp: rune_text_def decodeGPT2Bytes_def runes_string_of_runes simp flip: string_of_runes_simps(3))

lemma decodeGPT2Bytes_concat:
  "\<forall>s \<in> set ss. rune_text s \<Longrightarrow> rune_text (concat ss) \<and>
    decodeGPT2Bytes t (concat ss) = concat (map (decodeGPT2Bytes t) ss)"
proof (induction ss)
  case Nil
  have "rune_text []" unfolding rune_text_def by (rule exI [of _ "[]"]) simp
  then show ?case by (simp add: decodeGPT2Bytes_def)
next
  case (Cons s ss)
  then show ?case using rune_text_append [of s "concat ss"] decodeGPT2Bytes_append [of s "concat ss" t] by simp
qed

definition gpt2_closed :: "Tokenizer \<Rightarrow> bool" where
  "gpt2_closed t \<longleftrightarrow> Mode t = TokenizerGPT2BPE
     \<and> (\<forall>c r. ByteEncoder t c = Some r \<longrightarrow> TokenToID t (EncodeRune r) \<noteq> None)
     \<and> (\<forall>l r. MergeRanks t (l, r) \<noteq> None \<longrightarrow> TokenToID t (l @ r) \<noteq> None)"

lemma gpt2_joins: "joins (text_rating (gpt2_rating t)) (\<lambda>l r i. bs_text l @ bs_text r)"
  by (simp add: joins_def)

lemma gpt2_piece_decodes:
  assumes "bytes_ok t" "vocab_ok t" "gpt2_closed t"
  shows "concat (map (DecodeToken t) (gpt2_piece k t piece)) = piece"
proof (cases "map_bytes t piece = []")
  case True
  then show ?thesis using byte_runes_ok(3) [OF assms(1), of piece]
    by (simp add: gpt2_piece_def decodeGPT2Bytes_def)
next
  case False
  let ?ss = "live (mergeBPESymbols k (text_rating (gpt2_rating t)) (\<lambda>l r i. bs_text l @ bs_text r)
     (bpeSymbolsFromRunes (map_bytes t piece)))"
  let ?P = "\<lambda>s (i :: u32). rune_text s \<and> TokenToID t s \<noteq> None"
  have "rune_strings (map_bytes t piece) = map EncodeRune (byte_runes t piece)"
    using byte_runes_ok(1,2) [OF assms(1)] by (simp add: rune_strings_runes)
  then have texts: "map bs_text (bpeSymbolsFromRunes (map_bytes t piece)) = map EncodeRune (byte_runes t piece)"
    by (simp add: bpeSymbolsFromRunes_texts)
  have start: "?P (bs_text s) (bs_id s)" if "s \<in> set (bpeSymbolsFromRunes (map_bytes t piece))" for s
  proof -
    have "bs_text s \<in> set (map EncodeRune (byte_runes t piece))" using that texts by (metis image_eqI image_set)
    then obtain c where c: "bs_text s = EncodeRune (the (ByteEncoder t c))" by (auto simp: byte_runes_def)
    obtain r where r: "ByteEncoder t c = Some r" "valid_rune r" using assms(1) by (auto simp: bytes_ok_def)
    have s: "bs_text s = EncodeRune r" using c r by simp
    then have "rune_text (bs_text s)" unfolding rune_text_def using r by (intro exI [of _ "[r]"]) simp
    then show ?thesis using s r assms(3) by (auto simp: gpt2_closed_def)
  qed
  have step: "?P (bs_text l @ bs_text r) i"
    if "gpt2_rating t (bs_text l) (bs_text r) = Some (p, i)" "?P (bs_text l) (bs_id l)" "?P (bs_text r) (bs_id r)"
    for l r :: bpeSymbol and p i
  proof -
    have "MergeRanks t (bs_text l, bs_text r) \<noteq> None" using that(1) by (auto simp: gpt2_rating_def split: option.splits)
    then show ?thesis using that(2,3) assms(3) rune_text_append by (simp add: gpt2_closed_def)
  qed
  note lv = mergeBPESymbols_live [where P = ?P and n = k and R = "gpt2_rating t",
      OF bpeSymbolsFromRunes_linked [OF False] gpt2_joins start]
  have spell: "concat (map bs_text ?ss) = concat (map bs_text (bpeSymbolsFromRunes (map_bytes t piece)))"
    by (rule lv(1)) (assumption, rule step, assumption+)
  have known: "\<forall>s \<in> set ?ss. ?P (bs_text s) (bs_id s) \<and> bs_text s \<noteq> []"
    by (rule lv(2)) (assumption, rule step, assumption+)
  have dec: "concat (map (DecodeToken t) (piece_tokens t (bs_text s))) = decodeGPT2Bytes t (bs_text s)"
    if s: "s \<in> set ?ss" for s
  proof -
    obtain i where i: "TokenToID t (bs_text s) = Some i"
      using bspec [OF known s] by (cases "TokenToID t (bs_text s)") simp_all
    have "Mode t = TokenizerGPT2BPE" using assms(3) unfolding gpt2_closed_def by (rule conjunct1)
    then show ?thesis using i vocab_ok_decode [OF assms(2) i] by (simp add: piece_tokens_def DecodeToken_def)
  qed
  have "concat (map (DecodeToken t) (gpt2_piece k t piece))
      = concat (map (\<lambda>s. concat (map (DecodeToken t) (piece_tokens t (bs_text s)))) ?ss)"
    using False by (simp only: gpt2_piece_def Let_def concat_map_concat if_False)
  also have "\<dots> = concat (map (decodeGPT2Bytes t) (map bs_text ?ss))"
    using dec by (simp add: comp_def cong: map_cong)
  also have "\<dots> = decodeGPT2Bytes t (concat (map bs_text ?ss))"
    using decodeGPT2Bytes_concat [of "map bs_text ?ss" t] known by auto
  also have "\<dots> = piece"
    using spell rune_strings_spell [of "map_bytes t piece"] byte_runes_ok(3) [OF assms(1), of piece]
    by (simp add: bpeSymbolsFromRunes_texts spells_def)
  finally show ?thesis .
qed


lemma gpt2_decodes:
  assumes "bytes_ok t" "vocab_ok t" "gpt2_closed t"
  shows "concat (map (DecodeToken t) (encodeGPT2BPE k u t inp)) = clean_text inp"
proof -
  have "concat (map (DecodeToken t) (encodeGPT2BPE k u t inp))
      = concat (map (\<lambda>p. concat (map (DecodeToken t) (gpt2_piece k t p))) (pretokenize u (Pre t) inp))"
    by (simp only: encodeGPT2BPE_def concat_map_concat)
  also have "\<dots> = concat (pretokenize u (Pre t) inp)"
    by (simp add: gpt2_piece_decodes [OF assms])
  finally show ?thesis using pretokenize_all [of u "Pre t" inp] by (simp add: spells_def)
qed

lemma gpt2_scan_max: "encodeGPT2BPE k u t inp = encodeGPT2BPE k' u t inp"
proof -
  have "gpt2_piece k t p = gpt2_piece k' t p" for p
    using mergeBPESymbols_scan [OF bpeSymbolsFromRunes_linked gpt2_joins, of "map_bytes t p" k t]
      mergeBPESymbols_scan [OF bpeSymbolsFromRunes_linked gpt2_joins, of "map_bytes t p" k' t]
    by (cases "map_bytes t p = []") (simp_all add: gpt2_piece_def)
  then have "gpt2_piece k t = gpt2_piece k' t" by (rule ext)
  then show ?thesis by (simp only: encodeGPT2BPE_def)
qed

section \<open>SentencePiece\<close>

lemma sp_joins: "vocab_ok t \<Longrightarrow> joins (text_rating (sp_rating t)) (\<lambda>l r i. decodeRaw t i)"
  by (auto simp: joins_def text_rating_def sp_rating_def Let_def vocab_ok_decode split: option.splits if_splits)

lemma appendPieceTokens_all: "foldl (appendPieceTokens t) out ps = out @ concat (map (piece_tokens t) ps)"
  by (induction ps arbitrary: out) (simp_all add: appendPieceTokens_def)

lemma seedSentencePiece_pieces: "seedSentencePiece t s = concat (map (piece_tokens t) (rune_strings s))"
  by (simp add: seedSentencePiece_def appendPieceTokens_all)

lemma seed_nonempty:
  assumes "vocab_ok t" "i \<in> set (seedSentencePiece t s)"
  shows "decodeRaw t i \<noteq> []"
proof -
  obtain p where p: "p \<in> set (rune_strings s)" "i \<in> set (piece_tokens t p)"
    using assms(2) by (auto simp: seedSentencePiece_pieces)
  have "p \<noteq> []" using p(1) rune_strings_spell [of s] by (auto simp: spells_def)
  then show ?thesis
    using p(2) vocab_ok_decode [OF assms(1)]
    by (cases "TokenToID t p") (auto simp: piece_tokens_def map_filter_def spByteTokens_def)
qed

lemma sp_symbols_texts:
  "map bs_text (sp_symbols t is) = map (decodeRaw t) is" "map bs_id (sp_symbols t is) = is"
  "length (sp_symbols t is) = length is"
  by (auto simp: sp_symbols_def newBPESymbols_def intro!: nth_equalityI)

lemma sp_symbols_linked:
  assumes "is \<noteq> []" "\<And>i. i \<in> set is \<Longrightarrow> decodeRaw t i \<noteq> []"
  shows "linked (sp_symbols t is) [0..<length (sp_symbols t is)]"
  by (rule linked_fresh) (use assms in \<open>auto simp: sp_symbols_def newBPESymbols_def\<close>)

lemma sp_merge_live:
  assumes "vocab_ok t" "is \<noteq> []" "\<And>i. i \<in> set is \<Longrightarrow> decodeRaw t i \<noteq> []"
  shows "concat (map (decodeRaw t) (map bs_id (live (mergeBPESymbols k (text_rating (sp_rating t))
    (\<lambda>l r i. decodeRaw t i) (sp_symbols t is))))) = concat (map (decodeRaw t) is)"
proof -
  let ?ss = "live (mergeBPESymbols k (text_rating (sp_rating t)) (\<lambda>l r i. decodeRaw t i) (sp_symbols t is))"
  have start: "decodeRaw t (bs_id s) = bs_text s" if "s \<in> set (sp_symbols t is)" for s
    using that by (auto simp: sp_symbols_def)
  note lv = mergeBPESymbols_live [where P = "\<lambda>s i. decodeRaw t i = s" and n = k,
      OF sp_symbols_linked [OF assms(2,3)] sp_joins [OF assms(1)] start refl]
  have "map (decodeRaw t) (map bs_id ?ss) = map bs_text ?ss" using lv(2) by simp
  then show ?thesis using lv(1) by (simp only: sp_symbols_texts)
qed

lemma sp_spells:
  assumes "vocab_ok t"
  shows "concat (map (decodeRaw t) (encodeSentencePiece k t inp))
    = concat (map (decodeRaw t) (seedSentencePiece t (ReplaceAll ('' '' @ inp) '' '' sp_mark)))"
proof -
  let ?is = "seedSentencePiece t (ReplaceAll ('' '' @ inp) '' '' sp_mark)"
  show ?thesis
  proof (cases "length ?is < 2")
    case False
    then have "?is \<noteq> []" by (intro notI) simp
    from sp_merge_live [OF assms this seed_nonempty [OF assms]] False show ?thesis
      by (simp only: encodeSentencePiece_def Let_def if_False)
  qed (simp add: encodeSentencePiece_def)
qed

lemma seed_known_spells:
  assumes "vocab_ok t" "\<forall>p \<in> set (rune_strings s). TokenToID t p \<noteq> None"
  shows "concat (map (decodeRaw t) (seedSentencePiece t s)) = s"
proof -
  have "concat (map (decodeRaw t) (piece_tokens t p)) = p" if "p \<in> set (rune_strings s)" for p
    using assms that vocab_ok_decode [OF assms(1)] by (force simp: piece_tokens_def)
  then have "concat (map (decodeRaw t) (seedSentencePiece t s)) = concat (map (\<lambda>p. p) (rune_strings s))"
    by (simp only: seedSentencePiece_pieces concat_map_concat cong: map_cong)
  then show ?thesis using rune_strings_spell [of s] by (simp add: spells_def)
qed

lemma sp_scan_max:
  assumes v: "vocab_ok t"
  shows "encodeSentencePiece k t inp = encodeSentencePiece k' t inp"
proof -
  have "mergeBPESymbols k (text_rating (sp_rating t)) (\<lambda>l r i. decodeRaw t i) (sp_symbols t is)
      = mergeBPESymbols k' (text_rating (sp_rating t)) (\<lambda>l r i. decodeRaw t i) (sp_symbols t is)"
    if "is \<noteq> []" "\<And>i. i \<in> set is \<Longrightarrow> decodeRaw t i \<noteq> []" for "is"
    using mergeBPESymbols_scan [OF sp_symbols_linked [OF that] sp_joins [OF v], of k]
      mergeBPESymbols_scan [OF sp_symbols_linked [OF that] sp_joins [OF v], of k'] by simp
  from this [OF _ seed_nonempty [OF v]] show ?thesis
    by (cases "seedSentencePiece t (ReplaceAll ('' '' @ inp) '' '' sp_mark) = []")
      (simp_all add: encodeSentencePiece_def Let_def)
qed

section \<open>WordPiece\<close>

text \<open>The greedy segmentation: every token is the longest one of the vocabulary at its position.\<close>

inductive greedy :: "Tokenizer \<Rightarrow> rune list \<Rightarrow> nat \<Rightarrow> u32 list \<Rightarrow> bool" for t ps where
  greedy_end: "length ps \<le> i \<Longrightarrow> greedy t ps i []"
| greedy_step: "i < e \<Longrightarrow> e \<le> length ps \<Longrightarrow> TokenToID t (wp_candidate t ps i e) = Some tid \<Longrightarrow>
    (\<And>e'. e < e' \<Longrightarrow> e' \<le> length ps \<Longrightarrow> TokenToID t (wp_candidate t ps i e') = None) \<Longrightarrow>
    greedy t ps e ids \<Longrightarrow> greedy t ps i (tid # ids)"

inductive_cases greedy_NilE: "greedy t ps i []"
inductive_cases greedy_ConsE: "greedy t ps i (tid # ids)"

lemma find_rev_upt:
  "find p (rev [a..<b]) = Some e \<longleftrightarrow> p e \<and> a \<le> e \<and> e < b \<and> (\<forall>e'. e < e' \<and> e' < b \<longrightarrow> \<not> p e')"
proof (induction b)
  case (Suc b)
  then show ?case by (cases "a \<le> b") (auto simp: less_Suc_eq_le le_less dest: le_neq_implies_less)
qed simp

lemma wp_longest_iff: "wp_longest t ps i = Some e \<longleftrightarrow> TokenToID t (wp_candidate t ps i e) \<noteq> None \<and> i < e \<and> e \<le> length ps
    \<and> (\<forall>e'. e < e' \<and> e' \<le> length ps \<longrightarrow> TokenToID t (wp_candidate t ps i e') = None)"
  unfolding wp_longest_def find_rev_upt by (auto simp: less_Suc_eq_le)

lemma wp_word_greedy: "wp_word t ps i = Some ids \<Longrightarrow> greedy t ps i ids"
proof (induction t ps i arbitrary: ids rule: wp_word.induct)
  case (1 t ps i)
  show ?case
  proof (cases "i < length ps")
    case False
    then show ?thesis using "1.prems" by (auto simp: wp_word.simps [of t ps i] intro: greedy_end)
  next
    case True
    then obtain e tid rest where e: "wp_longest t ps i = Some e" "TokenToID t (wp_candidate t ps i e) = Some tid"
      "wp_word t ps e = Some rest" "ids = tid # rest"
      using "1.prems" by (auto simp: wp_word.simps [of t ps i] split: option.splits)
    then show ?thesis using "1.IH" [OF True e(1,2,3)] e(1)[unfolded wp_longest_iff]
      by (auto intro: greedy_step)
  qed
qed

lemma greedy_wp_word: "greedy t ps i ids \<Longrightarrow> wp_word t ps i = Some ids"
proof (induction rule: greedy.induct)
  case (greedy_end i)
  then show ?case by (simp add: wp_word.simps)
next
  case (greedy_step i e tid ids)
  then have "wp_longest t ps i = Some e" by (simp add: wp_longest_iff)
  then show ?case using greedy_step by (simp add: wp_word.simps [of t ps i])
qed

text \<open>What the tokens of a word spell: continuation tokens of a raw vocabulary lose their ## mark.\<close>

fun wp_text :: "Tokenizer \<Rightarrow> bool \<Rightarrow> u32 list \<Rightarrow> string" where
  "wp_text t inner [] = []"
| "wp_text t inner (i # is) =
    (if RawWordPieceVocab t \<and> inner then TrimPrefix (decodeRaw t i) ''##'' else decodeRaw t i) @ wp_text t True is"

lemma sublst_string: "i \<le> e \<Longrightarrow> string_of_runes (sublst ps i e) @ string_of_runes (drop e ps) = string_of_runes (drop i ps)"
  unfolding string_of_runes_simps(3) [symmetric]
  by (rule arg_cong [where f = string_of_runes])
    (metis append_take_drop_id drop_drop le_add_diff_inverse2 sublst_def)

lemma greedy_spells:
  assumes "vocab_ok t"
  shows "greedy t ps i ids \<Longrightarrow> wp_text t (0 < i) ids = string_of_runes (drop i ps)"
proof (induction rule: greedy.induct)
  case (greedy_step i e tid ids)
  have "decodeRaw t tid = wp_candidate t ps i e" using vocab_ok_decode [OF assms greedy_step.hyps(3)] .
  moreover have "0 < e" using greedy_step.hyps(1) by simp
  ultimately show ?case using greedy_step.IH sublst_string [of i e ps] greedy_step.hyps(1)
    by (auto simp: wp_candidate_def TrimPrefix_def HasPrefix_def)
qed simp

end
