(* ===== verification/Tokenizer_Contract.thy ===== *)
theory Tokenizer_Contract
  imports Tokenizer_Laws "HOL-Library.Code_Target_Nat"
begin

text \<open>
  The properties of the tokenizer: what construction from metadata guarantees, that the candidate
  heap and the plain scan merge the same pairs, that pre-tokenization loses nothing, and the round
  trips of the byte-level BPE, SentencePiece and WordPiece encoders. Each has a concrete instance.
\<close>

section \<open>A small byte-level vocabulary\<close>

text \<open>The byte alphabet and one merge product, the form of every GPT-2 family vocabulary.\<close>

definition small_vocab :: "string list" where
  "small_vocab = map EncodeRune (map snd byte_pairs) @ [''he'']"

definition small_meta :: "(string, meta_value) gomap" where
  "small_meta =
    [(''tokenizer.ggml.tokens'', MetaValue ''array'' (VStrs small_vocab)),
     (''tokenizer.ggml.model'', MetaValue ''string'' (VStr ''gpt2'')),
     (''tokenizer.ggml.merges'', MetaValue ''array'' (VStrs [''h e'']))]"

definition no_voxtral :: "(string, meta_value) gomap \<Rightarrow> tok_error + Tokenizer" where
  "no_voxtral m = Inl (VoxtralVocabulary [])"

definition small_tok :: Tokenizer where
  "small_tok = build_tokenizer ascii_tables (\<lambda>w. 0) small_meta small_vocab"

lemma small_built: "TokenizerFromMetadata ascii_tables (\<lambda>w. 0) no_voxtral small_meta = Inr small_tok"
  by (simp add: TokenizerFromMetadata_def small_meta_def AsStringArray_def small_tok_def)

lemma small_length: "length small_vocab \<le> 4294967296"
proof -
  have "length byte_pairs = card (set (map fst byte_pairs))"
    using distinct_card [OF byte_pairs_ok(1)] by simp
  then show ?thesis by (simp only: byte_pairs_ok(3) card_lessThan) (simp add: small_vocab_def)
qed

lemma small_fields:
  "TokenToID small_tok = token_ids small_vocab" "ByteEncoder small_tok = fst buildByteMaps"
  "Mode small_tok = TokenizerGPT2BPE" "MergeRanks small_tok = merge_ranks [''h e'']"
  by (simp_all add: small_tok_def build_tokenizer_def Let_def small_meta_def AsStringArray_def read_string_def
      AsString_def select_mode_def EqualFold_plain_def split: prod.splits)

lemma small_merges: "merge_ranks [''h e''] (l, r) \<noteq> None \<Longrightarrow> l @ r = ''he''"
  by (simp add: merge_ranks_def map_filter_def Cut_def Index.simps split: if_splits)

lemma small_closed: "gpt2_closed small_tok"
proof -
  have "EncodeRune r \<in> set small_vocab" if "fst buildByteMaps c = Some r" for c r
  proof -
    have "(ord c, r) \<in> set byte_pairs"
      using map_of_SomeD [of "rev byte_pairs" "ord c" r] that by (simp add: buildByteMaps_def)
    then show ?thesis by (force simp: small_vocab_def)
  qed
  moreover have "l @ r \<in> set small_vocab" if "merge_ranks [''h e''] (l, r) \<noteq> None" for l r
    by (simp only: small_merges [OF that] small_vocab_def) simp
  ultimately show ?thesis by (simp only: gpt2_closed_def small_fields token_ids_dom) blast
qed

section \<open>Construction\<close>

text \<open>
  C4. When the metadata carries a token list (of at most \<open>2^32\<close> entries, the range of a token id),
  the tokenizer it yields is well-formed: the token-to-id map only holds ids whose vocabulary entry
  is that token and covers the whole vocabulary, there is a score for every token, the byte alphabet
  is defined on all 256 bytes with the decoder as its inverse, and the raw-WordPiece convention is
  only switched on in WordPiece mode.
\<close>

theorem TokenizerFromMetadata_wf:
  assumes "TokenizerFromMetadata u f voxtral metadata = Inr t"
    and "map_of metadata ''tokenizer.ggml.tokens'' = Some v" "AsStringArray v = Some vocab"
    and "length vocab \<le> 4294967296"
  shows "Vocab t = vocab \<and> tokenizer_wf t"
  using build_tokenizer_wf [OF assms(4), of u f metadata] assms(1-3) by (auto simp: TokenizerFromMetadata_def)

lemma TokenizerFromMetadata_wf_witness: "Vocab small_tok = small_vocab \<and> tokenizer_wf small_tok"
proof (rule TokenizerFromMetadata_wf [OF small_built])
  show "map_of small_meta ''tokenizer.ggml.tokens'' = Some (MetaValue ''array'' (VStrs small_vocab))"
    by (simp add: small_meta_def)
  show "AsStringArray (MetaValue ''array'' (VStrs small_vocab)) = Some small_vocab"
    by (simp add: AsStringArray_def)
  show "length small_vocab \<le> 4294967296" by (rule small_length)
qed

section \<open>Merging\<close>

text \<open>
  C5. The candidate heap with its stale entries and the plain scan over adjacent pairs produce the
  same symbols, for every symbol list in its initial state, every rating of pairs by their texts and
  every joining of the texts. So \<open>bpeScanMax\<close> is only a matter of speed.
\<close>

theorem mergeBPESymbols_equals_scan:
  assumes "linked syms [0..<length syms]" "joins (text_rating R) joined"
  shows "mergeBPESymbols scanMax (text_rating R) joined syms = mergeBPESymbolsScan (text_rating R) joined syms"
  by (rule mergeBPESymbols_scan [OF assms])

lemma mergeBPESymbols_equals_scan_witness:
  "mergeBPESymbols 0 (text_rating (\<lambda>l r. Some (Num 1, 7))) (\<lambda>l r i. bs_text l @ bs_text r) (bpeSymbolsFromRunes ''abc'')
    = mergeBPESymbolsScan (text_rating (\<lambda>l r. Some (Num 1, 7))) (\<lambda>l r i. bs_text l @ bs_text r) (bpeSymbolsFromRunes ''abc'')"
  by (rule mergeBPESymbols_equals_scan [OF bpeSymbolsFromRunes_linked]) (simp_all add: joins_def)

text \<open>
  The heap operations keep the heap order (and never store a NaN priority), \<open>push\<close> adds exactly
  its candidate, and \<open>pop\<close> of a non-empty heap removes exactly the candidate it returns, which is
  least in the order of priority and then position.
\<close>

theorem bpe_heap_invariant:
  assumes "heap_inv h" "c_prio c \<noteq> NaN"
  shows "heap_inv (heap_push h c) \<and> mset (heap_push h c) = add_mset c (mset h)
    \<and> (\<forall>d h'. heap_pop (heap_push h c) = (d, h') \<longrightarrow>
         heap_inv h' \<and> add_mset c (mset h) = add_mset d (mset h') \<and> (\<forall>x \<in># add_mset c (mset h). cand_key d \<le> cand_key x))"
proof -
  note p = heap.push_inv [OF assms] heap.push_items [OF assms]
  have "mset (heap_push h c) \<noteq> {#}" by (simp only: p) simp
  then show ?thesis
    using heap.pop_inv [OF p(1)] heap.pop_items [OF p(1)] heap.pop_least [OF p(1)] p by metis
qed

definition sample_candidate :: "nat \<Rightarrow> bpeCandidate" where
  "sample_candidate n = \<lparr>c_prio = Num (of_nat n), c_left = 0, c_right = 1, c_id = 0, c_leftLen = 1, c_rightLen = 1\<rparr>"

lemma bpe_heap_invariant_witness: "heap_inv (heap_push [] (sample_candidate 3))"
  by (rule bpe_heap_invariant [THEN conjunct1]) (simp_all add: heap_inv_def rated_def heap_ok_but_def sample_candidate_def)

section \<open>Pre-tokenization\<close>

text \<open>
  C6. Whatever family \<open>Pre\<close> selects, the pieces are non-empty and spell the input, with every
  invalid UTF-8 byte replaced by the replacement rune: the splitters neither drop, duplicate nor
  reorder text, for any Unicode tables.
\<close>

theorem pretokenize_lossless: "spells (pretokenize u pre inp) (clean_text inp)"
  by (rule pretokenize_all)

section \<open>Round trips\<close>

text \<open>
  C7. Byte-level BPE is lossless: for a tokenizer built from metadata in GPT-2 mode, when every byte
  of the alphabet and every merge product is in the vocabulary, decoding the tokens of an encoding
  and concatenating gives back the input (with invalid UTF-8 bytes replaced); on valid UTF-8 that
  is the input itself.
\<close>

theorem gpt2_roundtrip:
  assumes "TokenizerFromMetadata u f voxtral metadata = Inr t"
    and "map_of metadata ''tokenizer.ggml.tokens'' = Some v" "AsStringArray v = Some vocab"
    and "length vocab \<le> 4294967296" and "gpt2_closed t"
  shows "concat (map (DecodeToken t) (EncodeWithoutBOS scanMax u' strip t inp)) = clean_text inp
    \<and> (ValidString inp \<longrightarrow> concat (map (DecodeToken t) (EncodeWithoutBOS scanMax u' strip t inp)) = inp)"
proof -
  have "tokenizer_wf t" using build_tokenizer_wf [OF assms(4), of u f metadata] assms(1-3)
    by (auto simp: TokenizerFromMetadata_def)
  note wf = tokenizer_wfD(2,1) [OF this]
  have "Mode t = TokenizerGPT2BPE" using assms(5) unfolding gpt2_closed_def by (rule conjunct1)
  then show ?thesis using gpt2_decodes [OF wf assms(5), of scanMax u' inp]
    by (simp add: EncodeWithoutBOS_def clean_text_def string_of_runes_runes)
qed

lemma gpt2_roundtrip_witness:
  "concat (map (DecodeToken small_tok) (EncodeWithoutBOS 32 ascii_tables id small_tok ''hello''))
    = clean_text ''hello''"
proof (rule gpt2_roundtrip [THEN conjunct1, OF small_built])
  show "map_of small_meta ''tokenizer.ggml.tokens'' = Some (MetaValue ''array'' (VStrs small_vocab))"
    by (simp add: small_meta_def)
  show "AsStringArray (MetaValue ''array'' (VStrs small_vocab)) = Some small_vocab"
    by (simp add: AsStringArray_def)
  show "length small_vocab \<le> 4294967296" by (rule small_length)
  show "gpt2_closed small_tok" by (rule small_closed)
qed


definition sp_tok :: Tokenizer where
  "sp_tok = build_tokenizer ascii_tables (\<lambda>w. 0) [] [sp_mark, ''a'', ''b'', sp_mark @ ''a'']"

lemma sp_tok_wf: "tokenizer_wf sp_tok"
  using build_tokenizer_wf [of "[sp_mark, ''a'', ''b'', sp_mark @ ''a'']"] by (simp add: sp_tok_def)

text \<open>
  C8. SentencePiece is lossless on covered text: when every rune of the marked text (a space in
  front, spaces as \<open>U+2581\<close>) is a token, the raw texts of the encoding's tokens spell the marked
  text, whatever the scores make the merge loop do.
\<close>

theorem sentencepiece_spells:
  assumes "tokenizer_wf t" "Mode t = TokenizerSentencePiece" "inp \<noteq> []"
    and "\<forall>p \<in> set (rune_strings (ReplaceAll ('' '' @ inp) '' '' sp_mark)). p \<in> set (Vocab t)"
  shows "concat (map (decodeRaw t) (EncodeWithoutBOS scanMax u strip t inp)) = ReplaceAll ('' '' @ inp) '' '' sp_mark"
proof -
  note v = tokenizer_wfD(1) [OF assms(1)] and k = tokenizer_wfD(3) [OF assms(1)]
  have "EncodeWithoutBOS scanMax u strip t inp = encodeSentencePiece scanMax t inp"
    using assms(2,3) by (simp add: EncodeWithoutBOS_def)
  then show ?thesis using sp_spells [OF v, of scanMax inp] seed_known_spells [OF v] assms(4) k by metis
qed

lemma sentencepiece_spells_witness:
  "concat (map (decodeRaw sp_tok) (EncodeWithoutBOS 32 ascii_tables id sp_tok ''ab''))
    = ReplaceAll ('' '' @ ''ab'') '' '' sp_mark"
proof (rule sentencepiece_spells [OF sp_tok_wf])
  show "Mode sp_tok = TokenizerSentencePiece" unfolding sp_tok_def build_tokenizer_fields by code_simp
  have "rune_strings (ReplaceAll ('' '' @ ''ab'') '' '' sp_mark) = [sp_mark, ''a'', ''b'']" by code_simp
  then show "\<forall>p \<in> set (rune_strings (ReplaceAll ('' '' @ ''ab'') '' '' sp_mark)). p \<in> set (Vocab sp_tok)"
    by (simp add: sp_tok_def build_tokenizer_fields)
qed simp

text \<open>
  C9. WordPiece segments a word greedily: \<open>wp_word\<close> returns a token list exactly when the greedy
  longest-match derivation exists and then returns that one (so a word maps to the unknown token
  exactly when greedy matching gets stuck), and the tokens, without their ## marks, spell the word.
\<close>

theorem wordpiece_greedy:
  assumes "tokenizer_wf t"
  shows "(wp_word t ps 0 = Some ids \<longleftrightarrow> greedy t ps 0 ids)
    \<and> (wp_word t ps 0 = Some ids \<longrightarrow> wp_text t False ids = string_of_runes ps)"
proof -
  note v = tokenizer_wfD(1) [OF assms]
  from greedy_spells [OF v, of ps 0 ids] show ?thesis
    using wp_word_greedy [of t ps 0 ids] greedy_wp_word [of t ps 0 ids] by auto
qed

definition wp_tok :: Tokenizer where
  "wp_tok = build_tokenizer ascii_tables (\<lambda>w. 0)
     [(''tokenizer.ggml.model'', MetaValue ''string'' (VStr ''bert''))] [''[UNK]'', ''he'', ''h'', ''##llo'']"

lemma wp_tok_wf: "tokenizer_wf wp_tok"
  using build_tokenizer_wf [of "[''[UNK]'', ''he'', ''h'', ''##llo'']"] by (simp add: wp_tok_def)

lemma wp_tok_hello: "wp_word wp_tok [104, 101, 108, 108, 111] 0 = Some [1, 3]"
proof -
  have "Mode wp_tok = TokenizerWordPiece" unfolding wp_tok_def build_tokenizer_fields by code_simp
  moreover have "raw_wordpiece False [''[UNK]'', ''he'', ''h'', ''##llo'']" by code_simp
  ultimately have "RawWordPieceVocab wp_tok" by (simp only: wp_tok_def build_tokenizer_fields)
  moreover have "token_ids [''[UNK]'', ''he'', ''h'', ''##llo''] ''he'' = Some 1"
    "token_ids [''[UNK]'', ''he'', ''h'', ''##llo''] ''##llo'' = Some 3"
    by code_simp+
  moreover have "list_all (\<lambda>s. token_ids [''[UNK]'', ''he'', ''h'', ''##llo''] s = None) [''hello'', ''hell'', ''hel'']"
    by code_simp
  moreover have "char_of (104 :: nat) = CHR ''h''" "char_of (101 :: nat) = CHR ''e''"
    "char_of (108 :: nat) = CHR ''l''" "char_of (111 :: nat) = CHR ''o''"
    by code_simp+
  ultimately show ?thesis
    by (simp add: wp_word.simps wp_longest_def wp_candidate_def sublst_def wp_tok_def build_tokenizer_fields
        EncodeRune_def encode_raw_def valid_rune_def chr_def)
qed

lemma wordpiece_greedy_witness: "wp_text wp_tok False [1, 3] = string_of_runes [104, 101, 108, 108, 111]"
  using wordpiece_greedy [OF wp_tok_wf] wp_tok_hello by blast

text \<open>
  The complete encoding does not depend on the size below which the merge loop scans, in any mode.
\<close>

theorem Encode_scanMax_independent:
  assumes "tokenizer_wf t"
  shows "Encode scanMax u strip t inp = Encode scanMax' u strip t inp"
proof -
  note v = tokenizer_wfD(1) [OF assms]
  from sp_scan_max [OF v, of scanMax inp scanMax'] gpt2_scan_max [of scanMax u t inp scanMax'] show ?thesis
    by (simp add: Encode_def EncodeWithoutBOS_def split: TokenizerMode.splits)
qed

lemma Encode_scanMax_independent_witness:
  "Encode 0 ascii_tables id sp_tok ''ab'' = Encode 32 ascii_tables id sp_tok ''ab''"
  by (rule Encode_scanMax_independent [OF sp_tok_wf])

section \<open>Where the comments differ\<close>

text \<open>
  The comment on \<open>pretokenizeQwen35\<close> gives the pattern \<^verbatim>\<open>\s+(?!\S)\<close> before \<^verbatim>\<open>\s+\<close>, by which a run
  of two spaces before a word leaves its last space to the word. The code takes the whole run.
\<close>

lemma qwen35_whitespace_run: "pretokenizeQwen35 ascii_tables ''a  b'' = [''a'', ''  '', ''b'']"
  by code_simp

end
