(* ===== verification/Json_State.thy ===== *)
theory Json_State
  imports Go_Strings "HOL-Library.Code_Target_Nat"
begin

text \<open>
  The incremental JSON-object recognizer of \<^verbatim>\<open>internal/jsonconstraint/state.go\<close>: a byte automaton with
  a stack of at most 64 modes. \<open>consume\<close> returns \<open>None\<close> where the code returns false; the state it
  leaves behind then is never used, because \<open>Advance\<close> returns the zero state.

  The stack is the array of the code, of which the first \<open>js_depth\<close> entries are in use. The modes are
  the bytes of the code: \<open>k\<close> and \<open>K\<close> (a key, or the end of an empty object), \<open>:\<close>, \<open>v\<close> (a member's
  value), \<open>o\<close> (after a member), \<open>A\<close> and \<open>V\<close> (an element, or the end of an empty array), \<open>a\<close> (after
  an element).
\<close>

record State =
  js_stack :: "char list"
  js_depth :: nat
  js_started :: bool
  js_lex :: char
  js_key :: bool
  js_literal :: string
  js_at :: nat
  js_number :: char
  js_escape :: bool
  js_hex :: nat
  js_utf :: "char list"
  js_utfN :: nat

abbreviation no_lex :: char where
  "no_lex \<equiv> CHR 0x00"

text \<open>Go's zero value.\<close>

definition zero_State :: State where
  "zero_State = \<lparr>js_stack = replicate 64 (CHR 0x00), js_depth = 0, js_started = False, js_lex = no_lex,
     js_key = False, js_literal = [], js_at = 0, js_number = CHR 0x00, js_escape = False, js_hex = 0,
     js_utf = replicate 4 (CHR 0x00), js_utfN = 0\<rparr>"

definition Complete :: "State \<Rightarrow> bool" where
  "Complete s \<longleftrightarrow> js_started s \<and> js_depth s = 0 \<and> js_lex s = no_lex"

definition space :: "char \<Rightarrow> bool" where
  "space c \<longleftrightarrow> c = CHR '' '' \<or> c = CHR 0x0A \<or> c = CHR 0x0D \<or> c = CHR 0x09"

definition nonzero_digit :: "char \<Rightarrow> bool" where
  "nonzero_digit c \<longleftrightarrow> 49 \<le> ord c \<and> ord c \<le> 57"

definition hex_digit_char :: "char \<Rightarrow> bool" where
  "hex_digit_char c \<longleftrightarrow> digit c \<or> (97 \<le> ord c \<and> ord c \<le> 102) \<or> (65 \<le> ord c \<and> ord c \<le> 70)"

definition simple_escape :: "char \<Rightarrow> bool" where
  "simple_escape c \<longleftrightarrow> c \<in> set [CHR 0x22, CHR 0x5C, CHR ''/'', CHR ''b'', CHR ''f'', CHR ''n'', CHR ''r'', CHR ''t'']"

definition push :: "State \<Rightarrow> char \<Rightarrow> State option" where
  "push s c = (if js_depth s = length (js_stack s) then None
     else Some (s\<lparr>js_stack := (js_stack s)[js_depth s := c], js_depth := js_depth s + 1\<rparr>))"

definition set_top :: "char \<Rightarrow> State \<Rightarrow> State" where
  "set_top c s = s\<lparr>js_stack := (js_stack s)[js_depth s - 1 := c]\<rparr>"

definition pop_mode :: "State \<Rightarrow> State" where
  "pop_mode s = s\<lparr>js_depth := js_depth s - 1\<rparr>"

section \<open>Inside a lexeme\<close>

definition consume_utf :: "State \<Rightarrow> char \<Rightarrow> State option" where
  "consume_utf s c =
    (if js_utfN s = 4 then None
     else let s = s\<lparr>js_utf := (js_utf s)[js_utfN s := c], js_utfN := js_utfN s + 1\<rparr>;
              p = take (js_utfN s) (js_utf s)
          in if FullRune p then (if DecodeRune p = (RuneError, 1) then None else Some (s\<lparr>js_utfN := 0\<rparr>))
             else Some s)"

definition consume_string :: "State \<Rightarrow> char \<Rightarrow> State option" where
  "consume_string s c =
    (if js_hex s > 0 then (if hex_digit_char c then Some (s\<lparr>js_hex := js_hex s - 1\<rparr>) else None)
     else if js_escape s then
       (let s = s\<lparr>js_escape := False\<rparr> in
        if c = CHR ''u'' then Some (s\<lparr>js_hex := 4\<rparr>) else if simple_escape c then Some s else None)
     else if js_utfN s > 0 \<or> ord c \<ge> 128 then consume_utf s c
     else if ord c < 32 then None
     else if c = CHR 0x5C then Some (s\<lparr>js_escape := True\<rparr>)
     else if c = CHR 0x22 then
       (let s = s\<lparr>js_lex := no_lex\<rparr> in Some (if js_key s then set_top (CHR '':'') s else s))
     else Some s)"

definition consume_literal :: "State \<Rightarrow> char \<Rightarrow> State option" where
  "consume_literal s c =
    (if c \<noteq> js_literal s ! js_at s then None
     else let s = s\<lparr>js_at := js_at s + 1\<rparr> in
       Some (if js_at s = length (js_literal s) then s\<lparr>js_lex := no_lex\<rparr> else s))"

datatype num_step = NumReject | NumGoto char | NumEnd

definition number_step :: "char \<Rightarrow> char \<Rightarrow> num_step" where
  "number_step n c =
    (if n = CHR ''-'' then
       (if c = CHR ''0'' then NumGoto (CHR ''0'') else if nonzero_digit c then NumGoto (CHR ''i'') else NumReject)
     else if n = CHR ''0'' \<or> n = CHR ''i'' then
       (if digit c then (if n = CHR ''0'' then NumReject else NumGoto n)
        else if c = CHR ''.'' then NumGoto (CHR ''.'')
        else if c = CHR ''e'' \<or> c = CHR ''E'' then NumGoto (CHR ''e'')
        else NumEnd)
     else if n = CHR ''.'' then (if digit c then NumGoto (CHR ''f'') else NumReject)
     else if n = CHR ''f'' then
       (if digit c then NumGoto n else if c = CHR ''e'' \<or> c = CHR ''E'' then NumGoto (CHR ''e'') else NumEnd)
     else if n = CHR ''e'' then
       (if c = CHR ''+'' \<or> c = CHR ''-'' then NumGoto (CHR ''+'')
        else if digit c then NumGoto (CHR ''x'') else NumReject)
     else if n = CHR ''+'' then (if digit c then NumGoto (CHR ''x'') else NumReject)
     else if n = CHR ''x'' \<and> digit c then NumGoto n
     else NumEnd)"

section \<open>Between lexemes\<close>

text \<open>The start of a value; the container's mode has already moved on.\<close>

definition start_value :: "State \<Rightarrow> char \<Rightarrow> State option" where
  "start_value s c =
    (if c = CHR ''{'' then push s (CHR ''k'')
     else if c = CHR ''['' then push s (CHR ''A'')
     else if c = CHR 0x22 then Some (s\<lparr>js_lex := CHR ''s'', js_key := False\<rparr>)
     else if c = CHR ''t'' then Some (s\<lparr>js_lex := CHR ''l'', js_literal := ''true'', js_at := 1\<rparr>)
     else if c = CHR ''f'' then Some (s\<lparr>js_lex := CHR ''l'', js_literal := ''false'', js_at := 1\<rparr>)
     else if c = CHR ''n'' then Some (s\<lparr>js_lex := CHR ''l'', js_literal := ''null'', js_at := 1\<rparr>)
     else if c = CHR ''-'' then Some (s\<lparr>js_lex := CHR ''n'', js_number := CHR ''-''\<rparr>)
     else if c = CHR ''0'' then Some (s\<lparr>js_lex := CHR ''n'', js_number := CHR ''0''\<rparr>)
     else if nonzero_digit c then Some (s\<lparr>js_lex := CHR ''n'', js_number := CHR ''i''\<rparr>)
     else None)"

definition consume_mode :: "State \<Rightarrow> char \<Rightarrow> char \<Rightarrow> State option" where
  "consume_mode s m c =
    (if m = CHR ''k'' \<or> m = CHR ''K'' then
       (if c = CHR ''}'' \<and> m = CHR ''k'' then Some (pop_mode s)
        else if c \<noteq> CHR 0x22 then None
        else Some (s\<lparr>js_lex := CHR ''s'', js_key := True\<rparr>))
     else if m = CHR '':'' then (if c \<noteq> CHR '':'' then None else Some (set_top (CHR ''v'') s))
     else if m = CHR ''o'' then
       (if c = CHR ''}'' then Some (pop_mode s) else if c \<noteq> CHR '','' then None else Some (set_top (CHR ''K'') s))
     else if m = CHR ''a'' then
       (if c = CHR '']'' then Some (pop_mode s) else if c \<noteq> CHR '','' then None else Some (set_top (CHR ''V'') s))
     else if m = CHR ''v'' \<or> m = CHR ''V'' \<or> m = CHR ''A'' then
       (if m = CHR ''A'' \<and> c = CHR '']'' then Some (pop_mode s)
        else start_value (set_top (if m = CHR ''v'' then CHR ''o'' else CHR ''a'') s) c)
     else None)"

definition consume_struct :: "State \<Rightarrow> char \<Rightarrow> State option" where
  "consume_struct s c =
    (if space c then Some s
     else if \<not> js_started s then
       (if c \<noteq> CHR ''{'' then None else push (s\<lparr>js_started := True\<rparr>) (CHR ''k''))
     else if js_depth s = 0 then None
     else consume_mode s (js_stack s ! (js_depth s - 1)) c)"

definition consume :: "State \<Rightarrow> char \<Rightarrow> State option" where
  "consume s c =
    (if js_lex s = CHR ''s'' then consume_string s c
     else if js_lex s = CHR ''l'' then consume_literal s c
     else if js_lex s = CHR ''n'' then
       (case number_step (js_number s) c of
          NumReject \<Rightarrow> None
        | NumGoto n \<Rightarrow> Some (s\<lparr>js_number := n\<rparr>)
        | NumEnd \<Rightarrow> consume_struct (s\<lparr>js_lex := no_lex\<rparr>) c)
     else consume_struct s c)"

fun Advance :: "State \<Rightarrow> string \<Rightarrow> State option" where
  "Advance s [] = Some s"
| "Advance s (c # t) = (case consume s c of None \<Rightarrow> None | Some s' \<Rightarrow> Advance s' t)"

lemma Advance_append: "Advance s (a @ b) = (case Advance s a of None \<Rightarrow> None | Some s' \<Rightarrow> Advance s' b)"
  by (induction a arbitrary: s) (simp_all split: option.split)

end
