(* ===== verification/Json_Utf8.thy ===== *)
theory Json_Utf8
  imports Json_State
begin

text \<open>
  Incremental UTF-8: the recognizer buffers the bytes of a multi-byte rune until \<open>FullRune\<close> holds.
  A buffer that is not full is exactly a proper prefix of the encoding of some rune, and it becomes
  full and decodes exactly when it is that encoding.
\<close>

lemma DecodeRune_seq_len:
  "DecodeRune q = (r, n) \<Longrightarrow> q \<noteq> [] \<Longrightarrow> (r, n) \<noteq> (RuneError, 1) \<Longrightarrow> n = seq_len (ord (hd q)) \<and> n \<le> length q"
  by (cases q) (auto split: if_splits list.splits)

lemma decoded_full: "DecodeRune q = (r, n) \<Longrightarrow> q \<noteq> [] \<Longrightarrow> (r, n) \<noteq> (RuneError, 1) \<Longrightarrow> FullRune q"
  using DecodeRune_seq_len [of q r n] by (auto simp: FullRune_def Let_def split: list.splits)

lemma FullRune_encode: "valid_rune r \<Longrightarrow> FullRune (EncodeRune r @ s)"
  using decoded_full [of "EncodeRune r @ s" r "length (EncodeRune r)"] EncodeRune_decodable [of r s] by simp

lemma decoded_bytes:
  "DecodeRune (c # t) = (r, n) \<Longrightarrow> (r, n) \<noteq> (RuneError, 1) \<Longrightarrow> 3 \<le> seq_len (ord c) \<Longrightarrow>
    accept_second (ord c) (t ! 0) \<and> (seq_len (ord c) = 4 \<longrightarrow> cont_byte (t ! 1))"
  by (auto split: if_splits list.splits)

lemma not_full:
  "\<not> FullRune (c # t) \<longleftrightarrow> 2 \<le> seq_len (ord c) \<and> Suc (length t) < seq_len (ord c)
     \<and> (t \<noteq> [] \<longrightarrow> accept_second (ord c) (hd t)) \<and> (1 < length t \<longrightarrow> cont_byte (t ! 1))"
  by (auto simp: FullRune_def Let_def)

lemma decoded_prefix_not_full:
  assumes "DecodeRune e = (r, length e)" "(r, length e) \<noteq> (RuneError, 1)" "k < length e"
  shows "\<not> FullRune (take k e)"
proof (cases e)
  case (Cons c t)
  have n: "length e = seq_len (ord c)" using DecodeRune_seq_len [OF assms(1) _ assms(2)] Cons by simp
  have le: "seq_len (ord c) \<le> 4" by (simp add: seq_len_def)
  show ?thesis
  proof (cases k)
    case 0
    then show ?thesis by (simp add: FullRune_def)
  next
    case (Suc j)
    have j: "j < length t" "Suc j < seq_len (ord c)" using Suc assms(3) n Cons by simp_all
    have b: "accept_second (ord c) (t ! 0) \<and> (seq_len (ord c) = 4 \<longrightarrow> cont_byte (t ! 1))" if "0 < j"
      using decoded_bytes [of c t r "length e"] assms(1,2) Cons j that by auto
    have "hd (take j t) = t ! 0" if "0 < j" using j that by (cases t) (auto simp: hd_conv_nth)
    moreover have "seq_len (ord c) = 4" if "1 < j" using j le that by linarith
    moreover have "take j t ! 1 = t ! 1" if "1 < j" using that by simp
    ultimately have "\<not> FullRune (c # take j t)" unfolding not_full using j b by auto
    then show ?thesis by (simp add: Cons Suc)
  qed
qed (use assms in simp)

lemma encode_prefix_not_full: "valid_rune r \<Longrightarrow> k < length (EncodeRune r) \<Longrightarrow> \<not> FullRune (take k (EncodeRune r))"
  using decoded_prefix_not_full [of "EncodeRune r" r k] DecodeRune_encode [of r "[]"] EncodeRune_decodable [of r "[]"]
  by simp

definition pending :: "string \<Rightarrow> bool" where
  "pending p \<longleftrightarrow> p \<noteq> [] \<and> \<not> FullRune p"

lemma full_decode:
  assumes "p = [] \<or> pending p" "FullRune (p @ [c])" "DecodeRune (p @ [c]) \<noteq> (RuneError, 1)"
  shows "\<exists>r. valid_rune r \<and> p @ [c] = EncodeRune r"
proof -
  obtain r n where d: "DecodeRune (p @ [c]) = (r, n)" by (cases "DecodeRune (p @ [c])")
  note i = DecodeRune_inverse [OF d]
  have e: "valid_rune r" "EncodeRune r = take n (p @ [c])" using i assms(3) d by auto
  have "\<not> n \<le> length p"
  proof
    assume n: "n \<le> length p"
    then have p: "p = EncodeRune r @ drop n p" using e(2) by simp
    show False
    proof (cases "p = []")
      case True
      then have "EncodeRune r = []" using p by simp
      then show False by simp
    next
      case False
      then show False using assms(1) FullRune_encode [OF e(1), of "drop n p"] p by (simp add: pending_def)
    qed
  qed
  then have "take n (p @ [c]) = p @ [c]" by simp
  then show ?thesis using e by auto
qed

lemma encode_split:
  assumes "valid_rune r" "p = [] \<or> pending p" "p @ c # u = EncodeRune r @ b"
  shows "FullRune (p @ [c]) \<longleftrightarrow> p @ [c] = EncodeRune r"
    and "FullRune (p @ [c]) \<Longrightarrow> DecodeRune (p @ [c]) \<noteq> (RuneError, 1) \<and> u = b"
proof -
  let ?e = "EncodeRune r"
  have "length p < length ?e"
  proof (rule ccontr)
    assume "\<not> length p < length ?e"
    then have "p = ?e @ drop (length ?e) p" using assms(3)
      by (metis append_eq_append_conv_if append_take_drop_id leI)
    then show False using assms(2) FullRune_encode [OF assms(1)] by (metis EncodeRune_nonempty append_is_Nil_conv pending_def)
  qed
  then have len: "length (p @ [c]) \<le> length ?e" by simp
  have take: "p @ [c] = take (length (p @ [c])) ?e"
  proof -
    have "p @ [c] = take (length (p @ [c])) (?e @ b)" by (subst assms(3) [symmetric]) simp
    then show ?thesis using len by (metis append_Nil2 diff_is_0_eq take_0 take_append)
  qed
  show iff: "FullRune (p @ [c]) \<longleftrightarrow> p @ [c] = ?e"
  proof
    assume f: "FullRune (p @ [c])"
    have "\<not> length (p @ [c]) < length ?e"
      using encode_prefix_not_full [OF assms(1), of "length (p @ [c])"] take f by metis
    then show "p @ [c] = ?e" using take len by (metis le_antisym not_less take_all)
  qed (use FullRune_encode [OF assms(1), of "[]"] in simp)
  show "FullRune (p @ [c]) \<Longrightarrow> DecodeRune (p @ [c]) \<noteq> (RuneError, 1) \<and> u = b"
  proof -
    assume "FullRune (p @ [c])"
    then have e: "p @ [c] = ?e" using iff by simp
    have "(p @ [c]) @ u = ?e @ b" using assms(3) by simp
    then have "u = b" by (simp only: e) simp
    then show ?thesis using e EncodeRune_decodable [OF assms(1), of "[]"] by simp
  qed
qed

text \<open>Every pending buffer can be completed.\<close>

lemma pending_completes:
  assumes "pending p"
  shows "\<exists>u r. valid_rune r \<and> p @ u = EncodeRune r"
proof -
  obtain c t where p: "p = c # t" using assms by (cases p) (auto simp: pending_def)
  let ?n = "seq_len (ord c)"
  let ?snd = "chr (if ord c = 224 then 160 else if ord c = 240 then 144 else 128)"
  let ?x = "chr 128"
  have n: "length p < ?n" "2 \<le> ?n" "?n \<le> 4" "t \<noteq> [] \<longrightarrow> accept_second (ord c) (hd t)"
    "length t > 1 \<longrightarrow> cont_byte (t ! 1)"
    using assms unfolding p pending_def not_full by (auto simp: seq_len_def)
  have snd_ok: "accept_second (ord c) ?snd" by (simp add: accept_second_def cont_byte_def)
  have c128: "cont_byte ?x" by (simp add: cont_byte_def)
  have snd_cont: "cont_byte ?snd" by (rule accept_second_cont [OF snd_ok])
  have dec: "\<exists>r. DecodeRune (c # a # w) = (r, ?n)"
    if a: "accept_second (ord c) a" and lw: "Suc (Suc (length w)) = ?n" and cw: "list_all cont_byte w" for a w
  proof -
    have ca: "cont_byte a" by (rule accept_second_cont [OF a])
    consider "?n = 2" "w = []" | x where "?n = 3" "w = [x]" | x y where "?n = 4" "w = [x, y]"
      using lw n(2,3) by (cases w; cases "tl w"; cases "tl (tl w)") auto
    then show ?thesis by cases (use a cw ca in auto)
  qed
  consider "t = []" | a where "t = [a]" | a b where "t = [a, b]"
    using n(1,3) p by (cases t; cases "tl t"; cases "tl (tl t)") auto
  then obtain a w u where w: "accept_second (ord c) a" "Suc (Suc (length w)) = ?n" "list_all cont_byte w"
    "p @ u = c # a # w"
  proof cases
    case 1
    show thesis
    proof (rule that [of ?snd "replicate (?n - 2) ?x" "?snd # replicate (?n - 2) ?x"])
      show "Suc (Suc (length (replicate (?n - 2) ?x))) = ?n" using n(2) by simp
    qed (use snd_ok c128 p 1 in \<open>simp_all add: list_all_iff\<close>)
  next
    case (2 a)
    show thesis
    proof (rule that [of a "replicate (?n - 2) ?x" "replicate (?n - 2) ?x"])
      show "Suc (Suc (length (replicate (?n - 2) ?x))) = ?n" using n(2) by simp
    qed (use n(4) c128 p 2 in \<open>simp_all add: list_all_iff\<close>)
  next
    case (3 a b)
    show thesis
    proof (rule that [of a "b # replicate (?n - 3) ?x" "replicate (?n - 3) ?x"])
      show "Suc (Suc (length (b # replicate (?n - 3) ?x))) = ?n" using n(1) p 3 by simp
    qed (use n(4,5) c128 p 3 in \<open>simp_all add: list_all_iff\<close>)
  qed
  from dec [OF w(1-3)] obtain r where r: "DecodeRune (p @ u) = (r, ?n)" using w(4) by auto
  have "\<not> (r = RuneError \<and> ?n = 1)" "p @ u \<noteq> []" using n(2) p by auto
  from DecodeRune_inverse [OF r this(2,1)] have "valid_rune r" "EncodeRune r = take ?n (p @ u)" by blast+
  moreover have "length (p @ u) = ?n" using w(2) by (simp only: w(4)) simp
  ultimately show ?thesis by (metis order_refl take_all)
qed

end
