(* ===== verification/Json_Grammar.thy ===== *)
theory Json_Grammar
  imports Json_Utf8
begin

text \<open>
  The grammar of JSON objects over bytes (RFC 8259, with UTF-8 required in strings), with a bound on
  the nesting depth, as inductive predicates. An object or array is described by what follows its
  opening bracket: \<open>jobj\<close> and \<open>jarr\<close> after the bracket, \<open>jkey\<close> and \<open>jelem\<close> where a member or an
  element must follow, \<open>jcolon\<close> after a key, \<open>jmval\<close> after its colon, and \<open>jmore\<close> and \<open>jnext\<close> after a
  complete member or element.
\<close>

section \<open>Lexemes\<close>

abbreviation ws :: "string \<Rightarrow> bool" where
  "ws \<equiv> list_all space"

text \<open>A string, after its opening quote.\<close>

inductive str_body :: "string \<Rightarrow> bool" where
  str_quote: "str_body [CHR 0x22]"
| str_plain: "32 \<le> ord c \<Longrightarrow> ord c < 128 \<Longrightarrow> c \<noteq> CHR 0x22 \<Longrightarrow> c \<noteq> CHR 0x5C \<Longrightarrow> str_body b \<Longrightarrow> str_body (c # b)"
| str_escape: "simple_escape c \<Longrightarrow> str_body b \<Longrightarrow> str_body (CHR 0x5C # c # b)"
| str_unicode: "length h = 4 \<Longrightarrow> list_all hex_digit_char h \<Longrightarrow> str_body b \<Longrightarrow> str_body (CHR 0x5C # CHR ''u'' # h @ b)"
| str_rune: "valid_rune r \<Longrightarrow> 128 \<le> r \<Longrightarrow> str_body b \<Longrightarrow> str_body (EncodeRune r @ b)"

definition digits :: "string \<Rightarrow> bool" where
  "digits ds \<longleftrightarrow> ds \<noteq> [] \<and> list_all digit ds"

definition jint :: "string \<Rightarrow> bool" where
  "jint s \<longleftrightarrow> s = ''0'' \<or> (\<exists>c ds. s = c # ds \<and> nonzero_digit c \<and> list_all digit ds)"

definition jexp :: "string \<Rightarrow> bool" where
  "jexp s \<longleftrightarrow> s = [] \<or> (\<exists>e sg ds. s = e # sg @ ds \<and> e \<in> {CHR ''e'', CHR ''E''} \<and> sg \<in> {[], ''+'', ''-''} \<and> digits ds)"

definition jfrac :: "string \<Rightarrow> bool" where
  "jfrac s \<longleftrightarrow> jexp s \<or> (\<exists>ds x. s = CHR ''.'' # ds @ x \<and> digits ds \<and> jexp x)"

definition jnumber :: "string \<Rightarrow> bool" where
  "jnumber s \<longleftrightarrow> (\<exists>sg ip fr. s = sg @ ip @ fr \<and> sg \<in> {[], ''-''} \<and> jint ip \<and> jfrac fr)"

section \<open>Values\<close>

text \<open>The first argument bounds the number of containers that may still be opened inside one another.\<close>

inductive jval jobj jkey jcolon jmval jmore jarr jelem jnext :: "nat \<Rightarrow> string \<Rightarrow> bool" where
  val_string: "str_body b \<Longrightarrow> jval d (CHR 0x22 # b)"
| val_number: "jnumber s \<Longrightarrow> jval d s"
| val_literal: "s \<in> {''true'', ''false'', ''null''} \<Longrightarrow> jval d s"
| val_object: "jobj d t \<Longrightarrow> jval (Suc d) (CHR ''{'' # t)"
| val_array: "jarr d t \<Longrightarrow> jval (Suc d) (CHR ''['' # t)"
| obj_end: "ws w \<Longrightarrow> jobj d (w @ ''}'')"
| obj_key: "jkey d t \<Longrightarrow> jobj d t"
| key: "ws w \<Longrightarrow> str_body b \<Longrightarrow> jcolon d t \<Longrightarrow> jkey d (w @ CHR 0x22 # b @ t)"
| colon: "ws w \<Longrightarrow> jmval d t \<Longrightarrow> jcolon d (w @ CHR '':'' # t)"
| mval: "ws w \<Longrightarrow> jval d v \<Longrightarrow> jmore d t \<Longrightarrow> jmval d (w @ v @ t)"
| more_end: "ws w \<Longrightarrow> jmore d (w @ ''}'')"
| more: "ws w \<Longrightarrow> jkey d t \<Longrightarrow> jmore d (w @ CHR '','' # t)"
| arr_end: "ws w \<Longrightarrow> jarr d (w @ '']'')"
| arr_elem: "jelem d t \<Longrightarrow> jarr d t"
| elem: "ws w \<Longrightarrow> jval d v \<Longrightarrow> jnext d t \<Longrightarrow> jelem d (w @ v @ t)"
| next_end: "ws w \<Longrightarrow> jnext d (w @ '']'')"
| next_elem: "ws w \<Longrightarrow> jelem d t \<Longrightarrow> jnext d (w @ CHR '','' # t)"

text \<open>A document: one object, with white space around it, of at most \<open>d\<close> levels.\<close>

definition document :: "nat \<Rightarrow> string \<Rightarrow> bool" where
  "document d t \<longleftrightarrow> (\<exists>w o' w'. t = w @ CHR ''{'' # o' @ w' \<and> ws w \<and> jobj (d - 1) o' \<and> ws w' \<and> 0 < d)"

section \<open>The grammar by its next byte\<close>

lemma space_facts:
  "space c \<Longrightarrow> c \<noteq> CHR ''}'' \<and> c \<noteq> CHR '']'' \<and> c \<noteq> CHR '','' \<and> c \<noteq> CHR '':'' \<and> c \<noteq> CHR 0x22 \<and> c \<noteq> CHR ''{''
     \<and> c \<noteq> CHR ''['' \<and> c \<noteq> CHR ''t'' \<and> c \<noteq> CHR ''f'' \<and> c \<noteq> CHR ''n'' \<and> c \<noteq> CHR ''-'' \<and> c \<noteq> CHR ''0'' \<and> \<not> digit c \<and> \<not> nonzero_digit c"
  by (auto simp: space_def digit_def nonzero_digit_def)

lemma ws_first: "w @ x = c # t \<Longrightarrow> ws w \<Longrightarrow> (w = [] \<and> x = c # t) \<or> (\<exists>w'. w = c # w' \<and> space c \<and> ws w' \<and> t = w' @ x)"
  by (cases w) auto

lemma digit_cases: "digit c \<longleftrightarrow> c = CHR ''0'' \<or> nonzero_digit c"
proof -
  have "of_char (CHR ''0'') = (48 :: nat)" by simp
  then have "ord c = 48 \<longleftrightarrow> c = CHR ''0''" by (metis of_char_eq_iff)
  then show ?thesis unfolding digit_def nonzero_digit_def by auto
qed

inductive_cases jvalE: "jval d s"
inductive_cases jobjE: "jobj d s"
inductive_cases jkeyE: "jkey d s"
inductive_cases jcolonE: "jcolon d s"
inductive_cases jmvalE: "jmval d s"
inductive_cases jmoreE: "jmore d s"
inductive_cases jarrE: "jarr d s"
inductive_cases jelemE: "jelem d s"
inductive_cases jnextE: "jnext d s"

lemma jnumber_first: "jnumber s \<Longrightarrow> s \<noteq> [] \<and> (hd s = CHR ''-'' \<or> digit (hd s))"
  unfolding jnumber_def jint_def by (auto simp: digit_cases)

lemma jval_first: "jval d s \<Longrightarrow> s \<noteq> [] \<and> \<not> space (hd s) \<and> hd s \<noteq> CHR '']'' \<and> hd s \<noteq> CHR ''}'' \<and> hd s \<noteq> CHR '',''"
proof (erule jvalE)
  assume "jnumber s"
  then show ?thesis using jnumber_first [of s] space_facts [of "hd s"] by (auto simp: digit_def)
qed (auto simp: space_def)

text \<open>Concatenation of two languages.\<close>

definition seqd :: "(string \<Rightarrow> bool) \<Rightarrow> (string \<Rightarrow> bool) \<Rightarrow> string \<Rightarrow> bool" where
  "seqd P Q t \<longleftrightarrow> (\<exists>u v. t = u @ v \<and> P u \<and> Q v)"

lemma seqd_Cons_any: "seqd P Q (c # t) \<longleftrightarrow> seqd (\<lambda>u. P (c # u)) Q t \<or> (P [] \<and> Q (c # t))" (is "?l \<longleftrightarrow> ?r")
proof
  assume ?l
  then obtain u v where u: "c # t = u @ v" "P u" "Q v" by (auto simp: seqd_def)
  show ?r
  proof (cases u)
    case (Cons a w)
    then have "t = w @ v" "P (c # w)" using u by simp_all
    then show ?r using u(3) unfolding seqd_def by blast
  qed (use u in simp)
next
  assume ?r
  then show ?l
  proof
    assume "seqd (\<lambda>u. P (c # u)) Q t"
    then obtain u v where "t = u @ v" "P (c # u)" "Q v" by (auto simp: seqd_def)
    then have "c # t = (c # u) @ v" "P (c # u)" "Q v" by simp_all
    then show ?l unfolding seqd_def by blast
  next
    assume "P [] \<and> Q (c # t)"
    then show ?l unfolding seqd_def by (metis append_Nil)
  qed
qed

lemma seqd_Cons: "\<not> P [] \<Longrightarrow> seqd P Q (c # t) \<longleftrightarrow> seqd (\<lambda>u. P (c # u)) Q t"
  by (simp add: seqd_Cons_any)

lemma seqd_Nil: "seqd P Q [] \<longleftrightarrow> P [] \<and> Q []"
  by (simp add: seqd_def)

lemma seqd_assoc: "seqd (seqd P Q) R t \<longleftrightarrow> seqd P (seqd Q R) t"
  unfolding seqd_def by (metis append.assoc)

lemma seqd_simps:
  "seqd (\<lambda>u. A u \<or> B u) Q t \<longleftrightarrow> seqd A Q t \<or> seqd B Q t"
  "seqd (\<lambda>u. C \<and> A u) Q t \<longleftrightarrow> C \<and> seqd A Q t"
  "seqd (\<lambda>u. \<exists>x. E x u) Q t \<longleftrightarrow> (\<exists>x. seqd (E x) Q t)"
  "seqd (\<lambda>u. u = []) Q t \<longleftrightarrow> Q t"
  "seqd (\<lambda>u. C) Q t \<longleftrightarrow> C \<and> (\<exists>u v. t = u @ v \<and> Q v)"
  "seqd (\<lambda>u. False) Q t \<longleftrightarrow> False"
  by (auto simp: seqd_def)

lemma jkey_step:
  "jkey d (c # t) \<longleftrightarrow> (space c \<and> jkey d t) \<or> (c = CHR 0x22 \<and> seqd str_body (jcolon d) t)" (is "?l \<longleftrightarrow> ?r")
proof
  show "?l \<Longrightarrow> ?r" by (erule jkeyE, drule (1) ws_first [OF sym]) (auto intro: key simp: seqd_def)
  show "?r \<Longrightarrow> ?l" using key [of "[]"] key [of "c # _"] by (fastforce elim: jkeyE simp: seqd_def)
qed

lemma jobj_step:
  "jobj d (c # t) \<longleftrightarrow> (space c \<and> jobj d t) \<or> (c = CHR ''}'' \<and> t = [])
     \<or> (c = CHR 0x22 \<and> seqd str_body (jcolon d) t)" (is "?l \<longleftrightarrow> ?r")
proof
  assume ?l
  then show ?r
  proof (rule jobjE)
    fix w assume "c # t = w @ ''}''" "ws w"
    then show ?r using ws_first [of w "''}''" c t] by (auto intro: obj_end)
  next
    assume "jkey d (c # t)"
    then show ?r using jkey_step [of d c t] by (auto intro: obj_key)
  qed
next
  assume ?r
  then consider "space c" "jobj d t" | "c = CHR ''}''" "t = []"
    | "c = CHR 0x22" "seqd str_body (jcolon d) t" by blast
  then show ?l
  proof cases
    case 1
    from 1(2) show ?l
    proof (rule jobjE)
      fix w assume "t = w @ ''}''" "ws w"
      then show ?l using obj_end [of "c # w" d] 1(1) by simp
    next
      assume "jkey d t"
      then show ?l using 1(1) jkey_step [of d c t] obj_key by blast
    qed
  next
    case 2
    then show ?l using obj_end [of "[]" d] by simp
  next
    case 3
    then show ?l using jkey_step [of d c t] obj_key by blast
  qed
qed

lemma jcolon_step: "jcolon d (c # t) \<longleftrightarrow> (space c \<and> jcolon d t) \<or> (c = CHR '':'' \<and> jmval d t)" (is "?l \<longleftrightarrow> ?r")
proof
  show "?l \<Longrightarrow> ?r" by (erule jcolonE, drule (1) ws_first [OF sym]) (auto intro: colon)
  show "?r \<Longrightarrow> ?l" using colon [of "[]"] colon [of "c # _"] by (fastforce elim: jcolonE)
qed

lemma jmval_step: "jmval d (c # t) \<longleftrightarrow> (space c \<and> jmval d t) \<or> (\<not> space c \<and> seqd (jval d) (jmore d) (c # t))" (is "?l \<longleftrightarrow> ?r")
proof
  assume ?l
  then obtain w v u where w: "c # t = w @ v @ u" "ws w" "jval d v" "jmore d u" by (auto elim: jmvalE)
  show ?r
  proof (cases w)
    case Nil
    then have "\<not> space c" using jval_first [OF w(3)] w(1) by (cases v) auto
    then show ?r using w Nil by (auto simp: seqd_def)
  next
    case (Cons a w')
    then show ?r using w mval [of w' d v u] by auto
  qed
next
  assume ?r
  then show ?l using mval [of "[]"] mval [of "c # _"] by (fastforce elim: jmvalE simp: seqd_def)
qed

lemma jelem_step: "jelem d (c # t) \<longleftrightarrow> (space c \<and> jelem d t) \<or> (\<not> space c \<and> seqd (jval d) (jnext d) (c # t))" (is "?l \<longleftrightarrow> ?r")
proof
  assume ?l
  then obtain w v u where w: "c # t = w @ v @ u" "ws w" "jval d v" "jnext d u" by (auto elim: jelemE)
  show ?r
  proof (cases w)
    case Nil
    then have "\<not> space c" using jval_first [OF w(3)] w(1) by (cases v) auto
    then show ?r using w Nil by (auto simp: seqd_def)
  next
    case (Cons a w')
    then show ?r using w elem [of w' d v u] by auto
  qed
next
  assume ?r
  then show ?l using elem [of "[]"] elem [of "c # _"] by (fastforce elim: jelemE simp: seqd_def)
qed


lemma jarr_step:
  "jarr d (c # t) \<longleftrightarrow> (space c \<and> jarr d t) \<or> (c = CHR '']'' \<and> t = []) \<or> (\<not> space c \<and> seqd (jval d) (jnext d) (c # t))"
  (is "?l \<longleftrightarrow> ?r")
proof
  assume ?l
  then show ?r
  proof (rule jarrE)
    fix w assume "c # t = w @ '']''" "ws w"
    then show ?r using ws_first [of w "'']''" c t] by (auto intro: arr_end)
  next
    assume "jelem d (c # t)"
    then show ?r using jelem_step [of d c t] by (auto intro: arr_elem)
  qed
next
  assume ?r
  then consider "space c" "jarr d t" | "c = CHR '']''" "t = []" | "\<not> space c" "seqd (jval d) (jnext d) (c # t)" by blast
  then show ?l
  proof cases
    case 1
    from 1(2) show ?l
    proof (rule jarrE)
      fix w assume "t = w @ '']''" "ws w"
      then show ?l using arr_end [of "c # w" d] 1(1) by simp
    next
      assume "jelem d t"
      then show ?l using 1(1) jelem_step [of d c t] arr_elem by blast
    qed
  next
    case 2
    then show ?l using arr_end [of "[]" d] by simp
  next
    case 3
    then show ?l using jelem_step [of d c t] arr_elem by blast
  qed
qed

lemma jmore_step:
  "jmore d (c # t) \<longleftrightarrow> (space c \<and> jmore d t) \<or> (c = CHR ''}'' \<and> t = []) \<or> (c = CHR '','' \<and> jkey d t)" (is "?l \<longleftrightarrow> ?r")
proof
  assume ?l
  then show ?r
  proof (rule jmoreE)
    fix w assume "c # t = w @ ''}''" "ws w"
    then show ?r using ws_first [of w "''}''" c t] by (auto intro: more_end)
  next
    fix w u assume w: "c # t = w @ CHR '','' # u" "ws w" "jkey d u"
    then show ?r using ws_first [of w "CHR '','' # u" c t] more [of _ d u] by auto
  qed
next
  assume ?r
  then consider "space c" "jmore d t" | "c = CHR ''}''" "t = []" | "c = CHR '',''" "jkey d t" by blast
  then show ?l
  proof cases
    case 1
    from 1(2) show ?l
    proof (rule jmoreE)
      fix w assume "t = w @ ''}''" "ws w"
      then show ?l using more_end [of "c # w" d] 1(1) by simp
    next
      fix w u assume "t = w @ CHR '','' # u" "ws w" "jkey d u"
      then show ?l using more [of "c # w" d u] 1(1) by simp
    qed
  next
    case 2
    then show ?l using more_end [of "[]" d] by simp
  next
    case 3
    then show ?l using more [of "[]" d t] by simp
  qed
qed

lemma jnext_step:
  "jnext d (c # t) \<longleftrightarrow> (space c \<and> jnext d t) \<or> (c = CHR '']'' \<and> t = []) \<or> (c = CHR '','' \<and> jelem d t)" (is "?l \<longleftrightarrow> ?r")
proof
  assume ?l
  then show ?r
  proof (rule jnextE)
    fix w assume "c # t = w @ '']''" "ws w"
    then show ?r using ws_first [of w "'']''" c t] by (auto intro: next_end)
  next
    fix w u assume w: "c # t = w @ CHR '','' # u" "ws w" "jelem d u"
    then show ?r using ws_first [of w "CHR '','' # u" c t] next_elem [of _ d u] by auto
  qed
next
  assume ?r
  then consider "space c" "jnext d t" | "c = CHR '']''" "t = []" | "c = CHR '',''" "jelem d t" by blast
  then show ?l
  proof cases
    case 1
    from 1(2) show ?l
    proof (rule jnextE)
      fix w assume "t = w @ '']''" "ws w"
      then show ?l using next_end [of "c # w" d] 1(1) by simp
    next
      fix w u assume "t = w @ CHR '','' # u" "ws w" "jelem d u"
      then show ?l using next_elem [of "c # w" d u] 1(1) by simp
    qed
  next
    case 2
    then show ?l using next_end [of "[]" d] by simp
  next
    case 3
    then show ?l using next_elem [of "[]" d t] by simp
  qed
qed

lemma nonterminals_nonempty:
  "\<not> jobj d []" "\<not> jkey d []" "\<not> jcolon d []" "\<not> jmval d []" "\<not> jmore d []" "\<not> jarr d []" "\<not> jelem d []" "\<not> jnext d []"
  using jval_first by (auto elim: jobjE jkeyE jcolonE jmvalE jmoreE jarrE jelemE jnextE)

section \<open>Numbers and strings by their next byte\<close>

text \<open>What completes a number after the automaton's number state \<open>n\<close>.\<close>

definition num_rest :: "char \<Rightarrow> string \<Rightarrow> bool" where
  "num_rest n u \<longleftrightarrow>
    (if n = CHR ''-'' then \<exists>ip fr. u = ip @ fr \<and> jint ip \<and> jfrac fr
     else if n = CHR ''0'' then jfrac u
     else if n = CHR ''i'' then \<exists>ds fr. u = ds @ fr \<and> list_all digit ds \<and> jfrac fr
     else if n = CHR ''.'' then \<exists>ds x. u = ds @ x \<and> digits ds \<and> jexp x
     else if n = CHR ''f'' then \<exists>ds x. u = ds @ x \<and> list_all digit ds \<and> jexp x
     else if n = CHR ''e'' then \<exists>sg ds. u = sg @ ds \<and> sg \<in> {[], ''+'', ''-''} \<and> digits ds
     else if n = CHR ''+'' then digits u
     else n = CHR ''x'' \<and> list_all digit u)"

definition num_states :: "char set" where
  "num_states = set ''-0i.fe+x''"

definition num_final :: "char \<Rightarrow> bool" where
  "num_final n \<longleftrightarrow> n \<in> set ''0ifx''"

lemma digit_not: "digit c \<Longrightarrow> c \<noteq> CHR ''.'' \<and> c \<noteq> CHR ''e'' \<and> c \<noteq> CHR ''E'' \<and> c \<noteq> CHR ''+'' \<and> c \<noteq> CHR ''-''"
  by (auto simp: digit_def)

lemma nonzero_not: "nonzero_digit c \<Longrightarrow> c \<noteq> CHR ''0'' \<and> c \<noteq> CHR ''-'' \<and> digit c"
  by (auto simp: nonzero_digit_def digit_def)

lemma digits_run_step:
  "(\<exists>ds x. c # u = ds @ x \<and> list_all digit ds \<and> P x) \<longleftrightarrow>
    (digit c \<and> (\<exists>ds x. u = ds @ x \<and> list_all digit ds \<and> P x)) \<or> P (c # u)" (is "?l \<longleftrightarrow> ?r")
proof
  assume ?l
  then obtain ds x where "c # u = ds @ x" "list_all digit ds" "P x" by blast
  then show ?r by (cases ds) auto
next
  assume ?r
  then show ?l
  proof
    assume "digit c \<and> (\<exists>ds x. u = ds @ x \<and> list_all digit ds \<and> P x)"
    then obtain ds x where "digit c" "u = ds @ x" "list_all digit ds" "P x" by blast
    then show ?l by (intro exI [of _ "c # ds"] exI [of _ x]) simp
  next
    assume "P (c # u)"
    then show ?l by (intro exI [of _ "[]"] exI [of _ "c # u"]) simp
  qed
qed

lemma digits_step:
  "(\<exists>ds x. c # u = ds @ x \<and> digits ds \<and> P x) \<longleftrightarrow> digit c \<and> (\<exists>ds x. u = ds @ x \<and> list_all digit ds \<and> P x)" (is "?l \<longleftrightarrow> ?r")
proof
  assume ?l
  then obtain ds x where "c # u = ds @ x" "digits ds" "P x" by blast
  then show ?r by (cases ds) (auto simp: digits_def)
next
  assume ?r
  then obtain ds x where "digit c" "u = ds @ x" "list_all digit ds" "P x" by blast
  then show ?l by (intro exI [of _ "c # ds"] exI [of _ x]) (simp add: digits_def)
qed

lemma jexp_step: "jexp (c # u) \<longleftrightarrow> (c = CHR ''e'' \<or> c = CHR ''E'') \<and> num_rest (CHR ''e'') u"
  by (auto simp: jexp_def num_rest_def)

lemma jfrac_step: "jfrac (c # u) \<longleftrightarrow> jexp (c # u) \<or> (c = CHR ''.'' \<and> num_rest (CHR ''.'') u)"
  by (auto simp: jfrac_def num_rest_def)

lemma jint_step:
  "(\<exists>ip fr. c # u = ip @ fr \<and> jint ip \<and> P fr) \<longleftrightarrow>
    (c = CHR ''0'' \<and> P u) \<or> (nonzero_digit c \<and> (\<exists>ds fr. u = ds @ fr \<and> list_all digit ds \<and> P fr))" (is "?l \<longleftrightarrow> ?r")
proof
  assume ?l
  then show ?r by (auto simp: jint_def)
next
  assume ?r
  then show ?l
  proof
    assume "c = CHR ''0'' \<and> P u"
    then show ?l by (intro exI [of _ "''0''"] exI [of _ u]) (simp add: jint_def)
  next
    assume "nonzero_digit c \<and> (\<exists>ds fr. u = ds @ fr \<and> list_all digit ds \<and> P fr)"
    then obtain ds fr where "nonzero_digit c" "u = ds @ fr" "list_all digit ds" "P fr" by blast
    then show ?l by (intro exI [of _ "c # ds"] exI [of _ fr]) (simp add: jint_def)
  qed
qed

lemma exp_step: "num_rest (CHR ''e'') (c # u) \<longleftrightarrow> (c = CHR ''+'' \<or> c = CHR ''-'') \<and> digits u \<or> digit c \<and> list_all digit u"
proof -
  have "(\<exists>sg ds. c # u = sg @ ds \<and> sg \<in> {[], ''+'', ''-''} \<and> digits ds) \<longleftrightarrow>
      (\<exists>ds. c # u = [] @ ds \<and> digits ds) \<or> (\<exists>ds. c # u = ''+'' @ ds \<and> digits ds) \<or> (\<exists>ds. c # u = ''-'' @ ds \<and> digits ds)"
    by blast
  then show ?thesis using digit_not [of c] by (auto simp: num_rest_def digits_def)
qed

lemma num_rest_step:
  assumes "n \<in> num_states"
  shows "num_rest n (c # u) \<longleftrightarrow> (\<exists>n'. number_step n c = NumGoto n' \<and> num_rest n' u)"
proof -
  consider "n = CHR ''-''" | "n = CHR ''0''" | "n = CHR ''i''" | "n = CHR ''.''" | "n = CHR ''f''" | "n = CHR ''e''"
    | "n = CHR ''+''" | "n = CHR ''x''" using assms by (auto simp: num_states_def)
  then show ?thesis
  proof cases
    case 1
    then show ?thesis using nonzero_not [of c] jint_step [of c u jfrac] by (auto simp: num_rest_def number_step_def)
  next
    case 2
    then show ?thesis using digit_not [of c] jfrac_step [of c u] jexp_step [of c u]
      by (auto simp: num_rest_def number_step_def)
  next
    case 3
    then show ?thesis using digit_not [of c] jfrac_step [of c u] jexp_step [of c u] digits_run_step [of c u jfrac]
      by (auto simp: num_rest_def number_step_def)
  next
    case 4
    then show ?thesis using digits_step [of c u jexp] by (auto simp: num_rest_def number_step_def)
  next
    case 5
    then show ?thesis using digit_not [of c] jexp_step [of c u] digits_run_step [of c u jexp]
      by (auto simp: num_rest_def number_step_def)
  next
    case 6
    then show ?thesis using digit_not [of c] exp_step [of c u] by (auto simp: num_rest_def number_step_def)
  next
    case 7
    then show ?thesis by (auto simp: num_rest_def number_step_def digits_def)
  next
    case 8
    then show ?thesis by (auto simp: num_rest_def number_step_def)
  qed
qed

lemma num_rest_Nil: "n \<in> num_states \<Longrightarrow> num_rest n [] \<longleftrightarrow> num_final n"
  by (auto simp: num_rest_def num_states_def num_final_def jint_def jfrac_def jexp_def digits_def)

lemma number_step_state: "number_step n c = NumGoto n' \<Longrightarrow> n \<in> num_states \<Longrightarrow> n' \<in> num_states"
  by (auto simp: number_step_def num_states_def split: if_splits)

lemma number_step_end: "number_step n c = NumEnd \<Longrightarrow> n \<in> num_states \<Longrightarrow> num_final n"
  by (auto simp: number_step_def num_states_def num_final_def split: if_splits)

lemma number_step_delim:
  "num_final n \<Longrightarrow> space c \<or> c \<in> set ''}],'' \<Longrightarrow> number_step n c = NumEnd"
proof -
  assume n: "num_final n" and c: "space c \<or> c \<in> set ''}],''"
  have "\<not> digit c" "c \<noteq> CHR ''.''" "c \<noteq> CHR ''e''" "c \<noteq> CHR ''E''"
    using c unfolding space_def digit_def by (elim disjE; simp; elim disjE; simp)+
  then show "number_step n c = NumEnd" using n by (auto simp: number_step_def num_final_def)
qed


section \<open>The first byte of a value\<close>

lemma literal_step:
  "c # u \<in> {''true'', ''false'', ''null''} \<longleftrightarrow>
    (c = CHR ''t'' \<and> u = ''rue'') \<or> (c = CHR ''f'' \<and> u = ''alse'') \<or> (c = CHR ''n'' \<and> u = ''ull'')"
  by auto

lemma jnumber_step:
  "jnumber (c # u) \<longleftrightarrow> (c = CHR ''-'' \<and> num_rest (CHR ''-'') u) \<or> (c = CHR ''0'' \<and> num_rest (CHR ''0'') u)
     \<or> (nonzero_digit c \<and> num_rest (CHR ''i'') u)"
proof -
  have "jnumber (c # u) \<longleftrightarrow> (\<exists>ip fr. c # u = [] @ ip @ fr \<and> jint ip \<and> jfrac fr)
      \<or> (\<exists>ip fr. c # u = ''-'' @ ip @ fr \<and> jint ip \<and> jfrac fr)"
    unfolding jnumber_def by blast
  then show ?thesis using jint_step [of c u jfrac] by (simp add: num_rest_def) blast
qed

lemma jval_step:
  "jval d (c # u) \<longleftrightarrow>
    (c = CHR 0x22 \<and> str_body u)
    \<or> (c = CHR ''t'' \<and> u = ''rue'') \<or> (c = CHR ''f'' \<and> u = ''alse'') \<or> (c = CHR ''n'' \<and> u = ''ull'')
    \<or> (c = CHR ''-'' \<and> num_rest (CHR ''-'') u) \<or> (c = CHR ''0'' \<and> num_rest (CHR ''0'') u)
    \<or> (nonzero_digit c \<and> num_rest (CHR ''i'') u)
    \<or> (c = CHR ''{'' \<and> 0 < d \<and> jobj (d - 1) u) \<or> (c = CHR ''['' \<and> 0 < d \<and> jarr (d - 1) u)" (is "?l \<longleftrightarrow> ?r")
proof
  assume ?l
  then show ?r
  proof (rule jvalE)
    assume "jnumber (c # u)"
    then show ?r unfolding jnumber_step by (elim disjE) simp_all
  qed auto
next
  have lit: "c = CHR ''t'' \<and> u = ''rue'' \<Longrightarrow> ?l" "c = CHR ''f'' \<and> u = ''alse'' \<Longrightarrow> ?l"
    "c = CHR ''n'' \<and> u = ''ull'' \<Longrightarrow> ?l"
    using val_literal [of "c # u" d] by simp_all
  have num: "c = CHR ''-'' \<and> num_rest (CHR ''-'') u \<Longrightarrow> ?l" "c = CHR ''0'' \<and> num_rest (CHR ''0'') u \<Longrightarrow> ?l"
    "nonzero_digit c \<and> num_rest (CHR ''i'') u \<Longrightarrow> ?l"
    using val_number [of "c # u" d] unfolding jnumber_step by simp_all
  have obj: "c = CHR ''{'' \<and> 0 < d \<and> jobj (d - 1) u \<Longrightarrow> ?l" using val_object [of "d - 1" u] by auto
  have arr: "c = CHR ''['' \<and> 0 < d \<and> jarr (d - 1) u \<Longrightarrow> ?l" using val_array [of "d - 1" u] by auto
  have str: "c = CHR 0x22 \<and> str_body u \<Longrightarrow> ?l" using val_string by auto
  assume ?r
  then show ?l
    by (elim disjE) (erule str lit num obj arr)+
qed

section \<open>Strings by their next byte\<close>

definition hex_rest :: "nat \<Rightarrow> string \<Rightarrow> bool" where
  "hex_rest n u \<longleftrightarrow> (\<exists>h b. u = h @ b \<and> length h = n \<and> list_all hex_digit_char h \<and> str_body b)"

definition esc_rest :: "string \<Rightarrow> bool" where
  "esc_rest u \<longleftrightarrow> (\<exists>c b. u = c # b \<and> ((simple_escape c \<and> str_body b) \<or> (c = CHR ''u'' \<and> hex_rest 4 b)))"

definition rune_rest :: "string \<Rightarrow> string \<Rightarrow> bool" where
  "rune_rest p u \<longleftrightarrow> (\<exists>r b. p @ u = EncodeRune r @ b \<and> valid_rune r \<and> 128 \<le> r \<and> str_body b)"

inductive_cases str_bodyE: "str_body s"

lemma encode_first: "valid_rune r \<Longrightarrow> EncodeRune r = c # u \<Longrightarrow> 128 \<le> ord c \<longleftrightarrow> 128 \<le> r"
proof -
  assume r: "valid_rune r" "EncodeRune r = c # u"
  note v = r(1) [unfolded valid_rune_def]
  have 2: "2 \<le> r div 64 \<and> r div 64 < 32" if "128 \<le> r" "r < 2048"
    using that by (simp add: div_less_iff_less_mult less_eq_div_iff_mult_less_eq)
  have 3: "r div 4096 < 16" if "r < 65536" using that by (simp add: div_less_iff_less_mult)
  have 4: "r div 262144 < 5" using v by (simp add: div_less_iff_less_mult) linarith
  show ?thesis using r 2 3 4 by (auto simp: EncodeRune_def encode_raw_def split: if_splits)
qed

lemma str_body_Nil [simp]: "\<not> str_body []"
  by (auto elim: str_bodyE)

lemma str_body_step:
  "str_body (c # u) \<longleftrightarrow> (c = CHR 0x22 \<and> u = []) \<or> (c = CHR 0x5C \<and> esc_rest u)
     \<or> (32 \<le> ord c \<and> ord c < 128 \<and> c \<noteq> CHR 0x22 \<and> c \<noteq> CHR 0x5C \<and> str_body u)
     \<or> (128 \<le> ord c \<and> rune_rest [] (c # u))" (is "?l \<longleftrightarrow> ?r")
proof
  assume ?l
  then show ?r
  proof (rule str_bodyE)
    fix r b assume e: "c # u = EncodeRune r @ b" "valid_rune r" "128 \<le> r" "str_body b"
    obtain d w where w: "EncodeRune r = d # w" using EncodeRune_nonempty [of r] by (cases "EncodeRune r") auto
    then have "128 \<le> ord c" using encode_first [OF e(2) w] e(1,3) by simp
    moreover have "rune_rest [] (c # u)" unfolding rune_rest_def using e by auto
    ultimately show ?r by simp
  qed (auto simp: esc_rest_def hex_rest_def)
next
  assume ?r
  then show ?l
    by (elim disjE conjE) (auto simp: esc_rest_def hex_rest_def rune_rest_def intro: str_body.intros)
qed

end
