(* ===== verification/Json_Automaton.thy ===== *)
theory Json_Automaton
  imports Json_Grammar
begin

text \<open>
  The automaton against the grammar. \<open>rest s t\<close> says, in terms of the grammar, that \<open>t\<close> completes a
  document in state \<open>s\<close>; one step of the automaton is one byte of that language (\<open>consume_rest\<close>), and
  \<open>state_ok\<close> is the invariant under which this holds.
\<close>

section \<open>The stack as a list of modes\<close>

definition modes :: "State \<Rightarrow> char list" where
  "modes s = rev (take (js_depth s) (js_stack s))"

lemma modes_update [simp]:
  "modes (s\<lparr>js_lex := a\<rparr>) = modes s" "modes (s\<lparr>js_key := b\<rparr>) = modes s" "modes (s\<lparr>js_literal := l\<rparr>) = modes s"
  "modes (s\<lparr>js_at := n\<rparr>) = modes s" "modes (s\<lparr>js_number := a\<rparr>) = modes s" "modes (s\<lparr>js_escape := b\<rparr>) = modes s"
  "modes (s\<lparr>js_hex := n\<rparr>) = modes s" "modes (s\<lparr>js_utf := l\<rparr>) = modes s" "modes (s\<lparr>js_utfN := n\<rparr>) = modes s"
  "modes (s\<lparr>js_started := b\<rparr>) = modes s"
  by (simp_all add: modes_def)

definition stack_ok :: "State \<Rightarrow> bool" where
  "stack_ok s \<longleftrightarrow> length (js_stack s) = 64 \<and> js_depth s \<le> 64"

lemma length_modes: "stack_ok s \<Longrightarrow> length (modes s) = js_depth s"
  by (simp add: modes_def stack_ok_def)

lemma take_last: "0 < n \<Longrightarrow> n \<le> length xs \<Longrightarrow> take n xs = take (n - 1) xs @ [xs ! (n - 1)]"
  by (cases n) (simp_all add: take_Suc_conv_app_nth)

lemma modes_last:
  "stack_ok s \<Longrightarrow> 0 < js_depth s \<Longrightarrow> modes s = js_stack s ! (js_depth s - 1) # rev (take (js_depth s - 1) (js_stack s))"
  unfolding modes_def stack_ok_def by (subst take_last) simp_all

lemma modes_cases:
  assumes "stack_ok s" "0 < js_depth s"
  obtains m ms where "modes s = m # ms" "js_stack s ! (js_depth s - 1) = m" "length ms = js_depth s - 1"
  by (rule that [OF modes_last [OF assms] refl]) (use assms in \<open>auto simp: stack_ok_def\<close>)

lemma modes_push:
  assumes "stack_ok s" "push s c = Some s'"
  shows "modes s' = c # modes s \<and> stack_ok s'"
  using assms take_Suc_conv_app_nth [of "js_depth s" "(js_stack s)[js_depth s := c]"]
  by (auto simp: push_def modes_def stack_ok_def split: if_splits)

lemma push_None: "stack_ok s \<Longrightarrow> push s c = None \<longleftrightarrow> length (modes s) = 64"
  by (simp add: push_def length_modes) (simp add: stack_ok_def)

lemma push_fields:
  "push s c = Some s' \<Longrightarrow> js_started s' = js_started s \<and> js_lex s' = js_lex s \<and> js_key s' = js_key s
     \<and> js_hex s' = js_hex s \<and> js_escape s' = js_escape s \<and> js_utf s' = js_utf s \<and> js_utfN s' = js_utfN s
     \<and> js_depth s' = js_depth s + 1"
  by (auto simp: push_def split: if_splits)

lemma modes_set_top: "stack_ok s \<Longrightarrow> modes s = m # ms \<Longrightarrow> modes (set_top c s) = c # ms \<and> stack_ok (set_top c s)"
proof -
  assume s: "stack_ok s" "modes s = m # ms"
  then have d: "0 < js_depth s" "js_depth s \<le> 64" "length (js_stack s) = 64"
    using length_modes [of s] by (auto simp: stack_ok_def)
  have "take (js_depth s) ((js_stack s)[js_depth s - 1 := c]) = take (js_depth s - 1) (js_stack s) @ [c]"
    using d by (subst take_last) simp_all
  moreover have "rev (take (js_depth s - 1) (js_stack s)) = ms" using modes_last [OF s(1) d(1)] s(2) by simp
  ultimately show ?thesis using d by (simp add: modes_def set_top_def stack_ok_def)
qed

lemma modes_pop: "stack_ok s \<Longrightarrow> modes s = m # ms \<Longrightarrow> modes (pop_mode s) = ms \<and> stack_ok (pop_mode s)"
proof -
  assume s: "stack_ok s" "modes s = m # ms"
  then have d: "0 < js_depth s" "js_depth s \<le> 64" "length (js_stack s) = 64"
    using length_modes [of s] by (auto simp: stack_ok_def)
  have "rev (take (js_depth s - 1) (js_stack s)) = ms"
    using modes_last [OF s(1) d(1)] s(2) by simp
  then show ?thesis using d by (simp add: modes_def pop_mode_def stack_ok_def)
qed

lemma set_top_fields [simp]:
  "js_started (set_top c s) = js_started s" "js_lex (set_top c s) = js_lex s" "js_key (set_top c s) = js_key s"
  "js_depth (set_top c s) = js_depth s" "js_hex (set_top c s) = js_hex s" "js_escape (set_top c s) = js_escape s"
  "js_utf (set_top c s) = js_utf s" "js_utfN (set_top c s) = js_utfN s"
  by (simp_all add: set_top_def)

lemma pop_mode_fields [simp]:
  "js_started (pop_mode s) = js_started s" "js_lex (pop_mode s) = js_lex s" "js_key (pop_mode s) = js_key s"
  "js_depth (pop_mode s) = js_depth s - 1" "js_hex (pop_mode s) = js_hex s" "js_escape (pop_mode s) = js_escape s"
  "js_utf (pop_mode s) = js_utf s" "js_utfN (pop_mode s) = js_utfN s"
  by (simp_all add: pop_mode_def)

section \<open>Strings\<close>

definition idle :: "State \<Rightarrow> bool" where
  "idle s \<longleftrightarrow> js_hex s = 0 \<and> \<not> js_escape s \<and> js_utfN s = 0"

definition str_ok :: "State \<Rightarrow> bool" where
  "str_ok s \<longleftrightarrow> js_hex s \<le> 4 \<and> length (js_utf s) = 4 \<and> js_utfN s < 4
     \<and> (0 < js_hex s \<longrightarrow> \<not> js_escape s \<and> js_utfN s = 0) \<and> (js_escape s \<longrightarrow> js_utfN s = 0)
     \<and> (0 < js_utfN s \<longrightarrow> pending (take (js_utfN s) (js_utf s)))"

definition str_rest :: "State \<Rightarrow> string \<Rightarrow> bool" where
  "str_rest s u \<longleftrightarrow>
    (if 0 < js_hex s then hex_rest (js_hex s) u
     else if js_escape s then esc_rest u
     else if 0 < js_utfN s then rune_rest (take (js_utfN s) (js_utf s)) u
     else str_body u)"

lemma hex_rest_step: "hex_rest (Suc n) (c # u) \<longleftrightarrow> hex_digit_char c \<and> hex_rest n u" (is "?l \<longleftrightarrow> ?r")
proof
  assume ?l
  then obtain h b where "c # u = h @ b" "length h = Suc n" "list_all hex_digit_char h" "str_body b"
    by (auto simp: hex_rest_def)
  then show ?r by (cases h) (auto simp: hex_rest_def)
next
  assume ?r
  then obtain h b where "u = h @ b" "length h = n" "list_all hex_digit_char h" "str_body b" "hex_digit_char c"
    by (auto simp: hex_rest_def)
  then show ?l unfolding hex_rest_def by (intro exI [of _ "c # h"] exI [of _ b]) simp
qed

lemma hex_rest_0: "hex_rest 0 u \<longleftrightarrow> str_body u"
  by (auto simp: hex_rest_def)

lemma rests_Nil: "\<not> hex_rest n []" "\<not> esc_rest []" "pending p \<Longrightarrow> \<not> rune_rest p []"
proof -
  show "\<not> hex_rest n []" "\<not> esc_rest []" by (auto simp: hex_rest_def esc_rest_def)
  assume p: "pending p"
  show "\<not> rune_rest p []"
  proof
    assume "rune_rest p []"
    then obtain r b where "p = EncodeRune r @ b" "valid_rune r" by (auto simp: rune_rest_def)
    then show False using FullRune_encode [of r b] p by (simp add: pending_def)
  qed
qed

lemma str_rest_Nil: "str_ok s \<Longrightarrow> \<not> str_rest s []"
  by (auto simp: str_ok_def str_rest_def rests_Nil)

lemma pending_high: "pending (c # p) \<Longrightarrow> 128 \<le> ord c"
  by (auto simp: pending_def not_full seq_len_def split: if_splits)

text \<open>One byte of a multi-byte rune.\<close>

lemma consume_utf_step:
  assumes "str_ok s" "0 < js_utfN s \<or> 128 \<le> ord c" "js_hex s = 0" "\<not> js_escape s"
  shows "rune_rest (take (js_utfN s) (js_utf s)) (c # u) \<longleftrightarrow>
      (\<exists>s'. consume_utf s c = Some s' \<and> str_rest s' u)"
    and "consume_utf s c = Some s' \<Longrightarrow> str_ok s' \<and> modes s' = modes s \<and> stack_ok s' = stack_ok s \<and> js_lex s' = js_lex s
      \<and> js_key s' = js_key s \<and> js_started s' = js_started s \<and> js_depth s' = js_depth s"
proof -
  let ?p = "take (js_utfN s) (js_utf s)"
  have n: "js_utfN s < 4" "length (js_utf s) = 4" using assms(1) by (simp_all add: str_ok_def)
  have p: "?p = [] \<or> pending ?p" using assms(1) by (auto simp: str_ok_def)
  have q: "take (Suc (js_utfN s)) ((js_utf s)[js_utfN s := c]) = ?p @ [c]"
    using n take_Suc_conv_app_nth [of "js_utfN s" "(js_utf s)[js_utfN s := c]"] by simp
  have high: "128 \<le> ord (hd (?p @ [c]))"
    using assms(2) p pending_high [of "hd ?p" "tl ?p"] n by (cases ?p) (auto simp: pending_def)
  have eq: "consume_utf s c = (let s = s\<lparr>js_utf := (js_utf s)[js_utfN s := c], js_utfN := js_utfN s + 1\<rparr> in
      if FullRune (?p @ [c]) then (if DecodeRune (?p @ [c]) = (RuneError, 1) then None else Some (s\<lparr>js_utfN := 0\<rparr>))
      else Some s)"
    using n q by (simp add: consume_utf_def Let_def)
  have len: "length (?p @ [c]) = Suc (js_utfN s)" using n by simp
  have four: "js_utfN s = 3 \<Longrightarrow> FullRune (?p @ [c])"
  proof (rule ccontr)
    assume "js_utfN s = 3" "\<not> FullRune (?p @ [c])"
    moreover obtain a w where "?p @ [c] = a # w" by (cases "?p @ [c]") auto
    ultimately show False using len not_full [of a w] by (auto simp: seq_len_def split: if_splits)
  qed
  show "rune_rest ?p (c # u) \<longleftrightarrow> (\<exists>s'. consume_utf s c = Some s' \<and> str_rest s' u)"
  proof (cases "FullRune (?p @ [c])")
    case True
    have "rune_rest ?p (c # u) \<longleftrightarrow> DecodeRune (?p @ [c]) \<noteq> (RuneError, 1) \<and> str_body u"
    proof
      assume "rune_rest ?p (c # u)"
      then obtain r b where r: "?p @ c # u = EncodeRune r @ b" "valid_rune r" "str_body b" by (auto simp: rune_rest_def)
      show "DecodeRune (?p @ [c]) \<noteq> (RuneError, 1) \<and> str_body u" using encode_split(2) [OF r(2) p r(1) True] r(3) by simp
    next
      assume d: "DecodeRune (?p @ [c]) \<noteq> (RuneError, 1) \<and> str_body u"
      obtain r where r: "valid_rune r" "?p @ [c] = EncodeRune r" using full_decode [OF p True] d by blast
      have "128 \<le> r" using encode_first [OF r(1), of "hd (?p @ [c])" "tl (?p @ [c])"] r(2) high by simp
      moreover have "?p @ c # u = EncodeRune r @ u" using r(2) by (metis append.assoc append_Cons append_Nil)
      ultimately show "rune_rest ?p (c # u)" unfolding rune_rest_def using r(1) d by blast
    qed
    then show ?thesis using True assms(3,4) by (auto simp: eq str_rest_def)
  next
    case False
    have "rune_rest ?p (c # u) \<longleftrightarrow> rune_rest (?p @ [c]) u" by (simp add: rune_rest_def)
    then show ?thesis using False assms(3,4) q by (simp add: eq str_rest_def Let_def)
  qed
  assume c: "consume_utf s c = Some s'"
  have "\<not> FullRune (?p @ [c]) \<Longrightarrow> js_utfN s + 1 < 4" using four n by (cases "js_utfN s = 3") auto
  moreover have "\<not> FullRune (?p @ [c]) \<Longrightarrow> pending (?p @ [c])" by (simp add: pending_def)
  ultimately show "str_ok s' \<and> modes s' = modes s \<and> stack_ok s' = stack_ok s \<and> js_lex s' = js_lex s
      \<and> js_key s' = js_key s \<and> js_started s' = js_started s \<and> js_depth s' = js_depth s"
    using c assms(3,4) n q by (auto simp: eq Let_def str_ok_def stack_ok_def split: if_splits)
qed


text \<open>One byte of a string; the closing quote leaves the string.\<close>

definition after_string :: "State \<Rightarrow> char list" where
  "after_string s = (if js_key s then CHR '':'' # tl (modes s) else modes s)"

lemma consume_string_step:
  assumes "str_ok s" "stack_ok s" "js_lex s = CHR ''s''" "modes s \<noteq> []"
  shows "str_rest s (c # u) \<longleftrightarrow>
      (\<exists>s'. consume_string s c = Some s' \<and> (if js_lex s' = no_lex then u = [] else str_rest s' u))"
    and "consume_string s c = Some s' \<Longrightarrow> str_ok s' \<and> stack_ok s' \<and> js_started s' = js_started s
      \<and> js_key s' = js_key s \<and> js_depth s' = js_depth s
      \<and> (js_lex s' = no_lex \<and> idle s' \<and> modes s' = after_string s \<or> js_lex s' = CHR ''s'' \<and> modes s' = modes s)"
proof -
  obtain m ms where m: "modes s = m # ms" using assms(4) by (cases "modes s") auto
  note top = modes_set_top [of "s\<lparr>js_lex := no_lex\<rparr>" m ms "CHR '':''"]
  have ok': "stack_ok (s\<lparr>js_lex := no_lex\<rparr>)" using assms(2) by (simp add: stack_ok_def)
  note upd = str_ok_def stack_ok_def
  have six: "(str_rest s (c # u) \<longleftrightarrow>
      (\<exists>s'. consume_string s c = Some s' \<and> (if js_lex s' = no_lex then u = [] else str_rest s' u)))
    \<and> (\<forall>s'. consume_string s c = Some s' \<longrightarrow> str_ok s' \<and> stack_ok s' \<and> js_started s' = js_started s
      \<and> js_key s' = js_key s \<and> js_depth s' = js_depth s
      \<and> (js_lex s' = no_lex \<and> idle s' \<and> modes s' = after_string s \<or> js_lex s' = CHR ''s'' \<and> modes s' = modes s))"
  proof (cases "0 < js_hex s")
    case True
    then obtain n where n: "js_hex s = Suc n" by (cases "js_hex s") auto
    then show ?thesis using True assms
      by (cases n) (auto simp: consume_string_def str_rest_def hex_rest_step hex_rest_0 upd)
  next
    case hex: False
    show ?thesis
    proof (cases "js_escape s")
      case True
      have e: "esc_rest (c # u) \<longleftrightarrow> (c = CHR ''u'' \<and> hex_rest 4 u) \<or> (simple_escape c \<and> str_body u)"
        by (auto simp: esc_rest_def)
      have "\<not> simple_escape (CHR ''u'')" by (simp add: simple_escape_def)
      then show ?thesis using hex True assms e
        by (auto simp: consume_string_def str_rest_def Let_def upd)
    next
      case esc: False
      show ?thesis
      proof (cases "0 < js_utfN s \<or> 128 \<le> ord c")
        case True
        have h: "js_hex s = 0" using hex by simp
        note u = consume_utf_step [OF assms(1) True h esc]
        have c: "consume_string s c = consume_utf s c" using hex esc True by (auto simp: consume_string_def)
        have r: "str_rest s (c # u) \<longleftrightarrow> rune_rest (take (js_utfN s) (js_utf s)) (c # u)"
        proof (cases "0 < js_utfN s")
          case True
          then show ?thesis using hex esc by (simp add: str_rest_def)
        next
          case False
          then have "128 \<le> ord c" using \<open>0 < js_utfN s \<or> 128 \<le> ord c\<close> by simp
          moreover from this have "c \<noteq> CHR 0x22" "c \<noteq> CHR 0x5C" by (rule contrapos_pn; simp)+
          ultimately have "str_body (c # u) \<longleftrightarrow> rune_rest [] (c # u)" unfolding str_body_step by simp
          then show ?thesis using False hex esc by (simp add: str_rest_def)
        qed
        have "js_lex s' = js_lex s" if "consume_utf s c = Some s'" for s' using u(2) [OF that] by simp
        then show ?thesis unfolding c r u(1) using u(2) assms(2,3) by auto
      next
        case False
        have b: "str_body (c # u) \<longleftrightarrow> (c = CHR 0x22 \<and> u = []) \<or> (c = CHR 0x5C \<and> esc_rest u)
            \<or> (32 \<le> ord c \<and> c \<noteq> CHR 0x22 \<and> c \<noteq> CHR 0x5C \<and> str_body u)"
          using str_body_step [of c u] False by auto
        have q: "32 \<le> ord (CHR 0x22 :: char)" "32 \<le> ord (CHR 0x5C :: char)" by simp_all
        consider "ord c < 32" | "c = CHR 0x22" | "c = CHR 0x5C"
          | "32 \<le> ord c" "c \<noteq> CHR 0x22" "c \<noteq> CHR 0x5C" by linarith
        then show ?thesis
        proof cases
          case 2
          have "consume_string s c = Some (if js_key s then set_top (CHR '':'') (s\<lparr>js_lex := no_lex\<rparr>) else s\<lparr>js_lex := no_lex\<rparr>)"
            using hex esc False 2 by (auto simp: consume_string_def Let_def)
          moreover have "str_rest s (c # u) \<longleftrightarrow> u = []" using hex esc False 2 b by (auto simp: str_rest_def)
          moreover have "str_ok (set_top (CHR '':'') (s\<lparr>js_lex := no_lex\<rparr>))" "str_ok (s\<lparr>js_lex := no_lex\<rparr>)"
            "idle (set_top (CHR '':'') (s\<lparr>js_lex := no_lex\<rparr>))" "idle (s\<lparr>js_lex := no_lex\<rparr>)"
            using assms(1) hex esc False by (simp_all add: str_ok_def idle_def)
          ultimately show ?thesis using top m ok' by (simp add: after_string_def)
        qed (use hex esc False assms b q in \<open>auto simp: consume_string_def str_rest_def upd\<close>)
      qed
    qed
  qed
  from six show "str_rest s (c # u) \<longleftrightarrow>
      (\<exists>s'. consume_string s c = Some s' \<and> (if js_lex s' = no_lex then u = [] else str_rest s' u))" by blast
  show "consume_string s c = Some s' \<Longrightarrow> str_ok s' \<and> stack_ok s' \<and> js_started s' = js_started s
      \<and> js_key s' = js_key s \<and> js_depth s' = js_depth s
      \<and> (js_lex s' = no_lex \<and> idle s' \<and> modes s' = after_string s \<or> js_lex s' = CHR ''s'' \<and> modes s' = modes s)"
    using six by blast
qed

section \<open>What completes a document\<close>

definition mode_rest :: "char \<Rightarrow> nat \<Rightarrow> string \<Rightarrow> bool" where
  "mode_rest m d =
    (if m = CHR ''k'' then jobj d else if m = CHR ''K'' then jkey d else if m = CHR '':'' then jcolon d
     else if m = CHR ''v'' then jmval d else if m = CHR ''o'' then jmore d else if m = CHR ''A'' then jarr d
     else if m = CHR ''V'' then jelem d else if m = CHR ''a'' then jnext d else (\<lambda>t. False))"

fun stack_rest :: "char list \<Rightarrow> string \<Rightarrow> bool" where
  "stack_rest [] = ws"
| "stack_rest (m # ms) = seqd (mode_rest m (63 - length ms)) (stack_rest ms)"

definition rest :: "State \<Rightarrow> string \<Rightarrow> bool" where
  "rest s t \<longleftrightarrow>
    (if \<not> js_started s then (\<exists>w u. t = w @ CHR ''{'' # u \<and> ws w \<and> stack_rest [CHR ''k''] u)
     else if js_lex s = CHR ''s'' then seqd (str_rest s) (stack_rest (after_string s)) t
     else if js_lex s = CHR ''l'' then seqd (\<lambda>u. u = drop (js_at s) (js_literal s)) (stack_rest (modes s)) t
     else if js_lex s = CHR ''n'' then seqd (num_rest (js_number s)) (stack_rest (modes s)) t
     else stack_rest (modes s) t)"

definition state_ok :: "State \<Rightarrow> bool" where
  "state_ok s \<longleftrightarrow> stack_ok s \<and> str_ok s \<and> set (modes s) \<subseteq> set ''kK:voAVa''
     \<and> (\<not> js_started s \<longrightarrow> js_depth s = 0 \<and> js_lex s = no_lex)
     \<and> js_lex s \<in> {no_lex, CHR ''s'', CHR ''l'', CHR ''n''}
     \<and> (js_lex s \<noteq> CHR ''s'' \<longrightarrow> idle s)
     \<and> (js_lex s \<noteq> no_lex \<longrightarrow> modes s \<noteq> []
          \<and> hd (modes s) \<in> (if js_lex s = CHR ''s'' \<and> js_key s then {CHR ''k'', CHR ''K''} else {CHR ''o'', CHR ''a''}))
     \<and> (js_lex s = CHR ''l'' \<longrightarrow> js_literal s \<in> {''true'', ''false'', ''null''} \<and> js_at s < length (js_literal s))
     \<and> (js_lex s = CHR ''n'' \<longrightarrow> js_number s \<in> num_states)"

lemma mode_rest_Nil: "\<not> mode_rest m d []"
  by (simp add: mode_rest_def nonterminals_nonempty)

lemma stack_rest_Cons: "stack_rest (m # ms) (c # t) \<longleftrightarrow> seqd (\<lambda>u. mode_rest m (63 - length ms) (c # u)) (stack_rest ms) t"
  by (simp add: seqd_Cons mode_rest_Nil)

text \<open>After a member or an element only white space, a comma or the closing bracket can follow.\<close>

lemma delim_first:
  assumes "m \<in> {CHR ''o'', CHR ''a''}" "stack_rest (m # ms) (c # t)"
  shows "space c \<or> c \<in> set ''}],''"
  using assms unfolding stack_rest_Cons by (auto simp: seqd_def mode_rest_def jmore_step jnext_step)


section \<open>One byte between lexemes\<close>

lemma mode_rest_space:
  assumes "space c" "m \<in> set ''kK:voAVa''"
  shows "mode_rest m d (c # u) \<longleftrightarrow> mode_rest m d u"
  using assms space_facts [OF assms(1)]
  by (auto simp: mode_rest_def jobj_step jkey_step jcolon_step jmval_step jmore_step jarr_step jelem_step jnext_step)

lemma stack_rest_space: "space c \<Longrightarrow> set ms \<subseteq> set ''kK:voAVa'' \<Longrightarrow> stack_rest ms (c # t) \<longleftrightarrow> stack_rest ms t"
  by (cases ms) (simp_all add: stack_rest_Cons mode_rest_space seqd_Cons mode_rest_Nil del: stack_rest.simps(2),
      simp add: mode_rest_space)

lemma idle_str_rest: "idle s \<Longrightarrow> str_rest s = str_body"
  by (rule ext) (simp add: idle_def str_rest_def)

lemma jval_Nil: "\<not> jval d []"
  using jval_first [of d "[]"] by auto

lemma start_value_step:
  assumes "stack_ok s" "modes s = m # ms" "js_started s" "js_lex s = no_lex" "idle s"
  shows "seqd (jval (63 - length ms)) (stack_rest (m # ms)) (c # t) \<longleftrightarrow> (\<exists>s'. start_value s c = Some s' \<and> rest s' t)"
proof -
  let ?d = "63 - length ms"
  let ?Q = "stack_rest (m # ms)"
  have lm: "length ms \<le> 63" using length_modes [OF assms(1)] assms(1,2) by (simp add: stack_ok_def)
  have l: "seqd (jval ?d) ?Q (c # t) \<longleftrightarrow> seqd (\<lambda>u. jval ?d (c # u)) ?Q t" by (simp only: seqd_Cons jval_Nil not_False_eq_True)
  have push: "(\<exists>s'. push s a = Some s' \<and> rest s' t) \<longleftrightarrow> 0 < ?d \<and> seqd (mode_rest a (?d - 1)) ?Q t" for a
  proof (cases "push s a")
    case None
    then show ?thesis using push_None [OF assms(1), of a] assms(2) by simp
  next
    case (Some s')
    have "length (modes s) \<noteq> 64" using push_None [OF assms(1), of a] Some by simp
    then have "0 < ?d" using lm assms(2) by simp
    moreover have "rest s' t \<longleftrightarrow> stack_rest (a # m # ms) t"
      using modes_push [OF assms(1) Some] push_fields [OF Some] assms(2-4) by (simp add: rest_def)
    ultimately show ?thesis using Some by simp
  qed
  have str: "rest (s\<lparr>js_lex := CHR ''s'', js_key := False\<rparr>) t \<longleftrightarrow> seqd str_body ?Q t"
  proof -
    have "idle (s\<lparr>js_lex := CHR ''s'', js_key := False\<rparr>)" using assms(5) by (simp add: idle_def)
    then show ?thesis using assms(2,3) by (simp add: rest_def idle_str_rest after_string_def)
  qed
  have lit: "rest (s\<lparr>js_lex := CHR ''l'', js_literal := w, js_at := Suc 0\<rparr>) t \<longleftrightarrow> seqd (\<lambda>u. u = drop 1 w) ?Q t" for w
    using assms(2,3) by (simp add: rest_def)
  have num: "rest (s\<lparr>js_lex := CHR ''n'', js_number := n\<rparr>) t \<longleftrightarrow> seqd (num_rest n) ?Q t" for n
    using assms(2,3) by (simp add: rest_def)
  have nz: "\<not> nonzero_digit (CHR ''{'')" "\<not> nonzero_digit (CHR ''['')" "\<not> nonzero_digit (CHR 0x22)" "\<not> nonzero_digit (CHR ''t'')"
    "\<not> nonzero_digit (CHR ''f'')" "\<not> nonzero_digit (CHR ''n'')" "\<not> nonzero_digit (CHR ''-'')" "\<not> nonzero_digit (CHR ''0'')"
    by (simp_all add: nonzero_digit_def)
  consider "c = CHR ''{''" | "c = CHR ''[''" | "c = CHR 0x22" | "c = CHR ''t''" | "c = CHR ''f''" | "c = CHR ''n''"
    | "c = CHR ''-''" | "c = CHR ''0''"
    | "c \<notin> {CHR ''{'', CHR ''['', CHR 0x22, CHR ''t'', CHR ''f'', CHR ''n'', CHR ''-'', CHR ''0''}" by blast
  then show ?thesis
  proof cases
    case 9
    then show ?thesis unfolding l jval_step
      by (cases "nonzero_digit c") (simp_all add: start_value_def num seqd_simps del: stack_rest.simps)
  qed (unfold l jval_step, simp_all add: start_value_def nz push str lit num seqd_simps mode_rest_def del: stack_rest.simps)
qed

lemma consume_mode_step:
  assumes "stack_ok s" "modes s = m # ms" "js_started s" "js_lex s = no_lex" "idle s" "m \<in> set ''kK:voAVa''" "\<not> space c"
  shows "stack_rest (m # ms) (c # t) \<longleftrightarrow> (\<exists>s'. consume_mode s m c = Some s' \<and> rest s' t)"
proof -
  let ?d = "63 - length ms"
  have eq: "stack_rest (m # ms) (c # t) \<longleftrightarrow> seqd (\<lambda>u. mode_rest m ?d (c # u)) (stack_rest ms) t" by (rule stack_rest_Cons)
  have pop: "rest (pop_mode s) t \<longleftrightarrow> stack_rest ms t" using modes_pop [OF assms(1,2)] assms(3,4) by (simp add: rest_def)
  have set: "rest (set_top a s) t \<longleftrightarrow> seqd (mode_rest a ?d) (stack_rest ms) t" for a
    using modes_set_top [OF assms(1,2), of a] assms(3,4) by (simp add: rest_def)
  have key: "rest (s\<lparr>js_lex := CHR ''s'', js_key := True\<rparr>) t \<longleftrightarrow> seqd (seqd str_body (jcolon ?d)) (stack_rest ms) t"
  proof -
    have "idle (s\<lparr>js_lex := CHR ''s'', js_key := True\<rparr>)" using assms(5) by (simp add: idle_def)
    then show ?thesis using assms(2,3)
      by (simp add: rest_def idle_str_rest after_string_def seqd_assoc mode_rest_def)
  qed
  have val: "seqd (\<lambda>u. seqd (jval ?d) (mode_rest a ?d) (c # u)) (stack_rest ms) t \<longleftrightarrow>
      (\<exists>s'. start_value (set_top a s) c = Some s' \<and> rest s' t)" for a
  proof -
    have n: "\<not> seqd (jval ?d) (mode_rest a ?d) []" by (simp add: seqd_Nil jval_Nil)
    have "seqd (\<lambda>u. seqd (jval ?d) (mode_rest a ?d) (c # u)) (stack_rest ms) t
        \<longleftrightarrow> seqd (seqd (jval ?d) (mode_rest a ?d)) (stack_rest ms) (c # t)" by (simp only: seqd_Cons [of "seqd (jval ?d) (mode_rest a ?d)", OF n])
    also have "\<dots> \<longleftrightarrow> seqd (jval ?d) (stack_rest (a # ms)) (c # t)" by (simp add: seqd_assoc)
    also have "\<dots> \<longleftrightarrow> (\<exists>s'. start_value (set_top a s) c = Some s' \<and> rest s' t)"
      using modes_set_top [OF assms(1,2), of a] assms(3-5) by (intro start_value_step) (simp_all add: idle_def)
    finally show ?thesis .
  qed
  have o: "mode_rest (CHR ''o'') ?d = jmore ?d" "mode_rest (CHR ''a'') ?d = jnext ?d"
    by (simp_all add: mode_rest_def)
  note val = val [of "CHR ''o''", unfolded o] val [of "CHR ''a''", unfolded o]
  consider "m = CHR ''k''" | "m = CHR ''K''" | "m = CHR '':''" | "m = CHR ''v''" | "m = CHR ''o''" | "m = CHR ''A''"
    | "m = CHR ''V''" | "m = CHR ''a''" using assms(6) by auto
  then show ?thesis
  proof cases
    case 1
    then show ?thesis unfolding eq using assms(7) key pop
      by (auto simp: mode_rest_def jobj_step consume_mode_def seqd_simps)
  next
    case 2
    then show ?thesis unfolding eq using assms(7) key
      by (auto simp: mode_rest_def jkey_step consume_mode_def seqd_simps)
  next
    case 3
    then show ?thesis unfolding eq using assms(7) set [of "CHR ''v''"]
      by (auto simp: mode_rest_def jcolon_step consume_mode_def seqd_simps)
  next
    case 4
    then show ?thesis unfolding eq using assms(7) val
      by (simp add: mode_rest_def jmval_step consume_mode_def)
  next
    case 5
    then show ?thesis unfolding eq using assms(7) set [of "CHR ''K''"] pop
      by (auto simp: mode_rest_def jmore_step consume_mode_def seqd_simps)
  next
    case 6
    have nv: "\<not> seqd (jval ?d) F (CHR '']'' # u)" for F u
      using jval_first [of ?d "CHR '']'' # _"] by (auto simp: seqd_Cons jval_Nil) (auto simp: seqd_def)
    show ?thesis unfolding eq using 6 assms(7) val pop nv
      by (cases "c = CHR '']''") (simp_all add: mode_rest_def jarr_step consume_mode_def seqd_simps)
  next
    case 7
    then show ?thesis unfolding eq using assms(7) val
      by (simp add: mode_rest_def jelem_step consume_mode_def)
  next
    case 8
    then show ?thesis unfolding eq using assms(7) set [of "CHR ''V''"] pop
      by (auto simp: mode_rest_def jnext_step consume_mode_def seqd_simps)
  qed
qed


lemma consume_struct_rest:
  assumes ok: "state_ok s" and no: "js_lex s = no_lex"
  shows "rest s (c # t) \<longleftrightarrow> (\<exists>s'. consume_struct s c = Some s' \<and> rest s' t)"
proof -
  have st: "stack_ok s" "idle s" "set (modes s) \<subseteq> set ''kK:voAVa''" and ns: "\<not> js_started s \<Longrightarrow> js_depth s = 0"
    using ok no by (auto simp: state_ok_def)
  have fresh: "(\<exists>w u. c # t = w @ CHR ''{'' # u \<and> ws w \<and> P u) \<longleftrightarrow>
      (c = CHR ''{'' \<and> P t) \<or> (space c \<and> (\<exists>w u. t = w @ CHR ''{'' # u \<and> ws w \<and> P u))" (is "?l \<longleftrightarrow> ?r") for P
  proof
    assume ?l
    then obtain w u where "w @ CHR ''{'' # u = c # t" "ws w" "P u" by (metis (no_types))
    then show ?r using ws_first [of w "CHR ''{'' # u" c t] by auto
  next
    assume ?r
    then show ?l
    proof
      assume "c = CHR ''{'' \<and> P t"
      then show ?l by (intro exI [of _ "[]"] exI [of _ t]) simp
    next
      assume "space c \<and> (\<exists>w u. t = w @ CHR ''{'' # u \<and> ws w \<and> P u)"
      then obtain w u where "space c" "t = w @ CHR ''{'' # u" "ws w" "P u" by blast
      then show ?l by (intro exI [of _ "c # w"] exI [of _ u]) simp
    qed
  qed
  show ?thesis
  proof (cases "space c")
    case True
    then have "c \<noteq> CHR ''{''" using space_facts by blast
    then show ?thesis using True no fresh [of "stack_rest [CHR ''k'']"] stack_rest_space [OF True st(3)]
      by (simp add: consume_struct_def rest_def del: stack_rest.simps)
  next
    case sp: False
    show ?thesis
    proof (cases "js_started s")
      case False
      let ?s = "s\<lparr>js_started := True\<rparr>"
      have ok': "stack_ok ?s" using st(1) by (simp add: stack_ok_def)
      have mt: "modes ?s = []" using ns [OF False] by (simp add: modes_def)
      obtain s' where s': "push ?s (CHR ''k'') = Some s'"
        using push_None [OF ok', of "CHR ''k''"] mt by (cases "push ?s (CHR ''k'')") auto
      have "rest s' t \<longleftrightarrow> stack_rest [CHR ''k''] t"
        using modes_push [OF ok' s'] push_fields [OF s'] mt no by (simp add: rest_def del: stack_rest.simps)
      then show ?thesis using sp False s' fresh [of "stack_rest [CHR ''k'']"]
        by (simp add: consume_struct_def rest_def del: stack_rest.simps)
    next
      case started: True
      show ?thesis
      proof (cases "js_depth s = 0")
        case True
        then have "modes s = []" by (simp add: modes_def)
        then show ?thesis using True sp started no by (simp add: consume_struct_def rest_def)
      next
        case False
        then have "0 < js_depth s" by simp
        from modes_cases [OF st(1) this] obtain m ms
          where m: "modes s = m # ms" "js_stack s ! (js_depth s - 1) = m" by blast
        have "m \<in> set ''kK:voAVa''" using st(3) m(1) by simp
        from consume_mode_step [OF st(1) m(1) started no st(2) this sp] show ?thesis
          using False sp started no m by (simp add: consume_struct_def rest_def del: stack_rest.simps)
      qed
    qed
  qed
qed

lemma consume_rest:
  assumes ok: "state_ok s"
  shows "rest s (c # t) \<longleftrightarrow> (\<exists>s'. consume s c = Some s' \<and> rest s' t)"
proof -
  have st: "stack_ok s" "str_ok s" and started: "js_lex s \<noteq> no_lex \<Longrightarrow> js_started s"
    using ok by (auto simp: state_ok_def)
  consider "js_lex s = no_lex" | "js_lex s = CHR ''s''" | "js_lex s = CHR ''l''" | "js_lex s = CHR ''n''"
    using ok by (auto simp: state_ok_def)
  then show ?thesis
  proof cases
    case 1
    then show ?thesis using consume_struct_rest [OF ok 1] by (simp add: consume_def)
  next
    case 2
    have ne: "modes s \<noteq> []" using ok 2 by (simp add: state_ok_def)
    note step = consume_string_step [OF st(2,1) 2 ne]
    have "rest s (c # t) \<longleftrightarrow> seqd (\<lambda>u. str_rest s (c # u)) (stack_rest (after_string s)) t"
      using 2 started by (simp add: rest_def seqd_Cons str_rest_Nil [OF st(2)])
    also have "\<dots> \<longleftrightarrow> (\<exists>s'. consume_string s c = Some s' \<and> rest s' t)"
    proof (cases "consume_string s c")
      case None
      then show ?thesis unfolding step(1) by (simp add: seqd_simps)
    next
      case (Some s')
      note f = step(2) [OF Some]
      show ?thesis
      proof (cases "js_lex s' = no_lex")
        case True
        then have "modes s' = after_string s" using f by auto
        then show ?thesis unfolding step(1) using True Some f 2 started by (simp add: seqd_simps rest_def)
      next
        case False
        then have "js_lex s' = CHR ''s''" "modes s' = modes s" using f by auto
        then show ?thesis unfolding step(1) using Some f 2 started by (simp add: rest_def after_string_def)
      qed
    qed
    finally show ?thesis using 2 by (simp add: consume_def)
  next
    case 3
    have at: "js_at s < length (js_literal s)" using ok 3 by (auto simp: state_ok_def)
    then have d: "drop (js_at s) (js_literal s) = js_literal s ! js_at s # drop (Suc (js_at s)) (js_literal s)"
      by (rule Cons_nth_drop_Suc [symmetric])
    have "rest s (c # t) \<longleftrightarrow> c = js_literal s ! js_at s
        \<and> seqd (\<lambda>u. u = drop (Suc (js_at s)) (js_literal s)) (stack_rest (modes s)) t"
      using 3 started by (auto simp: rest_def d seqd_def)
    moreover have "seqd (\<lambda>u. u = drop (Suc (js_at s)) (js_literal s)) (stack_rest (modes s)) t \<longleftrightarrow> stack_rest (modes s) t"
      if "Suc (js_at s) = length (js_literal s)" using that by (simp add: seqd_simps)
    ultimately show ?thesis using 3 started by (auto simp: consume_def consume_literal_def Let_def rest_def)
  next
    case 4
    have n: "js_number s \<in> num_states" and top: "modes s \<noteq> []" "hd (modes s) \<in> {CHR ''o'', CHR ''a''}"
      using ok 4 by (auto simp: state_ok_def)
    obtain m ms where m: "modes s = m # ms" using top(1) by (cases "modes s") auto
    have ok': "state_ok (s\<lparr>js_lex := no_lex\<rparr>)" using ok 4 by (auto simp: state_ok_def stack_ok_def str_ok_def idle_def)
    note struct = consume_struct_rest [OF ok', of c t]
    have r: "rest s (c # t) \<longleftrightarrow> seqd (\<lambda>u. num_rest (js_number s) (c # u)) (stack_rest (modes s)) t
        \<or> (num_final (js_number s) \<and> stack_rest (modes s) (c # t))"
      using 4 started by (simp add: rest_def seqd_Cons_any num_rest_Nil [OF n])
    have delim: "num_final (js_number s) \<Longrightarrow> stack_rest (modes s) (c # t) \<Longrightarrow> number_step (js_number s) c = NumEnd"
      using number_step_delim delim_first [of m ms c t] top m by auto
    have c: "consume s c = (case number_step (js_number s) c of NumReject \<Rightarrow> None
        | NumGoto n \<Rightarrow> Some (s\<lparr>js_number := n\<rparr>) | NumEnd \<Rightarrow> consume_struct (s\<lparr>js_lex := no_lex\<rparr>) c)"
      using 4 by (simp add: consume_def)
    show ?thesis
    proof (cases "number_step (js_number s) c")
      case NumReject
      then show ?thesis unfolding r c num_rest_step [OF n] using delim by (auto simp: seqd_simps)
    next
      case (NumGoto n')
      then show ?thesis unfolding r c num_rest_step [OF n] using delim 4 started by (auto simp: rest_def)
    next
      case NumEnd
      have "num_final (js_number s)" by (rule number_step_end [OF NumEnd n])
      moreover have "rest (s\<lparr>js_lex := no_lex\<rparr>) (c # t) \<longleftrightarrow> stack_rest (modes s) (c # t)"
        using 4 started by (simp add: rest_def)
      ultimately show ?thesis unfolding r c num_rest_step [OF n] using NumEnd struct by (simp add: seqd_simps)
    qed
  qed
qed

lemma rest_Nil: "state_ok s \<Longrightarrow> rest s [] \<longleftrightarrow> Complete s"
proof -
  assume ok: "state_ok s"
  have st: "stack_ok s" "str_ok s" using ok by (simp_all add: state_ok_def)
  have m: "modes s = [] \<longleftrightarrow> js_depth s = 0" using length_modes [OF st(1)] by auto
  have sr: "stack_rest ms [] \<longleftrightarrow> ms = []" for ms by (cases ms) (simp_all add: seqd_Nil mode_rest_Nil)
  consider "\<not> js_started s" | "js_started s" "js_lex s = no_lex" | "js_started s" "js_lex s \<noteq> no_lex" "modes s \<noteq> []"
    using ok by (auto simp: state_ok_def)
  then show ?thesis
  proof cases
    case 3
    then show ?thesis using str_rest_Nil [OF st(2)] sr [of "modes s"] by (auto simp: rest_def Complete_def seqd_Nil)
  qed (use m sr in \<open>auto simp: rest_def Complete_def\<close>)
qed


section \<open>The invariant is kept\<close>

lemma state_ok_between:
  assumes "stack_ok s" "str_ok s" "idle s" "js_started s" "js_lex s = no_lex" "set (modes s) \<subseteq> set ''kK:voAVa''"
  shows "state_ok s"
  using assms by (simp add: state_ok_def)

lemma push_ok:
  assumes "push s a = Some s'" "stack_ok s" "str_ok s" "idle s" "js_started s" "js_lex s = no_lex"
    "set (modes s) \<subseteq> set ''kK:voAVa''" "a \<in> set ''kA''"
  shows "state_ok s'"
proof (rule state_ok_between)
  show "stack_ok s'" using modes_push [OF assms(2,1)] by simp
  show "str_ok s'" "idle s'" "js_started s'" "js_lex s' = no_lex"
    using push_fields [OF assms(1)] assms(3-6) by (simp_all add: str_ok_def idle_def)
  show "set (modes s') \<subseteq> set ''kK:voAVa''" using modes_push [OF assms(2,1)] assms(7,8) by auto
qed

lemma start_value_ok:
  assumes "start_value s c = Some s'" "stack_ok s" "str_ok s" "idle s" "js_started s" "js_lex s = no_lex"
    "modes s = m # ms" "m \<in> {CHR ''o'', CHR ''a''}" "set ms \<subseteq> set ''kK:voAVa''"
  shows "state_ok s'"
proof -
  have lx: "state_ok (s\<lparr>js_lex := CHR ''s'', js_key := False\<rparr>)"
    "w \<in> {''true'', ''false'', ''null''} \<Longrightarrow> state_ok (s\<lparr>js_lex := CHR ''l'', js_literal := w, js_at := 1\<rparr>)"
    "n \<in> num_states \<Longrightarrow> state_ok (s\<lparr>js_lex := CHR ''n'', js_number := n\<rparr>)" for w n
    using assms(2-9) by (auto simp: state_ok_def stack_ok_def str_ok_def idle_def)
  have ps: "push s a = Some s' \<Longrightarrow> a \<in> set ''kA'' \<Longrightarrow> state_ok s'" for a
    using push_ok [of s a s'] assms(2-9) by auto
  have ns: "CHR ''-'' \<in> num_states" "CHR ''0'' \<in> num_states" "CHR ''i'' \<in> num_states" by (simp_all add: num_states_def)
  show ?thesis using assms(1) ps lx(1) lx(2) [of "''true''"] lx(2) [of "''false''"] lx(2) [of "''null''"]
      lx(3) [OF ns(1)] lx(3) [OF ns(2)] lx(3) [OF ns(3)]
    unfolding start_value_def by (simp split: if_splits)
qed

lemma consume_mode_ok:
  assumes "consume_mode s m c = Some s'" "stack_ok s" "str_ok s" "idle s" "js_started s" "js_lex s = no_lex"
    "modes s = m # ms" "set (m # ms) \<subseteq> set ''kK:voAVa''"
  shows "state_ok s'"
proof -
  have set: "stack_ok (set_top a s)" "str_ok (set_top a s)" "idle (set_top a s)" "js_started (set_top a s)"
    "js_lex (set_top a s) = no_lex" "modes (set_top a s) = a # ms" for a
    using modes_set_top [OF assms(2,7)] assms(3-6) by (simp_all add: str_ok_def idle_def)
  have set_ok: "a \<in> set ''kK:voAVa'' \<Longrightarrow> state_ok (set_top a s)" for a
    by (rule state_ok_between [OF set(1-5)]) (use set(6) assms(8) in auto)
  have pop_ok: "state_ok (pop_mode s)"
    using modes_pop [OF assms(2,7)] assms(3-6,8) by (intro state_ok_between) (simp_all add: str_ok_def idle_def)
  have key_ok: "m \<in> {CHR ''k'', CHR ''K''} \<Longrightarrow> state_ok (s\<lparr>js_lex := CHR ''s'', js_key := True\<rparr>)"
    using assms(2-8) by (auto simp: state_ok_def stack_ok_def str_ok_def idle_def)
  have val_ok: "start_value (set_top a s) c = Some s' \<Longrightarrow> a \<in> {CHR ''o'', CHR ''a''} \<Longrightarrow> state_ok s'" for a
    by (rule start_value_ok [OF _ set]) (use assms(8) in simp_all)
  show ?thesis using assms(1) set_ok [of "CHR ''v''"] set_ok [of "CHR ''K''"] set_ok [of "CHR ''V''"] pop_ok key_ok
      val_ok [of "CHR ''o''"] val_ok [of "CHR ''a''"]
    unfolding consume_mode_def by (simp split: if_splits)
qed

lemma consume_struct_ok:
  assumes ok: "state_ok s" and no: "js_lex s = no_lex" and c: "consume_struct s c = Some s'"
  shows "state_ok s'"
proof -
  have st: "stack_ok s" "str_ok s" "idle s" "set (modes s) \<subseteq> set ''kK:voAVa''" using ok no by (auto simp: state_ok_def)
  show ?thesis
  proof (cases "space c")
    case True
    then show ?thesis using c ok by (simp add: consume_struct_def)
  next
    case sp: False
    show ?thesis
    proof (cases "js_started s")
      case False
      have "stack_ok (s\<lparr>js_started := True\<rparr>)" "str_ok (s\<lparr>js_started := True\<rparr>)" "idle (s\<lparr>js_started := True\<rparr>)"
        using st by (simp_all add: stack_ok_def str_ok_def idle_def)
      moreover have "push (s\<lparr>js_started := True\<rparr>) (CHR ''k'') = Some s'"
        using c sp False by (simp add: consume_struct_def split: if_splits)
      ultimately show ?thesis using st(4) no by (intro push_ok [of "s\<lparr>js_started := True\<rparr>" "CHR ''k''"]) simp_all
    next
      case started: True
      then have d: "0 < js_depth s" using c sp by (cases "js_depth s") (simp_all add: consume_struct_def)
      from modes_cases [OF st(1) this] obtain m ms
        where m: "modes s = m # ms" "js_stack s ! (js_depth s - 1) = m" by blast
      have "consume_mode s m c = Some s'" using c sp started d m by (simp add: consume_struct_def)
      then show ?thesis using consume_mode_ok [OF _ st(1-3) started no m(1)] st(4) m(1) by simp
    qed
  qed
qed

lemma consume_ok:
  assumes ok: "state_ok s" and c: "consume s c = Some s'"
  shows "state_ok s'"
proof -
  have st: "stack_ok s" "str_ok s" and started: "js_lex s \<noteq> no_lex \<Longrightarrow> js_started s"
    using ok by (auto simp: state_ok_def)
  consider "js_lex s = no_lex" | "js_lex s = CHR ''s''" | "js_lex s = CHR ''l''" | "js_lex s = CHR ''n''"
    using ok by (auto simp: state_ok_def)
  then show ?thesis
  proof cases
    case 1
    then show ?thesis using consume_struct_ok [OF ok 1] c by (simp add: consume_def)
  next
    case 2
    have ne: "modes s \<noteq> []" using ok 2 by (simp add: state_ok_def)
    have "consume_string s c = Some s'" using c 2 by (simp add: consume_def)
    note f = consume_string_step(2) [OF st(2,1) 2 ne this]
    have "set (after_string s) \<subseteq> set ''kK:voAVa''"
      using ok ne by (cases "modes s") (auto simp: after_string_def state_ok_def)
    then show ?thesis using f ok 2 started by (auto simp: state_ok_def)
  next
    case 3
    have "consume_literal s c = Some s'" using c 3 by (simp add: consume_def)
    then have s': "s' = (if Suc (js_at s) = length (js_literal s) then s\<lparr>js_at := Suc (js_at s), js_lex := no_lex\<rparr>
        else s\<lparr>js_at := Suc (js_at s)\<rparr>)"
      by (simp add: consume_literal_def Let_def split: if_splits)
    have at: "js_at s < length (js_literal s)" using ok 3 by (simp add: state_ok_def)
    show ?thesis
    proof (cases "Suc (js_at s) = length (js_literal s)")
      case True
      have "state_ok (s\<lparr>js_at := Suc (js_at s), js_lex := no_lex\<rparr>)"
        using ok 3 started by (intro state_ok_between) (simp_all add: state_ok_def stack_ok_def str_ok_def idle_def)
      then show ?thesis using True s' by simp
    next
      case False
      then have "Suc (js_at s) < length (js_literal s)" using at by simp
      then have "state_ok (s\<lparr>js_at := Suc (js_at s)\<rparr>)"
        using ok 3 started by (simp add: state_ok_def stack_ok_def str_ok_def idle_def)
      then show ?thesis using False s' by simp
    qed
  next
    case 4
    have n: "js_number s \<in> num_states" using ok 4 by (simp add: state_ok_def)
    have ok': "state_ok (s\<lparr>js_lex := no_lex\<rparr>)" using ok 4 by (auto simp: state_ok_def stack_ok_def str_ok_def idle_def)
    have goto: "state_ok (s\<lparr>js_number := n'\<rparr>)" if "n' \<in> num_states" for n'
      using ok 4 that by (auto simp: state_ok_def stack_ok_def str_ok_def idle_def)
    show ?thesis
    proof (cases "number_step (js_number s) c")
      case (NumGoto n')
      then show ?thesis using c 4 goto [OF number_step_state [OF NumGoto n]] by (simp add: consume_def)
    next
      case NumEnd
      then show ?thesis using c 4 consume_struct_ok [OF ok', of c s'] by (simp add: consume_def)
    qed (use c 4 in \<open>simp add: consume_def\<close>)
  qed
qed

lemma zero_State_ok: "state_ok zero_State"
  by (simp add: zero_State_def state_ok_def stack_ok_def str_ok_def idle_def modes_def)

lemma Advance_ok: "state_ok s \<Longrightarrow> Advance s t = Some s' \<Longrightarrow> state_ok s'"
  by (induction t arbitrary: s) (auto split: option.splits dest: consume_ok)

lemma Advance_rest: "state_ok s \<Longrightarrow> rest s t \<longleftrightarrow> (\<exists>s'. Advance s t = Some s' \<and> Complete s')"
proof (induction t arbitrary: s)
  case Nil
  then show ?case by (simp add: rest_Nil)
next
  case (Cons c t)
  show ?case
  proof (cases "consume s c")
    case None
    then show ?thesis using consume_rest [OF Cons.prems, of c t] by simp
  next
    case (Some s')
    then show ?thesis using consume_rest [OF Cons.prems, of c t] Cons.IH [OF consume_ok [OF Cons.prems Some]] by simp
  qed
qed

section \<open>Every reachable state can be completed\<close>

lemma zero_jval: "jval d ''0''"
  by (rule val_number) (simp add: jnumber_def jint_def jfrac_def jexp_def,
    intro exI [of _ "[]"] exI [of _ "''0''"], simp)

lemma mode_rest_live: "m \<in> set ''kK:voAVa'' \<Longrightarrow> \<exists>t. mode_rest m d t"
proof -
  have o: "jmore d ''}''" and a: "jnext d '']''" using more_end [of "[]" d] next_end [of "[]" d] by simp_all
  have v: "jmval d ''0}''" and V: "jelem d ''0]''"
    using mval [OF _ zero_jval o, of "[]"] elem [OF _ zero_jval a, of "[]"] by simp_all
  have c: "jcolon d '':0}''" using colon [OF _ v, of "[]"] by simp
  have K: "jkey d (CHR 0x22 # [CHR 0x22] @ '':0}'')" using key [OF _ str_quote c, of "[]"] by simp
  have k: "jobj d ''}''" and A: "jarr d '']''" using obj_end [of "[]" d] arr_end [of "[]" d] by simp_all
  assume "m \<in> set ''kK:voAVa''"
  then consider "m = CHR ''k''" | "m = CHR ''K''" | "m = CHR '':''" | "m = CHR ''v''" | "m = CHR ''o''" | "m = CHR ''A''"
    | "m = CHR ''V''" | "m = CHR ''a''" by auto
  then show ?thesis
  proof cases
    case 1
    then show ?thesis using k by (auto simp: mode_rest_def)
  next
    case 2
    then show ?thesis using K by (auto simp: mode_rest_def)
  next
    case 3
    then show ?thesis using c by (auto simp: mode_rest_def)
  next
    case 4
    then show ?thesis using v by (auto simp: mode_rest_def)
  next
    case 5
    then show ?thesis using o by (auto simp: mode_rest_def)
  next
    case 6
    then show ?thesis using A by (auto simp: mode_rest_def)
  next
    case 7
    then show ?thesis using V by (auto simp: mode_rest_def)
  next
    case 8
    then show ?thesis using a by (auto simp: mode_rest_def)
  qed
qed

lemma stack_rest_live: "set ms \<subseteq> set ''kK:voAVa'' \<Longrightarrow> \<exists>t. stack_rest ms t"
proof (induction ms)
  case Nil
  have "ws []" by simp
  then show ?case by (auto intro: exI [of _ "[]"])
next
  case (Cons m ms)
  then obtain v where "stack_rest ms v" by auto
  moreover obtain u where "mode_rest m (63 - length ms) u" using mode_rest_live [of m] Cons.prems by auto
  ultimately show ?case by (auto simp: seqd_def)
qed

lemma seqd_live: "\<exists>u. P u \<Longrightarrow> \<exists>v. Q v \<Longrightarrow> \<exists>t. seqd P Q t"
  by (auto simp: seqd_def)

lemma str_rest_live: "str_ok s \<Longrightarrow> \<exists>u. str_rest s u"
proof -
  assume ok: "str_ok s"
  have h: "hex_rest n (replicate n (CHR ''0'') @ [CHR 0x22])" for n
    unfolding hex_rest_def
    by (intro exI [of _ "replicate n (CHR ''0'')"] exI [of _ "[CHR 0x22]"])
      (simp add: list_all_iff hex_digit_char_def digit_def str_quote)
  have e: "esc_rest [CHR ''n'', CHR 0x22]" by (simp add: esc_rest_def simple_escape_def str_quote)
  show ?thesis
  proof (cases "0 < js_utfN s")
    case True
    let ?p = "take (js_utfN s) (js_utf s)"
    have p: "pending ?p" using ok True by (simp add: str_ok_def)
    obtain u r where u: "valid_rune r" "?p @ u = EncodeRune r" using pending_completes [OF p] by blast
    obtain c w where w: "?p = c # w" using p by (cases ?p) (auto simp: pending_def)
    have "128 \<le> r" using encode_first [OF u(1), of c "w @ u"] u(2) w pending_high [of c w] p by simp
    then have "rune_rest ?p (u @ [CHR 0x22])" unfolding rune_rest_def using u str_quote
      by (intro exI [of _ r] exI [of _ "[CHR 0x22]"]) (metis append.assoc)
    then show ?thesis using ok True unfolding str_rest_def str_ok_def by auto
  next
    case False
    consider "0 < js_hex s" | "js_hex s = 0" "js_escape s" | "js_hex s = 0" "\<not> js_escape s" by blast
    then show ?thesis
    proof cases
      case 1
      then show ?thesis using h [of "js_hex s"] by (auto simp: str_rest_def)
    next
      case 2
      then show ?thesis using e by (auto simp: str_rest_def)
    next
      case 3
      then show ?thesis using False str_quote by (auto simp: str_rest_def)
    qed
  qed
qed

lemma num_rest_live: "n \<in> num_states \<Longrightarrow> \<exists>u. num_rest n u"
proof -
  assume "n \<in> num_states"
  then consider "num_final n" | "n \<in> {CHR ''-'', CHR ''.'', CHR ''e'', CHR ''+''}" by (auto simp: num_states_def num_final_def)
  then show ?thesis
  proof cases
    case 1
    then show ?thesis using num_rest_Nil [OF \<open>n \<in> num_states\<close>] by blast
  next
    case 2
    have "num_rest n ''0''"
      using 2 num_rest_step [OF \<open>n \<in> num_states\<close>, of "CHR ''0''" "[]"]
      by (auto simp: number_step_def digit_def num_rest_def jfrac_def jexp_def digits_def)
    then show ?thesis by blast
  qed
qed

lemma rest_live:
  assumes ok: "state_ok s"
  shows "\<exists>t. rest s t"
proof -
  have m: "set (modes s) \<subseteq> set ''kK:voAVa''" "str_ok s" using ok by (simp_all add: state_ok_def)
  have a: "set (after_string s) \<subseteq> set ''kK:voAVa''" if "modes s \<noteq> []"
    using m(1) that by (cases "modes s") (auto simp: after_string_def)
  consider "\<not> js_started s" | "js_started s" "js_lex s = no_lex" | "js_started s" "js_lex s = CHR ''s''"
    | "js_started s" "js_lex s = CHR ''l''" | "js_started s" "js_lex s = CHR ''n''"
    using ok by (auto simp: state_ok_def)
  then show ?thesis
  proof cases
    case 1
    obtain u where "stack_rest [CHR ''k''] u" using stack_rest_live [of "[CHR ''k'']"] by auto
    then have "rest s ([] @ CHR ''{'' # u)" using 1 unfolding rest_def
      by (simp del: stack_rest.simps) (intro exI [of _ "[]"] exI [of _ u], simp del: stack_rest.simps)
    then show ?thesis by blast
  next
    case 2
    then show ?thesis using stack_rest_live [OF m(1)] by (simp add: rest_def)
  next
    case 3
    then have "modes s \<noteq> []" using ok by (simp add: state_ok_def)
    from seqd_live [OF str_rest_live [OF m(2)] stack_rest_live [OF a [OF this]]] 3 show ?thesis by (simp add: rest_def)
  next
    case 4
    then show ?thesis using stack_rest_live [OF m(1)] by (auto simp: rest_def intro!: seqd_live)
  next
    case 5
    then have "js_number s \<in> num_states" using ok by (simp add: state_ok_def)
    from seqd_live [OF num_rest_live [OF this] stack_rest_live [OF m(1)]] 5 show ?thesis by (simp add: rest_def)
  qed
qed

section \<open>The language of the automaton\<close>

lemma rest_zero: "rest zero_State t \<longleftrightarrow> document 64 t"
  by (auto simp: rest_def zero_State_def document_def seqd_def mode_rest_def)

end
