(* ===== verification/Json_Schema.thy ===== *)
theory Json_Schema
  imports Json_Automaton Go_Strings
begin

text \<open>
  The JSON schemas of \<^verbatim>\<open>internal/jsonconstraint/schema.go\<close>: compilation with its complexity limits,
  validation, the canonical form of decimal numbers and equality of values.

  What \<^verbatim>\<open>encoding/json\<close> decodes from a text is a parameter: \<open>decode\<close> yields the fields of a schema
  object, or \<open>None\<close> for any error the decoder reports (an unknown field, trailing data). A decoded
  value is a \<open>json\<close>; numbers keep their text. A Go map is an association list without duplicate keys,
  in the order an iteration happens to visit it.
\<close>

datatype json = JNull | JBool bool | JNumber string | JString string | JArray "json list" | JObject "(string \<times> json) list"

record raw_schema =
  raw_type :: string
  raw_properties :: "(string \<times> string) list option"
  raw_required :: "string list option"
  raw_additional :: "bool option"
  raw_items :: string
  raw_enum :: "json list option"

datatype Schema = Schema (sch_type: string) (sch_required: "string list") (sch_enum: "json list option")
  (sch_children: "(string \<times> Schema) list") (sch_item: "Schema option")

datatype schema_error = TooLarge | RootNotObject | TooComplex | DecodeFailed | UnsupportedType string
  | ObjectKeywords | ItemsKeyword | NeedsClosedObject | InProperty string schema_error | InvalidRequired string
  | EnumSize | InvalidEnum schema_error
  | NotInEnum | Expected string | MissingRequired string | UnexpectedProperty string

section \<open>Numbers\<close>

text \<open>\<open>text, exponent\<close> after the first \<open>e\<close> or \<open>E\<close>; \<open>None\<close> when the exponent is out of bounds.\<close>

definition split_exponent :: "string \<Rightarrow> (string \<times> int) option" where
  "split_exponent text =
    (let mant = takeWhile (\<lambda>c. c \<noteq> CHR ''e'' \<and> c \<noteq> CHR ''E'') text;
         tail = dropWhile (\<lambda>c. c \<noteq> CHR ''e'' \<and> c \<noteq> CHR ''E'') text
     in case tail of [] \<Rightarrow> Some (mant, 0)
        | _ # ex \<Rightarrow> (case Atoi ex of None \<Rightarrow> None
            | Some e \<Rightarrow> if e < - 1000000 \<or> e > 1000000 then None else Some (mant, e)))"

definition trim_right_zeros :: "string \<Rightarrow> string" where
  "trim_right_zeros s = rev (dropWhile (\<lambda>c. c = CHR ''0'') (rev s))"

definition canonicalNumber :: "string \<Rightarrow> (string \<times> int) option" where
  "canonicalNumber n =
    (if length n = 0 \<or> length n > 1024 then None
     else case split_exponent n of None \<Rightarrow> None
       | Some (text, exponent) \<Rightarrow>
          (let negative = HasPrefix text ''-'';
               text = TrimPrefix text ''-'';
               whole = takeWhile (\<lambda>c. c \<noteq> CHR ''.'') text;
               dot = dropWhile (\<lambda>c. c \<noteq> CHR ''.'') text;
               exponent = (if dot = [] then exponent else exponent - int (length text - length whole - 1));
               text = (if dot = [] then text else whole @ tl dot);
               text = dropWhile (\<lambda>c. c = CHR ''0'') text
           in if text = [] then Some (''0'', 0)
              else let trimmed = trim_right_zeros text
                   in Some (if negative then CHR ''-'' # trimmed else trimmed, exponent + int (length text - length trimmed))))"

section \<open>Equality of values\<close>

fun equalJSON :: "json \<Rightarrow> json \<Rightarrow> bool"
and equal_elems :: "json list \<Rightarrow> json list \<Rightarrow> bool"
and equal_members :: "(string \<times> json) list \<Rightarrow> (string \<times> json) list \<Rightarrow> bool" where
  "equalJSON (JNumber x) b = (case b of JNumber y \<Rightarrow>
      (case (canonicalNumber x, canonicalNumber y) of (Some p, Some q) \<Rightarrow> p = q | _ \<Rightarrow> False) | _ \<Rightarrow> False)"
| "equalJSON (JObject x) b = (case b of JObject y \<Rightarrow> length x = length y \<and> equal_members x y | _ \<Rightarrow> False)"
| "equalJSON (JArray x) b = (case b of JArray y \<Rightarrow> length x = length y \<and> equal_elems x y | _ \<Rightarrow> False)"
| "equalJSON (JString x) b = (b = JString x)"
| "equalJSON (JBool x) b = (b = JBool x)"
| "equalJSON JNull b = (b = JNull)"
| "equal_elems [] ys = True"
| "equal_elems (x # xs) ys = (case ys of [] \<Rightarrow> False | y # ys' \<Rightarrow> equalJSON x y \<and> equal_elems xs ys')"
| "equal_members [] y = True"
| "equal_members ((k, v) # x) y = (case map_of y k of None \<Rightarrow> False | Some w \<Rightarrow> equalJSON v w \<and> equal_members x y)"

section \<open>Validation\<close>

definition check_enum :: "json list option \<Rightarrow> json \<Rightarrow> schema_error option" where
  "check_enum enum v = (case enum of None \<Rightarrow> None
     | Some entries \<Rightarrow> if list_ex (equalJSON v) entries then None else Some NotInEnum)"

definition check_required :: "string list \<Rightarrow> (string \<times> json) list \<Rightarrow> schema_error option" where
  "check_required req obj = map_option MissingRequired (find (\<lambda>k. map_of obj k = None) req)"

text \<open>\<open>None\<close> is the nil error. A schema of type array always has its item schema.\<close>

fun validate :: "Schema \<Rightarrow> json \<Rightarrow> schema_error option"
and validate_elems :: "Schema \<Rightarrow> json list \<Rightarrow> schema_error option"
and validate_members :: "(string \<times> Schema) list \<Rightarrow> (string \<times> json) list \<Rightarrow> schema_error option" where
  "validate s v =
    (case check_enum (sch_enum s) v of Some e \<Rightarrow> Some e
     | None \<Rightarrow>
        (if sch_type s = ''object'' then
           (case v of JObject obj \<Rightarrow>
               (case check_required (sch_required s) obj of Some e \<Rightarrow> Some e
                | None \<Rightarrow> validate_members (sch_children s) obj)
            | _ \<Rightarrow> Some (Expected ''object''))
         else if sch_type s = ''array'' then
           (case v of JArray a \<Rightarrow> validate_elems (the (sch_item s)) a | _ \<Rightarrow> Some (Expected ''array''))
         else if sch_type s = ''string'' then (case v of JString _ \<Rightarrow> None | _ \<Rightarrow> Some (Expected ''string''))
         else if sch_type s = ''number'' \<or> sch_type s = ''integer'' then
           (case v of JNumber n \<Rightarrow> (case canonicalNumber n of
                None \<Rightarrow> Some (Expected (sch_type s))
              | Some (_, exponent) \<Rightarrow> if sch_type s = ''integer'' \<and> exponent < 0 then Some (Expected (sch_type s)) else None)
            | _ \<Rightarrow> Some (Expected (sch_type s)))
         else if sch_type s = ''boolean'' then (case v of JBool _ \<Rightarrow> None | _ \<Rightarrow> Some (Expected ''boolean''))
         else if sch_type s = ''null'' then (case v of JNull \<Rightarrow> None | _ \<Rightarrow> Some (Expected ''null''))
         else None))"
| "validate_elems s [] = None"
| "validate_elems s (x # xs) = (case validate s x of Some e \<Rightarrow> Some e | None \<Rightarrow> validate_elems s xs)"
| "validate_members cs [] = None"
| "validate_members cs ((k, v) # obj) = (case map_of cs k of None \<Rightarrow> Some (UnexpectedProperty k)
     | Some child \<Rightarrow> (case validate child v of Some e \<Rightarrow> Some (InProperty k e) | None \<Rightarrow> validate_members cs obj))"

declare validate.simps [simp del]

section \<open>Compilation\<close>

definition schema_types :: "string list" where
  "schema_types = [''object'', ''array'', ''string'', ''number'', ''integer'', ''boolean'', ''null'']"

fun check_required_names :: "(string \<times> Schema) list \<Rightarrow> string list \<Rightarrow> string list \<Rightarrow> schema_error option" where
  "check_required_names cs seen [] = None"
| "check_required_names cs seen (k # ks) =
    (if map_of cs k = None \<or> k \<in> set seen then Some (InvalidRequired k) else check_required_names cs (k # seen) ks)"

fun check_enum_values :: "Schema \<Rightarrow> json list \<Rightarrow> schema_error option" where
  "check_enum_values s [] = None"
| "check_enum_values s (v # vs) = (case validate s v of Some e \<Rightarrow> Some (InvalidEnum e) | None \<Rightarrow> check_enum_values s vs)"

text \<open>The checks before the recursion.\<close>

definition check_keywords :: "raw_schema \<Rightarrow> schema_error option" where
  "check_keywords r =
    (if raw_type r \<notin> set schema_types then Some (UnsupportedType (raw_type r))
     else if raw_type r \<noteq> ''object'' \<and> (raw_properties r \<noteq> None \<or> raw_required r \<noteq> None \<or> raw_additional r \<noteq> None)
     then Some ObjectKeywords
     else if raw_type r \<noteq> ''array'' \<and> raw_items r \<noteq> [] then Some ItemsKeyword
     else if raw_type r = ''object'' \<and> raw_additional r \<noteq> Some False then Some NeedsClosedObject
     else None)"

text \<open>The enum of the finished schema; its values are validated against the schema without it.\<close>

definition finish_schema :: "raw_schema \<Rightarrow> (string \<times> Schema) list \<Rightarrow> Schema option \<Rightarrow> schema_error + Schema" where
  "finish_schema r cs item =
    (let s = Schema (raw_type r) (case raw_required r of None \<Rightarrow> [] | Some ks \<Rightarrow> ks) None cs item in
     case raw_enum r of None \<Rightarrow> Inr s
     | Some values \<Rightarrow>
        (if values = [] \<or> length values > 256 then Inl EnumSize
         else case check_enum_values s values of Some e \<Rightarrow> Inl e
           | None \<Rightarrow> Inr (Schema (sch_type s) (sch_required s) (Some values) cs item)))"

function (sequential) compileSchema :: "(string \<Rightarrow> raw_schema option) \<Rightarrow> nat \<Rightarrow> nat \<Rightarrow> string \<Rightarrow> schema_error + Schema \<times> nat"
and compile_props :: "(string \<Rightarrow> raw_schema option) \<Rightarrow> nat \<Rightarrow> nat \<Rightarrow> (string \<times> string) list \<Rightarrow>
    schema_error + (string \<times> Schema) list \<times> nat" where
  "compileSchema decode depth nodes raw =
    (let nodes = nodes + 1 in
     if depth > 16 \<or> nodes > 256 then Inl TooComplex
     else case decode raw of None \<Rightarrow> Inl DecodeFailed
       | Some r \<Rightarrow> (case check_keywords r of Some e \<Rightarrow> Inl e
         | None \<Rightarrow>
            (if raw_type r = ''object'' then
               (case compile_props decode (depth + 1) nodes (case raw_properties r of None \<Rightarrow> [] | Some ps \<Rightarrow> ps) of
                  Inl e \<Rightarrow> Inl e
                | Inr (cs, nodes) \<Rightarrow>
                   (case check_required_names cs [] (case raw_required r of None \<Rightarrow> [] | Some ks \<Rightarrow> ks) of
                      Some e \<Rightarrow> Inl e
                    | None \<Rightarrow> map_sum (\<lambda>e. e) (\<lambda>s. (s, nodes)) (finish_schema r cs None)))
             else if raw_type r = ''array'' then
               (case compileSchema decode (depth + 1) nodes (raw_items r) of
                  Inl e \<Rightarrow> Inl e
                | Inr (item, nodes) \<Rightarrow> map_sum (\<lambda>e. e) (\<lambda>s. (s, nodes)) (finish_schema r [] (Some item)))
             else map_sum (\<lambda>e. e) (\<lambda>s. (s, nodes)) (finish_schema r [] None))))"
| "compile_props decode depth nodes [] = Inr ([], nodes)"
| "compile_props decode depth nodes ((k, v) # ps) =
    (case compileSchema decode depth nodes v of
       Inl e \<Rightarrow> Inl (InProperty k e)
     | Inr (child, nodes) \<Rightarrow>
        (case compile_props decode depth nodes ps of Inl e \<Rightarrow> Inl e | Inr (cs, nodes) \<Rightarrow> Inr ((k, child) # cs, nodes)))"
  by pat_completeness auto
termination
  by (relation "measures [case_sum (\<lambda>(_, depth, _, _). 17 - depth) (\<lambda>(_, depth, _, _). 17 - depth),
      case_sum (\<lambda>_. 0) (\<lambda>(_, _, _, ps). length ps)]") auto

declare compileSchema.simps [simp del]

definition CompileSchema :: "(string \<Rightarrow> raw_schema option) \<Rightarrow> string \<Rightarrow> schema_error + Schema" where
  "CompileSchema decode raw =
    (if length raw > 65536 then Inl TooLarge
     else case compileSchema decode 0 0 raw of
       Inl e \<Rightarrow> Inl e
     | Inr (s, nodes) \<Rightarrow> if sch_type s \<noteq> ''object'' then Inl RootNotObject else Inr s)"

end
