(* ===== verification/Json_Number.thy ===== *)
theory Json_Number
  imports Json_Schema Complex_Main
begin

text \<open>
  \<open>canonicalNumber\<close> against the rational value of a decimal number: the canonical pair denotes the
  number, and two canonical pairs with the same value are the same pair.
\<close>

section \<open>Digit strings\<close>

lemma digits_value_append: "digits_value (a @ b) = digits_value a * 10 ^ length b + digits_value b"
  by (induction a) (simp_all add: power_add algebra_simps)

lemma digit_bounds: "digit c \<Longrightarrow> 0 \<le> int (ord c) - 48 \<and> int (ord c) - 48 \<le> 9"
  by (simp add: digit_def)

lemma ord_inj: "ord c = (ord d :: nat) \<longleftrightarrow> c = d"
  by (rule of_char_eq_iff)

lemma zero_ord: "ord c = (48 :: nat) \<longleftrightarrow> c = CHR ''0''"
proof -
  have "of_char (CHR ''0'') = (48 :: nat)" by simp
  then show ?thesis by (metis ord_inj)
qed

lemma digits_value_nonneg: "list_all digit s \<Longrightarrow> 0 \<le> digits_value s"
  by (induction s) (auto dest: digit_bounds)

lemma digits_value_less: "list_all digit s \<Longrightarrow> digits_value s < 10 ^ length s"
proof (induction s)
  case (Cons c s)
  have "(int (ord c) - 48) * 10 ^ length s \<le> 9 * 10 ^ length s"
    using digit_bounds [of c] Cons.prems by (intro mult_right_mono) auto
  moreover have "digits_value s < 10 ^ length s" using Cons by simp
  ultimately show ?case by (simp only: digits_value.simps list.size(4) add_Suc_right add_0_right power_Suc)
qed simp

lemma digits_value_ge: "list_all digit s \<Longrightarrow> s \<noteq> [] \<Longrightarrow> hd s \<noteq> CHR ''0'' \<Longrightarrow> 10 ^ (length s - 1) \<le> digits_value s"
proof (cases s)
  case (Cons c r)
  assume s: "list_all digit s" "hd s \<noteq> CHR ''0''"
  have "1 \<le> int (ord c) - 48" using digit_bounds [of c] s Cons zero_ord [of c] by auto
  then have "1 * 10 ^ length r \<le> (int (ord c) - 48) * 10 ^ length r" by (intro mult_right_mono) auto
  moreover have "0 \<le> digits_value r" using digits_value_nonneg [of r] s Cons by simp
  ultimately have "10 ^ length r \<le> (int (ord c) - 48) * 10 ^ length r + digits_value r" by linarith
  then show ?thesis using Cons by simp
qed simp

lemma digits_value_inj:
  "length s = length t \<Longrightarrow> list_all digit s \<Longrightarrow> list_all digit t \<Longrightarrow> digits_value s = digits_value t \<Longrightarrow> s = t"
proof (induction s t rule: list_induct2)
  case (Cons c s d t)
  let ?p = "10 ^ length s :: int"
  have b: "0 \<le> digits_value s" "digits_value s < ?p" "0 \<le> digits_value t" "digits_value t < ?p"
    using digits_value_nonneg [of s] digits_value_less [of s] digits_value_nonneg [of t] digits_value_less [of t] Cons by auto
  have e: "(int (ord c) - 48) * ?p + digits_value s = (int (ord d) - 48) * ?p + digits_value t"
    using Cons by simp
  then have "((int (ord c) - 48) * ?p + digits_value s) div ?p = ((int (ord d) - 48) * ?p + digits_value t) div ?p" by simp
  then have "int (ord c) - 48 = int (ord d) - 48" using b by (simp add: div_add1_eq)
  then have "ord c = (ord d :: nat)" by simp
  then have "c = d" using ord_inj by blast
  then show ?case using e Cons by simp
qed simp

lemma digits_value_unique:
  assumes "list_all digit s" "list_all digit t" "s \<noteq> []" "t \<noteq> []" "hd s \<noteq> CHR ''0''" "hd t \<noteq> CHR ''0''"
    and eq: "digits_value s = digits_value t"
  shows "s = t"
proof -
  have "\<not> length u < length v"
    if u: "list_all digit u" and v: "list_all digit v" "v \<noteq> []" "hd v \<noteq> CHR ''0''" and e: "digits_value u = digits_value v" for u v
  proof
    assume l: "length u < length v"
    have "digits_value u < 10 ^ length u" by (rule digits_value_less [OF u])
    also have "\<dots> \<le> 10 ^ (length v - 1)" using l by (intro power_increasing) auto
    also have "\<dots> \<le> digits_value v" by (rule digits_value_ge [OF v])
    finally show False using e by simp
  qed
  from this [OF assms(1,2,4,6) eq] this [OF assms(2,1,3,5) eq [symmetric]] have "length s = length t" by simp
  then show ?thesis by (rule digits_value_inj [OF _ assms(1,2) eq])
qed

lemma digits_value_drop_zeros: "digits_value (dropWhile (\<lambda>c. c = CHR ''0'') s) = digits_value s"
  by (induction s) simp_all

lemma digits_value_replicate: "digits_value (replicate n (CHR ''0'')) = 0"
  by (induction n) simp_all

lemma trim_right_split: "s = trim_right_zeros s @ replicate (length s - length (trim_right_zeros s)) (CHR ''0'')"
proof -
  let ?z = "takeWhile (\<lambda>c. c = CHR ''0'') (rev s)"
  have z: "?z = replicate (length ?z) (CHR ''0'')"
    by (rule replicate_length_same [symmetric]) (auto dest: set_takeWhileD)
  have "rev s = ?z @ dropWhile (\<lambda>c. c = CHR ''0'') (rev s)" by simp
  then have "s = trim_right_zeros s @ rev ?z" unfolding trim_right_zeros_def by (metis rev_append rev_rev_ident)
  moreover have "rev ?z = replicate (length ?z) (CHR ''0'')" by (metis z rev_replicate)
  ultimately show ?thesis by (metis add_diff_cancel_left' length_append length_rev)
qed

lemma trim_right_last: "trim_right_zeros s \<noteq> [] \<Longrightarrow> last (trim_right_zeros s) \<noteq> CHR ''0''"
  using hd_dropWhile [of "\<lambda>c. c = CHR ''0''" "rev s"] by (auto simp: trim_right_zeros_def last_rev)

section \<open>Canonical pairs\<close>

definition canonical :: "string \<Rightarrow> int \<Rightarrow> bool" where
  "canonical d x \<longleftrightarrow> (d = ''0'' \<and> x = 0)
     \<or> (\<exists>neg ds. d = (if neg then ''-'' else []) @ ds \<and> list_all digit ds \<and> ds \<noteq> []
          \<and> hd ds \<noteq> CHR ''0'' \<and> last ds \<noteq> CHR ''0'')"

text \<open>The value of a sign, digits and a decimal exponent.\<close>

definition decimal :: "bool \<Rightarrow> string \<Rightarrow> int \<Rightarrow> rat" where
  "decimal neg ds x = (if neg then - 1 else 1) * of_int (digits_value ds) * 10 powi x"

definition pair_value :: "string \<Rightarrow> int \<Rightarrow> rat" where
  "pair_value d x = decimal (HasPrefix d ''-'') (TrimPrefix d ''-'') x"

lemma digit_not_minus: "list_all digit ds \<Longrightarrow> ds = [] \<or> hd ds \<noteq> CHR ''-''"
  by (cases ds) (auto simp: digit_def)

lemma pair_value_signed:
  "list_all digit ds \<Longrightarrow> ds \<noteq> [] \<Longrightarrow> pair_value ((if neg then ''-'' else []) @ ds) x = decimal neg ds x"
  using digit_not_minus [of ds] by (cases ds) (auto simp: pair_value_def TrimPrefix_def)

lemma last_digit_mod:
  assumes "list_all digit ds" "ds \<noteq> []" "last ds \<noteq> CHR ''0''"
  shows "\<not> (10 :: int) dvd digits_value ds"
proof -
  let ?c = "last ds"
  have "digits_value ds = digits_value (butlast ds) * 10 + (int (ord ?c) - 48)"
    using digits_value_append [of "butlast ds" "[?c]"] assms(2) by simp
  moreover have "digit ?c" using assms(1,2) by (simp add: list_all_iff)
  then have "1 \<le> int (ord ?c) - 48" "int (ord ?c) - 48 \<le> 9"
    using digit_bounds [of ?c] zero_ord [of ?c] assms(3) by auto
  ultimately show ?thesis by presburger
qed

lemma powi_split: "x \<le> y \<Longrightarrow> (10 :: rat) powi y = 10 powi x * 10 ^ nat (y - x)"
proof -
  assume le: "x \<le> y"
  have "(10 :: rat) powi y = 10 powi (x + (y - x))" by simp
  also have "\<dots> = 10 powi x * 10 powi (y - x)" by (rule power_int_add) simp
  also have "(10 :: rat) powi (y - x) = 10 ^ nat (y - x)" using le by (simp add: power_int_def)
  finally show ?thesis .
qed

lemma decimal_unique:
  assumes "list_all digit ds" "ds \<noteq> []" "hd ds \<noteq> CHR ''0''" "last ds \<noteq> CHR ''0''"
    and "list_all digit es" "es \<noteq> []" "hd es \<noteq> CHR ''0''" "last es \<noteq> CHR ''0''"
    and eq: "decimal n ds x = decimal m es y"
  shows "n = m \<and> ds = es \<and> x = y"
proof -
  have pos: "0 < digits_value ds" "0 < digits_value es"
    using digits_value_ge [OF assms(1-3)] digits_value_ge [OF assms(5-7)]
    by (meson less_le_trans zero_less_numeral zero_less_power)+
  have p10: "0 < (10 :: rat) powi z" for z by simp
  have "0 < of_int (digits_value ds) * (10 :: rat) powi x" "0 < of_int (digits_value es) * (10 :: rat) powi y"
    using pos p10 by simp_all
  then have sign: "n = m" and abs: "of_int (digits_value ds) * (10 :: rat) powi x = of_int (digits_value es) * 10 powi y"
    using eq unfolding decimal_def by (cases n; cases m; simp)+
  have no: "\<not> a < b"
    if e: "of_int (digits_value us) * (10 :: rat) powi a = of_int (digits_value vs) * 10 powi b"
      and u: "\<not> (10 :: int) dvd digits_value us" for us vs a b
  proof
    assume ab: "a < b"
    then have "of_int (digits_value us) * (10 :: rat) powi a = of_int (digits_value vs) * (10 powi a * 10 ^ nat (b - a))"
      using e powi_split [of a b] by simp
    then have "(of_int (digits_value us) :: rat) = of_int (digits_value vs) * 10 ^ nat (b - a)" using p10 [of a] by simp
    then have "(of_int (digits_value us) :: rat) = of_int (digits_value vs * 10 ^ nat (b - a))" by simp
    then have "digits_value us = digits_value vs * 10 ^ nat (b - a)" by (simp only: of_int_eq_iff)
    moreover have "(10 :: int) dvd 10 ^ nat (b - a)" using ab by (intro dvd_power) auto
    ultimately show False using u by simp
  qed
  have "x = y"
    using no [OF abs last_digit_mod [OF assms(1,2,4)]] no [OF abs [symmetric] last_digit_mod [OF assms(5,6,8)]] by simp
  moreover from this abs have "digits_value ds = digits_value es" using p10 [of x] by simp
  ultimately show ?thesis using sign digits_value_unique [OF assms(1,5,2,6,3,7)] by simp
qed

lemma canonical_unique:
  assumes "canonical d x" "canonical d' x'" "pair_value d x = pair_value d' x'"
  shows "d = d' \<and> x = x'"
proof -
  have zero: "pair_value ''0'' 0 = 0" by (simp add: pair_value_def decimal_def TrimPrefix_def)
  have nz: "pair_value e y \<noteq> 0" if "e = (if neg then ''-'' else []) @ ds" "list_all digit ds" "ds \<noteq> []" "hd ds \<noteq> CHR ''0''" for e y neg ds
  proof -
    have "0 < digits_value ds"
      using digits_value_ge [OF that(2-4)] by (meson less_le_trans zero_less_numeral zero_less_power)
    then show ?thesis using pair_value_signed [OF that(2,3), of neg y] that(1) by (simp add: decimal_def)
  qed
  have half: "d = ''0'' \<and> x = 0"
    if z: "d' = ''0'' \<and> x' = 0" and c: "canonical d x" and e: "pair_value d x = pair_value d' x'" for d x d' x'
  proof (rule ccontr)
    assume "\<not> ?thesis"
    then obtain neg ds where ds: "d = (if neg then ''-'' else []) @ ds" "list_all digit ds" "ds \<noteq> []" "hd ds \<noteq> CHR ''0''"
      using c unfolding canonical_def by blast
    then show False using nz [OF ds, of x] z zero e by simp
  qed
  show ?thesis
  proof (cases "(d = ''0'' \<and> x = 0) \<or> (d' = ''0'' \<and> x' = 0)")
    case True
    then show ?thesis
    proof
      assume z: "d = ''0'' \<and> x = 0"
      from half [OF z assms(2) assms(3) [symmetric]] z show ?thesis by simp
    next
      assume z: "d' = ''0'' \<and> x' = 0"
      from half [OF z assms(1,3)] z show ?thesis by simp
    qed
  next
    case False
    then obtain n ds m es where d: "d = (if n then ''-'' else []) @ ds" "list_all digit ds" "ds \<noteq> []" "hd ds \<noteq> CHR ''0''" "last ds \<noteq> CHR ''0''"
      and e: "d' = (if m then ''-'' else []) @ es" "list_all digit es" "es \<noteq> []" "hd es \<noteq> CHR ''0''" "last es \<noteq> CHR ''0''"
      using assms(1,2) unfolding canonical_def by blast
    have "decimal n ds x = decimal m es x'"
      using assms(3) pair_value_signed [OF d(2,3), of n x] pair_value_signed [OF e(2,3), of m x'] d(1) e(1) by simp
    from decimal_unique [OF d(2-5) e(2-5) this] show ?thesis using d(1) e(1) by simp
  qed
qed


section \<open>What canonicalNumber computes\<close>

text \<open>The parts of a number's text: sign, integer digits, fraction digits and exponent.\<close>

definition number_parts :: "string \<Rightarrow> bool \<Rightarrow> string \<Rightarrow> string \<Rightarrow> int \<Rightarrow> bool" where
  "number_parts n neg ip fs e \<longleftrightarrow> (\<exists>fr ep. n = (if neg then ''-'' else []) @ ip @ fr @ ep
     \<and> digits ip \<and> ((fr = [] \<and> fs = []) \<or> (fr = CHR ''.'' # fs \<and> digits fs))
     \<and> ((ep = [] \<and> e = 0) \<or> (\<exists>c es. ep = c # es \<and> (c = CHR ''e'' \<or> c = CHR ''E'') \<and> Atoi es = Some e)))"

definition number_value :: "bool \<Rightarrow> string \<Rightarrow> string \<Rightarrow> int \<Rightarrow> rat" where
  "number_value neg ip fs e = decimal neg (ip @ fs) (e - int (length fs))"

abbreviation no_exp :: "char \<Rightarrow> bool" where
  "no_exp \<equiv> \<lambda>c. c \<noteq> CHR ''e'' \<and> c \<noteq> CHR ''E''"

lemma takeWhile_all_append: "list_all P xs \<Longrightarrow> takeWhile P (xs @ ys) = xs @ takeWhile P ys"
  by (induction xs) simp_all

lemma dropWhile_all_append: "list_all P xs \<Longrightarrow> dropWhile P (xs @ ys) = dropWhile P ys"
  by (induction xs) simp_all

lemma digits_all: "list_all digit s \<Longrightarrow> list_all no_exp s \<and> list_all (\<lambda>c. c \<noteq> CHR ''.'') s"
  by (induction s) (auto simp: digit_def)

lemma canonicalNumber_parts:
  assumes n: "number_parts n neg ip fs e" and c: "canonicalNumber n = Some (d, x)"
  shows "canonical d x \<and> pair_value d x = number_value neg ip fs e"
proof -
  obtain fr ep where p: "n = (if neg then ''-'' else []) @ ip @ fr @ ep" "digits ip"
    "(fr = [] \<and> fs = []) \<or> (fr = CHR ''.'' # fs \<and> digits fs)"
    "(ep = [] \<and> e = 0) \<or> (\<exists>c es. ep = c # es \<and> (c = CHR ''e'' \<or> c = CHR ''E'') \<and> Atoi es = Some e)"
    using n unfolding number_parts_def by blast
  let ?sg = "if neg then ''-'' else []"
  let ?m = "?sg @ ip @ fr"
  have ip: "list_all digit ip" "ip \<noteq> []" and fs: "list_all digit fs" using p(2,3) by (auto simp: digits_def)
  have m: "list_all no_exp ?m" using digits_all [OF ip(1)] digits_all [OF fs] p(3) by (auto simp: list_all_append)
  have te: "takeWhile no_exp ep = []" "dropWhile no_exp ep = ep" using p(4) by auto
  have split: "split_exponent n = Some (?m, e)"
  proof -
    have tw: "takeWhile no_exp n = ?m" "dropWhile no_exp n = ep"
      using takeWhile_all_append [OF m, of ep] dropWhile_all_append [OF m, of ep] te p(1) by simp_all
    have "split_exponent n \<noteq> None" using c by (auto simp: canonicalNumber_def split: option.splits if_splits)
    then show ?thesis using p(4) tw unfolding split_exponent_def Let_def
      by (auto split: option.splits if_splits)
  qed
  have neg: "HasPrefix ?m ''-'' = neg" "TrimPrefix ?m ''-'' = ip @ fr"
    using ip digit_not_minus [OF ip(1)] by (cases ip; auto simp: TrimPrefix_def)+
  have dots: "list_all (\<lambda>c. c \<noteq> CHR ''.'') ip" using digits_all [OF ip(1)] by simp
  have whole: "takeWhile (\<lambda>c. c \<noteq> CHR ''.'') (ip @ fr) = ip" "dropWhile (\<lambda>c. c \<noteq> CHR ''.'') (ip @ fr) = fr"
    using takeWhile_all_append [OF dots, of fr] dropWhile_all_append [OF dots, of fr] p(3) by auto
  let ?x = "e - int (length fs)"
  let ?t = "dropWhile (\<lambda>c. c = CHR ''0'') (ip @ fs)"
  let ?r = "trim_right_zeros ?t"
  have len: "0 < length n \<and> length n \<le> 1024" using c by (auto simp: canonicalNumber_def split: if_splits)
  have ex: "(if fr = [] then e else e - int (length (ip @ fr) - length ip - 1)) = ?x"
    "(if fr = [] then ip @ fr else ip @ tl fr) = ip @ fs"
    using p(3) by auto
  have eq: "canonicalNumber n = (if ?t = [] then Some (''0'', 0)
      else Some (if neg then CHR ''-'' # ?r else ?r, ?x + int (length ?t - length ?r)))"
    unfolding canonicalNumber_def Let_def split option.case prod.case neg whole ex using len by simp
  have val: "digits_value ?t = digits_value (ip @ fs)" by (rule digits_value_drop_zeros)
  show ?thesis
  proof (cases "?t = []")
    case True
    then have "digits_value ?t = 0" by (simp only: digits_value.simps)
    then have "digits_value (ip @ fs) = 0" using val by (simp only:)
    moreover have "d = ''0''" "x = 0" using eq c True by simp_all
    ultimately show ?thesis
      by (simp add: canonical_def number_value_def pair_value_def decimal_def TrimPrefix_def)
  next
    case False
    have "list_all digit (ip @ fs)" using ip(1) fs by simp
    then have "list_all digit ?t" unfolding list_all_iff by (blast dest: set_dropWhileD)
    moreover have "hd ?t \<noteq> CHR ''0''" using hd_dropWhile [of "\<lambda>c. c = CHR ''0''" "ip @ fs"] False by simp
    moreover obtain t where t: "?t = t" by blast
    ultimately have dt: "list_all digit t" and hd: "hd t \<noteq> CHR ''0''" and tne: "t \<noteq> []" using False by simp_all
    obtain r where r: "trim_right_zeros t = r" by blast
    obtain k where k: "length t - length r = k" by blast
    have sp: "t = r @ replicate k (CHR ''0'')" using trim_right_split [of t] unfolding r k .
    have rne: "r \<noteq> []"
    proof
      assume "r = []"
      then have "t = replicate k (CHR ''0'')" using sp by simp
      then show False using hd tne by (cases k) simp_all
    qed
    have dr: "list_all digit r" "hd r \<noteq> CHR ''0''" using dt hd rne unfolding sp by simp_all
    have "last r \<noteq> CHR ''0''" using trim_right_last [of t] rne r by simp
    then have "canonical (?sg @ r) (?x + int k)" unfolding canonical_def using dr rne by blast
    moreover have dx: "d = ?sg @ r" "x = ?x + int k"
      using c tne unfolding eq t r k by (cases neg; simp)+
    moreover have "digits_value (ip @ fs) = digits_value r * 10 ^ k"
      using val unfolding t by (simp add: sp digits_value_append digits_value_replicate)
    then have "decimal neg r (?x + int k) = number_value neg ip fs e"
      using powi_split [of ?x "?x + int k"] by (simp add: decimal_def number_value_def)
    ultimately show ?thesis using pair_value_signed [OF dr(1) rne, of neg "?x + int k"] by simp
  qed
qed

end
