(* ===== verification/Json_Contract.thy ===== *)
theory Json_Contract
  imports Json_Number
begin

text \<open>
  The properties of constrained JSON output: the automaton accepts exactly the JSON objects of at most
  64 levels, never paints itself into a corner, stays within its arrays; the canonical form of numbers
  decides equality of values; and a compiled schema is well-formed and within its limits.
\<close>

section \<open>Compiled schemas\<close>

fun schema_nodes :: "Schema \<Rightarrow> nat" where
  "schema_nodes (Schema ty req en cs it) =
     1 + sum_list (map (\<lambda>p. schema_nodes (snd p)) cs) + (case it of None \<Rightarrow> 0 | Some i \<Rightarrow> schema_nodes i)"

inductive schema_within :: "nat \<Rightarrow> Schema \<Rightarrow> bool" where
  within: "ty \<in> set schema_types \<Longrightarrow>
     (ty \<noteq> ''object'' \<longrightarrow> req = [] \<and> cs = []) \<Longrightarrow>
     distinct req \<Longrightarrow> (\<forall>k \<in> set req. map_of cs k \<noteq> None) \<Longrightarrow>
     (\<forall>p \<in> set cs. 0 < h \<and> schema_within (h - 1) (snd p)) \<Longrightarrow>
     (it = None \<longleftrightarrow> ty \<noteq> ''array'') \<Longrightarrow> (\<forall>i. it = Some i \<longrightarrow> 0 < h \<and> schema_within (h - 1) i) \<Longrightarrow>
     (\<forall>vs. en = Some vs \<longrightarrow> 0 < length vs \<and> length vs \<le> 256
        \<and> (\<forall>v \<in> set vs. validate (Schema ty req None cs it) v = None)) \<Longrightarrow>
     schema_within h (Schema ty req en cs it)"

lemma check_required_names_ok:
  "check_required_names cs seen ks = None \<Longrightarrow> distinct ks \<and> set ks \<inter> set seen = {} \<and> (\<forall>k \<in> set ks. map_of cs k \<noteq> None)"
proof (induction ks arbitrary: seen)
  case (Cons k ks)
  then have "map_of cs k \<noteq> None" "k \<notin> set seen" "check_required_names cs (k # seen) ks = None"
    by (simp_all split: if_splits)
  then show ?case using Cons.IH [of "k # seen"] by auto
qed simp

lemma check_enum_values_ok: "check_enum_values s vs = None \<Longrightarrow> v \<in> set vs \<Longrightarrow> validate s v = None"
  by (induction vs) (auto split: option.splits)

definition raw_list :: "'a list option \<Rightarrow> 'a list" where
  "raw_list xs = (case xs of None \<Rightarrow> [] | Some ys \<Rightarrow> ys)"

lemma finish_schema_ok:
  assumes f: "finish_schema r cs it = Inr s" and k: "check_keywords r = None"
    and req: "raw_type r = ''object'' \<Longrightarrow> distinct (raw_list (raw_required r)) \<and> (\<forall>k \<in> set (raw_list (raw_required r)). map_of cs k \<noteq> None)"
    and cs: "raw_type r \<noteq> ''object'' \<Longrightarrow> cs = []" "\<forall>p \<in> set cs. 0 < h \<and> schema_within (h - 1) (snd p)"
    and it: "it = None \<longleftrightarrow> raw_type r \<noteq> ''array''" "\<forall>i. it = Some i \<longrightarrow> 0 < h \<and> schema_within (h - 1) i"
  shows "schema_within h s \<and> schema_nodes s = 1 + sum_list (map (\<lambda>p. schema_nodes (snd p)) cs) + (case it of None \<Rightarrow> 0 | Some i \<Rightarrow> schema_nodes i)"
proof -
  let ?req = "raw_list (raw_required r)"
  have ty: "raw_type r \<in> set schema_types" and no: "raw_type r \<noteq> ''object'' \<Longrightarrow> ?req = []"
    using k by (auto simp: check_keywords_def raw_list_def split: if_splits)
  obtain en where s: "s = Schema (raw_type r) ?req en cs it"
    and en: "\<forall>vs. en = Some vs \<longrightarrow> 0 < length vs \<and> length vs \<le> 256
        \<and> (\<forall>v \<in> set vs. validate (Schema (raw_type r) ?req None cs it) v = None)"
  proof (cases "raw_enum r")
    case None
    then show thesis using f that [of None] by (simp add: finish_schema_def raw_list_def)
  next
    case (Some vs)
    then have "0 < length vs" "length vs \<le> 256" "check_enum_values (Schema (raw_type r) ?req None cs it) vs = None"
      "s = Schema (raw_type r) ?req (Some vs) cs it"
      using f by (auto simp: finish_schema_def raw_list_def Let_def split: if_splits option.splits)
    then show thesis using that [of "Some vs"] check_enum_values_ok by simp
  qed
  have "schema_within h s" unfolding s
  proof (rule within)
    show "raw_type r \<noteq> ''object'' \<longrightarrow> ?req = [] \<and> cs = []" using no cs(1) by simp
    show "distinct ?req" "\<forall>k \<in> set ?req. map_of cs k \<noteq> None" using req no by (cases "raw_type r = ''object''"; simp)+
  qed (fact ty cs(2) it en)+
  then show ?thesis by (simp add: s)
qed

lemma compile_ok:
  "compileSchema decode depth nodes raw = Inr (s, n) \<Longrightarrow>
     depth \<le> 16 \<and> n \<le> 256 \<and> n = nodes + schema_nodes s \<and> schema_within (16 - depth) s"
  "compile_props decode depth nodes ps = Inr (cs, n) \<Longrightarrow> nodes \<le> 256 \<Longrightarrow>
     n \<le> 256 \<and> n = nodes + sum_list (map (\<lambda>p. schema_nodes (snd p)) cs)
     \<and> (\<forall>p \<in> set cs. depth \<le> 16 \<and> schema_within (16 - depth) (snd p))"
proof (induction decode depth nodes raw and decode depth nodes ps arbitrary: s n and cs n rule: compileSchema_compile_props.induct)
  case (1 decode depth nodes raw)
  note c = "1.prems" [unfolded compileSchema.simps [of decode depth nodes raw] Let_def]
  have lim: "depth \<le> 16" "nodes + 1 \<le> 256" using c by (auto split: if_splits)
  obtain r where r: "decode raw = Some r" using c by (auto split: if_splits option.splits)
  have k: "check_keywords r = None" using c r by (auto split: if_splits option.splits)
  have lim': "\<not> (16 < depth \<or> 256 < nodes + 1)" using lim by simp
  note c = c [unfolded if_not_P [OF lim'] r k option.case]
  consider "raw_type r = ''object''" | "raw_type r = ''array''" "raw_type r \<noteq> ''object''"
    | "raw_type r \<noteq> ''object''" "raw_type r \<noteq> ''array''" by blast
  then show ?case
  proof cases
    case 1
    then obtain cs m where m: "compile_props decode (depth + 1) (nodes + 1) (raw_list (raw_properties r)) = Inr (cs, m)"
      "check_required_names cs [] (raw_list (raw_required r)) = None" "finish_schema r cs None = Inr s" "n = m"
      using c by (auto simp: raw_list_def map_sum_def split: sum.splits option.splits prod.splits)
    have ih: "m \<le> 256 \<and> m = nodes + 1 + sum_list (map (\<lambda>p. schema_nodes (snd p)) cs)
        \<and> (\<forall>p \<in> set cs. depth + 1 \<le> 16 \<and> schema_within (16 - (depth + 1)) (snd p))"
      using "1.IH"(1) [OF refl lim' r k 1, unfolded raw_list_def [symmetric]] m(1) lim(2) by blast
    have "schema_within (16 - depth) s \<and> schema_nodes s = 1 + sum_list (map (\<lambda>p. schema_nodes (snd p)) cs) + (case None of None \<Rightarrow> 0 | Some i \<Rightarrow> schema_nodes i)"
      by (rule finish_schema_ok [OF m(3) k]) (use check_required_names_ok [OF m(2)] 1 ih in auto)
    then show ?thesis using ih lim m(4) by simp
  next
    case 2
    then obtain i m where m: "compileSchema decode (depth + 1) (nodes + 1) (raw_items r) = Inr (i, m)"
      "finish_schema r [] (Some i) = Inr s" "n = m"
      using c by (auto simp: map_sum_def split: sum.splits prod.splits)
    have ih: "depth + 1 \<le> 16 \<and> m \<le> 256 \<and> m = nodes + 1 + schema_nodes i \<and> schema_within (16 - (depth + 1)) i"
      using "1.IH"(2) [OF refl lim' r k 2(2,1)] m(1) by blast
    have "schema_within (16 - depth) s \<and> schema_nodes s = 1 + sum_list (map (\<lambda>p. schema_nodes (snd p)) ([] :: (string \<times> Schema) list)) + (case Some i of None \<Rightarrow> 0 | Some i \<Rightarrow> schema_nodes i)"
      by (rule finish_schema_ok [OF m(2) k]) (use 2 ih in simp_all)
    then show ?thesis using ih lim m(3) by simp
  next
    case 3
    then have m: "finish_schema r [] None = Inr s" "n = nodes + 1"
      using c by (auto simp: map_sum_def split: sum.splits)
    have "schema_within (16 - depth) s \<and> schema_nodes s = 1 + sum_list (map (\<lambda>p. schema_nodes (snd p)) ([] :: (string \<times> Schema) list)) + (case None of None \<Rightarrow> 0 | Some i \<Rightarrow> schema_nodes i)"
      by (rule finish_schema_ok [OF m(1) k]) (use 3 in simp_all)
    then show ?thesis using lim m(2) by simp
  qed
next
  case (2 decode depth nodes)
  then show ?case by simp
next
  case (3 decode depth nodes k v ps)
  obtain child m where m: "compileSchema decode depth nodes v = Inr (child, m)"
    using "3.prems"(1) by (auto split: sum.splits)
  then obtain rest l where l: "compile_props decode depth m ps = Inr (rest, l)" "cs = (k, child) # rest" "n = l"
    using "3.prems"(1) by (auto split: sum.splits)
  note h = "3.IH"(1) [OF m]
  show ?case using h "3.IH"(2) [OF m refl l(1)] l(2,3) by auto
qed


text \<open>
  A successfully compiled schema is an object schema, has at most 256 nodes and at most 16 levels
  below the root, and is well-formed throughout: known types only, every array has an item schema and
  only arrays do, required names are distinct declared properties, and every enum has between 1 and
  256 values, all valid for the schema. Compilation itself always ends: it is a total function.
\<close>

theorem CompileSchema_within:
  assumes "CompileSchema decode raw = Inr s"
  shows "sch_type s = ''object'' \<and> schema_nodes s \<le> 256 \<and> schema_within 16 s"
proof -
  obtain n where c: "compileSchema decode 0 0 raw = Inr (s, n)" "sch_type s = ''object''"
    using assms by (auto simp: CompileSchema_def split: if_splits sum.splits prod.splits)
  show ?thesis using compile_ok(1) [OF c(1)] c(2) by simp
qed

definition sample_decode :: "string \<Rightarrow> raw_schema option" where
  "sample_decode raw =
    (if raw = ''o'' then Some \<lparr>raw_type = ''object'', raw_properties = Some [(''a'', ''s'')], raw_required = Some [''a''],
        raw_additional = Some False, raw_items = [], raw_enum = None\<rparr>
     else if raw = ''s'' then Some \<lparr>raw_type = ''string'', raw_properties = None, raw_required = None,
        raw_additional = None, raw_items = [], raw_enum = Some [JString ''x'', JString ''y'']\<rparr>
     else None)"

lemma sample_compiles:
  "CompileSchema sample_decode ''o'' =
    Inr (Schema ''object'' [''a''] None [(''a'', Schema ''string'' [] (Some [JString ''x'', JString ''y'']) [] None)] None)"
  by code_simp

lemma CompileSchema_within_witness:
  "schema_nodes (Schema ''object'' [''a''] None [(''a'', Schema ''string'' [] (Some [JString ''x'', JString ''y'']) [] None)] None) \<le> 256"
  by (rule CompileSchema_within [OF sample_compiles, THEN conjunct2, THEN conjunct1])

section \<open>Numbers\<close>

text \<open>
  Equality of numbers is equality of their values: for two decimal texts that \<open>canonicalNumber\<close>
  accepts, \<open>equalJSON\<close> holds exactly when the rational numbers they denote are equal, however they
  are written (\<open>1.50\<close>, \<open>15e-1\<close>); no rounding is involved.
\<close>

theorem equalJSON_numbers:
  assumes "number_parts m neg ip fs e" "number_parts n neg' ip' fs' e'"
    and "canonicalNumber m \<noteq> None" "canonicalNumber n \<noteq> None"
  shows "equalJSON (JNumber m) (JNumber n) \<longleftrightarrow> number_value neg ip fs e = number_value neg' ip' fs' e'"
proof -
  obtain d x d' x' where c: "canonicalNumber m = Some (d, x)" "canonicalNumber n = Some (d', x')"
    using assms(3,4) by auto
  note a = canonicalNumber_parts [OF assms(1) c(1)] and b = canonicalNumber_parts [OF assms(2) c(2)]
  have "(d, x) = (d', x') \<longleftrightarrow> pair_value d x = pair_value d' x'"
    using canonical_unique [of d x d' x'] a b by auto
  then show ?thesis using c a b by simp
qed

lemma equalJSON_numbers_witness:
  "equalJSON (JNumber ''1.50'') (JNumber ''15e-1'') \<longleftrightarrow> number_value False ''1'' ''50'' 0 = number_value False ''15'' [] (- 1)"
proof (rule equalJSON_numbers)
  show "number_parts ''1.50'' False ''1'' ''50'' 0"
    unfolding number_parts_def by (intro exI [of _ "''.50''"] exI [of _ "[]"]) (simp add: digits_def digit_def)
  show "number_parts ''15e-1'' False ''15'' [] (- 1)"
    unfolding number_parts_def
    by (intro exI [of _ "[]"] exI [of _ "''e-1''"]) (simp add: digits_def digit_def Atoi_def)
  show "canonicalNumber ''1.50'' \<noteq> None" "canonicalNumber ''15e-1'' \<noteq> None" by code_simp+
qed

section \<open>The automaton\<close>

text \<open>
  C10. The incremental recognizer accepts exactly the JSON objects: feeding a text from the initial
  state succeeds and leaves a complete state if and only if the text is a document of the grammar with
  at most 64 levels of nesting (strings of valid UTF-8, numbers, literals, objects and arrays as in RFC
  8259, white space around every token).
\<close>

theorem Advance_language:
  "(\<exists>s. Advance zero_State t = Some s \<and> Complete s) \<longleftrightarrow> document 64 t"
  using Advance_rest [OF zero_State_ok, of t] rest_zero [of t] by blast

text \<open>
  C11. There are no dead ends: whatever prefix has been accepted, some continuation is accepted and
  completes the document. So a sampler that only offers accepted continuations can always finish.
\<close>

theorem Advance_extendable:
  assumes "Advance zero_State p = Some s"
  shows "\<exists>t s'. Advance s t = Some s' \<and> Complete s'"
proof -
  have ok: "state_ok s" by (rule Advance_ok [OF zero_State_ok assms])
  obtain t where "rest s t" using rest_live [OF ok] by blast
  then show ?thesis using Advance_rest [OF ok, of t] by blast
qed

lemma Advance_extendable_witness:
  "\<exists>t s'. Advance (the (Advance zero_State ''{\"a\": [1, \"''))  t = Some s' \<and> Complete s'"
proof -
  have "Advance zero_State ''{\"a\": [1, \"'' \<noteq> None" by code_simp
  then have "Advance zero_State ''{\"a\": [1, \"'' = Some (the (Advance zero_State ''{\"a\": [1, \"''))" by simp
  then show ?thesis by (rule Advance_extendable)
qed

text \<open>
  In every reachable state the automaton's data is in bounds: the stack depth is at most 64, a
  string or number is only open inside a container (so the write to the top of the stack is in range),
  the literal index points into the literal, and at most three bytes of a rune are pending.
\<close>

theorem Advance_in_bounds:
  assumes "Advance zero_State p = Some s"
  shows "js_depth s \<le> length (js_stack s) \<and> (js_lex s \<noteq> no_lex \<longrightarrow> 0 < js_depth s)
    \<and> (js_lex s = CHR ''l'' \<longrightarrow> js_at s < length (js_literal s)) \<and> js_utfN s < length (js_utf s)"
proof -
  have ok: "state_ok s" by (rule Advance_ok [OF zero_State_ok assms])
  then have "stack_ok s" "js_lex s \<noteq> no_lex \<longrightarrow> modes s \<noteq> []" by (simp_all add: state_ok_def)
  then show ?thesis using ok length_modes [of s] by (auto simp: state_ok_def stack_ok_def str_ok_def)
qed

lemma Advance_in_bounds_witness:
  "js_depth (the (Advance zero_State ''{\"a\": [1, \"'')) \<le> length (js_stack (the (Advance zero_State ''{\"a\": [1, \"'')))"
proof -
  have "Advance zero_State ''{\"a\": [1, \"'' \<noteq> None" by code_simp
  then have "Advance zero_State ''{\"a\": [1, \"'' = Some (the (Advance zero_State ''{\"a\": [1, \"''))" by simp
  then show ?thesis by (rule Advance_in_bounds [THEN conjunct1])
qed

end
