(* ===== verification/Context_Window.thy ===== *)
theory Context_Window
  imports Go_Strings
begin

text \<open>
  Selecting the part of a chat history that fits the context (\<^verbatim>\<open>internal/engine/context_window.go\<close>):
  turns, conservative compression of old assistant prose, and the scan over suffixes of complete turns
  with its shared scratch slab.

  Rendering a list of messages to tokens (chat template and tokenizer) is a parameter. Go's \<open>int\<close> is an
  \<open>int\<close>: every sum and product of the code is guarded against overflow, and the guards are kept.
\<close>

datatype ChatRole = ChatRoleSystem | ChatRoleUser | ChatRoleAssistant | ChatRoleTool

record ToolCall =
  call_ID :: string
  call_Type :: string
  call_Name :: string
  call_Arguments :: string

record ChatMessage =
  Role :: ChatRole
  Content :: string
  Images :: "string list"
  ToolCalls :: "ToolCall list"
  ToolCallID :: string
  msg_Name :: string

datatype ContextWindowMode = ContextWindowFull | ContextWindowRecent | ContextWindowAutoCompress

text \<open>The zero value selects full history; an unknown mode is rejected.\<close>

definition normalizedContextWindowMode :: "string \<Rightarrow> ContextWindowMode option" where
  "normalizedContextWindowMode m =
    (if m = [] \<or> m = ''full'' then Some ContextWindowFull
     else if m = ''recent'' then Some ContextWindowRecent
     else if m = ''autoCompress'' then Some ContextWindowAutoCompress
     else None)"

definition contextWindowSafetyTokens :: int where
  "contextWindowSafetyTokens = 8"

record ContextWindowInfo =
  InfoMode :: string
  ContextLength :: int
  PromptBudget :: int
  PromptTokens :: nat
  InputMessages :: nat
  RetainedMessages :: nat
  DroppedMessages :: int
  CompressedMessages :: nat

record cw_options =
  opt_mode :: string
  opt_FIMSuffix :: string
  opt_MaxTokens :: int

datatype cw_error = BadMode | BadContextLength | NoFIM | CannotReserve | NoUserMessage | LatestTurnTooLarge | NotRetained

section \<open>Turns\<close>

definition pinned_count :: "ChatMessage list \<Rightarrow> nat" where
  "pinned_count messages = length (takeWhile (\<lambda>m. Role m = ChatRoleSystem) messages)"

text \<open>
  The loop of \<open>chatContextTurns\<close>: the turns so far, the start of the current one, and the index of the
  newest turn that starts with a user message (\<open>-1\<close> for none).
\<close>

definition turn_step :: "ChatMessage list \<Rightarrow> ChatMessage list list \<times> nat \<times> int \<Rightarrow> nat \<Rightarrow> ChatMessage list list \<times> nat \<times> int" where
  "turn_step messages st i = (case st of (turns, start, newest) \<Rightarrow>
     if Role (messages ! i) = ChatRoleUser then
       (let turns = (if i > start then turns @ [sublst messages start i] else turns)
        in (turns, i, int (length turns)))
     else st)"

definition chatContextTurns :: "ChatMessage list \<Rightarrow> ChatMessage list \<times> ChatMessage list list \<times> int" where
  "chatContextTurns messages =
    (let n = pinned_count messages;
         (turns, start, newest) = foldl (turn_step messages) ([], n, - 1) [n..<length messages]
     in (take n messages,
         if start < length messages then turns @ [drop start messages] else turns,
         newest))"

section \<open>Compression\<close>

fun whitespace_scan :: "bool \<Rightarrow> rune list \<Rightarrow> bool option" where
  "whitespace_scan sp [] = Some sp"
| "whitespace_scan sp (r # rs) =
    (if r = 32 then (if sp then None else whitespace_scan True rs)
     else if (9 \<le> r \<and> r \<le> 13) \<or> (128 \<le> r \<and> IsSpace r) then None
     else whitespace_scan False rs)"

definition chatWhitespaceNormalized :: "string \<Rightarrow> bool" where
  "chatWhitespaceNormalized content =
    (case whitespace_scan True (runes content) of None \<Rightarrow> False | Some sp \<Rightarrow> \<not> sp \<or> content = [])"

definition autoCompressionTerms :: "(string \<times> string) list" where
  "autoCompressionTerms =
    [(''as soon as possible'', ''ASAP''),
     (''for example'', ''e.g.''),
     (''that is to say'', ''i.e.''),
     (''in other words'', ''i.e.''),
     (''application programming interface'', ''API''),
     (''large language model'', ''LLM''),
     (''retrieval augmented generation'', ''RAG''),
     (''context window'', ''ctx window''),
     (''zum Beispiel'', ''z. B.''),
     (''das hei'' @ [CHR 0xC3, CHR 0x9F] @ ''t'', ''d. h.''),
     (''beziehungsweise'', ''bzw.''),
     (''unter anderem'', ''u. a.''),
     (''im Hinblick auf'', ''bzgl.''),
     (''k'' @ [CHR 0xC3, CHR 0xBC] @ ''nstliche Intelligenz'', ''KI''),
     (''maschinelles Lernen'', ''ML''),
     (''gro'' @ [CHR 0xC3, CHR 0x9F] @ ''es Sprachmodell'', ''LLM''),
     (''Anwendungsprogrammierschnittstelle'', ''API'')]"

text \<open>\<open>strings.NewReplacer\<close> with non-empty old strings: at each position the first matching pair.\<close>

function replacer :: "(string \<times> string) list \<Rightarrow> string \<Rightarrow> string" where
  "replacer ps s =
    (if s = [] then []
     else case find (\<lambda>(old, _). old \<noteq> [] \<and> HasPrefix s old) ps of
         None \<Rightarrow> hd s # replacer ps (tl s)
       | Some (old, new) \<Rightarrow> if old = [] then s else new @ replacer ps (drop (length old) s))"
  by pat_completeness auto
termination
  by (relation "measure (\<lambda>(_, s). length s)") auto

declare replacer.simps [simp del]

text \<open>\<open>strings.Fields\<close>: the maximal runs of runes that are not white space.\<close>

fun fields_scan :: "string \<Rightarrow> string list \<Rightarrow> string list" where
  "fields_scan cur [] = (if cur = [] then [] else [cur])"
| "fields_scan cur (p # ps) =
    (if IsSpace (fst (DecodeRune p)) then (if cur = [] then fields_scan [] ps else cur # fields_scan [] ps)
     else fields_scan (cur @ p) ps)"

definition strings_Fields :: "string \<Rightarrow> string list" where
  "strings_Fields s = fields_scan [] (rune_strings s)"

fun join_spaces :: "string list \<Rightarrow> string" where
  "join_spaces [] = []"
| "join_spaces [p] = p"
| "join_spaces (p # q # ps) = p @ CHR '' '' # join_spaces (q # ps)"

definition politeness_prefixes :: "string list" where
  "politeness_prefixes =
    [''please '', ''Please '', ''could you '', ''Could you '', ''I would like you to '', ''Bitte '', ''bitte '',
     ''K'' @ [CHR 0xC3, CHR 0xB6] @ ''nntest du '', ''k'' @ [CHR 0xC3, CHR 0xB6] @ ''nntest du '',
     ''Ich m'' @ [CHR 0xC3, CHR 0xB6] @ ''chte gerne, dass du '']"

definition autoCompressMessage :: "string \<Rightarrow> string" where
  "autoCompressMessage content0 =
    (let content = (if \<not> chatWhitespaceNormalized content0 then join_spaces (strings_Fields content0) else content0)
     in if content = [] then []
        else TrimSpace (foldl TrimPrefix (replacer autoCompressionTerms content) politeness_prefixes))"

definition opaque_chars :: "char set" where
  "opaque_chars = set (''`~{}[]<>|/*#+=:'' @ [CHR 0x22, CHR 0x27, CHR 0x5C])"

definition compressible :: "ChatMessage \<Rightarrow> bool" where
  "compressible m \<longleftrightarrow>
    \<not> (Role m \<noteq> ChatRoleAssistant \<or> ToolCalls m \<noteq> [] \<or> Images m \<noteq> []
       \<or> \<not> chatWhitespaceNormalized (Content m) \<or> list_ex (\<lambda>c. c \<in> opaque_chars) (Content m)
       \<or> HasPrefix (Content m) ''- '' \<or> (Content m \<noteq> [] \<and> 48 \<le> ord (hd (Content m)) \<and> ord (hd (Content m)) \<le> 57))"

text \<open>The index of the newest user message, or the number of messages.\<close>

fun newest_user :: "ChatMessage list \<Rightarrow> nat option" where
  "newest_user [] = None"
| "newest_user (m # ms) = (case newest_user ms of Some i \<Rightarrow> Some (Suc i)
     | None \<Rightarrow> if Role m = ChatRoleUser then Some 0 else None)"

definition compress_one :: "nat \<Rightarrow> nat \<Rightarrow> ChatMessage \<Rightarrow> ChatMessage \<times> nat" where
  "compress_one newest i m =
    (if i \<ge> newest \<or> \<not> compressible m then (m, 0)
     else let content = autoCompressMessage (Content m) in
       if content \<noteq> [] \<and> length content < length (Content m) then (m\<lparr>Content := content\<rparr>, 1) else (m, 0))"

definition autoCompressChatMessages :: "ChatMessage list \<Rightarrow> ChatMessage list \<times> nat" where
  "autoCompressChatMessages messages =
    (let newest = (case newest_user messages of Some i \<Rightarrow> i | None \<Rightarrow> length messages);
         rs = map (\<lambda>(i, m). compress_one newest i m) (zip [0..<length messages] messages)
     in (map fst rs, sum_list (map snd rs)))"

section \<open>The full-history probe\<close>

text \<open>A system message after the conversation has started.\<close>

definition late_system :: "ChatMessage list \<Rightarrow> bool" where
  "late_system messages = list_ex (\<lambda>m. Role m = ChatRoleSystem) (dropWhile (\<lambda>m. Role m = ChatRoleSystem) messages)"

fun probe_calls :: "int \<Rightarrow> ToolCall list \<Rightarrow> int option" where
  "probe_calls remaining [] = Some remaining"
| "probe_calls remaining (c # cs) =
    (if int (length (call_Name c)) > remaining
        \<or> int (length (call_Arguments c)) > remaining - int (length (call_Name c)) then None
     else probe_calls (remaining - (int (length (call_Name c)) + int (length (call_Arguments c)))) cs)"

fun probe_messages :: "int \<Rightarrow> ChatMessage list \<Rightarrow> bool" where
  "probe_messages remaining [] = True"
| "probe_messages remaining (m # ms) =
    (if Images m \<noteq> [] \<or> remaining < 8 \<or> int (length (Content m)) > remaining - 8 then False
     else case probe_calls (remaining - (8 + int (length (Content m)))) (ToolCalls m) of
         None \<Rightarrow> False | Some remaining \<Rightarrow> probe_messages remaining ms)"

definition tryFullChatContextProbe :: "ChatMessage list \<Rightarrow> int \<Rightarrow> bool" where
  "tryFullChatContextProbe messages budget =
    (if late_system messages then True
     else if budget \<ge> max_int div 16 then True
     else probe_messages (budget * 16) messages)"

section \<open>The scan over suffixes\<close>

type_synonym render = "ChatMessage list \<Rightarrow> nat list"

record scan =
  sc_scratch :: "ChatMessage list"
  sc_original :: "ChatMessage list"
  sc_suffixStart :: nat
  sc_previousStart :: nat
  sc_keptStart :: int
  sc_changed :: nat
  sc_keptCompressed :: bool
  sc_keptTokens :: "nat list"
  sc_compressed :: nat
  sc_tokens :: nat

definition count_changed :: "ChatMessage list \<Rightarrow> ChatMessage list \<Rightarrow> nat \<Rightarrow> nat \<Rightarrow> nat" where
  "count_changed working messages a b = length (filter (\<lambda>i. Content (working ! i) \<noteq> Content (messages ! i)) [a..<b])"

text \<open>One pass up to the measurement: move the pinned prefix in front of the longer suffix.\<close>

definition scan_extend :: "bool \<Rightarrow> ChatMessage list \<Rightarrow> ChatMessage list \<Rightarrow> ChatMessage list \<Rightarrow> nat \<Rightarrow> scan \<Rightarrow> scan" where
  "scan_extend hasCompressed messages working pinned len st =
    (let lastStart = sc_suffixStart st;
         suffixStart = lastStart - len;
         p = length pinned;
         st = st\<lparr>sc_suffixStart := suffixStart,
           sc_changed := sc_changed st + (if hasCompressed then count_changed working messages suffixStart lastStart else 0)\<rparr>
     in if p > 0 then
       (let prev = sc_previousStart st;
            restored = (if prev < length working
              then copy_into (sc_scratch st) (prev - p) (sublst working (prev - p) prev) else sc_scratch st);
            restored' = (if prev < length working \<and> hasCompressed
              then copy_into (sc_original st) (prev - p) (sublst messages (prev - p) prev) else sc_original st)
        in st\<lparr>sc_scratch := copy_into restored (suffixStart - p) pinned,
           sc_original := (if hasCompressed then copy_into restored' (suffixStart - p) pinned else restored')\<rparr>)
     else st)"

text \<open>The tokens measured for the candidate, and whether it is the compressed one.\<close>

definition scan_measure :: "render \<Rightarrow> nat \<Rightarrow> scan \<Rightarrow> nat list \<times> bool" where
  "scan_measure render p st =
    (let tokens = render (drop (sc_suffixStart st - p) (sc_scratch st)) in
     if sc_changed st > 0 then
       (let originalTokens = render (drop (sc_suffixStart st - p) (sc_original st)) in
        if length tokens < length originalTokens then (tokens, True) else (originalTokens, False))
     else (tokens, False))"

definition scan_keep :: "nat list \<Rightarrow> bool \<Rightarrow> scan \<Rightarrow> scan" where
  "scan_keep tokens useCompressed st = st\<lparr>sc_keptStart := int (sc_suffixStart st), sc_previousStart := sc_suffixStart st,
     sc_keptCompressed := useCompressed, sc_compressed := (if useCompressed then sc_changed st else 0),
     sc_keptTokens := tokens, sc_tokens := length tokens\<rparr>"

text \<open>\<open>for first := newestUserTurn; first >= 0; first--\<close>; the turns come newest first, \<open>Inl\<close> is the
  rejected latest turn with its token count.\<close>

fun scan_turns :: "render \<Rightarrow> bool \<Rightarrow> ChatMessage list \<Rightarrow> ChatMessage list \<Rightarrow> ChatMessage list \<Rightarrow> int \<Rightarrow> bool \<Rightarrow>
    ChatMessage list list \<Rightarrow> scan \<Rightarrow> nat + scan" where
  "scan_turns render hasCompressed messages working pinned budget newest [] st = Inr st"
| "scan_turns render hasCompressed messages working pinned budget newest (turn # turns) st =
    (let st = scan_extend hasCompressed messages working pinned (length turn) st;
         (tokens, useCompressed) = scan_measure render (length pinned) st
     in if int (length tokens) > budget then (if newest then Inl (length tokens) else Inr st)
        else scan_turns render hasCompressed messages working pinned budget False turns (scan_keep tokens useCompressed st))"

definition scan_start :: "bool \<Rightarrow> ChatMessage list \<Rightarrow> ChatMessage list \<Rightarrow> nat \<Rightarrow> scan" where
  "scan_start hasCompressed messages working start = \<lparr>sc_scratch = working,
     sc_original = (if hasCompressed then messages else working), sc_suffixStart = start, sc_previousStart = start,
     sc_keptStart = - 1, sc_changed = 0, sc_keptCompressed = False, sc_keptTokens = [], sc_compressed = 0, sc_tokens = 0\<rparr>"

section \<open>prepareChatContext\<close>

text \<open>
  The result is the selected messages or the error, the accounting, and the rendered tokens handed
  back (\<open>want\<close>: the caller passed a destination for them).
\<close>

type_synonym cw_result = "(cw_error + ChatMessage list) \<times> ContextWindowInfo \<times> nat list option"

definition cw_select :: "render \<Rightarrow> bool \<Rightarrow> bool \<Rightarrow> ChatMessage list \<Rightarrow> ChatMessage list \<Rightarrow> ContextWindowInfo \<Rightarrow> cw_result" where
  "cw_select render want hasCompressed messages working info =
    (let (pinned, turns, newestUserTurn) = chatContextTurns working;
         p = length pinned
     in case scan_turns render hasCompressed messages working pinned (PromptBudget info) True
            (rev (take (nat (newestUserTurn + 1)) turns)) (scan_start hasCompressed messages working (length working)) of
          Inl n \<Rightarrow> (Inl LatestTurnTooLarge, info\<lparr>PromptTokens := n\<rparr>, None)
        | Inr st \<Rightarrow>
           (let info = info\<lparr>PromptTokens := sc_tokens st, CompressedMessages := sc_compressed st\<rparr> in
            if sc_keptStart st < 0 then (Inl NotRetained, info, None)
            else let keptStart = nat (sc_keptStart st);
                     scratch = (if hasCompressed \<and> \<not> sc_keptCompressed st then sc_original st else sc_scratch st);
                     scratch = (if p > 0 then copy_into scratch (keptStart - p) pinned else scratch);
                     kept = drop (keptStart - p) scratch
                 in (Inr kept,
                     info\<lparr>RetainedMessages := length kept, DroppedMessages := int (length messages) - int (length kept)\<rparr>,
                     if want then Some (sc_keptTokens st) else None)))"

definition cw_bounded :: "render \<Rightarrow> bool \<Rightarrow> bool \<Rightarrow> ChatMessage list \<Rightarrow> ContextWindowInfo \<Rightarrow> cw_result" where
  "cw_bounded render want auto messages info =
    (let budget = PromptBudget info;
         fits = (\<lambda>ms tokens n. (Inr ms, info\<lparr>PromptTokens := length tokens, RetainedMessages := length ms,
            CompressedMessages := n\<rparr>, if want then Some tokens else None));
         original = render messages
     in if (auto \<or> tryFullChatContextProbe messages budget) \<and> int (length original) \<le> budget
        then fits messages original 0
        else if auto then
          (let (compressed, changed) = autoCompressChatMessages messages in
           if changed > 0 then
             (let rendered = render compressed in
              if tryFullChatContextProbe compressed budget \<and> length rendered < length original
                 \<and> int (length rendered) \<le> budget
              then fits compressed rendered changed
              else cw_select render want True messages compressed info)
           else cw_select render want False messages messages info)
        else cw_select render want False messages messages info)"

definition prepareChatContext :: "render \<Rightarrow> int \<Rightarrow> cw_options \<Rightarrow> bool \<Rightarrow> ChatMessage list \<Rightarrow> cw_result" where
  "prepareChatContext render maxSeqLen opts destination messages =
    (let want = (destination \<and> opt_FIMSuffix opts = [] \<and> list_all (\<lambda>m. Images m = []) messages);
         info = \<lparr>InfoMode = (if opt_mode opts = [] then ''full'' else opt_mode opts), ContextLength = maxSeqLen, PromptBudget = 0, PromptTokens = 0, InputMessages = length messages,
            RetainedMessages = 0, DroppedMessages = 0, CompressedMessages = 0\<rparr>
     in case normalizedContextWindowMode (opt_mode opts) of
          None \<Rightarrow> (Inl BadMode, info, None)
        | Some mode \<Rightarrow>
           (if maxSeqLen \<le> 0 then (Inl BadContextLength, info, None)
            else if mode = ContextWindowFull then
              (Inr messages, info\<lparr>PromptBudget := maxSeqLen, PromptTokens := length (render messages),
                 RetainedMessages := length messages\<rparr>, if want then Some (render messages) else None)
            else if opt_FIMSuffix opts \<noteq> [] then (Inl NoFIM, info, None)
            else let completion = max 1 (opt_MaxTokens opts) in
              if completion > max_int - contextWindowSafetyTokens then (Inl CannotReserve, info, None)
              else let reserve = completion + contextWindowSafetyTokens;
                       info = info\<lparr>PromptBudget := maxSeqLen - reserve\<rparr>
                   in if PromptBudget info < 1 then (Inl CannotReserve, info, None)
                      else if newest_user messages = None then (Inl NoUserMessage, info, None)
                      else cw_bounded render want (mode = ContextWindowAutoCompress) messages info))"

end
