(* ===== verification/Context_Window_Laws.thy ===== *)
theory Context_Window_Laws
  imports Context_Window
begin

text \<open>
  The scratch slab of the suffix scan implements the candidates it stands for: at every pass the slab
  from the candidate's start reads as the pinned messages followed by the suffix, whatever was written
  by earlier passes. With the shape of the turns this gives what \<open>prepareChatContext\<close> returns.
\<close>

section \<open>The slab\<close>

lemma copy_into_restore: "a + length ys \<le> length xs \<Longrightarrow> copy_into (copy_into xs a ys) a (sublst xs a (a + length ys)) = xs"
proof -
  assume a: "a + length ys \<le> length xs"
  have l: "length (take a xs) = a" using a by simp
  have "copy_into (take a xs @ ys @ drop (a + length ys) xs) a (sublst xs a (a + length ys))
      = take a xs @ sublst xs a (a + length ys) @ drop (a + length ys) xs"
    using l length_sublst [of "a + length ys" xs a] a by (simp add: copy_into_def)
  also have "\<dots> = take (a + length ys) xs @ drop (a + length ys) xs"
    by (simp add: sublst_def take_add)
  finally show ?thesis by (simp add: copy_into_def)
qed

lemma drop_copy_into: "a + length ys = k \<Longrightarrow> k \<le> length xs \<Longrightarrow> drop a (copy_into xs a ys) = ys @ drop k xs"
  by (simp add: copy_into_def min_def)

lemma drop_copy_into_after: "a + length ys \<le> k \<Longrightarrow> k \<le> length xs \<Longrightarrow> drop k (copy_into xs a ys) = drop k xs"
proof -
  assume le: "a + length ys \<le> k" "k \<le> length xs"
  then have "length (take a xs) = a" by simp
  then have "drop k (take a xs @ ys @ drop (a + length ys) xs) = drop (k - a - length ys) (drop (a + length ys) xs)"
    using le by (simp del: length_take)
  also have "\<dots> = drop k xs" using le by simp
  finally show ?thesis by (simp add: copy_into_def)
qed

text \<open>The slab over \<open>base\<close> with the pinned prefix moved in front of position \<open>s\<close>.\<close>

definition slab :: "ChatMessage list \<Rightarrow> ChatMessage list \<Rightarrow> nat \<Rightarrow> ChatMessage list" where
  "slab pinned base s = (if s < length base \<and> pinned \<noteq> [] then copy_into base (s - length pinned) pinned else base)"

lemma length_slab: "length pinned \<le> s \<Longrightarrow> length (slab pinned base s) = length base"
  by (simp add: slab_def length_copy_into)

lemma drop_slab: "length pinned \<le> s \<Longrightarrow> s \<le> k \<Longrightarrow> k \<le> length base \<Longrightarrow> drop k (slab pinned base s) = drop k base"
  by (simp add: slab_def drop_copy_into_after)

lemma slab_candidate:
  "length pinned \<le> s \<Longrightarrow> s < length base \<Longrightarrow> drop (s - length pinned) (slab pinned base s) = pinned @ drop s base"
  by (simp add: slab_def drop_copy_into)

lemma slab_restore:
  assumes "length pinned \<le> s" "s < length base"
  shows "copy_into (slab pinned base s) (s - length pinned) (sublst base (s - length pinned) s) = base"
  using copy_into_restore [of "s - length pinned" pinned base] assms
  by (cases "pinned = []") (simp_all add: slab_def copy_into_def sublst_def)

lemma slab_kept:
  assumes "length pinned \<le> s" "s \<le> k" "k < length base"
  shows "drop (k - length pinned) (if length pinned > 0 then copy_into (slab pinned base s) (k - length pinned) pinned
    else slab pinned base s) = pinned @ drop k base"
proof (cases "pinned = []")
  case True
  then show ?thesis by (simp add: slab_def)
next
  case False
  have "drop (k - length pinned) (copy_into (slab pinned base s) (k - length pinned) pinned) = pinned @ drop k (slab pinned base s)"
    using assms length_slab [OF assms(1), of base] by (intro drop_copy_into) simp_all
  then show ?thesis using drop_slab [OF assms(1,2), of base] assms(3) False by simp
qed

section \<open>Turns\<close>

definition turns_of :: "ChatMessage list \<Rightarrow> nat \<Rightarrow> ChatMessage list list \<Rightarrow> nat \<Rightarrow> bool" where
  "turns_of messages n turns start \<longleftrightarrow> n \<le> start \<and> concat turns = sublst messages n start \<and> [] \<notin> set turns
     \<and> (\<forall>j \<le> length turns. let k = n + length (concat (take j turns)) in k = n \<or> (k < length messages \<and> Role (messages ! k) = ChatRoleUser))"

definition turn_inv :: "ChatMessage list \<Rightarrow> nat \<Rightarrow> nat \<Rightarrow> ChatMessage list list \<times> nat \<times> int \<Rightarrow> bool" where
  "turn_inv messages n i st \<longleftrightarrow> (case st of (turns, start, newest) \<Rightarrow>
     turns_of messages n turns start \<and> start \<le> i
     \<and> (if newest = - 1 then turns = [] \<and> start = n \<and> (\<forall>j. n \<le> j \<and> j < i \<longrightarrow> Role (messages ! j) \<noteq> ChatRoleUser)
        else newest = int (length turns) \<and> start < i \<and> Role (messages ! start) = ChatRoleUser
           \<and> (\<forall>j. start < j \<and> j < i \<longrightarrow> Role (messages ! j) \<noteq> ChatRoleUser)))"

lemma turns_of_snoc:
  assumes "turns_of messages n turns start" "start < i" "i \<le> length messages"
    and "i = length messages \<or> Role (messages ! i) = ChatRoleUser"
  shows "concat (turns @ [sublst messages start i]) = sublst messages n i \<and> [] \<notin> set (turns @ [sublst messages start i])
    \<and> (i < length messages \<longrightarrow> turns_of messages n (turns @ [sublst messages start i]) i)"
proof -
  have c: "concat (turns @ [sublst messages start i]) = sublst messages n i"
    using assms(1-3) sublst_append [of n start i messages] by (simp add: turns_of_def)
  have ne: "sublst messages start i \<noteq> []" using length_sublst [of i messages start] assms(2,3) by force
  have "length (sublst messages n i) = i - n" using assms(1-3) by (simp add: turns_of_def)
  then have "\<forall>j \<le> length (turns @ [sublst messages start i]).
      let k = n + length (concat (take j (turns @ [sublst messages start i]))) in
        k = n \<or> (k < length messages \<and> Role (messages ! k) = ChatRoleUser)" if "i < length messages"
    using that assms c unfolding turns_of_def Let_def
    by (auto simp: le_Suc_eq)
  then show ?thesis using c ne assms(1,2) by (auto simp: turns_of_def)
qed

lemma turn_step_inv:
  assumes inv: "turn_inv messages n i st" and i: "n \<le> i" "i < length messages"
  shows "turn_inv messages n (Suc i) (turn_step messages st i)"
proof (cases st)
  case (fields turns start newest)
  show ?thesis
  proof (cases "Role (messages ! i) = ChatRoleUser")
    case False
    then show ?thesis using inv i by (auto simp: turn_inv_def turn_step_def fields less_Suc_eq)
  next
    case True
    have t: "turns_of messages n turns start" "start \<le> i" using inv by (simp_all add: turn_inv_def fields)
    show ?thesis
    proof (cases "start < i")
      case lt: True
      note s = turns_of_snoc [OF t(1) lt less_imp_le [OF i(2)] disjI2 [OF True]]
      then show ?thesis using True lt i
        by (simp add: turn_inv_def turn_step_def fields Let_def) auto
    next
      case False
      then have "start = i" using t(2) by simp
      then show ?thesis using True inv t i by (auto simp: turn_inv_def turn_step_def fields Let_def split: if_splits)
    qed
  qed
qed

lemma turn_fold_inv:
  "n \<le> i \<Longrightarrow> i \<le> length messages \<Longrightarrow> turn_inv messages n i (foldl (turn_step messages) ([], n, - 1) [n..<i])"
proof (induction i)
  case 0
  then show ?case by (simp add: turn_inv_def turns_of_def)
next
  case (Suc i)
  show ?case
  proof (cases "n = Suc i")
    case True
    then show ?thesis by (auto simp: turn_inv_def turns_of_def sublst_def)
  next
    case False
    then show ?thesis using Suc turn_step_inv by simp
  qed
qed

lemma newest_user_Some:
  "newest_user ms = Some i \<Longrightarrow> i < length ms \<and> Role (ms ! i) = ChatRoleUser \<and> (\<forall>j. i < j \<and> j < length ms \<longrightarrow> Role (ms ! j) \<noteq> ChatRoleUser)"
proof (induction ms arbitrary: i)
  case (Cons m ms)
  show ?case
  proof (cases "newest_user ms")
    case None
    have "newest_user xs = None \<Longrightarrow> j < length xs \<Longrightarrow> Role (xs ! j) \<noteq> ChatRoleUser" for xs j
    proof (induction xs arbitrary: j)
      case (Cons x xs)
      then show ?case by (cases j) (auto split: option.splits if_splits)
    qed simp
    from this [OF None] show ?thesis using Cons.prems None by (auto simp: nth_Cons split: if_splits nat.splits)
  next
    case (Some k)
    then show ?thesis using Cons by (auto simp: nth_Cons split: nat.splits)
  qed
qed simp

lemma newest_user_None: "newest_user ms = None \<longleftrightarrow> (\<forall>m \<in> set ms. Role m \<noteq> ChatRoleUser)"
proof (induction ms)
  case (Cons m ms)
  then show ?case by (cases "newest_user ms") (simp_all split: if_splits)
qed simp

lemma pinned_count_le: "pinned_count ms \<le> length ms"
  unfolding pinned_count_def by (rule length_takeWhile_le)

lemma pinned_system: "i < pinned_count ms \<Longrightarrow> Role (ms ! i) = ChatRoleSystem"
proof -
  assume "i < pinned_count ms"
  then have i: "i < length (takeWhile (\<lambda>m. Role m = ChatRoleSystem) ms)" by (simp add: pinned_count_def)
  from set_takeWhileD [OF nth_mem [OF i]] takeWhile_nth [OF i] show ?thesis by simp
qed

text \<open>The start of turn \<open>j\<close> in the history.\<close>

definition turn_start :: "ChatMessage list \<Rightarrow> ChatMessage list list \<Rightarrow> nat \<Rightarrow> nat" where
  "turn_start messages turns j = pinned_count messages + length (concat (take j turns))"

lemma chatContextTurns_shape:
  assumes c: "chatContextTurns messages = (pinned, turns, newest)" and u: "newest_user messages = Some u"
  shows "pinned = take (pinned_count messages) messages \<and> concat turns = drop (pinned_count messages) messages
    \<and> [] \<notin> set turns \<and> newest = int (length turns) - 1 \<and> turns \<noteq> []
    \<and> turn_start messages turns (length turns - 1) = u
    \<and> (\<forall>j < length turns. turn_start messages turns j = pinned_count messages
          \<or> (turn_start messages turns j < length messages \<and> Role (messages ! turn_start messages turns j) = ChatRoleUser))"
proof -
  let ?n = "pinned_count messages"
  obtain ts start nw where f: "foldl (turn_step messages) ([], ?n, - 1) [?n..<length messages] = (ts, start, nw)"
    by (cases "foldl (turn_step messages) ([], ?n, - 1) [?n..<length messages]")
  note inv = turn_fold_inv [OF pinned_count_le order_refl, of messages, unfolded f turn_inv_def prod.case]
  note us = newest_user_Some [OF u]
  have un: "?n \<le> u" using pinned_system [of u messages] us by (cases "u < ?n") auto
  have nw: "nw \<noteq> - 1" using inv us un by auto
  then have st: "turns_of messages ?n ts start" "nw = int (length ts)" "start < length messages"
      "Role (messages ! start) = ChatRoleUser" "\<forall>j. start < j \<and> j < length messages \<longrightarrow> Role (messages ! j) \<noteq> ChatRoleUser"
    using inv by auto
  have su: "start = u" using st(3-5) us by (metis linorder_neqE_nat)
  have e: "pinned = take ?n messages" "turns = ts @ [drop start messages]" "newest = int (length ts)"
    using c st(2,3) by (simp_all add: chatContextTurns_def f)
  note s = turns_of_snoc [OF st(1,3) order_refl disjI1 [OF refl], unfolded sublst_drop]
  have off: "turn_start messages turns j = ?n + length (concat (take j ts))" if "j \<le> length ts" for j
    using that by (simp add: turn_start_def e)
  have tl: "turn_start messages turns (length ts) = start"
    using st(1) length_sublst [of start messages ?n] st(3) off [of "length ts"] by (simp add: turns_of_def)
  show ?thesis
  proof (intro conjI)
    show "\<forall>j < length turns. turn_start messages turns j = ?n
          \<or> (turn_start messages turns j < length messages \<and> Role (messages ! turn_start messages turns j) = ChatRoleUser)"
    proof (intro allI impI)
      fix j assume "j < length turns"
      then have j: "j \<le> length ts" using e by simp
      then show "turn_start messages turns j = ?n
          \<or> (turn_start messages turns j < length messages \<and> Role (messages ! turn_start messages turns j) = ChatRoleUser)"
        using st(1) unfolding off [OF j] turns_of_def Let_def by blast
    qed
  qed (use e s tl su in auto)
qed

section \<open>The scan\<close>

text \<open>The pinned prefix and the suffix from \<open>k\<close>.\<close>

definition pick :: "ChatMessage list \<Rightarrow> nat \<Rightarrow> nat \<Rightarrow> ChatMessage list" where
  "pick base p k = take p base @ drop k base"

definition chosen :: "render \<Rightarrow> bool \<Rightarrow> ChatMessage list \<Rightarrow> ChatMessage list \<Rightarrow> nat \<Rightarrow> nat \<Rightarrow> ChatMessage list \<times> bool" where
  "chosen render hasCompressed messages working p k =
    (if hasCompressed \<and> 0 < count_changed working messages k (length working) then
       (if length (render (pick working p k)) < length (render (pick messages p k)) then (pick working p k, True)
        else (pick messages p k, False))
     else (pick working p k, False))"

text \<open>The two histories and the pinned messages they share.\<close>

definition scan_base :: "bool \<Rightarrow> ChatMessage list \<Rightarrow> ChatMessage list \<Rightarrow> ChatMessage list \<Rightarrow> bool" where
  "scan_base hasC messages working pinned \<longleftrightarrow> length messages = length working \<and> length pinned \<le> length working
     \<and> pinned = take (length pinned) working \<and> pinned = take (length pinned) messages"

definition slabs :: "bool \<Rightarrow> ChatMessage list \<Rightarrow> ChatMessage list \<Rightarrow> ChatMessage list \<Rightarrow> nat \<Rightarrow> scan \<Rightarrow> bool" where
  "slabs hasC messages working pinned s st \<longleftrightarrow> sc_suffixStart st = s \<and> length pinned \<le> s \<and> s \<le> length working
     \<and> sc_scratch st = slab pinned working s \<and> (hasC \<longrightarrow> sc_original st = slab pinned messages s)
     \<and> sc_changed st = (if hasC then count_changed working messages s (length working) else 0)"

lemma count_changed_split:
  "a \<le> b \<Longrightarrow> b \<le> c \<Longrightarrow> count_changed w m a c = count_changed w m a b + count_changed w m b c"
proof -
  assume le: "a \<le> b" "b \<le> c"
  have "[a..<c] = [a..<b] @ [b..<c]" using upt_add_eq_append [OF le(1), of "c - b"] le(2) by simp
  then show ?thesis by (simp add: count_changed_def)
qed

lemma scan_extend_slabs:
  assumes b: "scan_base hasC messages working pinned" and sl: "slabs hasC messages working pinned s st"
    and prev: "sc_previousStart st = s" and len: "0 < len" "length pinned + len \<le> s"
  shows "slabs hasC messages working pinned (s - len) (scan_extend hasC messages working pinned len st)"
    and "sc_previousStart (scan_extend hasC messages working pinned len st) = s"
proof -
  let ?p = "length pinned"
  have le: "length messages = length working" "s \<le> length working" "?p \<le> s - len" "s - len < length working" "s - len < s"
    using b sl len by (auto simp: scan_base_def slabs_def)
  have restore: "(if s < length working then copy_into (slab pinned base s) (s - ?p) (sublst base (s - ?p) s)
      else slab pinned base s) = base" if "length base = length working" for base
    using slab_restore [of pinned s base] le that len by (simp add: slab_def)
  have cnt: "count_changed working messages (s - len) (length working)
      = count_changed working messages s (length working) + count_changed working messages (s - len) s"
    using count_changed_split [of "s - len" s "length working"] le by simp
  have front: "copy_into base (s - len - ?p) pinned = slab pinned base (s - len)" if "length base = length working" "0 < ?p" for base
    using le that by (simp add: slab_def)
  have none: "slab pinned base x = base" if "?p = 0" for base x using that by (simp add: slab_def)
  have f: "sc_suffixStart st = s" "sc_scratch st = slab pinned working s" "hasC \<Longrightarrow> sc_original st = slab pinned messages s"
    "sc_changed st = (if hasC then count_changed working messages s (length working) else 0)"
    using sl by (simp_all add: slabs_def)
  show "slabs hasC messages working pinned (s - len) (scan_extend hasC messages working pinned len st)"
  proof (cases "0 < ?p")
    case False
    then show ?thesis using f prev le cnt none by (simp add: slabs_def scan_extend_def Let_def)
  next
    case p: True
    show ?thesis
    proof (cases hasC)
      case True
      then show ?thesis using p f(1,4) prev le cnt restore [of working] restore [of messages] front [of working] front [of messages]
        unfolding slabs_def scan_extend_def Let_def by (cases "s < length working") (simp_all add: f(2,3))
    next
      case False
      then show ?thesis using p f(1,4) prev le restore [of working] front [of working]
        unfolding slabs_def scan_extend_def Let_def by (cases "s < length working") (simp_all add: f(2))
    qed
  qed
  show "sc_previousStart (scan_extend hasC messages working pinned len st) = s"
    using prev by (simp add: scan_extend_def Let_def)
qed

lemma scan_measure_chosen:
  assumes b: "scan_base hasC messages working pinned" and sl: "slabs hasC messages working pinned s st"
    and s: "s < length working"
  shows "scan_measure render (length pinned) st
    = (render (fst (chosen render hasC messages working (length pinned) s)), snd (chosen render hasC messages working (length pinned) s))"
proof -
  let ?p = "length pinned"
  have "drop (s - ?p) (slab pinned base s) = pick base ?p s" if "length base = length working" "take ?p base = pinned" for base
    using slab_candidate [of pinned s base] sl s that by (simp add: slabs_def pick_def)
  from this [of working] this [of messages] show ?thesis
    using b sl by (cases hasC) (simp_all add: scan_base_def slabs_def scan_measure_def chosen_def Let_def)
qed

definition kept_at :: "render \<Rightarrow> bool \<Rightarrow> ChatMessage list \<Rightarrow> ChatMessage list \<Rightarrow> ChatMessage list \<Rightarrow> int \<Rightarrow> nat \<Rightarrow> scan \<Rightarrow> bool" where
  "kept_at render hasC messages working pinned budget k st \<longleftrightarrow>
    (let c = chosen render hasC messages working (length pinned) k in
     sc_keptStart st = int k \<and> k < length working \<and> sc_keptCompressed st = snd c \<and> sc_keptTokens st = render (fst c)
     \<and> sc_tokens st = length (render (fst c)) \<and> int (length (render (fst c))) \<le> budget
     \<and> sc_compressed st = (if snd c then count_changed working messages k (length working) else 0))"

lemma kept_at_cong:
  "sc_keptStart st' = sc_keptStart st \<Longrightarrow> sc_keptCompressed st' = sc_keptCompressed st \<Longrightarrow> sc_keptTokens st' = sc_keptTokens st \<Longrightarrow>
    sc_tokens st' = sc_tokens st \<Longrightarrow> sc_compressed st' = sc_compressed st \<Longrightarrow>
    kept_at render hasC messages working pinned budget k st' = kept_at render hasC messages working pinned budget k st"
  by (simp add: kept_at_def)

lemma scan_extend_kept [simp]:
  "sc_keptStart (scan_extend hasC m w pinned len st) = sc_keptStart st"
  "sc_keptCompressed (scan_extend hasC m w pinned len st) = sc_keptCompressed st"
  "sc_keptTokens (scan_extend hasC m w pinned len st) = sc_keptTokens st"
  "sc_tokens (scan_extend hasC m w pinned len st) = sc_tokens st"
  "sc_compressed (scan_extend hasC m w pinned len st) = sc_compressed st"
  by (simp_all add: scan_extend_def Let_def)

text \<open>
  The scan over the turns \<open>ts\<close>, newest first. \<open>i\<close> of them are kept, and if that is not all of them the
  next one does not fit.
\<close>

lemma scan_turns_spec:
  assumes b: "scan_base hasC messages working pinned" and "[] \<notin> set ts"
    and "slabs hasC messages working pinned s st" "sc_previousStart st = s" "s = length pinned + length (concat ts)"
    and "\<not> newest \<Longrightarrow> kept_at render hasC messages working pinned budget s st"
  shows "case scan_turns render hasC messages working pinned budget newest ts st of
      Inl n \<Rightarrow> newest \<and> ts \<noteq> [] \<and> n = length (render (fst (chosen render hasC messages working (length pinned) (length pinned + length (concat (tl ts))))))
        \<and> int n > budget
    | Inr st' \<Rightarrow> (ts = [] \<and> st' = st) \<or> (\<exists>i \<le> length ts. (newest \<longrightarrow> 0 < i)
        \<and> kept_at render hasC messages working pinned budget (length pinned + length (concat (drop i ts))) st'
        \<and> (\<exists>s' \<le> length pinned + length (concat (drop i ts)). slabs hasC messages working pinned s' st')
        \<and> (i < length ts \<longrightarrow> int (length (render (fst (chosen render hasC messages working (length pinned)
             (length pinned + length (concat (drop (Suc i) ts))))))) > budget))"
  using assms(2-)
proof (induction ts arbitrary: s st newest)
  case Nil
  then show ?case by simp
next
  case (Cons t ts)
  let ?p = "length pinned"
  let ?s = "?p + length (concat ts)"
  let ?st = "scan_extend hasC messages working pinned (length t) st"
  let ?c = "chosen render hasC messages working ?p ?s"
  have t: "0 < length t" "?p + length t \<le> s" "s - length t = ?s" using Cons.prems(1,4) by auto
  have sl: "slabs hasC messages working pinned ?s ?st"
    using scan_extend_slabs(1) [OF b Cons.prems(2,3) t(1,2)] t(3) by simp
  have "s \<le> length working" using Cons.prems(2) by (simp add: slabs_def)
  then have lt: "?s < length working" using t by linarith
  have m: "scan_measure render ?p ?st = (render (fst ?c), snd ?c)" by (rule scan_measure_chosen [OF b sl lt])
  show ?case
  proof (cases "int (length (render (fst ?c))) > budget")
    case True
    have "kept_at render hasC messages working pinned budget s ?st" if "\<not> newest"
      using Cons.prems(5) [OF that] by (simp add: kept_at_cong [of ?st st])
    moreover have z: "s = ?p + length (concat (drop 0 (t # ts)))" using Cons.prems(4) by simp
    moreover have "\<exists>s' \<le> s. slabs hasC messages working pinned s' ?st" using sl t by (intro exI [of _ ?s]) simp
    ultimately have "\<not> newest \<Longrightarrow> \<exists>i \<le> length (t # ts). (newest \<longrightarrow> 0 < i)
        \<and> kept_at render hasC messages working pinned budget (?p + length (concat (drop i (t # ts)))) ?st
        \<and> (\<exists>s' \<le> ?p + length (concat (drop i (t # ts))). slabs hasC messages working pinned s' ?st)
        \<and> (i < length (t # ts) \<longrightarrow> int (length (render (fst (chosen render hasC messages working ?p
             (?p + length (concat (drop (Suc i) (t # ts)))))))) > budget)"
      using True by (intro exI [of _ 0]) (simp add: z [symmetric])
    then show ?thesis using True m by (cases newest) (simp_all add: Let_def)
  next
    case False
    let ?k = "scan_keep (render (fst ?c)) (snd ?c) ?st"
    have sk: "slabs hasC messages working pinned ?s ?k" using sl by (simp add: slabs_def scan_keep_def)
    have pk: "sc_previousStart ?k = ?s" using sl by (simp add: slabs_def scan_keep_def)
    have kk: "kept_at render hasC messages working pinned budget ?s ?k"
      using sl lt False by (auto simp: kept_at_def scan_keep_def slabs_def Let_def chosen_def)
    have nt: "[] \<notin> set ts" using Cons.prems(1) by simp
    have ih: "case scan_turns render hasC messages working pinned budget False ts ?k of
      Inl n \<Rightarrow> False
    | Inr st' \<Rightarrow> (ts = [] \<and> st' = ?k) \<or> (\<exists>i \<le> length ts.
        kept_at render hasC messages working pinned budget (?p + length (concat (drop i ts))) st'
        \<and> (\<exists>s' \<le> ?p + length (concat (drop i ts)). slabs hasC messages working pinned s' st')
        \<and> (i < length ts \<longrightarrow> int (length (render (fst (chosen render hasC messages working ?p
             (?p + length (concat (drop (Suc i) ts))))))) > budget))"
      using Cons.IH [where newest = False, OF nt sk pk refl kk]
      by (cases "scan_turns render hasC messages working pinned budget False ts ?k") simp_all
    have e: "scan_turns render hasC messages working pinned budget newest (t # ts) st
        = scan_turns render hasC messages working pinned budget False ts ?k"
      using False m by (simp add: Let_def)
    show ?thesis
    proof (cases "scan_turns render hasC messages working pinned budget False ts ?k")
      case (Inl n)
      then show ?thesis using ih by simp
    next
      case (Inr st')
      consider "ts = []" "st' = ?k" | i where "i \<le> length ts"
        "kept_at render hasC messages working pinned budget (?p + length (concat (drop i ts))) st'"
        "\<exists>s' \<le> ?p + length (concat (drop i ts)). slabs hasC messages working pinned s' st'"
        "i < length ts \<longrightarrow> int (length (render (fst (chosen render hasC messages working ?p
             (?p + length (concat (drop (Suc i) ts))))))) > budget"
        using ih Inr by auto
      then show ?thesis
      proof cases
        case 1
        then have "\<exists>s' \<le> ?p. slabs hasC messages working pinned s' st'" using sk by (intro exI [of _ ?p]) simp
        then show ?thesis unfolding e Inr sum.case using kk 1 by (intro disjI2 exI [of _ "Suc 0"]) simp
      next
        case (2 i)
        then show ?thesis unfolding e Inr sum.case by (intro disjI2 exI [of _ "Suc i"]) simp
      qed
    qed
  qed
qed

section \<open>Compression changes only prose\<close>

definition compress_rel :: "ChatMessage list \<Rightarrow> ChatMessage list \<Rightarrow> bool" where
  "compress_rel messages working \<longleftrightarrow> length working = length messages
     \<and> (\<forall>i < length messages. working ! i = (messages ! i)\<lparr>Content := Content (working ! i)\<rparr>
          \<and> (Role (messages ! i) \<noteq> ChatRoleAssistant \<longrightarrow> working ! i = messages ! i))"

lemma compress_one_cases:
  "compress_one newest i m = (m', d) \<Longrightarrow> (m' = m \<and> d = 0) \<or>
    (i < newest \<and> compressible m \<and> m' = m\<lparr>Content := Content m'\<rparr> \<and> Content m' \<noteq> []
      \<and> length (Content m') < length (Content m) \<and> d = 1)"
  by (auto simp: compress_one_def Let_def split: if_splits)

lemma autoCompress_nth:
  assumes "i < length messages"
  shows "fst (autoCompressChatMessages messages) ! i
    = fst (compress_one (case newest_user messages of Some i \<Rightarrow> i | None \<Rightarrow> length messages) i (messages ! i))"
  using assms by (simp add: autoCompressChatMessages_def Let_def)

lemma autoCompress_length: "length (fst (autoCompressChatMessages messages)) = length messages"
  by (simp add: autoCompressChatMessages_def Let_def)

lemma autoCompress_rel: "compress_rel messages (fst (autoCompressChatMessages messages))"
proof -
  let ?n = "case newest_user messages of Some i \<Rightarrow> i | None \<Rightarrow> length messages"
  have "fst (autoCompressChatMessages messages) ! i = (messages ! i)\<lparr>Content := Content (fst (autoCompressChatMessages messages) ! i)\<rparr>
      \<and> (Role (messages ! i) \<noteq> ChatRoleAssistant \<longrightarrow> fst (autoCompressChatMessages messages) ! i = messages ! i)"
    if "i < length messages" for i
  proof -
    obtain m' d where c: "compress_one ?n i (messages ! i) = (m', d)" by (cases "compress_one ?n i (messages ! i)")
    then show ?thesis using compress_one_cases [OF c] autoCompress_nth [OF that] by (auto simp: compressible_def)
  qed
  then show ?thesis by (simp add: compress_rel_def autoCompress_length)
qed

lemma compress_rel_refl: "compress_rel m m"
  by (simp add: compress_rel_def)

lemma compress_rel_roles: "compress_rel m w \<Longrightarrow> map Role w = map Role m"
proof (rule nth_equalityI)
  assume r: "compress_rel m w"
  show "length (map Role w) = length (map Role m)" using r by (simp add: compress_rel_def)
  fix i assume "i < length (map Role w)"
  then have i: "i < length m" "i < length w" using r by (simp_all add: compress_rel_def)
  have "w ! i = (m ! i)\<lparr>Content := Content (w ! i)\<rparr>" using r i by (simp add: compress_rel_def)
  then have "Role (w ! i) = Role ((m ! i)\<lparr>Content := Content (w ! i)\<rparr>)" by (rule arg_cong)
  then show "map Role w ! i = map Role m ! i" using i by simp
qed

lemma roles_pinned: "map Role w = map Role m \<Longrightarrow> pinned_count w = pinned_count m"
proof -
  have "pinned_count x = length (takeWhile (\<lambda>r. r = ChatRoleSystem) (map Role x))" for x
    by (simp add: pinned_count_def takeWhile_map comp_def)
  then show "map Role w = map Role m \<Longrightarrow> pinned_count w = pinned_count m" by simp
qed

lemma roles_newest: "map Role w = map Role m \<Longrightarrow> newest_user w = newest_user m"
proof (induction w arbitrary: m)
  case (Cons x w)
  then obtain y m' where "m = y # m'" "Role x = Role y" "map Role w = map Role m'" by (cases m) auto
  then show ?case using Cons.IH [of m'] by simp
qed simp

lemma compress_rel_pinned: "compress_rel m w \<Longrightarrow> take (pinned_count m) w = take (pinned_count m) m"
proof (rule nth_equalityI)
  assume r: "compress_rel m w"
  then show "length (take (pinned_count m) w) = length (take (pinned_count m) m)" by (simp add: compress_rel_def)
  fix i assume "i < length (take (pinned_count m) w)"
  then have i: "i < pinned_count m" "i < length m" using r by (auto simp: compress_rel_def)
  then have "w ! i = m ! i" using r pinned_system [OF i(1)] by (simp add: compress_rel_def)
  then show "take (pinned_count m) w ! i = take (pinned_count m) m ! i" using i by simp
qed

lemma unchanged_suffix:
  assumes r: "compress_rel m w" and c: "count_changed w m k (length w) = 0"
  shows "drop k w = drop k m"
proof (rule nth_equalityI)
  show "length (drop k w) = length (drop k m)" using r by (simp add: compress_rel_def)
  fix i assume "i < length (drop k w)"
  then have i: "k + i < length w" "k + i < length m" using r by (simp_all add: compress_rel_def)
  have "Content (w ! (k + i)) = Content (m ! (k + i))"
    using c i by (auto simp: count_changed_def filter_empty_conv)
  moreover have "w ! (k + i) = (m ! (k + i))\<lparr>Content := Content (w ! (k + i))\<rparr>" using r i by (simp add: compress_rel_def)
  ultimately have "w ! (k + i) = m ! (k + i)" by simp
  then show "drop k w ! i = drop k m ! i" using i by simp
qed

section \<open>Selection\<close>

text \<open>The candidate that keeps the turns of \<open>base\<close> from \<open>j\<close> on.\<close>

definition keep_from :: "ChatMessage list \<Rightarrow> nat \<Rightarrow> ChatMessage list" where
  "keep_from base j = (case chatContextTurns base of (pinned, turns, _) \<Rightarrow> pinned @ concat (drop j turns))"

definition turn_count :: "ChatMessage list \<Rightarrow> nat" where
  "turn_count base = length (fst (snd (chatContextTurns base)))"

text \<open>The candidate the scan measures for turn \<open>j\<close>: the compressed one where that saves tokens.\<close>

definition cheaper :: "render \<Rightarrow> bool \<Rightarrow> ChatMessage list \<Rightarrow> ChatMessage list \<Rightarrow> nat \<Rightarrow> ChatMessage list" where
  "cheaper render hasC messages working j =
    fst (chosen render hasC messages working (pinned_count messages)
      (turn_start working (fst (snd (chatContextTurns working))) j))"

lemma turn_start_pick:
  assumes c: "chatContextTurns w = (pinned, turns, newest)" and u: "newest_user w = Some u" and r: "map Role b = map Role w"
  shows "pick b (pinned_count w) (turn_start w turns j) = take (pinned_count w) b @ drop (turn_start w turns j) b"
    and "drop (turn_start w turns j) w = concat (drop j turns)"
    and "pick w (pinned_count w) (turn_start w turns j) = keep_from w j"
proof -
  show "pick b (pinned_count w) (turn_start w turns j) = take (pinned_count w) b @ drop (turn_start w turns j) b"
    by (simp add: pick_def)
  note sh = chatContextTurns_shape [OF c u]
  have "concat turns = concat (take j turns) @ concat (drop j turns)" by (metis append_take_drop_id concat_append)
  then have "drop (pinned_count w) w = concat (take j turns) @ concat (drop j turns)" using sh by simp
  then have "drop (length (concat (take j turns))) (drop (pinned_count w) w) = concat (drop j turns)" by simp
  then show d: "drop (turn_start w turns j) w = concat (drop j turns)" by (simp add: turn_start_def add.commute)
  show "pick w (pinned_count w) (turn_start w turns j) = keep_from w j" using sh by (simp add: pick_def keep_from_def c d)
qed

lemma length_concat_rev: "length (concat (rev xs)) = length (concat xs)"
  by (induction xs) simp_all

lemma cw_select_spec:
  assumes rel: "compress_rel messages working" and plain: "\<not> hasC \<Longrightarrow> working = messages"
    and u: "newest_user messages = Some u"
  shows "case cw_select render want hasC messages working info of
      (Inl e, info', toks) \<Rightarrow> e = LatestTurnTooLarge
        \<and> int (length (render (cheaper render hasC messages working (turn_count working - 1)))) > PromptBudget info
    | (Inr kept, info', toks) \<Rightarrow> (\<exists>j < turn_count working. kept = cheaper render hasC messages working j
        \<and> (0 < j \<longrightarrow> int (length (render (cheaper render hasC messages working (j - 1)))) > PromptBudget info))
        \<and> PromptBudget info' = PromptBudget info \<and> PromptTokens info' = length (render kept)
        \<and> int (length (render kept)) \<le> PromptBudget info \<and> RetainedMessages info' = length kept
        \<and> DroppedMessages info' = int (length messages) - int (length kept)
        \<and> toks = (if want then Some (render kept) else None)"
proof -
  obtain pinned turns newest where c: "chatContextTurns working = (pinned, turns, newest)"
    by (cases "chatContextTurns working")
  have roles: "map Role working = map Role messages" by (rule compress_rel_roles [OF rel])
  have uw: "newest_user working = Some u" using roles_newest [OF roles] u by simp
  have pc: "pinned_count working = pinned_count messages" by (rule roles_pinned [OF roles])
  let ?n = "pinned_count messages"
  note sh = chatContextTurns_shape [OF c uw, unfolded pc]
  have pl: "length pinned = ?n" "?n \<le> length working" using sh pinned_count_le [of working] pc by simp_all
  have base: "scan_base hasC messages working pinned"
    using sh pl compress_rel_pinned [OF rel] rel by (simp add: scan_base_def compress_rel_def)
  let ?st = "scan_start hasC messages working (length working)"
  have ts: "take (nat (newest + 1)) turns = turns" using sh by simp
  have len: "length working = length pinned + length (concat (rev turns))"
  proof -
    have "length (concat (rev turns)) = length (concat turns)" by (rule length_concat_rev)
    also have "\<dots> = length working - ?n" using sh by simp
    finally show ?thesis using pl by simp
  qed
  have sl: "slabs hasC messages working pinned (length working) ?st" "sc_previousStart ?st = length working"
    using rel pl by (simp_all add: slabs_def scan_start_def slab_def count_changed_def compress_rel_def)
  note sp = scan_turns_spec [OF base, where ts = "rev turns" and newest = True and st = ?st and s = "length working"
      and render = render and budget = "PromptBudget info", OF _ sl len]
  have ne: "[] \<notin> set (rev turns)" "rev turns \<noteq> []" using sh by simp_all
  have start: "length pinned + length (concat (drop i (rev turns))) = turn_start working turns (length turns - i)" for i
    using pl pc by (simp add: turn_start_def drop_rev length_concat_rev)
  have tc: "turn_count working = length turns" by (simp add: turn_count_def c)
  have ch: "cheaper render hasC messages working j = fst (chosen render hasC messages working (length pinned) (turn_start working turns j))" for j
    by (simp add: cheaper_def c pl)
  show ?thesis
  proof (cases "scan_turns render hasC messages working pinned (PromptBudget info) True (rev turns) ?st")
    case (Inl n)
    have s1: "length pinned + length (concat (tl (rev turns))) = turn_start working turns (length turns - 1)"
      using start [of 1] by (simp add: drop_Suc)
    have "int n > PromptBudget info" "n = length (render (cheaper render hasC messages working (turn_count working - 1)))"
      using sp [OF ne(1)] unfolding Inl sum.case ch tc s1 [symmetric] by simp_all
    then show ?thesis by (simp add: cw_select_def c ts Inl)
  next
    case (Inr st')
    obtain i where i: "i \<le> length turns" "0 < i"
      "kept_at render hasC messages working pinned (PromptBudget info) (turn_start working turns (length turns - i)) st'"
      "\<exists>s' \<le> turn_start working turns (length turns - i). slabs hasC messages working pinned s' st'"
      "i < length turns \<longrightarrow> int (length (render (fst (chosen render hasC messages working (length pinned)
             (turn_start working turns (length turns - Suc i)))))) > PromptBudget info"
      using sp [OF ne(1)] ne(2) unfolding Inr sum.case start by auto
    let ?j = "length turns - i"
    let ?k = "turn_start working turns ?j"
    let ?c = "chosen render hasC messages working (length pinned) ?k"
    obtain s' where s': "s' \<le> ?k" "slabs hasC messages working pinned s' st'" using i(4) by blast
    have k: "sc_keptStart st' = int ?k" "?k < length working" "sc_keptCompressed st' = snd ?c" "sc_keptTokens st' = render (fst ?c)"
      "sc_tokens st' = length (render (fst ?c))" "int (length (render (fst ?c))) \<le> PromptBudget info"
      using i(3) by (simp_all add: kept_at_def Let_def)
    let ?b = "if hasC \<and> \<not> snd ?c then messages else working"
    let ?scratch = "if hasC \<and> \<not> sc_keptCompressed st' then sc_original st' else sc_scratch st'"
    obtain used where used: "snd ?c = used" by blast
    have scr: "?scratch = slab pinned ?b s'" using s'(2) unfolding k(3) used
      by (cases hasC; cases used) (simp_all add: slabs_def)
    have ps': "length pinned \<le> s'" using s'(2) by (simp add: slabs_def)
    have lb: "?k < length ?b" using k(2) rel by (simp add: compress_rel_def)
    have kept: "drop (?k - length pinned) (if length pinned > 0 then copy_into ?scratch (?k - length pinned) pinned else ?scratch)
        = pinned @ drop ?k ?b"
      unfolding scr by (rule slab_kept [OF ps' s'(1) lb])
    have "pinned @ drop ?k ?b = pick ?b (length pinned) ?k" using base by (auto simp: scan_base_def pick_def)
    also have "\<dots> = fst ?c"
      using unchanged_suffix [OF rel, of ?k] compress_rel_pinned [OF rel] pl
      by (auto simp: chosen_def pick_def)
    finally have kept': "pinned @ drop ?k ?b = cheaper render hasC messages working ?j" by (simp add: ch)
    have j: "?j < turn_count working" using i ne by (simp add: tc)
    have older: "0 < ?j \<longrightarrow> int (length (render (cheaper render hasC messages working (?j - 1)))) > PromptBudget info"
      using i(5) by (simp add: ch)
    have res: "cw_select render want hasC messages working info =
        (let info = info\<lparr>PromptTokens := sc_tokens st', CompressedMessages := sc_compressed st'\<rparr>; kept = pinned @ drop ?k ?b in
         (Inr kept, info\<lparr>RetainedMessages := length kept, DroppedMessages := int (length messages) - int (length kept)\<rparr>,
           if want then Some (sc_keptTokens st') else None))"
      unfolding cw_select_def c prod.case ts Inr sum.case Let_def k(1) nat_int kept by simp
    show ?thesis unfolding res kept' Let_def using j older k ch [of ?j] by auto
  qed
qed

end
