(* ===== verification/Context_Contract.thy ===== *)
theory Context_Contract
  imports Context_Window_Laws "HOL-Library.Code_Target_Nat"
begin

text \<open>
  The properties of context selection: turns partition the history, compression is conservative, and a
  bounded request gets whole turns that fit the budget, as many as fit, or a definite error.
\<close>

section \<open>Turns depend on the roles only\<close>

lemma turn_fold_roles:
  assumes "map Role w = map Role m" "map (map Role) ts = map (map Role) ts'" "\<forall>i \<in> set is. i < length m"
  shows "\<exists>us us' s nw. foldl (turn_step w) (ts, start, newest) is = (us, s, nw)
    \<and> foldl (turn_step m) (ts', start, newest) is = (us', s, nw) \<and> map (map Role) us = map (map Role) us'"
  using assms(2,3)
proof (induction "is" arbitrary: ts ts' start newest)
  case (Cons i "is")
  have l: "length w = length m" using assms(1) by (rule map_eq_imp_length_eq)
  have r: "Role (w ! i) = Role (m ! i)" using Cons.prems(2) l assms(1) by (metis list.set_intros(1) nth_map)
  have lt: "length ts = length ts'" using Cons.prems(1) by (rule map_eq_imp_length_eq)
  have sub: "map Role (sublst w start i) = map Role (sublst m start i)"
    using assms(1) by (simp add: sublst_def take_map [symmetric] drop_map [symmetric])
  show ?case
  proof (cases "Role (m ! i) = ChatRoleUser")
    case False
    then show ?thesis using Cons r by (simp add: turn_step_def)
  next
    case True
    show ?thesis
    proof (cases "start < i")
      case True
      then show ?thesis using \<open>Role (m ! i) = ChatRoleUser\<close> r lt Cons.prems sub
          Cons.IH [of "ts @ [sublst w start i]" "ts' @ [sublst m start i]" i "int (Suc (length ts'))"]
        by (simp add: turn_step_def)
    next
      case False
      then show ?thesis using \<open>Role (m ! i) = ChatRoleUser\<close> r lt Cons.prems
          Cons.IH [of ts ts' i "int (length ts')"] by (simp add: turn_step_def)
    qed
  qed
qed simp

lemma turns_roles:
  assumes "map Role w = map Role m"
  shows "map (map Role) (fst (snd (chatContextTurns w))) = map (map Role) (fst (snd (chatContextTurns m)))"
proof -
  have p: "pinned_count w = pinned_count m" by (rule roles_pinned [OF assms])
  have l: "length w = length m" using assms by (rule map_eq_imp_length_eq)
  obtain us us' s nw where f: "foldl (turn_step w) ([], pinned_count m, - 1) [pinned_count m..<length m] = (us, s, nw)"
      "foldl (turn_step m) ([], pinned_count m, - 1) [pinned_count m..<length m] = (us', s, nw)"
      "map (map Role) us = map (map Role) us'"
    using turn_fold_roles [OF assms, of "[]" "[]" "[pinned_count m..<length m]" "pinned_count m" "- 1"] by auto
  have "map Role (drop s w) = map Role (drop s m)" using assms by (simp add: drop_map [symmetric])
  then show ?thesis using f l by (simp add: chatContextTurns_def p)
qed

lemma turn_start_roles:
  assumes "map Role w = map Role m"
  shows "turn_start w (fst (snd (chatContextTurns w))) j = turn_start m (fst (snd (chatContextTurns m))) j"
    and "turn_count w = turn_count m"
proof -
  have len: "map length (fst (snd (chatContextTurns w))) = map length (fst (snd (chatContextTurns m)))"
    using arg_cong [OF turns_roles [OF assms], of "map length"] by (simp add: comp_def)
  then show "turn_start w (fst (snd (chatContextTurns w))) j = turn_start m (fst (snd (chatContextTurns m))) j"
    using roles_pinned [OF assms] by (simp add: turn_start_def length_concat take_map [symmetric])
  show "turn_count w = turn_count m" using map_eq_imp_length_eq [OF len] by (simp add: turn_count_def)
qed

lemma cheaper_keep:
  assumes rel: "compress_rel messages working" and plain: "\<not> hasC \<Longrightarrow> working = messages" and u: "newest_user messages = Some u"
  shows "cheaper render hasC messages working j = keep_from messages j \<or> cheaper render hasC messages working j = keep_from working j"
    and "\<not> hasC \<Longrightarrow> cheaper render hasC messages working j = keep_from messages j"
proof -
  have roles: "map Role working = map Role messages" by (rule compress_rel_roles [OF rel])
  have pc: "pinned_count working = pinned_count messages" by (rule roles_pinned [OF roles])
  have uw: "newest_user working = Some u" using roles_newest [OF roles] u by simp
  have ts: "turn_start working (fst (snd (chatContextTurns working))) j = turn_start messages (fst (snd (chatContextTurns messages))) j"
    by (rule turn_start_roles(1) [OF roles])
  obtain p t n where c: "chatContextTurns working = (p, t, n)" by (cases "chatContextTurns working")
  obtain p' t' n' where c': "chatContextTurns messages = (p', t', n')" by (cases "chatContextTurns messages")
  have k: "pick working (pinned_count messages) (turn_start working t j) = keep_from working j"
    using turn_start_pick(3) [OF c uw refl, of j] pc by simp
  have k': "pick messages (pinned_count messages) (turn_start working t j) = keep_from messages j"
    using turn_start_pick(3) [OF c' u refl, of j] ts c c' by simp
  show "cheaper render hasC messages working j = keep_from messages j \<or> cheaper render hasC messages working j = keep_from working j"
    by (simp add: cheaper_def chosen_def c k k')
  show "cheaper render hasC messages working j = keep_from messages j" if "\<not> hasC"
  proof -
    have "cheaper render hasC messages working j = keep_from working j" using that k by (simp add: cheaper_def chosen_def c)
    then show ?thesis using plain [OF that] by simp
  qed
qed

lemma keep_all:
  assumes "newest_user messages = Some u"
  shows "keep_from messages 0 = messages \<and> 0 < turn_count messages"
proof -
  obtain p t n where c: "chatContextTurns messages = (p, t, n)" by (cases "chatContextTurns messages")
  show ?thesis using chatContextTurns_shape [OF c assms] by (simp add: keep_from_def turn_count_def c)
qed

section \<open>Bounded preparation\<close>

definition cw_fits :: "render \<Rightarrow> bool \<Rightarrow> ChatMessage list \<Rightarrow> int \<Rightarrow> ChatMessage list \<Rightarrow> ContextWindowInfo \<Rightarrow> nat list option \<Rightarrow> bool" where
  "cw_fits render want messages budget kept info toks \<longleftrightarrow>
     PromptBudget info = budget \<and> PromptTokens info = length (render kept) \<and> int (length (render kept)) \<le> budget
     \<and> RetainedMessages info = length kept \<and> int (length messages) = int (RetainedMessages info) + DroppedMessages info
     \<and> toks = (if want then Some (render kept) else None)"

text \<open>Everything the bounded modes can return.\<close>

lemma cw_bounded_spec:
  assumes u: "newest_user messages = Some u" and z: "DroppedMessages info = 0"
  shows "case cw_bounded render want auto messages info of
      (Inl e, info', toks) \<Rightarrow> e = LatestTurnTooLarge
        \<and> (\<not> auto \<longrightarrow> int (length (render (keep_from messages (turn_count messages - 1)))) > PromptBudget info)
    | (Inr kept, info', toks) \<Rightarrow> cw_fits render want messages (PromptBudget info) kept info' toks
        \<and> (\<exists>base \<in> {messages, fst (autoCompressChatMessages messages)}. \<exists>j < turn_count messages. kept = keep_from base j)
        \<and> (\<not> auto \<longrightarrow> (\<exists>j < turn_count messages. kept = keep_from messages j
             \<and> (0 < j \<longrightarrow> int (length (render (keep_from messages (j - 1)))) > PromptBudget info)))"
proof -
  let ?comp = "fst (autoCompressChatMessages messages)"
  note rel = autoCompress_rel [of messages]
  have tc: "turn_count ?comp = turn_count messages" by (rule turn_start_roles(2) [OF compress_rel_roles [OF rel]])
  have uc: "newest_user ?comp = Some u" using roles_newest [OF compress_rel_roles [OF rel]] u by simp
  have lc: "length ?comp = length messages" by (rule autoCompress_length)
  note all = keep_all [OF u] keep_all [OF uc]
  have fits: "cw_fits render want messages (PromptBudget info) ms
      (info\<lparr>PromptTokens := length (render ms), RetainedMessages := length ms, CompressedMessages := n\<rparr>)
      (if want then Some (render ms) else None)" if "int (length (render ms)) \<le> PromptBudget info" "length ms = length messages" for ms n
    using that z by (simp add: cw_fits_def)
  have sel: "case cw_select render want False messages messages info of
      (Inl e, info', toks) \<Rightarrow> e = LatestTurnTooLarge
        \<and> int (length (render (keep_from messages (turn_count messages - 1)))) > PromptBudget info
    | (Inr kept, info', toks) \<Rightarrow> cw_fits render want messages (PromptBudget info) kept info' toks
        \<and> (\<exists>j < turn_count messages. kept = keep_from messages j
             \<and> (0 < j \<longrightarrow> int (length (render (keep_from messages (j - 1)))) > PromptBudget info))"
    using cw_select_spec [OF compress_rel_refl refl u, where hasC = False and render = render and want = want and info = info]
      cheaper_keep(2) [OF compress_rel_refl refl u, where hasC = False and render = render]
    by (cases "cw_select render want False messages messages info" rule: prod_cases3;
        cases "fst (cw_select render want False messages messages info)") (auto simp: cw_fits_def)
  have selc: "case cw_select render want True messages ?comp info of
      (Inl e, info', toks) \<Rightarrow> e = LatestTurnTooLarge
    | (Inr kept, info', toks) \<Rightarrow> cw_fits render want messages (PromptBudget info) kept info' toks
        \<and> (\<exists>base \<in> {messages, ?comp}. \<exists>j < turn_count messages. kept = keep_from base j)"
    using cw_select_spec [OF rel _ u, where hasC = True and render = render and want = want and info = info] cheaper_keep(1) [OF rel _ u, where hasC = True and render = render]
    by (cases "cw_select render want True messages ?comp info" rule: prod_cases3;
        cases "fst (cw_select render want True messages ?comp info)") (auto simp: cw_fits_def tc)
  consider (full) "(auto \<or> tryFullChatContextProbe messages (PromptBudget info)) \<and> int (length (render messages)) \<le> PromptBudget info"
    | (plain) "\<not> ((auto \<or> tryFullChatContextProbe messages (PromptBudget info)) \<and> int (length (render messages)) \<le> PromptBudget info)"
        "\<not> auto \<or> snd (autoCompressChatMessages messages) = 0"
    | (comp) "\<not> ((auto \<or> tryFullChatContextProbe messages (PromptBudget info)) \<and> int (length (render messages)) \<le> PromptBudget info)"
        "auto" "snd (autoCompressChatMessages messages) > 0"
    by auto
  then show ?thesis
  proof cases
    case full
    then have "cw_bounded render want auto messages info = (Inr messages,
        info\<lparr>PromptTokens := length (render messages), RetainedMessages := length messages, CompressedMessages := 0\<rparr>,
        if want then Some (render messages) else None)"
      by (simp add: cw_bounded_def Let_def)
    moreover have "\<exists>j < turn_count messages. messages = keep_from messages j
        \<and> (0 < j \<longrightarrow> int (length (render (keep_from messages (j - 1)))) > PromptBudget info)"
      using all by (intro exI [of _ 0]) simp
    ultimately show ?thesis using fits [of messages 0] full by auto
  next
    case plain
    then have "cw_bounded render want auto messages info = cw_select render want False messages messages info"
      by (cases "autoCompressChatMessages messages") (auto simp: cw_bounded_def Let_def)
    then show ?thesis using sel
      by (cases "cw_select render want False messages messages info" rule: prod_cases3;
          cases "fst (cw_select render want False messages messages info)") auto
  next
    case comp
    show ?thesis
    proof (cases "tryFullChatContextProbe ?comp (PromptBudget info) \<and> length (render ?comp) < length (render messages)
        \<and> int (length (render ?comp)) \<le> PromptBudget info")
      case True
      then have "cw_bounded render want auto messages info = (Inr ?comp,
          info\<lparr>PromptTokens := length (render ?comp), RetainedMessages := length ?comp,
            CompressedMessages := snd (autoCompressChatMessages messages)\<rparr>,
          if want then Some (render ?comp) else None)"
        using comp by (cases "autoCompressChatMessages messages") (simp add: cw_bounded_def Let_def)
      moreover have "\<exists>j < turn_count messages. ?comp = keep_from ?comp j" using all tc by (intro exI [of _ 0]) simp
      ultimately show ?thesis using fits [of ?comp] True comp(2) lc by auto
    next
      case False
      then have "cw_bounded render want auto messages info = cw_select render want True messages ?comp info"
        using comp by (cases "autoCompressChatMessages messages") (auto simp: cw_bounded_def Let_def)
      then show ?thesis using selc comp(2)
        by (cases "cw_select render want True messages ?comp info" rule: prod_cases3;
            cases "fst (cw_select render want True messages ?comp info)") auto
    qed
  qed
qed

section \<open>The properties\<close>

text \<open>
  Turns partition the history: the pinned messages followed by the turns are the history, no turn
  is empty, the pinned messages are the leading system messages, and with a user message present every
  turn except possibly the first starts with a user message, the last one with the newest. So a cut
  between turns never separates an assistant's tool calls from their results.
\<close>

theorem chatContextTurns_partition:
  assumes "chatContextTurns messages = (pinned, turns, newest)" "newest_user messages = Some u"
  shows "pinned @ concat turns = messages \<and> [] \<notin> set turns \<and> (\<forall>m \<in> set pinned. Role m = ChatRoleSystem)
    \<and> newest = int (length turns) - 1 \<and> hd (last turns) = messages ! u
    \<and> (\<forall>j < length turns. 0 < j \<longrightarrow> Role (hd (turns ! j)) = ChatRoleUser)"
proof -
  note sh = chatContextTurns_shape [OF assms]
  have pc: "\<forall>m \<in> set pinned. Role m = ChatRoleSystem"
    using sh by (auto simp: pinned_count_def dest: set_takeWhileD simp flip: takeWhile_eq_take)
  have hd: "hd (turns ! j) = messages ! turn_start messages turns j" if "j < length turns" for j
  proof -
    have "drop (turn_start messages turns j) messages = turns ! j @ concat (drop (Suc j) turns)"
      using turn_start_pick(2) [OF assms refl, of j] Cons_nth_drop_Suc [OF that] by (metis concat.simps(2))
    moreover have "turns ! j \<noteq> []" using sh that by (metis nth_mem)
    ultimately have "hd (turns ! j) = hd (drop (turn_start messages turns j) messages)" "turn_start messages turns j < length messages"
      by (auto intro: ccontr)
    then show ?thesis by (simp add: hd_drop_conv_nth)
  qed
  have first: "turn_start messages turns j \<noteq> pinned_count messages" if "0 < j" "j < length turns" for j
  proof -
    have "take j turns \<noteq> []" "[] \<notin> set (take j turns)" using that sh by (auto dest: in_set_takeD)
    then have "concat (take j turns) \<noteq> []" by (cases "take j turns") auto
    then show ?thesis by (simp add: turn_start_def)
  qed
  have users: "\<forall>j < length turns. 0 < j \<longrightarrow> Role (hd (turns ! j)) = ChatRoleUser" using sh hd first by metis
  have "hd (last turns) = messages ! u" using sh hd [of "length turns - 1"] by (simp add: last_conv_nth)
  then show ?thesis using sh pc users by (simp add: append_take_drop_id)
qed

definition say :: "ChatRole \<Rightarrow> string \<Rightarrow> ChatMessage" where
  "say r c = \<lparr>Role = r, Content = c, Images = [], ToolCalls = [], ToolCallID = [], msg_Name = []\<rparr>"

definition sample_chat :: "ChatMessage list" where
  "sample_chat = [say ChatRoleSystem ''s'', say ChatRoleUser ''a'', say ChatRoleAssistant ''b'', say ChatRoleUser ''c'']"

lemma chatContextTurns_partition_witness:
  "take 1 sample_chat @ concat [sublst sample_chat 1 3, drop 3 sample_chat] = sample_chat"
  by (rule chatContextTurns_partition [THEN conjunct1, of _ _ _ 1 3]) code_simp+

text \<open>
  Compression is conservative: the compressed history has the same length, and a message differs
  from the original only if it is assistant prose without tool calls, images or markup before the
  newest user message; then only its content differs, which is shorter and not empty. The count is the
  number of changed messages.
\<close>

theorem autoCompress_conservative:
  "autoCompressChatMessages messages = (compressed, changed) \<longrightarrow>
    length compressed = length messages \<and> changed = length (filter (\<lambda>i. compressed ! i \<noteq> messages ! i) [0..<length messages])
    \<and> (\<forall>i < length messages. compressed ! i = messages ! i \<or>
        (Role (messages ! i) = ChatRoleAssistant \<and> ToolCalls (messages ! i) = [] \<and> Images (messages ! i) = []
          \<and> (\<exists>j. i < j \<and> (newest_user messages = Some j \<or> newest_user messages = None \<and> j = length messages))
          \<and> compressed ! i = (messages ! i)\<lparr>Content := Content (compressed ! i)\<rparr>
          \<and> Content (compressed ! i) \<noteq> [] \<and> length (Content (compressed ! i)) < length (Content (messages ! i))))"
proof
  assume c: "autoCompressChatMessages messages = (compressed, changed)"
  let ?n = "case newest_user messages of Some i \<Rightarrow> i | None \<Rightarrow> length messages"
  have nth: "compressed ! i = fst (compress_one ?n i (messages ! i))" if "i < length messages" for i
    using autoCompress_nth [OF that] c by simp
  have d: "snd (compress_one ?n i (messages ! i)) = (if compressed ! i \<noteq> messages ! i then 1 else 0)" if "i < length messages" for i
    using compress_one_cases [of ?n i "messages ! i" "fst (compress_one ?n i (messages ! i))" "snd (compress_one ?n i (messages ! i))"]
      nth [OF that] by auto
  have "changed = sum_list (map (\<lambda>i. snd (compress_one ?n i (messages ! i))) [0..<length messages])"
  proof -
    have "zip [0..<length messages] messages = map (\<lambda>i. (i, messages ! i)) [0..<length messages]"
      by (rule nth_equalityI) simp_all
    then show ?thesis using c by (auto simp: autoCompressChatMessages_def Let_def comp_def)
  qed
  also have "\<dots> = sum_list (map (\<lambda>i. if compressed ! i \<noteq> messages ! i then 1 else 0) [0..<length messages])"
    by (rule arg_cong [where f = sum_list], rule map_cong [OF refl]) (simp add: d)
  also have "\<dots> = length (filter (\<lambda>i. compressed ! i \<noteq> messages ! i) [0..<length messages])"
    by (simp add: sum_list_map_filter' [symmetric] sum_list_triv)
  finally have cnt: "changed = length (filter (\<lambda>i. compressed ! i \<noteq> messages ! i) [0..<length messages])" .
  have each: "compressed ! i = messages ! i \<or>
        (Role (messages ! i) = ChatRoleAssistant \<and> ToolCalls (messages ! i) = [] \<and> Images (messages ! i) = []
          \<and> (\<exists>j. i < j \<and> (newest_user messages = Some j \<or> newest_user messages = None \<and> j = length messages))
          \<and> compressed ! i = (messages ! i)\<lparr>Content := Content (compressed ! i)\<rparr>
          \<and> Content (compressed ! i) \<noteq> [] \<and> length (Content (compressed ! i)) < length (Content (messages ! i)))"
    if i: "i < length messages" for i
  proof -
    obtain m' e where o: "compress_one ?n i (messages ! i) = (m', e)" by (cases "compress_one ?n i (messages ! i)")
    have m': "compressed ! i = m'" using nth [OF i] o by simp
    show ?thesis using compress_one_cases [OF o] unfolding m'
      by (cases "newest_user messages") (auto simp: compressible_def)
  qed
  show "length compressed = length messages \<and> changed = length (filter (\<lambda>i. compressed ! i \<noteq> messages ! i) [0..<length messages])
    \<and> (\<forall>i < length messages. compressed ! i = messages ! i \<or>
        (Role (messages ! i) = ChatRoleAssistant \<and> ToolCalls (messages ! i) = [] \<and> Images (messages ! i) = []
          \<and> (\<exists>j. i < j \<and> (newest_user messages = Some j \<or> newest_user messages = None \<and> j = length messages))
          \<and> compressed ! i = (messages ! i)\<lparr>Content := Content (compressed ! i)\<rparr>
          \<and> Content (compressed ! i) \<noteq> [] \<and> length (Content (compressed ! i)) < length (Content (messages ! i))))"
    using autoCompress_length [of messages] c cnt each by simp
qed

lemma sample_compress:
  "autoCompressChatMessages [say ChatRoleUser ''q'', say ChatRoleAssistant ''for example this'', say ChatRoleUser ''r'']
    = ([say ChatRoleUser ''q'', say ChatRoleAssistant ''e.g. this'', say ChatRoleUser ''r''], 1)"
  by code_simp

lemma autoCompress_conservative_witness:
  "(1 :: nat) = length (filter (\<lambda>i. [say ChatRoleUser ''q'', say ChatRoleAssistant ''e.g. this'', say ChatRoleUser ''r''] ! i
    \<noteq> [say ChatRoleUser ''q'', say ChatRoleAssistant ''for example this'', say ChatRoleUser ''r''] ! i)
      [0..<length [say ChatRoleUser ''q'', say ChatRoleAssistant ''for example this'', say ChatRoleUser ''r'']])"
  by (rule autoCompress_conservative [rule_format, OF sample_compress, THEN conjunct2, THEN conjunct1])

lemma prepare_bounded:
  assumes "prepareChatContext render maxSeqLen opts destination messages = (res, info, toks)"
    and "opt_mode opts = ''recent'' \<or> opt_mode opts = ''autoCompress''"
    and "res \<noteq> Inl BadContextLength" "res \<noteq> Inl NoFIM" "res \<noteq> Inl CannotReserve" "res \<noteq> Inl NoUserMessage"
  obtains info0 u where
    "cw_bounded render (destination \<and> opt_FIMSuffix opts = [] \<and> list_all (\<lambda>m. Images m = []) messages) (opt_mode opts = ''autoCompress'') messages info0
       = (res, info, toks)"
    "opt_FIMSuffix opts = []" "newest_user messages = Some u" "DroppedMessages info0 = 0"
    "PromptBudget info0 = maxSeqLen - (max 1 (opt_MaxTokens opts) + 8)"
  using assms by (auto simp: prepareChatContext_def normalizedContextWindowMode_def contextWindowSafetyTokens_def Let_def
        split: if_splits)

text \<open>
  C12. Whatever a bounded mode returns fits and is made of whole turns: the prompt budget is the context
  length less the requested completion (at least one token) and the safety margin, the reported prompt
  tokens are those of the returned messages and within the budget, retained and dropped messages add up
  to the input, the tokens handed back are the rendering of exactly the returned messages, and these are
  the pinned system messages and the newest turns of the history or of its compression.
\<close>

theorem prepareChatContext_fits:
  assumes "prepareChatContext render maxSeqLen opts destination messages = (Inr kept, info, toks)"
    and "opt_mode opts = ''recent'' \<or> opt_mode opts = ''autoCompress''"
  shows "cw_fits render (destination \<and> list_all (\<lambda>m. Images m = []) messages) messages
      (maxSeqLen - (max 1 (opt_MaxTokens opts) + 8)) kept info toks
    \<and> (\<exists>base \<in> {messages, fst (autoCompressChatMessages messages)}. \<exists>j < turn_count messages. kept = keep_from base j)"
proof (rule prepare_bounded [OF assms], simp_all)
  fix info0 u
  assume b: "cw_bounded render (destination \<and> list_all (\<lambda>m. Images m = []) messages) (opt_mode opts = ''autoCompress'') messages info0 = (Inr kept, info, toks)"
    "newest_user messages = Some u" "DroppedMessages info0 = 0" "PromptBudget info0 = maxSeqLen - (max 1 (opt_MaxTokens opts) + 8)"
  show "cw_fits render (destination \<and> list_all (\<lambda>m. Images m = []) messages) messages
      (maxSeqLen - (max 1 (opt_MaxTokens opts) + 8)) kept info toks
    \<and> ((\<exists>j < turn_count messages. kept = keep_from messages j)
      \<or> (\<exists>j < turn_count messages. kept = keep_from (fst (autoCompressChatMessages messages)) j))"
    using cw_bounded_spec [OF b(2,3), where render = render and want = "destination \<and> list_all (\<lambda>m. Images m = []) messages"
        and auto = "opt_mode opts = ''autoCompress''"] b(1,4) by auto
qed

definition three_per_message :: render where
  "three_per_message ms = replicate (3 * length ms) 0"

lemma sample_prepare:
  "prepareChatContext three_per_message 18 \<lparr>opt_mode = ''recent'', opt_FIMSuffix = [], opt_MaxTokens = 1\<rparr> True sample_chat
    = (Inr [say ChatRoleSystem ''s'', say ChatRoleUser ''c''],
       \<lparr>InfoMode = ''recent'', ContextLength = 18, PromptBudget = 9, PromptTokens = 6, InputMessages = 4,
         RetainedMessages = 2, DroppedMessages = 2, CompressedMessages = 0\<rparr>, Some [0, 0, 0, 0, 0, 0])"
  by code_simp

lemma prepareChatContext_fits_witness:
  "\<exists>j < turn_count sample_chat. [say ChatRoleSystem ''s'', say ChatRoleUser ''c''] = keep_from sample_chat j
     \<or> [say ChatRoleSystem ''s'', say ChatRoleUser ''c''] = keep_from (fst (autoCompressChatMessages sample_chat)) j"
  using prepareChatContext_fits [OF sample_prepare] by auto

text \<open>
  C13. The recent mode keeps as many turns as fit: on success no older turn could be added within the
  budget, and the only failures once the request itself is sound (a positive budget, a user message, no
  FIM suffix) is that the newest turn with the pinned messages exceeds the budget. It never rewrites a
  message.
\<close>

theorem recent_maximal:
  assumes "prepareChatContext render maxSeqLen opts destination messages = (res, info, toks)"
    and "opt_mode opts = ''recent''" "opt_FIMSuffix opts = []" "newest_user messages \<noteq> None"
    and "max 1 (opt_MaxTokens opts) \<le> max_int - 8" "budget = maxSeqLen - (max 1 (opt_MaxTokens opts) + 8)" "1 \<le> budget"
  shows "(res = Inl LatestTurnTooLarge \<and> budget < int (length (render (keep_from messages (turn_count messages - 1)))))
    \<or> (\<exists>j < turn_count messages. res = Inr (keep_from messages j) \<and> int (length (render (keep_from messages j))) \<le> budget
         \<and> (0 < j \<longrightarrow> budget < int (length (render (keep_from messages (j - 1))))))"
proof -
  have n: "res \<noteq> Inl BadContextLength" "res \<noteq> Inl NoFIM" "res \<noteq> Inl CannotReserve" "res \<noteq> Inl NoUserMessage"
  proof -
    let ?want = "destination \<and> opt_FIMSuffix opts = [] \<and> list_all (\<lambda>m. Images m = []) messages"
    have "\<exists>info0. cw_bounded render ?want False messages info0 = (res, info, toks) \<and> DroppedMessages info0 = 0"
      using assms by (auto simp: prepareChatContext_def normalizedContextWindowMode_def contextWindowSafetyTokens_def Let_def
        split: if_splits)
    then obtain info0 where i: "cw_bounded render ?want False messages info0 = (res, info, toks)" "DroppedMessages info0 = 0" by blast
    obtain u where "newest_user messages = Some u" using assms(4) by blast
    from cw_bounded_spec [OF this i(2), where render = render and want = ?want and auto = False] i(1)
    show "res \<noteq> Inl BadContextLength" "res \<noteq> Inl NoFIM" "res \<noteq> Inl CannotReserve" "res \<noteq> Inl NoUserMessage"
      by (auto split: sum.splits)
  qed
  have m: "opt_mode opts = ''recent'' \<or> opt_mode opts = ''autoCompress''" using assms(2) by simp
  show ?thesis
  proof (rule prepare_bounded [OF assms(1) m n])
    fix info0 u
    let ?want = "destination \<and> opt_FIMSuffix opts = [] \<and> list_all (\<lambda>m. Images m = []) messages"
    assume b: "cw_bounded render ?want (opt_mode opts = ''autoCompress'') messages info0 = (res, info, toks)"
      "newest_user messages = Some u" "DroppedMessages info0 = 0" "PromptBudget info0 = maxSeqLen - (max 1 (opt_MaxTokens opts) + 8)"
    have na: "\<not> opt_mode opts = ''autoCompress''" using assms(2) by simp
    from cw_bounded_spec [OF b(2,3), where render = render and want = ?want and auto = "opt_mode opts = ''autoCompress''"]
      b(1,4) assms(6) na show ?thesis by (cases res) (auto simp: cw_fits_def)
  qed
qed

lemma recent_maximal_witness:
  "\<exists>j < turn_count sample_chat. Inr [say ChatRoleSystem ''s'', say ChatRoleUser ''c''] = (Inr (keep_from sample_chat j) :: cw_error + ChatMessage list)
     \<and> (0 < j \<longrightarrow> 9 < int (length (three_per_message (keep_from sample_chat (j - 1)))))"
proof -
  have "newest_user sample_chat \<noteq> None" by code_simp
  then show ?thesis
    using recent_maximal [OF sample_prepare, of 9] by (auto simp: max_int_def)
qed

end
