(* ===== verification/Rag_Chunk.thy ===== *)
theory Rag_Chunk
  imports Tokenizer "HOL-Library.Multiset"
begin

text \<open>
  Cutting a document into retrieval chunks (\<^verbatim>\<open>rag/chunk.go\<close>): paragraphs, sentences, words and hard
  cuts, packed into windows of at most a given number of units with some overlap.

  A span is a pair of byte offsets. The counting unit is a parameter \<open>ul\<close> of the helpers and is
  \<open>unitLen\<close>, runes or model tokens, in \<open>Split\<close>.
\<close>

type_synonym span = "nat \<times> nat"
type_synonym units = "string \<Rightarrow> nat"

record Doc =
  doc_ID :: string
  doc_Title :: string
  doc_Path :: string
  doc_Text :: string
  doc_Time :: "int option"
  doc_Kind :: string
  doc_Meta :: "(string \<rightharpoonup> string) option"

record Chunk =
  chunk_DocID :: string
  chunk_Index :: nat
  chunk_Text :: string
  chunk_Start :: nat
  chunk_End :: nat

record Chunker =
  MaxRunes :: int
  OverlapRunes :: int
  MinRunes :: int
  chunker_Tokenizer :: "Tokenizer option"
  TitlePrefix :: bool

definition maxSize :: "Chunker \<Rightarrow> nat" where
  "maxSize c = (if MaxRunes c > 0 then nat (MaxRunes c) else 800)"

definition overlap :: "Chunker \<Rightarrow> nat" where
  "overlap c = (if OverlapRunes c > 0 then nat (OverlapRunes c) else 120)"

definition effectiveOverlap :: "Chunker \<Rightarrow> nat" where
  "effectiveOverlap c = (if overlap c \<le> maxSize c div 2 then overlap c else maxSize c div 2)"

definition minSize :: "Chunker \<Rightarrow> nat" where
  "minSize c = (if MinRunes c > 0 then nat (MinRunes c) else 200)"

definition unitLen :: "nat \<Rightarrow> unicode_tables \<Rightarrow> (rune \<Rightarrow> rune) \<Rightarrow> Chunker \<Rightarrow> units" where
  "unitLen scanMax u strip c s = (case chunker_Tokenizer c of
     Some t \<Rightarrow> length (EncodeWithoutBOS scanMax u strip t s)
   | None \<Rightarrow> length (runes s))"

text \<open>\<open>text[s.start:s.end]\<close>\<close>

definition cut :: "string \<Rightarrow> span \<Rightarrow> string" where
  "cut content s = sublst content (fst s) (snd s)"

section \<open>Splitting at bytes\<close>

definition isSpace :: "char \<Rightarrow> bool" where
  "isSpace b \<longleftrightarrow> b = CHR '' '' \<or> b = CHR 0x09 \<or> b = CHR 0x0A \<or> b = CHR 0x0D"

text \<open>\<open>unicode.IsSpace(rune(text[i]))\<close>: the byte is read as a code point.\<close>

definition byte_space :: "char \<Rightarrow> bool" where
  "byte_space b \<longleftrightarrow> IsSpace (ord b)"

function trim_left :: "string \<Rightarrow> span \<Rightarrow> span" where
  "trim_left content (s, e) = (if s < e \<and> byte_space (content ! s) then trim_left content (Suc s, e) else (s, e))"
  by pat_completeness auto
termination by (relation "measure (\<lambda>(_, s, e). e - s)") auto

fun trim_right :: "string \<Rightarrow> nat \<Rightarrow> nat \<Rightarrow> nat" where
  "trim_right content s 0 = 0"
| "trim_right content s (Suc e) = (if s < Suc e \<and> byte_space (content ! e) then trim_right content s e else Suc e)"

definition trimSpan :: "string \<Rightarrow> span \<Rightarrow> span" where
  "trimSpan content sp = (let (s, e) = trim_left content sp in (s, trim_right content s e))"

text \<open>\<open>for j < len(text) && (text[j] == '\\n' || text[j] == '\\r') { j++ }\<close>\<close>

function skip_breaks :: "string \<Rightarrow> nat \<Rightarrow> nat" where
  "skip_breaks content j =
    (if j < length content \<and> (content ! j = CHR 0x0A \<or> content ! j = CHR 0x0D) then skip_breaks content (Suc j) else j)"
  by pat_completeness auto
termination by (relation "measure (\<lambda>(content, j). length content - j)") auto

declare trim_left.simps [simp del] skip_breaks.simps [simp del]

definition add_trimmed :: "string \<Rightarrow> span list \<Rightarrow> span \<Rightarrow> span list" where
  "add_trimmed content spans s = (let t = trimSpan content s in if snd t > fst t then spans @ [t] else spans)"

lemma skip_breaks_ge: "j \<le> skip_breaks content j"
  by (induction content j rule: skip_breaks.induct) (subst skip_breaks.simps, auto)

lemma skip_breaks_step: "i < length content \<Longrightarrow> content ! i = CHR 0x0A \<Longrightarrow> i < skip_breaks content i"
  using skip_breaks_ge [of "Suc i" content] by (subst skip_breaks.simps) simp

function paragraphs_loop :: "string \<Rightarrow> nat \<Rightarrow> nat \<Rightarrow> span list \<Rightarrow> span list" where
  "paragraphs_loop content start i spans =
    (if i < length content then
       (if content ! i = CHR 0x0A then
          (let j = skip_breaks content i in
           if count_list (sublst content i j) (CHR 0x0A) \<ge> 2
           then paragraphs_loop content j j (add_trimmed content spans (start, i))
           else paragraphs_loop content start j spans)
        else paragraphs_loop content start (Suc i) spans)
     else add_trimmed content spans (start, length content))"
  by pat_completeness auto
termination
  by (relation "measure (\<lambda>(content, start, i, spans). length content - i)")
    (auto dest!: skip_breaks_step intro!: diff_less_mono2)

declare paragraphs_loop.simps [simp del]

definition splitParagraphs :: "string \<Rightarrow> span list" where
  "splitParagraphs content = paragraphs_loop content 0 0 []"

text \<open>\<open>for j < p.end && isSpace(text[j]) { j++ }\<close>\<close>

function skip_spaces :: "string \<Rightarrow> nat \<Rightarrow> nat \<Rightarrow> nat" where
  "skip_spaces content e j = (if j < e \<and> isSpace (content ! j) then skip_spaces content e (Suc j) else j)"
  by pat_completeness auto
termination by (relation "measure (\<lambda>(content, e, j). e - j)") auto

declare skip_spaces.simps [simp del]

lemma skip_spaces_ge: "j \<le> skip_spaces content e j"
  by (induction content e j rule: skip_spaces.induct) (subst skip_spaces.simps, auto)

function sentences_loop :: "string \<Rightarrow> nat \<Rightarrow> nat \<Rightarrow> nat \<Rightarrow> span list \<Rightarrow> span list \<times> nat" where
  "sentences_loop content e start i spans =
    (if i < e then
       (if content ! i \<in> {CHR ''.'', CHR ''?'', CHR ''!''} then
          (let j = skip_spaces content e (Suc i) in
           if j > i + 1 \<or> j = e then sentences_loop content e j j (spans @ [(start, j)])
           else sentences_loop content e start (Suc i) spans)
        else sentences_loop content e start (Suc i) spans)
     else (spans, start))"
  by pat_completeness auto
termination
  by (relation "measure (\<lambda>(content, e, start, i, spans). e - i)") auto

declare sentences_loop.simps [simp del]

definition splitSentences :: "string \<Rightarrow> span \<Rightarrow> span list" where
  "splitSentences content p =
    (let (spans, start) = sentences_loop content (snd p) (fst p) (fst p) [];
         spans = (if start < snd p then spans @ [(start, snd p)] else spans)
     in if spans = [] then [p] else spans)"

definition ws_step :: "string \<Rightarrow> span list \<times> nat option \<Rightarrow> nat \<Rightarrow> span list \<times> nat option" where
  "ws_step content st i = (case st of (spans, start) \<Rightarrow>
     if isSpace (content ! i) then (case start of Some s \<Rightarrow> (spans @ [(s, i)], None) | None \<Rightarrow> (spans, None))
     else (spans, Some (case start of Some s \<Rightarrow> s | None \<Rightarrow> i)))"

definition splitWhitespace :: "string \<Rightarrow> span \<Rightarrow> span list" where
  "splitWhitespace content p =
    (case foldl (ws_step content) ([], None) [fst p..<snd p] of
       (spans, Some s) \<Rightarrow> spans @ [(s, snd p)] | (spans, None) \<Rightarrow> spans)"

section \<open>Hard cuts\<close>

text \<open>\<open>for offset := range text[p.start:p.end]\<close>: the byte offsets of the runes, shifted.\<close>

function rune_offsets :: "nat \<Rightarrow> string \<Rightarrow> nat list" where
  "rune_offsets off s = (if s = [] then [] else off # rune_offsets (off + snd (DecodeRune s)) (drop (snd (DecodeRune s)) s))"
  by pat_completeness auto
termination by (relation "measure (\<lambda>(_, s). length s)") (use DecodeRune_size in fastforce)+

declare rune_offsets.simps [simp del]

text \<open>\<open>for candidate := end + 1; candidate <= nRunes; candidate++\<close>\<close>

function grow_cut :: "units \<Rightarrow> string \<Rightarrow> nat list \<Rightarrow> nat \<Rightarrow> nat \<Rightarrow> nat \<Rightarrow> nat \<Rightarrow> nat \<Rightarrow> nat" where
  "grow_cut ul content offs nRunes limit start candidate e =
    (if candidate \<le> nRunes then
       (if ul (cut content (offs ! start, offs ! candidate)) > limit then e
        else grow_cut ul content offs nRunes limit start (Suc candidate) candidate)
     else e)"
  by pat_completeness auto
termination
  by (relation "measure (\<lambda>(ul, content, offs, nRunes, limit, start, candidate, e). Suc nRunes - candidate)") auto

definition hard_end :: "Chunker \<Rightarrow> units \<Rightarrow> string \<Rightarrow> nat list \<Rightarrow> nat \<Rightarrow> nat \<Rightarrow> nat \<Rightarrow> nat" where
  "hard_end c ul content offs nRunes limit start =
    (if chunker_Tokenizer c \<noteq> None then
       (if ul (cut content (offs ! start, offs ! (start + 1))) \<le> limit
        then grow_cut ul content offs nRunes limit start (start + 1 + 1) (start + 1) else start + 1)
     else min (start + limit) nRunes)"

declare grow_cut.simps [simp del]

lemma grow_cut_range: "e < candidate \<Longrightarrow> e \<le> nRunes \<Longrightarrow> e \<le> grow_cut ul content offs nRunes limit start candidate e
    \<and> grow_cut ul content offs nRunes limit start candidate e \<le> nRunes"
proof (induction ul content offs nRunes limit start candidate e rule: grow_cut.induct)
  case (1 ul content offs nRunes limit start candidate e)
  then show ?case by (subst (1 2) grow_cut.simps) force
qed

lemma hard_end_range: "start < nRunes \<Longrightarrow> 0 < limit \<Longrightarrow> start < hard_end c ul content offs nRunes limit start
    \<and> hard_end c ul content offs nRunes limit start \<le> nRunes"
  using grow_cut_range [of "start + 1" "start + 1 + 1" nRunes ul content offs limit start]
  by (auto simp: hard_end_def)

function hard_loop :: "Chunker \<Rightarrow> units \<Rightarrow> string \<Rightarrow> nat list \<Rightarrow> nat \<Rightarrow> nat \<Rightarrow> nat \<Rightarrow> span list" where
  "hard_loop c ul content offs nRunes limit start =
    (if start < nRunes \<and> 0 < limit then
       (let e = hard_end c ul content offs nRunes limit start
        in (offs ! start, offs ! e) # hard_loop c ul content offs nRunes limit e)
     else [])"
  by pat_completeness auto
termination
  by (relation "measure (\<lambda>(c, ul, content, offs, nRunes, limit, start). nRunes - start)")
    (use hard_end_range in \<open>auto simp: diff_less_mono2\<close>)

declare hard_loop.simps [simp del]

definition hardCut :: "Chunker \<Rightarrow> units \<Rightarrow> string \<Rightarrow> span \<Rightarrow> span list" where
  "hardCut c ul content p =
    (let offs = rune_offsets (fst p) (cut content p) @ [snd p];
         limit = (if maxSize c \<le> 0 then 1 else maxSize c)
     in hard_loop c ul content offs (length offs - 1) limit 0)"

definition splitOversizedPiece :: "Chunker \<Rightarrow> units \<Rightarrow> string \<Rightarrow> span \<Rightarrow> span list" where
  "splitOversizedPiece c ul content p =
    (let spans = concat (map (\<lambda>w. if ul (cut content w) \<le> maxSize c then [w] else hardCut c ul content w) (splitWhitespace content p))
     in if spans = [] then hardCut c ul content p else spans)"

section \<open>Chains of spans\<close>

text \<open>Consecutive non-empty spans between two offsets.\<close>

fun chain :: "nat \<Rightarrow> nat \<Rightarrow> span list \<Rightarrow> bool" where
  "chain a b [] \<longleftrightarrow> a \<le> b"
| "chain a b (s # ss) \<longleftrightarrow> a \<le> fst s \<and> fst s < snd s \<and> snd s \<le> b \<and> chain (snd s) b ss"

lemma chain_le: "chain a b ss \<Longrightarrow> a \<le> b"
  by (induction ss arbitrary: a) fastforce+

lemma chain_append: "chain a b xs \<Longrightarrow> chain b c ys \<Longrightarrow> chain a c (xs @ ys)"
proof (induction xs arbitrary: a)
  case Nil
  then show ?case by (cases ys) auto
next
  case (Cons x xs)
  then show ?case using chain_le by (auto dest: chain_le)
qed

lemma chain_weaken: "chain a b xs \<Longrightarrow> a' \<le> a \<Longrightarrow> b \<le> b' \<Longrightarrow> chain a' b' xs"
  by (induction xs arbitrary: a a') (auto, fastforce?)

lemma chain_member: "chain a b xs \<Longrightarrow> s \<in> set xs \<Longrightarrow> a \<le> fst s \<and> fst s < snd s \<and> snd s \<le> b"
  by (induction xs arbitrary: a) (auto, force+)

lemma chain_whole:
  assumes "chain a b xs" "(a, b) \<in> set xs"
  shows "xs = [(a, b)]"
proof (cases xs)
  case (Cons x rest)
  have r: "s \<notin> set rest" if "fst s = a" for s
    using chain_member [of "snd x" b rest s] assms(1) that unfolding Cons by auto
  then have "x = (a, b)" using assms(2) unfolding Cons by auto
  then show ?thesis using assms(1) unfolding Cons by (cases rest) auto
qed (use assms in simp)

lemma chain_concat: "chain a b xs \<Longrightarrow> (\<And>x. x \<in> set xs \<Longrightarrow> chain (fst x) (snd x) (f x)) \<Longrightarrow> chain a b (concat (map f xs))"
proof (induction xs arbitrary: a)
  case (Cons x xs)
  have "chain a (snd x) (f x)"
    using Cons.prems(1) chain_weaken [OF Cons.prems(2) [of x], of a "snd x"] by simp
  then show ?case using Cons by (auto intro: chain_append)
qed simp

lemma ws_chain:
  assumes "s \<le> i"
  shows "case foldl (ws_step content) ([], None) [s..<i] of
    (spans, None) \<Rightarrow> chain s i spans | (spans, Some k) \<Rightarrow> k < i \<and> chain s k spans"
  using assms
proof (induction i)
  case (Suc i)
  then show ?case
  proof (cases "s = Suc i")
    case False
    then show ?thesis using Suc by (auto simp: ws_step_def split: option.splits prod.splits intro: chain_append chain_weaken)
  qed simp
qed simp

lemma splitWhitespace_chain: "fst p \<le> snd p \<Longrightarrow> chain (fst p) (snd p) (splitWhitespace content p)"
  using ws_chain [of "fst p" "snd p" content]
  by (auto simp: splitWhitespace_def split: prod.splits option.splits intro: chain_append)

lemma rune_offsets_range: "x \<in> set (rune_offsets off s) \<Longrightarrow> off \<le> x \<and> x < off + length s"
proof (induction off s rule: rune_offsets.induct)
  case (1 off s)
  show ?case
  proof (cases "s = []")
    case True
    then show ?thesis using 1 by (simp add: rune_offsets.simps)
  next
    case False
    then show ?thesis using 1 DecodeRune_size [of s] by (auto simp: rune_offsets.simps [of off s])
  qed
qed

lemma rune_offsets_sorted: "sorted_wrt (<) (rune_offsets off s)"
proof (induction off s rule: rune_offsets.induct)
  case (1 off s)
  show ?case
  proof (cases "s = []")
    case True
    then show ?thesis by (simp add: rune_offsets.simps)
  next
    case False
    then show ?thesis using 1 DecodeRune_size [of s] by (auto simp: rune_offsets.simps [of off s] dest: rune_offsets_range)
  qed
qed

lemma cut_offsets:
  "sorted_wrt (<) (rune_offsets (fst p) (cut content p) @ [snd p])"
  "\<forall>x \<in> set (rune_offsets (fst p) (cut content p) @ [snd p]). fst p \<le> x \<or> x = snd p"
  using rune_offsets_sorted [of "fst p" "cut content p"]
  by (auto simp: sorted_wrt_append cut_def sublst_def dest: rune_offsets_range)

lemma hard_loop_chain:
  assumes "sorted_wrt (<) offs" "length offs = Suc nRunes" "start \<le> nRunes" "0 < limit"
  shows "chain (offs ! start) (offs ! nRunes) (hard_loop c ul content offs nRunes limit start)"
  using assms
proof (induction c ul content offs nRunes limit start rule: hard_loop.induct)
  case (1 c ul content offs nRunes limit start)
  show ?case
  proof (cases "start < nRunes")
    case True
    let ?e = "hard_end c ul content offs nRunes limit start"
    have e: "start < ?e" "?e \<le> nRunes" using hard_end_range [OF True 1(5)] by auto
    have "offs ! start < offs ! ?e" using 1(2,3) e by (simp add: sorted_wrt_nth_less)
    moreover have "offs ! ?e \<le> offs ! nRunes"
      using 1(2,3) e by (cases "?e = nRunes") (auto simp: sorted_wrt_nth_less intro: less_imp_le)
    ultimately show ?thesis using 1 e True by (subst hard_loop.simps) (simp add: Let_def)
  next
    case False
    then show ?thesis using 1 by (subst hard_loop.simps) simp
  qed
qed

lemma maxSize_pos: "0 < maxSize c"
  by (simp add: maxSize_def)

lemma hardCut_chain:
  assumes "fst p \<le> snd p"
  shows "chain (fst p) (snd p) (hardCut c ul content p)"
proof -
  let ?offs = "rune_offsets (fst p) (cut content p) @ [snd p]"
  have "chain (?offs ! 0) (?offs ! (length ?offs - 1)) (hardCut c ul content p)"
    using hard_loop_chain [OF cut_offsets(1), of p content "length ?offs - 1" 0 "maxSize c" c ul content] maxSize_pos [of c]
    by (simp add: hardCut_def Let_def)
  moreover have "fst p \<le> ?offs ! 0" using cut_offsets(2) [of p content] assms nth_mem [of 0 ?offs] by force
  ultimately show ?thesis by (auto intro: chain_weaken)
qed

lemma hardCut_degenerate: "\<not> fst p < snd p \<Longrightarrow> hardCut c ul content p = []"
  by (simp add: hardCut_def cut_def sublst_def rune_offsets.simps hard_loop.simps)

lemma splitWhitespace_degenerate: "\<not> fst p < snd p \<Longrightarrow> splitWhitespace content p = []"
  by (simp add: splitWhitespace_def)

lemma splitOversizedPiece_chain:
  assumes "fst p \<le> snd p"
  shows "chain (fst p) (snd p) (splitOversizedPiece c ul content p)"
proof -
  have "chain (fst p) (snd p) (concat (map (\<lambda>w. if ul (cut content w) \<le> maxSize c then [w] else hardCut c ul content w) (splitWhitespace content p)))"
  proof (rule chain_concat [OF splitWhitespace_chain [OF assms]])
    fix w
    assume "w \<in> set (splitWhitespace content p)"
    then have "fst w < snd w" using chain_member [OF splitWhitespace_chain [OF assms]] by blast
    then show "chain (fst w) (snd w) (if ul (cut content w) \<le> maxSize c then [w] else hardCut c ul content w)"
      using hardCut_chain [of w] by simp
  qed
  then show ?thesis using hardCut_chain [OF assms] by (simp add: splitOversizedPiece_def Let_def)
qed

lemma splitOversizedPiece_shorter:
  assumes "splitOversizedPiece c ul content p \<noteq> [p]" "s \<in> set (splitOversizedPiece c ul content p)"
  shows "snd s - fst s < snd p - fst p"
proof (cases "fst p < snd p")
  case True
  note ch = splitOversizedPiece_chain [of p c ul content, OF less_imp_le [OF True]]
  have "s \<noteq> p" using chain_whole [of "fst p" "snd p" "splitOversizedPiece c ul content p"] ch assms by auto
  then have "\<not> (fst s = fst p \<and> snd s = snd p)" by (simp add: prod_eq_iff)
  then show ?thesis using chain_member [OF ch assms(2)] by arith
next
  case False
  then show ?thesis using assms(2)
    by (simp add: splitOversizedPiece_def hardCut_degenerate splitWhitespace_degenerate Let_def)
qed

section \<open>Packing\<close>

text \<open>\<open>for i := len(words) - 1; i >= 0; i--\<close>; the words come last first.\<close>

fun overlap_words :: "units \<Rightarrow> string \<Rightarrow> nat \<Rightarrow> nat \<Rightarrow> nat \<Rightarrow> span list \<Rightarrow> nat" where
  "overlap_words ul content e overlapUnits start [] = start"
| "overlap_words ul content e overlapUnits start (w # ws) =
    (if ul (cut content (fst w, e)) > overlapUnits then start
     else overlap_words ul content e overlapUnits (fst w) ws)"

definition overlapPoint :: "string \<Rightarrow> span \<Rightarrow> nat \<Rightarrow> units \<Rightarrow> nat" where
  "overlapPoint content prev overlapUnits ul =
    (if overlapUnits = 0 then snd prev
     else let spans = splitWhitespace content prev in
       if spans = [] then fst prev else overlap_words ul content (snd prev) overlapUnits (snd prev) (rev spans))"

lemma sub_pieces_smaller:
  assumes "sub \<noteq> [piece]" "sub = splitOversizedPiece c ul content piece"
  shows "(mset (map (\<lambda>s. snd s - fst s) sub), mset (map (\<lambda>s. snd s - fst s) (piece # pieces))) \<in> mult less_than"
proof -
  have "\<forall>k \<in># mset (map (\<lambda>s. snd s - fst s) sub). \<exists>j \<in># mset (map (\<lambda>s. snd s - fst s) (piece # pieces)). (k, j) \<in> less_than"
    using splitOversizedPiece_shorter [of c ul content piece] assms by auto
  from one_step_implies_mult [OF _ this, of "{#}"] show ?thesis by simp
qed

lemma rest_smaller:
  "(mset (map (\<lambda>s. snd s - fst s) pieces), mset (map (\<lambda>s. snd s - fst s) (piece # pieces))) \<in> mult less_than"
  by (rule subset_implies_mult) (simp add: subset_mset_def)

text \<open>
  The loop of \<open>packPieces\<close>: the windows so far, the current window and its length (\<open>0\<close>: none).
\<close>

function pack_loop :: "Chunker \<Rightarrow> units \<Rightarrow> string \<Rightarrow> span list \<Rightarrow> span \<Rightarrow> nat \<Rightarrow> span list \<Rightarrow> span list" where
  "pack_loop c ul content spans cur curLen [] = (if curLen > 0 then spans @ [cur] else spans)"
| "pack_loop c ul content spans cur curLen (piece # pieces) =
    (let pieceLen = ul (cut content piece) in
     if pieceLen > maxSize c then
       (let spans = (if curLen > 0 then spans @ [cur] else spans);
            sub = splitOversizedPiece c ul content piece
        in if sub = [piece] then pack_loop c ul content (spans @ [piece]) (0, 0) 0 pieces
           else pack_loop c ul content (spans @ pack_loop c ul content [] (0, 0) 0 sub) (0, 0) 0 pieces)
     else
       (let joinedLen = (if curLen > 0 then ul (cut content (fst cur, snd piece)) else pieceLen) in
        if curLen > 0 \<and> joinedLen > maxSize c then
          (let overlapStart = overlapPoint content cur (effectiveOverlap c) ul;
               combinedLen = ul (cut content (overlapStart, snd piece))
           in if overlapStart < snd cur \<and> combinedLen \<le> maxSize c
              then pack_loop c ul content (spans @ [cur]) (overlapStart, snd piece) combinedLen pieces
              else pack_loop c ul content (spans @ [cur]) piece pieceLen pieces)
        else if curLen = 0 then pack_loop c ul content spans piece pieceLen pieces
        else pack_loop c ul content spans (fst cur, snd piece) joinedLen pieces))"
  by pat_completeness auto

termination
  by (relation "inv_image (mult less_than) (\<lambda>(c, ul, content, spans, cur, curLen, pieces). mset (map (\<lambda>s. snd s - fst s) pieces))")
    (use rest_smaller sub_pieces_smaller in \<open>auto intro: wf_inv_image wf_mult\<close>)

definition packPieces :: "Chunker \<Rightarrow> units \<Rightarrow> string \<Rightarrow> span list \<Rightarrow> span list" where
  "packPieces c ul content pieces = pack_loop c ul content [] (0, 0) 0 pieces"

definition packUnit :: "Chunker \<Rightarrow> units \<Rightarrow> string \<Rightarrow> span \<Rightarrow> span list" where
  "packUnit c ul content p =
    (if ul (cut content p) \<le> maxSize c then [p] else packPieces c ul content (splitSentences content p))"

definition mergeShortTrailing :: "span list \<Rightarrow> nat \<Rightarrow> nat \<Rightarrow> (span \<Rightarrow> nat) \<Rightarrow> span list" where
  "mergeShortTrailing windows minSz maxSz ulen =
    (if length windows < 2 then windows
     else let lst = windows ! (length windows - 1) in
       if ulen lst \<ge> minSz then windows
       else let prev = windows ! (length windows - 2); combined = (fst prev, snd lst) in
         if ulen combined > maxSz then windows
         else take (length windows - 2) windows @ [combined])"

definition doc_windows :: "Chunker \<Rightarrow> units \<Rightarrow> string \<Rightarrow> span list" where
  "doc_windows c ul content =
    mergeShortTrailing (concat (map (packUnit c ul content) (splitParagraphs content))) (minSize c) (maxSize c)
      (\<lambda>s. ul (cut content s))"

definition Split :: "nat \<Rightarrow> unicode_tables \<Rightarrow> (rune \<Rightarrow> rune) \<Rightarrow> Chunker \<Rightarrow> Doc \<Rightarrow> Chunk list" where
  "Split scanMax u strip c d =
    (if doc_Text d = [] then []
     else let windows = doc_windows c (unitLen scanMax u strip c) (doc_Text d) in
       map (\<lambda>i. \<lparr>chunk_DocID = doc_ID d, chunk_Index = i, chunk_Text = cut (doc_Text d) (windows ! i),
         chunk_Start = fst (windows ! i), chunk_End = snd (windows ! i)\<rparr>) [0..<length windows])"

end
