(* ===== verification/Rag_Chunk_Laws.thy ===== *)
theory Rag_Chunk_Laws
  imports Rag_Chunk
begin

text \<open>
  Laws of the chunker: trimming and splitting at bytes, rune boundaries of the hard cut, and the packing
  loop, whose windows form a ladder (starts never decrease, ends increase), fit the budget and cover
  what they are given.
\<close>

section \<open>Coverage\<close>

definition covered :: "span list \<Rightarrow> nat set" where
  "covered spans = {i. \<exists>s \<in> set spans. fst s \<le> i \<and> i < snd s}"

definition inked :: "string \<Rightarrow> nat set" where
  "inked content = {i. i < length content \<and> \<not> byte_space (content ! i)}"

lemma covered_simps [simp]:
  "covered [] = {}" "covered (s # ss) = {fst s..<snd s} \<union> covered ss" "covered (xs @ ys) = covered xs \<union> covered ys"
  by (auto simp: covered_def)

lemma covered_concat: "(\<And>x. x \<in> set xs \<Longrightarrow> {fst x..<snd x} \<inter> A \<subseteq> covered (f x)) \<Longrightarrow> covered xs \<inter> A \<subseteq> covered (concat (map f xs))"
proof (induction xs)
  case (Cons x xs)
  have "{fst x..<snd x} \<inter> A \<subseteq> covered (f x)" "covered xs \<inter> A \<subseteq> covered (concat (map f xs))"
    using Cons.IH Cons.prems by simp_all
  then show ?case by auto
qed simp

lemma isSpace_byte_space: "isSpace b \<Longrightarrow> byte_space b"
  by (auto simp: isSpace_def byte_space_def IsSpace_def space_runes_def)

section \<open>Trimming and paragraphs\<close>

lemma trim_left_spec:
  "s \<le> e \<Longrightarrow> trim_left content (s, e) = (s', e') \<Longrightarrow> s \<le> s' \<and> s' \<le> e \<and> e' = e \<and> (\<forall>i \<in> {s..<s'}. byte_space (content ! i))"
proof (induction content "(s, e)" arbitrary: s rule: trim_left.induct)
  case (1 content s)
  show ?case
  proof (cases "s < e \<and> byte_space (content ! s)")
    case True
    then have "Suc s \<le> s' \<and> s' \<le> e \<and> e' = e \<and> (\<forall>i \<in> {Suc s..<s'}. byte_space (content ! i))"
      using 1 by (simp add: trim_left.simps [of content s])
    then show ?thesis using True by (auto simp: le_eq_less_or_eq Suc_le_eq)
  next
    case False
    then show ?thesis using 1(2,3) by (auto simp: trim_left.simps [of content s])
  qed
qed

lemma trim_right_spec:
  "s \<le> e \<Longrightarrow> s \<le> trim_right content s e \<and> trim_right content s e \<le> e
    \<and> (\<forall>i \<in> {trim_right content s e..<e}. byte_space (content ! i))
    \<and> (s < trim_right content s e \<longrightarrow> \<not> byte_space (content ! (trim_right content s e - 1)))"
proof (induction e)
  case (Suc e)
  show ?case
  proof (cases "s < Suc e \<and> byte_space (content ! e)")
    case True
    then show ?thesis using Suc by (auto simp: less_Suc_eq)
  qed (use Suc in auto)
qed simp

lemma trimSpan_spec:
  assumes "s \<le> e" "trimSpan content (s, e) = (s', e')"
  shows "s \<le> s' \<and> s' \<le> e' \<and> e' \<le> e \<and> (\<forall>i \<in> {s..<e} - {s'..<e'}. byte_space (content ! i))
    \<and> (s' < e' \<longrightarrow> \<not> byte_space (content ! (e' - 1)))"
proof -
  obtain s1 e1 where l: "trim_left content (s, e) = (s1, e1)" by fastforce
  have "s1 = s'" "trim_right content s' e1 = e'" using assms(2) l by (auto simp: trimSpan_def)
  then show ?thesis using trim_left_spec [OF assms(1) l] trim_right_spec [of s' e1 content]
    by (auto simp: not_le not_less)
qed

text \<open>A new paragraph keeps the chain, ends in a byte that is not white space and covers the inked bytes.\<close>

lemma add_trimmed_spec:
  assumes "chain 0 start spans" "start \<le> e" "e \<le> length content"
  shows "chain 0 e (add_trimmed content spans (start, e))"
    and "covered spans \<union> ({start..<e} \<inter> inked content) \<subseteq> covered (add_trimmed content spans (start, e))"
    and "\<forall>p \<in> set spans. \<not> byte_space (content ! (snd p - 1)) \<Longrightarrow>
      \<forall>p \<in> set (add_trimmed content spans (start, e)). \<not> byte_space (content ! (snd p - 1))"
proof -
  obtain s' e' where t: "trimSpan content (start, e) = (s', e')" by fastforce
  note sp = trimSpan_spec [OF assms(2) t]
  have ch: "chain 0 e spans" using assms by (auto intro: chain_weaken)
  show "chain 0 e (add_trimmed content spans (start, e))"
    using chain_append [OF assms(1), of e "[(s', e')]"] sp ch by (auto simp: add_trimmed_def t)
  show "covered spans \<union> ({start..<e} \<inter> inked content) \<subseteq> covered (add_trimmed content spans (start, e))"
    using sp by (fastforce simp: add_trimmed_def t inked_def)
  show "\<forall>p \<in> set spans. \<not> byte_space (content ! (snd p - 1)) \<Longrightarrow>
      \<forall>p \<in> set (add_trimmed content spans (start, e)). \<not> byte_space (content ! (snd p - 1))"
    using sp by (auto simp: add_trimmed_def t)
qed

lemma skip_breaks_spec:
  "i \<le> length content \<Longrightarrow> skip_breaks content i \<le> length content
    \<and> (\<forall>k \<in> {i..<skip_breaks content i}. byte_space (content ! k))"
proof (induction content i rule: skip_breaks.induct)
  case (1 content j)
  show ?case
  proof (cases "j < length content \<and> (content ! j = CHR 0x0A \<or> content ! j = CHR 0x0D)")
    case True
    then have b: "byte_space (content ! j)" by (auto simp: byte_space_def IsSpace_def space_runes_def)
    have e: "skip_breaks content j = skip_breaks content (Suc j)" using True by (subst skip_breaks.simps) simp
    have ih: "skip_breaks content (Suc j) \<le> length content"
      "\<forall>k \<in> {Suc j..<skip_breaks content (Suc j)}. byte_space (content ! k)" using 1(1) [OF True] True by auto
    have "byte_space (content ! k)" if "k \<in> {j..<skip_breaks content (Suc j)}" for k
      using that b ih(2) by (cases "k = j") auto
    then show ?thesis using ih(1) unfolding e by blast
  next
    case False
    then show ?thesis using 1(2) by (subst (1 2) skip_breaks.simps) auto
  qed
qed

lemma paragraphs_loop_spec:
  assumes "chain 0 start spans" "start \<le> i" "i \<le> length content" "\<forall>p \<in> set spans. \<not> byte_space (content ! (snd p - 1))"
  shows "chain 0 (length content) (paragraphs_loop content start i spans)
    \<and> covered spans \<union> ({start..<length content} \<inter> inked content) \<subseteq> covered (paragraphs_loop content start i spans)
    \<and> (\<forall>p \<in> set (paragraphs_loop content start i spans). \<not> byte_space (content ! (snd p - 1)))"
  using assms
proof (induction content start i spans rule: paragraphs_loop.induct)
  case (1 content start i spans)
  show ?case
  proof (cases "i < length content")
    case False
    then have e: "paragraphs_loop content start i spans = add_trimmed content spans (start, length content)"
      by (simp add: paragraphs_loop.simps)
    show ?thesis unfolding e using add_trimmed_spec [OF 1(4), of "length content" content] 1(5-7) by simp
  next
    case i: True
    show ?thesis
    proof (cases "content ! i = CHR 0x0A")
      case False
      then have "paragraphs_loop content start i spans = paragraphs_loop content start (Suc i) spans"
        using i by (simp add: paragraphs_loop.simps [of content start i])
      then show ?thesis using 1(3) [OF i False 1(4)] 1(5-7) i by simp
    next
      case nl: True
      let ?j = "skip_breaks content i"
      have j: "i < ?j" "?j \<le> length content" "\<forall>k \<in> {i..<?j}. byte_space (content ! k)"
        using skip_breaks_step [OF i nl] skip_breaks_spec [OF 1(6)] by auto
      show ?thesis
      proof (cases "count_list (sublst content i ?j) (CHR 0x0A) \<ge> 2")
        case True
        let ?sp = "add_trimmed content spans (start, i)"
        note at = add_trimmed_spec [OF 1(4,5,6)]
        have e: "paragraphs_loop content start i spans = paragraphs_loop content ?j ?j ?sp"
          using i nl True by (simp add: paragraphs_loop.simps [of content start i] Let_def)
        have "chain 0 ?j ?sp" using at(1) j by (auto intro: chain_weaken)
        from 1(1) [OF i nl refl True this] j at(3) [OF 1(7)]
        have ih: "chain 0 (length content) (paragraphs_loop content ?j ?j ?sp)"
          "covered ?sp \<union> ({?j..<length content} \<inter> inked content) \<subseteq> covered (paragraphs_loop content ?j ?j ?sp)"
          "\<forall>p \<in> set (paragraphs_loop content ?j ?j ?sp). \<not> byte_space (content ! (snd p - 1))"
          by simp_all
        have "{start..<length content} \<inter> inked content \<subseteq> ({start..<i} \<inter> inked content) \<union> ({?j..<length content} \<inter> inked content)"
          using j(3) by (auto simp: inked_def not_less)
        then show ?thesis unfolding e using ih at(2) by blast
      next
        case False
        then have "paragraphs_loop content start i spans = paragraphs_loop content start ?j spans"
          using i nl by (simp add: paragraphs_loop.simps [of content start i] Let_def)
        then show ?thesis using 1(2) [OF i nl refl False 1(4)] 1(5-7) j by simp
      qed
    qed
  qed
qed

lemma splitParagraphs_spec:
  "chain 0 (length content) (splitParagraphs content)"
  "inked content \<subseteq> covered (splitParagraphs content)"
  "p \<in> set (splitParagraphs content) \<Longrightarrow> \<not> byte_space (content ! (snd p - 1))"
  using paragraphs_loop_spec [of 0 "[]" 0 content] by (auto simp: splitParagraphs_def inked_def)

section \<open>Sentences and words\<close>

lemma skip_spaces_le: "j \<le> e \<Longrightarrow> skip_spaces content e j \<le> e"
  by (induction content e j rule: skip_spaces.induct) (subst skip_spaces.simps, auto)

lemma sentences_loop_spec:
  assumes "chain a start spans" "{a..<start} \<subseteq> covered spans" "start \<le> i" "i \<le> e"
    "sentences_loop content e start i spans = (spans', start')"
  shows "chain a start' spans' \<and> {a..<start'} \<subseteq> covered spans' \<and> start' \<le> e"
  using assms
proof (induction content e start i spans rule: sentences_loop.induct)
  case (1 content e start i spans)
  show ?case
  proof (cases "i < e")
    case False
    then show ?thesis using 1(4-8) by (auto simp: sentences_loop.simps)
  next
    case i: True
    let ?j = "skip_spaces content e (Suc i)"
    have j: "i < ?j" "?j \<le> e" using skip_spaces_ge [of "Suc i" content e] skip_spaces_le [of "Suc i" e content] i by auto
    show ?thesis
    proof (cases "content ! i \<in> {CHR ''.'', CHR ''?'', CHR ''!''} \<and> (?j > i + 1 \<or> ?j = e)")
      case True
      then have e: "sentences_loop content e start i spans = sentences_loop content e ?j ?j (spans @ [(start, ?j)])"
        using i by (subst sentences_loop.simps) (simp add: Let_def)
      have "chain a ?j (spans @ [(start, ?j)])"
        by (rule chain_append [OF 1(4)]) (use 1(6) j in simp)
      moreover have "{a..<?j} \<subseteq> covered (spans @ [(start, ?j)])" using 1(5,6) j by fastforce
      ultimately show ?thesis using 1(1) [OF i _ refl] True j e 1(8) by simp
    next
      case False
      then have e: "sentences_loop content e start i spans = sentences_loop content e start (Suc i) spans"
        using i by (subst sentences_loop.simps) (auto simp: Let_def)
      show ?thesis
      proof (cases "content ! i \<in> {CHR ''.'', CHR ''?'', CHR ''!''}")
        case True
        then show ?thesis using 1(2) [OF i True refl _ 1(4,5)] False e i 1(6,8) by simp
      next
        case f: False
        show ?thesis using 1(3) [OF i f 1(4,5)] e i 1(6,8) by simp
      qed
    qed
  qed
qed

lemma splitSentences_spec:
  assumes "fst p < snd p"
  shows "chain (fst p) (snd p) (splitSentences content p) \<and> {fst p..<snd p} \<subseteq> covered (splitSentences content p)"
proof -
  obtain spans start where l: "sentences_loop content (snd p) (fst p) (fst p) [] = (spans, start)" by fastforce
  have sp: "chain (fst p) start spans" "{fst p..<start} \<subseteq> covered spans" "start \<le> snd p"
    using sentences_loop_spec [of "fst p" "fst p" "[]" "fst p" "snd p" content] l assms by auto
  have "chain (fst p) (snd p) (spans @ [(start, snd p)])" if "start < snd p"
    by (rule chain_append [OF sp(1)]) (use that in simp)
  moreover have "chain (fst p) (snd p) spans" using sp by (auto intro: chain_weaken)
  moreover have "{fst p..<snd p} \<subseteq> covered spans \<union> {start..<snd p}" using sp(2) by fastforce
  ultimately show ?thesis using l assms
    by (auto simp: splitSentences_def Let_def dest: subsetD)
qed

lemma ws_covered:
  assumes "s \<le> i"
  shows "case foldl (ws_step content) ([], None) [s..<i] of (spans, st) \<Rightarrow>
    {k \<in> {s..<i}. \<not> isSpace (content ! k)} \<subseteq> covered spans \<union> (case st of None \<Rightarrow> {} | Some k \<Rightarrow> {k..<i})"
  using assms
proof (induction i)
  case (Suc i)
  then show ?case
  proof (cases "s = Suc i")
    case False
    obtain spans st where f: "foldl (ws_step content) ([], None) [s..<i] = (spans, st)" by fastforce
    have c: "{k \<in> {s..<i}. \<not> isSpace (content ! k)} \<subseteq> covered spans \<union> (case st of None \<Rightarrow> {} | Some k \<Rightarrow> {k..<i})"
      and k: "case st of None \<Rightarrow> True | Some k \<Rightarrow> k < i"
      using Suc False ws_chain [of s i content] f by (auto split: option.splits)
    have g: "foldl (ws_step content) ([], None) [s..<Suc i] = ws_step content (spans, st) i"
      using f False Suc.prems by simp
    show ?thesis unfolding g using c k
      by (cases st) (auto simp: ws_step_def less_Suc_eq subset_iff)
  qed simp
qed simp

lemma splitWhitespace_covered:
  assumes "fst p \<le> snd p"
  shows "{k \<in> {fst p..<snd p}. \<not> isSpace (content ! k)} \<subseteq> covered (splitWhitespace content p)"
  using ws_covered [OF assms, of content]
  by (auto simp: splitWhitespace_def split: prod.splits option.splits)

section \<open>Rune boundaries\<close>

lemma DecodeRune_take: "snd (DecodeRune s) \<le> n \<Longrightarrow> DecodeRune (take n s) = DecodeRune s"
proof (cases s)
  case (Cons c t)
  assume n: "snd (DecodeRune s) \<le> n"
  then have "0 < n" using Cons DecodeRune_size [of s] by auto
  then obtain m where m: "n = Suc m" by (cases n) auto
  show ?thesis
  proof (cases t)
    case Nil
    then show ?thesis using Cons m by simp
  next
    case (Cons c1 t1)
    note t = this
    show ?thesis
    proof (cases t1)
      case Nil
      then show ?thesis using \<open>s = c # t\<close> t m n by (cases m) (auto split: if_splits)
    next
      case (Cons c2 t2)
      then show ?thesis using \<open>s = c # t\<close> t m n
        by (cases m; cases "m - 1"; cases "m - 2"; cases t2) (auto split: if_splits simp: Let_def)
    qed
  qed
qed simp

lemma length_runes: "length (runes s) = length (rune_strings s)"
  by (induction s rule: runes.induct) (simp add: runes.simps rune_strings.simps)

lemma concat_rune_strings: "concat (rune_strings s) = s"
proof (induction s rule: rune_strings.induct)
  case (1 s)
  then show ?case using DecodeRune_size [of s] by (simp add: rune_strings.simps [of s])
qed

lemma rune_strings_drop: "rune_strings (drop (length (concat (take k (rune_strings s)))) s) = drop k (rune_strings s)"
proof (induction s arbitrary: k rule: rune_strings.induct)
  case (1 s)
  show ?case
  proof (cases "s = [] \<or> k = 0")
    case True
    then show ?thesis by (auto simp: rune_strings.simps [of "[]"])
  next
    case False
    then obtain j where j: "k = Suc j" by (cases k) auto
    have e: "rune_strings s = take (snd (DecodeRune s)) s # rune_strings (drop (snd (DecodeRune s)) s)"
      using False by (simp add: rune_strings.simps)
    have l: "length (take (snd (DecodeRune s)) s) = snd (DecodeRune s)" using DecodeRune_size [of s] False by simp
    have "drop (length (concat (take k (rune_strings s)))) s
        = drop (length (concat (take j (rune_strings (drop (snd (DecodeRune s)) s))))) (drop (snd (DecodeRune s)) s)"
      unfolding e j using l by (simp add: add.commute)
    then show ?thesis using 1 [of j] False unfolding j e by simp
  qed
qed

lemma rune_strings_take: "rune_strings (take (length (concat (take k (rune_strings s)))) s) = take k (rune_strings s)"
proof (induction s arbitrary: k rule: rune_strings.induct)
  case (1 s)
  show ?case
  proof (cases "s = [] \<or> k = 0")
    case True
    then show ?thesis by (auto simp: rune_strings.simps [of "[]"])
  next
    case False
    then obtain j where j: "k = Suc j" by (cases k) auto
    let ?w = "snd (DecodeRune s)"
    have e: "rune_strings s = take ?w s # rune_strings (drop ?w s)"
      using False by (simp add: rune_strings.simps)
    have l: "length (take ?w s) = ?w" "0 < ?w" using DecodeRune_size [of s] False by simp_all
    define n where "n = length (concat (take j (rune_strings (drop ?w s))))"
    have n: "length (concat (take k (rune_strings s))) = ?w + n"
      unfolding e j n_def using l by simp
    have d: "DecodeRune (take (?w + n) s) = DecodeRune s" by (rule DecodeRune_take) simp
    have ne: "take (?w + n) s \<noteq> []" using False l by simp
    have "rune_strings (take (?w + n) s) = take ?w s # rune_strings (take n (drop ?w s))"
      using ne by (subst rune_strings.simps) (simp add: d drop_take)
    then have "rune_strings (take (?w + n) s) = take k (rune_strings s)"
      using 1 [of j] False unfolding e j n_def by simp
    then show ?thesis by (simp only: n)
  qed
qed

lemma rune_offsets_nth:
  "length (rune_offsets off s) = length (rune_strings s)
    \<and> (\<forall>k < length (rune_strings s). rune_offsets off s ! k = off + length (concat (take k (rune_strings s))))"
proof (induction off s rule: rune_offsets.induct)
  case (1 off s)
  show ?case
  proof (cases "s = []")
    case True
    then show ?thesis by (simp add: rune_strings.simps rune_offsets.simps)
  next
    case False
    have l: "length (take (snd (DecodeRune s)) s) = snd (DecodeRune s)" using DecodeRune_size [of s] False by simp
    have e: "rune_strings s = take (snd (DecodeRune s)) s # rune_strings (drop (snd (DecodeRune s)) s)"
      "rune_offsets off s = off # rune_offsets (off + snd (DecodeRune s)) (drop (snd (DecodeRune s)) s)"
      using False by (simp_all add: rune_strings.simps rune_offsets.simps)
    show ?thesis using 1 [OF False] l unfolding e by (auto simp: nth_Cons split: nat.splits)
  qed
qed

lemma sublst_sublst: "y \<le> b - a \<Longrightarrow> sublst (sublst xs a b) x y = sublst xs (a + x) (a + y)"
  by (simp add: sublst_def drop_take min_def add.commute)

text \<open>Between two entries of the offset table lie exactly the runes in between.\<close>

lemma cut_runes:
  assumes p: "fst p \<le> snd p" "snd p \<le> length content" and offs: "offs = rune_offsets (fst p) (cut content p) @ [snd p]"
    and jm: "j \<le> m" "m < length offs"
  shows "length (runes (cut content (offs ! j, offs ! m))) = m - j"
proof -
  let ?s = "cut content p"
  let ?rs = "rune_strings ?s"
  let ?n = "\<lambda>k. length (concat (take k ?rs))"
  have ls: "length ?s = snd p - fst p" using p by (simp add: cut_def)
  have lo: "length offs = Suc (length ?rs)" using rune_offsets_nth [of "fst p" ?s] by (simp add: offs)
  have nth: "offs ! k = fst p + ?n k" if "k \<le> length ?rs" for k
    using that rune_offsets_nth [of "fst p" ?s] ls p concat_rune_strings [of ?s]
    by (cases "k = length ?rs") (auto simp: offs nth_append)
  have mono: "?n j \<le> ?n m" "?n m \<le> snd p - fst p"
  proof -
    have "take m ?rs = take j ?rs @ drop j (take m ?rs)" using jm by (metis append_take_drop_id min.absorb2 min.commute take_take)
    then have "?n m = ?n j + length (concat (drop j (take m ?rs)))" by (metis concat_append length_append)
    then show "?n j \<le> ?n m" by simp
    have "length ?s = ?n m + length (concat (drop m ?rs))"
      by (metis append_take_drop_id concat_append concat_rune_strings length_append)
    then show "?n m \<le> snd p - fst p" using ls by simp
  qed
  have "cut content (offs ! j, offs ! m) = sublst ?s (?n j) (?n m)"
    using nth jm lo mono by (simp add: cut_def sublst_sublst)
  also have "\<dots> = drop (?n j) (take (?n m) ?s)" by (simp add: sublst_def drop_take)
  finally have c: "cut content (offs ! j, offs ! m) = drop (?n j) (take (?n m) ?s)" .
  have "rune_strings (drop (?n j) (take (?n m) ?s)) = drop j (take m ?rs)"
    using rune_strings_drop [of j "take (?n m) ?s"] jm unfolding rune_strings_take by (simp add: min_def)
  then show ?thesis using jm lo unfolding c by (simp add: length_runes)
qed

section \<open>Budgets of the hard cut\<close>

definition fits :: "Chunker \<Rightarrow> units \<Rightarrow> string \<Rightarrow> span \<Rightarrow> bool" where
  "fits c ul content s \<longleftrightarrow> ul (cut content s) \<le> maxSize c \<or> length (runes (cut content s)) = 1"

definition units_ok :: "Chunker \<Rightarrow> units \<Rightarrow> bool" where
  "units_ok c ul \<longleftrightarrow> (chunker_Tokenizer c = None \<longrightarrow> (\<forall>s. ul s = length (runes s)))"

lemma grow_cut_fits:
  assumes "ul (cut content (offs ! start, offs ! e)) \<le> limit"
  shows "ul (cut content (offs ! start, offs ! grow_cut ul content offs nRunes limit start candidate e)) \<le> limit"
  using assms
proof (induction ul content offs nRunes limit start candidate e rule: grow_cut.induct)
  case (1 ul content offs nRunes limit start candidate e)
  then show ?case by (subst grow_cut.simps) (auto simp: not_less)
qed

lemma hard_loop_fits:
  assumes u: "units_ok c ul" and p: "fst p \<le> snd p" "snd p \<le> length content"
    and offs: "offs = rune_offsets (fst p) (cut content p) @ [snd p]" "nRunes = length offs - 1"
  shows "\<forall>s \<in> set (hard_loop c ul content offs nRunes (maxSize c) start). fits c ul content s"
proof (induction "nRunes - start" arbitrary: start rule: less_induct)
  case less
  show ?case
  proof (cases "start < nRunes")
    case True
    let ?e = "hard_end c ul content offs nRunes (maxSize c) start"
    note e = hard_end_range [OF True maxSize_pos, of c ul content offs c]
    have w: "length (runes (cut content (offs ! start, offs ! m))) = m - start" if "start \<le> m" "m \<le> nRunes" for m
      using cut_runes [OF p offs(1)] that offs by simp
    have "fits c ul content (offs ! start, offs ! ?e)"
    proof (cases "chunker_Tokenizer c = None")
      case True
      then have "ul (cut content (offs ! start, offs ! ?e)) = ?e - start" using w e u by (simp add: units_ok_def)
      moreover have "?e - start \<le> maxSize c" using True by (simp add: hard_end_def)
      ultimately show ?thesis by (simp add: fits_def)
    next
      case tok: False
      show ?thesis
      proof (cases "ul (cut content (offs ! start, offs ! (start + 1))) \<le> maxSize c")
        case True
        then show ?thesis using tok grow_cut_fits [of ul content offs start "start + 1" "maxSize c" nRunes "start + 1 + 1"]
          by (auto simp: fits_def hard_end_def)
      next
        case False
        then have "?e = start + 1" using tok by (simp add: hard_end_def)
        then show ?thesis using w [of "start + 1"] e by (simp add: fits_def)
      qed
    qed
    moreover have "nRunes - ?e < nRunes - start" using e True by (intro diff_less_mono2) simp_all
    note less [OF this]
    ultimately show ?thesis using True by (subst hard_loop.simps) (simp add: maxSize_pos Let_def)
  next
    case False
    then show ?thesis by (subst hard_loop.simps) simp
  qed
qed

lemma hardCut_fits:
  assumes "units_ok c ul" "fst p \<le> snd p" "snd p \<le> length content" "s \<in> set (hardCut c ul content p)"
  shows "fits c ul content s"
  using hard_loop_fits [OF assms(1-3) refl refl, of 0] assms(4) maxSize_pos [of c] by (auto simp: hardCut_def Let_def)

lemma splitOversizedPiece_fits:
  assumes "units_ok c ul" "fst p < snd p" "snd p \<le> length content" "s \<in> set (splitOversizedPiece c ul content p)"
  shows "fits c ul content s"
proof -
  have w: "fst w \<le> snd w \<and> snd w \<le> length content" if "w \<in> set (splitWhitespace content p)" for w
    using chain_member [OF splitWhitespace_chain that, OF less_imp_le [OF assms(2)]] assms(3) by simp
  consider (cut) "s \<in> set (hardCut c ul content p)"
    | (word) "ul (cut content s) \<le> maxSize c"
    | (sub) v where "v \<in> set (splitWhitespace content p)" "s \<in> set (hardCut c ul content v)"
    using assms(4) by (auto simp: splitOversizedPiece_def Let_def split: if_splits)
  then show ?thesis
  proof cases
    case cut
    show ?thesis by (rule hardCut_fits [OF assms(1) _ assms(3) cut]) (use assms(2) in simp)
  next
    case word
    then show ?thesis by (simp add: fits_def)
  next
    case sub
    show ?thesis by (rule hardCut_fits [OF assms(1) _ _ sub(2)]) (use w [OF sub(1)] in simp_all)
  qed
qed

lemma hard_loop_covered:
  assumes "sorted_wrt (<) offs" "length offs = Suc nRunes" "start \<le> nRunes" "0 < limit"
  shows "{offs ! start..<offs ! nRunes} \<subseteq> covered (hard_loop c ul content offs nRunes limit start)"
  using assms
proof (induction c ul content offs nRunes limit start rule: hard_loop.induct)
  case (1 c ul content offs nRunes limit start)
  show ?case
  proof (cases "start < nRunes")
    case True
    let ?e = "hard_end c ul content offs nRunes limit start"
    have e: "start < ?e" "?e \<le> nRunes" using hard_end_range [OF True 1(5)] by auto
    have "hard_loop c ul content offs nRunes limit start = (offs ! start, offs ! ?e) # hard_loop c ul content offs nRunes limit ?e"
      using True 1(5) by (subst hard_loop.simps) (simp add: Let_def)
    moreover have "{offs ! ?e..<offs ! nRunes} \<subseteq> covered (hard_loop c ul content offs nRunes limit ?e)"
      using 1 True e by blast
    ultimately show ?thesis by (simp add: subset_iff) (meson not_le)
  next
    case False
    then have "start = nRunes" using 1(4) by simp
    then show ?thesis by simp
  qed
qed

lemma hardCut_covered:
  assumes "fst p < snd p" "snd p \<le> length content"
  shows "{fst p..<snd p} \<subseteq> covered (hardCut c ul content p)"
proof -
  let ?offs = "rune_offsets (fst p) (cut content p) @ [snd p]"
  have "cut content p \<noteq> []" using assms by (auto simp: cut_def sublst_def)
  then have z: "?offs ! 0 = fst p" by (simp add: rune_offsets.simps)
  show ?thesis
    using hard_loop_covered [OF cut_offsets(1), of p content "length ?offs - 1" 0 "maxSize c" c ul content] maxSize_pos [of c] z
    by (simp add: hardCut_def Let_def)
qed

lemma splitOversizedPiece_covered:
  assumes "fst p < snd p" "snd p \<le> length content"
  shows "{fst p..<snd p} \<inter> inked content \<subseteq> covered (splitOversizedPiece c ul content p)"
proof -
  let ?f = "\<lambda>w. if ul (cut content w) \<le> maxSize c then [w] else hardCut c ul content w"
  have f: "{fst w..<snd w} \<inter> inked content \<subseteq> covered (?f w)" if "w \<in> set (splitWhitespace content p)" for w
    using chain_member [OF splitWhitespace_chain that, OF less_imp_le [OF assms(1)]] assms(2)
      hardCut_covered [of w content c ul] by auto
  have "{fst p..<snd p} \<inter> inked content \<subseteq> covered (splitWhitespace content p) \<inter> inked content"
    using splitWhitespace_covered [of p content] assms isSpace_byte_space by (fastforce simp: inked_def)
  also have "\<dots> \<subseteq> covered (concat (map ?f (splitWhitespace content p)))" by (rule covered_concat) (rule f)
  finally show ?thesis using hardCut_covered [OF assms, of c ul] by (auto simp: splitOversizedPiece_def Let_def)
qed

end
