(* ===== verification/Rag_Pack.thy ===== *)
theory Rag_Pack
  imports Rag_Chunk_Laws
begin

text \<open>
  The packing loop of the chunker and the windows of a whole document: they form a ladder (starts never
  decrease, ends increase), fit the budget and cover every byte that is not white space.
\<close>

section \<open>Packing\<close>

text \<open>Windows between \<open>a\<close> and \<open>b\<close>: starts never decrease, ends increase.\<close>

definition ladder :: "nat \<Rightarrow> nat \<Rightarrow> span list \<Rightarrow> bool" where
  "ladder a b ws \<longleftrightarrow> a \<le> b \<and> sorted_wrt (\<lambda>s t. fst s \<le> fst t \<and> snd s < snd t) ws
    \<and> (\<forall>s \<in> set ws. a \<le> fst s \<and> fst s < snd s \<and> snd s \<le> b)"

lemma ladder_Nil [simp]: "ladder a b [] \<longleftrightarrow> a \<le> b"
  by (simp add: ladder_def)

lemma ladder_weaken: "ladder a b ws \<Longrightarrow> a' \<le> a \<Longrightarrow> b \<le> b' \<Longrightarrow> ladder a' b' ws"
  by (force simp: ladder_def)

lemma ladder_append: "ladder a b xs \<Longrightarrow> ladder b d ys \<Longrightarrow> ladder a d (xs @ ys)"
  by (fastforce simp: ladder_def sorted_wrt_append)

text \<open>A window that starts inside the last one and ends later.\<close>

lemma ladder_overlap:
  assumes "ladder a k (ws @ [w])" "fst w \<le> s" "s \<le> snd w" "k \<le> t" "t < e"
  shows "ladder a e (ws @ [w] @ [(s, e)])"
  using assms by (fastforce simp: ladder_def sorted_wrt_append)

text \<open>Replacing the last window by one with the same start and a later end.\<close>

lemma ladder_extend: "ladder a k (ws @ [w]) \<Longrightarrow> k \<le> t \<Longrightarrow> t < e \<Longrightarrow> ladder a e (ws @ [(fst w, e)])"
  by (fastforce simp: ladder_def sorted_wrt_append)

lemma ladder_butlast: "ladder a k (ws @ [w]) \<Longrightarrow> ladder a k ws"
  by (auto simp: ladder_def sorted_wrt_append)

lemma overlap_words_range:
  "\<forall>w \<in> set ws. a \<le> fst w \<and> fst w \<le> b \<Longrightarrow> a \<le> start \<Longrightarrow> start \<le> b \<Longrightarrow>
    a \<le> overlap_words ul content e n start ws \<and> overlap_words ul content e n start ws \<le> b"
  by (induction ul content e n start ws rule: overlap_words.induct) auto

lemma overlapPoint_range:
  assumes "fst p \<le> snd p"
  shows "fst p \<le> overlapPoint content p n ul \<and> overlapPoint content p n ul \<le> snd p"
proof -
  have "\<forall>w \<in> set (rev (splitWhitespace content p)). fst p \<le> fst w \<and> fst w \<le> snd p"
    using chain_member [OF splitWhitespace_chain [OF assms]] by fastforce
  then show ?thesis using overlap_words_range [of _ "fst p" "snd p" "snd p"] assms by (simp add: overlapPoint_def Let_def)
qed

text \<open>The state of the packing loop: the finished windows with the current one, if there is one.\<close>

definition windows_of :: "span list \<Rightarrow> span \<Rightarrow> nat \<Rightarrow> span list" where
  "windows_of spans cur n = (if n > 0 then spans @ [cur] else spans)"

definition packed :: "Chunker \<Rightarrow> units \<Rightarrow> string \<Rightarrow> nat \<Rightarrow> nat \<Rightarrow> span list \<Rightarrow> bool" where
  "packed c ul content a k ws \<longleftrightarrow> ladder a k ws \<and> (\<forall>s \<in> set ws. fits c ul content s)"

definition inky :: "units \<Rightarrow> bool" where
  "inky ul \<longleftrightarrow> (\<forall>s. s \<noteq> [] \<longrightarrow> 0 < ul s)"

lemma packed_append: "packed c ul content a b xs \<Longrightarrow> packed c ul content b d ys \<Longrightarrow> packed c ul content a d (xs @ ys)"
  by (auto simp: packed_def intro: ladder_append)

lemma packed_weaken: "packed c ul content a b ws \<Longrightarrow> a' \<le> a \<Longrightarrow> b \<le> b' \<Longrightarrow> packed c ul content a' b' ws"
  by (auto simp: packed_def intro: ladder_weaken)

lemma packed_single: "fst p < snd p \<Longrightarrow> fits c ul content p \<Longrightarrow> packed c ul content (fst p) (snd p) [p]"
  by (simp add: packed_def ladder_def)

lemma inky_cut: "inky ul \<Longrightarrow> fst p < snd p \<Longrightarrow> snd p \<le> length content \<Longrightarrow> 0 < ul (cut content p)"
  by (auto simp: inky_def cut_def sublst_def)

lemma pack_step_new:
  assumes "packed c ul content a k spans" "k \<le> fst p" "fst p < snd p" "fits c ul content p"
  shows "packed c ul content a (snd p) (spans @ [p])"
  using packed_append [OF packed_weaken [OF assms(1) order_refl assms(2)] packed_single [OF assms(3,4)]] .

definition pack_goal :: "Chunker \<Rightarrow> units \<Rightarrow> string \<Rightarrow> nat \<Rightarrow> nat \<Rightarrow> span list \<Rightarrow> span list \<Rightarrow> span list \<Rightarrow> bool" where
  "pack_goal c ul content a b ws pieces res \<longleftrightarrow> packed c ul content a b res
    \<and> (inky ul \<longrightarrow> covered ws \<union> (covered pieces \<inter> inked content) \<subseteq> covered res)"


lemma pack_goal_step:
  assumes "pack_goal c ul content a b ws' pieces res"
    "inky ul \<Longrightarrow> covered ws \<union> ({fst piece..<snd piece} \<inter> inked content) \<subseteq> covered ws'"
  shows "pack_goal c ul content a b ws (piece # pieces) res"
  using assms by (auto simp: pack_goal_def)

lemma windows_of_0 [simp]: "windows_of spans cur 0 = spans"
  by (simp add: windows_of_def)

lemma pack_loop_spec:
  assumes "units_ok c ul" "packed c ul content a k (windows_of spans cur n)" "n \<le> maxSize c" "chain k b pieces"
    "b \<le> length content" "0 < n \<longrightarrow> fst cur < snd cur"
  shows "pack_goal c ul content a b (windows_of spans cur n) pieces (pack_loop c ul content spans cur n pieces)"
  using assms
proof (induction c ul content spans cur n pieces arbitrary: a k b rule: pack_loop.induct)
  case (1 c ul content spans cur curLen)
  then show ?case by (auto simp: pack_goal_def windows_of_def dest: packed_weaken chain_le)
next
  case (2 c ul content spans cur n piece pieces)
  let ?L = "ul (cut content piece)" and ?ws = "windows_of spans cur n"
  let ?ov = "overlapPoint content cur (effectiveOverlap c) ul"
  have piece: "k \<le> fst piece" "fst piece < snd piece" "snd piece \<le> b" "chain (snd piece) b pieces" "snd piece \<le> length content"
    using "2.prems" by auto
  note uo = \<open>units_ok c ul\<close> and pk = \<open>packed c ul content a k ?ws\<close>
  have lad: "ladder a k ?ws" and fit: "\<forall>s \<in> set ?ws. fits c ul content s" using pk by (auto simp: packed_def)
  note in_piece = inky_cut [of ul piece content, OF _ piece(2,5)]
  consider (whole) "?L > maxSize c" "splitOversizedPiece c ul content piece = [piece]"
    | (sub) "?L > maxSize c" "splitOversizedPiece c ul content piece \<noteq> [piece]"
    | (first) "?L \<le> maxSize c" "n = 0"
    | (over) "?L \<le> maxSize c" "0 < n" "ul (cut content (fst cur, snd piece)) > maxSize c"
        "?ov < snd cur \<and> ul (cut content (?ov, snd piece)) \<le> maxSize c"
    | (flush) "?L \<le> maxSize c" "0 < n" "ul (cut content (fst cur, snd piece)) > maxSize c"
        "\<not> (?ov < snd cur \<and> ul (cut content (?ov, snd piece)) \<le> maxSize c)"
    | (extend) "?L \<le> maxSize c" "0 < n" "ul (cut content (fst cur, snd piece)) \<le> maxSize c"
    by (meson neq0_conv not_le)
  then show ?case
  proof cases
    case whole
    have e: "pack_loop c ul content spans cur n (piece # pieces) = pack_loop c ul content (?ws @ [piece]) (0, 0) 0 pieces"
      using whole by (simp add: windows_of_def Let_def)
    have f: "fits c ul content piece"
      using splitOversizedPiece_fits [OF uo piece(2,5), of piece] whole(2) by simp
    have "pack_goal c ul content a b (windows_of (?ws @ [piece]) (0, 0) 0) pieces (pack_loop c ul content (?ws @ [piece]) (0, 0) 0 pieces)"
      using "2.IH"(1) [OF refl _ refl refl, folded windows_of_def, OF whole uo _ _ piece(4) "2.prems"(5)]
        pack_step_new [OF pk piece(1,2) f] by simp
    then show ?thesis unfolding e by (rule pack_goal_step) auto
  next
    case sub
    let ?sub = "splitOversizedPiece c ul content piece"
    let ?r = "pack_loop c ul content [] (0, 0) 0 ?sub"
    have e: "pack_loop c ul content spans cur n (piece # pieces) = pack_loop c ul content (?ws @ ?r) (0, 0) 0 pieces"
      using sub by (simp add: windows_of_def Let_def)
    have r: "pack_goal c ul content (fst piece) (snd piece) [] ?sub ?r"
      using "2.IH"(2) [OF refl sub(1) refl refl sub(2) uo, of "fst piece" "fst piece" "snd piece"]
        splitOversizedPiece_chain [of piece c ul content] piece by (simp add: packed_def)
    have up: "packed c ul content a (fst piece) ?ws" by (rule packed_weaken [OF pk order_refl piece(1)])
    have "packed c ul content a (snd piece) (?ws @ ?r)"
      using packed_append [OF up] r by (simp add: pack_goal_def)
    then have "pack_goal c ul content a b (windows_of (?ws @ ?r) (0, 0) 0) pieces (pack_loop c ul content (?ws @ ?r) (0, 0) 0 pieces)"
      using "2.IH"(3) [OF refl sub(1) refl refl sub(2) uo, folded windows_of_def, OF _ _ piece(4) "2.prems"(5)] by simp
    then show ?thesis unfolding e
    proof (rule pack_goal_step)
      assume "inky ul"
      then show "covered ?ws \<union> {fst piece..<snd piece} \<inter> inked content \<subseteq> covered (windows_of (?ws @ ?r) (0, 0) 0)"
        using r splitOversizedPiece_covered [OF piece(2,5), of c ul] by (auto simp: pack_goal_def)
    qed
  next
    case first
    have e: "pack_loop c ul content spans cur n (piece # pieces) = pack_loop c ul content spans piece ?L pieces"
      using first by (simp add: Let_def)
    have f: "fits c ul content piece" using first by (simp add: fits_def)
    have "packed c ul content a (snd piece) (windows_of spans piece ?L)"
      using pack_step_new [OF pk piece(1,2) f] packed_weaken [OF pk order_refl, of "snd piece"] piece first
      by (auto simp: windows_of_def)
    then have "pack_goal c ul content a b (windows_of spans piece ?L) pieces (pack_loop c ul content spans piece ?L pieces)"
      using "2.IH"(6) [OF refl _ refl _ first(2) uo _ _ piece(4) "2.prems"(5)] first piece(2) by simp
    then show ?thesis unfolding e
      by (rule pack_goal_step) (use in_piece first in \<open>auto simp: windows_of_def\<close>)
  next
    case over
    let ?w = "(?ov, snd piece)" and ?m = "ul (cut content (?ov, snd piece))"
    have ws: "?ws = spans @ [cur]" using over by (simp add: windows_of_def)
    have cur: "fst cur < snd cur" "snd cur \<le> k" using "2.prems"(6) over lad by (auto simp: ws ladder_def)
    have ov: "fst cur \<le> ?ov" "?ov \<le> snd cur" using overlapPoint_range [of cur] cur by auto
    have e: "pack_loop c ul content spans cur n (piece # pieces) = pack_loop c ul content (spans @ [cur]) ?w ?m pieces"
      using over by (simp add: Let_def)
    have f: "fits c ul content ?w" using over by (simp add: fits_def)
    have "ladder a (snd piece) (spans @ [cur] @ [?w])"
      by (rule ladder_overlap [OF lad [unfolded ws] ov piece(1,2)])
    then have "packed c ul content a (snd piece) (windows_of (spans @ [cur]) ?w ?m)"
      using f fit packed_weaken [OF pk order_refl, of "snd piece"] piece over(2) by (auto simp: windows_of_def packed_def)
    then have "pack_goal c ul content a b (windows_of (spans @ [cur]) ?w ?m) pieces (pack_loop c ul content (spans @ [cur]) ?w ?m pieces)"
      using "2.IH"(4) [OF refl _ refl _ refl refl over(4) uo _ _ piece(4) "2.prems"(5)] over piece ov cur by simp
    then show ?thesis unfolding e
    proof (rule pack_goal_step)
      assume "inky ul"
      then have "0 < ?m" using inky_cut [of ul ?w content] piece ov cur by simp
      then show "covered ?ws \<union> {fst piece..<snd piece} \<inter> inked content \<subseteq> covered (windows_of (spans @ [cur]) ?w ?m)"
        using ov cur piece(1) by (auto simp: windows_of_def)
    qed
  next
    case flush
    have ws: "?ws = spans @ [cur]" using flush by (simp add: windows_of_def)
    have e: "pack_loop c ul content spans cur n (piece # pieces) = pack_loop c ul content (spans @ [cur]) piece ?L pieces"
      using flush by (auto simp: Let_def)
    have f: "fits c ul content piece" using flush by (simp add: fits_def)
    have "packed c ul content a (snd piece) (windows_of (spans @ [cur]) piece ?L)"
      using pack_step_new [OF pk piece(1,2) f] packed_weaken [OF pk order_refl, of "snd piece"] piece flush(2)
      by (auto simp: windows_of_def)
    then have "pack_goal c ul content a b (windows_of (spans @ [cur]) piece ?L) pieces (pack_loop c ul content (spans @ [cur]) piece ?L pieces)"
      using "2.IH"(5) [OF refl _ refl _ refl refl flush(4) uo _ _ piece(4) "2.prems"(5)] flush piece(2) by simp
    then show ?thesis unfolding e
      by (rule pack_goal_step) (use in_piece ws in \<open>auto simp: windows_of_def\<close>)
  next
    case extend
    let ?w = "(fst cur, snd piece)" and ?m = "ul (cut content (fst cur, snd piece))"
    have ws: "?ws = spans @ [cur]" using extend by (simp add: windows_of_def)
    have cur: "fst cur < snd cur" "snd cur \<le> k" using "2.prems"(6) extend lad by (auto simp: ws ladder_def)
    have e: "pack_loop c ul content spans cur n (piece # pieces) = pack_loop c ul content spans ?w ?m pieces"
      using extend by (simp add: Let_def)
    have f: "fits c ul content ?w" using extend by (simp add: fits_def)
    have "ladder a (snd piece) (spans @ [?w])" by (rule ladder_extend [OF lad [unfolded ws] piece(1,2)])
    moreover have "ladder a (snd piece) spans"
      using ladder_weaken [OF ladder_butlast [OF lad [unfolded ws]] order_refl, of "snd piece"] piece by simp
    ultimately have "packed c ul content a (snd piece) (windows_of spans ?w ?m)"
      using f fit by (auto simp: windows_of_def packed_def ws)
    then have "pack_goal c ul content a b (windows_of spans ?w ?m) pieces (pack_loop c ul content spans ?w ?m pieces)"
      using "2.IH"(7) [OF refl _ refl _ _ uo _ _ piece(4) "2.prems"(5)] extend piece cur by simp
    then show ?thesis unfolding e
    proof (rule pack_goal_step)
      assume "inky ul"
      then have "0 < ?m" using inky_cut [of ul ?w content] piece cur by simp
      then show "covered ?ws \<union> {fst piece..<snd piece} \<inter> inked content \<subseteq> covered (windows_of spans ?w ?m)"
        using cur piece(1,2) by (auto simp: windows_of_def ws)
    qed
  qed
qed

section \<open>Documents\<close>

lemma packUnit_spec:
  assumes "units_ok c ul" "fst p < snd p" "snd p \<le> length content"
  shows "packed c ul content (fst p) (snd p) (packUnit c ul content p)
    \<and> (inky ul \<longrightarrow> {fst p..<snd p} \<inter> inked content \<subseteq> covered (packUnit c ul content p))"
proof (cases "ul (cut content p) \<le> maxSize c")
  case True
  then show ?thesis using packed_single [OF assms(2)] by (simp add: packUnit_def fits_def)
next
  case False
  note s = splitSentences_spec [OF assms(2), of content]
  have "pack_goal c ul content (fst p) (snd p) [] (splitSentences content p) (packPieces c ul content (splitSentences content p))"
    using pack_loop_spec [OF assms(1), where content = content and a = "fst p" and k = "fst p" and spans = "[]" and cur = "(0, 0)"
        and n = 0 and pieces = "splitSentences content p" and b = "snd p"] s assms(3)
    by (simp add: packPieces_def packed_def)
  then show ?thesis using False s by (auto simp: packUnit_def pack_goal_def)
qed

lemma packed_concat:
  assumes "chain a b xs" "\<And>x. x \<in> set xs \<Longrightarrow> packed c ul content (fst x) (snd x) (f x)"
  shows "packed c ul content a b (concat (map f xs))"
  using assms
proof (induction xs arbitrary: a)
  case Nil
  then show ?case by (simp add: packed_def)
next
  case (Cons x xs)
  have "packed c ul content a (snd x) (f x)"
    using Cons.prems packed_weaken [OF Cons.prems(2) [of x], of a "snd x"] by simp
  moreover have "packed c ul content (snd x) b (concat (map f xs))" using Cons by simp
  ultimately show ?case by (simp add: packed_append)
qed

lemma mergeShortTrailing_spec:
  assumes "packed c ul content a b ws"
  shows "packed c ul content a b (mergeShortTrailing ws mn (maxSize c) (\<lambda>s. ul (cut content s)))
    \<and> covered ws \<subseteq> covered (mergeShortTrailing ws mn (maxSize c) (\<lambda>s. ul (cut content s)))"
proof (cases "2 \<le> length ws")
  case True
  obtain ys l where ys: "ws = ys @ [l]" using True by (cases ws rule: rev_cases) auto
  obtain xs p where "ys = xs @ [p]" using True ys by (cases ys rule: rev_cases) auto
  then have ws: "ws = xs @ [p] @ [l]" using ys by simp
  have lad: "ladder a b (xs @ [p] @ [l])" and fit: "\<forall>s \<in> set ws. fits c ul content s"
    using assms by (auto simp: packed_def ws)
  have m: "mergeShortTrailing ws mn (maxSize c) (\<lambda>s. ul (cut content s))
      = (if ul (cut content l) \<ge> mn then ws else if ul (cut content (fst p, snd l)) > maxSize c then ws else xs @ [(fst p, snd l)])"
    by (simp add: mergeShortTrailing_def ws Let_def nth_append)
  have "ladder a b (xs @ [(fst p, snd l)])"
    using lad by (fastforce simp: ladder_def sorted_wrt_append)
  moreover have "covered ws \<subseteq> covered (xs @ [(fst p, snd l)])"
    using lad by (auto simp: ws ladder_def sorted_wrt_append)
  ultimately show ?thesis using assms fit unfolding m by (auto simp: packed_def fits_def ws)
next
  case False
  then show ?thesis using assms by (simp add: mergeShortTrailing_def)
qed

lemma doc_windows_spec:
  assumes "units_ok c ul" "chain 0 b (splitParagraphs content)" "b \<le> length content"
  shows "packed c ul content 0 b (doc_windows c ul content)"
    and "inky ul \<Longrightarrow> inked content \<subseteq> covered (doc_windows c ul content)"
proof -
  let ?ps = "splitParagraphs content"
  have pu: "packed c ul content (fst p) (snd p) (packUnit c ul content p)"
    "inky ul \<longrightarrow> {fst p..<snd p} \<inter> inked content \<subseteq> covered (packUnit c ul content p)" if "p \<in> set ?ps" for p
    using packUnit_spec [OF assms(1), of p content] chain_member [OF assms(2) that] assms(3) by auto
  have pk: "packed c ul content 0 b (concat (map (packUnit c ul content) ?ps))"
    by (rule packed_concat [OF assms(2)]) (rule pu(1))
  show "packed c ul content 0 b (doc_windows c ul content)"
    using mergeShortTrailing_spec [OF pk] by (simp add: doc_windows_def)
  assume "inky ul"
  then have "covered ?ps \<inter> inked content \<subseteq> covered (concat (map (packUnit c ul content) ?ps))"
    using pu(2) by (intro covered_concat) blast
  then show "inked content \<subseteq> covered (doc_windows c ul content)"
    using mergeShortTrailing_spec [OF pk, of "minSize c"] splitParagraphs_spec(2) [of content] by (auto simp: doc_windows_def)
qed

lemma unitLen_ok: "units_ok c (unitLen scanMax u strip c)"
  by (simp add: units_ok_def unitLen_def)

lemma unitLen_inky: "chunker_Tokenizer c = None \<Longrightarrow> inky (unitLen scanMax u strip c)"
  by (auto simp: inky_def unitLen_def runes.simps)

lemma Split_nth:
  "i < length (Split scanMax u strip c d) \<Longrightarrow> Split scanMax u strip c d ! i
    = \<lparr>chunk_DocID = doc_ID d, chunk_Index = i, chunk_Text = cut (doc_Text d) (doc_windows c (unitLen scanMax u strip c) (doc_Text d) ! i),
       chunk_Start = fst (doc_windows c (unitLen scanMax u strip c) (doc_Text d) ! i),
       chunk_End = snd (doc_windows c (unitLen scanMax u strip c) (doc_Text d) ! i)\<rparr>"
  by (auto simp: Split_def Let_def split: if_splits)

lemma doc_windows_Nil [simp]: "doc_windows c ul [] = []"
  by (simp add: doc_windows_def mergeShortTrailing_def splitParagraphs_def paragraphs_loop.simps add_trimmed_def
      trimSpan_def trim_left.simps)

lemma length_Split: "length (Split scanMax u strip c d) = length (doc_windows c (unitLen scanMax u strip c) (doc_Text d))"
  by (simp add: Split_def Let_def)

text \<open>The windows of a document, up to its last byte that is not white space.\<close>

lemma paragraphs_before_space:
  assumes "content \<noteq> []" "byte_space (last content)"
  shows "chain 0 (length content - 1) (splitParagraphs content)"
proof -
  have "snd p \<le> length content - 1" if "p \<in> set (splitParagraphs content)" for p
  proof -
    have "snd p \<noteq> length content"
      using splitParagraphs_spec(3) [OF that] assms by (auto simp: last_conv_nth)
    then show ?thesis using chain_member [OF splitParagraphs_spec(1) that] by arith
  qed
  moreover have "chain a n xs" if "chain a m xs" "\<forall>p \<in> set xs. snd p \<le> n" "a \<le> n" for a m n xs
    using that by (induction xs arbitrary: a) auto
  ultimately show ?thesis using splitParagraphs_spec(1) by blast
qed

text \<open>A chunk is a slice of its document.\<close>

lemma Split_slice:
  assumes "c \<in> set (Split scanMax u strip ch d)"
  shows "chunk_Text c = sublst (doc_Text d) (chunk_Start c) (chunk_End c) \<and> chunk_Start c \<le> chunk_End c
    \<and> chunk_End c \<le> length (doc_Text d) \<and> chunk_DocID c = doc_ID d"
proof -
  obtain i where i: "i < length (Split scanMax u strip ch d)" "c = Split scanMax u strip ch d ! i"
    using assms by (auto simp: in_set_conv_nth)
  let ?w = "doc_windows ch (unitLen scanMax u strip ch) (doc_Text d)"
  have "packed ch (unitLen scanMax u strip ch) (doc_Text d) 0 (length (doc_Text d)) ?w"
    by (rule doc_windows_spec(1) [OF unitLen_ok splitParagraphs_spec(1) order_refl])
  moreover have "?w ! i \<in> set ?w" using i by (simp add: length_Split)
  ultimately show ?thesis using i Split_nth [of i scanMax u strip ch d] by (auto simp: packed_def ladder_def cut_def)
qed

end
