(* ===== verification/Rag_Chunk_Contract.thy ===== *)
theory Rag_Chunk_Contract
  imports Rag_Pack "HOL-Library.Code_Target_Nat"
begin

text \<open>
  The properties of the chunker: chunks fit and are slices, lose no text, come in order, and one defect
  of the trimming.
\<close>

lemma Split_window:
  assumes "ch \<in> set (Split scanMax u strip c d)"
  obtains s where "s \<in> set (doc_windows c (unitLen scanMax u strip c) (doc_Text d))" "chunk_Start ch = fst s" "chunk_End ch = snd s"
    "chunk_Text ch = cut (doc_Text d) s"
proof -
  let ?w = "doc_windows c (unitLen scanMax u strip c) (doc_Text d)"
  obtain i where i: "i < length ?w" "ch = Split scanMax u strip c d ! i"
    using assms length_Split [of scanMax u strip c d] by (auto simp: in_set_conv_nth)
  then show thesis using that [OF nth_mem [OF i(1)]] Split_nth [of i scanMax u strip c d] length_Split [of scanMax u strip c d] by simp
qed

lemma Split_packed:
  "packed c (unitLen scanMax u strip c) (doc_Text d) 0 (length (doc_Text d)) (doc_windows c (unitLen scanMax u strip c) (doc_Text d))"
  by (rule doc_windows_spec(1) [OF unitLen_ok splitParagraphs_spec(1) order_refl])

definition rune_chunker :: "int \<Rightarrow> Chunker" where
  "rune_chunker n = \<lparr>MaxRunes = n, OverlapRunes = 2, MinRunes = 1, chunker_Tokenizer = None, TitlePrefix = False\<rparr>"

definition text_doc :: "string \<Rightarrow> Doc" where
  "text_doc s = \<lparr>doc_ID = ''d'', doc_Title = [], doc_Path = [], doc_Text = s, doc_Time = None, doc_Kind = [], doc_Meta = None\<rparr>"

definition chunk_of :: "nat \<Rightarrow> string \<Rightarrow> nat \<Rightarrow> nat \<Rightarrow> Chunk" where
  "chunk_of i s a b = \<lparr>chunk_DocID = ''d'', chunk_Index = i, chunk_Text = s, chunk_Start = a, chunk_End = b\<rparr>"

text \<open>
  C14. Every chunk is a non-empty slice of the document at the offsets it names and fits the budget; the
  one exception is a chunk of a single rune, which is never cut. Without a tokenizer there is no
  exception: the chunk has at most \<open>maxSize\<close> runes.
\<close>

theorem Split_chunks_fit:
  assumes "ch \<in> set (Split scanMax u strip c d)"
  shows "chunk_Text ch = sublst (doc_Text d) (chunk_Start ch) (chunk_End ch)
    \<and> chunk_Start ch < chunk_End ch \<and> chunk_End ch \<le> length (doc_Text d) \<and> chunk_DocID ch = doc_ID d
    \<and> (unitLen scanMax u strip c (chunk_Text ch) \<le> maxSize c \<or> length (runes (chunk_Text ch)) = 1)
    \<and> (chunker_Tokenizer c = None \<longrightarrow> length (runes (chunk_Text ch)) \<le> maxSize c)"
proof -
  obtain s where s: "s \<in> set (doc_windows c (unitLen scanMax u strip c) (doc_Text d))" "chunk_Start ch = fst s" "chunk_End ch = snd s"
    "chunk_Text ch = cut (doc_Text d) s" using Split_window [OF assms] .
  have "fst s < snd s" "snd s \<le> length (doc_Text d)" "fits c (unitLen scanMax u strip c) (doc_Text d) s"
    using Split_packed [of c scanMax u strip d] s(1) by (auto simp: packed_def ladder_def)
  moreover have "chunk_DocID ch = doc_ID d" using assms by (auto simp: Split_def Let_def split: if_splits)
  moreover have "1 \<le> maxSize c" using maxSize_pos [of c] by simp
  ultimately show ?thesis using s by (auto simp: cut_def fits_def unitLen_def)
qed

lemma sample_split:
  "Split 0 ascii_tables id (rune_chunker 6) (text_doc ''ab cd. efg hi jk. l'')
    = [chunk_of 0 ''ab cd.'' 0 6, chunk_of 1 ''efg hi'' 7 13, chunk_of 2 ''hi jk.'' 11 17, chunk_of 3 ''l'' 18 19]"
  by code_simp

lemma Split_chunks_fit_witness: "length (runes ''hi jk.'') \<le> maxSize (rune_chunker 6)"
proof -
  have m: "chunk_of 2 ''hi jk.'' 11 17 \<in> set (Split 0 ascii_tables id (rune_chunker 6) (text_doc ''ab cd. efg hi jk. l''))"
    unfolding sample_split by simp
  have n: "chunker_Tokenizer (rune_chunker 6) = None" by (simp add: rune_chunker_def)
  have t: "chunk_Text (chunk_of 2 ''hi jk.'' 11 17) = ''hi jk.''" by (simp add: chunk_of_def)
  have "length (runes (chunk_Text (chunk_of 2 ''hi jk.'' 11 17))) \<le> maxSize (rune_chunker 6)"
    using Split_chunks_fit [OF m] n by blast
  then show ?thesis by (simp only: t)
qed

lemma byte_space_bytes: "byte_space b \<longleftrightarrow> ord b \<in> {9, 10, 11, 12, 13, 32, 133, 160 :: nat}"
proof -
  have lt: "ord b < 256" by simp
  have "ord b \<noteq> n" if "256 \<le> n" for n using lt that by linarith
  then show ?thesis by (auto simp: byte_space_def IsSpace_def space_runes_def)
qed

text \<open>
  C15. Without a tokenizer, every chunk is the slice of the document that its offsets name, and every byte that lies in
  no chunk is a space byte to the code, which tests single bytes: ASCII white space, \<open>0x85\<close> or \<open>0xA0\<close> (\<open>Split_drops_last_byte\<close> shows what
  the last two cost). The chunks are numbered in order; their starts never decrease and their ends increase.
\<close>

theorem Split_covers:
  assumes "chunker_Tokenizer c = None" "chunks = Split scanMax u strip c d"
  shows "(\<forall>ch \<in> set chunks. chunk_DocID ch = doc_ID d \<and> chunk_Start ch \<le> chunk_End ch \<and> chunk_End ch \<le> length (doc_Text d)
      \<and> chunk_Text ch = sublst (doc_Text d) (chunk_Start ch) (chunk_End ch))
    \<and> (\<forall>i < length (doc_Text d). ord (doc_Text d ! i) \<notin> {9, 10, 11, 12, 13, 32, 133, 160}
         \<longrightarrow> (\<exists>ch \<in> set chunks. chunk_Start ch \<le> i \<and> i < chunk_End ch))
    \<and> map chunk_Index chunks = [0..<length chunks]
    \<and> sorted_wrt (\<lambda>a b. chunk_Start a \<le> chunk_Start b \<and> chunk_End a < chunk_End b) chunks"
proof (intro conjI ballI allI impI)
  let ?w = "doc_windows c (unitLen scanMax u strip c) (doc_Text d)"
  have spans: "map (\<lambda>ch. (chunk_Start ch, chunk_End ch)) chunks = ?w"
    by (rule nth_equalityI) (simp_all add: assms(2) length_Split Split_nth)
  show "\<exists>ch \<in> set chunks. chunk_Start ch \<le> i \<and> i < chunk_End ch"
    if "i < length (doc_Text d)" "ord (doc_Text d ! i) \<notin> {9, 10, 11, 12, 13, 32, 133, 160}" for i
  proof -
    have "\<not> byte_space (doc_Text d ! i)" using byte_space_bytes that(2) by blast
    note that = that(1) this
    have "i \<in> covered ?w"
      using doc_windows_spec(2) [OF unitLen_ok splitParagraphs_spec(1) order_refl unitLen_inky [OF assms(1)], where content = "doc_Text d"] that
      by (auto simp: inked_def)
    then obtain s where "s \<in> set (map (\<lambda>ch. (chunk_Start ch, chunk_End ch)) chunks)" "fst s \<le> i" "i < snd s"
      unfolding spans by (auto simp: covered_def)
    then show ?thesis by auto
  qed
  show "chunk_DocID ch = doc_ID d" "chunk_Start ch \<le> chunk_End ch" "chunk_End ch \<le> length (doc_Text d)"
    "chunk_Text ch = sublst (doc_Text d) (chunk_Start ch) (chunk_End ch)" if "ch \<in> set chunks" for ch
    using Split_slice [of ch scanMax u strip c d] that unfolding assms(2) by blast+
  show "map chunk_Index chunks = [0..<length chunks]"
    by (rule nth_equalityI) (simp_all add: assms(2) Split_nth)
  have "sorted_wrt (\<lambda>s t. fst s \<le> fst t \<and> snd s < snd t) (map (\<lambda>ch. (chunk_Start ch, chunk_End ch)) chunks)"
    unfolding spans using Split_packed [of c scanMax u strip d] by (simp add: packed_def ladder_def)
  then show "sorted_wrt (\<lambda>a b. chunk_Start a \<le> chunk_Start b \<and> chunk_End a < chunk_End b) chunks"
    by (simp add: sorted_wrt_map)
qed

lemma Split_covers_witness:
  "\<exists>ch \<in> set (Split 0 ascii_tables id (rune_chunker 6) (text_doc ''ab cd. efg hi jk. l'')). chunk_Start ch \<le> 12 \<and> 12 < chunk_End ch"
  by (rule Split_covers [OF _ refl, THEN conjunct2, THEN conjunct1, rule_format]) code_simp+

text \<open>
  C16. The trimming of paragraphs reads single bytes as code points, and \<open>unicode.IsSpace\<close> holds of
  \<open>U+0085\<close> and \<open>U+00A0\<close>: a document whose last byte is \<open>0x85\<close> or \<open>0xA0\<close>, such as the last byte of the
  two-byte encoding of a letter, loses that byte, for every chunk ends before it.
\<close>

theorem Split_drops_last_byte:
  assumes "doc_Text d \<noteq> []" "ord (last (doc_Text d)) \<in> {133, 160}" "ch \<in> set (Split scanMax u strip c d)"
  shows "chunk_End ch < length (doc_Text d)"
proof -
  have "byte_space (last (doc_Text d))" using assms(2) by (auto simp: byte_space_def IsSpace_def space_runes_def)
  note chain = paragraphs_before_space [OF assms(1) this]
  obtain s where s: "s \<in> set (doc_windows c (unitLen scanMax u strip c) (doc_Text d))" "chunk_End ch = snd s"
    using Split_window [OF assms(3)] by metis
  have "packed c (unitLen scanMax u strip c) (doc_Text d) 0 (length (doc_Text d) - 1) (doc_windows c (unitLen scanMax u strip c) (doc_Text d))"
    by (rule doc_windows_spec(1) [OF unitLen_ok chain]) simp
  then have "snd s \<le> length (doc_Text d) - 1" using s(1) by (auto simp: packed_def ladder_def)
  then show ?thesis using s(2) assms(1) by (cases "doc_Text d") auto
qed

lemma sample_drop:
  "Split 0 ascii_tables id (rune_chunker 9) (text_doc (''voil'' @ [CHR 0xC3, CHR 0xA0])) = [chunk_of 0 (''voil'' @ [CHR 0xC3]) 0 5]"
  by code_simp

lemma Split_drops_last_byte_witness: "chunk_End (chunk_of 0 (''voil'' @ [CHR 0xC3]) 0 5) < length (''voil'' @ [CHR 0xC3, CHR 0xA0])"
  using Split_drops_last_byte [of "text_doc (''voil'' @ [CHR 0xC3, CHR 0xA0])" "chunk_of 0 (''voil'' @ [CHR 0xC3]) 0 5" 0 ascii_tables id "rune_chunker 9"]
    sample_drop by (simp add: text_doc_def)

end
