(* ===== verification/Rag_Bm25.thy ===== *)
theory Rag_Bm25
  imports Rag_Chunk Complex_Main
begin

text \<open>
  The BM25 index (\<^verbatim>\<open>rag/bm25.go\<close>): terms of a text, postings with corpus statistics, and scores.

  A Go map is an association list with distinct keys. Floating point is a parameter: the operations the
  code applies to \<^verbatim>\<open>float64\<close> and \<^verbatim>\<open>float32\<close> are the fields of a record; a constant is the rational it
  denotes.
\<close>

section \<open>Terms\<close>

definition isJoiner :: "rune \<Rightarrow> bool" where
  "isJoiner c \<longleftrightarrow> c \<in> {45, 95, 46, 47}"

definition isWord :: "unicode_tables \<Rightarrow> rune \<Rightarrow> bool" where
  "isWord u c \<longleftrightarrow> IsLetter u c \<or> IsDigit u c"

text \<open>The end of the run of runes with a property from index \<open>i\<close> on.\<close>

function run_end :: "(rune \<Rightarrow> bool) \<Rightarrow> rune list \<Rightarrow> nat \<Rightarrow> nat" where
  "run_end P r i = (if i < length r \<and> P (r ! i) then run_end P r (Suc i) else i)"
  by pat_completeness auto
termination by (relation "measure (\<lambda>(P, r, i). length r - i)") auto

declare run_end.simps [simp del]

lemma run_end_ge: "i \<le> run_end P r i"
  by (induction P r i rule: run_end.induct) (subst run_end.simps, auto)

lemma run_end_step: "i < length r \<Longrightarrow> P (r ! i) \<Longrightarrow> i < run_end P r i"
  using run_end_ge [of "Suc i" P r] by (subst run_end.simps) simp

function tokenize_loop :: "unicode_tables \<Rightarrow> rune list \<Rightarrow> nat \<Rightarrow> string list \<Rightarrow> string list" where
  "tokenize_loop u r i terms =
    (if i < length r then
       (if \<not> isWord u (r ! i) then tokenize_loop u r (Suc i) terms
        else let start = i; i = run_end (isWord u) r i;
                 terms = terms @ [string_of_runes (sublst r start i)];
                 j = run_end (\<lambda>c. isJoiner c \<or> isWord u c) r (i + 1);
                 terms = (if i < length r \<and> isJoiner (r ! i) \<and> j > i + 1 \<and> isWord u (r ! (j - 1))
                          then terms @ [string_of_runes (sublst r start j)] else terms)
             in tokenize_loop u r i terms)
     else terms)"
  by pat_completeness auto
termination
  by (relation "measure (\<lambda>(u, r, i, terms). length r - i)") (auto intro!: diff_less_mono2 run_end_step)

declare tokenize_loop.simps [simp del]

definition tokenize :: "unicode_tables \<Rightarrow> string \<Rightarrow> string list" where
  "tokenize u s = tokenize_loop u (runes (strings_ToLower u s)) 0 []"

section \<open>The index\<close>

definition get_or :: "('k, 'v) gomap \<Rightarrow> 'k \<Rightarrow> 'v \<Rightarrow> 'v" where
  "get_or m k d = (case map_of m k of Some v \<Rightarrow> v | None \<Rightarrow> d)"

record bm25Index =
  postings :: "(string, (string, nat) gomap) gomap"
  bm_df :: "(string, int) gomap"
  bm_length :: "(string, nat) gomap"
  totalLength :: int
  stopwords :: "string list"

definition newBM25Index :: "string list \<Rightarrow> bm25Index" where
  "newBM25Index stop = \<lparr>postings = [], bm_df = [], bm_length = [], totalLength = 0, stopwords = stop\<rparr>"

definition count_term :: "(string, nat) gomap \<Rightarrow> string \<Rightarrow> (string, nat) gomap" where
  "count_term freq t = AList.update t (get_or freq t 0 + 1) freq"

definition add_posting :: "string \<Rightarrow> (string, (string, nat) gomap) gomap \<times> (string, int) gomap \<Rightarrow> string \<times> nat \<Rightarrow>
    (string, (string, nat) gomap) gomap \<times> (string, int) gomap" where
  "add_posting key st tf = (case st of (ps, df) \<Rightarrow> case tf of (t, f) \<Rightarrow>
     (let chunks = get_or ps t [];
          df = (if map_of chunks key = None then AList.update t (get_or df t 0 + 1) df else df)
      in (AList.update t (AList.update key f chunks) ps, df)))"

definition bm_add :: "unicode_tables \<Rightarrow> string \<Rightarrow> string \<Rightarrow> bm25Index \<Rightarrow> bm25Index" where
  "bm_add u key content b =
    (let terms = filter (\<lambda>t. t \<notin> set (stopwords b)) (tokenize u content);
         freq = foldl count_term [] terms;
         total = length terms;
         (ps, df) = foldl (add_posting key) (postings b, bm_df b) freq
     in b\<lparr>postings := ps, bm_df := df, bm_length := AList.update key total (bm_length b),
          totalLength := totalLength b + int total\<rparr>)"

definition remove_posting :: "string \<Rightarrow> (string, (string, nat) gomap) gomap \<times> (string, int) gomap \<Rightarrow> string \<times> (string, nat) gomap \<Rightarrow>
    (string, (string, nat) gomap) gomap \<times> (string, int) gomap" where
  "remove_posting key st tc = (case st of (ps, df) \<Rightarrow> case tc of (t, chunks) \<Rightarrow>
     (if map_of chunks key = None then (ps, df)
      else let chunks = AList.delete key chunks; df = AList.update t (get_or df t 0 - 1) df
           in if chunks = [] then (AList.delete t ps, AList.delete t df) else (AList.update t chunks ps, df)))"

definition bm_remove :: "string \<Rightarrow> bm25Index \<Rightarrow> bm25Index" where
  "bm_remove key b = (case map_of (bm_length b) key of None \<Rightarrow> b
     | Some len \<Rightarrow>
        (let (ps, df) = foldl (remove_posting key) (postings b, bm_df b) (postings b)
         in b\<lparr>postings := ps, bm_df := df, bm_length := AList.delete key (bm_length b),
              totalLength := totalLength b - int len\<rparr>))"

section \<open>Scores\<close>

datatype LexicalMode = LexicalAny | LexicalAll

record ('f, 'g) floats =
  f_of_int :: "int \<Rightarrow> 'f"
  f_const :: "rat \<Rightarrow> 'f"
  f_add :: "'f \<Rightarrow> 'f \<Rightarrow> 'f"
  f_sub :: "'f \<Rightarrow> 'f \<Rightarrow> 'f"
  f_mul :: "'f \<Rightarrow> 'f \<Rightarrow> 'f"
  f_div :: "'f \<Rightarrow> 'f \<Rightarrow> 'f"
  f_log :: "'f \<Rightarrow> 'f"
  f_pow :: "'f \<Rightarrow> 'f \<Rightarrow> 'f"
  f_narrow :: "'f \<Rightarrow> 'g"
  g_const :: "rat \<Rightarrow> 'g"
  g_add :: "'g \<Rightarrow> 'g \<Rightarrow> 'g"
  g_sub :: "'g \<Rightarrow> 'g \<Rightarrow> 'g"
  g_mul :: "'g \<Rightarrow> 'g \<Rightarrow> 'g"
  g_div :: "'g \<Rightarrow> 'g \<Rightarrow> 'g"
  g_less :: "'g \<Rightarrow> 'g \<Rightarrow> bool"
  g_eq :: "'g \<Rightarrow> 'g \<Rightarrow> bool"
  g_finite :: "'g \<Rightarrow> bool"

definition bm25IDF :: "('f, 'g) floats \<Rightarrow> int \<Rightarrow> int \<Rightarrow> 'f" where
  "bm25IDF fl n df = f_log fl (f_add fl (f_const fl 1)
     (f_div fl (f_add fl (f_sub fl (f_of_int fl n) (f_of_int fl df)) (f_const fl (1 / 2)))
       (f_add fl (f_of_int fl df) (f_const fl (1 / 2)))))"

definition avgdl :: "('f, 'g) floats \<Rightarrow> bm25Index \<Rightarrow> 'f" where
  "avgdl fl b = (if length (bm_length b) = 0 then f_const fl 0
     else f_div fl (f_of_int fl (totalLength b)) (f_of_int fl (int (length (bm_length b)))))"

text \<open>\<open>bm25K1\<close> is 1.2 and \<open>bm25B\<close> is 0.75; Go folds \<open>bm25K1 + 1\<close> and \<open>1 - bm25B\<close> exactly.\<close>

definition term_score :: "('f, 'g) floats \<Rightarrow> bm25Index \<Rightarrow> 'f \<Rightarrow> string \<Rightarrow> nat \<Rightarrow> 'g" where
  "term_score fl b idf key f =
    (let dl = f_of_int fl (int (get_or (bm_length b) key 0));
         ff = f_of_int fl (int f);
         denom = f_add fl ff (f_mul fl (f_const fl (6 / 5))
           (f_add fl (f_const fl (1 / 4)) (f_div fl (f_mul fl (f_const fl (3 / 4)) dl) (avgdl fl b))))
     in f_narrow fl (f_div fl (f_mul fl idf (f_mul fl ff (f_const fl (11 / 5)))) denom))"

definition score_chunk :: "('f, 'g) floats \<Rightarrow> bm25Index \<Rightarrow> 'f \<Rightarrow> (string, 'g) gomap \<times> (string, nat) gomap \<Rightarrow> string \<times> nat \<Rightarrow>
    (string, 'g) gomap \<times> (string, nat) gomap" where
  "score_chunk fl b idf st kf = (case st of (res, matched) \<Rightarrow> case kf of (key, f) \<Rightarrow>
     (AList.update key (g_add fl (get_or res key (g_const fl 0)) (term_score fl b idf key f)) res,
      AList.update key (get_or matched key 0 + 1) matched))"

definition score_term :: "('f, 'g) floats \<Rightarrow> bm25Index \<Rightarrow> (string, 'g) gomap \<times> (string, nat) gomap \<Rightarrow> string \<Rightarrow>
    (string, 'g) gomap \<times> (string, nat) gomap" where
  "score_term fl b st t = (case map_of (postings b) t of None \<Rightarrow> st
     | Some chunks \<Rightarrow> foldl (score_chunk fl b (bm25IDF fl (int (length (bm_length b))) (get_or (bm_df b) t 0))) st chunks)"

text \<open>The distinct terms of the query that are no stop words, in order of first occurrence.\<close>

fun distinct_terms :: "string list \<Rightarrow> string list \<Rightarrow> string list \<Rightarrow> string list" where
  "distinct_terms stop seen [] = seen"
| "distinct_terms stop seen (t # ts) =
    (if t \<in> set stop \<or> t \<in> set seen then distinct_terms stop seen ts else distinct_terms stop (seen @ [t]) ts)"

definition scores :: "('f, 'g) floats \<Rightarrow> unicode_tables \<Rightarrow> bm25Index \<Rightarrow> string \<Rightarrow> LexicalMode \<Rightarrow> (string, 'g) gomap" where
  "scores fl u b query mode =
    (let terms = distinct_terms (stopwords b) [] (tokenize u query) in
     if terms = [] \<or> length (bm_length b) = 0 then []
     else let (res, matched) = foldl (score_term fl b) ([], []) terms in
       if mode = LexicalAll
       then foldl (\<lambda>res (key, count). if count < length terms then AList.delete key res else res) res matched
       else res)"

end
