(* ===== verification/Rag_Bm25_Laws.thy ===== *)
theory Rag_Bm25_Laws
  imports Rag_Bm25
begin

text \<open>
  What the BM25 state means: it represents a finite map from chunk keys to their terms. Adding a new key
  and removing a key are updates of that map, so no stale posting or statistic survives.
\<close>

section \<open>Maps\<close>

lemma map_of_update [simp]: "map_of (AList.update k v al) = (map_of al)(k \<mapsto> v)"
  by (rule update_conv')

lemma map_of_delete' [simp]: "map_of (AList.delete k al) = (map_of al)(k := None)"
  by (rule delete_conv')

lemma update_fresh: "map_of al k = None \<Longrightarrow> AList.update k v al = al @ [(k, v)]"
  by (induction al) (auto split: if_splits)

lemma length_update: "length (AList.update k v al) = (if map_of al k = None then Suc (length al) else length al)"
  by (induction al) auto

lemma length_delete: "gomap_wf al \<Longrightarrow> length (AList.delete k al) = (if map_of al k = None then length al else length al - 1)"
proof (induction al)
  case (Cons x al)
  show ?case
  proof (cases "fst x = k")
    case True
    then have "AList.delete k al = al" using Cons.prems
      by (auto simp: gomap_wf_def AList.delete_eq filter_id_conv image_iff)
    then show ?thesis using True by (auto simp: AList.delete_eq)
  next
    case False
    then have "length (AList.delete k (x # al)) = Suc (length (AList.delete k al))" by (cases x) auto
    moreover have "map_of al k \<noteq> None \<Longrightarrow> 0 < length al" by (cases al) auto
    ultimately show ?thesis using Cons False by (cases x) (auto simp: gomap_wf_def)
  qed
qed (simp add: gomap_wf_def)

lemma delete_absent: "map_of al k = None \<Longrightarrow> AList.delete k al = al"
  by (induction al) (auto split: if_splits)

lemma sum_delete: "gomap_wf al \<Longrightarrow> map_of al k = Some v \<Longrightarrow> sum_list (map snd (AList.delete k al)) + v = (sum_list (map snd al) :: nat)"
proof (induction al)
  case (Cons x al)
  show ?case
  proof (cases "fst x = k")
    case True
    then have "map_of al k = None" using Cons.prems(1) by (auto simp: gomap_wf_def map_of_eq_None_iff)
    then show ?thesis using True Cons.prems(2) by (cases x) (simp add: delete_absent)
  next
    case False
    then show ?thesis using Cons by (cases x) (auto simp: gomap_wf_def)
  qed
qed simp

lemma wf_member: "gomap_wf al \<Longrightarrow> (k, v) \<in> set al \<longleftrightarrow> map_of al k = Some v"
  by (simp add: gomap_wf_def)

lemma map_of_Nil_iff: "al = [] \<longleftrightarrow> map_of al = Map.empty"
  by (cases al) (auto dest: fun_cong)

section \<open>Term counts\<close>

lemma count_terms:
  "gomap_wf acc \<Longrightarrow> gomap_wf (foldl count_term acc ts)
    \<and> map_of (foldl count_term acc ts) t = (if t \<in> set ts then Some (get_or acc t 0 + count_list ts t) else map_of acc t)"
proof (induction ts arbitrary: acc)
  case (Cons x ts)
  have "gomap_wf (count_term acc x)" using Cons.prems by (simp add: count_term_def)
  from Cons.IH [OF this] show ?case
    by (auto simp: count_term_def get_or_def count_list_0_iff)
qed simp

section \<open>Representation\<close>

type_synonym corpus = "string \<Rightarrow> string list option"

definition posting :: "(string, (string, nat) gomap) gomap \<Rightarrow> string \<Rightarrow> string \<Rightarrow> nat option" where
  "posting ps t k = (case map_of ps t of None \<Rightarrow> None | Some chunks \<Rightarrow> map_of chunks k)"

text \<open>Postings without phantom entries, and a document frequency for every posting list.\<close>

definition postings_ok :: "(string, (string, nat) gomap) gomap \<Rightarrow> (string, int) gomap \<Rightarrow> bool" where
  "postings_ok ps df \<longleftrightarrow> gomap_wf ps \<and> gomap_wf df
    \<and> (\<forall>t chunks. map_of ps t = Some chunks \<longrightarrow> gomap_wf chunks \<and> chunks \<noteq> [])
    \<and> (\<forall>t. map_of df t = map_option (\<lambda>chunks. int (length chunks)) (map_of ps t))"

definition term_count :: "corpus \<Rightarrow> string \<Rightarrow> string \<Rightarrow> nat option" where
  "term_count ts t k = (case ts k of None \<Rightarrow> None | Some ws \<Rightarrow> if t \<in> set ws then Some (count_list ws t) else None)"

definition bm_rep :: "corpus \<Rightarrow> bm25Index \<Rightarrow> bool" where
  "bm_rep ts b \<longleftrightarrow> postings_ok (postings b) (bm_df b) \<and> posting (postings b) = term_count ts
    \<and> gomap_wf (bm_length b) \<and> map_of (bm_length b) = (\<lambda>k. map_option length (ts k))
    \<and> totalLength b = int (sum_list (map snd (bm_length b)))"

lemma bm_rep_new: "bm_rep Map.empty (newBM25Index stop)"
  by (auto simp: bm_rep_def newBM25Index_def postings_ok_def posting_def term_count_def fun_eq_iff)

section \<open>Adding a chunk\<close>

lemma add_posting_ok:
  assumes ok: "postings_ok ps df" and fresh: "posting ps t key = None" and r: "add_posting key (ps, df) (t, f) = (ps', df')"
  shows "postings_ok ps' df' \<and> posting ps' = (\<lambda>t' k. if t' = t \<and> k = key then Some f else posting ps t' k)"
proof -
  let ?c = "get_or ps t []"
  have c: "map_of ?c key = None" "gomap_wf ?c" using fresh ok by (auto simp: posting_def get_or_def postings_ok_def split: option.splits)
  have ps': "ps' = AList.update t (AList.update key f ?c) ps" and df': "df' = AList.update t (get_or df t 0 + 1) df"
    using r c by (auto simp: add_posting_def Let_def)
  have dft: "get_or df t 0 = int (length ?c)" using ok by (auto simp: postings_ok_def get_or_def split: option.splits)
  have "AList.update key f ?c \<noteq> []" using c(1) by (simp add: update_fresh)
  then have "postings_ok ps' df'" using ok c dft unfolding ps' df' postings_ok_def by (auto simp: length_update)
  moreover have "posting ps' = (\<lambda>t' k. if t' = t \<and> k = key then Some f else posting ps t' k)"
    unfolding ps' by (intro ext) (auto simp: posting_def get_or_def split: option.splits)
  ultimately show ?thesis by blast
qed

lemma add_postings:
  assumes "postings_ok ps df" "gomap_wf freq" "\<forall>t. map_of freq t \<noteq> None \<longrightarrow> posting ps t key = None"
    "foldl (add_posting key) (ps, df) freq = (ps', df')"
  shows "postings_ok ps' df' \<and> posting ps' = (\<lambda>t k. if k = key \<and> map_of freq t \<noteq> None then map_of freq t else posting ps t k)"
  using assms
proof (induction freq arbitrary: ps df)
  case Nil
  then show ?case by (auto simp: fun_eq_iff)
next
  case (Cons x freq)
  obtain t f where x: "x = (t, f)" by (cases x)
  obtain ps1 df1 where s: "add_posting key (ps, df) (t, f) = (ps1, df1)" by fastforce
  have fr: "posting ps t key = None" using Cons.prems(3) x by simp
  note one = add_posting_ok [OF Cons.prems(1) fr s]
  have p1: "posting ps1 t' k = (if t' = t \<and> k = key then Some f else posting ps t' k)" for t' k using one by simp
  have nt: "map_of freq t = None" using Cons.prems(2) x by (auto simp: gomap_wf_def map_of_eq_None_iff)
  have "\<forall>t'. map_of freq t' \<noteq> None \<longrightarrow> posting ps1 t' key = None"
  proof (intro allI impI)
    fix t'
    assume t': "map_of freq t' \<noteq> None"
    then have "t' \<noteq> t" using nt by auto
    then show "posting ps1 t' key = None" using t' Cons.prems(3) by (simp add: p1 x)
  qed
  moreover have "foldl (add_posting key) (ps1, df1) freq = (ps', df')" using Cons.prems(4) s x by simp
  moreover have "gomap_wf freq" using Cons.prems(2) by (auto simp: gomap_wf_def)
  ultimately have ih: "postings_ok ps' df'" "posting ps' = (\<lambda>t k. if k = key \<and> map_of freq t \<noteq> None then map_of freq t else posting ps1 t k)"
    using Cons.IH one by blast+
  show ?case using ih(1) nt unfolding ih(2) by (auto simp: x p1 fun_eq_iff)
qed

definition chunk_terms :: "unicode_tables \<Rightarrow> bm25Index \<Rightarrow> string \<Rightarrow> string list" where
  "chunk_terms u b content = filter (\<lambda>t. t \<notin> set (stopwords b)) (tokenize u content)"

lemma bm_add_rep:
  assumes rep: "bm_rep ts b" and fresh: "ts key = None"
  shows "bm_rep (ts(key \<mapsto> chunk_terms u b content)) (bm_add u key content b)"
    and "stopwords (bm_add u key content b) = stopwords b"
proof -
  let ?ws = "chunk_terms u b content"
  let ?freq = "foldl count_term [] ?ws"
  obtain ps df where f: "foldl (add_posting key) (postings b, bm_df b) ?freq = (ps, df)" by fastforce
  have b': "bm_add u key content b = b\<lparr>postings := ps, bm_df := df, bm_length := AList.update key (length ?ws) (bm_length b),
      totalLength := totalLength b + int (length ?ws)\<rparr>"
    using f by (simp add: bm_add_def Let_def chunk_terms_def)
  show "stopwords (bm_add u key content b) = stopwords b" by (simp add: b')
  have wf: "gomap_wf ?freq" and fr: "map_of ?freq t = (if t \<in> set ?ws then Some (count_list ?ws t) else None)" for t
    using count_terms [of "[]" ?ws t] by (auto simp: get_or_def)
  have p: "posting (postings b) = term_count ts" and ok: "postings_ok (postings b) (bm_df b)" using rep by (auto simp: bm_rep_def)
  have "\<forall>t. map_of ?freq t \<noteq> None \<longrightarrow> posting (postings b) t key = None" using fresh by (simp add: p term_count_def)
  note a = add_postings [OF ok wf this f]
  have "posting ps = term_count (ts(key \<mapsto> ?ws))"
    unfolding conjunct2 [OF a] by (intro ext) (auto simp: p term_count_def fr fresh)
  moreover have "map_of (bm_length b) key = None" "gomap_wf (bm_length b)"
    and l: "map_of (bm_length b) = (\<lambda>k. map_option length (ts k))"
    and "totalLength b = int (sum_list (map snd (bm_length b)))" using rep fresh by (simp_all add: bm_rep_def)
  moreover have "map_of (AList.update key (length ?ws) (bm_length b)) = (\<lambda>k. map_option length ((ts(key \<mapsto> ?ws)) k))"
    using l by (simp add: fun_eq_iff)
  moreover have "sum_list (map snd (AList.update key (length ?ws) (bm_length b))) = sum_list (map snd (bm_length b)) + length ?ws"
    using \<open>map_of (bm_length b) key = None\<close> by (simp add: update_fresh)
  ultimately show "bm_rep (ts(key \<mapsto> ?ws)) (bm_add u key content b)"
    using conjunct1 [OF a] unfolding bm_rep_def b' by simp
qed

section \<open>Removing a chunk\<close>

lemma remove_posting_ok:
  assumes ok: "postings_ok ps df" and t: "map_of ps t = Some chunks" and r: "remove_posting key (ps, df) (t, chunks) = (ps', df')"
  shows "postings_ok ps' df' \<and> posting ps' = (\<lambda>t' k. if t' = t \<and> k = key then None else posting ps t' k)
    \<and> (\<forall>t'. t' \<noteq> t \<longrightarrow> map_of ps' t' = map_of ps t')"
proof -
  have c: "gomap_wf chunks" "chunks \<noteq> []" "map_of df t = Some (int (length chunks))" using ok t by (auto simp: postings_ok_def)
  show ?thesis
  proof (cases "map_of chunks key = None")
    case True
    then show ?thesis using r ok t by (auto simp: remove_posting_def posting_def fun_eq_iff)
  next
    case False
    have len: "int (length (AList.delete key chunks)) = int (length chunks) - 1"
      using length_delete [OF c(1), of key] False c(2) by (cases chunks) auto
    show ?thesis
    proof (cases "AList.delete key chunks = []")
      case True
      then have "ps' = AList.delete t ps" "df' = AList.delete t (AList.update t (get_or df t 0 - 1) df)"
        using r False by (auto simp: remove_posting_def Let_def)
      moreover have "map_of chunks k = None" if "k \<noteq> key" for k
        using True that by (metis delete_conv' fun_upd_other map_of.simps(1))
      ultimately show ?thesis using ok t by (auto simp: postings_ok_def posting_def fun_eq_iff split: option.splits)
    next
      case ne: False
      then have "ps' = AList.update t (AList.delete key chunks) ps" "df' = AList.update t (get_or df t 0 - 1) df"
        using r False by (auto simp: remove_posting_def Let_def)
      then show ?thesis using ok t ne c len
        by (auto simp: postings_ok_def posting_def get_or_def fun_eq_iff split: option.splits)
    qed
  qed
qed

lemma remove_postings:
  assumes "postings_ok ps df" "gomap_wf todo" "\<forall>t c. map_of todo t = Some c \<longrightarrow> map_of ps t = Some c"
    "foldl (remove_posting key) (ps, df) todo = (ps', df')"
  shows "postings_ok ps' df' \<and> posting ps' = (\<lambda>t k. if k = key \<and> map_of todo t \<noteq> None then None else posting ps t k)"
  using assms
proof (induction todo arbitrary: ps df)
  case Nil
  then show ?case by (auto simp: fun_eq_iff)
next
  case (Cons x todo)
  obtain t c where x: "x = (t, c)" by (cases x)
  obtain ps1 df1 where s: "remove_posting key (ps, df) (t, c) = (ps1, df1)" by fastforce
  have tc: "map_of ps t = Some c" using Cons.prems(3) x by simp
  note one = remove_posting_ok [OF Cons.prems(1) tc s]
  have nt: "map_of todo t = None" using Cons.prems(2) x by (auto simp: gomap_wf_def map_of_eq_None_iff)
  have "\<forall>t' c'. map_of todo t' = Some c' \<longrightarrow> map_of ps1 t' = Some c'"
  proof (intro allI impI)
    fix t' c'
    assume "map_of todo t' = Some c'"
    moreover from this have "t' \<noteq> t" using nt by auto
    ultimately show "map_of ps1 t' = Some c'" using one Cons.prems(3) x by simp
  qed
  moreover have "foldl (remove_posting key) (ps1, df1) todo = (ps', df')" using Cons.prems(4) s x by simp
  moreover have "gomap_wf todo" using Cons.prems(2) by (auto simp: gomap_wf_def)
  ultimately have ih: "postings_ok ps' df'" "posting ps' = (\<lambda>t k. if k = key \<and> map_of todo t \<noteq> None then None else posting ps1 t k)"
    using Cons.IH one by blast+
  have p1: "posting ps1 t' k = (if t' = t \<and> k = key then None else posting ps t' k)" for t' k using one by simp
  show ?case using ih(1) nt unfolding ih(2) by (auto simp: x p1 fun_eq_iff)
qed

lemma bm_remove_rep:
  assumes rep: "bm_rep ts b"
  shows "bm_rep (ts(key := None)) (bm_remove key b)" and "stopwords (bm_remove key b) = stopwords b"
proof -
  obtain ps df where f: "foldl (remove_posting key) (postings b, bm_df b) (postings b) = (ps, df)" by fastforce
  have ok: "postings_ok (postings b) (bm_df b)" and p: "posting (postings b) = term_count ts" using rep by (auto simp: bm_rep_def)
  have wf: "gomap_wf (postings b)" using ok by (simp add: postings_ok_def)
  note r = remove_postings [OF ok wf _ f]
  show "stopwords (bm_remove key b) = stopwords b" using f by (auto simp: bm_remove_def split: option.splits)
  show "bm_rep (ts(key := None)) (bm_remove key b)"
  proof (cases "ts key")
    case None
    then have "map_of (bm_length b) key = None" using rep by (simp add: bm_rep_def)
    moreover have "ts(key := None) = ts" using None by auto
    ultimately show ?thesis using rep by (simp add: bm_remove_def)
  next
    case (Some ws)
    then have l: "map_of (bm_length b) key = Some (length ws)" using rep by (simp add: bm_rep_def)
    have "posting ps = term_count (ts(key := None))"
    proof (intro ext)
      fix t k
      have n: "map_of (postings b) t = None \<Longrightarrow> posting (postings b) t k = None" by (simp add: posting_def)
      have e: "posting ps t k = (if k = key \<and> map_of (postings b) t \<noteq> None then None else posting (postings b) t k)"
        using r by simp
      show "posting ps t k = term_count (ts(key := None)) t k"
      proof (cases "k = key")
        case True
        then show ?thesis using e n by (simp add: term_count_def)
      next
        case False
        then show ?thesis using e p by (simp add: term_count_def)
      qed
    qed
    moreover have "bm_remove key b = b\<lparr>postings := ps, bm_df := df, bm_length := AList.delete key (bm_length b),
        totalLength := totalLength b - int (length ws)\<rparr>"
      using f l by (simp add: bm_remove_def)
    moreover have "sum_list (map snd (AList.delete key (bm_length b))) + length ws = sum_list (map snd (bm_length b))"
      using sum_delete [OF _ l] rep by (simp add: bm_rep_def)
    moreover have "map_of (AList.delete key (bm_length b)) = (\<lambda>k. map_option length ((ts(key := None)) k))"
      using rep by (simp add: bm_rep_def fun_eq_iff)
    ultimately show ?thesis using rep r by (simp add: bm_rep_def)
  qed
qed

section \<open>Scores\<close>

lemma score_chunks:
  assumes "gomap_wf chunks" "foldl (score_chunk fl b idf) (res, m) chunks = (res', m')"
    "\<forall>k. map_of res k = None \<longleftrightarrow> map_of m k = None"
  shows "(\<forall>k. map_of res' k = None \<longleftrightarrow> map_of m' k = None)
    \<and> (\<forall>k. map_of m' k = (if map_of chunks k = None then map_of m k else Some (get_or m k 0 + 1)))
    \<and> (gomap_wf m \<longrightarrow> gomap_wf m')"
  using assms
proof (induction chunks arbitrary: res m)
  case (Cons x chunks)
  obtain key f where x: "x = (key, f)" by (cases x)
  let ?res = "AList.update key (g_add fl (get_or res key (g_const fl 0)) (term_score fl b idf key f)) res"
  let ?m = "AList.update key (get_or m key 0 + 1) m"
  have n: "map_of chunks key = None" and wf: "gomap_wf chunks"
    using Cons.prems(1) x by (auto simp: gomap_wf_def map_of_eq_None_iff)
  have f: "foldl (score_chunk fl b idf) (?res, ?m) chunks = (res', m')"
    using Cons.prems(2) x by (simp add: score_chunk_def [of fl b idf "(res, m)"])
  have d: "\<forall>k. map_of ?res k = None \<longleftrightarrow> map_of ?m k = None" using Cons.prems(3) by simp
  note ih = Cons.IH [OF wf f d]
  have "map_of m' k = (if map_of (x # chunks) k = None then map_of m k else Some (get_or m k 0 + 1))" for k
    using ih n by (auto simp: x get_or_def)
  then show ?case using ih by simp
qed simp

lemma score_terms:
  assumes "postings_ok (postings b) (bm_df b)" "foldl (score_term fl b) (res, m) terms = (res', m')"
    "\<forall>k. map_of res k = None \<longleftrightarrow> map_of m k = None" "gomap_wf m"
    "\<forall>k n. map_of m k = Some n \<longrightarrow> 0 < n"
  shows "(\<forall>k. map_of res' k = None \<longleftrightarrow> map_of m' k = None) \<and> gomap_wf m' \<and> (\<forall>k n. map_of m' k = Some n \<longrightarrow> 0 < n)
    \<and> (\<forall>k. get_or m' k 0 = get_or m k 0 + length (filter (\<lambda>t. posting (postings b) t k \<noteq> None) terms))"
  using assms(2-)
proof (induction terms arbitrary: res m)
  case (Cons t terms)
  obtain res1 m1 where s: "score_term fl b (res, m) t = (res1, m1)" by fastforce
  have f: "foldl (score_term fl b) (res1, m1) terms = (res', m')" using Cons.prems(1) s by simp
  have one: "(\<forall>k. map_of res1 k = None \<longleftrightarrow> map_of m1 k = None) \<and> gomap_wf m1 \<and> (\<forall>k n. map_of m1 k = Some n \<longrightarrow> 0 < n)
    \<and> (\<forall>k. get_or m1 k 0 = get_or m k 0 + (if posting (postings b) t k \<noteq> None then 1 else 0))"
  proof (cases "map_of (postings b) t")
    case None
    then show ?thesis using s Cons.prems(2-) by (auto simp: score_term_def posting_def)
  next
    case (Some chunks)
    have wf: "gomap_wf chunks" using assms(1) Some by (auto simp: postings_ok_def)
    have g: "foldl (score_chunk fl b (bm25IDF fl (int (length (bm_length b))) (get_or (bm_df b) t 0))) (res, m) chunks = (res1, m1)"
      using s Some by (simp add: score_term_def)
    note sc = score_chunks [OF wf g Cons.prems(2)]
    then show ?thesis using Some Cons.prems(3,4) by (auto simp: posting_def get_or_def split: option.splits if_splits)
  qed
  then show ?case using Cons.IH [OF f] by (auto simp: Cons.prems)
qed simp

lemma distinct_terms_set: "set (distinct_terms stop seen ts) = set seen \<union> (set ts - set stop)"
  by (induction stop seen ts rule: distinct_terms.induct) auto

lemma drop_partial:
  "gomap_wf matched \<Longrightarrow> map_of (foldl (\<lambda>res (key, count). if count < n then AList.delete key res else res) res matched) k
    = (case map_of matched k of None \<Rightarrow> map_of res k | Some c \<Rightarrow> if c < n then None else map_of res k)"
proof (induction matched arbitrary: res)
  case (Cons x matched)
  obtain key c where x: "x = (key, c)" by (cases x)
  have wf: "gomap_wf matched" and n: "map_of matched key = None"
    using Cons.prems x by (auto simp: gomap_wf_def map_of_eq_None_iff)
  show ?case using Cons.IH [OF wf] n by (auto simp: x split: option.splits)
qed simp

lemma scores_dom:
  assumes rep: "bm_rep ts b" and terms: "terms = distinct_terms (stopwords b) [] (tokenize u query)" "terms \<noteq> []"
  shows "map_of (scores fl u b query mode) k \<noteq> None \<longleftrightarrow>
    (\<exists>ws. ts k = Some ws \<and> (if mode = LexicalAll then set terms \<subseteq> set ws else set terms \<inter> set ws \<noteq> {}))"
proof (cases "bm_length b = []")
  case True
  then have "ts k = None" using rep by (auto simp: bm_rep_def dest: fun_cong [of _ _ k])
  then show ?thesis using True by (simp add: scores_def)
next
  case False
  obtain res m where f: "foldl (score_term fl b) ([], []) terms = (res, m)" by fastforce
  have ok: "postings_ok (postings b) (bm_df b)" and p: "posting (postings b) = term_count ts" using rep by (auto simp: bm_rep_def)
  note st = score_terms [OF ok f]
  have dom: "map_of res k = None \<longleftrightarrow> map_of m k = None" and wf: "gomap_wf m" and pos: "\<forall>n. map_of m k = Some n \<longrightarrow> 0 < n"
    and cnt: "get_or m k 0 = length (filter (\<lambda>t. term_count ts t k \<noteq> None) terms)"
    using st p by (auto simp: get_or_def)
  have some: "map_of m k \<noteq> None \<longleftrightarrow> filter (\<lambda>t. term_count ts t k \<noteq> None) terms \<noteq> []"
    using cnt pos by (cases "map_of m k") (auto simp: get_or_def)
  have any: "filter (\<lambda>t. term_count ts t k \<noteq> None) terms \<noteq> [] \<longleftrightarrow> (\<exists>ws. ts k = Some ws \<and> set terms \<inter> set ws \<noteq> {})"
    by (auto simp: filter_empty_conv term_count_def split: option.splits if_splits)
  have all: "length (filter (\<lambda>t. term_count ts t k \<noteq> None) terms) < length terms \<longleftrightarrow> \<not> (\<exists>ws. ts k = Some ws \<and> set terms \<subseteq> set ws)"
  proof -
    have "length (filter (\<lambda>t. term_count ts t k \<noteq> None) terms) < length terms \<longleftrightarrow> (\<exists>t \<in> set terms. term_count ts t k = None)"
    proof
      assume l: "length (filter (\<lambda>t. term_count ts t k \<noteq> None) terms) < length terms"
      show "\<exists>t \<in> set terms. term_count ts t k = None"
      proof (rule ccontr)
        assume "\<not> ?thesis"
        then have "filter (\<lambda>t. term_count ts t k \<noteq> None) terms = terms" by (simp add: filter_id_conv)
        then show False using l by simp
      qed
    qed (use length_filter_less in fastforce)
    then show ?thesis using terms(2) by (cases "ts k") (auto simp: term_count_def neq_Nil_conv split: if_splits)
  qed
  have sub: "\<exists>ws. ts k = Some ws \<and> set terms \<subseteq> set ws \<Longrightarrow> \<exists>ws. ts k = Some ws \<and> set terms \<inter> set ws \<noteq> {}"
    using terms(2) by (cases terms) auto
  have e: "scores fl u b query mode = (if mode = LexicalAll
       then foldl (\<lambda>res (key, count). if count < length terms then AList.delete key res else res) res m else res)"
    using terms False f by (simp add: scores_def Let_def)
  show ?thesis
  proof (cases "mode = LexicalAll")
    case True
    have "map_of (scores fl u b query mode) k \<noteq> None \<longleftrightarrow> map_of m k \<noteq> None \<and> \<not> get_or m k 0 < length terms"
      unfolding e using True dom by (auto simp: drop_partial [OF wf] get_or_def split: option.splits)
    then show ?thesis using True some any all cnt sub by auto
  next
    case False
    then show ?thesis unfolding e using dom some any by auto
  qed
qed

end
