(* ===== verification/Rag_Index.thy ===== *)
theory Rag_Index
  imports Rag_Bm25_Laws Rag_Pack
begin

text \<open>
  The hybrid index (\<^verbatim>\<open>rag/index.go\<close>, \<^verbatim>\<open>persist.go\<close>): adding, replacing and removing documents, search,
  and snapshots.

  The embedder is a parameter: \<open>None\<close>, or a function from texts to vectors that may fail. The clock is a
  parameter of the recency score. The two operations run under the index lock, so each is one step.
\<close>

section \<open>State\<close>

record 'g Ranking =
  VectorWeight :: 'g
  KeywordWeight :: 'g
  RecencyWeight :: 'g
  RecencyHalfLife :: int
  KindWeight :: "(string, 'g) gomap"
  Stopwords :: "string list"

record 'g rag_Options =
  Embedder :: "(string list \<Rightarrow> string + 'g list list) option"
  EmbedderID :: string
  QueryPrefix :: string
  DocPrefix :: string
  opt_Chunker :: Chunker
  opt_Ranking :: "'g Ranking"

record docEntry =
  de_doc :: Doc
  de_chunkKeys :: "string list"

record 'g chunkEntry =
  ce_chunk :: Chunk
  ce_title :: string
  ce_path :: string
  ce_kind :: string
  ce_time :: "int option"
  ce_vector :: "'g list"

record 'g Index =
  ix_bm25 :: bm25Index
  ix_docs :: "(string, docEntry) gomap"
  ix_chunks :: "(string, 'g chunkEntry) gomap"
  ix_order :: "string list"
  ix_dim :: nat

text \<open>What the chunker and the terms depend on: the merge scan limit, Unicode and accent tables.\<close>

record tables =
  tab_scanMax :: nat
  tab_unicode :: unicode_tables
  tab_strip :: "rune \<Rightarrow> rune"

definition rag_New :: "'g rag_Options \<Rightarrow> 'g Index" where
  "rag_New opts = \<lparr>ix_bm25 = newBM25Index (Stopwords (opt_Ranking opts)), ix_docs = [], ix_chunks = [], ix_order = [], ix_dim = 0\<rparr>"

definition chunkKey :: "string \<Rightarrow> nat \<Rightarrow> string" where
  "chunkKey docID index = docID @ [CHR 0x00] @ Itoa index"

section \<open>Adding and removing documents\<close>

definition removeAll_keys :: "string list \<Rightarrow> string list \<Rightarrow> string list" where
  "removeAll_keys order remove = (if remove = [] then order else filter (\<lambda>k. k \<notin> set remove) order)"

definition drop_chunk :: "'g Index \<Rightarrow> string \<Rightarrow> 'g Index" where
  "drop_chunk ix key = ix\<lparr>ix_bm25 := bm_remove key (ix_bm25 ix), ix_chunks := AList.delete key (ix_chunks ix)\<rparr>"

definition drop_entry :: "docEntry \<Rightarrow> 'g Index \<Rightarrow> 'g Index" where
  "drop_entry e ix = (let ix = foldl drop_chunk ix (de_chunkKeys e)
     in ix\<lparr>ix_order := removeAll_keys (ix_order ix) (de_chunkKeys e)\<rparr>)"

text \<open>The state of the inner loop: the index, the new entry's keys and the unused vectors.\<close>

definition add_chunk :: "tables \<Rightarrow> bool \<Rightarrow> Doc \<Rightarrow> 'g Index \<times> string list \<times> 'g list list \<Rightarrow> Chunk \<Rightarrow> 'g Index \<times> string list \<times> 'g list list" where
  "add_chunk tab embedding d st c = (case st of (ix, keys, vectors) \<Rightarrow>
     (let key = chunkKey (doc_ID d) (chunk_Index c);
          bm = bm_add (tab_unicode tab) key (doc_Title d @ [CHR 0x0A] @ chunk_Text c) (ix_bm25 ix);
          vector = (if embedding then hd vectors else []);
          ce = \<lparr>ce_chunk = c, ce_title = doc_Title d, ce_path = doc_Path d, ce_kind = doc_Kind d, ce_time = doc_Time d, ce_vector = vector\<rparr>;
          dim = (if embedding \<and> ix_dim ix = 0 then length vector else ix_dim ix)
      in (ix\<lparr>ix_bm25 := bm, ix_chunks := AList.update key ce (ix_chunks ix), ix_order := ix_order ix @ [key], ix_dim := dim\<rparr>,
          keys @ [key], if embedding then tl vectors else vectors)))"

definition add_doc :: "tables \<Rightarrow> bool \<Rightarrow> 'g Index \<times> 'g list list \<Rightarrow> Doc \<times> Chunk list \<Rightarrow> 'g Index \<times> 'g list list" where
  "add_doc tab embedding st p = (case st of (ix, vectors) \<Rightarrow> case p of (d, chunks) \<Rightarrow>
     (let ix = (case map_of (ix_docs ix) (doc_ID d) of Some e \<Rightarrow> drop_entry e ix | None \<Rightarrow> ix);
          (ix, keys, vectors) = foldl (add_chunk tab embedding d) (ix, [], vectors) chunks
      in (ix\<lparr>ix_docs := AList.update (doc_ID d) \<lparr>de_doc = d, de_chunkKeys = keys\<rparr> (ix_docs ix)\<rparr>, vectors)))"

datatype rag_error = ContextDone | EmbedFailed string | EmbedCount nat nat | BadSnapshotVersion int | EmbedderMismatch string string
  | UnknownDoc string | SlicePanic

definition doc_chunks :: "tables \<Rightarrow> 'g rag_Options \<Rightarrow> Doc \<Rightarrow> Chunk list" where
  "doc_chunks tab opts d = Split (tab_scanMax tab) (tab_unicode tab) (tab_strip tab) (opt_Chunker opts) d"

definition embed_texts :: "'g rag_Options \<Rightarrow> (Doc \<times> Chunk list) list \<Rightarrow> string list" where
  "embed_texts opts plan = concat (map (\<lambda>(d, chunks). map (\<lambda>c. DocPrefix opts @
     (if TitlePrefix (opt_Chunker opts) \<and> doc_Title d \<noteq> [] then doc_Title d @ '' > '' @ chunk_Text c else chunk_Text c)) chunks) plan)"

definition rag_Add :: "tables \<Rightarrow> 'g rag_Options \<Rightarrow> bool \<Rightarrow> Doc list \<Rightarrow> 'g Index \<Rightarrow> rag_error option \<times> 'g Index" where
  "rag_Add tab opts ctxDone docs ix =
    (if docs = [] then (None, ix)
     else if ctxDone then (Some ContextDone, ix)
     else let plan = map (\<lambda>d. (d, doc_chunks tab opts d)) docs in
       case Embedder opts of
         None \<Rightarrow> (None, fst (foldl (add_doc tab False) (ix, []) plan))
       | Some emb \<Rightarrow>
          (let texts = embed_texts opts plan in
           if texts = [] then (None, fst (foldl (add_doc tab True) (ix, []) plan))
           else case emb texts of
             Inl e \<Rightarrow> (Some (EmbedFailed e), ix)
           | Inr results \<Rightarrow>
              (if length results \<noteq> length texts then (Some (EmbedCount (length results) (length texts)), ix)
               else (None, fst (foldl (add_doc tab True) (ix, results) plan)))))"

definition remove_doc :: "'g Index \<times> nat \<Rightarrow> string \<Rightarrow> 'g Index \<times> nat" where
  "remove_doc st id' = (case st of (ix, removed) \<Rightarrow>
     (case map_of (ix_docs ix) id' of None \<Rightarrow> (ix, removed)
      | Some e \<Rightarrow> (let ix = drop_entry e ix in (ix\<lparr>ix_docs := AList.delete id' (ix_docs ix)\<rparr>, removed + 1))))"

definition rag_Remove :: "string list \<Rightarrow> 'g Index \<Rightarrow> 'g Index \<times> nat" where
  "rag_Remove ids ix = foldl remove_doc (ix, 0) ids"

record DocInfo =
  info_ID :: string
  info_Title :: string
  info_Path :: string
  info_Kind :: string
  info_Time :: "int option"
  info_Chunks :: nat

definition list_step :: "'g Index \<Rightarrow> DocInfo list \<times> string list \<Rightarrow> string \<Rightarrow> DocInfo list \<times> string list" where
  "list_step ix st key = (case st of (infos, seen) \<Rightarrow>
     (case map_of (ix_chunks ix) key of None \<Rightarrow> st
      | Some ce \<Rightarrow> (let id' = chunk_DocID (ce_chunk ce) in
          if id' \<in> set seen then st
          else case map_of (ix_docs ix) id' of None \<Rightarrow> st
            | Some e \<Rightarrow> (infos @ [\<lparr>info_ID = doc_ID (de_doc e), info_Title = doc_Title (de_doc e), info_Path = doc_Path (de_doc e),
                info_Kind = doc_Kind (de_doc e), info_Time = doc_Time (de_doc e), info_Chunks = length (de_chunkKeys e)\<rparr>], seen @ [id']))))"

definition rag_List :: "'g Index \<Rightarrow> DocInfo list" where
  "rag_List ix = fst (foldl (list_step ix) ([], []) (ix_order ix))"

section \<open>Snapshots\<close>

record persistedDoc =
  pd_ID :: string
  pd_Title :: string
  pd_Path :: string
  pd_Text :: string
  pd_Kind :: string
  pd_Time :: "int option"
  pd_Meta :: "(string \<rightharpoonup> string) option"

record 'g persistedChunk =
  pc_DocID :: string
  pc_Index :: nat
  pc_Start :: int
  pc_End :: int
  pc_Vector :: "'g list"

record 'g snapshot =
  snap_Version :: int
  snap_EmbedderID :: string
  snap_Docs :: "persistedDoc list"
  snap_Chunks :: "'g persistedChunk list"

definition snapshotVersion :: int where
  "snapshotVersion = 1"

text \<open>\<open>Save\<close> and \<open>Load\<close> copy a document field by field.\<close>

definition persist_doc :: "Doc \<Rightarrow> persistedDoc" where
  "persist_doc d = \<lparr>pd_ID = doc_ID d, pd_Title = doc_Title d, pd_Path = doc_Path d, pd_Text = doc_Text d,
     pd_Kind = doc_Kind d, pd_Time = doc_Time d, pd_Meta = doc_Meta d\<rparr>"

definition restore_doc :: "persistedDoc \<Rightarrow> Doc" where
  "restore_doc p = \<lparr>doc_ID = pd_ID p, doc_Title = pd_Title p, doc_Path = pd_Path p, doc_Text = pd_Text p,
     doc_Time = pd_Time p, doc_Kind = pd_Kind p, doc_Meta = pd_Meta p\<rparr>"

definition rag_Save :: "'g rag_Options \<Rightarrow> 'g Index \<Rightarrow> 'g snapshot" where
  "rag_Save opts ix = \<lparr>snap_Version = snapshotVersion, snap_EmbedderID = EmbedderID opts,
     snap_Docs = map (\<lambda>(_, e). persist_doc (de_doc e)) (ix_docs ix),
     snap_Chunks = map (\<lambda>key. let ce = the (map_of (ix_chunks ix) key); c = ce_chunk ce in
       \<lparr>pc_DocID = chunk_DocID c, pc_Index = chunk_Index c, pc_Start = int (chunk_Start c), pc_End = int (chunk_End c),
         pc_Vector = ce_vector ce\<rparr>) (ix_order ix)\<rparr>"

definition load_doc :: "'g Index \<Rightarrow> persistedDoc \<Rightarrow> 'g Index" where
  "load_doc ix d = ix\<lparr>ix_docs := AList.update (pd_ID d) \<lparr>de_doc = restore_doc d, de_chunkKeys = []\<rparr> (ix_docs ix)\<rparr>"

definition load_chunk :: "tables \<Rightarrow> 'g Index \<Rightarrow> 'g persistedChunk \<Rightarrow> rag_error + 'g Index" where
  "load_chunk tab ix c =
    (case map_of (ix_docs ix) (pc_DocID c) of None \<Rightarrow> Inl (UnknownDoc (pc_DocID c))
     | Some e \<Rightarrow>
        (let d = de_doc e; key = chunkKey (pc_DocID c) (pc_Index c) in
         if \<not> (0 \<le> pc_Start c \<and> pc_Start c \<le> pc_End c \<and> pc_End c \<le> int (length (doc_Text d))) then Inl SlicePanic
         else let content = sublst (doc_Text d) (nat (pc_Start c)) (nat (pc_End c));
                  ce = \<lparr>ce_chunk = \<lparr>chunk_DocID = pc_DocID c, chunk_Index = pc_Index c, chunk_Text = content,
                           chunk_Start = nat (pc_Start c), chunk_End = nat (pc_End c)\<rparr>,
                         ce_title = doc_Title d, ce_path = doc_Path d, ce_kind = doc_Kind d, ce_time = doc_Time d, ce_vector = pc_Vector c\<rparr>
              in Inr (ix\<lparr>ix_bm25 := bm_add (tab_unicode tab) key (doc_Title d @ [CHR 0x0A] @ content) (ix_bm25 ix),
                   ix_chunks := AList.update key ce (ix_chunks ix), ix_order := ix_order ix @ [key],
                   ix_docs := AList.update (pc_DocID c) (e\<lparr>de_chunkKeys := de_chunkKeys e @ [key]\<rparr>) (ix_docs ix),
                   ix_dim := (if length (pc_Vector c) > 0 \<and> ix_dim ix = 0 then length (pc_Vector c) else ix_dim ix)\<rparr>)))"

fun load_chunks :: "tables \<Rightarrow> 'g Index \<Rightarrow> 'g persistedChunk list \<Rightarrow> rag_error + 'g Index" where
  "load_chunks tab ix [] = Inr ix"
| "load_chunks tab ix (c # cs) = (case load_chunk tab ix c of Inl e \<Rightarrow> Inl e | Inr ix \<Rightarrow> load_chunks tab ix cs)"

definition rag_Load :: "tables \<Rightarrow> 'g rag_Options \<Rightarrow> 'g snapshot \<Rightarrow> rag_error + 'g Index" where
  "rag_Load tab opts snap =
    (if snap_Version snap \<noteq> snapshotVersion then Inl (BadSnapshotVersion (snap_Version snap))
     else if snap_EmbedderID snap \<noteq> EmbedderID opts then Inl (EmbedderMismatch (snap_EmbedderID snap) (EmbedderID opts))
     else load_chunks tab (foldl load_doc (rag_New opts) (snap_Docs snap)) (snap_Chunks snap))"

end
