(* ===== verification/Rag_Search.thy ===== *)
theory Rag_Search
  imports Rag_Index
begin

text \<open>
  Searching the index (\<^verbatim>\<open>rag/index.go\<close>): candidates with their blended scores, the stable sort, and the
  selection of hits with its caps. The clock is the parameter \<open>now\<close>.
\<close>

record 'g Query =
  TopK :: int
  MinScore :: 'g
  MinVector :: 'g
  MaxChunksPerDoc :: int
  MaxDocs :: int
  Neighbours :: int
  q_Filter :: "(Doc \<Rightarrow> bool) option"
  Lexical :: LexicalMode

definition topK :: "'g Query \<Rightarrow> int" where
  "topK q = (if TopK q > 0 then TopK q else 5)"

definition minScore :: "('f, 'g) floats \<Rightarrow> 'g Query \<Rightarrow> 'g" where
  "minScore fl q = (if \<not> g_eq fl (MinScore q) (g_const fl 0) then MinScore q else g_const fl (1 / 4))"

definition maxChunksPerDoc :: "'g Query \<Rightarrow> int" where
  "maxChunksPerDoc q = (if MaxChunksPerDoc q \<noteq> 0 then MaxChunksPerDoc q else 2)"

definition effectiveWeights :: "('f, 'g) floats \<Rightarrow> 'g Ranking \<Rightarrow> 'g \<times> 'g \<times> 'g" where
  "effectiveWeights fl r =
    (if g_eq fl (VectorWeight r) (g_const fl 0) \<and> g_eq fl (KeywordWeight r) (g_const fl 0) \<and> g_eq fl (RecencyWeight r) (g_const fl 0)
     then (g_const fl (7 / 10), g_const fl (2 / 10), g_const fl (1 / 10))
     else (VectorWeight r, KeywordWeight r, RecencyWeight r))"

definition recencyHalfLife :: "'g Ranking \<Rightarrow> int" where
  "recencyHalfLife r = (if RecencyHalfLife r > 0 then RecencyHalfLife r else 180 * 24 * 3600000000000)"

definition recencyScore :: "('f, 'g) floats \<Rightarrow> int \<Rightarrow> int option \<Rightarrow> int \<Rightarrow> 'g" where
  "recencyScore fl now t halfLife = (case t of None \<Rightarrow> g_const fl 0
     | Some t \<Rightarrow> if halfLife \<le> 0 then g_const fl 0
        else let age = (if now - t < 0 then 0 else now - t)
             in f_narrow fl (f_pow fl (f_const fl (1 / 2)) (f_div fl (f_of_int fl age) (f_of_int fl halfLife))))"

definition dot :: "('f, 'g) floats \<Rightarrow> 'g list \<Rightarrow> 'g list \<Rightarrow> 'g" where
  "dot fl a b = foldl (\<lambda>sum (x, y). g_add fl sum (g_mul fl x y)) (g_const fl 0) (zip a b)"

record 'g scored =
  sc_key :: string
  sc_vecRaw :: 'g
  sc_kwRaw :: 'g
  sc_rec :: 'g
  sc_score :: 'g
  sc_lexicalOnly :: bool

definition max_keyword :: "('f, 'g) floats \<Rightarrow> (string, 'g) gomap \<Rightarrow> 'g" where
  "max_keyword fl kw = foldl (\<lambda>m (_, s). if g_less fl m s then s else m) (g_const fl 0) kw"

text \<open>The weights after renormalisation when there is no embedder.\<close>

definition search_weights :: "('f, 'g) floats \<Rightarrow> 'g rag_Options \<Rightarrow> 'g \<times> 'g \<times> 'g" where
  "search_weights fl opts =
    (let (vw, kw, rw) = effectiveWeights fl (opt_Ranking opts) in
     if Embedder opts = None then
       (let total = g_add fl kw rw in
        if g_less fl (g_const fl 0) total then (g_const fl 0, g_div fl kw total, g_div fl rw total)
        else (g_const fl 0, g_const fl 1, g_const fl 0))
     else (vw, kw, rw))"

text \<open>The last checks of a candidate: a finite score that reaches the threshold.\<close>

definition accept_score :: "('f, 'g) floats \<Rightarrow> 'g Query \<Rightarrow> 'g \<Rightarrow> 'g scored \<Rightarrow> 'g scored option" where
  "accept_score fl q recWeight c =
    (if \<not> g_finite fl (sc_score c) then None
     else let threshold = (if g_eq fl (sc_kwRaw c) (g_const fl 0) then g_sub fl (sc_score c) (g_mul fl recWeight (sc_rec c)) else sc_score c)
          in if g_less fl threshold (minScore fl q) then None else Some c)"

definition score_candidate :: "('f, 'g) floats \<Rightarrow> 'g rag_Options \<Rightarrow> int \<Rightarrow> 'g Query \<Rightarrow> (string, 'g) gomap \<Rightarrow> 'g list \<Rightarrow> string \<Rightarrow> 'g chunkEntry \<Rightarrow> 'g scored option" where
  "score_candidate fl opts now q kwScores qvec key ce =
    (let (vw, kwWeight, recWeight) = search_weights fl opts;
         maxKw = max_keyword fl kwScores;
         kwRaw = get_or kwScores key (g_const fl 0);
         vecRaw = (if Embedder opts \<noteq> None \<and> length qvec > 0 \<and> length (ce_vector ce) > 0 then dot fl qvec (ce_vector ce) else g_const fl 0)
     in if Embedder opts \<noteq> None \<and> g_less fl vecRaw (MinVector q) \<and> (g_less fl kwRaw (g_const fl 0) \<or> g_eq fl kwRaw (g_const fl 0)) then None
        else let lexicalOnly = (Embedder opts \<noteq> None \<and> g_less fl vecRaw (MinVector q) \<and> g_less fl (g_const fl 0) kwRaw);
                 kwNorm = (if g_less fl (g_const fl 0) maxKw then g_div fl kwRaw maxKw else g_const fl 0);
                 vecNorm = g_div fl (g_add fl vecRaw (g_const fl 1)) (g_const fl 2);
                 recNorm = recencyScore fl now (ce_time ce) (recencyHalfLife (opt_Ranking opts));
                 score = g_add fl (g_add fl (g_mul fl vw vecNorm) (g_mul fl kwWeight kwNorm)) (g_mul fl recWeight recNorm);
                 score = (if ce_kind ce \<noteq> [] then (case map_of (KindWeight (opt_Ranking opts)) (ce_kind ce) of
                            Some w \<Rightarrow> g_mul fl score w | None \<Rightarrow> score) else score)
             in accept_score fl q recWeight \<lparr>sc_key = key, sc_vecRaw = vecRaw, sc_kwRaw = kwNorm, sc_rec = recNorm, sc_score = score,
                  sc_lexicalOnly = lexicalOnly\<rparr>)"

definition candidate :: "('f, 'g) floats \<Rightarrow> 'g rag_Options \<Rightarrow> int \<Rightarrow> 'g Query \<Rightarrow> (string, 'g) gomap \<Rightarrow> 'g list \<Rightarrow> 'g Index \<Rightarrow> string \<Rightarrow> 'g scored option" where
  "candidate fl opts now q kwScores qvec ix key =
    (case map_of (ix_chunks ix) key of None \<Rightarrow> None
     | Some ce \<Rightarrow>
        (if (case (q_Filter q, map_of (ix_docs ix) (chunk_DocID (ce_chunk ce))) of (Some f, Some e) \<Rightarrow> \<not> f (de_doc e) | _ \<Rightarrow> False) then None
         else score_candidate fl opts now q kwScores qvec key ce))"

text \<open>Go compares strings by bytes.\<close>

fun str_less :: "string \<Rightarrow> string \<Rightarrow> bool" where
  "str_less [] ys = (ys \<noteq> [])"
| "str_less (x # xs) [] = False"
| "str_less (x # xs) (y # ys) = (ord x < ord y \<or> (ord x = ord y \<and> str_less xs ys))"

definition chunk_at :: "'g Index \<Rightarrow> string \<Rightarrow> Chunk" where
  "chunk_at ix key = ce_chunk (the (map_of (ix_chunks ix) key))"

definition scored_less :: "('f, 'g) floats \<Rightarrow> 'g Index \<Rightarrow> 'g scored \<Rightarrow> 'g scored \<Rightarrow> bool" where
  "scored_less fl ix a b =
    (if \<not> g_eq fl (sc_score a) (sc_score b) then g_less fl (sc_score b) (sc_score a)
     else let ci = chunk_at ix (sc_key a); cj = chunk_at ix (sc_key b) in
       if chunk_DocID ci \<noteq> chunk_DocID cj then str_less (chunk_DocID ci) (chunk_DocID cj)
       else chunk_Index ci < chunk_Index cj)"

text \<open>\<open>sort.SliceStable\<close>: stable insertion.\<close>

fun insert_stable :: "('a \<Rightarrow> 'a \<Rightarrow> bool) \<Rightarrow> 'a \<Rightarrow> 'a list \<Rightarrow> 'a list" where
  "insert_stable lt x [] = [x]"
| "insert_stable lt x (y # ys) = (if lt y x then y # insert_stable lt x ys else x # y # ys)"

definition SliceStable :: "('a \<Rightarrow> 'a \<Rightarrow> bool) \<Rightarrow> 'a list \<Rightarrow> 'a list" where
  "SliceStable lt xs = foldr (insert_stable lt) xs []"

section \<open>Selecting hits\<close>

record 'g Hit =
  hit_Chunk :: Chunk
  hit_Title :: string
  hit_Path :: string
  hit_Kind :: string
  hit_Time :: "int option"
  hit_Vector :: 'g
  hit_Keyword :: 'g
  hit_Recency :: 'g
  hit_Score :: 'g
  hit_LexicalOnly :: bool

text \<open>
  The neighbours' positions are \<open>int\<close> sums that wrap around; \<open>None\<close> is the panic of an index out of range.
\<close>

definition widen :: "'g Index \<Rightarrow> string \<Rightarrow> Chunk \<Rightarrow> int \<Rightarrow> Chunk option" where
  "widen ix docID c neighbours =
    (case map_of (ix_docs ix) docID of None \<Rightarrow> Some c
     | Some e \<Rightarrow>
        (let lo = max 0 (wrap64 (int (chunk_Index c) - neighbours));
             hi = min (int (length (de_chunkKeys e)) - 1) (wrap64 (int (chunk_Index c) + neighbours))
         in if lo = int (chunk_Index c) \<and> hi = int (chunk_Index c) then Some c
            else if lo \<ge> int (length (de_chunkKeys e)) \<or> hi < 0 then None
            else let loChunk = chunk_at ix (de_chunkKeys e ! nat lo); hiChunk = chunk_at ix (de_chunkKeys e ! nat hi)
                 in if \<not> (chunk_Start loChunk \<le> chunk_End hiChunk \<and> chunk_End hiChunk \<le> length (doc_Text (de_doc e))) then None
                    else Some \<lparr>chunk_DocID = chunk_DocID c, chunk_Index = chunk_Index c,
                     chunk_Text = sublst (doc_Text (de_doc e)) (chunk_Start loChunk) (chunk_End hiChunk),
                     chunk_Start = chunk_Start loChunk, chunk_End = chunk_End hiChunk\<rparr>))"

definition make_hit :: "'g Index \<Rightarrow> 'g Query \<Rightarrow> 'g scored \<Rightarrow> 'g Hit option" where
  "make_hit ix q c = (let ce = the (map_of (ix_chunks ix) (sc_key c));
      ch = (if Neighbours q > 0 then widen ix (chunk_DocID (ce_chunk ce)) (ce_chunk ce) (Neighbours q) else Some (ce_chunk ce))
    in map_option (\<lambda>ch. \<lparr>hit_Chunk = ch, hit_Title = ce_title ce, hit_Path = ce_path ce, hit_Kind = ce_kind ce, hit_Time = ce_time ce,
        hit_Vector = sc_vecRaw c, hit_Keyword = sc_kwRaw c, hit_Recency = sc_rec c, hit_Score = sc_score c,
        hit_LexicalOnly = sc_lexicalOnly c\<rparr>) ch)"

fun select_hits :: "'g Index \<Rightarrow> 'g Query \<Rightarrow> (string, nat) gomap \<Rightarrow> string list \<Rightarrow> 'g Hit list \<Rightarrow> 'g scored list \<Rightarrow> 'g Hit list option" where
  "select_hits ix q perDoc docsUsed hits [] = Some hits"
| "select_hits ix q perDoc docsUsed hits (c # cs) =
    (if int (length hits) \<ge> topK q then Some hits
     else let docID = chunk_DocID (chunk_at ix (sc_key c)) in
       if maxChunksPerDoc q > 0 \<and> int (get_or perDoc docID 0) \<ge> maxChunksPerDoc q then select_hits ix q perDoc docsUsed hits cs
       else if MaxDocs q > 0 \<and> docID \<notin> set docsUsed \<and> int (length docsUsed) \<ge> MaxDocs q then select_hits ix q perDoc docsUsed hits cs
       else (case make_hit ix q c of None \<Rightarrow> None
         | Some h \<Rightarrow> select_hits ix q (AList.update docID (get_or perDoc docID 0 + 1) perDoc) (List.insert docID docsUsed) (hits @ [h]) cs))"

definition query_vector :: "'g rag_Options \<Rightarrow> string \<Rightarrow> rag_error + 'g list" where
  "query_vector opts query = (case Embedder opts of None \<Rightarrow> Inr []
     | Some emb \<Rightarrow> (case emb [QueryPrefix opts @ query] of Inl e \<Rightarrow> Inl (EmbedFailed e)
         | Inr results \<Rightarrow> Inr (if length results = 1 then hd results else [])))"

definition rag_Search :: "('f, 'g) floats \<Rightarrow> tables \<Rightarrow> 'g rag_Options \<Rightarrow> bool \<Rightarrow> int \<Rightarrow> string \<Rightarrow> 'g Query \<Rightarrow> 'g Index \<Rightarrow> rag_error + 'g Hit list" where
  "rag_Search fl tab opts ctxDone now query q ix =
    (if ctxDone then Inl ContextDone
     else if ix_chunks ix = [] then Inr []
     else let kwScores = scores fl (tab_unicode tab) (ix_bm25 ix) query (Lexical q) in
       case query_vector opts query of
         Inl e \<Rightarrow> Inl e
       | Inr qvec \<Rightarrow> (case select_hits ix q [] [] []
           (SliceStable (scored_less fl ix) (List.map_filter (candidate fl opts now q kwScores qvec ix) (ix_order ix))) of
           None \<Rightarrow> Inl SlicePanic | Some hits \<Rightarrow> Inr hits))"

end
