(* ===== verification/Rag_Index_Laws.thy ===== *)
theory Rag_Index_Laws
  imports Rag_Index
begin

text \<open>
  The index implements a map from document ids to documents: an invariant ties the entries, chunks, keys,
  order and BM25 statistics to that map, and adding, replacing and removing documents are updates of it.
\<close>

section \<open>Chunk keys\<close>

lemma ord_digit: "d < 10 \<Longrightarrow> ord (chr (48 + d)) = 48 + d"
  by (simp add: chr_def)

lemma Itoa_value: "foldl (\<lambda>a c. 10 * a + (ord c - 48)) 0 (Itoa n) = n"
proof (induction n rule: Itoa.induct)
  case (1 n)
  show ?case
  proof (cases "n < 10")
    case True
    then show ?thesis by (simp add: Itoa.simps [of n] ord_digit)
  next
    case False
    then show ?thesis using 1 by (simp add: Itoa.simps [of n] ord_digit)
  qed
qed

lemma Itoa_no_NUL: "CHR 0x00 \<notin> set (Itoa n)"
proof (induction n rule: Itoa.induct)
  case (1 n)
  have "CHR 0x00 \<noteq> chr (48 + d)" if "d < 10" for d
  proof
    assume "CHR 0x00 = chr (48 + d)"
    then have "ord (CHR 0x00) = 48 + d" using ord_digit [OF that] by metis
    then show False by simp
  qed
  then show ?case using 1 by (subst Itoa.simps) auto
qed

lemma append_sep_inj: "z \<notin> set b \<Longrightarrow> z \<notin> set d \<Longrightarrow> a @ [z] @ b = c @ [z] @ d \<Longrightarrow> a = c \<and> b = d"
proof -
  assume z: "z \<notin> set b" "z \<notin> set d" and e: "a @ [z] @ b = c @ [z] @ d"
  have "rev b @ z # rev a = rev d @ z # rev c" using arg_cong [OF e, of rev] by simp
  moreover have "takeWhile (\<lambda>x. x \<noteq> z) (rev b @ z # rev a) = rev b" "takeWhile (\<lambda>x. x \<noteq> z) (rev d @ z # rev c) = rev d"
    using z by (auto simp: takeWhile_append)
  ultimately have "rev b = rev d" by metis
  then show ?thesis using e by simp
qed

lemma chunkKey_inj: "chunkKey a i = chunkKey b j \<longleftrightarrow> a = b \<and> i = j"
proof
  assume "chunkKey a i = chunkKey b j"
  then have "a = b \<and> Itoa i = Itoa j"
    unfolding chunkKey_def by (rule append_sep_inj [OF Itoa_no_NUL Itoa_no_NUL])
  then show "a = b \<and> i = j" using Itoa_value [of i] Itoa_value [of j] by metis
qed simp

section \<open>The invariant\<close>

type_synonym library = "string \<Rightarrow> (Doc \<times> Chunk list) option"

definition entry_keys :: "string \<Rightarrow> Chunk list \<Rightarrow> string list" where
  "entry_keys id' cs = map (\<lambda>c. chunkKey id' (chunk_Index c)) cs"

definition chunk_source :: "'g chunkEntry \<Rightarrow> string" where
  "chunk_source ce = ce_title ce @ [CHR 0x0A] @ chunk_Text (ce_chunk ce)"

definition chunk_corpus :: "tables \<Rightarrow> string list \<Rightarrow> (string, 'g chunkEntry) gomap \<Rightarrow> corpus" where
  "chunk_corpus tab stop chunks = (\<lambda>k. map_option (\<lambda>ce. filter (\<lambda>t. t \<notin> set stop) (tokenize (tab_unicode tab) (chunk_source ce))) (map_of chunks k))"

definition entry_of :: "Doc \<Rightarrow> Chunk \<Rightarrow> 'g list \<Rightarrow> 'g chunkEntry" where
  "entry_of d c v = \<lparr>ce_chunk = c, ce_title = doc_Title d, ce_path = doc_Path d, ce_kind = doc_Kind d, ce_time = doc_Time d, ce_vector = v\<rparr>"

definition ix_ok :: "tables \<Rightarrow> string list \<Rightarrow> library \<Rightarrow> 'g Index \<Rightarrow> bool" where
  "ix_ok tab stop L ix \<longleftrightarrow> stopwords (ix_bm25 ix) = stop \<and> gomap_wf (ix_chunks ix)
    \<and> distinct (ix_order ix) \<and> (\<forall>k. k \<in> set (ix_order ix) \<longleftrightarrow> map_of (ix_chunks ix) k \<noteq> None)
    \<and> bm_rep (chunk_corpus tab stop (ix_chunks ix)) (ix_bm25 ix)
    \<and> (\<forall>id' d cs. L id' = Some (d, cs) \<longrightarrow> doc_ID d = id' \<and> map chunk_Index cs = [0..<length cs]
        \<and> filter (\<lambda>k. k \<in> set (entry_keys id' cs)) (ix_order ix) = entry_keys id' cs
        \<and> (\<forall>c \<in> set cs. \<exists>v. map_of (ix_chunks ix) (chunkKey id' (chunk_Index c)) = Some (entry_of d c v)))
    \<and> (\<forall>k. map_of (ix_chunks ix) k \<noteq> None \<longrightarrow> (\<exists>id' d cs. L id' = Some (d, cs) \<and> k \<in> set (entry_keys id' cs)))"

lemma ix_okI:
  assumes "stopwords (ix_bm25 ix) = stop" "gomap_wf (ix_chunks ix)" "distinct (ix_order ix)"
    "\<And>k. k \<in> set (ix_order ix) \<longleftrightarrow> map_of (ix_chunks ix) k \<noteq> None"
    "bm_rep (chunk_corpus tab stop (ix_chunks ix)) (ix_bm25 ix)"
    "\<And>id' d cs. L id' = Some (d, cs) \<Longrightarrow> doc_ID d = id' \<and> map chunk_Index cs = [0..<length cs]
        \<and> filter (\<lambda>k. k \<in> set (entry_keys id' cs)) (ix_order ix) = entry_keys id' cs
        \<and> (\<forall>c \<in> set cs. \<exists>v. map_of (ix_chunks ix) (chunkKey id' (chunk_Index c)) = Some (entry_of d c v))"
    "\<And>k. map_of (ix_chunks ix) k \<noteq> None \<Longrightarrow> \<exists>id' d cs. L id' = Some (d, cs) \<and> k \<in> set (entry_keys id' cs)"
  shows "ix_ok tab stop L ix"
  using assms by (simp add: ix_ok_def)

lemma ix_okD:
  assumes "ix_ok tab stop L ix"
  shows "stopwords (ix_bm25 ix) = stop" "gomap_wf (ix_chunks ix)" "distinct (ix_order ix)"
    "k \<in> set (ix_order ix) \<longleftrightarrow> map_of (ix_chunks ix) k \<noteq> None"
    "bm_rep (chunk_corpus tab stop (ix_chunks ix)) (ix_bm25 ix)"
    "L id' = Some (d, cs) \<Longrightarrow> doc_ID d = id'" "L id' = Some (d, cs) \<Longrightarrow> map chunk_Index cs = [0..<length cs]"
    "L id' = Some (d, cs) \<Longrightarrow> filter (\<lambda>k. k \<in> set (entry_keys id' cs)) (ix_order ix) = entry_keys id' cs"
    "L id' = Some (d, cs) \<Longrightarrow> c \<in> set cs \<Longrightarrow> \<exists>v. map_of (ix_chunks ix) (chunkKey id' (chunk_Index c)) = Some (entry_of d c v)"
    "map_of (ix_chunks ix) k \<noteq> None \<Longrightarrow> \<exists>id' d cs. L id' = Some (d, cs) \<and> k \<in> set (entry_keys id' cs)"
  using assms by (simp_all add: ix_ok_def)

lemma entry_keys_mem: "k \<in> set (entry_keys id' cs) \<longleftrightarrow> (\<exists>c \<in> set cs. k = chunkKey id' (chunk_Index c))"
  by (auto simp: entry_keys_def)

lemma entry_keys_disjoint: "k \<in> set (entry_keys a cs) \<Longrightarrow> k \<in> set (entry_keys b ds) \<Longrightarrow> a = b"
  by (auto simp: entry_keys_mem chunkKey_inj)

lemma ix_ok_new: "ix_ok tab stop Map.empty (rag_New opts)" if "stop = Stopwords (opt_Ranking opts)"
  using that bm_rep_new [of stop] by (simp add: ix_ok_def rag_New_def newBM25Index_def chunk_corpus_def)

lemma ix_ok_empty_doc: "ix_ok tab stop L ix \<Longrightarrow> L (doc_ID d) = None \<Longrightarrow> ix_ok tab stop (L(doc_ID d \<mapsto> (d, []))) ix"
  by (auto simp: ix_ok_def entry_keys_def) (metis option.distinct(1))+

lemma ix_ok_docs [simp]: "ix_ok tab stop L (ix\<lparr>ix_docs := m\<rparr>) \<longleftrightarrow> ix_ok tab stop L ix"
  by (simp add: ix_ok_def)

section \<open>Removing an entry\<close>

lemma drop_chunks:
  assumes "bm_rep (chunk_corpus tab stop (ix_chunks ix)) (ix_bm25 ix)" "gomap_wf (ix_chunks ix)" "ix' = foldl drop_chunk ix keys"
  shows "bm_rep (chunk_corpus tab stop (ix_chunks ix')) (ix_bm25 ix') \<and> gomap_wf (ix_chunks ix')
    \<and> (\<forall>k. map_of (ix_chunks ix') k = (if k \<in> set keys then None else map_of (ix_chunks ix) k))
    \<and> ix_order ix' = ix_order ix \<and> ix_docs ix' = ix_docs ix \<and> stopwords (ix_bm25 ix') = stopwords (ix_bm25 ix)"
  using assms
proof (induction keys arbitrary: ix)
  case (Cons key keys)
  have "chunk_corpus tab stop (AList.delete key (ix_chunks ix)) = (chunk_corpus tab stop (ix_chunks ix))(key := None)"
    by (auto simp: chunk_corpus_def fun_eq_iff)
  then have "bm_rep (chunk_corpus tab stop (ix_chunks (drop_chunk ix key))) (ix_bm25 (drop_chunk ix key))"
    using bm_remove_rep(1) [OF Cons.prems(1)] by (simp add: drop_chunk_def)
  moreover have "gomap_wf (ix_chunks (drop_chunk ix key))" using Cons.prems(2) by (simp add: drop_chunk_def)
  ultimately have "bm_rep (chunk_corpus tab stop (ix_chunks ix')) (ix_bm25 ix') \<and> gomap_wf (ix_chunks ix')
    \<and> (\<forall>k. map_of (ix_chunks ix') k = (if k \<in> set keys then None else map_of (ix_chunks (drop_chunk ix key)) k))
    \<and> ix_order ix' = ix_order (drop_chunk ix key) \<and> ix_docs ix' = ix_docs (drop_chunk ix key)
    \<and> stopwords (ix_bm25 ix') = stopwords (ix_bm25 (drop_chunk ix key))"
    using Cons.IH [of "drop_chunk ix key"] Cons.prems(3) by simp
  then show ?case using bm_remove_rep(2) [OF Cons.prems(1), of key] by (auto simp: drop_chunk_def)
qed simp

lemma drop_entry_ok:
  assumes ok: "ix_ok tab stop L ix" and e: "L id' = Some (d, cs)" "de_chunkKeys e = entry_keys id' cs"
  shows "ix_ok tab stop (L(id' := None)) (drop_entry e ix) \<and> ix_docs (drop_entry e ix) = ix_docs ix"
proof -
  let ?ks = "entry_keys id' cs"
  define ix1 where "ix1 = foldl drop_chunk ix ?ks"
  have rep: "bm_rep (chunk_corpus tab stop (ix_chunks ix)) (ix_bm25 ix)" "gomap_wf (ix_chunks ix)" using ok by (auto simp: ix_ok_def)
  note dc = drop_chunks [OF rep ix1_def]
  have o: "removeAll_keys (ix_order ix) ?ks = filter (\<lambda>k. k \<notin> set ?ks) (ix_order ix)" by (simp add: removeAll_keys_def)
  have d: "drop_entry e ix = ix1\<lparr>ix_order := filter (\<lambda>k. k \<notin> set ?ks) (ix_order ix)\<rparr>"
    using dc by (simp add: drop_entry_def Let_def e(2) ix1_def [symmetric] o)
  have other: "filter (\<lambda>k. k \<in> set (entry_keys b ds)) (filter (\<lambda>k. k \<notin> set ?ks) (ix_order ix)) = filter (\<lambda>k. k \<in> set (entry_keys b ds)) (ix_order ix)"
    if "b \<noteq> id'" for b ds
    using that entry_keys_disjoint by (auto intro!: filter_cong)
  have mem: "map_of (ix_chunks ix1) (chunkKey b i) = map_of (ix_chunks ix) (chunkKey b i)" if "b \<noteq> id'" for b i
    using dc that by (auto simp: entry_keys_mem chunkKey_inj)
  have "ix_ok tab stop (L(id' := None)) (drop_entry e ix)"
  proof (rule ix_okI)
    fix b d' ds
    assume b: "(L(id' := None)) b = Some (d', ds)"
    then have l: "L b = Some (d', ds)" "b \<noteq> id'" by (auto split: if_splits)
    show "doc_ID d' = b \<and> map chunk_Index ds = [0..<length ds]
        \<and> filter (\<lambda>k. k \<in> set (entry_keys b ds)) (ix_order (drop_entry e ix)) = entry_keys b ds
        \<and> (\<forall>c \<in> set ds. \<exists>v. map_of (ix_chunks (drop_entry e ix)) (chunkKey b (chunk_Index c)) = Some (entry_of d' c v))"
      unfolding d using ix_okD(6-9) [OF ok l(1)] other [OF l(2)] mem [OF l(2)] by simp
  next
    fix k
    assume "map_of (ix_chunks (drop_entry e ix)) k \<noteq> None"
    then have k: "k \<notin> set ?ks" "map_of (ix_chunks ix) k \<noteq> None" using dc by (auto simp: d split: if_splits)
    then obtain b d' ds where "L b = Some (d', ds)" "k \<in> set (entry_keys b ds)" using ix_okD(10) [OF ok k(2)] by blast
    then show "\<exists>b d' ds. (L(id' := None)) b = Some (d', ds) \<and> k \<in> set (entry_keys b ds)"
      using k(1) e(1) by (intro exI [of _ b]) auto
  qed (use dc ix_okD(1,3,4) [OF ok] in \<open>auto simp: d split: if_splits\<close>)
  then show ?thesis using dc by (simp add: d)
qed

section \<open>Adding a document\<close>

lemma corpus_update: "chunk_corpus tab stop (AList.update key ce chunks)
    = (chunk_corpus tab stop chunks)(key \<mapsto> filter (\<lambda>t. t \<notin> set stop) (tokenize (tab_unicode tab) (chunk_source ce)))"
  by (auto simp: chunk_corpus_def fun_eq_iff)

lemma entry_keys_snoc: "entry_keys b (cs @ [c]) = entry_keys b cs @ [chunkKey b (chunk_Index c)]"
  by (simp add: entry_keys_def)

lemma add_chunk_ok:
  assumes ok: "ix_ok tab stop L ix" and l: "L b = Some (d, cs)" and c: "chunk_Index c = length cs"
    and r: "add_chunk tab embedding d (ix, entry_keys b cs, vs) c = (ix', keys', vs')"
  shows "ix_ok tab stop (L(b \<mapsto> (d, cs @ [c]))) ix' \<and> keys' = entry_keys b (cs @ [c]) \<and> ix_docs ix' = ix_docs ix"
proof -
  note D = ix_okD [OF ok]
  have b: "doc_ID d = b" by (rule D(6) [OF l])
  let ?key = "chunkKey b (chunk_Index c)"
  have new: "?key \<notin> set (entry_keys a ds)" if "L a = Some (d', ds)" for a d' ds
  proof
    assume "?key \<in> set (entry_keys a ds)"
    then obtain c' where c': "c' \<in> set ds" "a = b" "chunk_Index c' = length cs" by (auto simp: entry_keys_mem chunkKey_inj c)
    then have "ds = cs" using that l by simp
    then have "length cs \<in> set (map chunk_Index cs)" using c' by (metis image_eqI set_map)
    then show False using D(7) [OF l] by simp
  qed
  have fresh: "map_of (ix_chunks ix) ?key = None" using D(10) [of ?key] new by (cases "map_of (ix_chunks ix) ?key") auto
  obtain v where ix': "ix_bm25 ix' = bm_add (tab_unicode tab) ?key (doc_Title d @ [CHR 0x0A] @ chunk_Text c) (ix_bm25 ix)"
      "ix_chunks ix' = AList.update ?key (entry_of d c v) (ix_chunks ix)" "ix_order ix' = ix_order ix @ [?key]" "ix_docs ix' = ix_docs ix"
      "keys' = entry_keys b cs @ [?key]"
    using r by (auto simp: add_chunk_def Let_def b entry_of_def)
  have src: "chunk_source (entry_of d c v) = doc_Title d @ [CHR 0x0A] @ chunk_Text c" by (simp add: chunk_source_def entry_of_def)
  have old: "chunkKey a (chunk_Index c') \<noteq> ?key" if "L a = Some (d', ds)" "c' \<in> set ds" for a d' ds c'
    using new [OF that(1)] that(2) by (auto simp: entry_keys_mem)
  have "ix_ok tab stop (L(b \<mapsto> (d, cs @ [c]))) ix'"
  proof (rule ix_okI)
    show "bm_rep (chunk_corpus tab stop (ix_chunks ix')) (ix_bm25 ix')"
      unfolding ix'(1,2) corpus_update src
      using bm_add_rep(1) [OF D(5), of ?key "tab_unicode tab" "doc_Title d @ [CHR 0x0A] @ chunk_Text c"] fresh D(1)
      by (simp add: chunk_terms_def chunk_corpus_def)
    show "stopwords (ix_bm25 ix') = stop"
      using bm_add_rep(2) [OF D(5), of ?key] fresh D(1) by (simp add: ix'(1) chunk_corpus_def)
    show "distinct (ix_order ix')" using D(3) D(4) [of ?key] fresh by (simp add: ix'(3))
    show "k \<in> set (ix_order ix') \<longleftrightarrow> map_of (ix_chunks ix') k \<noteq> None" for k using D(4) [of k] by (auto simp: ix')
    show "gomap_wf (ix_chunks ix')" using D(2) by (simp add: ix'(2))
  next
    fix a d' ds
    assume a: "(L(b \<mapsto> (d, cs @ [c]))) a = Some (d', ds)"
    show "doc_ID d' = a \<and> map chunk_Index ds = [0..<length ds]
        \<and> filter (\<lambda>k. k \<in> set (entry_keys a ds)) (ix_order ix') = entry_keys a ds
        \<and> (\<forall>c \<in> set ds. \<exists>v. map_of (ix_chunks ix') (chunkKey a (chunk_Index c)) = Some (entry_of d' c v))"
    proof (cases "a = b")
      case False
      then have l': "L a = Some (d', ds)" using a by simp
      then show ?thesis using D(6-8) [OF l'] D(9) [OF l'] new [OF l'] old [OF l'] by (simp add: ix' entry_keys_mem)
    next
      case True
      then have e: "d' = d" "ds = cs @ [c]" using a by auto
      have "?key \<notin> set (ix_order ix)" using D(4) [of ?key] fresh by simp
      then have "filter (\<lambda>k. k = ?key \<or> k \<in> set (entry_keys b cs)) (ix_order ix) = filter (\<lambda>k. k \<in> set (entry_keys b cs)) (ix_order ix)"
        by (intro filter_cong) auto
      moreover have "\<forall>c' \<in> set cs. \<exists>v. map_of (ix_chunks ix') (chunkKey b (chunk_Index c')) = Some (entry_of d c' v)"
        using D(9) [OF l] old [OF l] by (simp add: ix'(2))
      ultimately show ?thesis using D(7,8) [OF l] True b c by (auto simp: e entry_keys_snoc ix')
    qed
  next
    fix k
    assume k: "map_of (ix_chunks ix') k \<noteq> None"
    show "\<exists>a d' ds. (L(b \<mapsto> (d, cs @ [c]))) a = Some (d', ds) \<and> k \<in> set (entry_keys a ds)"
    proof (cases "k = ?key")
      case True
      then show ?thesis by (intro exI [of _ b]) (simp add: entry_keys_snoc)
    next
      case False
      then obtain a d' ds where "L a = Some (d', ds)" "k \<in> set (entry_keys a ds)" using D(10) [of k] k by (auto simp: ix'(2))
      then show ?thesis using l by (intro exI [of _ a]) (auto simp: entry_keys_snoc)
    qed
  qed
  then show ?thesis by (simp add: ix'(4,5) entry_keys_snoc)
qed

lemma add_chunks_ok:
  assumes "ix_ok tab stop L ix" "L b = Some (d, cs)" "map chunk_Index (cs @ todo) = [0..<length (cs @ todo)]"
    "foldl (add_chunk tab embedding d) (ix, entry_keys b cs, vs) todo = (ix', keys', vs')"
  shows "ix_ok tab stop (L(b \<mapsto> (d, cs @ todo))) ix' \<and> keys' = entry_keys b (cs @ todo) \<and> ix_docs ix' = ix_docs ix"
  using assms
proof (induction todo arbitrary: ix L cs vs)
  case Nil
  then have "L(b \<mapsto> (d, cs)) = L" by auto
  then show ?case using Nil by simp
next
  case (Cons c todo)
  obtain ix1 keys1 vs1 where s: "add_chunk tab embedding d (ix, entry_keys b cs, vs) c = (ix1, keys1, vs1)" by (rule prod_cases3)
  have "map chunk_Index (cs @ c # todo) ! length cs = [0..<length (cs @ c # todo)] ! length cs" by (simp only: Cons.prems(3))
  also have "\<dots> = length cs" by (subst nth_upt) simp_all
  finally have ci: "chunk_Index c = length cs" by (simp add: nth_append)
  note one = add_chunk_ok [OF Cons.prems(1,2) ci s]
  have f: "foldl (add_chunk tab embedding d) (ix1, entry_keys b (cs @ [c]), vs1) todo = (ix', keys', vs')"
    using Cons.prems(4) s one by simp
  have m: "map chunk_Index ((cs @ [c]) @ todo) = [0..<length ((cs @ [c]) @ todo)]" using Cons.prems(3) by simp
  have "ix_ok tab stop ((L(b \<mapsto> (d, cs @ [c])))(b \<mapsto> (d, (cs @ [c]) @ todo))) ix'
      \<and> keys' = entry_keys b ((cs @ [c]) @ todo) \<and> ix_docs ix' = ix_docs ix1"
    by (rule Cons.IH [OF conjunct1 [OF one] fun_upd_same m f])
  then show ?case using one by (simp only: fun_upd_upd append_assoc append_Cons append_Nil)
qed

definition library_of :: "tables \<Rightarrow> 'g rag_Options \<Rightarrow> (string \<Rightarrow> Doc option) \<Rightarrow> library" where
  "library_of tab opts D = (\<lambda>b. map_option (\<lambda>d. (d, doc_chunks tab opts d)) (D b))"

text \<open>The index holds exactly the documents \<open>D\<close>.\<close>

definition rag_holds :: "tables \<Rightarrow> 'g rag_Options \<Rightarrow> (string \<Rightarrow> Doc option) \<Rightarrow> 'g Index \<Rightarrow> bool" where
  "rag_holds tab opts D ix \<longleftrightarrow> ix_ok tab (Stopwords (opt_Ranking opts)) (library_of tab opts D) ix \<and> gomap_wf (ix_docs ix)
    \<and> (\<forall>b. map_of (ix_docs ix) b
        = map_option (\<lambda>d. \<lparr>de_doc = d, de_chunkKeys = entry_keys b (doc_chunks tab opts d)\<rparr>) (D b))"

lemma rag_holds_new: "rag_holds tab opts Map.empty (rag_New opts)"
  using ix_ok_new [of _ opts tab] by (simp add: rag_holds_def library_of_def rag_New_def)

lemma doc_chunks_index: "map chunk_Index (doc_chunks tab opts d) = [0..<length (doc_chunks tab opts d)]"
  by (rule nth_equalityI) (simp_all add: doc_chunks_def Split_nth)

lemma library_of_upd: "library_of tab opts (D(b \<mapsto> d)) = (library_of tab opts D)(b \<mapsto> (d, doc_chunks tab opts d))"
  "library_of tab opts (D(b := None)) = (library_of tab opts D)(b := None)"
  by (auto simp: library_of_def fun_eq_iff)

lemma drop_doc_ok:
  assumes "rag_holds tab opts D ix" "map_of (ix_docs ix) b = Some e"
  shows "ix_ok tab (Stopwords (opt_Ranking opts)) (library_of tab opts (D(b := None))) (drop_entry e ix) \<and> ix_docs (drop_entry e ix) = ix_docs ix"
proof -
  obtain d where d: "D b = Some d" "e = \<lparr>de_doc = d, de_chunkKeys = entry_keys b (doc_chunks tab opts d)\<rparr>"
    using assms by (cases "D b") (auto simp: rag_holds_def)
  have l: "library_of tab opts D b = Some (d, doc_chunks tab opts d)" using d by (simp add: library_of_def)
  have "ix_ok tab (Stopwords (opt_Ranking opts)) (library_of tab opts D) ix" using assms(1) by (simp add: rag_holds_def)
  from drop_entry_ok [OF this l, of e] show ?thesis using d(2) by (simp add: library_of_upd)
qed

lemma add_doc_holds:
  assumes h: "rag_holds tab opts D ix" and r: "add_doc tab embedding (ix, vs) (d, doc_chunks tab opts d) = (ix', vs')"
  shows "rag_holds tab opts (D(doc_ID d \<mapsto> d)) ix'"
proof -
  let ?b = "doc_ID d" and ?stop = "Stopwords (opt_Ranking opts)"
  define ix0 where "ix0 = (case map_of (ix_docs ix) ?b of Some e \<Rightarrow> drop_entry e ix | None \<Rightarrow> ix)"
  have ok0: "ix_ok tab ?stop (library_of tab opts (D(?b := None))) ix0 \<and> ix_docs ix0 = ix_docs ix"
  proof (cases "map_of (ix_docs ix) ?b")
    case None
    then have "D(?b := None) = D" using h by (auto simp: rag_holds_def fun_eq_iff)
    then show ?thesis using h None by (simp add: ix0_def rag_holds_def)
  next
    case (Some e)
    then show ?thesis using drop_doc_ok [OF h Some] by (simp add: ix0_def)
  qed
  obtain ix1 keys vs1 where f: "foldl (add_chunk tab embedding d) (ix0, [], vs) (doc_chunks tab opts d) = (ix1, keys, vs1)" by (rule prod_cases3)
  have e: "ix_ok tab ?stop ((library_of tab opts (D(?b := None)))(?b \<mapsto> (d, []))) ix0"
    by (rule ix_ok_empty_doc [OF conjunct1 [OF ok0]]) (simp add: library_of_def)
  have f': "foldl (add_chunk tab embedding d) (ix0, entry_keys ?b [], vs) (doc_chunks tab opts d) = (ix1, keys, vs1)"
    using f by (simp add: entry_keys_def)
  have "ix_ok tab ?stop ((library_of tab opts (D(?b := None)))(?b \<mapsto> (d, doc_chunks tab opts d))) ix1
      \<and> keys = entry_keys ?b (doc_chunks tab opts d) \<and> ix_docs ix1 = ix_docs ix0"
    using add_chunks_ok [OF e _ _ f'] doc_chunks_index [of tab opts d] by simp
  moreover have "ix' = ix1\<lparr>ix_docs := AList.update ?b \<lparr>de_doc = d, de_chunkKeys = keys\<rparr> (ix_docs ix1)\<rparr>"
    using r f by (simp add: add_doc_def ix0_def [symmetric] Let_def)
  ultimately show ?thesis using h ok0 by (simp add: rag_holds_def library_of_upd)
qed

definition put_doc :: "(string \<Rightarrow> Doc option) \<Rightarrow> Doc \<Rightarrow> (string \<Rightarrow> Doc option)" where
  "put_doc D d = D(doc_ID d \<mapsto> d)"

lemma add_docs_holds:
  "rag_holds tab opts D ix \<Longrightarrow>
    rag_holds tab opts (foldl put_doc D docs) (fst (foldl (add_doc tab embedding) (ix, vs) (map (\<lambda>d. (d, doc_chunks tab opts d)) docs)))"
proof (induction docs arbitrary: D ix vs)
  case (Cons d docs)
  obtain ix1 vs1 where s: "add_doc tab embedding (ix, vs) (d, doc_chunks tab opts d) = (ix1, vs1)" by fastforce
  show ?case using Cons.IH [OF add_doc_holds [OF Cons.prems s], of vs1] s by (simp add: put_doc_def)
qed simp

lemma remove_docs_holds:
  "rag_holds tab opts D ix \<Longrightarrow> foldl remove_doc (ix, n) ids = (ix', n') \<Longrightarrow>
    rag_holds tab opts (\<lambda>b. if b \<in> set ids then None else D b) ix' \<and> n' = n + card (set ids \<inter> dom D)"
proof (induction ids arbitrary: D ix n)
  case (Cons b ids)
  show ?case
  proof (cases "map_of (ix_docs ix) b")
    case None
    then have n: "D b = None" using Cons.prems(1) by (simp add: rag_holds_def)
    then have "(\<lambda>c. if c \<in> set (b # ids) then None else D c) = (\<lambda>c. if c \<in> set ids then None else D c)"
      "set (b # ids) \<inter> dom D = set ids \<inter> dom D" by auto
    then show ?thesis using Cons.IH [OF Cons.prems(1)] Cons.prems(2) None by (simp add: remove_doc_def [of "(ix, n)"])
  next
    case (Some e)
    let ?ix = "(drop_entry e ix)\<lparr>ix_docs := AList.delete b (ix_docs (drop_entry e ix))\<rparr>"
    have D: "D b \<noteq> None" using Cons.prems(1) Some by (auto simp: rag_holds_def)
    have h: "rag_holds tab opts (D(b := None)) ?ix"
      using drop_doc_ok [OF Cons.prems(1) Some] Cons.prems(1) by (simp add: rag_holds_def)
    have f: "foldl remove_doc (?ix, n + 1) ids = (ix', n')" using Cons.prems(2) Some by (simp add: remove_doc_def [of "(ix, n)"] Let_def)
    define D' where "D' = D(b := None)"
    have "(\<lambda>c. if c \<in> set (b # ids) then None else D c) = (\<lambda>c. if c \<in> set ids then None else D' c)" by (auto simp: D'_def)
    moreover have "set (b # ids) \<inter> dom D = insert b (set ids \<inter> dom D')" "b \<notin> dom D'" using D by (auto simp: D'_def)
    then have "card (set (b # ids) \<inter> dom D) = Suc (card (set ids \<inter> dom D'))" by simp
    ultimately show ?thesis using Cons.IH [OF h [folded D'_def] f] by simp
  qed
qed simp

section \<open>Snapshots\<close>

lemma ix_ok_dim [simp]: "ix_ok tab stop L (ix\<lparr>ix_dim := m\<rparr>) \<longleftrightarrow> ix_ok tab stop L ix"
  by (simp add: ix_ok_def)

definition persisted :: "'g chunkEntry \<Rightarrow> 'g persistedChunk" where
  "persisted ce = \<lparr>pc_DocID = chunk_DocID (ce_chunk ce), pc_Index = chunk_Index (ce_chunk ce), pc_Start = int (chunk_Start (ce_chunk ce)),
     pc_End = int (chunk_End (ce_chunk ce)), pc_Vector = ce_vector ce\<rparr>"

text \<open>Loading a persisted chunk is adding the chunk, apart from the entry of the document.\<close>

lemma load_chunk_add:
  assumes d: "map_of (ix_docs ix) b = Some e" "de_doc e = d" "doc_ID d = b" and c: "c \<in> set (doc_chunks tab opts d)"
    and a: "add_chunk tab True d (ix, keys, [v]) c = (ix2, keys2, vs2)"
  shows "\<exists>m. load_chunk tab ix (persisted (entry_of d c v)) = Inr (ix2\<lparr>ix_docs := AList.update b
      (e\<lparr>de_chunkKeys := de_chunkKeys e @ [chunkKey b (chunk_Index c)]\<rparr>) (ix_docs ix), ix_dim := m\<rparr>)
    \<and> ix_order ix2 = ix_order ix @ [chunkKey b (chunk_Index c)]
    \<and> map_of (ix_chunks ix2) = (map_of (ix_chunks ix))(chunkKey b (chunk_Index c) \<mapsto> entry_of d c v)"
proof -
  have s: "chunk_Text c = sublst (doc_Text d) (chunk_Start c) (chunk_End c)" "chunk_Start c \<le> chunk_End c"
    "chunk_End c \<le> length (doc_Text d)" "chunk_DocID c = b"
    using Split_slice [of c "tab_scanMax tab" "tab_unicode tab" "tab_strip tab" "opt_Chunker opts" d] c d(3) by (auto simp: doc_chunks_def)
  have ce: "\<lparr>chunk_DocID = b, chunk_Index = chunk_Index c, chunk_Text = sublst (doc_Text d) (chunk_Start c) (chunk_End c),
      chunk_Start = chunk_Start c, chunk_End = chunk_End c\<rparr> = c"
    using s by (cases c) simp
  let ?m = "if length v > 0 \<and> ix_dim ix = 0 then length v else ix_dim ix"
  have "load_chunk tab ix (persisted (entry_of d c v)) = Inr (ix2\<lparr>ix_docs := AList.update b
      (e\<lparr>de_chunkKeys := de_chunkKeys e @ [chunkKey b (chunk_Index c)]\<rparr>) (ix_docs ix), ix_dim := ?m\<rparr>)"
    using a d s by (auto simp: load_chunk_def persisted_def entry_of_def add_chunk_def Let_def ce)
  moreover have "ix_order ix2 = ix_order ix @ [chunkKey b (chunk_Index c)]"
    "map_of (ix_chunks ix2) = (map_of (ix_chunks ix))(chunkKey b (chunk_Index c) \<mapsto> entry_of d c v)"
    using a d(3) by (auto simp: add_chunk_def Let_def entry_of_def)
  ultimately show ?thesis by blast
qed

text \<open>The state while loading: the documents of \<open>D\<close> with initial segments of their chunks.\<close>

definition loading :: "tables \<Rightarrow> 'g rag_Options \<Rightarrow> (string \<Rightarrow> Doc option) \<Rightarrow> 'g Index \<Rightarrow> (string \<Rightarrow> nat) \<Rightarrow> string list \<Rightarrow> 'g Index \<Rightarrow> bool" where
  "loading tab opts D ix m pre ix1 \<longleftrightarrow>
    ix_ok tab (Stopwords (opt_Ranking opts)) (\<lambda>b. map_option (\<lambda>d. (d, take (m b) (doc_chunks tab opts d))) (D b)) ix1
    \<and> gomap_wf (ix_docs ix1) \<and> ix_order ix1 = pre
    \<and> (\<forall>b. map_of (ix_docs ix1) b
        = map_option (\<lambda>d. \<lparr>de_doc = d, de_chunkKeys = entry_keys b (take (m b) (doc_chunks tab opts d))\<rparr>) (D b))
    \<and> (\<forall>k. map_of (ix_chunks ix1) k = (if k \<in> set pre then map_of (ix_chunks ix) k else None))"

lemma loading_keys:
  assumes l: "loading tab opts D ix m pre ix1" and d: "D b = Some d"
  shows "filter (\<lambda>k. k \<in> set (entry_keys b (doc_chunks tab opts d))) pre = entry_keys b (take (m b) (doc_chunks tab opts d))"
proof -
  let ?cs = "doc_chunks tab opts d"
  have ok: "ix_ok tab (Stopwords (opt_Ranking opts)) (\<lambda>b. map_option (\<lambda>d. (d, take (m b) (doc_chunks tab opts d))) (D b)) ix1"
    and o: "ix_order ix1 = pre" using l by (auto simp: loading_def)
  have "k \<in> set (entry_keys b ?cs) \<longleftrightarrow> k \<in> set (entry_keys b (take (m b) ?cs))" if k: "k \<in> set pre" for k
  proof
    assume e: "k \<in> set (entry_keys b ?cs)"
    have "map_of (ix_chunks ix1) k \<noteq> None" using ix_okD(4) [OF ok, of k] k o by simp
    then obtain b' d' cs' where f: "map_option (\<lambda>d. (d, take (m b') (doc_chunks tab opts d))) (D b') = Some (d', cs')" "k \<in> set (entry_keys b' cs')"
      using ix_okD(10) [OF ok, of k] by blast
    have "b' = b" using entry_keys_disjoint [OF f(2) e] .
    then show "k \<in> set (entry_keys b (take (m b) ?cs))" using f d by auto
  qed (auto simp: entry_keys_mem dest: in_set_takeD)
  then have "filter (\<lambda>k. k \<in> set (entry_keys b ?cs)) pre = filter (\<lambda>k. k \<in> set (entry_keys b (take (m b) ?cs))) pre"
    by (intro filter_cong) auto
  also have "\<dots> = entry_keys b (take (m b) ?cs)" using ix_okD(8) [OF ok, of b d] d o by simp
  finally show ?thesis .
qed

lemma load_step:
  assumes h: "rag_holds tab opts D ix" and ord: "ix_order ix = pre @ key # post" and l: "loading tab opts D ix m pre ix1"
  shows "\<exists>m' ix2. load_chunk tab ix1 (persisted (the (map_of (ix_chunks ix) key))) = Inr ix2 \<and> loading tab opts D ix m' (pre @ [key]) ix2"
proof -
  let ?stop = "Stopwords (opt_Ranking opts)"
  have ok: "ix_ok tab ?stop (library_of tab opts D) ix" using h by (simp add: rag_holds_def)
  have "map_of (ix_chunks ix) key \<noteq> None" using ix_okD(4) [OF ok, of key] ord by simp
  then obtain b d c where b: "D b = Some d" "c \<in> set (doc_chunks tab opts d)" "key = chunkKey b (chunk_Index c)"
    using ix_okD(10) [OF ok, of key] by (auto simp: library_of_def entry_keys_mem)
  let ?cs = "doc_chunks tab opts d"
  have lib: "library_of tab opts D b = Some (d, ?cs)" using b by (simp add: library_of_def)
  obtain v where v: "map_of (ix_chunks ix) key = Some (entry_of d c v)" using ix_okD(9) [OF ok lib b(2)] b(3) by auto
  have id: "doc_ID d = b" by (rule ix_okD(6) [OF ok lib])
  note pre = loading_keys [OF l b(1)]
  have all: "entry_keys b ?cs = entry_keys b (take (m b) ?cs) @ key # filter (\<lambda>k. k \<in> set (entry_keys b ?cs)) post"
  proof -
    have "key \<in> set (entry_keys b ?cs)" using b(2,3) by (auto simp: entry_keys_mem)
    then show ?thesis using ix_okD(8) [OF ok lib] pre by (simp add: ord)
  qed
  have ml: "m b < length ?cs"
    using arg_cong [OF all, of length] by (simp add: entry_keys_def min_def split: if_splits)
  have "entry_keys b ?cs ! m b = key" using ml by (subst all) (simp add: nth_append entry_keys_def)
  then have "chunk_Index (?cs ! m b) = chunk_Index c" using ml b(3) by (simp add: entry_keys_def chunkKey_inj)
  moreover have nth: "chunk_Index (?cs ! i) = i" if "i < length ?cs" for i
    using that doc_chunks_index [of tab opts d] by (metis add.left_neutral nth_map nth_upt)
  ultimately have ci: "chunk_Index c = m b" "c = ?cs ! m b" using ml b(2) by (metis in_set_conv_nth)+
  let ?L = "\<lambda>b. map_option (\<lambda>d. (d, take (m b) (doc_chunks tab opts d))) (D b)"
  have ok1: "ix_ok tab ?stop ?L ix1" and docs: "map_of (ix_docs ix1) b = Some \<lparr>de_doc = d, de_chunkKeys = entry_keys b (take (m b) ?cs)\<rparr>"
    using l b(1) by (auto simp: loading_def)
  obtain ix2 keys2 vs2 where a: "add_chunk tab True d (ix1, entry_keys b (take (m b) ?cs), [v]) c = (ix2, keys2, vs2)" by (rule prod_cases3)
  have L: "?L b = Some (d, take (m b) ?cs)" using b(1) by simp
  have ac: "ix_ok tab ?stop (?L(b \<mapsto> (d, take (m b) ?cs @ [c]))) ix2 \<and> keys2 = entry_keys b (take (m b) ?cs @ [c]) \<and> ix_docs ix2 = ix_docs ix1"
    by (rule add_chunk_ok [OF ok1 L _ a]) (use ci ml in simp)
  obtain dim where lc: "load_chunk tab ix1 (persisted (entry_of d c v)) = Inr (ix2\<lparr>ix_docs := AList.update b
      \<lparr>de_doc = d, de_chunkKeys = entry_keys b (take (m b) ?cs) @ [key]\<rparr> (ix_docs ix1), ix_dim := dim\<rparr>)"
    "ix_order ix2 = ix_order ix1 @ [key]" "map_of (ix_chunks ix2) = (map_of (ix_chunks ix1))(key \<mapsto> entry_of d c v)"
    using load_chunk_add [OF docs _ id b(2) a] b(3) by auto
  let ?m = "m(b := Suc (m b))"
  have tk: "take (Suc (m b)) ?cs = take (m b) ?cs @ [c]" using ml ci(2) by (simp add: take_Suc_conv_app_nth)
  have "?L(b \<mapsto> (d, take (m b) ?cs @ [c])) = (\<lambda>b'. map_option (\<lambda>d. (d, take (?m b') (doc_chunks tab opts d))) (D b'))"
    using b(1) tk by (auto simp: fun_eq_iff)
  then have "loading tab opts D ix ?m (pre @ [key]) (ix2\<lparr>ix_docs := AList.update b
      \<lparr>de_doc = d, de_chunkKeys = entry_keys b (take (m b) ?cs) @ [key]\<rparr> (ix_docs ix1), ix_dim := dim\<rparr>)"
    using ac l lc(2,3) v b tk by (auto simp: loading_def entry_keys_snoc)
  then show ?thesis using lc(1) v by auto
qed

lemma load_all:
  assumes "rag_holds tab opts D ix" "ix_order ix = pre @ post" "loading tab opts D ix m pre ix1"
  shows "\<exists>m' ix2. load_chunks tab ix1 (map (\<lambda>k. persisted (the (map_of (ix_chunks ix) k))) post) = Inr ix2
    \<and> loading tab opts D ix m' (ix_order ix) ix2"
  using assms(2,3)
proof (induction post arbitrary: pre m ix1)
  case (Cons key post)
  obtain m' ix2 where s: "load_chunk tab ix1 (persisted (the (map_of (ix_chunks ix) key))) = Inr ix2"
    "loading tab opts D ix m' (pre @ [key]) ix2" using load_step [OF assms(1) Cons.prems] by blast
  then show ?case using Cons.IH [of "pre @ [key]" m' ix2] Cons.prems(1) by simp
qed auto

lemma restore_persist [simp]: "restore_doc (persist_doc d) = d"
  by (simp add: restore_doc_def persist_doc_def)

lemma pd_ID_persist: "pd_ID (persist_doc d) = doc_ID d"
  by (simp add: persist_doc_def)

lemma load_docs:
  assumes "rag_holds tab opts D ix"
  shows "loading tab opts D ix (\<lambda>_. 0) [] (foldl load_doc (rag_New opts) (map (\<lambda>(_, e). persist_doc (de_doc e)) (ix_docs ix)))"
proof -
  have ids: "doc_ID d = b" if "D b = Some d" for b d
    using assms that ix_okD(6) [of tab "Stopwords (opt_Ranking opts)" "library_of tab opts D" ix b d "doc_chunks tab opts d"]
    by (simp add: rag_holds_def library_of_def)
  have docs: "\<forall>b e. map_of (ix_docs ix) b = Some e \<longrightarrow> doc_ID (de_doc e) = b"
  proof (intro allI impI)
    fix b e
    assume e: "map_of (ix_docs ix) b = Some e"
    then obtain d where "D b = Some d" "de_doc e = d" using assms by (cases "D b") (auto simp: rag_holds_def)
    then show "doc_ID (de_doc e) = b" using ids by simp
  qed
  have fold: "ix_chunks (foldl load_doc ix1 ds) = ix_chunks ix1 \<and> ix_bm25 (foldl load_doc ix1 ds) = ix_bm25 ix1
      \<and> ix_order (foldl load_doc ix1 ds) = ix_order ix1 \<and> (gomap_wf (ix_docs ix1) \<longrightarrow> gomap_wf (ix_docs (foldl load_doc ix1 ds)))" for ix1 :: "'a Index" and ds
    by (induction ds arbitrary: ix1) (simp_all add: load_doc_def)
  have map: "map_of (ix_docs (foldl load_doc ix1 (map (\<lambda>(_, e). persist_doc (de_doc e)) al))) b
      = (case map_of al b of None \<Rightarrow> map_of (ix_docs ix1) b | Some e \<Rightarrow> Some \<lparr>de_doc = de_doc e, de_chunkKeys = []\<rparr>)"
    if "gomap_wf al" "\<forall>b e. map_of al b = Some e \<longrightarrow> doc_ID (de_doc e) = b" for ix1 :: "'a Index" and al b
    using that
  proof (induction al arbitrary: ix1)
    case (Cons x al)
    obtain a e where x: "x = (a, e)" by (cases x)
    have n: "map_of al a = None" and wf: "gomap_wf al" using Cons.prems(1) x by (auto simp: gomap_wf_def map_of_eq_None_iff)
    have "\<forall>b e. map_of al b = Some e \<longrightarrow> doc_ID (de_doc e) = b"
      using Cons.prems(2) n by (metis fun_upd_other map_of.simps(2) option.distinct(1) prod.sel(1) x)
    moreover have "doc_ID (de_doc e) = a" using Cons.prems(2) x by simp
    ultimately show ?case using Cons.IH [OF wf, of "load_doc ix1 (persist_doc (de_doc e))"] n by (auto simp: x load_doc_def pd_ID_persist split: option.splits)
  qed simp
  let ?ix1 = "foldl load_doc (rag_New opts) (map (\<lambda>(_, e). persist_doc (de_doc e)) (ix_docs ix))"
  have "ix_ok tab (Stopwords (opt_Ranking opts)) (\<lambda>b. map_option (\<lambda>d. (d, take 0 (doc_chunks tab opts d))) (D b)) ?ix1"
  proof (rule ix_okI)
    note n = ix_ok_new [where opts = opts and tab = tab, OF refl]
    show "bm_rep (chunk_corpus tab (Stopwords (opt_Ranking opts)) (ix_chunks ?ix1)) (ix_bm25 ?ix1)"
      "stopwords (ix_bm25 ?ix1) = Stopwords (opt_Ranking opts)" "gomap_wf (ix_chunks ?ix1)" "distinct (ix_order ?ix1)"
      "k \<in> set (ix_order ?ix1) \<longleftrightarrow> map_of (ix_chunks ?ix1) k \<noteq> None" for k
      using fold ix_okD(1-5) [OF n] by simp_all
    show "\<exists>b d cs. map_option (\<lambda>d. (d, take 0 (doc_chunks tab opts d))) (D b) = Some (d, cs) \<and> k \<in> set (entry_keys b cs)"
      if "map_of (ix_chunks ?ix1) k \<noteq> None" for k using that fold by (simp add: rag_New_def)
    show "doc_ID d = b \<and> map chunk_Index cs = [0..<length cs]
        \<and> filter (\<lambda>k. k \<in> set (entry_keys b cs)) (ix_order ?ix1) = entry_keys b cs
        \<and> (\<forall>c \<in> set cs. \<exists>v. map_of (ix_chunks ?ix1) (chunkKey b (chunk_Index c)) = Some (entry_of d c v))"
      if "map_option (\<lambda>d. (d, take 0 (doc_chunks tab opts d))) (D b) = Some (d, cs)" for b d cs
      using that ids by (auto simp: entry_keys_def)
  qed
  moreover have "gomap_wf (ix_docs ix)" using assms by (simp add: rag_holds_def)
  ultimately show ?thesis using fold map [OF _ docs, of "rag_New opts"] assms
    by (auto simp: loading_def rag_New_def rag_holds_def entry_keys_def split: option.splits)
qed

lemma load_save:
  assumes h: "rag_holds tab opts D ix"
  obtains ix' where "rag_Load tab opts (rag_Save opts ix) = Inr ix'" "rag_holds tab opts D ix'" "ix_order ix' = ix_order ix"
    "map_of (ix_chunks ix') = map_of (ix_chunks ix)"
proof -
  obtain m ix' where l: "load_chunks tab (foldl load_doc (rag_New opts) (map (\<lambda>(_, e). persist_doc (de_doc e)) (ix_docs ix)))
      (map (\<lambda>k. persisted (the (map_of (ix_chunks ix) k))) (ix_order ix)) = Inr ix'"
    "loading tab opts D ix m (ix_order ix) ix'"
    using load_all [OF h append_Nil [symmetric] load_docs [OF h]] by blast
  have r: "rag_Load tab opts (rag_Save opts ix) = Inr ix'"
    using l(1) by (simp add: rag_Load_def rag_Save_def persisted_def Let_def)
  have ok: "ix_ok tab (Stopwords (opt_Ranking opts)) (library_of tab opts D) ix" using h by (simp add: rag_holds_def)
  have full: "take (m b) (doc_chunks tab opts d) = doc_chunks tab opts d" if "D b = Some d" for b d
  proof -
    have "entry_keys b (take (m b) (doc_chunks tab opts d)) = entry_keys b (doc_chunks tab opts d)"
      using loading_keys [OF l(2) that] ix_okD(8) [OF ok, of b d "doc_chunks tab opts d"] that by (simp add: library_of_def)
    then have "length (take (m b) (doc_chunks tab opts d)) = length (doc_chunks tab opts d)"
      unfolding entry_keys_def by (rule map_eq_imp_length_eq)
    then show ?thesis by simp
  qed
  have L: "(\<lambda>b. map_option (\<lambda>d. (d, take (m b) (doc_chunks tab opts d))) (D b)) = library_of tab opts D"
  proof
    fix b
    show "map_option (\<lambda>d. (d, take (m b) (doc_chunks tab opts d))) (D b) = library_of tab opts D b"
      using full [of b] by (cases "D b") (simp_all add: library_of_def)
  qed
  have e: "map_option (\<lambda>d. \<lparr>de_doc = d, de_chunkKeys = entry_keys b (take (m b) (doc_chunks tab opts d))\<rparr>) (D b)
      = map_option (\<lambda>d. \<lparr>de_doc = d, de_chunkKeys = entry_keys b (doc_chunks tab opts d)\<rparr>) (D b)" for b
    using full [of b] by (cases "D b") simp_all
  have "rag_holds tab opts D ix'"
    using l(2) unfolding loading_def L rag_holds_def e by blast
  moreover have "map_of (ix_chunks ix') = map_of (ix_chunks ix)"
    using l(2) ix_okD(4) [OF ok] by (auto simp: loading_def fun_eq_iff)
  ultimately show ?thesis using that r l(2) by (simp add: loading_def)
qed

end
