(* ===== verification/Rag_Search_Laws.thy ===== *)
theory Rag_Search_Laws
  imports Rag_Search Rag_Index_Laws
begin

text \<open>
  Laws of search: the stable sort orders by score, the selection respects the caps, and every hit shows a
  slice of an indexed document.
\<close>

section \<open>Sorting\<close>

text \<open>The comparison of finite scores is a strict weak order, and equality its incomparability.\<close>

definition floats_ordered :: "('f, 'g) floats \<Rightarrow> bool" where
  "floats_ordered fl \<longleftrightarrow> (\<forall>x y z. g_finite fl x \<longrightarrow> g_finite fl y \<longrightarrow> g_finite fl z \<longrightarrow>
     (g_eq fl x y \<longleftrightarrow> \<not> g_less fl x y \<and> \<not> g_less fl y x) \<and> (g_less fl x y \<longrightarrow> \<not> g_less fl y x)
     \<and> (g_less fl x z \<longrightarrow> g_less fl x y \<or> g_less fl y z))"

lemma set_insert_stable: "set (insert_stable lt x ys) = insert x (set ys)"
  by (induction lt x ys rule: insert_stable.induct) auto

lemma set_SliceStable [simp]: "set (SliceStable lt xs) = set xs"
  unfolding SliceStable_def by (induction xs) (simp_all add: set_insert_stable)

text \<open>Inserting keeps a list sorted for any key that the comparison respects.\<close>

lemma insert_stable_sorted:
  assumes "sorted_wrt (\<lambda>a b. \<not> gt a b) ys" "\<And>y. y \<in> set ys \<Longrightarrow> lt y x \<Longrightarrow> \<not> gt y x"
    "\<And>y. y \<in> set ys \<Longrightarrow> \<not> lt y x \<Longrightarrow> \<not> gt x y" "\<And>y z. y \<in> set ys \<Longrightarrow> z \<in> set ys \<Longrightarrow> \<not> gt x y \<Longrightarrow> \<not> gt y z \<Longrightarrow> \<not> gt x z"
  shows "sorted_wrt (\<lambda>a b. \<not> gt a b) (insert_stable lt x ys)"
  using assms
proof (induction lt x ys rule: insert_stable.induct)
  case (2 lt x y ys)
  show ?case
  proof (cases "lt y x")
    case True
    have "sorted_wrt (\<lambda>a b. \<not> gt a b) (insert_stable lt x ys)"
    proof (rule 2(1) [OF True])
      show "sorted_wrt (\<lambda>a b. \<not> gt a b) ys" using 2(2) by simp
      show "\<not> gt z x" if "z \<in> set ys" "lt z x" for z by (rule 2(3)) (use that in auto)
      show "\<not> gt x z" if "z \<in> set ys" "\<not> lt z x" for z by (rule 2(4)) (use that in auto)
      show "\<not> gt x w" if "z \<in> set ys" "w \<in> set ys" "\<not> gt x z" "\<not> gt z w" for z w
        by (rule 2(5) [of z w]) (use that in auto)
    qed
    then show ?thesis using True 2(2,3) by (auto simp: set_insert_stable)
  next
    case False
    then have g: "\<not> gt x y" using 2(4) by simp
    have "\<not> gt x z" if "z \<in> set ys" for z
      by (rule 2(5) [of y z]) (use g that 2(2) in auto)
    then show ?thesis using False g 2(2) by auto
  qed
qed simp

lemma SliceStable_scores:
  assumes fl: "floats_ordered fl" and fin: "\<forall>c \<in> set cs. g_finite fl (sc_score c)"
  shows "sorted_wrt (\<lambda>a b. \<not> g_less fl (sc_score a) (sc_score b)) (SliceStable (scored_less fl ix) cs)"
  using fin
proof (induction cs)
  case (Cons c cs)
  have s: "SliceStable (scored_less fl ix) (c # cs) = insert_stable (scored_less fl ix) c (SliceStable (scored_less fl ix) cs)"
    by (simp add: SliceStable_def)
  have less: "g_eq fl (sc_score x) (sc_score y) \<longleftrightarrow> \<not> g_less fl (sc_score x) (sc_score y) \<and> \<not> g_less fl (sc_score y) (sc_score x)"
    "g_less fl (sc_score x) (sc_score y) \<longrightarrow> \<not> g_less fl (sc_score y) (sc_score x)"
    if "x \<in> set (c # cs)" "y \<in> set (c # cs)" for x y
    using fl Cons.prems that unfolding floats_ordered_def by blast+
  show ?case unfolding s
  proof (rule insert_stable_sorted [where gt = "\<lambda>a b. g_less fl (sc_score a) (sc_score b)"])
    show "sorted_wrt (\<lambda>a b. \<not> g_less fl (sc_score a) (sc_score b)) (SliceStable (scored_less fl ix) cs)" using Cons by simp
    show "\<not> g_less fl (sc_score y) (sc_score c)" if "y \<in> set (SliceStable (scored_less fl ix) cs)" "scored_less fl ix y c" for y
      using that less [of y c] by (auto simp: scored_less_def split: if_splits)
    show "\<not> g_less fl (sc_score c) (sc_score y)" if "y \<in> set (SliceStable (scored_less fl ix) cs)" "\<not> scored_less fl ix y c" for y
      using that less [of y c] by (auto simp: scored_less_def split: if_splits)
    show "\<not> g_less fl (sc_score c) (sc_score z)"
      if "y \<in> set (SliceStable (scored_less fl ix) cs)" "z \<in> set (SliceStable (scored_less fl ix) cs)"
        "\<not> g_less fl (sc_score c) (sc_score y)" "\<not> g_less fl (sc_score y) (sc_score z)" for y z
      using fl Cons.prems that unfolding floats_ordered_def by (metis list.set_intros set_SliceStable)
  qed
qed (simp add: SliceStable_def)

section \<open>Hits\<close>

abbreviation hit_doc :: "'g Hit \<Rightarrow> string" where
  "hit_doc h \<equiv> chunk_DocID (hit_Chunk h)"

lemma widen_doc: "widen ix b c n = Some c' \<Longrightarrow> chunk_DocID c' = chunk_DocID c"
  by (auto simp: widen_def Let_def split: option.splits if_splits)

lemma make_hit_doc: "make_hit ix q c = Some h \<Longrightarrow> hit_doc h = chunk_DocID (chunk_at ix (sc_key c))"
  by (auto simp: make_hit_def chunk_at_def Let_def dest: widen_doc split: if_splits)

lemma make_hit_score: "make_hit ix q c = Some h \<Longrightarrow> hit_Score h = sc_score c"
  by (auto simp: make_hit_def Let_def)

definition caps_ok :: "'g Query \<Rightarrow> 'g Hit list \<Rightarrow> bool" where
  "caps_ok q hits \<longleftrightarrow> int (length hits) \<le> topK q
    \<and> (maxChunksPerDoc q > 0 \<longrightarrow> (\<forall>b. int (length (filter (\<lambda>h. hit_doc h = b) hits)) \<le> maxChunksPerDoc q))
    \<and> (MaxDocs q > 0 \<longrightarrow> int (card (hit_doc ` set hits)) \<le> MaxDocs q)"

lemma select_hits_caps:
  assumes "caps_ok q hits" "\<forall>b. get_or perDoc b 0 = length (filter (\<lambda>h. hit_doc h = b) hits)"
    "set docsUsed = hit_doc ` set hits" "distinct docsUsed"
    and "select_hits ix q perDoc docsUsed hits cs = Some r"
  shows "caps_ok q r"
  using assms
proof (induction ix q perDoc docsUsed hits cs rule: select_hits.induct)
  case (2 ix q perDoc docsUsed hits c cs)
  let ?b = "chunk_DocID (chunk_at ix (sc_key c))"
  show ?case
  proof (cases "int (length hits) \<ge> topK q")
    case True
    then show ?thesis using 2(4,8) by simp
  next
    case room: False
    show ?thesis
    proof (cases "maxChunksPerDoc q > 0 \<and> int (get_or perDoc ?b 0) \<ge> maxChunksPerDoc q")
      case True
      then show ?thesis using 2(1) [OF room refl True 2(4-7)] room True 2(8) by (auto simp: Let_def)
    next
      case per: False
      show ?thesis
      proof (cases "MaxDocs q > 0 \<and> ?b \<notin> set docsUsed \<and> int (length docsUsed) \<ge> MaxDocs q")
        case True
        then show ?thesis using 2(2) [OF room refl per True 2(4-7)] room per True 2(8) by (auto simp: Let_def)
      next
        case docs: False
        obtain h where h: "make_hit ix q c = Some h"
          "select_hits ix q (AList.update ?b (get_or perDoc ?b 0 + 1) perDoc) (List.insert ?b docsUsed) (hits @ [h]) cs = Some r"
          using 2(8) room per docs by (auto simp: Let_def split: option.splits)
        note doc = make_hit_doc [OF h(1)]
        let ?hits = "hits @ [h]"
        have len: "length docsUsed = card (hit_doc ` set hits)" using 2(6,7) by (metis distinct_card)
        have "caps_ok q ?hits" unfolding caps_ok_def
        proof (intro conjI impI allI)
          show "int (length ?hits) \<le> topK q" using room by simp
          show "int (length (filter (\<lambda>h. hit_doc h = b) ?hits)) \<le> maxChunksPerDoc q" if "maxChunksPerDoc q > 0" for b
            using that per 2(4,5) by (auto simp: doc caps_ok_def)
          show "int (card (hit_doc ` set ?hits)) \<le> MaxDocs q" if "MaxDocs q > 0"
          proof (cases "?b \<in> set docsUsed")
            case True
            then have "hit_doc ` set ?hits = hit_doc ` set hits" using 2(6) by (auto simp: doc)
            then show ?thesis using 2(4) that by (simp add: caps_ok_def)
          next
            case False
            then have "hit_doc ` set ?hits = insert ?b (hit_doc ` set hits)" "?b \<notin> hit_doc ` set hits"
              using 2(6) by (auto simp: doc)
            then show ?thesis using docs False that len by simp
          qed
        qed
        moreover have "\<forall>b. get_or (AList.update ?b (get_or perDoc ?b 0 + 1) perDoc) b 0 = length (filter (\<lambda>h. hit_doc h = b) ?hits)"
          using 2(5) by (auto simp: get_or_def doc)
        moreover have "set (List.insert ?b docsUsed) = hit_doc ` set ?hits" "distinct (List.insert ?b docsUsed)"
          using 2(6,7) by (auto simp: doc)
        ultimately show ?thesis using 2(3) [OF room refl per docs h(1)] h(2) by blast
      qed
    qed
  qed
qed simp

lemma select_hits_from:
  "select_hits ix q perDoc docsUsed hits cs = Some r \<Longrightarrow>
     \<exists>ks hs. set ks \<subseteq> set cs \<and> r = hits @ hs \<and> map (make_hit ix q) ks = map Some hs \<and> (sorted_wrt P cs \<longrightarrow> sorted_wrt P ks)"
proof (induction cs arbitrary: perDoc docsUsed hits)
  case (Cons c cs)
  let ?b = "chunk_DocID (chunk_at ix (sc_key c))"
  have "r = hits \<or> select_hits ix q perDoc docsUsed hits cs = Some r
      \<or> (\<exists>h. make_hit ix q c = Some h \<and> select_hits ix q (AList.update ?b (get_or perDoc ?b 0 + 1) perDoc) (List.insert ?b docsUsed) (hits @ [h]) cs = Some r)"
    using Cons.prems unfolding select_hits.simps Let_def
    by (simp split: if_split_asm option.split_asm)
  then consider (full) "r = hits"
    | (skip) "select_hits ix q perDoc docsUsed hits cs = Some r"
    | (take) h where "make_hit ix q c = Some h" "select_hits ix q (AList.update ?b (get_or perDoc ?b 0 + 1) perDoc)
        (List.insert ?b docsUsed) (hits @ [h]) cs = Some r" by blast
  then show ?case
  proof cases
    case full
    then show ?thesis by (intro exI [of _ "[]"]) simp
  next
    case skip
    obtain ks hs where "set ks \<subseteq> set cs" "r = hits @ hs" "map (make_hit ix q) ks = map Some hs"
      "sorted_wrt P cs \<longrightarrow> sorted_wrt P ks" using Cons.IH [OF skip] by blast
    then show ?thesis by (intro exI [of _ ks] exI [of _ hs]) auto
  next
    case take
    obtain ks hs where "set ks \<subseteq> set cs" "r = (hits @ [h]) @ hs" "map (make_hit ix q) ks = map Some hs"
      "sorted_wrt P cs \<longrightarrow> sorted_wrt P ks" using Cons.IH [OF take(2)] by blast
    then show ?thesis using take(1) by (intro exI [of _ "c # ks"] exI [of _ "h # hs"]) auto
  qed
qed simp

lemma select_hits_total:
  "\<forall>c \<in> set cs. make_hit ix q c \<noteq> None \<Longrightarrow> select_hits ix q perDoc docsUsed hits cs \<noteq> None"
  by (induction cs arbitrary: perDoc docsUsed hits) (auto simp: Let_def)

lemma accept_score_Some: "accept_score fl q w c = Some c' \<Longrightarrow> c' = c \<and> g_finite fl (sc_score c)"
  by (auto simp: accept_score_def Let_def split: if_splits)

lemma score_candidate_Some:
  assumes "score_candidate fl opts now q kw qvec key ce = Some c"
  shows "sc_key c = key \<and> g_finite fl (sc_score c)"
proof -
  obtain vw kwW rw where w: "search_weights fl opts = (vw, kwW, rw)" by (rule prod_cases3)
  obtain c0 where "accept_score fl q rw c0 = Some c" "sc_key c0 = key"
    using assms w unfolding score_candidate_def Let_def by (auto split: if_split_asm)
  then show ?thesis using accept_score_Some by fastforce
qed

lemma candidate_Some:
  assumes "candidate fl opts now q kw qvec ix key = Some c"
  shows "sc_key c = key \<and> g_finite fl (sc_score c) \<and> (\<exists>ce. map_of (ix_chunks ix) key = Some ce
    \<and> (\<forall>f e. q_Filter q = Some f \<longrightarrow> map_of (ix_docs ix) (chunk_DocID (ce_chunk ce)) = Some e \<longrightarrow> f (de_doc e)))"
proof -
  obtain ce where ce: "map_of (ix_chunks ix) key = Some ce" using assms by (cases "map_of (ix_chunks ix) key") (auto simp: candidate_def)
  have f: "\<not> (case (q_Filter q, map_of (ix_docs ix) (chunk_DocID (ce_chunk ce))) of (Some f, Some e) \<Rightarrow> \<not> f (de_doc e) | _ \<Rightarrow> False)"
    and s: "score_candidate fl opts now q kw qvec key ce = Some c"
    using assms ce by (auto simp: candidate_def split: if_split_asm)
  have "\<forall>f e. q_Filter q = Some f \<longrightarrow> map_of (ix_docs ix) (chunk_DocID (ce_chunk ce)) = Some e \<longrightarrow> f (de_doc e)"
    using f by (cases "q_Filter q"; cases "map_of (ix_docs ix) (chunk_DocID (ce_chunk ce))") simp_all
  then show ?thesis using score_candidate_Some [OF s] ce by blast
qed

lemma Split_starts:
  assumes "i \<le> j" "j < length (Split scanMax u strip c d)"
  shows "chunk_Start (Split scanMax u strip c d ! i) \<le> chunk_Start (Split scanMax u strip c d ! j)"
proof -
  let ?w = "doc_windows c (unitLen scanMax u strip c) (doc_Text d)"
  have "packed c (unitLen scanMax u strip c) (doc_Text d) 0 (length (doc_Text d)) ?w"
    by (rule doc_windows_spec(1) [OF unitLen_ok splitParagraphs_spec(1) order_refl])
  then have "sorted_wrt (\<lambda>s t. fst s \<le> fst t \<and> snd s < snd t) ?w" by (simp add: packed_def ladder_def)
  then have "i < j \<Longrightarrow> fst (?w ! i) \<le> fst (?w ! j)" using assms by (simp add: sorted_wrt_iff_nth_less length_Split)
  then show ?thesis using assms by (cases "i = j") (simp_all add: Split_nth)
qed

lemma doc_chunks_starts:
  "i \<le> j \<Longrightarrow> j < length (doc_chunks tab opts d) \<Longrightarrow> chunk_Start (doc_chunks tab opts d ! i) \<le> chunk_Start (doc_chunks tab opts d ! j)"
  unfolding doc_chunks_def by (rule Split_starts)

text \<open>A hit shows a slice of its document.\<close>

definition hit_slice :: "Doc \<Rightarrow> 'g Hit \<Rightarrow> bool" where
  "hit_slice d h \<longleftrightarrow> chunk_Text (hit_Chunk h) = sublst (doc_Text d) (chunk_Start (hit_Chunk h)) (chunk_End (hit_Chunk h))
     \<and> chunk_Start (hit_Chunk h) \<le> chunk_End (hit_Chunk h) \<and> chunk_End (hit_Chunk h) \<le> length (doc_Text d)
     \<and> hit_doc h = doc_ID d \<and> hit_Title h = doc_Title d"

lemma make_hit_slice:
  assumes h: "rag_holds tab opts D ix" and k: "map_of (ix_chunks ix) (sc_key c) = Some ce"
  shows "\<exists>d. D (chunk_DocID (ce_chunk ce)) = Some d \<and> map_of (ix_docs ix) (chunk_DocID (ce_chunk ce))
      = Some \<lparr>de_doc = d, de_chunkKeys = entry_keys (chunk_DocID (ce_chunk ce)) (doc_chunks tab opts d)\<rparr>
    \<and> (\<forall>hit. make_hit ix q c = Some hit \<longrightarrow> hit_slice d hit)
    \<and> (Neighbours q + int (length (doc_chunks tab opts d)) \<le> max_int \<longrightarrow> make_hit ix q c \<noteq> None)"
proof -
  have ok: "ix_ok tab (Stopwords (opt_Ranking opts)) (library_of tab opts D) ix" using h by (simp add: rag_holds_def)
  obtain b d ch where b: "D b = Some d" "ch \<in> set (doc_chunks tab opts d)" "sc_key c = chunkKey b (chunk_Index ch)"
    using ix_okD(10) [OF ok, of "sc_key c"] k by (auto simp: library_of_def entry_keys_mem)
  let ?cs = "doc_chunks tab opts d"
  have lib: "library_of tab opts D b = Some (d, ?cs)" using b by (simp add: library_of_def)
  have at: "chunk_at ix (chunkKey b (chunk_Index x)) = x" if "x \<in> set ?cs" for x
    using ix_okD(9) [OF ok lib that] by (auto simp: chunk_at_def entry_of_def)
  obtain v where ce: "ce = entry_of d ch v" using ix_okD(9) [OF ok lib b(2)] k b(3) by auto
  have id: "doc_ID d = b" by (rule ix_okD(6) [OF ok lib])
  have sl: "chunk_Text x = sublst (doc_Text d) (chunk_Start x) (chunk_End x) \<and> chunk_Start x \<le> chunk_End x
      \<and> chunk_End x \<le> length (doc_Text d) \<and> chunk_DocID x = b" if "x \<in> set ?cs" for x
    using Split_slice that id by (fastforce simp: doc_chunks_def)
  have e: "map_of (ix_docs ix) b = Some \<lparr>de_doc = d, de_chunkKeys = entry_keys b ?cs\<rparr>" using h b(1) by (simp add: rag_holds_def)
  have nth: "chunk_Index (?cs ! i) = i" if "i < length ?cs" for i
    using that doc_chunks_index [of tab opts d] by (metis add.left_neutral nth_map nth_upt)
  have chi: "chunk_Index ch < length ?cs" using b(2) nth by (metis in_set_conv_nth)
  have "(\<forall>hit. make_hit ix q c = Some hit \<longrightarrow> hit_slice d hit) \<and> (Neighbours q + int (length ?cs) \<le> max_int \<longrightarrow> make_hit ix q c \<noteq> None)"
  proof (cases "Neighbours q > 0")
    case False
    then show ?thesis using sl [OF b(2)] id by (auto simp: hit_slice_def make_hit_def k Let_def ce entry_of_def)
  next
    case True
    let ?i = "int (chunk_Index ch)" and ?n = "int (length ?cs)"
    define lo where "lo = max 0 (wrap64 (?i - Neighbours q))"
    define hi where "hi = min (?n - 1) (wrap64 (?i + Neighbours q))"
    have key: "chunk_at ix (entry_keys b ?cs ! i) = ?cs ! i" if "i < length ?cs" for i
      using that at by (simp add: entry_keys_def)
    let ?w = "widen ix b ch (Neighbours q)"
    have w: "?w = (if lo = ?i \<and> hi = ?i then Some ch else if lo \<ge> ?n \<or> hi < 0 then None
        else let loChunk = chunk_at ix (entry_keys b ?cs ! nat lo); hiChunk = chunk_at ix (entry_keys b ?cs ! nat hi)
             in if \<not> (chunk_Start loChunk \<le> chunk_End hiChunk \<and> chunk_End hiChunk \<le> length (doc_Text d)) then None
                else Some \<lparr>chunk_DocID = chunk_DocID ch, chunk_Index = chunk_Index ch,
                  chunk_Text = sublst (doc_Text d) (chunk_Start loChunk) (chunk_End hiChunk),
                  chunk_Start = chunk_Start loChunk, chunk_End = chunk_End hiChunk\<rparr>)"
      unfolding widen_def e lo_def hi_def by (simp add: entry_keys_def Let_def)
    have m: "make_hit ix q c = map_option (\<lambda>x. \<lparr>hit_Chunk = x, hit_Title = doc_Title d, hit_Path = doc_Path d, hit_Kind = doc_Kind d,
        hit_Time = doc_Time d, hit_Vector = sc_vecRaw c, hit_Keyword = sc_kwRaw c, hit_Recency = sc_rec c, hit_Score = sc_score c,
        hit_LexicalOnly = sc_lexicalOnly c\<rparr>) ?w"
      using True sl [OF b(2)] by (simp add: make_hit_def k Let_def ce entry_of_def)
    have ok: "chunk_Text x = sublst (doc_Text d) (chunk_Start x) (chunk_End x) \<and> chunk_Start x \<le> chunk_End x
        \<and> chunk_End x \<le> length (doc_Text d) \<and> chunk_DocID x = b" if "?w = Some x" for x
      using that sl [OF b(2)] unfolding w by (auto simp: Let_def split: if_splits)
    have "?w \<noteq> None" if "Neighbours q + ?n \<le> max_int"
    proof -
      have "wrap64 (?i - Neighbours q) = ?i - Neighbours q" "wrap64 (?i + Neighbours q) = ?i + Neighbours q"
        using that True chi by (simp_all add: max_int_def)
      then have r: "nat lo \<le> nat hi" "nat hi < length ?cs" "lo < ?n" "0 \<le> hi" using True chi by (auto simp: lo_def hi_def)
      have "chunk_Start (?cs ! nat lo) \<le> chunk_Start (?cs ! nat hi)" by (rule doc_chunks_starts [OF r(1,2)])
      also have "\<dots> \<le> chunk_End (?cs ! nat hi)" using sl [OF nth_mem [OF r(2)]] by blast
      finally show ?thesis using r key [of "nat lo"] key [of "nat hi"] sl [OF nth_mem [OF r(2)]] unfolding w by (simp add: Let_def)
    qed
    then show ?thesis using ok id unfolding m by (auto simp: hit_slice_def)
  qed
  then show ?thesis using b(1) e sl [OF b(2)] by (auto simp: ce entry_of_def)
qed

end
