(* ===== verification/Rag_Contract.thy ===== *)
theory Rag_Contract
  imports Rag_Search_Laws Rag_Chunk_Contract
begin

text \<open>
  The properties of the retrieval index: it implements a map from document ids to documents, a snapshot
  restores it, keyword scores exist for exactly the matching chunks, and a search respects its caps and
  its filter. The interface of the keyword index is a locale.
\<close>

section \<open>The keyword index as a store\<close>

text \<open>
  A store represents a finite map; putting under a new key and deleting are updates of that map. What a
  client relies on follows: replacing a value leaves no trace of the old one.
\<close>

locale map_store =
  fixes rep :: "('k \<Rightarrow> 'v option) \<Rightarrow> 's \<Rightarrow> bool" and put :: "'k \<Rightarrow> 'v \<Rightarrow> 's \<Rightarrow> 's" and del :: "'k \<Rightarrow> 's \<Rightarrow> 's"
  assumes rep_put: "rep m s \<Longrightarrow> m k = None \<Longrightarrow> rep (m(k \<mapsto> v)) (put k v s)"
    and rep_del: "rep m s \<Longrightarrow> rep (m(k := None)) (del k s)"
begin

lemma rep_replace: "rep m s \<Longrightarrow> rep (m(k \<mapsto> v)) (put k v (del k s))"
  using rep_put [OF rep_del, of m s k k v] by simp

lemma rep_undo: "rep m s \<Longrightarrow> m k = None \<Longrightarrow> rep m (del k (put k v s))"
  using rep_del [OF rep_put, of m s k v k] by (simp add: fun_upd_idem)

text \<open>A script of removals (\<open>None\<close>) and replacements.\<close>

lemma rep_script:
  "rep m s \<Longrightarrow> rep (foldl (\<lambda>m (k, v). m(k := v)) m kvs)
     (foldl (\<lambda>s (k, v). case v of None \<Rightarrow> del k s | Some x \<Rightarrow> put k x (del k s)) s kvs)"
  by (induction kvs arbitrary: m s) (auto simp: rep_replace rep_del split: option.split)

end

definition bm_holds :: "unicode_tables \<Rightarrow> string list \<Rightarrow> (string \<Rightarrow> string option) \<Rightarrow> bm25Index \<Rightarrow> bool" where
  "bm_holds u stop m b \<longleftrightarrow> stopwords b = stop
     \<and> bm_rep (\<lambda>k. map_option (\<lambda>s. filter (\<lambda>t. t \<notin> set stop) (tokenize u s)) (m k)) b"

interpretation bm: map_store "bm_holds u stop" "bm_add u" bm_remove for u stop
proof
  fix m b k v
  assume h: "bm_holds u stop m b"
  let ?ts = "\<lambda>m k. map_option (\<lambda>s. filter (\<lambda>t. t \<notin> set stop) (tokenize u s)) (m k)"
  have d: "?ts (m(k := None)) = (?ts m)(k := None)" "?ts (m(k \<mapsto> v)) = (?ts m)(k \<mapsto> chunk_terms u b v)"
    using h by (auto simp: fun_eq_iff bm_holds_def chunk_terms_def)
  have st: "stopwords b = stop" and r: "bm_rep (?ts m) b" using h by (simp_all add: bm_holds_def)
  show "bm_holds u stop (m(k := None)) (bm_remove k b)"
    using bm_remove_rep [OF r, of k] st unfolding bm_holds_def d by simp
  show "bm_holds u stop (m(k \<mapsto> v)) (bm_add u k v b)" if "m k = None"
    using bm_add_rep [OF r, of k u v] that st unfolding bm_holds_def d by simp
qed

section \<open>The properties\<close>

text \<open>
  C17. The keyword index holds exactly the current texts: after any sequence of removals and re-indexings (a removal
  of the key followed by an addition, which is how the index adds a chunk), every posting, document frequency, length
  and the total are those of the last text under each key that is still present, as if nothing else had ever been indexed.
\<close>

theorem bm25_no_stale_postings:
  assumes "bm_holds u stop m b"
  shows "bm_holds u stop (foldl (\<lambda>m (k, v). m(k := v)) m kvs)
    (foldl (\<lambda>b (k, v). case v of None \<Rightarrow> bm_remove k b | Some s \<Rightarrow> bm_add u k s (bm_remove k b)) b kvs)"
  by (rule bm.rep_script [OF assms])

lemma bm_holds_new: "bm_holds u stop (\<lambda>_. None) (newBM25Index stop)"
  using bm_rep_new [of stop] by (simp add: bm_holds_def newBM25Index_def)

lemma bm25_no_stale_postings_witness:
  "bm_holds ascii_tables [''the''] [''c'' \<mapsto> ''the cat'']
     (foldl (\<lambda>b (k, v). case v of None \<Rightarrow> bm_remove k b | Some s \<Rightarrow> bm_add ascii_tables k s (bm_remove k b))
       (newBM25Index [''the'']) [(''c'', Some ''a dog''), (''d'', Some ''a fox''), (''c'', Some ''the cat''), (''d'', None)])"
proof -
  have "foldl (\<lambda>m (k, v). m(k := v)) (\<lambda>_. None) [(''c'', Some ''a dog''), (''d'', Some ''a fox''), (''c'', Some ''the cat''), (''d'', None)]
      = [''c'' \<mapsto> ''the cat'']" by (simp add: fun_eq_iff)
  then show ?thesis
    using bm25_no_stale_postings [OF bm_holds_new, of ascii_tables "[''the'']"
      "[(''c'', Some ''a dog''), (''d'', Some ''a fox''), (''c'', Some ''the cat''), (''d'', None)]"] by simp
qed

text \<open>
  A query scores exactly the chunks it matches: with at least one term left after stop words, a
  chunk has a score if and only if it is a chunk of an indexed document and its title and text contain
  one of the query's terms, or in \<open>LexicalAll\<close> mode all of them.
\<close>

theorem scores_exactly_matches:
  assumes "rag_holds tab opts D ix"
    and "terms = distinct_terms (Stopwords (opt_Ranking opts)) [] (tokenize (tab_unicode tab) query)" "terms \<noteq> []"
  shows "map_of (scores fl (tab_unicode tab) (ix_bm25 ix) query mode) key \<noteq> None \<longleftrightarrow>
    (\<exists>b d c. D b = Some d \<and> c \<in> set (doc_chunks tab opts d) \<and> key = chunkKey b (chunk_Index c)
      \<and> (let found = set (tokenize (tab_unicode tab) (doc_Title d @ [CHR 0x0A] @ chunk_Text c))
         in if mode = LexicalAll then set terms \<subseteq> found else set terms \<inter> found \<noteq> {}))"
proof -
  let ?stop = "Stopwords (opt_Ranking opts)" and ?u = "tab_unicode tab"
  have ok: "ix_ok tab ?stop (library_of tab opts D) ix" using assms(1) by (simp add: rag_holds_def)
  have nostop: "set terms \<inter> set ?stop = {}" using distinct_terms_set [of ?stop "[]"] by (auto simp: assms(2))
  have key: "chunk_corpus tab ?stop (ix_chunks ix) key = Some ws \<longleftrightarrow>
      (\<exists>b d c. D b = Some d \<and> c \<in> set (doc_chunks tab opts d) \<and> key = chunkKey b (chunk_Index c)
        \<and> ws = filter (\<lambda>t. t \<notin> set ?stop) (tokenize ?u (doc_Title d @ [CHR 0x0A] @ chunk_Text c)))" for ws
  proof
    assume w: "chunk_corpus tab ?stop (ix_chunks ix) key = Some ws"
    then have k: "map_of (ix_chunks ix) key \<noteq> None" by (auto simp: chunk_corpus_def)
    obtain b d c where b: "D b = Some d" "c \<in> set (doc_chunks tab opts d)" "key = chunkKey b (chunk_Index c)"
      using ix_okD(10) [OF ok k] by (auto simp: library_of_def entry_keys_mem)
    then obtain v where "map_of (ix_chunks ix) key = Some (entry_of d c v)"
      using ix_okD(9) [OF ok, of b d] by (auto simp: library_of_def)
    then show "\<exists>b d c. D b = Some d \<and> c \<in> set (doc_chunks tab opts d) \<and> key = chunkKey b (chunk_Index c)
        \<and> ws = filter (\<lambda>t. t \<notin> set ?stop) (tokenize ?u (doc_Title d @ [CHR 0x0A] @ chunk_Text c))"
      using w b by (intro exI [of _ b] exI [of _ d] exI [of _ c]) (auto simp: chunk_corpus_def chunk_source_def entry_of_def)
  next
    assume "\<exists>b d c. D b = Some d \<and> c \<in> set (doc_chunks tab opts d) \<and> key = chunkKey b (chunk_Index c)
        \<and> ws = filter (\<lambda>t. t \<notin> set ?stop) (tokenize ?u (doc_Title d @ [CHR 0x0A] @ chunk_Text c))"
    then obtain b d c where b: "D b = Some d" "c \<in> set (doc_chunks tab opts d)" "key = chunkKey b (chunk_Index c)"
      "ws = filter (\<lambda>t. t \<notin> set ?stop) (tokenize ?u (doc_Title d @ [CHR 0x0A] @ chunk_Text c))" by blast
    then obtain v where "map_of (ix_chunks ix) key = Some (entry_of d c v)"
      using ix_okD(9) [OF ok, of b d] by (auto simp: library_of_def)
    then show "chunk_corpus tab ?stop (ix_chunks ix) key = Some ws"
      using b(4) by (simp add: chunk_corpus_def chunk_source_def entry_of_def)
  qed
  define P where "P xs = (if mode = LexicalAll then set terms \<subseteq> set xs else set terms \<inter> set xs \<noteq> {})" for xs
  have P: "P (filter (\<lambda>t. t \<notin> set ?stop) xs) = P xs" for xs using nostop by (auto simp: P_def)
  have "map_of (scores fl ?u (ix_bm25 ix) query mode) key \<noteq> None \<longleftrightarrow>
    (\<exists>ws. chunk_corpus tab ?stop (ix_chunks ix) key = Some ws \<and> P ws)"
    unfolding P_def by (rule scores_dom [OF ix_okD(5) [OF ok]]) (use assms(2,3) ix_okD(1) [OF ok] in simp_all)
  also have "\<dots> \<longleftrightarrow> (\<exists>b d c. D b = Some d \<and> c \<in> set (doc_chunks tab opts d) \<and> key = chunkKey b (chunk_Index c)
      \<and> P (filter (\<lambda>t. t \<notin> set ?stop) (tokenize ?u (doc_Title d @ [CHR 0x0A] @ chunk_Text c))))"
    unfolding key by blast
  finally show ?thesis unfolding P unfolding P_def Let_def .
qed

text \<open>
  C18. Adding documents is adding them to a map: on success the index holds the old documents with each
  added one under its id, a document already present being replaced with all its chunks and statistics;
  on an error the index is unchanged.
\<close>

theorem rag_Add_refines:
  assumes "rag_holds tab opts D ix" "rag_Add tab opts ctxDone docs ix = (err, ix')"
  shows "(err = None \<longrightarrow> rag_holds tab opts (foldl put_doc D docs) ix') \<and> (err \<noteq> None \<longrightarrow> ix' = ix)"
proof (cases "docs = [] \<or> ctxDone")
  case True
  then show ?thesis using assms by (auto simp: rag_Add_def split: if_splits)
next
  case False
  note h = add_docs_holds [OF assms(1), of docs]
  show ?thesis
  proof (cases "Embedder opts")
    case None
    then show ?thesis using False assms(2) h [of False "[]"] by (auto simp: rag_Add_def)
  next
    case (Some emb)
    let ?texts = "embed_texts opts (map (\<lambda>d. (d, doc_chunks tab opts d)) docs)"
    show ?thesis
    proof (cases "?texts = []")
      case True
      then show ?thesis using Some False assms(2) h [of True "[]"] by (auto simp: rag_Add_def)
    next
      case texts: False
      then show ?thesis using Some False assms(2) h [of True]
        by (cases "emb ?texts") (auto simp: rag_Add_def Let_def split: if_splits)
    qed
  qed
qed

definition plain_opts :: "rat rag_Options" where
  "plain_opts = \<lparr>Embedder = None, EmbedderID = [], QueryPrefix = [], DocPrefix = [], opt_Chunker = rune_chunker 6,
     opt_Ranking = \<lparr>VectorWeight = 0, KeywordWeight = 0, RecencyWeight = 0, RecencyHalfLife = 0, KindWeight = [], Stopwords = []\<rparr>\<rparr>"

definition plain_tables :: tables where
  "plain_tables = \<lparr>tab_scanMax = 0, tab_unicode = ascii_tables, tab_strip = id\<rparr>"

definition sample_index :: "rat Index" where
  "sample_index = snd (rag_Add plain_tables plain_opts False [text_doc ''ab cd. efg hi jk. l''] (rag_New plain_opts))"

lemma sample_added:
  "rag_Add plain_tables plain_opts False [text_doc ''ab cd. efg hi jk. l''] (rag_New plain_opts) = (None, sample_index)"
  unfolding sample_index_def by (simp add: rag_Add_def plain_opts_def)

lemma rag_Add_refines_witness:
  "rag_holds plain_tables plain_opts [''d'' \<mapsto> text_doc ''ab cd. efg hi jk. l''] sample_index"
  using rag_Add_refines [OF rag_holds_new sample_added] by (simp add: put_doc_def text_doc_def)

lemma sample_holds: "rag_holds plain_tables plain_opts (put_doc Map.empty (text_doc ''ab cd. efg hi jk. l'')) sample_index"
  using add_docs_holds [OF rag_holds_new, of plain_tables plain_opts "[text_doc ''ab cd. efg hi jk. l'']" False "[]"]
  by (simp add: sample_index_def rag_Add_def plain_opts_def)

text \<open>Floating point instantiated with the rationals.\<close>

definition rat_floats :: "(rat, rat) floats" where
  "rat_floats = \<lparr>f_of_int = of_int, f_const = id, f_add = (+), f_sub = (-), f_mul = (*), f_div = (/), f_log = id, f_pow = (\<lambda>x y. y),
     f_narrow = id, g_const = id, g_add = (+), g_sub = (-), g_mul = (*), g_div = (/), g_less = (<), g_eq = (=), g_finite = (\<lambda>_. True)\<rparr>"

lemma sample_chunks: "doc_chunks plain_tables plain_opts (text_doc ''ab cd. efg hi jk. l'')
    = [chunk_of 0 ''ab cd.'' 0 6, chunk_of 1 ''efg hi'' 7 13, chunk_of 2 ''hi jk.'' 11 17, chunk_of 3 ''l'' 18 19]"
  using sample_split by (simp add: doc_chunks_def plain_tables_def plain_opts_def)

lemma scores_exactly_matches_witness:
  "map_of (scores rat_floats ascii_tables (ix_bm25 sample_index) ''cd'' LexicalAny) (chunkKey ''d'' 0) \<noteq> None"
proof -
  have t: "distinct_terms (Stopwords (opt_Ranking plain_opts)) [] (tokenize (tab_unicode plain_tables) ''cd'') = [''cd'']"
    and f: "''cd'' \<in> set (tokenize ascii_tables (doc_Title (text_doc ''ab cd. efg hi jk. l'') @ [CHR 0x0A] @ ''ab cd.''))"
    by code_simp+
  have "\<exists>b d c. put_doc Map.empty (text_doc ''ab cd. efg hi jk. l'') b = Some d \<and> c \<in> set (doc_chunks plain_tables plain_opts d)
      \<and> chunkKey ''d'' 0 = chunkKey b (chunk_Index c)
      \<and> (let found = set (tokenize (tab_unicode plain_tables) (doc_Title d @ [CHR 0x0A] @ chunk_Text c))
         in if LexicalAny = LexicalAll then set [''cd''] \<subseteq> found else set [''cd''] \<inter> found \<noteq> {})"
  proof (intro exI conjI)
    show "put_doc Map.empty (text_doc ''ab cd. efg hi jk. l'') ''d'' = Some (text_doc ''ab cd. efg hi jk. l'')"
      by (simp add: put_doc_def text_doc_def)
    show "chunk_of 0 ''ab cd.'' 0 6 \<in> set (doc_chunks plain_tables plain_opts (text_doc ''ab cd. efg hi jk. l''))"
      by (simp add: sample_chunks)
    show "chunkKey ''d'' 0 = chunkKey ''d'' (chunk_Index (chunk_of 0 ''ab cd.'' 0 6))" by (simp add: chunk_of_def)
    have "chunk_Text (chunk_of 0 ''ab cd.'' 0 6) = ''ab cd.''" by (simp add: chunk_of_def)
    then show "let found = set (tokenize (tab_unicode plain_tables) (doc_Title (text_doc ''ab cd. efg hi jk. l'') @ [CHR 0x0A] @ chunk_Text (chunk_of 0 ''ab cd.'' 0 6)))
         in if LexicalAny = LexicalAll then set [''cd''] \<subseteq> found else set [''cd''] \<inter> found \<noteq> {}"
      using f by (simp add: Let_def plain_tables_def)
  qed
  then show ?thesis
    using scores_exactly_matches [OF sample_holds t [symmetric], of rat_floats LexicalAny "chunkKey ''d'' 0"]
    by (simp add: plain_tables_def)
qed

text \<open>
  Removing documents is removing them from the map, and the result counts the ids that were present.
\<close>

theorem rag_Remove_refines:
  assumes "rag_holds tab opts D ix" "rag_Remove ids ix = (ix', removed)"
  shows "rag_holds tab opts (\<lambda>b. if b \<in> set ids then None else D b) ix' \<and> removed = card (set ids \<inter> dom D)"
  using remove_docs_holds [OF assms(1), of 0 ids ix' removed] assms(2) by (simp add: rag_Remove_def)

lemma rag_Remove_refines_witness: "snd (rag_Remove [''d'', ''e'', ''d''] sample_index) = 1"
  using rag_Remove_refines [OF sample_holds, of "[''d'', ''e'', ''d'']" "fst (rag_Remove [''d'', ''e'', ''d''] sample_index)"
      "snd (rag_Remove [''d'', ''e'', ''d''] sample_index)"]
  by (simp add: put_doc_def text_doc_def)

text \<open>
  C19. A snapshot restores the index: loading what was saved, with the same options, succeeds and yields
  an index that holds the same documents with all their fields, the metadata map included, with the same chunks and
  vectors in the same order and the same keyword statistics. (The encoding of the snapshot is the library's.)
\<close>

theorem rag_Load_Save:
  assumes "rag_holds tab opts D ix"
  shows "\<exists>ix'. rag_Load tab opts (rag_Save opts ix) = Inr ix' \<and> rag_holds tab opts D ix' \<and> ix_order ix' = ix_order ix
    \<and> (\<forall>key. map_of (ix_chunks ix') key = map_of (ix_chunks ix) key)"
  using load_save [OF assms] by metis

lemma rag_Load_Save_witness:
  "\<exists>ix'. rag_Load plain_tables plain_opts (rag_Save plain_opts sample_index) = Inr ix' \<and> ix_order ix' = ix_order sample_index"
  using rag_Load_Save [OF sample_holds] by blast

text \<open>A query that returns: its limits, its filter, its order.\<close>

definition search_ok :: "('f, 'g) floats \<Rightarrow> 'g Query \<Rightarrow> (string \<Rightarrow> Doc option) \<Rightarrow> 'g Hit list \<Rightarrow> bool" where
  "search_ok fl q D hits \<longleftrightarrow> caps_ok q hits
    \<and> (\<forall>h \<in> set hits. \<exists>d. D (hit_doc h) = Some d \<and> hit_slice d h \<and> (\<forall>f. q_Filter q = Some f \<longrightarrow> f d))
    \<and> (floats_ordered fl \<longrightarrow> sorted_wrt (\<lambda>a b. \<not> g_less fl (hit_Score a) (hit_Score b)) hits)"

lemma select_ok:
  assumes h: "rag_holds tab opts D ix" and cs: "cs = List.map_filter (candidate fl opts now q kw qvec ix) (ix_order ix)"
  shows "select_hits ix q [] [] [] (SliceStable (scored_less fl ix) cs) = Some hits \<Longrightarrow> search_ok fl q D hits"
    and "\<forall>b d. D b = Some d \<longrightarrow> Neighbours q + int (length (doc_chunks tab opts d)) \<le> max_int \<Longrightarrow>
      select_hits ix q [] [] [] (SliceStable (scored_less fl ix) cs) \<noteq> None"
proof -
  have cand: "g_finite fl (sc_score c) \<and> (\<exists>ce. map_of (ix_chunks ix) (sc_key c) = Some ce
      \<and> (\<forall>f e. q_Filter q = Some f \<longrightarrow> map_of (ix_docs ix) (chunk_DocID (ce_chunk ce)) = Some e \<longrightarrow> f (de_doc e)))" if "c \<in> set cs" for c
    using that candidate_Some by (fastforce simp: cs map_filter_def)
  show "search_ok fl q D hits" if hits: "select_hits ix q [] [] [] (SliceStable (scored_less fl ix) cs) = Some hits"
  proof -
    let ?P = "\<lambda>a b. \<not> g_less fl (sc_score a) (sc_score b)"
    obtain ks hs where f: "set ks \<subseteq> set (SliceStable (scored_less fl ix) cs)" "hits = [] @ hs" "map (make_hit ix q) ks = map Some hs"
      "sorted_wrt ?P (SliceStable (scored_less fl ix) cs) \<longrightarrow> sorted_wrt ?P ks"
      using select_hits_from [OF hits, of ?P] by blast
    have ks: "set ks \<subseteq> set cs" "map (make_hit ix q) ks = map Some hits"
      "sorted_wrt ?P (SliceStable (scored_less fl ix) cs) \<longrightarrow> sorted_wrt ?P ks"
      using f(1) f(3,4) unfolding f(2) by (simp_all only: set_SliceStable append_Nil)
    have n: "length ks = length hits" using map_eq_imp_length_eq [OF ks(2)] .
    have nth: "make_hit ix q (ks ! i) = Some (hits ! i)" if "i < length hits" for i
    proof -
      have "map (make_hit ix q) ks ! i = map Some hits ! i" by (simp only: ks(2))
      then show ?thesis using that n by (simp only: nth_map)
    qed
    have "caps_ok q hits"
      by (rule select_hits_caps [OF _ _ _ _ hits]) (simp_all add: caps_ok_def topK_def maxChunksPerDoc_def get_or_def)
    moreover have "\<exists>d. D (hit_doc h) = Some d \<and> hit_slice d h \<and> (\<forall>f. q_Filter q = Some f \<longrightarrow> f d)" if mem: "h \<in> set hits" for h
    proof -
      obtain i where "i < length hits" "h = hits ! i" using mem unfolding in_set_conv_nth by blast
      then have "make_hit ix q (ks ! i) = Some h" "ks ! i \<in> set cs" using n nth [of i] ks(1) nth_mem [of i ks] by (simp, metis subsetD)
      then obtain c where c: "c \<in> set cs" "make_hit ix q c = Some h" by blast
      obtain ce where ce: "map_of (ix_chunks ix) (sc_key c) = Some ce"
        "\<forall>f e. q_Filter q = Some f \<longrightarrow> map_of (ix_docs ix) (chunk_DocID (ce_chunk ce)) = Some e \<longrightarrow> f (de_doc e)" using cand [OF c(1)] by blast
      have "hit_doc h = chunk_DocID (ce_chunk ce)" using ce(1) by (simp add: make_hit_doc [OF c(2)] chunk_at_def)
      then show ?thesis using make_hit_slice [OF assms(1) ce(1), of q] ce(2) c(2) by fastforce
    qed
    moreover have "sorted_wrt (\<lambda>a b. \<not> g_less fl (hit_Score a) (hit_Score b)) hits" if "floats_ordered fl"
    proof -
      have "sorted_wrt (\<lambda>a b. \<not> g_less fl (sc_score a) (sc_score b)) ks" using SliceStable_scores [OF that, of cs ix] cand ks(3) by simp
      moreover have "hit_Score (hits ! i) = sc_score (ks ! i)" if "i < length hits" for i using make_hit_score [OF nth [OF that]] .
      ultimately show ?thesis using n by (simp add: sorted_wrt_iff_nth_less)
    qed
    ultimately show ?thesis unfolding search_ok_def by blast
  qed
  show "select_hits ix q [] [] [] (SliceStable (scored_less fl ix) cs) \<noteq> None"
    if room: "\<forall>b d. D b = Some d \<longrightarrow> Neighbours q + int (length (doc_chunks tab opts d)) \<le> max_int"
  proof (rule select_hits_total, rule ballI)
    fix c
    assume "c \<in> set (SliceStable (scored_less fl ix) cs)"
    then have "c \<in> set cs" by simp
    then obtain ce where ce: "map_of (ix_chunks ix) (sc_key c) = Some ce" using cand by blast
    then show "make_hit ix q c \<noteq> None" using make_hit_slice [OF assms(1) ce, of q] room by blast
  qed
qed

text \<open>
  C20. A search respects its limits and shows the truth: when it returns hits, they are at most \<open>topK\<close>, at most
  \<open>MaxChunksPerDoc\<close> from a document and of \<open>MaxDocs\<close> documents when these are positive; every hit, widened or not, is a
  slice of a document of the index that passes the filter; and when the floating-point comparison is a strict weak order
  on finite values, no hit has a lower score than a later one. It panics only when \<open>Neighbours\<close> and the number of chunks
  of a document together exceed the largest \<open>int\<close>.
\<close>

theorem rag_Search_sound:
  assumes "rag_holds tab opts D ix"
  shows "case rag_Search fl tab opts ctxDone now query q ix of
      Inr hits \<Rightarrow> search_ok fl q D hits
    | Inl e \<Rightarrow> e = SlicePanic \<longrightarrow> (\<exists>b d. D b = Some d \<and> max_int < Neighbours q + int (length (doc_chunks tab opts d)))"
proof (cases "ctxDone \<or> ix_chunks ix = []")
  case True
  then show ?thesis by (auto simp: rag_Search_def search_ok_def caps_ok_def topK_def)
next
  case False
  show ?thesis
  proof (cases "query_vector opts query")
    case (Inl e)
    then have "e \<noteq> SlicePanic" by (auto simp: query_vector_def split: option.splits sum.splits)
    then show ?thesis using False Inl by (simp add: rag_Search_def Let_def)
  next
    case (Inr qvec)
    let ?cs = "List.map_filter (candidate fl opts now q (scores fl (tab_unicode tab) (ix_bm25 ix) query (Lexical q)) qvec ix) (ix_order ix)"
    have "rag_Search fl tab opts ctxDone now query q ix
        = (case select_hits ix q [] [] [] (SliceStable (scored_less fl ix) ?cs) of None \<Rightarrow> Inl SlicePanic | Some hits \<Rightarrow> Inr hits)"
      using False Inr by (simp add: rag_Search_def Let_def)
    then show ?thesis using select_ok [OF assms refl, where fl = fl and q = q and qvec = qvec and now = now and kw = "scores fl (tab_unicode tab) (ix_bm25 ix) query (Lexical q)"]
      by (cases "select_hits ix q [] [] [] (SliceStable (scored_less fl ix) ?cs)") (force simp: not_le [symmetric], simp)
  qed
qed

definition plain_query :: "rat Query" where
  "plain_query = \<lparr>TopK = 2, MinScore = 0, MinVector = 0, MaxChunksPerDoc = 0, MaxDocs = 0, Neighbours = 1, q_Filter = None, Lexical = LexicalAny\<rparr>"

lemma sample_search:
  "case rag_Search rat_floats plain_tables plain_opts False 0 ''hi'' plain_query sample_index of Inr hits \<Rightarrow> hits \<noteq> [] | Inl e \<Rightarrow> False"
  by code_simp

lemma rag_Search_sound_witness:
  "\<exists>hits. rag_Search rat_floats plain_tables plain_opts False 0 ''hi'' plain_query sample_index = Inr hits \<and> length hits \<in> {1, 2}"
proof -
  obtain hits where h: "rag_Search rat_floats plain_tables plain_opts False 0 ''hi'' plain_query sample_index = Inr hits" "hits \<noteq> []"
    using sample_search by (auto split: sum.splits)
  have "search_ok rat_floats plain_query (put_doc Map.empty (text_doc ''ab cd. efg hi jk. l'')) hits"
    using rag_Search_sound [OF sample_holds, where fl = rat_floats and ctxDone = False and now = 0 and query = "''hi''" and q = plain_query] h(1) by simp
  then have "int (length hits) \<le> 2" by (simp add: search_ok_def caps_ok_def topK_def plain_query_def)
  moreover have "0 < length hits" using h(2) by simp
  ultimately have "length hits = 1 \<or> length hits = 2" by linarith
  then show ?thesis using h(1) by blast
qed

text \<open>
  The number of neighbours is not capped: with the largest \<open>int\<close> the sum of positions wraps around to a negative
  number, and a search that finds a chunk which is not a document's first panics.
\<close>

theorem widen_overflow_panics:
  "rag_Search rat_floats plain_tables plain_opts False 0 ''hi'' (plain_query\<lparr>Neighbours := max_int\<rparr>) sample_index = Inl SlicePanic"
  by code_simp

end
