(* ===== verification/Agentos.thy ===== *)
theory Agentos
  imports Go_Strings
begin

text \<open>
  The gate for shell commands a model proposes (\<^verbatim>\<open>agentos/agentos.go\<close>): reading the proposal, splitting
  the command line, the policy, and execution with bounded output.

  The JSON decoder and the operating system are parameters: \<open>run\<close> starts a program with its arguments
  and gives the writes to its combined output and how it ended. File paths are those of Unix.
\<close>

section \<open>Policies and proposals\<close>

type_synonym Policy = string

definition PolicyDeny :: Policy where "PolicyDeny = ''deny''"
definition PolicyWhitelist :: Policy where "PolicyWhitelist = ''whitelist''"
definition PolicyAllow :: Policy where "PolicyAllow = ''allow''"

text \<open>The policy and whether there is an error.\<close>

definition ParsePolicy :: "unicode_tables \<Rightarrow> string \<Rightarrow> Policy \<times> bool" where
  "ParsePolicy u s = (let p = strings_ToLower u (TrimSpace s) in
     if p = [] \<or> p = PolicyDeny then (PolicyDeny, False)
     else if p = PolicyWhitelist then (PolicyWhitelist, False)
     else if p = PolicyAllow then (PolicyAllow, False)
     else (PolicyDeny, True))"

record Proposal =
  Cmd :: string
  Dsc :: string
  Safe :: int

datatype os_error = NoObject | NotJSON string | EmptyCmd | Unterminated char | EmptyCommand | Refused string | NotApproved string
  | RunFailed string

definition IndexByte :: "string \<Rightarrow> char \<Rightarrow> nat option" where
  "IndexByte s c = Index s [c]"

definition LastIndexByte :: "string \<Rightarrow> char \<Rightarrow> nat option" where
  "LastIndexByte s c = (case Index (rev s) [c] of None \<Rightarrow> None | Some i \<Rightarrow> Some (length s - 1 - i))"

definition ticks :: string where
  "ticks = ''```''"

definition ParseProposal :: "(string \<Rightarrow> string + Proposal) \<Rightarrow> string \<Rightarrow> os_error + Proposal" where
  "ParseProposal unmarshal raw =
    (let content = TrimSpace raw;
         content = (case Index content ticks of None \<Rightarrow> content
           | Some fence \<Rightarrow>
              (let rest = drop (fence + 3) content;
                   rest = (case IndexByte rest (CHR 0x0A) of None \<Rightarrow> rest | Some nl \<Rightarrow> drop (nl + 1) rest)
               in case Index rest ticks of None \<Rightarrow> content | Some e \<Rightarrow> TrimSpace (take e rest)))
     in case (IndexByte content (CHR 0x7B), LastIndexByte content (CHR 0x7D)) of
         (Some start, Some e) \<Rightarrow>
           (if e \<le> start then Inl NoObject
            else case unmarshal (take (e + 1 - start) (drop start content)) of
                Inl err \<Rightarrow> Inl (NotJSON err)
              | Inr p \<Rightarrow> if TrimSpace (Cmd p) = [] then Inl EmptyCmd else Inr p)
       | _ \<Rightarrow> Inl NoObject)"

section \<open>Command lines\<close>

text \<open>The loop of \<open>SplitArgs\<close>: the arguments, the current one, the open quote and whether one was started.\<close>

record split_state =
  sp_args :: "string list"
  sp_cur :: string
  sp_quote :: "char option"
  sp_started :: bool

definition split_flush :: "split_state \<Rightarrow> split_state" where
  "split_flush st = (if sp_cur st \<noteq> [] \<or> sp_started st
     then st\<lparr>sp_args := sp_args st @ [sp_cur st], sp_cur := [], sp_started := False\<rparr> else st)"

definition split_step :: "split_state \<Rightarrow> char \<Rightarrow> split_state" where
  "split_step st c = (case sp_quote st of
     Some q \<Rightarrow> if c = q then st\<lparr>sp_quote := None\<rparr> else st\<lparr>sp_cur := sp_cur st @ [c]\<rparr>
   | None \<Rightarrow>
      if c = CHR 0x27 \<or> c = CHR 0x22 then st\<lparr>sp_quote := Some c, sp_started := True\<rparr>
      else if c = CHR 0x20 \<or> c = CHR 0x09 then split_flush st
      else st\<lparr>sp_cur := sp_cur st @ [c]\<rparr>)"

definition split_start :: split_state where
  "split_start = \<lparr>sp_args = [], sp_cur = [], sp_quote = None, sp_started = False\<rparr>"

definition SplitArgs :: "string \<Rightarrow> os_error + string list" where
  "SplitArgs cmd =
    (let st = foldl split_step split_start cmd in
     case sp_quote st of Some q \<Rightarrow> Inl (Unterminated q)
     | None \<Rightarrow> (let args = sp_args (split_flush st) in if args = [] then Inl EmptyCommand else Inr args))"

definition shellMetacharacters :: "string list" where
  "shellMetacharacters = ['';'', ''|'', ''&'', ''>'', ''<'', ''$('', ''`'', [CHR 0x0A], [CHR 0x0D], ''$(('', ''${'']"

definition HasShellMetacharacters :: "string \<Rightarrow> bool" where
  "HasShellMetacharacters cmd = list_ex (Contains cmd) shellMetacharacters"

text \<open>\<open>filepath.Base\<close> on Unix.\<close>

definition filepath_Base :: "string \<Rightarrow> string" where
  "filepath_Base path =
    (if path = [] then ''.''
     else let p = rev (dropWhile (\<lambda>c. c = CHR ''/'') (rev path));
              b = rev (takeWhile (\<lambda>c. c \<noteq> CHR ''/'') (rev p))
          in if b = [] then ''/'' else b)"

section \<open>The decision\<close>

record Decision =
  AutoRun :: bool
  Blocked :: bool
  Reason :: string
  Program :: string

record Runner =
  run_Policy :: Policy
  Allowed :: "string list"
  Timeout :: int
  WorkDir :: string
  MaxOutput :: int

definition decide :: "bool \<Rightarrow> bool \<Rightarrow> string \<Rightarrow> string \<Rightarrow> Decision" where
  "decide auto blocked reason program = \<lparr>AutoRun = auto, Blocked = blocked, Reason = reason, Program = program\<rparr>"

definition split_reason :: "os_error \<Rightarrow> string" where
  "split_reason e = (case e of Unterminated q \<Rightarrow> ''unterminated '' @ [q] @ '' quote'' | _ \<Rightarrow> ''empty command'')"

definition Evaluate :: "Runner \<Rightarrow> Proposal \<Rightarrow> Decision" where
  "Evaluate r p =
    (let cmd = TrimSpace (Cmd p) in
     if cmd = [] then decide False True ''empty command'' []
     else if run_Policy r = PolicyAllow then decide True False ''policy allows every command'' []
     else if run_Policy r = PolicyWhitelist then
       (if HasShellMetacharacters cmd
        then decide False True ''whitelist mode refuses shell metacharacters (;, |, &, >, <, $(, backtick), which could chain past an allowed program'' []
        else case SplitArgs cmd of
            Inl e \<Rightarrow> decide False True (split_reason e) []
          | Inr args \<Rightarrow>
             (let program = filepath_Base (hd args) in
              if hd args \<noteq> program \<or> Contains (hd args) [CHR 0x5C] then decide False False ''program paths need approval'' program
              else if list_ex (\<lambda>allowed. program = TrimSpace allowed) (Allowed r) then decide True False ''program is allow-listed'' program
              else decide False False (''program '' @ program @ '' is not allow-listed; needs approval'') program))
     else decide False False ''every command needs explicit approval in deny mode'' [])"

section \<open>Execution\<close>

record boundedOutput =
  bo_data :: string
  bo_limit :: int
  bo_truncated :: bool

definition bo_Write :: "boundedOutput \<Rightarrow> string \<Rightarrow> boundedOutput" where
  "bo_Write w p =
    (let remaining = bo_limit w - int (length (bo_data w));
         w' = (if remaining > 0 then
                 (if remaining < int (length p) then w\<lparr>bo_data := bo_data w @ take (nat remaining) p\<rparr>
                  else w\<lparr>bo_data := bo_data w @ p\<rparr>)
               else w)
     in if int (length p) > remaining then w'\<lparr>bo_truncated := True\<rparr> else w')"

text \<open>How a program ends: normally or with an exit code, or it could not be run.\<close>

datatype run_end = Exited int | NotRun string

record os_run =
  run_writes :: "string list"
  run_ended :: run_end
  run_timedOut :: bool

text \<open>The duration is left out.\<close>

record Result =
  res_Cmd :: string
  ExitCode :: int
  Output :: string
  Truncated :: bool
  TimedOut :: bool

definition empty_result :: Result where
  "empty_result = \<lparr>res_Cmd = [], ExitCode = 0, Output = [], Truncated = False, TimedOut = False\<rparr>"

type_synonym command = "string \<times> string list"

text \<open>The program and arguments that \<open>Execute\<close> starts.\<close>

definition exec_command :: "Runner \<Rightarrow> Proposal \<Rightarrow> os_error + command" where
  "exec_command r p =
    (if run_Policy r = PolicyAllow then Inr (''/bin/sh'', [''-c'', Cmd p])
     else case SplitArgs (Cmd p) of Inl e \<Rightarrow> Inl e | Inr args \<Rightarrow> Inr (hd args, tl args))"

text \<open>
  Timeouts are nanoseconds. The last component lists the commands started, with timeout and directory.
\<close>

definition Execute :: "(command \<Rightarrow> int \<Rightarrow> string \<Rightarrow> os_run) \<Rightarrow> Runner \<Rightarrow> Proposal \<Rightarrow> bool \<Rightarrow>
    Result \<times> Decision \<times> os_error option \<times> command list" where
  "Execute run r p approved =
    (let decision = Evaluate r p in
     if Blocked decision then (empty_result, decision, Some (Refused (Reason decision)), [])
     else if \<not> AutoRun decision \<and> \<not> approved then (empty_result, decision, Some (NotApproved (Reason decision)), [])
     else let timeout = (if Timeout r \<le> 0 then 30000000000 else Timeout r);
              maxOutput = (if MaxOutput r \<le> 0 then 65536 else MaxOutput r)
          in case exec_command r p of
              Inl e \<Rightarrow> (empty_result, decision, Some e, [])
            | Inr cmd \<Rightarrow>
               (let outc = run cmd timeout (WorkDir r);
                    output = foldl bo_Write \<lparr>bo_data = [], bo_limit = maxOutput, bo_truncated = False\<rparr> (run_writes outc);
                    result = \<lparr>res_Cmd = Cmd p, ExitCode = 0, Output = bo_data output, Truncated = bo_truncated output, TimedOut = run_timedOut outc\<rparr>
                in case run_ended outc of
                    Exited code \<Rightarrow> (result\<lparr>ExitCode := code\<rparr>, decision, None, [cmd])
                  | NotRun e \<Rightarrow> (result, decision, Some (RunFailed e), [cmd])))"

end
