(* ===== verification/Go_Strings_Laws.thy ===== *)
theory Go_Strings_Laws
  imports Go_Strings "HOL-Library.Code_Target_Nat"
begin

text \<open>
  Laws of the string operations that several components share: where \<open>strings.Index\<close> finds a text, and what
  \<open>strings.TrimSpace\<close> leaves alone.
\<close>

section \<open>First occurrences\<close>

lemma HasPrefix_iff: "HasPrefix s p \<longleftrightarrow> (\<exists>t. s = p @ t)"
  using HasPrefixE [of s p] by auto

lemma HasPrefix_append2: "HasPrefix s p \<Longrightarrow> HasPrefix (s @ t) p"
  by (auto simp: HasPrefix_iff)

lemma HasPrefix_short: "length p \<le> length s \<Longrightarrow> HasPrefix (s @ t) p \<longleftrightarrow> HasPrefix s p"
  by (simp add: HasPrefix_def)

lemma Index_iff: "Index s p = Some i \<longleftrightarrow> i \<le> length s \<and> HasPrefix (drop i s) p \<and> (\<forall>j < i. \<not> HasPrefix (drop j s) p)"
proof (induction s arbitrary: i)
  case Nil
  then show ?case by (auto simp: HasPrefix_def)
next
  case (Cons c s)
  then show ?case by (cases i) (auto simp: All_less_Suc2)
qed

lemma Index_None_iff: "Index s p = None \<longleftrightarrow> (\<forall>j \<le> length s. \<not> HasPrefix (drop j s) p)"
proof
  assume "Index s p = None"
  then show "\<forall>j \<le> length s. \<not> HasPrefix (drop j s) p"
    by (metis HasPrefixE Index_None append_take_drop_id)
next
  assume "\<forall>j \<le> length s. \<not> HasPrefix (drop j s) p"
  then show "Index s p = None" by (cases "Index s p") (auto simp: Index_iff)
qed

lemma Index_append: "Index s p = Some i \<Longrightarrow> Index (s @ t) p = Some i"
  using Index_bound [of s p i] by (auto simp: Index_iff HasPrefix_append2 HasPrefix_short)

lemma Index_skip:
  "n \<le> length s \<Longrightarrow> (\<forall>j < n. \<not> HasPrefix (drop j s) p) \<Longrightarrow> Index s p = map_option ((+) n) (Index (drop n s) p)"
proof (induction n arbitrary: s)
  case 0
  then show ?case by (cases "Index s p") simp_all
next
  case (Suc n)
  then obtain c s' where s: "s = c # s'" by (cases s) auto
  have "\<not> HasPrefix (c # s') p" "\<forall>j < n. \<not> HasPrefix (drop j s') p" using Suc.prems(2) by (auto simp: s All_less_Suc2)
  then have "Index s p = map_option Suc (map_option ((+) n) (Index (drop n s') p))" using Suc.IH [of s'] Suc.prems(1) by (simp add: s)
  then show ?case by (simp add: s option.map_comp comp_def)
qed

section \<open>White space around a text\<close>

lemma space_encodings: "map EncodeRune space_runes =
  [[CHR 0x09], [CHR 0x0A], [CHR 0x0B], [CHR 0x0C], [CHR 0x0D], [CHR 0x20], [CHR 0xC2, CHR 0x85], [CHR 0xC2, CHR 0xA0],
   [CHR 0xE1, CHR 0x9A, CHR 0x80], [CHR 0xE2, CHR 0x80, CHR 0x80], [CHR 0xE2, CHR 0x80, CHR 0x81], [CHR 0xE2, CHR 0x80, CHR 0x82],
   [CHR 0xE2, CHR 0x80, CHR 0x83], [CHR 0xE2, CHR 0x80, CHR 0x84], [CHR 0xE2, CHR 0x80, CHR 0x85], [CHR 0xE2, CHR 0x80, CHR 0x86],
   [CHR 0xE2, CHR 0x80, CHR 0x87], [CHR 0xE2, CHR 0x80, CHR 0x88], [CHR 0xE2, CHR 0x80, CHR 0x89], [CHR 0xE2, CHR 0x80, CHR 0x8A],
   [CHR 0xE2, CHR 0x80, CHR 0xA8], [CHR 0xE2, CHR 0x80, CHR 0xA9], [CHR 0xE2, CHR 0x80, CHR 0xAF], [CHR 0xE2, CHR 0x81, CHR 0x9F],
   [CHR 0xE3, CHR 0x80, CHR 0x80]]"
  by code_simp

definition space_bytes :: "char set" where
  "space_bytes = set (concat (map EncodeRune space_runes))"

lemma EncodeRune_space_ends:
  assumes "r \<in> set space_runes"
  shows "EncodeRune r \<noteq> [] \<and> set (EncodeRune r) \<subseteq> space_bytes"
proof -
  have "list_all (\<lambda>e. e \<noteq> []) (map EncodeRune space_runes)" unfolding space_encodings by simp
  then show ?thesis using assms by (auto simp: list_all_iff space_bytes_def)
qed

lemma lead_space_none:
  assumes "s \<noteq> []" "hd s \<notin> space_bytes"
  shows "lead_space s = 0"
proof -
  have "\<not> HasPrefix s (EncodeRune r)" if r: "r \<in> set space_runes" for r
  proof
    assume "HasPrefix s (EncodeRune r)"
    then obtain t where "s = EncodeRune r @ t" by (auto dest: HasPrefixE)
    then have "hd s \<in> set (EncodeRune r)" using EncodeRune_space_ends [OF r] by simp
    then show False using EncodeRune_space_ends [OF r] assms(2) by blast
  qed
  then have "find (\<lambda>r. HasPrefix s (EncodeRune r)) space_runes = None" by (simp add: find_None_iff)
  then show ?thesis by (simp add: lead_space_def)
qed

lemma tail_space_none:
  assumes "s \<noteq> []" "last s \<notin> space_bytes"
  shows "tail_space s = 0"
proof -
  have "\<not> HasSuffix s (EncodeRune r)" if r: "r \<in> set space_runes" for r
  proof
    assume "HasSuffix s (EncodeRune r)"
    then obtain t where "s = t @ EncodeRune r" by (auto dest: HasSuffixE)
    then have "last s \<in> set (EncodeRune r)" using EncodeRune_space_ends [OF r] by simp
    then show False using EncodeRune_space_ends [OF r] assms(2) by blast
  qed
  then have "find (\<lambda>r. HasSuffix s (EncodeRune r)) space_runes = None" by (simp add: find_None_iff)
  then show ?thesis by (simp add: tail_space_def)
qed

lemma TrimSpace_id: "s \<noteq> [] \<Longrightarrow> hd s \<notin> space_bytes \<Longrightarrow> last s \<notin> space_bytes \<Longrightarrow> TrimSpace s = s"
  by (simp add: TrimSpace_def TrimLeftSpace.simps [of s] TrimRightSpace.simps [of s] lead_space_none tail_space_none)

lemma lead_space_LF: "lead_space (CHR 0x0A # s) = 1"
proof -
  have "EncodeRune 9 = [CHR 0x09]" "EncodeRune 10 = [CHR 0x0A]" by code_simp+
  then show ?thesis by (simp add: lead_space_def space_runes_def HasPrefix_def)
qed

lemma TrimSpace_LF: "s \<noteq> [] \<Longrightarrow> hd s \<notin> space_bytes \<Longrightarrow> last s \<notin> space_bytes \<Longrightarrow> TrimSpace (CHR 0x0A # s) = s"
  by (simp add: TrimSpace_def TrimLeftSpace.simps [of "CHR 0x0A # s"] lead_space_LF TrimLeftSpace.simps [of s]
      TrimRightSpace.simps [of s] lead_space_none tail_space_none)

lemma TrimLeftSpace_done: "TrimLeftSpace s = [] \<or> lead_space (TrimLeftSpace s) = 0"
proof (induction s rule: TrimLeftSpace.induct)
  case (1 s)
  then show ?case by (subst (1 2) TrimLeftSpace.simps) auto
qed

lemma TrimRightSpace_take: "\<exists>k. TrimRightSpace s = take k s"
proof (induction s rule: TrimRightSpace.induct)
  case (1 s)
  show ?case
  proof (cases "s = [] \<or> tail_space s = 0")
    case True
    then have "TrimRightSpace s = take (length s) s" by (subst TrimRightSpace.simps) auto
    then show ?thesis by blast
  next
    case False
    then have e: "TrimRightSpace s = TrimRightSpace (take (length s - tail_space s) s)" by (subst TrimRightSpace.simps) simp
    obtain k where "TrimRightSpace (take (length s - tail_space s) s) = take k (take (length s - tail_space s) s)" using 1 [OF False] ..
    then show ?thesis unfolding e by (metis take_take)
  qed
qed

lemma TrimSpace_not_LF: "TrimSpace s \<noteq> CHR 0x0A # t"
proof
  assume a: "TrimSpace s = CHR 0x0A # t"
  obtain k where "TrimSpace s = take k (TrimLeftSpace s)" using TrimRightSpace_take unfolding TrimSpace_def by blast
  then obtain z where z: "TrimLeftSpace s = CHR 0x0A # z" using a by (cases k; cases "TrimLeftSpace s") auto
  then show False using TrimLeftSpace_done [of s] lead_space_LF [of z] by simp
qed

text \<open>A text between printable ASCII characters is trimmed already.\<close>

lemma space_bytes_not_print: "c \<in> space_bytes \<Longrightarrow> \<not> (33 \<le> ord c \<and> ord c \<le> 126)"
  unfolding space_bytes_def space_encodings by auto

lemma TrimSpace_print:
  assumes "s \<noteq> []" "33 \<le> ord (hd s)" "ord (hd s) \<le> 126" "33 \<le> ord (last s)" "ord (last s) \<le> 126"
  shows "TrimSpace s = s"
  using assms space_bytes_not_print by (intro TrimSpace_id) blast+

lemma TrimSpace_Nil [simp]: "TrimSpace [] = []"
  by (simp add: TrimSpace_def TrimLeftSpace.simps TrimRightSpace.simps)

end
