(* ===== verification/Agentos_Contract.thy ===== *)
theory Agentos_Contract
  imports Agentos Go_Strings_Laws
begin

text \<open>
  The properties of the command gate: nothing runs without authority, what the whitelist lets through, the
  bounded output, and splitting as the inverse of quoting.
\<close>

section \<open>Splitting\<close>

definition single_quoted :: "string \<Rightarrow> string" where
  "single_quoted a = [CHR 0x27] @ a @ [CHR 0x27]"

lemma split_quoted:
  assumes "CHR 0x27 \<notin> set a" "sp_quote st = None"
  shows "foldl split_step st (single_quoted a) = st\<lparr>sp_cur := sp_cur st @ a, sp_started := True\<rparr>"
proof -
  have inside: "foldl split_step s a = s\<lparr>sp_cur := sp_cur s @ a\<rparr>" if "CHR 0x27 \<notin> set a" "sp_quote s = Some (CHR 0x27)" for s a
    using that
  proof (induction a arbitrary: s)
    case (Cons c a)
    have "split_step s c = s\<lparr>sp_cur := sp_cur s @ [c]\<rparr>" using Cons.prems by (auto simp: split_step_def)
    then show ?case using Cons.IH [of "split_step s c"] Cons.prems by simp
  qed simp
  have "split_step st (CHR 0x27) = st\<lparr>sp_quote := Some (CHR 0x27), sp_started := True\<rparr>" using assms(2) by (simp add: split_step_def)
  then show ?thesis using inside [OF assms(1), of "st\<lparr>sp_quote := Some (CHR 0x27), sp_started := True\<rparr>"] assms(2)
    by (simp add: single_quoted_def split_step_def)
qed

fun quoted_line :: "string list \<Rightarrow> string" where
  "quoted_line [] = []"
| "quoted_line [a] = single_quoted a"
| "quoted_line (a # b # args) = single_quoted a @ [CHR 0x20] @ quoted_line (b # args)"

lemma split_quoted_line:
  assumes "args \<noteq> []" "\<forall>a \<in> set args. CHR 0x27 \<notin> set a" "sp_quote st = None" "sp_cur st = []" "\<not> sp_started st"
  shows "foldl split_step st (quoted_line args)
    = st\<lparr>sp_args := sp_args st @ butlast args, sp_cur := last args, sp_started := True\<rparr>"
  using assms
proof (induction args arbitrary: st rule: quoted_line.induct)
  case (2 a)
  then show ?case using split_quoted [of a st] by simp
next
  case (3 a b args)
  have "split_step (st\<lparr>sp_cur := a, sp_started := True\<rparr>) (CHR 0x20) = st\<lparr>sp_args := sp_args st @ [a]\<rparr>"
    using 3(4-6) by (simp add: split_step_def split_flush_def)
  then show ?case using split_quoted [of a st] 3(1) [of "st\<lparr>sp_args := sp_args st @ [a]\<rparr>"] 3(3-6) by simp
qed simp

lemma split_args_nonempty: "SplitArgs cmd = Inr args \<Longrightarrow> args \<noteq> []"
  by (auto simp: SplitArgs_def Let_def split: option.splits if_splits)

section \<open>Decisions\<close>

lemma Evaluate_blocked_auto: "\<not> (Blocked (Evaluate r p) \<and> AutoRun (Evaluate r p))"
  by (auto simp: Evaluate_def decide_def Let_def split: sum.splits)

lemma Evaluate_auto:
  assumes "AutoRun (Evaluate r p)"
  shows "TrimSpace (Cmd p) \<noteq> [] \<and> \<not> Blocked (Evaluate r p) \<and> (run_Policy r = PolicyAllow
    \<or> (run_Policy r = PolicyWhitelist \<and> \<not> HasShellMetacharacters (TrimSpace (Cmd p))
       \<and> (\<exists>program args. SplitArgs (TrimSpace (Cmd p)) = Inr (program # args) \<and> program \<in> TrimSpace ` set (Allowed r)
            \<and> filepath_Base program = program \<and> \<not> Contains program [CHR 0x5C])))"
proof -
  let ?cmd = "TrimSpace (Cmd p)"
  have ne: "?cmd \<noteq> []" using assms by (auto simp: Evaluate_def decide_def)
  have nb: "\<not> Blocked (Evaluate r p)" using assms Evaluate_blocked_auto by blast
  show ?thesis
  proof (cases "run_Policy r = PolicyAllow")
    case False
    then have w: "run_Policy r = PolicyWhitelist" "\<not> HasShellMetacharacters ?cmd"
      using assms ne by (auto simp: Evaluate_def decide_def Let_def split: if_splits)
    obtain args where args: "SplitArgs ?cmd = Inr args"
      using assms ne False w by (cases "SplitArgs ?cmd") (auto simp: Evaluate_def decide_def Let_def)
    obtain program rest where a: "args = program # rest" using split_args_nonempty [OF args] by (cases args) auto
    have "program = filepath_Base program" "\<not> Contains program [CHR 0x5C]"
      "list_ex (\<lambda>allowed. filepath_Base program = TrimSpace allowed) (Allowed r)"
      using assms ne False w args a by (auto simp: Evaluate_def decide_def Let_def split: if_splits)
    then show ?thesis using ne nb w args a by (auto simp: list_ex_iff)
  qed (use ne nb in simp)
qed

section \<open>Plain program names\<close>

definition plain_name :: "string \<Rightarrow> bool" where
  "plain_name s \<longleftrightarrow> s \<noteq> [] \<and> (\<forall>c \<in> set s. 97 \<le> ord c \<and> ord c \<le> 122)"

lemma space_bytes_not_letter: "c \<in> space_bytes \<Longrightarrow> \<not> (97 \<le> ord c \<and> ord c \<le> 122)"
  unfolding space_bytes_def space_encodings by auto

lemma plain_trim:
  assumes "plain_name s"
  shows "TrimSpace s = s" "TrimSpace (CHR 0x0A # s) = s"
proof -
  have "s \<noteq> []" and l: "\<forall>c \<in> set s. c \<notin> space_bytes"
    using assms space_bytes_not_letter unfolding plain_name_def by blast+
  moreover have "hd s \<notin> space_bytes" "last s \<notin> space_bytes" using l \<open>s \<noteq> []\<close> by simp_all
  ultimately have "hd s \<notin> space_bytes" "last s \<notin> space_bytes" "s \<noteq> []" by blast+
  then show "TrimSpace s = s" "TrimSpace (CHR 0x0A # s) = s" using TrimSpace_id TrimSpace_LF by auto
qed

lemma plain_run: "\<forall>c \<in> set s. 97 \<le> ord c \<and> ord c \<le> 122 \<Longrightarrow> sp_quote st = None \<Longrightarrow>
    foldl split_step st s = st\<lparr>sp_cur := sp_cur st @ s\<rparr>"
proof (induction s arbitrary: st)
  case (Cons c s)
  then have "split_step st c = st\<lparr>sp_cur := sp_cur st @ [c]\<rparr>" by (auto simp: split_step_def)
  then show ?case using Cons by simp
qed simp

lemma plain_split:
  assumes "plain_name s"
  shows "SplitArgs s = Inr [s]" "SplitArgs (CHR 0x0A # s) = Inr [CHR 0x0A # s]"
proof -
  have l: "split_step split_start (CHR 0x0A) = split_start\<lparr>sp_cur := [CHR 0x0A]\<rparr>" by (simp add: split_step_def split_start_def)
  show "SplitArgs s = Inr [s]" "SplitArgs (CHR 0x0A # s) = Inr [CHR 0x0A # s]"
    using assms plain_run [of s split_start] plain_run [of s "split_start\<lparr>sp_cur := [CHR 0x0A]\<rparr>"] l
    by (simp_all add: SplitArgs_def Let_def plain_name_def split_flush_def split_start_def)
qed

lemma Contains_member: "Contains s (m # ms) \<Longrightarrow> m \<in> set s"
  using Index_Some [of s "m # ms"] by (auto simp: Contains_def)

lemma plain_no_meta: "plain_name s \<Longrightarrow> \<not> HasShellMetacharacters s \<and> \<not> Contains s [CHR 0x5C]"
  by (auto simp: HasShellMetacharacters_def shellMetacharacters_def plain_name_def dest!: Contains_member)

lemma plain_base: "plain_name s \<Longrightarrow> filepath_Base s = s"
proof -
  assume p: "plain_name s"
  then have n: "CHR ''/'' \<notin> set s" "s \<noteq> []" by (auto simp: plain_name_def)
  have a: "dropWhile (\<lambda>c. c = CHR ''/'') (rev s) = rev s" using n by (cases "rev s") auto
  have b: "takeWhile (\<lambda>c. c \<noteq> CHR ''/'') (rev s) = rev s" unfolding takeWhile_eq_all_conv using n by auto
  show ?thesis unfolding filepath_Base_def Let_def a rev_rev_ident b using n by simp
qed

section \<open>Bounded output\<close>

lemma bo_writes:
  assumes "bo_limit w \<ge> 0" "bo_data w = take (nat (bo_limit w)) s" "bo_truncated w \<longleftrightarrow> int (length s) > bo_limit w"
  shows "bo_data (foldl bo_Write w ps) = take (nat (bo_limit w)) (s @ concat ps)
    \<and> (bo_truncated (foldl bo_Write w ps) \<longleftrightarrow> int (length (s @ concat ps)) > bo_limit w)"
  using assms
proof (induction ps arbitrary: w s)
  case (Cons p ps)
  have l: "bo_limit (bo_Write w p) = bo_limit w" by (simp add: bo_Write_def Let_def)
  have "bo_data (bo_Write w p) = take (nat (bo_limit w)) (s @ p)"
    using Cons.prems by (auto simp: bo_Write_def Let_def min_def nat_diff_distrib take_all_iff)
  moreover have "bo_truncated (bo_Write w p) \<longleftrightarrow> int (length (s @ p)) > bo_limit w"
    using Cons.prems by (auto simp: bo_Write_def Let_def min_def)
  ultimately show ?case using Cons.IH [of "bo_Write w p" "s @ p"] Cons.prems(1) l by simp
qed simp

section \<open>The properties\<close>

text \<open>
  C21. Nothing runs without authority. A command is started only if the proposal is not blocked and was
  approved by a human or auto-approved by the policy; then it is exactly one, the one the proposal names. Only the allow
  and whitelist policies auto-approve. The proposal's own safety claim and description have no influence.
\<close>

theorem Execute_authorized:
  assumes "Execute run r p approved = (result, decision, err, started)"
  shows "decision = Evaluate r p
    \<and> (started \<noteq> [] \<longrightarrow> \<not> Blocked decision \<and> (approved \<or> AutoRun decision)
        \<and> (\<exists>cmd. started = [cmd] \<and> exec_command r p = Inr cmd))
    \<and> (AutoRun decision \<longrightarrow> run_Policy r = PolicyAllow \<or> run_Policy r = PolicyWhitelist)
    \<and> (\<forall>safe dsc. Evaluate r (p\<lparr>Safe := safe, Dsc := dsc\<rparr>) = decision)"
proof -
  have "decision = Evaluate r p" using assms by (auto simp: Execute_def Let_def split: if_splits sum.splits run_end.splits)
  moreover have "\<not> Blocked decision \<and> (approved \<or> AutoRun decision) \<and> (\<exists>cmd. started = [cmd] \<and> exec_command r p = Inr cmd)" if s: "started \<noteq> []"
    using assms s by (auto simp: Execute_def Let_def split: if_splits sum.splits run_end.splits)
  moreover have "Evaluate r (p\<lparr>Safe := safe, Dsc := dsc\<rparr>) = Evaluate r p" for safe dsc by (simp add: Evaluate_def)
  ultimately show ?thesis using Evaluate_auto [of r p] by blast
qed

definition git_runner :: Runner where
  "git_runner = \<lparr>run_Policy = PolicyWhitelist, Allowed = [''git''], Timeout = 0, WorkDir = [], MaxOutput = 0\<rparr>"

definition propose :: "string \<Rightarrow> Proposal" where
  "propose cmd = \<lparr>Cmd = cmd, Dsc = [], Safe = 2\<rparr>"

definition quiet_run :: "command \<Rightarrow> int \<Rightarrow> string \<Rightarrow> os_run" where
  "quiet_run cmd timeout dir = \<lparr>run_writes = [], run_ended = Exited 0, run_timedOut = False\<rparr>"

lemma sample_execute:
  "Execute quiet_run git_runner (propose ''git status'') False
    = (\<lparr>res_Cmd = ''git status'', ExitCode = 0, Output = [], Truncated = False, TimedOut = False\<rparr>,
       decide True False ''program is allow-listed'' ''git'', None, [(''git'', [''status''])])"
  by code_simp

lemma Execute_authorized_witness: "exec_command git_runner (propose ''git status'') = Inr (''git'', [''status''])"
  using Execute_authorized [OF sample_execute] by simp

text \<open>
  C22. The whitelist: when it auto-approves a command line without white space around it, the program
  started is an allow-listed name without any path separator, its arguments are those of the command
  line, and the line has no shell metacharacter.
\<close>

theorem whitelist_runs_allowed:
  assumes "run_Policy r = PolicyWhitelist" "AutoRun (Evaluate r p)" "TrimSpace (Cmd p) = Cmd p"
  shows "\<exists>program args. exec_command r p = Inr (program, args) \<and> SplitArgs (Cmd p) = Inr (program # args)
    \<and> program \<in> TrimSpace ` set (Allowed r) \<and> \<not> Contains program [CHR 0x5C] \<and> filepath_Base program = program
    \<and> (\<forall>meta \<in> set shellMetacharacters. \<not> Contains (Cmd p) meta)"
proof -
  have "run_Policy r \<noteq> PolicyAllow" using assms(1) by (simp add: PolicyWhitelist_def PolicyAllow_def)
  then show ?thesis using Evaluate_auto [OF assms(2)] assms(3)
    by (auto simp: exec_command_def HasShellMetacharacters_def list_ex_iff)
qed

lemma whitelist_runs_allowed_witness:
  "\<exists>program args. exec_command git_runner (propose ''git status'') = Inr (program, args) \<and> program \<in> TrimSpace ` set (Allowed git_runner)"
proof -
  have "run_Policy git_runner = PolicyWhitelist" "AutoRun (Evaluate git_runner (propose ''git status''))"
    "TrimSpace (Cmd (propose ''git status'')) = Cmd (propose ''git status'')" by code_simp+
  from whitelist_runs_allowed [OF this] show ?thesis by blast
qed

text \<open>
  C23. The line the whitelist examines is not the line that is executed: \<open>Evaluate\<close> trims the command and
  \<open>Execute\<close> splits it untrimmed, and \<open>SplitArgs\<close> separates at blanks and tabs only. An allow-listed name
  with a line feed before it is auto-approved, and without any human approval the program started is the
  one whose name begins with the line feed, which is not allow-listed.
\<close>

theorem whitelist_gap:
  assumes "run_Policy r = PolicyWhitelist" "name \<in> set (Allowed r)" "plain_name name"
    and "Execute run r (propose (CHR 0x0A # name)) False = (result, decision, err, started)"
  shows "AutoRun decision \<and> Program decision = name \<and> started = [(CHR 0x0A # name, [])]
    \<and> CHR 0x0A # name \<notin> TrimSpace ` set (Allowed r)"
proof -
  let ?p = "propose (CHR 0x0A # name)"
  have ne: "run_Policy r \<noteq> PolicyAllow" "name \<noteq> []"
    using assms(1,3) by (auto simp: PolicyWhitelist_def PolicyAllow_def plain_name_def)
  have cmd: "TrimSpace (Cmd ?p) = name" using plain_trim [OF assms(3)] by (simp add: propose_def)
  have "list_ex (\<lambda>allowed. name = TrimSpace allowed) (Allowed r)"
    unfolding list_ex_iff by (rule bexI [OF _ assms(2)]) (simp only: plain_trim(1) [OF assms(3)])
  then have ev: "Evaluate r ?p = decide True False ''program is allow-listed'' name"
    using ne assms(1) cmd plain_no_meta [OF assms(3)] plain_split(1) [OF assms(3)] plain_base [OF assms(3)]
    by (simp add: Evaluate_def Let_def)
  have "exec_command r ?p = Inr (CHR 0x0A # name, [])"
    using ne plain_split(2) [OF assms(3)] by (simp add: exec_command_def propose_def)
  then have "decision = Evaluate r ?p \<and> started = [(CHR 0x0A # name, [])]"
    using assms(4) ev by (auto simp: Execute_def decide_def Let_def split: run_end.splits)
  then show ?thesis using ev TrimSpace_not_LF by (auto simp: decide_def) metis
qed

lemma whitelist_gap_witness:
  "snd (snd (snd (Execute quiet_run git_runner (propose (CHR 0x0A # ''git'')) False))) = [(CHR 0x0A # ''git'', [])]"
proof -
  have h: "run_Policy git_runner = PolicyWhitelist" "''git'' \<in> set (Allowed git_runner)" "plain_name ''git''"
    by (simp_all add: git_runner_def plain_name_def)
  obtain result decision err started where "Execute quiet_run git_runner (propose (CHR 0x0A # ''git'')) False = (result, decision, err, started)"
    by (cases "Execute quiet_run git_runner (propose (CHR 0x0A # ''git'')) False")
  then show ?thesis using whitelist_gap [OF h] by simp
qed

text \<open>
  The captured output is the beginning of what the program wrote, up to the limit, and it is marked
  truncated exactly when something was left out, however the writes are cut.
\<close>

theorem Execute_output_bounded:
  assumes "Execute run r p approved = (result, decision, err, [cmd])"
    and "limit = (if MaxOutput r \<le> 0 then 65536 else nat (MaxOutput r))"
    and "written = concat (run_writes (run cmd (if Timeout r \<le> 0 then 30000000000 else Timeout r) (WorkDir r)))"
  shows "Output result = take limit written \<and> (Truncated result \<longleftrightarrow> limit < length written)"
proof -
  let ?timeout = "if Timeout r \<le> 0 then 30000000000 else Timeout r"
  let ?max = "if MaxOutput r \<le> 0 then 65536 else MaxOutput r"
  let ?out = "foldl bo_Write \<lparr>bo_data = [], bo_limit = ?max, bo_truncated = False\<rparr> (run_writes (run cmd ?timeout (WorkDir r)))"
  have e: "Output result = bo_data ?out" "Truncated result = bo_truncated ?out"
    using assms(1) by (auto simp: Execute_def Let_def split: if_splits sum.splits run_end.splits)
  have max: "?max = int limit" using assms(2) by simp
  show ?thesis unfolding e unfolding max assms(3)
    using bo_writes [of "\<lparr>bo_data = [], bo_limit = int limit, bo_truncated = False\<rparr>" "[]" "run_writes (run cmd ?timeout (WorkDir r))"]
    by simp
qed

definition chatty_run :: "command \<Rightarrow> int \<Rightarrow> string \<Rightarrow> os_run" where
  "chatty_run cmd timeout dir = \<lparr>run_writes = [''abc'', ''def''], run_ended = Exited 1, run_timedOut = False\<rparr>"

lemma sample_chatty:
  "Execute chatty_run (git_runner\<lparr>MaxOutput := 4\<rparr>) (propose ''git'') False
    = (\<lparr>res_Cmd = ''git'', ExitCode = 1, Output = ''abcd'', Truncated = True, TimedOut = False\<rparr>,
       decide True False ''program is allow-listed'' ''git'', None, [(''git'', [])])"
  by code_simp

lemma Execute_output_bounded_witness: "''abcd'' = take 4 (concat [''abc'', ''def'']) \<and> 4 < length (concat [''abc'', ''def''])"
  using Execute_output_bounded [OF sample_chatty refl refl] by (simp add: git_runner_def chatty_run_def)

text \<open>
  C24. Splitting inverts quoting: arguments without a single quote, each put in single quotes and joined
  by blanks, are split back into exactly themselves, the empty argument and shell characters included.
\<close>

theorem SplitArgs_quoted:
  assumes "args \<noteq> []" "\<forall>a \<in> set args. CHR 0x27 \<notin> set a"
  shows "SplitArgs (quoted_line args) = Inr args"
proof -
  have "foldl split_step split_start (quoted_line args)
      = split_start\<lparr>sp_args := butlast args, sp_cur := last args, sp_started := True\<rparr>"
    using split_quoted_line [OF assms, of split_start] by (simp add: split_start_def)
  then show ?thesis using assms(1) by (simp add: SplitArgs_def Let_def split_flush_def split_start_def)
qed

lemma SplitArgs_quoted_witness: "SplitArgs (quoted_line [''a b'', [], [CHR 0x22]]) = Inr [''a b'', [], [CHR 0x22]]"
  by (rule SplitArgs_quoted) simp_all

end
