(* ===== verification/Agent_Loop_Laws.thy ===== *)
theory Agent_Loop_Laws
  imports Agent_Loop
begin

text \<open>
  Laws of the agentic loop: a tool with a deadline always yields a result, a resolved round answers every
  call of its turn once and in order, and the rounds extend the conversation by resolved rounds only.
\<close>

section \<open>Tools\<close>

text \<open>A tool the loop never waits for without end: it has a deadline or always returns.\<close>

definition bounded_tool :: "'w AgenticTool \<Rightarrow> bool" where
  "bounded_tool t \<longleftrightarrow> (\<forall>execute. tool_Execute t = Some execute \<longrightarrow>
     0 \<le> tool_Timeout t \<or> (\<forall>c w. fst (execute c w) \<noteq> None))"

lemma runToolWithTimeout_returns:
  "0 \<le> timeout \<or> fst (execute c w) \<noteq> None \<Longrightarrow> runToolWithTimeout fm left timeout execute c w \<noteq> None"
  by (auto simp: runToolWithTimeout_def Let_def split: prod.splits option.splits)

lemma byName_SomeD:
  assumes "byName tools name = Some (t, execute)"
  shows "t \<in> set tools" "tool_Execute t = Some execute" "def_Name (tool_Definition t) = name" "name \<noteq> []"
proof -
  obtain u where u: "find (\<lambda>t. tool_Execute t \<noteq> None \<and> def_Name (tool_Definition t) \<noteq> [] \<and> def_Name (tool_Definition t) = name) (rev tools) = Some u"
      "map_option (Pair u) (tool_Execute u) = Some (t, execute)"
    using assms by (auto simp: byName_def split: option.splits)
  then have "u = t" "tool_Execute t = Some execute" by (auto simp: map_option_case split: option.splits)
  with u(1) show "t \<in> set tools" "tool_Execute t = Some execute" "def_Name (tool_Definition t) = name" "name \<noteq> []"
    by (auto simp: find_Some_iff in_set_conv_nth) (metis length_rev nth_mem set_rev in_set_conv_nth)+
qed

lemma run_tool_returns:
  assumes "0 \<le> tool_Timeout t \<or> fst (execute c w) \<noteq> None"
  shows "run_tool fm left t execute c w \<noteq> None"
proof -
  obtain p where "runToolWithTimeout fm (left w) (tool_Timeout t) execute c w = Some p"
    using runToolWithTimeout_returns [where timeout = "tool_Timeout t" and execute = execute] assms by blast
  then show ?thesis by (cases p; cases "fst p") (simp_all add: run_tool_def Let_def split_beta)
qed

lemma resolve_call_returns:
  assumes "\<forall>t \<in> set tools. bounded_tool t"
  shows "resolve_call fm left skills tools cache c w \<noteq> None"
proof (cases "byName tools (call_Name c)")
  case (Some p)
  then obtain t execute where "byName tools (call_Name c) = Some (t, execute)" by (cases p) auto
  moreover from byName_SomeD [OF this] assms have "0 \<le> tool_Timeout t \<or> fst (execute c w) \<noteq> None"
    by (auto simp: bounded_tool_def)
  ultimately show ?thesis using run_tool_returns [of t execute c w fm left]
    by (auto simp: resolve_call_def split: option.splits)
qed (simp add: resolve_call_def)

lemma resolve_calls_returns:
  assumes "\<forall>t \<in> set tools. bounded_tool t"
  shows "resolve_calls fm left skills tools iteration cache cs st \<noteq> None"
proof (induction cs arbitrary: st)
  case (Cons c cs)
  then show ?case using resolve_call_returns [OF assms, of fm left skills cache c "rs_world st"] by (auto split: option.splits)
qed simp

lemma resolveInternalToolCalls_returns:
  assumes "\<forall>t \<in> set tools. bounded_tool t"
  shows "resolveInternalToolCalls fm left calls skills tools iteration caller cache w \<noteq> None"
  by (simp add: resolveInternalToolCalls_def Let_def resolve_calls_returns [OF assms] split: option.split)

section \<open>A resolved round\<close>

text \<open>The message that answers a call.\<close>

definition answers :: "ToolCall \<Rightarrow> ChatMessage \<Rightarrow> bool" where
  "answers c m \<longleftrightarrow> Role m = ChatRoleTool \<and> ToolCallID m = call_ID c \<and> msg_Name m = call_Name c \<and> ToolCalls m = []"

definition tool_call :: "'w AgenticTool list \<Rightarrow> ToolCall \<Rightarrow> bool" where
  "tool_call tools c \<longleftrightarrow> call_Name c \<noteq> LoadSkillToolName \<and> byName tools (call_Name c) \<noteq> None"

lemma answers_ToolResultMessage [simp]: "answers c (ToolResultMessage (call_ID c) (call_Name c) m)"
  by (simp add: answers_def ToolResultMessage_def)

lemma resolve_call_ran:
  assumes "resolve_call fm left skills tools cache c w = Some (r, w')" "cr_ran r"
  shows "tool_call tools c" "map_of cache (cache_key c) = None"
  using assms by (auto simp: resolve_call_def tool_call_def plain_result_def split: if_splits option.splits)

lemma resolve_calls_spec:
  "resolve_calls fm left skills tools iteration cache cs st = Some st' \<Longrightarrow>
    \<exists>msgs ran. rs_messages st' = rs_messages st @ msgs \<and> list_all2 answers cs msgs \<and> rs_ran st' = rs_ran st @ ran
      \<and> set ran \<subseteq> {c \<in> set cs. tool_call tools c \<and> map_of cache (cache_key c) = None}"
proof (induction cs arbitrary: st)
  case Nil
  then show ?case by auto
next
  case (Cons c cs)
  obtain r w where r: "resolve_call fm left skills tools cache c (rs_world st) = Some (r, w)"
      "resolve_calls fm left skills tools iteration cache cs (record_call iteration c r w st) = Some st'"
    using Cons.prems by (auto split: option.splits)
  obtain msgs ran where m: "rs_messages st' = rs_messages (record_call iteration c r w st) @ msgs" "list_all2 answers cs msgs"
      "rs_ran st' = rs_ran (record_call iteration c r w st) @ ran"
      "set ran \<subseteq> {c \<in> set cs. tool_call tools c \<and> map_of cache (cache_key c) = None}" using Cons.IH [OF r(2)] by blast
  show ?case
    by (rule exI [of _ "ToolResultMessage (call_ID c) (call_Name c) (cr_message r) # msgs"], rule exI [of _ "if cr_ran r then c # ran else ran"])
      (use m resolve_call_ran [OF r(1)] in \<open>auto simp: record_call_def\<close>)
qed

lemma resolveInternalToolCalls_spec:
  assumes "resolveInternalToolCalls fm left calls skills tools iteration caller cache w = Some (resolved, rs)"
  shows "case resolved of
      None \<Rightarrow> rs_ran rs = [] \<and> (calls = [] \<or> caller \<and> (\<exists>c \<in> set calls. \<not> own_call tools c))
    | Some (msgs, cache') \<Rightarrow> calls \<noteq> [] \<and> (caller \<longrightarrow> (\<forall>c \<in> set calls. own_call tools c))
        \<and> (\<exists>results. msgs = AssistantToolCallMessage calls # results \<and> list_all2 answers calls results)
        \<and> set (rs_ran rs) \<subseteq> {c \<in> set calls. tool_call tools c}"
  using assms by (auto simp: resolveInternalToolCalls_def Let_def split: if_splits option.splits dest!: resolve_calls_spec)

section \<open>The rounds\<close>

text \<open>
  \<open>transcript ok messages convo\<close>: the conversation is the messages followed by resolved rounds, each a turn
  of acceptable calls with one answer per call in the order of the calls.
\<close>

inductive transcript :: "(ToolCall list \<Rightarrow> bool) \<Rightarrow> ChatMessage list \<Rightarrow> ChatMessage list \<Rightarrow> bool" for ok messages where
  start: "transcript ok messages messages"
| resolved: "transcript ok messages convo \<Longrightarrow> calls \<noteq> [] \<Longrightarrow> ok calls \<Longrightarrow> list_all2 answers calls results \<Longrightarrow>
    transcript ok messages (convo @ AssistantToolCallMessage calls # results)"

definition asked :: "ChatMessage list \<Rightarrow> ToolCall set" where
  "asked convo = (\<Union>m \<in> set convo. set (ToolCalls m))"

lemma asked_append [simp]: "asked (xs @ ys) = asked xs \<union> asked ys"
  by (simp add: asked_def)

lemma asked_round [simp]: "asked (AssistantToolCallMessage calls # results) = set calls \<union> asked results"
  by (simp add: asked_def AssistantToolCallMessage_def)

definition round_ok :: "bool \<Rightarrow> 'w AgenticTool list \<Rightarrow> ToolCall list \<Rightarrow> bool" where
  "round_ok caller tools calls \<longleftrightarrow> (caller \<longrightarrow> (\<forall>c \<in> set calls. own_call tools c))"

text \<open>The invariant of the rounds.\<close>

definition loop_ok :: "bool \<Rightarrow> 'w AgenticTool list \<Rightarrow> ChatMessage list \<Rightarrow> ('w, 'c) loop_state \<Rightarrow> bool" where
  "loop_ok caller tools messages st \<longleftrightarrow> transcript (round_ok caller tools) messages (lp_convo st)
     \<and> (\<forall>p \<in> set (lp_prompts st). transcript (round_ok caller tools) messages p)
     \<and> set (lp_ran st) \<subseteq> {c \<in> asked (lp_convo st). tool_call tools c}"

text \<open>Why the rounds ended: an error, no call at all, or a call that belongs to the caller.\<close>

definition loop_end :: "bool \<Rightarrow> 'w AgenticTool list \<Rightarrow> ('w, 'c) loop_state \<Rightarrow> bool" where
  "loop_end caller tools st \<longleftrightarrow> lp_err st \<noteq> None \<or> gr_ToolCalls (lp_result st) = []
     \<or> (caller \<and> (\<exists>c \<in> set (gr_ToolCalls (lp_result st)). \<not> own_call tools c))"

lemma ask_model_fields [simp]:
  "lp_convo (ask_model generate opts i st) = lp_convo st" "lp_cache (ask_model generate opts i st) = lp_cache st"
  "lp_ran (ask_model generate opts i st) = lp_ran st" "lp_prompts (ask_model generate opts i st) = lp_prompts st @ [lp_convo st]"
  by (simp_all add: ask_model_def split_beta)

lemma loop_ok_ask_model [simp]: "loop_ok caller tools messages st \<Longrightarrow> loop_ok caller tools messages (ask_model generate opts i st)"
  by (simp add: loop_ok_def)

lemma end_round_fields [simp]:
  "lp_prompts (end_round r rs st) = lp_prompts st" "lp_ran (end_round r rs st) = lp_ran st @ rs_ran rs"
  "lp_result (end_round r rs st) = lp_result st" "lp_err (end_round r rs st) = lp_err st"
  "lp_convo (end_round None rs st) = lp_convo st" "lp_convo (end_round (Some (m, c)) rs st) = lp_convo st @ m"
  by (simp_all add: end_round_def Let_def split: option.splits)

lemma loop_ok_resolved:
  assumes "loop_ok caller tools messages st" "calls \<noteq> []" "round_ok caller tools calls" "list_all2 answers calls results"
    and "set (rs_ran rs) \<subseteq> {c \<in> set calls. tool_call tools c}"
  shows "loop_ok caller tools messages (end_round (Some (AssistantToolCallMessage calls # results, cache)) rs st)"
  using assms transcript.resolved [of "round_ok caller tools" messages "lp_convo st" calls results]
  by (auto simp: loop_ok_def)

lemma agent_rounds_spec:
  "agent_rounds generate fm left opts skills tools caller n i st = Some (exhausted, st') \<Longrightarrow> loop_ok caller tools messages st \<Longrightarrow>
    loop_ok caller tools messages st' \<and> length (lp_prompts st') \<le> length (lp_prompts st) + n
      \<and> (if exhausted then length (lp_prompts st') = length (lp_prompts st) + n \<and> (n = 0 \<and> st' = st \<or> lp_err st' = None) else loop_end caller tools st')"
proof (induction n arbitrary: i st)
  case 0
  then show ?case by auto
next
  case (Suc n)
  let ?st = "ask_model generate opts i st"
  have ok: "loop_ok caller tools messages ?st" using Suc.prems(2) by simp
  show ?case
  proof (cases "lp_err ?st = None")
    case False
    then show ?thesis using Suc.prems(1) ok by (auto simp: Let_def loop_end_def)
  next
    case True
    obtain resolved rs where r: "resolveInternalToolCalls fm left (gr_ToolCalls (lp_result ?st)) skills tools i caller (lp_cache ?st) (lp_world ?st)
        = Some (resolved, rs)" using Suc.prems(1) True by (auto simp: Let_def split: option.splits)
    note spec = resolveInternalToolCalls_spec [OF r]
    show ?thesis
    proof (cases resolved)
      case None
      then have "st' = end_round None rs ?st" "\<not> exhausted" using Suc.prems(1) True r by (simp_all add: Let_def)
      then show ?thesis using spec None ok by (auto simp: loop_ok_def loop_end_def)
    next
      case (Some p)
      obtain msgs cache' where p: "p = (msgs, cache')" by (cases p)
      obtain results where m: "msgs = AssistantToolCallMessage (gr_ToolCalls (lp_result ?st)) # results"
          "list_all2 answers (gr_ToolCalls (lp_result ?st)) results" using spec Some p by auto
      let ?next = "end_round (Some (msgs, cache')) rs ?st"
      have "loop_ok caller tools messages ?next" unfolding m(1)
        by (rule loop_ok_resolved [OF ok _ _ m(2)]) (use spec Some p in \<open>auto simp: round_ok_def\<close>)
      moreover have "agent_rounds generate fm left opts skills tools caller n (Suc i) ?next = Some (exhausted, st')"
        using Suc.prems(1) True r Some p by (simp add: Let_def)
      ultimately have "loop_ok caller tools messages st' \<and> length (lp_prompts st') \<le> length (lp_prompts ?next) + n
          \<and> (if exhausted then length (lp_prompts st') = length (lp_prompts ?next) + n \<and> (n = 0 \<and> st' = ?next \<or> lp_err st' = None) else loop_end caller tools st')" using Suc.IH by blast
      then show ?thesis using True by (auto split: if_splits)
    qed
  qed
qed

lemma agent_rounds_returns:
  assumes "\<forall>t \<in> set tools. bounded_tool t"
  shows "agent_rounds generate fm left opts skills tools caller n i st \<noteq> None"
proof (induction n arbitrary: i st)
  case (Suc n)
  let ?st = "ask_model generate opts i st"
  obtain resolved rs where "resolveInternalToolCalls fm left (gr_ToolCalls (lp_result ?st)) skills tools i caller (lp_cache ?st) (lp_world ?st)
      = Some (resolved, rs)" using resolveInternalToolCalls_returns [OF assms] by fast
  then show ?case using Suc.IH by (cases resolved) (auto simp: Let_def)
qed simp

lemma effectiveToolRounds_bounds: "0 < effectiveToolRounds n" "effectiveToolRounds n \<le> 12"
  by (auto simp: effectiveToolRounds_def)

end
