(* ===== verification/Agent_Loop_Contract.thy ===== *)
theory Agent_Loop_Contract
  imports Agent_Loop_Laws
begin

text \<open>
  What the agentic loop promises its callers.
\<close>

section \<open>A run in full\<close>

lemma deliver_fields:
  assumes "deliver onToken st1 = ((result, e), st)"
  shows "gr_ToolCalls result = gr_ToolCalls (lp_result st1) \<and> (e = None \<longrightarrow> lp_err st1 = None)
    \<and> lp_convo st = lp_convo st1 \<and> lp_ran st = lp_ran st1 \<and> lp_prompts st = lp_prompts st1"
  using assms by (auto simp: deliver_def Let_def split: option.splits if_splits prod.splits)

lemma RunAgenticChat_agentic:
  assumes "AgenticOptionsForTools fm opts skills tools = (loopOptions, True)"
  shows "RunAgenticChatWithGenerator generate fm left zero messages opts skills tools onToken w =
    map_option (\<lambda>(exhausted, st). deliver onToken
        (if exhausted then final_pass generate loopOptions (effectiveToolRounds (MaxToolRounds opts) + 1) st else st))
      (agent_rounds generate fm left loopOptions skills tools (ActiveTools opts \<noteq> []) (effectiveToolRounds (MaxToolRounds opts)) (Suc 0)
        (loop_start messages zero w))"
  by (auto simp: RunAgenticChatWithGenerator_def assms Let_def split: option.split)

lemma final_pass_fields [simp]:
  "lp_convo (final_pass generate opts i st) = lp_convo st" "lp_ran (final_pass generate opts i st) = lp_ran st"
  "lp_prompts (final_pass generate opts i st) = lp_prompts st @ [lp_convo st]"
  by (simp_all add: final_pass_def Let_def)

lemma loop_ok_final_pass: "loop_ok caller tools messages st \<Longrightarrow> loop_ok caller tools messages (final_pass generate opts i st)"
  by (simp add: loop_ok_def)

lemma loop_ok_start [simp]:
  "loop_ok caller tools messages (loop_start messages zero w)"
  by (simp add: loop_ok_def loop_start_def transcript.start)

section \<open>The properties\<close>

text \<open>
  C25. The loop ends: if no tool that may hang has had its deadline disabled, a request returns whatever
  the model answers, after at most one model pass more than the rounds allowed, which are at most twelve.
\<close>

theorem agent_loop_terminates:
  assumes "\<forall>t \<in> set tools. bounded_tool t"
  shows "\<exists>reply st. RunAgenticChatWithGenerator generate fm left zero messages opts skills tools onToken w = Some (reply, st)
    \<and> length (lp_prompts st) \<le> effectiveToolRounds (MaxToolRounds opts) + 1 \<and> effectiveToolRounds (MaxToolRounds opts) \<le> 12"
proof (cases "snd (AgenticOptionsForTools fm opts skills tools)")
  case False
  then show ?thesis using effectiveToolRounds_bounds(2) by (auto simp: RunAgenticChatWithGenerator_def split: prod.splits)
next
  case True
  then obtain loopOptions where o: "AgenticOptionsForTools fm opts skills tools = (loopOptions, True)" by (metis prod.collapse)
  obtain exhausted st0 where r: "agent_rounds generate fm left loopOptions skills tools (ActiveTools opts \<noteq> [])
      (effectiveToolRounds (MaxToolRounds opts)) (Suc 0) (loop_start messages zero w) = Some (exhausted, st0)"
    using agent_rounds_returns [OF assms] by fast
  define st1 where "st1 = (if exhausted then final_pass generate loopOptions (effectiveToolRounds (MaxToolRounds opts) + 1) st0 else st0)"
  obtain result e st where d: "deliver onToken st1 = ((result, e), st)" by (metis prod.collapse)
  have "RunAgenticChatWithGenerator generate fm left zero messages opts skills tools onToken w = Some ((result, e), st)"
    unfolding RunAgenticChat_agentic [OF o] r using d by (simp add: st1_def)
  moreover have "length (lp_prompts st0) \<le> effectiveToolRounds (MaxToolRounds opts)"
    using agent_rounds_spec [OF r loop_ok_start] by (simp add: loop_start_def)
  ultimately show ?thesis using deliver_fields [OF d] effectiveToolRounds_bounds(2) by (auto simp: st1_def)
qed

text \<open>
  C26. The conversation stays well formed and nobody's calls are lost: every conversation the model is
  given is the caller's messages followed by resolved rounds, in which each call has exactly one answer,
  in order and under its id; a turn with a call of the caller's own tools is never resolved in part.
  Tools are executed only for calls answered in the conversation. A reply without an error that still
  carries calls carries one for the caller, or is the last pass with the tools withdrawn.
\<close>

theorem agent_loop_transcript:
  assumes "AgenticOptionsForTools fm opts skills tools = (loopOptions, True)"
    and "RunAgenticChatWithGenerator generate fm left zero messages opts skills tools onToken w = Some ((result, e), st)"
    and "caller = (ActiveTools opts \<noteq> [])"
  shows "transcript (round_ok caller tools) messages (lp_convo st)
    \<and> (\<forall>p \<in> set (lp_prompts st). transcript (round_ok caller tools) messages p)
    \<and> set (lp_ran st) \<subseteq> {c \<in> asked (lp_convo st). tool_call tools c}
    \<and> (e = None \<longrightarrow> gr_ToolCalls result = [] \<or> (caller \<and> (\<exists>c \<in> set (gr_ToolCalls result). \<not> own_call tools c))
         \<or> length (lp_prompts st) = effectiveToolRounds (MaxToolRounds opts) + 1)"
proof -
  obtain exhausted st0 where r: "agent_rounds generate fm left loopOptions skills tools caller
      (effectiveToolRounds (MaxToolRounds opts)) (Suc 0) (loop_start messages zero w) = Some (exhausted, st0)"
      and d: "deliver onToken (if exhausted then final_pass generate loopOptions (effectiveToolRounds (MaxToolRounds opts) + 1) st0 else st0)
        = ((result, e), st)" (is "deliver onToken ?st1 = _")
    using assms(2) by (auto simp: RunAgenticChat_agentic [OF assms(1)] assms(3))
  note spec = agent_rounds_spec [OF r loop_ok_start] and f = deliver_fields [OF d]
  have "loop_ok caller tools messages ?st1" using spec loop_ok_final_pass [of caller tools messages st0] by (cases exhausted) auto
  then have "loop_ok caller tools messages st" using f by (simp add: loop_ok_def)
  moreover have "gr_ToolCalls result = [] \<or> (caller \<and> (\<exists>c \<in> set (gr_ToolCalls result). \<not> own_call tools c))
         \<or> length (lp_prompts st) = effectiveToolRounds (MaxToolRounds opts) + 1" if n: "e = None"
    using spec f n by (cases exhausted) (auto simp: loop_end_def loop_start_def)
  ultimately show ?thesis by (simp add: loop_ok_def)
qed

section \<open>A scripted conversation\<close>

definition plain_formats :: formats where
  "plain_formats = \<lparr>fmt_quoted = dq, fmt_duration = (\<lambda>_. ''30s''), fmt_json = dq, fmt_skill_arg = Inl\<rparr>"

definition clock :: "nat AgenticTool" where
  "clock = \<lparr>tool_Definition = \<lparr>def_Type = ''function'', def_Name = ''clock'', def_Description = [], def_Parameters = ''{}''\<rparr>,
     tool_Execute = Some (\<lambda>c w. (Some (5, ToolReturned ''noon''), Suc w)), tool_Timeout = 0, MaxResultBytes = 0, Trusted = False\<rparr>"

definition ask_clock :: ToolCall where
  "ask_clock = \<lparr>call_ID = ''c1'', call_Type = ''function'', call_Name = ''clock'', call_Arguments = ''{}''\<rparr>"

definition turn :: "string \<Rightarrow> ToolCall list \<Rightarrow> unit GenerationResult" where
  "turn s calls = \<lparr>gr_Text = s, ReasoningText = [], gr_ToolCalls = calls, FinishReason = ''stop'', gr_Stats = zero_Stats, gr_rest = ()\<rparr>"

definition clock_model :: "(nat, unit, unit) ChatGenerator" where
  "clock_model convo opts sink w = ((if length convo = 1 then turn [] [ask_clock] else turn ''It is noon.'' [], None), w)"

definition plain_options :: "unit GenerationOptions" where
  "plain_options = \<lparr>gen_SystemPrompt = [], gen_Tools = [], ToolChoice = [], MaxToolRounds = 0, gen_rest = ()\<rparr>"

definition question :: ChatMessage where
  "question = \<lparr>Role = ChatRoleUser, Content = ''What time is it?'', Images = [], ToolCalls = [], ToolCallID = [], msg_Name = []\<rparr>"

definition clock_run :: "((unit GenerationResult \<times> string option) \<times> (nat, unit) loop_state) option" where
  "clock_run = RunAgenticChatWithGenerator clock_model plain_formats (\<lambda>_. None) (turn [] []) [question] plain_options [] [clock] None 0"

lemma clock_options: "AgenticOptionsForTools plain_formats plain_options [] [clock] =
    (plain_options\<lparr>gen_Tools := [tool_Definition clock], gen_SystemPrompt := groundingInstruction\<rparr>, True)"
  by code_simp

lemma clock_resolve:
  "resolve_call plain_formats (\<lambda>_. None) [] [clock] [] ask_clock 0 = Some (\<lparr>cr_message = framed ''clock'' ''noon'', cr_display = ''noon'',
     cr_failure = [], cr_cached = False, cr_truncated = False,
     cr_entry = Some \<lparr>tc_message = framed ''clock'' ''noon'', tc_display = ''noon'', tc_truncated = False\<rparr>, cr_ran = True\<rparr>, 1)"
  by (simp add: resolve_call_def LoadSkillToolName_def ask_clock_def byName_def clock_def run_tool_def runToolWithTimeout_def tool_text_def
      truncateToolResult_def truncateForEvent_def Let_def)

lemma clock_run_eval:
  "map_option (\<lambda>((result, e), st). (gr_Text result, e, length (lp_prompts st), lp_ran st, lp_world st)) clock_run
     = Some (''It is noon.'', None, 2, [ask_clock], 1)"
  unfolding clock_run_def RunAgenticChat_agentic [OF clock_options]
  by (simp add: plain_options_def effectiveToolRounds_def numeral_eq_Suc loop_start_def ask_model_def clock_model_def turn_def Let_def
      resolveInternalToolCalls_def clock_resolve record_call_def end_round_def deliver_def ActiveTools_def HasPrefix_def AssistantToolCallMessage_def)

lemma bounded_clock: "\<forall>t \<in> set [clock]. bounded_tool t"
  by (simp add: clock_def bounded_tool_def)

lemma agent_loop_terminates_witness:
  "\<exists>reply st. clock_run = Some (reply, st) \<and> length (lp_prompts st) \<le> 7"
  using agent_loop_terminates [OF bounded_clock, of clock_model plain_formats "\<lambda>_. None" "turn [] []" "[question]" plain_options "[]" None 0]
  by (auto simp: clock_run_def plain_options_def effectiveToolRounds_def)

lemma agent_loop_transcript_witness:
  "\<exists>result e st. clock_run = Some ((result, e), st) \<and> transcript (round_ok False [clock]) [question] (lp_convo st)
     \<and> length (lp_prompts st) = 2 \<and> lp_ran st = [ask_clock] \<and> tool_call [clock] ask_clock \<and> gr_Text result = ''It is noon.''"
proof -
  obtain result e st where r: "clock_run = Some ((result, e), st)" "gr_Text result = ''It is noon.''" "length (lp_prompts st) = 2" "lp_ran st = [ask_clock]"
    using clock_run_eval by auto
  have "False = (ActiveTools plain_options \<noteq> [])" by (simp add: plain_options_def ActiveTools_def HasPrefix_def)
  then show ?thesis using agent_loop_transcript [OF clock_options r(1) [unfolded clock_run_def]] r by auto
qed

end
