(* ===== verification/Think_Split.thy ===== *)
theory Think_Split
  imports Go_Strings
begin

text \<open>
  Separating chain-of-thought from the answer (\<^verbatim>\<open>internal/engine/extract.go\<close>): the extractors over a whole
  reply and the two stream splitters, which see the reply in chunks that need not align with the tags.
\<close>

section \<open>Tags\<close>

datatype think_protocol = ThinkTags | MistralTags

definition openTag :: "think_protocol \<Rightarrow> string" where
  "openTag k = (case k of ThinkTags \<Rightarrow> ''<think>'' | MistralTags \<Rightarrow> ''[THINK]'')"

definition closeTag :: "think_protocol \<Rightarrow> string" where
  "closeTag k = (case k of ThinkTags \<Rightarrow> ''</think>'' | MistralTags \<Rightarrow> ''[/THINK]'')"

text \<open>The marker that ends the current channel.\<close>

definition marker :: "think_protocol \<Rightarrow> bool \<Rightarrow> string" where
  "marker k inReasoning = (if inReasoning then closeTag k else openTag k)"

lemma openTag_length [simp]: "0 < length (openTag k)" "openTag k \<noteq> []"
  by (cases k; simp add: openTag_def)+

lemma marker_length [simp]: "0 < length (marker k r)" "marker k r \<noteq> []"
  by (cases k; simp add: marker_def openTag_def closeTag_def)+

section \<open>The whole reply\<close>

text \<open>The loop of \<open>extractThink\<close>: the content so far and the reasoning parts so far.\<close>

function think_loop :: "think_protocol \<Rightarrow> string \<Rightarrow> string \<Rightarrow> string list \<Rightarrow> string \<times> string list" where
  "think_loop k rest content parts =
    (case Index rest (openTag k) of None \<Rightarrow> (content @ rest, parts)
     | Some i \<Rightarrow>
        (let content = content @ take i rest; rest = drop (i + length (openTag k)) rest in
         case Index rest (closeTag k) of None \<Rightarrow> (content, parts @ [rest])
         | Some j \<Rightarrow> think_loop k (drop (j + length (closeTag k)) rest) content (parts @ [take j rest])))"
  by pat_completeness auto
termination
  by (relation "measure (\<lambda>(k, rest, _). length rest)") (auto dest!: Index_bound simp: openTag_def split: think_protocol.splits)

declare think_loop.simps [simp del]

text \<open>A reply whose first tag is a closing one began inside the reasoning.\<close>

definition begins_inside :: "think_protocol \<Rightarrow> string \<Rightarrow> nat option" where
  "begins_inside k s = (case Index s (closeTag k) of None \<Rightarrow> None
     | Some closeIdx \<Rightarrow> (case Index s (openTag k) of None \<Rightarrow> Some closeIdx
         | Some openIdx \<Rightarrow> if closeIdx < openIdx then Some closeIdx else None))"

definition extract_tags :: "think_protocol \<Rightarrow> string \<Rightarrow> string \<times> string" where
  "extract_tags k s =
    (let (content, parts) = (case begins_inside k s of
           None \<Rightarrow> think_loop k s [] []
         | Some i \<Rightarrow> think_loop k (drop (i + length (closeTag k)) s) [] [take i s])
     in (TrimSpace content, TrimSpace (strings_Join parts [CHR 0x0A, CHR 0x0A])))"

definition extractThink :: "string \<Rightarrow> string \<times> string" where
  "extractThink s = extract_tags ThinkTags s"

definition extractMistralThink :: "string \<Rightarrow> string \<times> string" where
  "extractMistralThink s =
    (if \<not> Contains s (openTag MistralTags) \<and> \<not> Contains s (closeTag MistralTags) then extractThink s
     else extract_tags MistralTags s)"

section \<open>The stream splitters\<close>

record ThinkStreamSplitter =
  inReasoning :: bool
  pending :: string

definition NewThinkStreamSplitter :: "bool \<Rightarrow> ThinkStreamSplitter" where
  "NewThinkStreamSplitter initialReasoning = \<lparr>inReasoning = initialReasoning, pending = []\<rparr>"

definition NewMistralThinkStreamSplitter :: ThinkStreamSplitter where
  "NewMistralThinkStreamSplitter = \<lparr>inReasoning = False, pending = []\<rparr>"

definition markerPrefixSuffixLen :: "string \<Rightarrow> string \<Rightarrow> nat" where
  "markerPrefixSuffixLen s m =
    (case find (\<lambda>n. HasSuffix s (take n m)) (rev [1..<Suc (min (length s) (length m - 1))]) of None \<Rightarrow> 0 | Some n \<Rightarrow> n)"

text \<open>
  The callback gets the channel and the text, may change its own state, and returns whether to go on.
\<close>

type_synonym 'e emitter = "bool \<Rightarrow> string \<Rightarrow> 'e \<Rightarrow> bool \<times> 'e"

function push_loop :: "think_protocol \<Rightarrow> 'e emitter \<Rightarrow> ThinkStreamSplitter \<Rightarrow> 'e \<Rightarrow> bool \<times> ThinkStreamSplitter \<times> 'e" where
  "push_loop k emit s e =
    (let m = marker k (inReasoning s) in
     case Index (pending s) m of
       Some i \<Rightarrow>
         (let (go, e) = (if i > 0 then emit (inReasoning s) (take i (pending s)) e else (True, e)) in
          if \<not> go then (False, s, e)
          else push_loop k emit \<lparr>inReasoning = \<not> inReasoning s, pending = drop (i + length m) (pending s)\<rparr> e)
     | None \<Rightarrow>
         (let n = length (pending s) - markerPrefixSuffixLen (pending s) m in
          if n > 0 then
            (let (go, e) = emit (inReasoning s) (take n (pending s)) e in
             if \<not> go then (False, s, e) else (True, s\<lparr>pending := drop n (pending s)\<rparr>, e))
          else (True, s, e)))"
  by pat_completeness auto
termination
proof (relation "measure (\<lambda>(k, emit, s, e). length (pending s))", goal_cases)
  case (2 k emit s e x i y xa ya)
  have "0 < length (marker k (inReasoning s))" "i \<le> length (pending s)" "0 < length (pending s)"
    using Index_bound [of "pending s" "marker k (inReasoning s)" i] 2 marker_length(1) [of k "inReasoning s"] by auto
  then show ?case using 2 by simp
qed simp

declare push_loop.simps [simp del]

definition Push :: "string \<Rightarrow> 'e emitter \<Rightarrow> ThinkStreamSplitter \<Rightarrow> 'e \<Rightarrow> bool \<times> ThinkStreamSplitter \<times> 'e" where
  "Push s emit sp e = push_loop ThinkTags emit (sp\<lparr>pending := pending sp @ s\<rparr>) e"

definition Mistral_Push :: "string \<Rightarrow> 'e emitter \<Rightarrow> ThinkStreamSplitter \<Rightarrow> 'e \<Rightarrow> bool \<times> ThinkStreamSplitter \<times> 'e" where
  "Mistral_Push s emit sp e = push_loop MistralTags emit (sp\<lparr>pending := pending sp @ s\<rparr>) e"

definition Flush :: "'e emitter \<Rightarrow> ThinkStreamSplitter \<Rightarrow> 'e \<Rightarrow> bool \<times> ThinkStreamSplitter \<times> 'e" where
  "Flush emit sp e =
    (if pending sp = [] then (True, sp, e)
     else let (go, e) = emit (inReasoning sp) (pending sp) e in (go, sp\<lparr>pending := []\<rparr>, e))"

end
