(* ===== verification/Tool_Calls.thy ===== *)
theory Tool_Calls
  imports Context_Window Think_Split
begin

text \<open>
  Tool calls in a model's reply (\<^verbatim>\<open>internal/engine/extract.go\<close>, \<^verbatim>\<open>internal/tooling/tools.go\<close>): one
  extractor per chat-template convention, and the classification that picks one and gives every call an id.

  \<^verbatim>\<open>encoding/json\<close> is a parameter: decoding a text to the fields of a struct, to a string, validity, and
  encoding. Raw messages are their text.
\<close>

record json_codec =
  json_name_arguments :: "string \<Rightarrow> (string \<times> string) option"
  json_name_parameters :: "string \<Rightarrow> (string \<times> string) option"
  json_to_string :: "string \<Rightarrow> string option"
  json_Valid :: "string \<Rightarrow> bool"
  json_of_string :: "string \<Rightarrow> string option"
  json_of_object :: "(string, string) gomap \<Rightarrow> string option"

definition function_call :: "string \<Rightarrow> string \<Rightarrow> string \<Rightarrow> ToolCall" where
  "function_call callID name arguments = \<lparr>call_ID = callID, call_Type = ''function'', call_Name = name, call_Arguments = arguments\<rparr>"

definition or_object :: "string \<Rightarrow> string" where
  "or_object s = (if s = [] then ''{}'' else s)"

section \<open>Mistral\<close>

definition callMarker :: string where "callMarker = ''[TOOL_CALLS]''"
definition argsMarker :: string where "argsMarker = ''[ARGS]''"

text \<open>The arguments end at the next call marker or at the end of the text.\<close>

definition mistral_arguments :: "string \<Rightarrow> string \<times> string" where
  "mistral_arguments rest = (case Index rest callMarker of Some j \<Rightarrow> (take j rest, drop j rest) | None \<Rightarrow> (rest, []))"

lemma mistral_arguments_shorter: "length (snd (mistral_arguments rest)) \<le> length rest"
  by (auto simp: mistral_arguments_def split: option.splits)

function mistral_calls :: "string \<Rightarrow> ToolCall list \<Rightarrow> ToolCall list" where
  "mistral_calls rest calls =
    (if \<not> HasPrefix rest callMarker then calls
     else let rest = drop (length callMarker) rest in
       case Index rest argsMarker of None \<Rightarrow> calls
       | Some ai \<Rightarrow>
          (let name = TrimSpace (take ai rest);
               (argsText, next_rest) = mistral_arguments (drop (ai + length argsMarker) rest);
               argsText = or_object (TrimSpace argsText)
           in mistral_calls next_rest (if name \<noteq> [] then calls @ [function_call [] name argsText] else calls)))"
  by pat_completeness auto
termination
proof (relation "measure (\<lambda>(rest, calls). length rest)", goal_cases)
  case (2 rest calls r ai name p argsText next_rest a)
  have "length next_rest \<le> length (drop (ai + length argsMarker) r)"
    using mistral_arguments_shorter [of "drop (ai + length argsMarker) r"] 2(5,6) by (metis snd_conv)
  moreover have "ai + length argsMarker \<le> length r" using 2(3) by (rule Index_bound)
  moreover have "length r + length callMarker = length rest" using 2(1,2) by (auto simp: HasPrefix_def dest: arg_cong [where f = length])
  ultimately show ?case by (simp add: argsMarker_def callMarker_def)
qed simp

declare mistral_calls.simps [simp del]

definition extractToolCallsMistral :: "string \<Rightarrow> string \<times> ToolCall list" where
  "extractToolCallsMistral s =
    (case Index s callMarker of None \<Rightarrow> (s, [])
     | Some i \<Rightarrow> (TrimSpace (take i s), mistral_calls (drop i s) []))"

section \<open>Kimi\<close>

definition sectionStart :: string where "sectionStart = ''<|tool_calls_section_begin|>''"
definition sectionEnd :: string where "sectionEnd = ''<|tool_calls_section_end|>''"
definition callStart :: string where "callStart = ''<|tool_call_begin|>''"
definition argumentStart :: string where "argumentStart = ''<|tool_call_argument_begin|>''"
definition callEnd :: string where "callEnd = ''<|tool_call_end|>''"

definition parseKimiToolCallID :: "string \<Rightarrow> (string \<times> int) option" where
  "parseKimiToolCallID s =
    (if \<not> HasPrefix s ''functions.'' then None
     else case Cut (drop 10 s) '':'' of None \<Rightarrow> None
       | Some (name, indexText) \<Rightarrow>
          (if name = [] \<or> TrimSpace name \<noteq> name \<or> TrimSpace indexText \<noteq> indexText \<or> indexText = [] then None
           else case Atoi indexText of None \<Rightarrow> None | Some n \<Rightarrow> if n < 0 then None else Some (name, n)))"

definition kimiToolCallID :: "string \<Rightarrow> nat \<Rightarrow> string" where
  "kimiToolCallID name index = ''functions.'' @ name @ '':'' @ Itoa index"

lemma TrimLeft_shorter: "length (TrimLeft s cs) \<le> length s"
  by (simp add: TrimLeft_def length_dropWhile_le)

function kimi_section :: "string \<Rightarrow> ToolCall list \<Rightarrow> ToolCall list option" where
  "kimi_section rest calls =
    (let rest = TrimLeft rest [CHR 0x20, CHR 0x09, CHR 0x0D, CHR 0x0A] in
     if rest = [] then (if calls = [] then None else Some calls)
     else if \<not> HasPrefix rest callStart then None
     else let rest = drop (length callStart) rest in
       case Index rest argumentStart of None \<Rightarrow> None
       | Some ai \<Rightarrow>
          (let callID = TrimSpace (take ai rest) in
           case parseKimiToolCallID callID of None \<Rightarrow> None
           | Some (name, _) \<Rightarrow>
              (let rest = drop (ai + length argumentStart) rest in
               case Index rest callEnd of None \<Rightarrow> None
               | Some e \<Rightarrow> kimi_section (drop (e + length callEnd) rest)
                   (calls @ [function_call callID name (or_object (TrimSpace (take e rest)))]))))"
  by pat_completeness auto
termination
proof (relation "measure (\<lambda>(rest, calls). length rest)", goal_cases)
  case (2 rest calls r1 r2 ai callID p name index r3 e)
  have "length r1 \<le> length rest" using 2(1) TrimLeft_shorter by simp
  moreover have "length r1 > 0" using 2(2) by simp
  moreover have "length r2 \<le> length r1" "length r3 \<le> length r2" using 2(4,9) by simp_all
  moreover have "e + length callEnd \<le> length r3" using 2(10) by (rule Index_bound)
  moreover have "0 < length callEnd" by (simp add: callEnd_def)
  ultimately have "length r3 - (e + length callEnd) < length rest" by linarith
  then show ?case by simp
qed simp

declare kimi_section.simps [simp del]

definition parseKimiToolCallSection :: "string \<Rightarrow> ToolCall list option" where
  "parseKimiToolCallSection s = kimi_section s []"

text \<open>A section that is malformed or incomplete stays visible.\<close>

function kimi_loop :: "string \<Rightarrow> string \<Rightarrow> ToolCall list \<Rightarrow> string \<times> ToolCall list" where
  "kimi_loop rest shown calls =
    (case Index rest sectionStart of None \<Rightarrow> (shown @ rest, calls)
     | Some start \<Rightarrow>
        (let shown = shown @ take start rest; after = drop (start + length sectionStart) rest in
         case Index after sectionEnd of None \<Rightarrow> (shown @ drop start rest, calls)
         | Some e \<Rightarrow>
            (let rest' = drop (e + length sectionEnd) after in
             case parseKimiToolCallSection (take e after) of
               None \<Rightarrow> kimi_loop rest' (shown @ sublst rest start (start + length sectionStart + e + length sectionEnd)) calls
             | Some parsed \<Rightarrow> kimi_loop rest' shown (calls @ parsed))))"
  by pat_completeness auto
termination
  by (relation "measure (\<lambda>(rest, _). length rest)") (auto dest!: Index_bound simp: sectionStart_def sectionEnd_def)

declare kimi_loop.simps [simp del]

definition extractToolCallsKimi :: "string \<Rightarrow> string \<times> ToolCall list" where
  "extractToolCallsKimi s =
    (if \<not> Contains s sectionStart then (s, [])
     else let (shown, calls) = kimi_loop s [] [] in (TrimSpace shown, calls))"

section \<open>Hermes and Qwen\<close>

definition toolOpen :: string where "toolOpen = ''<tool_call>''"
definition toolClose :: string where "toolClose = ''</tool_call>''"

definition normalizeToolArguments :: "json_codec \<Rightarrow> string \<Rightarrow> string" where
  "normalizeToolArguments js raw =
    (let trimmed = TrimSpace raw in
     if trimmed = [] then ''{}''
     else if hd trimmed = CHR 0x22 then (case json_to_string js raw of Some s \<Rightarrow> s | None \<Rightarrow> trimmed)
     else trimmed)"

text \<open>One block: the call it holds, or the text that stays visible.\<close>

definition generic_block :: "json_codec \<Rightarrow> string \<Rightarrow> bool \<Rightarrow> ToolCall list \<times> string" where
  "generic_block js block terminated =
    (case json_name_arguments js (TrimSpace block) of
       Some (name, arguments) \<Rightarrow>
         if name \<noteq> [] then ([function_call [] name (normalizeToolArguments js arguments)], [])
         else ([], toolOpen @ block @ (if terminated then toolClose else []))
     | None \<Rightarrow> ([], toolOpen @ block @ (if terminated then toolClose else [])))"

function generic_loop :: "json_codec \<Rightarrow> string \<Rightarrow> string \<Rightarrow> ToolCall list \<Rightarrow> string \<times> ToolCall list" where
  "generic_loop js rest content calls =
    (case Index rest toolOpen of None \<Rightarrow> (content @ rest, calls)
     | Some i \<Rightarrow>
        (let content = content @ take i rest; rest = drop (i + length toolOpen) rest in
         case Index rest toolClose of
           None \<Rightarrow> (let (cs, shown) = generic_block js rest False in (content @ shown, calls @ cs))
         | Some j \<Rightarrow> (let (cs, shown) = generic_block js (take j rest) True
             in generic_loop js (drop (j + length toolClose) rest) (content @ shown) (calls @ cs))))"
  by pat_completeness auto
termination
  by (relation "measure (\<lambda>(js, rest, _). length rest)") (auto dest!: Index_bound simp: toolOpen_def toolClose_def)

declare generic_loop.simps [simp del]

definition extractToolCallsGeneric :: "json_codec \<Rightarrow> string \<Rightarrow> string \<times> ToolCall list" where
  "extractToolCallsGeneric js s = (let (content, calls) = generic_loop js s [] [] in (TrimSpace content, calls))"

section \<open>Llama 3.1\<close>

definition extractToolCallsLlama31 :: "json_codec \<Rightarrow> string \<Rightarrow> string \<times> ToolCall list" where
  "extractToolCallsLlama31 js s =
    (let trimmed = TrimSpace s in
     case json_name_parameters js trimmed of None \<Rightarrow> (trimmed, [])
     | Some (name, parameters) \<Rightarrow>
        (let arguments = TrimSpace parameters in
         if name = [] \<or> arguments = [] \<or> hd arguments \<noteq> CHR ''{'' \<or> \<not> json_Valid js arguments then (trimmed, [])
         else ([], [function_call [] name arguments])))"

section \<open>Qwen 3.5\<close>

definition functionOpen :: string where "functionOpen = ''<function=''"
definition functionClose :: string where "functionClose = ''</function>''"
definition parameterOpen :: string where "parameterOpen = ''<parameter=''"
definition parameterClose :: string where "parameterClose = ''</parameter>''"

definition bad_name :: "string \<Rightarrow> bool" where
  "bad_name name \<longleftrightarrow> name = [] \<or> (\<exists>c \<in> set name. c \<in> {CHR 0x20, CHR 0x09, CHR 0x0D, CHR 0x0A, CHR ''<'', CHR ''>''})"

text \<open>The name in an opening tag and what follows the tag and its line breaks.\<close>

definition tag_name :: "string \<Rightarrow> string \<Rightarrow> (string \<times> string) option" where
  "tag_name opening rest =
    (if \<not> HasPrefix rest opening then None
     else case Index rest ''>'' of None \<Rightarrow> None
       | Some e \<Rightarrow> if e < length opening then None
           else let name = TrimSpace (sublst rest (length opening) e) in
             if bad_name name then None else Some (name, TrimLeft (drop (e + 1) rest) [CHR 0x0D, CHR 0x0A]))"

lemma tag_name_shorter: "tag_name opening rest = Some (name, r) \<Longrightarrow> length r < length rest"
  using TrimLeft_shorter by (auto simp: tag_name_def Let_def split: if_splits option.splits dest!: Index_bound)
    (metis TrimLeft_shorter Suc_le_eq diff_less le_less_trans length_drop less_le_trans zero_less_Suc)

definition parameter_value :: "json_codec \<Rightarrow> string \<Rightarrow> string option" where
  "parameter_value js value = (if json_Valid js value then Some value else json_of_string js value)"

function qwen_parameters :: "json_codec \<Rightarrow> string \<Rightarrow> string \<Rightarrow> (string, string) gomap \<Rightarrow> ToolCall option" where
  "qwen_parameters js name rest args =
    (let rest = TrimLeft rest [CHR 0x20, CHR 0x09, CHR 0x0D, CHR 0x0A] in
     if HasPrefix rest functionClose then
       (if TrimSpace (drop (length functionClose) rest) \<noteq> [] then None
        else map_option (function_call [] name) (json_of_object js args))
     else case tag_name parameterOpen rest of None \<Rightarrow> None
       | Some (parameter, rest) \<Rightarrow>
          (case Index rest parameterClose of None \<Rightarrow> None
           | Some e \<Rightarrow>
              (if map_of args parameter \<noteq> None then None
               else case parameter_value js (TrimSpace (take e rest)) of None \<Rightarrow> None
                 | Some v \<Rightarrow> qwen_parameters js name (drop (e + length parameterClose) rest) (AList.update parameter v args))))"
  by pat_completeness auto
termination
proof (relation "measure (\<lambda>(js, name, rest, args). length rest)", goal_cases)
  case (2 js name rest args r1 p parameter r2 e v)
  have "length r1 \<le> length rest" using 2(1) TrimLeft_shorter by simp
  moreover have "length r2 < length r1" using 2(3,4) tag_name_shorter by blast
  ultimately show ?case by simp
qed simp

declare qwen_parameters.simps [simp del]

definition parseQwen35ToolCall :: "json_codec \<Rightarrow> string \<Rightarrow> ToolCall option" where
  "parseQwen35ToolCall js block =
    (case tag_name functionOpen (TrimSpace block) of None \<Rightarrow> None | Some (name, rest) \<Rightarrow> qwen_parameters js name rest [])"

function qwen_loop :: "json_codec \<Rightarrow> string \<Rightarrow> string \<Rightarrow> ToolCall list \<Rightarrow> string \<times> ToolCall list" where
  "qwen_loop js rest shown calls =
    (case Index rest toolOpen of None \<Rightarrow> (shown @ rest, calls)
     | Some start \<Rightarrow>
        (let shown = shown @ take start rest; after = drop (start + length toolOpen) rest in
         case Index after toolClose of None \<Rightarrow> (shown @ drop start rest, calls)
         | Some e \<Rightarrow>
            (let rest' = drop (e + length toolClose) after in
             case parseQwen35ToolCall js (take e after) of
               Some c \<Rightarrow> qwen_loop js rest' shown (calls @ [c])
             | None \<Rightarrow> qwen_loop js rest' (shown @ sublst rest start (start + length toolOpen + e + length toolClose)) calls)))"
  by pat_completeness auto
termination
  by (relation "measure (\<lambda>(js, rest, _). length rest)") (auto dest!: Index_bound simp: toolOpen_def toolClose_def)

declare qwen_loop.simps [simp del]

definition extractToolCallsQwen35 :: "json_codec \<Rightarrow> string \<Rightarrow> string \<times> ToolCall list" where
  "extractToolCallsQwen35 js s = (let (shown, calls) = qwen_loop js s [] [] in (TrimSpace shown, calls))"

section \<open>gpt-oss channels\<close>

definition chanTag :: string where "chanTag = ''<|channel|>''"
definition msgTag :: string where "msgTag = ''<|message|>''"
definition endTag :: string where "endTag = ''<|end|>''"
definition callTag :: string where "callTag = ''<|call|>''"

text \<open>The end of a body and the length of the tag that closes it: the first of the two tags, or the end of the text.\<close>

definition body_end :: "string \<Rightarrow> nat \<times> nat" where
  "body_end rest =
    (let (e, closer) = (case Index rest endTag of Some i \<Rightarrow> if i < length rest then (i, length endTag) else (length rest, 0) | None \<Rightarrow> (length rest, 0))
     in case Index rest callTag of Some i \<Rightarrow> if i < e then (i, length callTag) else (e, closer) | None \<Rightarrow> (e, closer))"

text \<open>The parts of a reply: content, reasoning, calls, and whether a channel was seen.\<close>

record channel_parts =
  ch_content :: "string list"
  ch_reasoning :: "string list"
  ch_calls :: "ToolCall list"
  ch_seen :: bool

definition add_content :: "string \<Rightarrow> channel_parts \<Rightarrow> channel_parts" where
  "add_content body st = (if body \<noteq> [] then st\<lparr>ch_content := ch_content st @ [body]\<rparr> else st)"

definition add_channel :: "string \<Rightarrow> string \<Rightarrow> channel_parts \<Rightarrow> channel_parts" where
  "add_channel header body st =
    (let (channel, recipient) = (case Cut header '' to='' of Some p \<Rightarrow> p | None \<Rightarrow> (header, []));
         channel = TrimSpace channel
     in if channel = ''analysis'' then st\<lparr>ch_reasoning := ch_reasoning st @ [body]\<rparr>
        else if channel = ''commentary'' then
          (let name = TrimPrefix (TrimSpace recipient) ''functions.'' in
           if name \<noteq> [] then st\<lparr>ch_calls := ch_calls st @ [function_call [] name (or_object (TrimSpace body))]\<rparr>
           else add_content body st)
        else add_content body st)"

function channel_loop :: "string \<Rightarrow> channel_parts \<Rightarrow> channel_parts" where
  "channel_loop rest st =
    (case Index rest chanTag of None \<Rightarrow> st
     | Some ci \<Rightarrow>
        (let st = st\<lparr>ch_seen := True\<rparr>; rest = drop (ci + length chanTag) rest in
         case Index rest msgTag of None \<Rightarrow> st
         | Some mi \<Rightarrow>
            (let header = TrimSpace (take mi rest); rest = drop (mi + length msgTag) rest;
                 (e, closer) = body_end rest;
                 st = add_channel header (TrimSpace (take e rest)) st;
                 rest = drop (min (e + closer) (length rest)) rest
             in if rest = [] then st else channel_loop rest st)))"
  by pat_completeness auto
termination
  by (relation "measure (\<lambda>(rest, _). length rest)") (auto dest!: Index_bound simp: chanTag_def)

declare channel_loop.simps [simp del]

definition extractGptOssChannels :: "string \<Rightarrow> string \<times> string \<times> ToolCall list" where
  "extractGptOssChannels s =
    (let st = channel_loop s \<lparr>ch_content = [], ch_reasoning = [], ch_calls = [], ch_seen = False\<rparr>; brk = [CHR 0x0A, CHR 0x0A] in
     if \<not> ch_seen st then (TrimSpace s, [], [])
     else (TrimSpace (strings_Join (ch_content st) brk), TrimSpace (strings_Join (ch_reasoning st) brk), ch_calls st))"

section \<open>Call ids\<close>

definition callIDAlphabet :: string where
  "callIDAlphabet = ''abcdefghijklmnopqrstuvwxyzABCDEFGHIJKLMNOPQRSTUVWXYZ0123456789''"

text \<open>The source of indices is the generator's \<open>int(next() * 62)\<close>, which floating point may round to any value.\<close>

type_synonym 'r index_source = "'r \<Rightarrow> int \<times> 'r"

definition call_char :: "int \<Rightarrow> char" where
  "call_char idx = callIDAlphabet ! (if idx < 0 \<or> idx \<ge> int (length callIDAlphabet) then 0 else nat idx)"

fun call_chars :: "'r index_source \<Rightarrow> nat \<Rightarrow> 'r \<Rightarrow> string \<times> 'r" where
  "call_chars src 0 rng = ([], rng)"
| "call_chars src (Suc n) rng = (let (idx, rng) = src rng; (cs, rng) = call_chars src n rng in (call_char idx # cs, rng))"

definition NewCallID :: "'r index_source \<Rightarrow> 'r \<Rightarrow> string \<times> 'r" where
  "NewCallID src rng = call_chars src 9 rng"

definition ValidCallID :: "string \<Rightarrow> bool" where
  "ValidCallID s \<longleftrightarrow> length s = 9 \<and> (\<forall>c \<in> set s. (97 \<le> ord c \<and> ord c \<le> 122) \<or> (65 \<le> ord c \<and> ord c \<le> 90) \<or> (48 \<le> ord c \<and> ord c \<le> 57))"

section \<open>Classification\<close>

definition qwen35Family :: "string \<Rightarrow> bool" where
  "qwen35Family arch \<longleftrightarrow> arch = ''qwen35'' \<or> arch = ''qwen35moe''"

definition extract_calls :: "json_codec \<Rightarrow> string \<Rightarrow> string \<Rightarrow> string \<Rightarrow> string \<times> ToolCall list" where
  "extract_calls js kind arch content =
    (if Contains content callMarker then extractToolCallsMistral content
     else if qwen35Family arch then extractToolCallsQwen35 js content
     else if kind = ''mistral-inst'' then extractToolCallsMistral content
     else if kind = ''kimi-chat'' then extractToolCallsKimi content
     else if kind = ''llama31-chat'' then extractToolCallsLlama31 js content
     else extractToolCallsGeneric js content)"

definition settle_call :: "'r index_source \<Rightarrow> string \<Rightarrow> nat \<Rightarrow> ToolCall \<Rightarrow> 'r \<Rightarrow> ToolCall \<times> 'r" where
  "settle_call src kind i c rng =
    (let c = (if call_Type c = [] then c\<lparr>call_Type := ''function''\<rparr> else c) in
     if kind = ''kimi-chat'' then
       (if parseKimiToolCallID (call_ID c) = None then (c\<lparr>call_ID := kimiToolCallID (call_Name c) i\<rparr>, rng) else (c, rng))
     else if \<not> ValidCallID (call_ID c) then (let (callID, rng) = NewCallID src rng in (c\<lparr>call_ID := callID\<rparr>, rng))
     else (c, rng))"

fun settle_calls :: "'r index_source \<Rightarrow> string \<Rightarrow> nat \<Rightarrow> ToolCall list \<Rightarrow> 'r \<Rightarrow> ToolCall list \<times> 'r" where
  "settle_calls src kind i [] rng = ([], rng)"
| "settle_calls src kind i (c # cs) rng =
    (let (c, rng) = settle_call src kind i c rng; (cs, rng) = settle_calls src kind (Suc i) cs rng in (c # cs, rng))"

text \<open>\<open>offered\<close>: whether the request has active tools.\<close>

definition classifyOutput :: "json_codec \<Rightarrow> 'r index_source \<Rightarrow> string \<Rightarrow> string \<Rightarrow> string \<Rightarrow> bool \<Rightarrow> 'r \<Rightarrow>
    (string \<times> string \<times> ToolCall list) \<times> 'r" where
  "classifyOutput js src kind arch raw offered rng =
    (let (content, reasoning, calls) =
           (if arch = ''gpt-oss'' then extractGptOssChannels raw
            else let (content, reasoning) = (if kind = ''mistral-inst'' then extractMistralThink raw else extractThink raw);
                     (content, calls) = (if offered \<or> Contains content callMarker then extract_calls js kind arch content else (content, []))
                 in (content, reasoning, calls));
         (calls, rng) = settle_calls src kind 0 calls rng
     in ((content, reasoning, calls), rng))"

end
