(* ===== verification/Think_Split_Laws.thy ===== *)
theory Think_Split_Laws
  imports Think_Split Go_Strings_Laws
begin

text \<open>
  The stream splitters implement the splitting of the whole text at its markers: what has been emitted and
  what is pending determine, with any continuation, the same labelled characters.
\<close>

section \<open>The retained suffix\<close>

lemma find_rev_reaches: "P l \<Longrightarrow> 1 \<le> l \<Longrightarrow> l \<le> N \<Longrightarrow> \<exists>n \<ge> l. find P (rev [1..<Suc N]) = Some n"
proof (induction N)
  case (Suc N)
  have e: "rev [1..<Suc (Suc N)] = Suc N # rev [1..<Suc N]" by simp
  show ?case
  proof (cases "P (Suc N)")
    case True
    then show ?thesis using Suc.prems(3) unfolding e by (intro exI [of _ "Suc N"]) simp
  next
    case False
    then have "l \<le> N" using Suc.prems by (auto simp: le_Suc_eq)
    then show ?thesis using False Suc.IH [OF Suc.prems(1,2)] unfolding e by simp
  qed
qed simp

lemma keep_longest:
  "HasSuffix s (take l m) \<Longrightarrow> 1 \<le> l \<Longrightarrow> l \<le> length s \<Longrightarrow> l < length m \<Longrightarrow> l \<le> markerPrefixSuffixLen s m"
proof -
  assume h: "HasSuffix s (take l m)" "1 \<le> l" "l \<le> length s" "l < length m"
  then have "l \<le> min (length s) (length m - 1)" by auto
  from find_rev_reaches [of "\<lambda>n. HasSuffix s (take n m)" l, OF h(1,2) this]
  obtain n where "l \<le> n" "find (\<lambda>n. HasSuffix s (take n m)) (rev [1..<Suc (min (length s) (length m - 1))]) = Some n" by blast
  then show ?thesis unfolding markerPrefixSuffixLen_def by simp
qed

lemma keep_bounds: "markerPrefixSuffixLen s m \<le> min (length s) (length m - 1)"
proof (cases "find (\<lambda>n. HasSuffix s (take n m)) (rev [1..<Suc (min (length s) (length m - 1))])")
  case (Some n)
  then have "n \<in> set (rev [1..<Suc (min (length s) (length m - 1))])" by (auto simp only: find_Some_iff in_set_conv_nth)
  then show ?thesis unfolding markerPrefixSuffixLen_def Some by auto
qed (simp add: markerPrefixSuffixLen_def)

lemma no_marker_before_keep:
  assumes "Index s m = None" "j < length s - markerPrefixSuffixLen s m"
  shows "\<not> HasPrefix (drop j (s @ t)) m"
proof
  assume h: "HasPrefix (drop j (s @ t)) m"
  define l where "l = length s - j"
  have l: "1 \<le> l" "l \<le> length s" "length (drop j s) = l" using assms(2) by (auto simp: l_def)
  show False
  proof (cases "length m \<le> l")
    case True
    then have "HasPrefix (drop j s) m" using h l(3) assms(2) by (simp add: HasPrefix_short)
    then show False using assms by (simp add: Index_None_iff)
  next
    case False
    obtain u where "drop j s @ t = m @ u" using h assms(2) by (auto simp: HasPrefix_iff)
    then have "drop j s = take l m" using False l(3) by (metis append_eq_append_conv_if nat_le_linear)
    then have "HasSuffix s (take l m)" using l False by (simp add: HasSuffix_def l_def)
    from keep_longest [OF this l(1,2)] False assms(2) show False by (simp add: l_def)
  qed
qed

lemma keep_no_marker:
  assumes "m \<noteq> []" "length s < length m"
  shows "Index s m = None"
  using assms Index_bound [of s m] by (cases "Index s m") auto

section \<open>The labelled text\<close>

text \<open>Every character with its channel, the markers removed.\<close>

function channels :: "think_protocol \<Rightarrow> bool \<Rightarrow> string \<Rightarrow> (bool \<times> char) list" where
  "channels k r s = (case Index s (marker k r) of None \<Rightarrow> map (Pair r) s
     | Some i \<Rightarrow> map (Pair r) (take i s) @ channels k (\<not> r) (drop (i + length (marker k r)) s))"
  by pat_completeness auto
termination
proof (relation "measure (\<lambda>(k, r, s). length s)", goal_cases)
  case (2 k r s i)
  then have "i + length (marker k r) \<le> length s" "0 < length (marker k r)" by (auto dest: Index_bound)
  then have "length s - (i + length (marker k r)) < length s" by linarith
  then show ?case by simp
qed simp

declare channels.simps [simp del]

lemma channels_skip:
  assumes "n \<le> length s" "\<forall>j < n. \<not> HasPrefix (drop j s) (marker k r)"
  shows "channels k r s = map (Pair r) (take n s) @ channels k r (drop n s)"
proof (cases "Index (drop n s) (marker k r)")
  case None
  then show ?thesis using Index_skip [OF assms] by (simp add: channels.simps [of k r s] channels.simps [of k r "drop n s"] flip: map_append)
next
  case (Some i)
  have "take (n + i) s = take n s @ take i (drop n s)" by (simp add: take_add)
  then show ?thesis using Some Index_skip [OF assms]
    by (simp add: channels.simps [of k r s] channels.simps [of k r "drop n s"] ac_simps)
qed

lemma channels_marker:
  "Index s (marker k r) = Some i \<Longrightarrow>
    channels k r (s @ t) = map (Pair r) (take i s) @ channels k (\<not> r) (drop (i + length (marker k r)) s @ t)"
  using Index_bound [of s "marker k r" i] Index_append [of s "marker k r" i t]
  by (subst channels.simps) simp

section \<open>The splitters\<close>

text \<open>The consumer that accepts everything and collects the labelled characters.\<close>

definition collect :: "(bool \<times> char) list emitter" where
  "collect r s e = (True, e @ map (Pair r) s)"

definition splitter_at :: "think_protocol \<Rightarrow> ThinkStreamSplitter \<Rightarrow> string \<Rightarrow> (bool \<times> char) list" where
  "splitter_at k sp t = channels k (inReasoning sp) (pending sp @ t)"

lemma push_loop_spec:
  "\<exists>sp' e'. push_loop k collect sp e = (True, sp', e') \<and> length (pending sp') < length (marker k (inReasoning sp'))
    \<and> (\<forall>t. e @ splitter_at k sp t = e' @ splitter_at k sp' t)"
proof (induction k "collect :: (bool \<times> char) list emitter" sp e rule: push_loop.induct)
  case (1 k sp e)
  let ?m = "marker k (inReasoning sp)"
  show ?case
  proof (cases "Index (pending sp) ?m")
    case (Some i)
    let ?sp = "\<lparr>inReasoning = \<not> inReasoning sp, pending = drop (i + length ?m) (pending sp)\<rparr>"
    let ?e = "e @ map (Pair (inReasoning sp)) (take i (pending sp))"
    have "push_loop k collect sp e = push_loop k collect ?sp ?e"
      using Some by (subst push_loop.simps) (simp add: Let_def collect_def)
    moreover have "\<exists>sp' e'. push_loop k collect ?sp ?e = (True, sp', e') \<and> length (pending sp') < length (marker k (inReasoning sp'))
        \<and> (\<forall>t. ?e @ splitter_at k ?sp t = e' @ splitter_at k sp' t)"
      by (rule 1(1) [OF refl Some, of "(True, ?e)" True ?e]) (auto simp: collect_def)
    moreover have "e @ splitter_at k sp t = ?e @ splitter_at k ?sp t" for t
      using channels_marker [OF Some] by (simp add: splitter_at_def)
    ultimately show ?thesis by simp
  next
    case None
    let ?n = "length (pending sp) - markerPrefixSuffixLen (pending sp) ?m"
    let ?sp = "sp\<lparr>pending := drop ?n (pending sp)\<rparr>"
    have p: "push_loop k collect sp e = (True, ?sp, e @ map (Pair (inReasoning sp)) (take ?n (pending sp)))"
      using None by (subst push_loop.simps) (simp add: Let_def collect_def)
    have "channels k (inReasoning sp) (pending sp @ t) = map (Pair (inReasoning sp)) (take ?n (pending sp @ t)) @ channels k (inReasoning sp) (drop ?n (pending sp @ t))" for t
      using no_marker_before_keep [OF None] by (intro channels_skip) auto
    then have "\<forall>t. e @ splitter_at k sp t = (e @ map (Pair (inReasoning sp)) (take ?n (pending sp))) @ splitter_at k ?sp t"
      by (simp add: splitter_at_def)
    moreover have "length (pending ?sp) < length (marker k (inReasoning ?sp))"
      proof -
      have "markerPrefixSuffixLen (pending sp) ?m < length ?m" "markerPrefixSuffixLen (pending sp) ?m \<le> length (pending sp)"
        using keep_bounds [of "pending sp" ?m] marker_length(1) [of k "inReasoning sp"] by linarith+
      then show ?thesis by simp
    qed
    ultimately show ?thesis using p by blast
  qed
qed

fun push_all :: "(string \<Rightarrow> 'e emitter \<Rightarrow> ThinkStreamSplitter \<Rightarrow> 'e \<Rightarrow> bool \<times> ThinkStreamSplitter \<times> 'e) \<Rightarrow> 'e emitter \<Rightarrow>
    string list \<Rightarrow> ThinkStreamSplitter \<Rightarrow> 'e \<Rightarrow> bool \<times> ThinkStreamSplitter \<times> 'e" where
  "push_all push emit [] sp e = Flush emit sp e"
| "push_all push emit (s # ss) sp e =
    (case push s emit sp e of (False, sp, e) \<Rightarrow> (False, sp, e) | (True, sp, e) \<Rightarrow> push_all push emit ss sp e)"

lemma Flush_collect:
  assumes "length (pending sp) < length (marker k (inReasoning sp))"
  shows "Flush collect sp e = (True, sp\<lparr>pending := []\<rparr>, e @ splitter_at k sp [])"
  using keep_no_marker [OF _ assms] marker_length(2) by (auto simp: Flush_def collect_def splitter_at_def channels.simps)

lemma push_all_spec:
  assumes "\<And>s sp e. push s collect sp e = push_loop k collect (sp\<lparr>pending := pending sp @ s\<rparr>) e"
  shows "length (pending sp) < length (marker k (inReasoning sp)) \<Longrightarrow>
    fst (push_all push collect ss sp e) \<and> snd (snd (push_all push collect ss sp e)) = e @ splitter_at k sp (concat ss)"
proof (induction ss arbitrary: sp e)
  case Nil
  then show ?case by (simp add: Flush_collect)
next
  case (Cons s ss)
  obtain sp' e' where p: "push_loop k collect (sp\<lparr>pending := pending sp @ s\<rparr>) e = (True, sp', e')"
      "length (pending sp') < length (marker k (inReasoning sp'))"
      "\<forall>t. e @ splitter_at k (sp\<lparr>pending := pending sp @ s\<rparr>) t = e' @ splitter_at k sp' t" using push_loop_spec by metis
  then show ?case using Cons.IH [OF p(2), of e'] by (simp add: assms splitter_at_def)
qed

section \<open>The whole reply\<close>

definition visible :: "(bool \<times> char) list \<Rightarrow> string" where
  "visible cs = map snd (filter (\<lambda>(r, _). \<not> r) cs)"

lemma visible_simps [simp]: "visible (xs @ ys) = visible xs @ visible ys" "visible (map (Pair True) s) = []" "visible (map (Pair False) s) = s"
  by (simp_all add: visible_def comp_def filter_map)

lemma think_loop_channels: "fst (think_loop k rest content parts) = content @ visible (channels k False rest)"
proof (induction k rest content parts rule: think_loop.induct)
  case (1 k rest content parts)
  show ?case
  proof (cases "Index rest (openTag k)")
    case None
    then show ?thesis by (simp add: think_loop.simps [of k rest] channels.simps [of k False rest] marker_def)
  next
    case (Some i)
    let ?rest = "drop (i + length (openTag k)) rest"
    have c: "channels k False rest = map (Pair False) (take i rest) @ channels k True ?rest"
      using Some by (simp add: channels.simps [of k False rest] marker_def)
    show ?thesis
    proof (cases "Index ?rest (closeTag k)")
      case None
      then show ?thesis using Some c by (simp add: think_loop.simps [of k rest] channels.simps [of k True ?rest] marker_def Let_def)
    next
      case (Some j)
      then show ?thesis using 1 [OF \<open>Index rest (openTag k) = Some i\<close> refl refl Some] \<open>Index rest (openTag k) = Some i\<close> c
        by (simp add: think_loop.simps [of k rest] channels.simps [of k True ?rest] marker_def Let_def)
    qed
  qed
qed

lemma extract_tags_channels:
  "fst (extract_tags k s) = TrimSpace (visible (channels k (begins_inside k s \<noteq> None) s))"
proof (cases "begins_inside k s")
  case None
  then show ?thesis using think_loop_channels [of k s "[]" "[]"] by (simp add: extract_tags_def split_beta)
next
  case (Some i)
  then have "Index s (closeTag k) = Some i" by (auto simp: begins_inside_def split: option.splits if_splits)
  then have "channels k True s = map (Pair True) (take i s) @ channels k False (drop (i + length (closeTag k)) s)"
    by (simp add: channels.simps [of k True s] marker_def)
  then show ?thesis using Some think_loop_channels [of k "drop (i + length (closeTag k)) s" "[]" "[take i s]"]
    by (simp add: extract_tags_def split_beta)
qed

end
