(* ===== verification/Tool_Calls_Contract.thy ===== *)
theory Tool_Calls_Contract
  imports Tool_Calls Think_Split_Laws
begin

text \<open>
  What reading a reply guarantees: streamed and final text agree, rendered calls are read back, and every
  call that leaves the classification has a type and an acceptable id.
\<close>

section \<open>Borderless markers\<close>

text \<open>A marker whose first character occurs only at its start cannot overlap itself.\<close>

definition borderless :: "string \<Rightarrow> bool" where
  "borderless m \<longleftrightarrow> m \<noteq> [] \<and> hd m \<notin> set (tl m)"

lemma borderless_markers: "borderless callMarker" "borderless argsMarker"
  by (simp_all add: borderless_def callMarker_def argsMarker_def)

lemma not_Contains_iff: "\<not> Contains s p \<longleftrightarrow> (\<forall>j \<le> length s. \<not> HasPrefix (drop j s) p)"
  by (simp add: Contains_def Index_None_iff)

lemma Index_after:
  assumes "borderless m" "\<not> Contains s m"
  shows "Index (s @ m @ t) m = Some (length s)"
  unfolding Index_iff
proof (intro conjI allI impI notI)
  fix j assume j: "j < length s" and h: "HasPrefix (drop j (s @ m @ t)) m"
  define l where "l = length s - j"
  have d: "drop j (s @ m @ t) = drop j s @ m @ t" "length (drop j s) = l" "0 < l" using j by (auto simp: l_def)
  show False
  proof (cases "length m \<le> l")
    case True
    then have "HasPrefix (drop j s) m" using h d by (simp add: HasPrefix_short)
    then show False using assms(2) j by (auto simp: not_Contains_iff)
  next
    case False
    obtain u where u: "drop j s @ m @ t = m @ u" using h d(1) by (auto simp: HasPrefix_iff)
    then have "(drop j s @ m @ t) ! l = m ! l" using False by (simp add: nth_append)
    then have "m ! l = hd m" using d(2) assms(1) by (cases m) (auto simp: nth_append borderless_def)
    moreover have "m ! l \<in> set (tl m)" using False d(3) by (cases m) (auto simp: nth_Cons' less_Suc_eq_le Suc_le_eq)
    ultimately show False using assms(1) by (simp add: borderless_def)
  qed
qed simp_all

section \<open>Mistral calls\<close>

definition mistral_ok :: "string \<times> string \<Rightarrow> bool" where
  "mistral_ok c \<longleftrightarrow> (case c of (name, args) \<Rightarrow> name \<noteq> [] \<and> TrimSpace name = name \<and> \<not> Contains name argsMarker
     \<and> args \<noteq> [] \<and> TrimSpace args = args \<and> \<not> Contains args callMarker)"

definition mistral_text :: "(string \<times> string) list \<Rightarrow> string" where
  "mistral_text calls = concat (map (\<lambda>(name, args). callMarker @ name @ argsMarker @ args) calls)"

lemma mistral_arguments_text:
  assumes "\<not> Contains args callMarker"
  shows "mistral_arguments (args @ mistral_text calls) = (args, mistral_text calls)"
proof (cases calls)
  case Nil
  then show ?thesis using assms by (simp add: mistral_arguments_def mistral_text_def Contains_def)
next
  case (Cons c cs)
  then obtain t where "mistral_text calls = callMarker @ t" by (cases c) (auto simp: mistral_text_def)
  then show ?thesis using Index_after [OF borderless_markers(1) assms] by (simp add: mistral_arguments_def)
qed

lemma mistral_calls_text:
  "list_all mistral_ok calls \<Longrightarrow>
    mistral_calls (mistral_text calls) acc = acc @ map (\<lambda>(name, args). function_call [] name args) calls"
proof (induction calls arbitrary: acc)
  case Nil
  then show ?case by (simp add: mistral_calls.simps mistral_text_def callMarker_def HasPrefix_def)
next
  case (Cons c calls)
  obtain name args where c: "c = (name, args)" by (cases c)
  have ok: "name \<noteq> []" "TrimSpace name = name" "\<not> Contains name argsMarker" "args \<noteq> []" "TrimSpace args = args" "\<not> Contains args callMarker"
    using Cons.prems by (auto simp: c mistral_ok_def)
  have m: "mistral_text (c # calls) = callMarker @ name @ argsMarker @ args @ mistral_text calls" by (simp add: c mistral_text_def)
  have "mistral_calls (mistral_text (c # calls)) acc = mistral_calls (mistral_text calls) (acc @ [function_call [] name args])"
    unfolding m by (subst mistral_calls.simps)
      (simp add: Index_after [OF borderless_markers(2) ok(3)] mistral_arguments_text [OF ok(6)] ok(1,2,4,5) or_object_def Let_def)
  then show ?case using Cons.IH Cons.prems by (simp add: c)
qed

section \<open>Call ids\<close>

lemma call_char_ok: "(97 \<le> ord (call_char i) \<and> ord (call_char i) \<le> 122) \<or> (65 \<le> ord (call_char i) \<and> ord (call_char i) \<le> 90)
    \<or> (48 \<le> ord (call_char i) \<and> ord (call_char i) \<le> (57 :: nat))"
proof -
  have all: "\<forall>c \<in> set callIDAlphabet. (97 \<le> ord c \<and> ord c \<le> 122) \<or> (65 \<le> ord c \<and> ord c \<le> 90) \<or> (48 \<le> ord c \<and> ord c \<le> (57 :: nat))"
    by (simp add: callIDAlphabet_def)
  have "0 < length callIDAlphabet" by (simp add: callIDAlphabet_def)
  then have "(if i < 0 \<or> i \<ge> int (length callIDAlphabet) then 0 else nat i) < length callIDAlphabet" by auto
  then have "call_char i \<in> set callIDAlphabet" unfolding call_char_def by (rule nth_mem)
  with all show ?thesis by blast
qed

lemma call_chars_ok: "length (fst (call_chars src n rng)) = n \<and> (\<forall>c \<in> set (fst (call_chars src n rng)). \<exists>i. c = call_char i)"
  by (induction n arbitrary: rng) (auto simp: split_beta)

lemma NewCallID_valid: "ValidCallID (fst (NewCallID src rng))"
  unfolding ValidCallID_def NewCallID_def using call_chars_ok [of src 9 rng] call_char_ok by metis

definition settled :: "string \<Rightarrow> nat \<Rightarrow> ToolCall \<Rightarrow> bool" where
  "settled kind i c \<longleftrightarrow> call_Type c \<noteq> [] \<and> (if kind = ''kimi-chat''
     then parseKimiToolCallID (call_ID c) \<noteq> None \<or> call_ID c = kimiToolCallID (call_Name c) i else ValidCallID (call_ID c))"

lemma settle_call_settled: "settled kind i (fst (settle_call src kind i c rng))"
  using NewCallID_valid [of src rng] by (auto simp: settled_def settle_call_def Let_def split_beta)

lemma settle_calls_settled:
  "length (fst (settle_calls src kind i cs rng)) = length cs \<and>
    (\<forall>j < length cs. settled kind (i + j) (fst (settle_calls src kind i cs rng) ! j))"
proof (induction cs arbitrary: i rng)
  case (Cons c cs)
  show ?case
    using settle_call_settled [of kind i src c rng] Cons.IH [of "Suc i" "snd (settle_call src kind i c rng)"]
    by (auto simp: split_beta nth_Cons' less_Suc_eq_0_disj)
qed simp

lemma classifyOutput_settled:
  assumes "classifyOutput js src kind arch raw offered rng = ((content, reasoning, calls), rng')"
  shows "\<forall>j < length calls. settled kind j (calls ! j)"
  using assms settle_calls_settled [of src kind 0] by (auto simp: classifyOutput_def Let_def split_beta)

section \<open>The properties\<close>

lemma no_tags_channels:
  "\<not> Contains s (marker k r) \<Longrightarrow> channels k r s = map (Pair r) s"
  by (simp add: channels.simps Contains_def)

lemma no_tags_extract:
  "\<not> Contains s (openTag k) \<Longrightarrow> \<not> Contains s (closeTag k) \<Longrightarrow> extract_tags k s = (TrimSpace s, TrimSpace [])"
  by (simp add: extract_tags_def begins_inside_def Contains_def think_loop.simps)

text \<open>
  C27. Streaming and parsing agree where they start alike: however a reply is cut into chunks, the splitter passes on
  every character outside the tags exactly once, in order and on the channel that the tags of the whole reply give it.
  If it starts inside the reasoning exactly when the finished reply is found to begin there, the visible text,
  trimmed, is the content of the finished reply. If it starts inside and the reply contains no tag (the template
  opened the reasoning and the reply was cut off before its end), they disagree: the stream shows nothing, the
  finished reply has the whole text as its content.
\<close>

theorem think_stream_matches_reply:
  assumes "push_all Push collect chunks (NewThinkStreamSplitter inside) [] = (go, sp, seen)" and "reply = concat chunks"
  shows "go \<and> seen = channels ThinkTags inside reply
    \<and> (inside = (begins_inside ThinkTags reply \<noteq> None) \<longrightarrow> fst (extractThink reply) = TrimSpace (visible seen))
    \<and> (inside \<and> \<not> Contains reply (openTag ThinkTags) \<and> \<not> Contains reply (closeTag ThinkTags)
         \<longrightarrow> visible seen = [] \<and> fst (extractThink reply) = TrimSpace reply)"
proof -
  have "fst (push_all Push collect chunks (NewThinkStreamSplitter inside) []) \<and>
      snd (snd (push_all Push collect chunks (NewThinkStreamSplitter inside) [])) = [] @ splitter_at ThinkTags (NewThinkStreamSplitter inside) (concat chunks)"
    by (rule push_all_spec) (simp_all add: Push_def NewThinkStreamSplitter_def)
  then have "go" "seen = channels ThinkTags inside reply" using assms by (simp_all add: splitter_at_def NewThinkStreamSplitter_def)
  then show ?thesis using extract_tags_channels [of ThinkTags reply] no_tags_extract [of reply ThinkTags]
      no_tags_channels [of reply ThinkTags True] by (auto simp: extractThink_def marker_def)
qed

definition sample_chunks :: "string list" where
  "sample_chunks = [''a<th'', ''ink>b</'', ''think>c'']"

lemma sample_stream:
  "push_all Push collect sample_chunks (NewThinkStreamSplitter False) [] =
     (True, NewThinkStreamSplitter False, [(False, CHR ''a''), (True, CHR ''b''), (False, CHR ''c'')])"
  by code_simp

lemma think_stream_matches_reply_witness: "fst (extractThink (concat sample_chunks)) = TrimSpace ''ac''"
proof -
  have "False = (begins_inside ThinkTags (concat sample_chunks) \<noteq> None)" by code_simp
  then show ?thesis using think_stream_matches_reply [OF sample_stream refl] by (simp add: visible_def)
qed

text \<open>
  C28. Calls survive the Mistral convention: text without a call marker followed by calls written as the
  template writes them is read back as that text, trimmed, and exactly those calls in order.
\<close>

theorem mistral_roundtrip:
  assumes "\<not> Contains content callMarker" "list_all mistral_ok calls" "calls \<noteq> []"
  shows "extractToolCallsMistral (content @ mistral_text calls) = (TrimSpace content, map (\<lambda>(name, args). function_call [] name args) calls)"
proof -
  obtain t where "mistral_text calls = callMarker @ t" using assms(3) by (cases calls) (auto simp: mistral_text_def)
  then have "Index (content @ mistral_text calls) callMarker = Some (length content)"
    using Index_after [OF borderless_markers(1) assms(1)] by simp
  then show ?thesis using mistral_calls_text [OF assms(2)] by (simp add: extractToolCallsMistral_def)
qed

lemma mistral_roundtrip_witness:
  "extractToolCallsMistral (''ok '' @ mistral_text [(''clock'', ''[1]''), (''add'', ''{}'')]) =
     (TrimSpace ''ok '', [function_call [] ''clock'' ''[1]'', function_call [] ''add'' ''{}''])"
proof -
  have c: "\<not> Contains ''ok '' callMarker" by code_simp
  have l: "list_all mistral_ok [(''clock'', ''[1]''), (''add'', ''{}'')]"
    by (simp add: mistral_ok_def TrimSpace_print Contains_def argsMarker_def callMarker_def HasPrefix_def)
  show ?thesis using mistral_roundtrip [OF c l] by (simp only: list.map prod.case) simp
qed

end
