(* ===== verification/Kv_Cache.thy ===== *)
theory Kv_Cache
  imports Go_Prelude
begin

text \<open>
  Key/value caches and the reuse of their rows between requests (\<^verbatim>\<open>internal/engine/model_kvcache.go\<close>,
  \<^verbatim>\<open>kv_workspace.go\<close>, \<^verbatim>\<open>conversation_cache.go\<close>, \<^verbatim>\<open>conversation_cache_copy.go\<close>,
  \<^verbatim>\<open>mistral_kv_prefix_cache.go\<close>) for models whose whole state is in their attention rows.

  The three storage formats use arrays of different element types for the same rows; here the element type
  is a parameter and the format fixes the width of a row. The live workspaces are shared by address, so they
  are kept in a store; snapshots are never written after they were made and are values. The locks only
  serialise the operations and are left out.
\<close>

section \<open>Caches\<close>

datatype kvFormat = kvF32 | kvF16 | kvI8

record 'x KVCache =
  kv_format :: kvFormat
  kv_K :: "'x list list"
  kv_V :: "'x list list"
  PerPosKDim :: nat
  PerPosVDim :: nat
  kv_MaxLen :: nat

definition q8RowBytes :: "nat \<Rightarrow> nat" where
  "q8RowBytes n = n div 32 * 34"

definition rowWidth :: "kvFormat \<Rightarrow> nat \<Rightarrow> nat" where
  "rowWidth f n = (if f = kvI8 then q8RowBytes n else n)"

definition layerCount :: "'x KVCache \<Rightarrow> nat" where
  "layerCount c = length (kv_K c)"

definition NewKVCache :: "'x \<Rightarrow> kvFormat \<Rightarrow> nat \<Rightarrow> nat \<Rightarrow> nat \<Rightarrow> nat \<Rightarrow> 'x KVCache" where
  "NewKVCache zero f layers kDim vDim maxLen = \<lparr>kv_format = f,
     kv_K = replicate layers (replicate (maxLen * rowWidth f kDim) zero),
     kv_V = replicate layers (replicate (maxLen * rowWidth f vDim) zero),
     PerPosKDim = kDim, PerPosVDim = vDim, kv_MaxLen = maxLen\<rparr>"

text \<open>Sizes are 64-bit integers, with the wrap-around of every product.\<close>

definition kvCacheBytes :: "nat \<Rightarrow> nat \<Rightarrow> nat \<Rightarrow> nat \<Rightarrow> kvFormat \<Rightarrow> int" where
  "kvCacheBytes layers kDim vDim cacheLen f =
    (if f = kvI8 then wrap64 (wrap64 (int layers * int (q8RowBytes kDim + q8RowBytes vDim)) * int cacheLen)
     else wrap64 (wrap64 (wrap64 (int layers * int (kDim + vDim)) * int cacheLen) * (if f = kvF16 then 2 else 4)))"

definition grownKVCacheLen :: "int \<Rightarrow> int \<Rightarrow> int \<Rightarrow> int \<Rightarrow> int" where
  "grownKVCacheLen current required limit chunk =
    (if current \<le> 0 then required
     else let grown = wrap64 (current * 2);
              grown = (if grown < current then required else grown);
              grown = max grown (wrap64 (current + chunk));
              target = max required grown
          in if limit > 0 then min target limit else target)"

definition kvPrefixSnapshotCompatible :: "'x KVCache \<Rightarrow> 'x KVCache \<Rightarrow> nat \<Rightarrow> bool" where
  "kvPrefixSnapshotCompatible dst src positions \<longleftrightarrow> positions > 0 \<and> kv_format dst = kv_format src
     \<and> PerPosKDim dst = PerPosKDim src \<and> PerPosVDim dst = PerPosVDim src \<and> layerCount dst = layerCount src
     \<and> positions \<le> kv_MaxLen dst \<and> positions \<le> kv_MaxLen src"

text \<open>Copying the elements \<open>[a, b)\<close> of every layer, and so the rows between two positions.\<close>

definition copy_layers :: "'x list list \<Rightarrow> 'x list list \<Rightarrow> nat \<Rightarrow> nat \<Rightarrow> 'x list list" where
  "copy_layers dst src a b = map2 (\<lambda>d s. copy_into d a (sublst s a b)) dst src"

definition copy_rows :: "'x KVCache \<Rightarrow> 'x KVCache \<Rightarrow> nat \<Rightarrow> nat \<Rightarrow> 'x KVCache" where
  "copy_rows dst src start stop =
    (let kw = rowWidth (kv_format dst) (PerPosKDim dst); vw = rowWidth (kv_format dst) (PerPosVDim dst) in
     dst\<lparr>kv_K := copy_layers (kv_K dst) (kv_K src) (start * kw) (stop * kw),
         kv_V := copy_layers (kv_V dst) (kv_V src) (start * vw) (stop * vw)\<rparr>)"

definition copyConversationKVRange :: "'x KVCache \<Rightarrow> 'x KVCache \<Rightarrow> nat \<Rightarrow> nat \<Rightarrow> nat \<times> 'x KVCache" where
  "copyConversationKVRange dst src start stop =
    (if start > stop \<or> \<not> kvPrefixSnapshotCompatible dst src stop then (0, dst)
     else if start = stop then (stop, dst)
     else (stop, copy_rows dst src start stop))"

definition copyKVPrefix :: "'x KVCache \<Rightarrow> 'x KVCache \<Rightarrow> nat \<Rightarrow> nat \<times> 'x KVCache" where
  "copyKVPrefix dst src positions =
    (if positions = 0 \<or> kv_format dst \<noteq> kv_format src \<or> PerPosKDim dst \<noteq> PerPosKDim src \<or> PerPosVDim dst \<noteq> PerPosVDim src
        \<or> layerCount dst \<noteq> layerCount src then (0, dst)
     else let n = min positions (min (kv_MaxLen dst) (kv_MaxLen src)) in
       if n = 0 then (0, dst) else (n, copy_rows dst src 0 n))"

definition cloneKVPrefix :: "'x \<Rightarrow> 'x KVCache \<Rightarrow> nat \<Rightarrow> 'x KVCache option" where
  "cloneKVPrefix zero src positions =
    (let n = min positions (kv_MaxLen src) in
     if layerCount src = 0 \<or> n = 0 then None
     else let (copied, dst) = copyKVPrefix (NewKVCache zero (kv_format src) (layerCount src) (PerPosKDim src) (PerPosVDim src) n) src n in
       if copied \<noteq> n then None else Some dst)"

fun sharedTokenPrefix :: "u32 list \<Rightarrow> u32 list \<Rightarrow> nat" where
  "sharedTokenPrefix (a # as) (b # bs) = (if a \<noteq> b then 0 else Suc (sharedTokenPrefix as bs))"
| "sharedTokenPrefix _ _ = 0"

section \<open>The runner's caches\<close>

record 'x conversationSnapshot =
  cs_tokens :: "u32 list"
  cs_cache :: "'x KVCache"
  cs_bytes :: int

record 'x conversationCache =
  cc_entries :: "'x conversationSnapshot list"
  cc_bytes :: int
  cc_limit :: int

record 'x mistralKVPrefixCacheEntry =
  me_cache :: "'x KVCache"
  me_bytes :: int

record 'x mistralKVPrefixCache =
  mk_enabled :: bool
  mk_maxBytes :: int
  mk_bytes :: int
  mk_hits :: nat
  mk_misses :: nat
  mk_epoch :: nat
  mk_entries :: "(string, 'x mistralKVPrefixCacheEntry) gomap"
  mk_order :: "string list"

text \<open>
  \<open>kr_attention\<close>: the model keeps all of its state in attention rows and is resident in memory.
  \<open>kr_prefix\<close> is the address of the cache that holds \<open>kr_tokens\<close>, \<open>None\<close> for nil.
\<close>

record 'x kv_runner =
  kr_store :: "nat \<Rightarrow> 'x KVCache"
  kr_attention :: bool
  kr_prefix :: "nat option"
  kr_tokens :: "u32 list"
  kr_promptTokens :: nat
  kr_conversations :: "'x conversationCache"
  kr_mistral :: "'x mistralKVPrefixCache"

definition clearPrefixCache :: "'x kv_runner \<Rightarrow> 'x kv_runner" where
  "clearPrefixCache r = r\<lparr>kr_prefix := None, kr_tokens := [], kr_promptTokens := 0\<rparr>"

definition prefixReuse :: "'x kv_runner \<Rightarrow> nat \<Rightarrow> u32 list \<Rightarrow> nat" where
  "prefixReuse r dst tokens =
    (if kr_prefix r \<noteq> Some dst \<or> kr_tokens r = [] then 0
     else min (sharedTokenPrefix tokens (kr_tokens r)) (kv_MaxLen (kr_store r dst)))"

section \<open>Conversation snapshots\<close>

definition DefaultConversationCacheBytes :: int where
  "DefaultConversationCacheBytes = 134217728"

definition SetConversationCacheLimit :: "int \<Rightarrow> 'x kv_runner \<Rightarrow> 'x kv_runner" where
  "SetConversationCacheLimit bytes r = r\<lparr>kr_conversations :=
     \<lparr>cc_entries = [], cc_bytes = 0, cc_limit = (if bytes \<le> 0 then - 1 else min bytes DefaultConversationCacheBytes)\<rparr>\<rparr>"

definition ClearConversationCache :: "'x kv_runner \<Rightarrow> 'x kv_runner" where
  "ClearConversationCache r = clearPrefixCache
     (r\<lparr>kr_conversations := \<lparr>cc_entries = [], cc_bytes = 0, cc_limit = cc_limit (kr_conversations r)\<rparr>\<rparr>)"

definition conversationCacheSupported :: "'x kv_runner \<Rightarrow> bool" where
  "conversationCacheSupported r \<longleftrightarrow> cc_limit (kr_conversations r) \<ge> 0 \<and> kr_attention r"

definition entry_remove :: "nat \<Rightarrow> 'a list \<Rightarrow> 'a list" where
  "entry_remove i es = take i es @ drop (Suc i) es"

definition entry_touch :: "nat \<Rightarrow> 'a list \<Rightarrow> 'a list" where
  "entry_touch i es = entry_remove i es @ [es ! i]"

text \<open>The entry, newest first, that already owns the rows; the loop counts down from \<open>i\<close>.\<close>

fun covering_entry :: "'x KVCache \<Rightarrow> u32 list \<Rightarrow> 'x conversationSnapshot list \<Rightarrow> nat \<Rightarrow> nat option" where
  "covering_entry c kept es 0 = None"
| "covering_entry c kept es (Suc i) =
    (if kvPrefixSnapshotCompatible c (cs_cache (es ! i)) (length kept) \<and> sharedTokenPrefix (cs_tokens (es ! i)) kept = length kept
     then Some i else covering_entry c kept es i)"

definition subsumed :: "'x KVCache \<Rightarrow> u32 list \<Rightarrow> 'x conversationSnapshot \<Rightarrow> bool" where
  "subsumed c kept e \<longleftrightarrow> length (cs_tokens e) \<le> length kept \<and> kvPrefixSnapshotCompatible c (cs_cache e) (length (cs_tokens e))
     \<and> sharedTokenPrefix (cs_tokens e) kept = length (cs_tokens e)"

fun drop_subsumed :: "'x KVCache \<Rightarrow> u32 list \<Rightarrow> nat \<Rightarrow> 'x conversationCache \<Rightarrow> 'x conversationCache" where
  "drop_subsumed c kept 0 cc = cc"
| "drop_subsumed c kept (Suc i) cc =
    (let e = cc_entries cc ! i in
     drop_subsumed c kept i (if subsumed c kept e
       then cc\<lparr>cc_bytes := cc_bytes cc - cs_bytes e, cc_entries := entry_remove i (cc_entries cc)\<rparr> else cc))"

function evict_conversations :: "int \<Rightarrow> int \<Rightarrow> 'x conversationCache \<Rightarrow> 'x conversationCache" where
  "evict_conversations limit bytes cc =
    (if cc_entries cc \<noteq> [] \<and> (length (cc_entries cc) \<ge> 4 \<or> cc_bytes cc + bytes > limit)
     then evict_conversations limit bytes
       (cc\<lparr>cc_bytes := cc_bytes cc - cs_bytes (hd (cc_entries cc)), cc_entries := entry_remove 0 (cc_entries cc)\<rparr>)
     else cc)"
  by pat_completeness auto
termination
  by (relation "measure (\<lambda>(_, _, cc). length (cc_entries cc))") (auto simp: entry_remove_def)

declare evict_conversations.simps [simp del]

definition retain_snapshot :: "'x \<Rightarrow> 'x KVCache \<Rightarrow> u32 list \<Rightarrow> int \<Rightarrow> int \<Rightarrow> 'x conversationCache \<Rightarrow> 'x conversationCache" where
  "retain_snapshot zero c kept bytes limit cc =
    (case covering_entry c kept (cc_entries cc) (length (cc_entries cc)) of
       Some i \<Rightarrow> cc\<lparr>cc_entries := entry_touch i (cc_entries cc)\<rparr>
     | None \<Rightarrow>
        (let cc = evict_conversations limit bytes (drop_subsumed c kept (length (cc_entries cc)) cc) in
         case cloneKVPrefix zero c (length kept) of None \<Rightarrow> cc
         | Some snapshot \<Rightarrow> cc\<lparr>cc_entries := cc_entries cc @ [\<lparr>cs_tokens = kept, cs_cache = snapshot, cs_bytes = bytes\<rparr>],
             cc_bytes := cc_bytes cc + bytes\<rparr>))"

definition retainDisplacedConversation :: "'x \<Rightarrow> u32 list \<Rightarrow> 'x kv_runner \<Rightarrow> 'x kv_runner" where
  "retainDisplacedConversation zero tokens r =
    (case kr_prefix r of None \<Rightarrow> r
     | Some p \<Rightarrow>
        (let c = kr_store r p; resident = kr_tokens r; matched = sharedTokenPrefix tokens resident in
         if \<not> conversationCacheSupported r \<or> length resident < 32 \<or> length resident > kv_MaxLen c then r
         else if matched = length resident \<or> (length tokens = kr_promptTokens r \<and> matched = length tokens) then r
         else let cc = kr_conversations r;
                  limit = (if cc_limit cc = 0 then DefaultConversationCacheBytes else cc_limit cc);
                  rowBytes = wrap64 (kvCacheBytes (layerCount c) (PerPosKDim c) (PerPosVDim c) 1 (kv_format c) + 4)
              in if layerCount c = 0 \<or> rowBytes \<le> 0 then r
                 else let n = nat (min (int (length resident)) (limit div rowBytes)) in
                   if n < 32 then r
                   else r\<lparr>kr_conversations := retain_snapshot zero c (take n resident) (int n * rowBytes) limit cc\<rparr>))"

text \<open>The best source for a prompt among the entries below \<open>i\<close>: the length it covers and its index.\<close>

fun best_entry :: "'x KVCache \<Rightarrow> u32 list \<Rightarrow> 'x conversationSnapshot list \<Rightarrow> nat \<Rightarrow> nat \<times> nat option \<Rightarrow> nat \<times> nat option" where
  "best_entry c tokens es 0 b = b"
| "best_entry c tokens es (Suc i) b =
    (let e = es ! i; n = min (sharedTokenPrefix tokens (cs_tokens e)) (length tokens - 1) in
     if n \<ge> 32 \<and> n > fst b \<and> kvPrefixSnapshotCompatible c (cs_cache e) n
     then (if n = length tokens - 1 then (n, Some i) else best_entry c tokens es i (n, Some i))
     else best_entry c tokens es i b)"

definition reuseConversation :: "'x \<Rightarrow> nat \<Rightarrow> u32 list \<Rightarrow> nat \<Rightarrow> 'x kv_runner \<Rightarrow> nat \<times> 'x kv_runner" where
  "reuseConversation zero dst tokens resident r =
    (if \<not> conversationCacheSupported r then (resident, r)
     else let es = cc_entries (kr_conversations r) in
       case best_entry (kr_store r dst) tokens es (length es) (resident, None) of
         (best, None) \<Rightarrow> (resident, retainDisplacedConversation zero tokens r)
       | (best, Some i) \<Rightarrow>
          (let entry = es ! i;
               r = r\<lparr>kr_conversations := (kr_conversations r)\<lparr>cc_entries := entry_touch i es\<rparr>\<rparr>;
               copyStart = (if kr_prefix r = Some dst then min (min resident best) (sharedTokenPrefix tokens (kr_tokens r)) else 0);
               r = retainDisplacedConversation zero tokens r;
               (copied, cache) = copyConversationKVRange (kr_store r dst) (cs_cache entry) copyStart best
           in if copied \<noteq> best then (resident, r)
              else (best, r\<lparr>kr_store := (kr_store r)(dst := cache)\<rparr>)))"

section \<open>Snapshots of static prefixes\<close>

definition mistralKVPrefixTokenKey :: "u32 list \<Rightarrow> string" where
  "mistralKVPrefixTokenKey tokens = string_of_bytes (concat (map le_u32 tokens))"

definition order_touch :: "string \<Rightarrow> string list \<Rightarrow> string list" where
  "order_touch key order = (if key \<in> set order then remove1 key order @ [key] else order)"

definition EnableMistralKVPrefixCache :: "int \<Rightarrow> 'x mistralKVPrefixCache \<Rightarrow> 'x mistralKVPrefixCache" where
  "EnableMistralKVPrefixCache maxBytes c =
    (let maxBytes = (if maxBytes \<le> 0 then 134217728 else maxBytes); maxBytes = (if maxBytes > 536870912 then 536870912 else maxBytes) in
     \<lparr>mk_enabled = True, mk_maxBytes = maxBytes, mk_bytes = 0, mk_hits = 0, mk_misses = 0, mk_epoch = mk_epoch c + 1, mk_entries = [], mk_order = []\<rparr>)"

definition DisableMistralKVPrefixCache :: "'x mistralKVPrefixCache \<Rightarrow> 'x mistralKVPrefixCache" where
  "DisableMistralKVPrefixCache c =
    \<lparr>mk_enabled = False, mk_maxBytes = 0, mk_bytes = 0, mk_hits = 0, mk_misses = 0, mk_epoch = mk_epoch c + 1, mk_entries = [], mk_order = []\<rparr>"

definition ClearMistralKVPrefixCache :: "'x mistralKVPrefixCache \<Rightarrow> 'x mistralKVPrefixCache" where
  "ClearMistralKVPrefixCache c = c\<lparr>mk_epoch := mk_epoch c + 1, mk_bytes := 0, mk_hits := 0, mk_misses := 0, mk_entries := [], mk_order := []\<rparr>"

definition mistralKVPrefixCacheReuse :: "nat \<Rightarrow> u32 list \<Rightarrow> 'x kv_runner \<Rightarrow> (nat \<times> bool) \<times> 'x kv_runner" where
  "mistralKVPrefixCacheReuse dst tokens r =
    (let key = mistralKVPrefixTokenKey tokens; c = kr_mistral r in
     if tokens = [] \<or> \<not> mk_enabled c then ((0, False), r)
     else case map_of (mk_entries c) key of
         Some entry \<Rightarrow>
           (if kvPrefixSnapshotCompatible (kr_store r dst) (me_cache entry) (length tokens) then
              (let r = r\<lparr>kr_mistral := c\<lparr>mk_order := order_touch key (mk_order c), mk_hits := mk_hits c + 1\<rparr>\<rparr>;
                   (copied, cache) = copyKVPrefix (kr_store r dst) (me_cache entry) (length tokens);
                   r = r\<lparr>kr_store := (kr_store r)(dst := cache)\<rparr>
               in if copied = length tokens then ((copied, True), r) else ((0, False), r))
            else ((0, False), r\<lparr>kr_mistral := c\<lparr>mk_misses := mk_misses c + 1\<rparr>\<rparr>))
       | None \<Rightarrow> ((0, False), r\<lparr>kr_mistral := c\<lparr>mk_misses := mk_misses c + 1\<rparr>\<rparr>))"

definition evictOldest :: "'x mistralKVPrefixCache \<Rightarrow> 'x mistralKVPrefixCache" where
  "evictOldest c = (case mk_order c of [] \<Rightarrow> c
     | key # order \<Rightarrow> (case map_of (mk_entries c) key of None \<Rightarrow> c\<lparr>mk_order := order\<rparr>
         | Some e \<Rightarrow> c\<lparr>mk_bytes := mk_bytes c - me_bytes e, mk_entries := AList.delete key (mk_entries c), mk_order := order\<rparr>))"

function evict_prefixes :: "int \<Rightarrow> 'x mistralKVPrefixCache \<Rightarrow> 'x mistralKVPrefixCache" where
  "evict_prefixes entryBytes c =
    (if (length (mk_order c) \<ge> 8 \<or> mk_bytes c > mk_maxBytes c - entryBytes) \<and> mk_order c \<noteq> [] then evict_prefixes entryBytes (evictOldest c) else c)"
  by pat_completeness auto
termination
  by (relation "measure (\<lambda>(_, c). length (mk_order c))") (auto simp: evictOldest_def neq_Nil_conv split: list.split option.split)

declare evict_prefixes.simps [simp del]

text \<open>\<open>current\<close> is the epoch at the time of the insertion, after the rows were cloned without the lock.\<close>

definition mistral_insert :: "string \<Rightarrow> 'x KVCache \<Rightarrow> int \<Rightarrow> nat \<Rightarrow> 'x mistralKVPrefixCache \<Rightarrow> 'x mistralKVPrefixCache" where
  "mistral_insert key snapshot entryBytes epoch c =
    (if \<not> mk_enabled c \<or> mk_epoch c \<noteq> epoch \<or> entryBytes > mk_maxBytes c then c
     else let c = (case map_of (mk_entries c) key of None \<Rightarrow> c
                   | Some old \<Rightarrow> c\<lparr>mk_bytes := mk_bytes c - me_bytes old, mk_order := remove1 key (mk_order c), mk_entries := AList.delete key (mk_entries c)\<rparr>);
              c = evict_prefixes entryBytes c
          in c\<lparr>mk_entries := AList.update key \<lparr>me_cache = snapshot, me_bytes = entryBytes\<rparr> (mk_entries c),
               mk_order := mk_order c @ [key], mk_bytes := mk_bytes c + entryBytes\<rparr>)"

text \<open>
  The cache is read under the lock, the rows are cloned without it, and the entry is inserted under it:
  \<open>meanwhile\<close> is what other requests do to the cache in between.
\<close>

definition putMistralKVPrefixSnapshot :: "'x \<Rightarrow> ('x mistralKVPrefixCache \<Rightarrow> 'x mistralKVPrefixCache) \<Rightarrow> 'x KVCache \<Rightarrow> u32 list \<Rightarrow> nat \<Rightarrow>
    'x mistralKVPrefixCache \<Rightarrow> 'x mistralKVPrefixCache" where
  "putMistralKVPrefixSnapshot zero meanwhile src tokens epoch c =
    (let rowBytes = wrap64 (kvCacheBytes (layerCount src) (PerPosKDim src) (PerPosVDim src) 1 (kv_format src) + 4);
         key = mistralKVPrefixTokenKey tokens; entryBytes = int (length tokens) * rowBytes
     in if tokens = [] \<or> length tokens > kv_MaxLen src \<or> layerCount src = 0 then c
        else if \<not> mk_enabled c \<or> mk_epoch c \<noteq> epoch then c
        else if rowBytes \<le> 0 \<or> int (length tokens) > go_div (mk_maxBytes c) rowBytes then c
        else case map_of (mk_entries c) key of
            Some e \<Rightarrow>
              (if kvPrefixSnapshotCompatible src (me_cache e) (length tokens) then c\<lparr>mk_order := order_touch key (mk_order c)\<rparr>
               else case cloneKVPrefix zero src (length tokens) of None \<Rightarrow> meanwhile c
                 | Some snapshot \<Rightarrow> mistral_insert key snapshot entryBytes epoch (meanwhile c))
          | None \<Rightarrow> (case cloneKVPrefix zero src (length tokens) of None \<Rightarrow> meanwhile c
              | Some snapshot \<Rightarrow> mistral_insert key snapshot entryBytes epoch (meanwhile c)))"

section \<open>Reuse at the start of a chat request\<close>

definition chat_reuse :: "'x \<Rightarrow> nat \<Rightarrow> u32 list \<Rightarrow> u32 list \<Rightarrow> 'x kv_runner \<Rightarrow> nat \<times> 'x kv_runner" where
  "chat_reuse zero dst tokens static r =
    (let resident = prefixReuse r dst tokens;
         (reused, r) = reuseConversation zero dst tokens resident r;
         r = (if reused > resident then clearPrefixCache r else r)
     in if length static > reused then
          (let ((copied, hit), r) = mistralKVPrefixCacheReuse dst static r in
           if hit \<and> copied > reused then (copied, clearPrefixCache r) else (reused, r))
        else (reused, r))"

end
