(* ===== verification/Kv_Cache_Laws.thy ===== *)
theory Kv_Cache_Laws
  imports Kv_Cache
begin

text \<open>
  Reused rows are right: a cache \<open>holds\<close> the rows of a token sequence, copying and cloning preserve this, and
  so do all operations on the snapshots.
\<close>

section \<open>Rows\<close>

definition row :: "nat \<Rightarrow> 'x list \<Rightarrow> nat \<Rightarrow> 'x list" where
  "row w xs p = sublst xs (p * w) (Suc p * w)"

lemma row_bounds: "p < n \<Longrightarrow> n * w \<le> l \<Longrightarrow> Suc p * w \<le> (l :: nat)"
  by (meson Suc_leI mult_le_mono1 order_trans)

lemma row_index:
  fixes i w p a b :: nat
  assumes "i < w"
  shows "a * w \<le> p * w + i \<longleftrightarrow> a \<le> p" "p * w + i < b * w \<longleftrightarrow> p < b"
proof -
  have d: "(p * w + i) div w = p" using assms by simp
  show "a * w \<le> p * w + i \<longleftrightarrow> a \<le> p" using less_eq_div_iff_mult_less_eq [of w a "p * w + i"] assms d by simp
  show "p * w + i < b * w \<longleftrightarrow> p < b" using div_less_iff_less_mult [of w "p * w + i" b] assms d by simp
qed

lemma row_copy:
  assumes "a \<le> b" "b * w \<le> length d" "b * w \<le> length s" "Suc p * w \<le> length d"
  shows "row w (copy_into d (a * w) (sublst s (a * w) (b * w))) p = (if a \<le> p \<and> p < b then row w s p else row w d p)"
proof -
  have ab: "a * w \<le> b * w" using assms(1) by simp
  have len: "a * w + length (sublst s (a * w) (b * w)) = b * w" using ab assms(3) by simp
  have lc: "length (copy_into d (a * w) (sublst s (a * w) (b * w))) = length d"
    using len assms(2) by (intro length_copy_into) simp
  show ?thesis
  proof (rule nth_equalityI)
    show "length (row w (copy_into d (a * w) (sublst s (a * w) (b * w))) p) = length (if a \<le> p \<and> p < b then row w s p else row w d p)"
      using assms lc row_bounds [of p b w "length s"] by (auto simp: row_def)
  next
    fix i assume "i < length (row w (copy_into d (a * w) (sublst s (a * w) (b * w))) p)"
    then have i: "i < w" using lc assms(4) by (simp add: row_def)
    then have pi: "p * w + i < length d" using assms(4) by simp
    have "copy_into d (a * w) (sublst s (a * w) (b * w)) ! (p * w + i)
        = (if a * w \<le> p * w + i \<and> p * w + i < b * w then s ! (p * w + i) else d ! (p * w + i))"
      using len assms(2,3) pi by (subst nth_copy_into) (auto simp: sublst_def)
    then show "row w (copy_into d (a * w) (sublst s (a * w) (b * w))) p ! i = (if a \<le> p \<and> p < b then row w s p else row w d p) ! i"
      using i lc assms(3,4) row_bounds [of p b w "length s"] by (auto simp: row_def sublst_def row_index [OF i])
  qed
qed

section \<open>Well-formed caches and what they hold\<close>

definition kw :: "'x KVCache \<Rightarrow> nat" where "kw c = rowWidth (kv_format c) (PerPosKDim c)"
definition vw :: "'x KVCache \<Rightarrow> nat" where "vw c = rowWidth (kv_format c) (PerPosVDim c)"

definition kv_ok :: "'x KVCache \<Rightarrow> bool" where
  "kv_ok c \<longleftrightarrow> length (kv_V c) = layerCount c \<and> (\<forall>l < layerCount c. length (kv_K c ! l) = kv_MaxLen c * kw c \<and> length (kv_V c ! l) = kv_MaxLen c * vw c)"

text \<open>The rows depend on the format and the shape, on the layer and on the tokens up to the position.\<close>

type_synonym 'x rows = "kvFormat \<times> nat \<times> nat \<times> nat \<Rightarrow> nat \<Rightarrow> u32 list \<Rightarrow> 'x list \<times> 'x list"

definition shape :: "'x KVCache \<Rightarrow> kvFormat \<times> nat \<times> nat \<times> nat" where
  "shape c = (kv_format c, PerPosKDim c, PerPosVDim c, layerCount c)"

definition holds :: "'x rows \<Rightarrow> 'x KVCache \<Rightarrow> u32 list \<Rightarrow> bool" where
  "holds R c ts \<longleftrightarrow> kv_ok c \<and> (\<forall>l < layerCount c. \<forall>p < length ts. p < kv_MaxLen c \<longrightarrow>
     (row (kw c) (kv_K c ! l) p, row (vw c) (kv_V c ! l) p) = R (shape c) l (take (Suc p) ts))"

lemma holds_take: "holds R c ts \<Longrightarrow> holds R c (take n ts)"
  by (auto simp: holds_def min_def)

lemma holds_shared:
  assumes "holds R c us" "take n ts = take n us" "n \<le> length us"
  shows "holds R c (take n ts)"
  using holds_take [OF assms(1), of n] assms(2) by simp

lemma holds_Nil: "kv_ok c \<Longrightarrow> holds R c []"
  by (simp add: holds_def)

lemma holds_ok: "holds R c ts \<Longrightarrow> kv_ok c"
  by (simp add: holds_def)

lemma sharedTokenPrefix_spec: "sharedTokenPrefix as bs \<le> length as \<and> sharedTokenPrefix as bs \<le> length bs
    \<and> take (sharedTokenPrefix as bs) as = take (sharedTokenPrefix as bs) bs"
  by (induction as bs rule: sharedTokenPrefix.induct) auto

lemma shared_take: "n \<le> sharedTokenPrefix as bs \<Longrightarrow> take n as = take n bs"
  using sharedTokenPrefix_spec [of as bs] by (metis min.absorb1 take_take)

section \<open>Copying\<close>

lemma copy_layers_nth:
  "l < length dst \<Longrightarrow> length src = length dst \<Longrightarrow> copy_layers dst src a b ! l = copy_into (dst ! l) a (sublst (src ! l) a b)"
  by (simp add: copy_layers_def)

lemma copy_rows_fields [simp]:
  "kv_format (copy_rows dst src a b) = kv_format dst" "PerPosKDim (copy_rows dst src a b) = PerPosKDim dst"
  "PerPosVDim (copy_rows dst src a b) = PerPosVDim dst" "kv_MaxLen (copy_rows dst src a b) = kv_MaxLen dst"
  "kw (copy_rows dst src a b) = kw dst" "vw (copy_rows dst src a b) = vw dst"
  by (simp_all add: copy_rows_def Let_def kw_def vw_def)

lemma copy_rows_layers: "layerCount dst = layerCount src \<Longrightarrow> layerCount (copy_rows dst src a b) = layerCount dst"
  by (simp add: copy_rows_def Let_def layerCount_def copy_layers_def)

lemma copy_rows_spec:
  assumes "kv_ok dst" "kv_ok src" "shape dst = shape src" "a \<le> b" "b \<le> kv_MaxLen dst" "b \<le> kv_MaxLen src"
  defines "c \<equiv> copy_rows dst src a b"
  shows "kv_ok c" "shape c = shape dst"
    "l < layerCount dst \<Longrightarrow> p < kv_MaxLen dst \<Longrightarrow> (row (kw c) (kv_K c ! l) p, row (vw c) (kv_V c ! l) p) =
       (if a \<le> p \<and> p < b then (row (kw src) (kv_K src ! l) p, row (vw src) (kv_V src ! l) p)
        else (row (kw dst) (kv_K dst ! l) p, row (vw dst) (kv_V dst ! l) p))"
proof -
  have sh: "kv_format dst = kv_format src" "PerPosKDim dst = PerPosKDim src" "PerPosVDim dst = PerPosVDim src" "layerCount dst = layerCount src"
    using assms(3) by (simp_all add: shape_def)
  then have w: "kw src = kw dst" "vw src = vw dst" by (simp_all add: kw_def vw_def)
  have lc: "layerCount c = layerCount dst" by (simp add: c_def copy_rows_layers sh(4))
  have K: "kv_K c ! l = copy_into (kv_K dst ! l) (a * kw dst) (sublst (kv_K src ! l) (a * kw dst) (b * kw dst))"
    and V: "kv_V c ! l = copy_into (kv_V dst ! l) (a * vw dst) (sublst (kv_V src ! l) (a * vw dst) (b * vw dst))"
    if "l < layerCount dst" for l
    using that assms(1,2) sh(4) by (simp_all add: c_def copy_rows_def Let_def copy_layers_nth kw_def vw_def layerCount_def kv_ok_def)
  have len: "length (kv_K dst ! l) = kv_MaxLen dst * kw dst" "length (kv_K src ! l) = kv_MaxLen src * kw dst"
    "length (kv_V dst ! l) = kv_MaxLen dst * vw dst" "length (kv_V src ! l) = kv_MaxLen src * vw dst" if "l < layerCount dst" for l
    using that assms(1,2) sh(4) w by (simp_all add: kv_ok_def)
  have fit: "a * x \<le> b * x" "b * x \<le> kv_MaxLen dst * x" "b * x \<le> kv_MaxLen src * x" for x
    using assms(4-6) by simp_all
  show "shape c = shape dst" using lc by (simp add: shape_def c_def)
  have "length (kv_V c) = layerCount dst" using assms(1,2) sh(4) by (simp add: c_def copy_rows_def Let_def copy_layers_def kv_ok_def)
  then show "kv_ok c" using lc K V len fit by (auto simp: kv_ok_def c_def length_copy_into)
  show "(row (kw c) (kv_K c ! l) p, row (vw c) (kv_V c ! l) p) =
       (if a \<le> p \<and> p < b then (row (kw src) (kv_K src ! l) p, row (vw src) (kv_V src ! l) p)
        else (row (kw dst) (kv_K dst ! l) p, row (vw dst) (kv_V dst ! l) p))" if l: "l < layerCount dst" and p: "p < kv_MaxLen dst"
    using row_copy [OF assms(4), of "kw dst" "kv_K dst ! l" "kv_K src ! l" p] row_copy [OF assms(4), of "vw dst" "kv_V dst ! l" "kv_V src ! l" p]
      K [OF l] V [OF l] len [OF l] fit row_bounds [OF p order_refl] w by (simp add: c_def)
qed

text \<open>Rows \<open>[a, b)\<close> from a cache that holds the sequence, on top of the rows below \<open>a\<close>.\<close>

lemma holds_copy:
  assumes "holds R dst (take a ts)" "holds R src ts" "shape dst = shape src" "a \<le> b" "b \<le> kv_MaxLen dst" "b \<le> kv_MaxLen src" "b \<le> length ts"
  shows "holds R (copy_rows dst src a b) (take b ts)"
proof -
  note spec = copy_rows_spec [OF holds_ok [OF assms(1)] holds_ok [OF assms(2)] assms(3-6)]
  have lc: "layerCount (copy_rows dst src a b) = layerCount dst" "layerCount src = layerCount dst"
    using spec(2) assms(3) by (simp_all add: shape_def)
  show ?thesis
    unfolding holds_def
  proof (intro conjI allI impI)
    fix l p assume l: "l < layerCount (copy_rows dst src a b)" and p: "p < length (take b ts)" "p < kv_MaxLen (copy_rows dst src a b)"
    have "Suc p \<le> b" using p(1) by simp
    then have "take (Suc p) (take b ts) = take (Suc p) ts" by (simp add: min_absorb1)
    moreover have "take (Suc p) (take a ts) = take (Suc p) ts" if "p < a" using that by (simp add: min_absorb1)
    ultimately show "(row (kw (copy_rows dst src a b)) (kv_K (copy_rows dst src a b) ! l) p, row (vw (copy_rows dst src a b)) (kv_V (copy_rows dst src a b) ! l) p)
        = R (shape (copy_rows dst src a b)) l (take (Suc p) (take b ts))"
      using spec(2) spec(3) [of l p] l p lc assms unfolding holds_def by (cases "p < a") (auto simp del: copy_rows_fields(5,6) simp: not_less)
  qed (rule spec(1))
qed

lemma compatible_shape: "kvPrefixSnapshotCompatible dst src n \<Longrightarrow> shape dst = shape src \<and> n \<le> kv_MaxLen dst \<and> n \<le> kv_MaxLen src"
  by (auto simp: kvPrefixSnapshotCompatible_def shape_def)

lemma NewKVCache_ok: "kv_ok (NewKVCache zero f layers k v n)" "shape (NewKVCache zero f layers k v n) = (f, k, v, layers)"
  "kv_MaxLen (NewKVCache zero f layers k v n) = n"
  by (simp_all add: NewKVCache_def kv_ok_def shape_def layerCount_def kw_def vw_def)

lemma cloneKVPrefix_holds:
  assumes "holds R src ts" "cloneKVPrefix zero src n = Some c" "n \<le> length ts" "n \<le> kv_MaxLen src"
  shows "holds R c (take n ts) \<and> shape c = shape src \<and> kv_MaxLen c = n"
proof -
  let ?new = "NewKVCache zero (kv_format src) (layerCount src) (PerPosKDim src) (PerPosVDim src) n"
  have sh: "shape ?new = shape src" by (simp add: NewKVCache_ok shape_def [of src])
  have c: "c = copy_rows ?new src 0 n"
    using assms(2,4) NewKVCache_ok(3) [of zero "kv_format src" "layerCount src" "PerPosKDim src" "PerPosVDim src" n]
    by (auto simp: cloneKVPrefix_def copyKVPrefix_def Let_def split: if_splits)
  have n: "kv_MaxLen ?new = n" by (rule NewKVCache_ok(3))
  have "holds R (copy_rows ?new src 0 n) (take n ts)"
    by (rule holds_copy [OF _ assms(1) sh]) (use n assms in \<open>simp_all add: holds_Nil NewKVCache_ok(1)\<close>)
  moreover have "shape (copy_rows ?new src 0 n) = shape src"
    using copy_rows_spec(2) [OF NewKVCache_ok(1) holds_ok [OF assms(1)] sh, of 0 n] n assms(4) sh by simp
  ultimately show ?thesis using c n by simp
qed

section \<open>Conversation snapshots\<close>

definition snapshot_ok :: "'x rows \<Rightarrow> 'x conversationSnapshot \<Rightarrow> bool" where
  "snapshot_ok R e \<longleftrightarrow> holds R (cs_cache e) (cs_tokens e)"

definition conversation_limit :: "'x conversationCache \<Rightarrow> int" where
  "conversation_limit cc = (if cc_limit cc = 0 then DefaultConversationCacheBytes else cc_limit cc)"

definition accounted :: "'x conversationCache \<Rightarrow> bool" where
  "accounted cc \<longleftrightarrow> cc_bytes cc = sum_list (map cs_bytes (cc_entries cc))"

definition conversations_ok :: "'x rows \<Rightarrow> 'x conversationCache \<Rightarrow> bool" where
  "conversations_ok R cc \<longleftrightarrow> (\<forall>e \<in> set (cc_entries cc). snapshot_ok R e) \<and> accounted cc \<and> length (cc_entries cc) \<le> 4
     \<and> (cc_entries cc \<noteq> [] \<longrightarrow> cc_bytes cc \<le> conversation_limit cc)"

lemma entry_remove_sum: "i < length es \<Longrightarrow> sum_list (map f (entry_remove i es)) = sum_list (map f es) - (f (es ! i) :: int)"
proof -
  assume "i < length es"
  then have "sum_list (map f es) = sum_list (map f (take i es @ es ! i # drop (Suc i) es))" by (simp flip: id_take_nth_drop)
  then show ?thesis by (simp add: entry_remove_def)
qed

lemma entry_remove_set: "set (entry_remove i es) \<subseteq> set es"
  by (auto simp: entry_remove_def dest: in_set_takeD in_set_dropD)

lemma entry_remove_length: "i < length es \<Longrightarrow> length (entry_remove i es) = length es - 1"
  by (simp add: entry_remove_def)

lemma entry_touch_facts:
  assumes "i < length es"
  shows "set (entry_touch i es) \<subseteq> set es" "length (entry_touch i es) = length es"
    "sum_list (map f (entry_touch i es)) = (sum_list (map f es) :: int)"
  using assms entry_remove_set [of i es] entry_remove_length [OF assms] entry_remove_sum [OF assms, of f]
  by (auto simp: entry_touch_def)

lemma covering_entry_less: "covering_entry c kept es n = Some i \<Longrightarrow> i < n"
  by (induction n) (auto split: if_splits)

text \<open>What removing entries keeps: the others, the accounts, the limit.\<close>

definition trimmed :: "'x conversationCache \<Rightarrow> 'x conversationCache \<Rightarrow> bool" where
  "trimmed cc cc' \<longleftrightarrow> set (cc_entries cc') \<subseteq> set (cc_entries cc) \<and> length (cc_entries cc') \<le> length (cc_entries cc)
     \<and> cc_limit cc' = cc_limit cc \<and> (accounted cc \<longrightarrow> accounted cc')"

lemma trimmed_refl [simp]: "trimmed cc cc"
  by (simp add: trimmed_def)

lemma trimmed_trans: "trimmed a b \<Longrightarrow> trimmed b c \<Longrightarrow> trimmed a c"
  by (auto simp: trimmed_def)

lemma trimmed_remove:
  assumes "i < length (cc_entries cc)"
  shows "trimmed cc (cc\<lparr>cc_bytes := cc_bytes cc - cs_bytes (cc_entries cc ! i), cc_entries := entry_remove i (cc_entries cc)\<rparr>)"
  using assms entry_remove_set [of i "cc_entries cc"]
  by (auto simp: trimmed_def accounted_def entry_remove_sum entry_remove_length)

lemma drop_subsumed_trimmed: "i \<le> length (cc_entries cc) \<Longrightarrow> trimmed cc (drop_subsumed c kept i cc)"
proof (induction i arbitrary: cc)
  case (Suc i)
  let ?cc = "cc\<lparr>cc_bytes := cc_bytes cc - cs_bytes (cc_entries cc ! i), cc_entries := entry_remove i (cc_entries cc)\<rparr>"
  have "trimmed cc ?cc" using Suc.prems by (intro trimmed_remove) simp
  moreover have "trimmed ?cc (drop_subsumed c kept i ?cc)" using Suc.prems by (intro Suc.IH) (simp add: entry_remove_length)
  ultimately show ?case using Suc by (auto simp: Let_def intro: trimmed_trans)
qed simp

lemma evict_conversations_spec:
  "trimmed cc (evict_conversations limit bytes cc) \<and> (cc_entries (evict_conversations limit bytes cc) = []
     \<or> length (cc_entries (evict_conversations limit bytes cc)) < 4 \<and> cc_bytes (evict_conversations limit bytes cc) + bytes \<le> limit)"
proof (induction limit bytes cc rule: evict_conversations.induct)
  case (1 limit bytes cc)
  let ?cc = "cc\<lparr>cc_bytes := cc_bytes cc - cs_bytes (hd (cc_entries cc)), cc_entries := entry_remove 0 (cc_entries cc)\<rparr>"
  show ?case
  proof (cases "cc_entries cc \<noteq> [] \<and> (length (cc_entries cc) \<ge> 4 \<or> cc_bytes cc + bytes > limit)")
    case True
    then have "trimmed cc ?cc" using trimmed_remove [of 0 cc] by (simp add: hd_conv_nth)
    moreover have "evict_conversations limit bytes cc = evict_conversations limit bytes ?cc"
      using True by (subst evict_conversations.simps) simp
    ultimately show ?thesis using 1 [OF True] trimmed_trans by metis
  next
    case False
    then have "evict_conversations limit bytes cc = cc" by (subst evict_conversations.simps) (rule if_not_P)
    then show ?thesis using False by auto
  qed
qed

lemma retain_snapshot_ok:
  assumes "conversations_ok R cc" "holds R c ts" "n \<le> length ts" "n \<le> kv_MaxLen c" "0 \<le> bytes" "bytes \<le> limit" "limit = conversation_limit cc"
  shows "conversations_ok R (retain_snapshot zero c (take n ts) bytes limit cc)
    \<and> cc_limit (retain_snapshot zero c (take n ts) bytes limit cc) = cc_limit cc"
proof (cases "covering_entry c (take n ts) (cc_entries cc) (length (cc_entries cc))")
  case (Some i)
  from covering_entry_less [OF this] assms(1) show ?thesis using Some entry_touch_facts [of i "cc_entries cc"]
    by (auto simp: retain_snapshot_def conversations_ok_def accounted_def conversation_limit_def)
next
  case None
  define cc' where "cc' = evict_conversations limit bytes (drop_subsumed c (take n ts) (length (cc_entries cc)) cc)"
  have t: "trimmed cc cc'" "cc_entries cc' = [] \<or> length (cc_entries cc') < 4 \<and> cc_bytes cc' + bytes \<le> limit"
    using evict_conversations_spec [of _ limit bytes] drop_subsumed_trimmed [of "length (cc_entries cc)" cc c "take n ts"] trimmed_trans
    unfolding cc'_def by blast+
  have len: "length (take n ts) = n" using assms(3) by simp
  have ok: "conversations_ok R cc'" using t assms(1,5,7) by (auto simp: conversations_ok_def trimmed_def conversation_limit_def)
  have e: "retain_snapshot zero c (take n ts) bytes limit cc = (case cloneKVPrefix zero c n of None \<Rightarrow> cc'
      | Some snapshot \<Rightarrow> cc'\<lparr>cc_entries := cc_entries cc' @ [\<lparr>cs_tokens = take n ts, cs_cache = snapshot, cs_bytes = bytes\<rparr>],
             cc_bytes := cc_bytes cc' + bytes\<rparr>)"
    unfolding retain_snapshot_def None len cc'_def by (simp add: Let_def)
  show ?thesis
  proof (cases "cloneKVPrefix zero c n")
    case (Some snapshot)
    let ?e = "\<lparr>cs_tokens = take n ts, cs_cache = snapshot, cs_bytes = bytes\<rparr>"
    have "snapshot_ok R ?e" using cloneKVPrefix_holds [OF assms(2) Some assms(3,4)] by (simp add: snapshot_ok_def)
    moreover have "cc_bytes cc' + bytes \<le> limit" using t assms(1,6) by (auto simp: trimmed_def accounted_def conversations_ok_def)
    moreover have "length (cc_entries cc') < 4" using t(2) by auto
    ultimately show ?thesis using ok t(1) assms(7) unfolding e Some
      by (auto simp: conversations_ok_def trimmed_def accounted_def conversation_limit_def)
  next
    case n: None
    then show ?thesis using ok t(1) unfolding e n by (simp add: trimmed_def)
  qed
qed

section \<open>Snapshots of static prefixes\<close>

lemma le_u32_inject: "le_u32 a = le_u32 b \<longleftrightarrow> a = b"
proof
  assume "le_u32 a = le_u32 b"
  then have "le_dec (le_enc 4 (unat a)) = le_dec (le_enc 4 (unat b))" by (simp add: le_u32_def)
  moreover have "unat a < 256 ^ 4" "unat b < 256 ^ 4" using unsigned_less [of a] unsigned_less [of b] by simp_all
  ultimately show "a = b" by (simp add: le_dec_enc word_unat_eq_iff)
qed simp

lemma concat_le_u32_inject: "concat (map le_u32 as) = concat (map le_u32 bs) \<longleftrightarrow> as = bs"
proof (induction as arbitrary: bs)
  case Nil
  then show ?case by (cases bs) (auto simp flip: length_0_conv)
next
  case (Cons a as)
  show ?case
  proof (cases bs)
    case Nil
    then show ?thesis by (auto simp flip: length_0_conv)
  next
    case b: (Cons b bs')
    have "le_u32 a @ concat (map le_u32 as) = le_u32 b @ concat (map le_u32 bs') \<longleftrightarrow>
        le_u32 a = le_u32 b \<and> concat (map le_u32 as) = concat (map le_u32 bs')" by (rule append_eq_append_conv) simp
    then show ?thesis using Cons.IH by (simp add: b le_u32_inject)
  qed
qed

lemma TokenKey_inject: "mistralKVPrefixTokenKey as = mistralKVPrefixTokenKey bs \<longleftrightarrow> as = bs"
  unfolding mistralKVPrefixTokenKey_def by (metis bytes_of_string_of_bytes concat_le_u32_inject)

definition prefixes_ok :: "'x rows \<Rightarrow> 'x mistralKVPrefixCache \<Rightarrow> bool" where
  "prefixes_ok R c \<longleftrightarrow> gomap_wf (mk_entries c) \<and>
     (\<forall>ts e. map_of (mk_entries c) (mistralKVPrefixTokenKey ts) = Some e \<longrightarrow> holds R (me_cache e) ts)"

lemma prefixes_ok_fewer:
  assumes "prefixes_ok R c" "gomap_wf (mk_entries c')" "\<And>k e. map_of (mk_entries c') k = Some e \<Longrightarrow> map_of (mk_entries c) k = Some e"
  shows "prefixes_ok R c'"
  using assms unfolding prefixes_ok_def by blast

lemma map_of_delete: "map_of (AList.delete k m) k' = (if k = k' then None else map_of m k')"
  by (simp add: delete_conv')

lemma evictOldest_ok: "prefixes_ok R c \<Longrightarrow> prefixes_ok R (evictOldest c)"
proof -
  assume ok: "prefixes_ok R c"
  then have "gomap_wf (mk_entries c)" by (simp add: prefixes_ok_def)
  then show ?thesis
    by (intro prefixes_ok_fewer [OF ok]) (auto simp: evictOldest_def map_of_delete split: list.splits option.splits if_splits)
qed

lemma evict_prefixes_ok: "prefixes_ok R c \<Longrightarrow> prefixes_ok R (evict_prefixes n c)"
proof (induction n c rule: evict_prefixes.induct)
  case (1 n c)
  show ?case
  proof (cases "(length (mk_order c) \<ge> 8 \<or> mk_bytes c > mk_maxBytes c - n) \<and> mk_order c \<noteq> []")
    case True
    then have "evict_prefixes n c = evict_prefixes n (evictOldest c)" by (subst evict_prefixes.simps) (rule if_P)
    then show ?thesis using 1(1) [OF True] evictOldest_ok [OF 1(2)] by simp
  next
    case False
    then have "evict_prefixes n c = c" by (subst evict_prefixes.simps) (rule if_not_P)
    then show ?thesis using 1(2) by simp
  qed
qed

lemma mistral_insert_ok:
  assumes "prefixes_ok R c" "holds R snapshot ts"
  shows "prefixes_ok R (mistral_insert (mistralKVPrefixTokenKey ts) snapshot n epoch c)"
proof -
  let ?key = "mistralKVPrefixTokenKey ts"
  define c1 where "c1 = (case map_of (mk_entries c) ?key of None \<Rightarrow> c
     | Some old \<Rightarrow> c\<lparr>mk_bytes := mk_bytes c - me_bytes old, mk_order := remove1 ?key (mk_order c), mk_entries := AList.delete ?key (mk_entries c)\<rparr>)"
  have "prefixes_ok R c1" by (rule prefixes_ok_fewer [OF assms(1)])
      (use assms(1) in \<open>auto simp: c1_def map_of_delete prefixes_ok_def split: option.splits if_splits\<close>)
  then have ok: "prefixes_ok R (evict_prefixes n c1)" by (rule evict_prefixes_ok)
  show ?thesis
    unfolding mistral_insert_def c1_def [symmetric] Let_def
    using assms ok by (auto simp: prefixes_ok_def update_conv' TokenKey_inject split: if_splits)
qed

lemma putMistralKVPrefixSnapshot_ok:
  assumes "prefixes_ok R c" "prefixes_ok R (meanwhile c)" "holds R src ts" "tokens = take (length tokens) ts"
  shows "prefixes_ok R (putMistralKVPrefixSnapshot zero meanwhile src tokens epoch c)"
proof -
  have len: "length tokens \<le> length ts" using assms(4) by (metis length_take min.cobounded1)
  have ins: "prefixes_ok R (mistral_insert (mistralKVPrefixTokenKey tokens) snapshot n epoch (meanwhile c))"
    if "cloneKVPrefix zero src (length tokens) = Some snapshot" "length tokens \<le> kv_MaxLen src" for snapshot n
    using mistral_insert_ok [OF assms(2)] cloneKVPrefix_holds [OF assms(3) that(1) len that(2)] assms(4) by metis
  have touch: "prefixes_ok R (c\<lparr>mk_order := os\<rparr>)" for os using assms(1) by (simp add: prefixes_ok_def)
  show ?thesis
    using assms(1,2) ins touch unfolding putMistralKVPrefixSnapshot_def Let_def by (auto split: option.split)
qed

text \<open>A snapshot begun before the cache was cleared, disabled or enabled again is never inserted.\<close>

lemma mistral_insert_fenced: "mk_epoch c \<noteq> epoch \<Longrightarrow> mistral_insert key snapshot n epoch c = c"
  by (simp add: mistral_insert_def)

section \<open>Reuse\<close>

definition runner_ok :: "'x rows \<Rightarrow> 'x kv_runner \<Rightarrow> bool" where
  "runner_ok R r \<longleftrightarrow> (\<forall>p. kv_ok (kr_store r p)) \<and> (\<forall>p. kr_prefix r = Some p \<longrightarrow> holds R (kr_store r p) (kr_tokens r))
     \<and> conversations_ok R (kr_conversations r) \<and> prefixes_ok R (kr_mistral r)"

lemma retain_frame:
  "kr_store (retainDisplacedConversation zero tokens r) = kr_store r" "kr_prefix (retainDisplacedConversation zero tokens r) = kr_prefix r"
  "kr_tokens (retainDisplacedConversation zero tokens r) = kr_tokens r" "kr_mistral (retainDisplacedConversation zero tokens r) = kr_mistral r"
  by (simp_all add: retainDisplacedConversation_def Let_def split: option.split)

lemma retain_ok:
  assumes "runner_ok R r"
  shows "runner_ok R (retainDisplacedConversation zero tokens r)"
proof (cases "kr_prefix r")
  case None
  then show ?thesis using assms by (simp add: retainDisplacedConversation_def)
next
  case (Some p)
  let ?c = "kr_store r p" and ?cc = "kr_conversations r"
  let ?rb = "wrap64 (kvCacheBytes (layerCount ?c) (PerPosKDim ?c) (PerPosVDim ?c) 1 (kv_format ?c) + 4)"
  let ?n = "nat (min (int (length (kr_tokens r))) (conversation_limit ?cc div ?rb))"
  have h: "holds R ?c (kr_tokens r)" using assms Some by (simp add: runner_ok_def)
  have "conversations_ok R (retain_snapshot zero ?c (take ?n (kr_tokens r)) (int ?n * ?rb) (conversation_limit ?cc) ?cc)"
    if sup: "cc_limit ?cc \<ge> 0" and fit: "length (kr_tokens r) \<le> kv_MaxLen ?c" and rb: "?rb > 0"
  proof (rule conjunct1, rule retain_snapshot_ok [OF _ h])
    have l: "0 \<le> conversation_limit ?cc" using sup by (simp add: conversation_limit_def DefaultConversationCacheBytes_def)
    then have "int ?n = min (int (length (kr_tokens r))) (conversation_limit ?cc div ?rb)" using rb by (simp add: pos_imp_zdiv_nonneg_iff)
    then have "int ?n * ?rb \<le> conversation_limit ?cc div ?rb * ?rb" using rb by simp
    also have "\<dots> \<le> conversation_limit ?cc" using div_mult_mod_eq [of "conversation_limit ?cc" ?rb] pos_mod_sign [OF rb, of "conversation_limit ?cc"] by linarith
    finally show "int ?n * ?rb \<le> conversation_limit ?cc" .
    show "conversations_ok R ?cc" using assms by (simp add: runner_ok_def)
  qed (use fit rb in auto)
  then show ?thesis using assms Some
    by (auto simp: retainDisplacedConversation_def Let_def runner_ok_def conversationCacheSupported_def not_less conversation_limit_def not_le)
qed

lemma best_entry_spec:
  "best_entry c tokens es n b = b \<or> (\<exists>m i. best_entry c tokens es n b = (m, Some i) \<and> i < n \<and> fst b < m
     \<and> m \<le> sharedTokenPrefix tokens (cs_tokens (es ! i)) \<and> m \<le> length tokens - 1 \<and> kvPrefixSnapshotCompatible c (cs_cache (es ! i)) m)"
proof (induction n arbitrary: b)
  case (Suc n)
  define m where "m = min (sharedTokenPrefix tokens (cs_tokens (es ! n))) (length tokens - 1)"
  have e: "best_entry c tokens es (Suc n) b = (if m \<ge> 32 \<and> m > fst b \<and> kvPrefixSnapshotCompatible c (cs_cache (es ! n)) m
      then (if m = length tokens - 1 then (m, Some n) else best_entry c tokens es n (m, Some n)) else best_entry c tokens es n b)"
    by (simp add: m_def Let_def)
  have m: "m \<le> sharedTokenPrefix tokens (cs_tokens (es ! n))" "m \<le> length tokens - 1" by (simp_all add: m_def)
  show ?case
  proof (cases "m \<ge> 32 \<and> m > fst b \<and> kvPrefixSnapshotCompatible c (cs_cache (es ! n)) m")
    case True
    then show ?thesis using Suc.IH [of "(m, Some n)"] m unfolding e by (cases "m = length tokens - 1") (auto simp: less_Suc_eq)
  next
    case False
    then have "best_entry c tokens es (Suc n) b = best_entry c tokens es n b" unfolding e by (rule if_not_P)
    then show ?thesis using Suc.IH [of b] by (auto simp: less_Suc_eq)
  qed
qed simp

lemma reuseConversation_ok:
  assumes ok: "runner_ok R r" and res: "holds R (kr_store r dst) (take resident tokens)" "resident \<le> length tokens" "resident \<le> kv_MaxLen (kr_store r dst)"
    and r': "reuseConversation zero dst tokens resident r = (n, r')"
  shows "holds R (kr_store r' dst) (take n tokens)" "resident \<le> n" "n \<le> length tokens" "n \<le> kv_MaxLen (kr_store r' dst)"
    "n = resident \<Longrightarrow> runner_ok R r'" "runner_ok R (clearPrefixCache r')"
proof -
  let ?es = "cc_entries (kr_conversations r)"
  have "(holds R (kr_store r' dst) (take n tokens) \<and> resident \<le> n \<and> n \<le> length tokens \<and> n \<le> kv_MaxLen (kr_store r' dst))
      \<and> (n = resident \<longrightarrow> runner_ok R r') \<and> runner_ok R (clearPrefixCache r')"
  proof (cases "conversationCacheSupported r")
    case False
    then have "n = resident" "r' = r" using r' by (auto simp: reuseConversation_def)
    then show ?thesis using ok res by (simp add: runner_ok_def clearPrefixCache_def)
  next
    case sup: True
    consider (none) "best_entry (kr_store r dst) tokens ?es (length ?es) (resident, None) = (resident, None)"
      | (best) m i where "best_entry (kr_store r dst) tokens ?es (length ?es) (resident, None) = (m, Some i)" "i < length ?es" "resident < m"
        "m \<le> sharedTokenPrefix tokens (cs_tokens (?es ! i))" "m \<le> length tokens - 1" "kvPrefixSnapshotCompatible (kr_store r dst) (cs_cache (?es ! i)) m"
      using best_entry_spec [of "kr_store r dst" tokens ?es "length ?es" "(resident, None)"] by auto
    then show ?thesis
    proof cases
      case none
      then have "n = resident" "r' = retainDisplacedConversation zero tokens r" using r' sup by (auto simp: reuseConversation_def)
      then show ?thesis using retain_ok [OF ok] res by (simp add: retain_frame runner_ok_def clearPrefixCache_def)
    next
      case best
      define r1 where "r1 = r\<lparr>kr_conversations := (kr_conversations r)\<lparr>cc_entries := entry_touch i ?es\<rparr>\<rparr>"
      define a where "a = (if kr_prefix r = Some dst then min (min resident m) (sharedTokenPrefix tokens (kr_tokens r)) else 0)"
      define r2 where "r2 = retainDisplacedConversation zero tokens r1"
      let ?src = "cs_cache (?es ! i)" and ?dst = "kr_store r dst"
      have "runner_ok R r1" using ok entry_touch_facts [OF best(2)]
        by (auto simp: r1_def runner_ok_def conversations_ok_def accounted_def conversation_limit_def)
      then have ok2: "runner_ok R r2" and st2: "kr_store r2 = kr_store r" "kr_prefix r2 = kr_prefix r"
        using retain_ok by (auto simp: r2_def retain_frame r1_def)
      have am: "a \<le> m" by (auto simp: a_def min_le_iff_disj)
      note cp = compatible_shape [OF best(6)]
      have "snapshot_ok R (?es ! i)" using ok best(2) by (auto simp: runner_ok_def conversations_ok_def)
      then have src: "holds R ?src (take m tokens)"
        using holds_shared [of R ?src "cs_tokens (?es ! i)" m tokens] shared_take [OF best(4)] best(4)
          sharedTokenPrefix_spec [of tokens "cs_tokens (?es ! i)"] by (simp add: snapshot_ok_def)
      have dst: "holds R ?dst (take a tokens)"
      proof (cases "kr_prefix r = Some dst")
        case True
        then have "holds R ?dst (kr_tokens r)" using ok by (simp add: runner_ok_def)
        then show ?thesis using True sharedTokenPrefix_spec [of tokens "kr_tokens r"]
          by (intro holds_shared [of R ?dst "kr_tokens r"] shared_take) (auto simp: a_def)
      next
        case False
        then show ?thesis using ok by (simp add: a_def runner_ok_def holds_Nil)
      qed
      obtain cache where cache: "copyConversationKVRange ?dst ?src a m = (m, cache)" "holds R cache (take m tokens)" "kv_MaxLen cache = kv_MaxLen ?dst"
      proof (cases "a = m")
        case True
        then show thesis using best(6) dst cp by (intro that [of ?dst]) (simp_all add: copyConversationKVRange_def)
      next
        case False
        have "holds R (copy_rows ?dst ?src a m) (take m (take m tokens))"
          using holds_copy [of R ?dst a "take m tokens" ?src m] dst src cp am best(5) by (simp add: min_absorb1)
        then show thesis using False am best(6) by (intro that [of "copy_rows ?dst ?src a m"]) (simp_all add: copyConversationKVRange_def)
      qed
      have "reuseConversation zero dst tokens resident r = (let (copied, cache) = copyConversationKVRange (kr_store r2 dst) ?src a m in
          if copied \<noteq> m then (resident, r2) else (m, r2\<lparr>kr_store := (kr_store r2)(dst := cache)\<rparr>))"
        unfolding reuseConversation_def r2_def r1_def a_def Let_def by (simp add: sup best(1))
      then have e: "n = m" "r' = r2\<lparr>kr_store := (kr_store r)(dst := cache)\<rparr>"
        using r' by (simp_all add: st2(1) cache(1))
      have "kv_ok cache" using cache(2) by (rule holds_ok)
      then have "runner_ok R (clearPrefixCache r')" using ok2 by (simp add: e(2) runner_ok_def clearPrefixCache_def st2(1))
      moreover have "holds R (kr_store r' dst) (take n tokens)" "kv_MaxLen (kr_store r' dst) = kv_MaxLen ?dst"
        using cache by (simp_all add: e)
      ultimately show ?thesis using best(3,5) cp by (simp add: e(1))
    qed
  qed
  then show "holds R (kr_store r' dst) (take n tokens)" "resident \<le> n" "n \<le> length tokens" "n \<le> kv_MaxLen (kr_store r' dst)"
    "n = resident \<Longrightarrow> runner_ok R r'" "runner_ok R (clearPrefixCache r')" by blast+
qed

lemma mistralReuse_ok:
  assumes ok: "runner_ok R r" and r': "mistralKVPrefixCacheReuse dst static r = ((copied, hit), r')"
  shows "if hit then copied = length static \<and> copied \<le> kv_MaxLen (kr_store r' dst) \<and> holds R (kr_store r' dst) static \<and> runner_ok R (clearPrefixCache r')
    else runner_ok R r' \<and> kr_store r' = kr_store r"
proof (cases "\<exists>entry. static \<noteq> [] \<and> mk_enabled (kr_mistral r) \<and> map_of (mk_entries (kr_mistral r)) (mistralKVPrefixTokenKey static) = Some entry
    \<and> kvPrefixSnapshotCompatible (kr_store r dst) (me_cache entry) (length static)")
  case True
  then obtain entry where e: "static \<noteq> []" "mk_enabled (kr_mistral r)" "map_of (mk_entries (kr_mistral r)) (mistralKVPrefixTokenKey static) = Some entry"
    "kvPrefixSnapshotCompatible (kr_store r dst) (me_cache entry) (length static)" by blast
  note cp = compatible_shape [OF e(4)]
  have src: "holds R (me_cache entry) static" using ok e(3) by (simp add: runner_ok_def prefixes_ok_def)
  have "kv_ok (kr_store r dst)" using ok by (simp add: runner_ok_def)
  then have h: "holds R (copy_rows (kr_store r dst) (me_cache entry) 0 (length static)) static"
    using holds_copy [of R "kr_store r dst" 0 static "me_cache entry" "length static"] src cp by (simp add: holds_Nil)
  have "copyKVPrefix (kr_store r dst) (me_cache entry) (length static) = (length static, copy_rows (kr_store r dst) (me_cache entry) 0 (length static))"
    using cp e(1,4) by (auto simp: copyKVPrefix_def kvPrefixSnapshotCompatible_def min_def Let_def)
  then have "hit" "copied = length static" "r' = r\<lparr>kr_mistral := (kr_mistral r)\<lparr>mk_order := order_touch (mistralKVPrefixTokenKey static) (mk_order (kr_mistral r)), mk_hits := mk_hits (kr_mistral r) + 1\<rparr>,
      kr_store := (kr_store r)(dst := copy_rows (kr_store r dst) (me_cache entry) 0 (length static))\<rparr>"
    using r' e by (auto simp: mistralKVPrefixCacheReuse_def Let_def)
  then show ?thesis using ok h cp holds_ok [OF h] by (auto simp: runner_ok_def clearPrefixCache_def prefixes_ok_def)
next
  case False
  then have "\<not> hit" "r' = r \<or> r' = r\<lparr>kr_mistral := (kr_mistral r)\<lparr>mk_misses := mk_misses (kr_mistral r) + 1\<rparr>\<rparr>"
    using r' by (auto simp: mistralKVPrefixCacheReuse_def Let_def split: if_splits option.splits)
  then show ?thesis using ok by (auto simp: runner_ok_def prefixes_ok_def)
qed

end
