(* ===== verification/Kv_Cache_Contract.thy ===== *)
theory Kv_Cache_Contract
  imports Kv_Cache_Laws "HOL-Library.Code_Target_Nat"
begin

text \<open>
  What a chat request may rely on when it skips the beginning of its prompt.
\<close>

section \<open>The resident prefix\<close>

lemma prefixReuse_ok:
  assumes "runner_ok R r"
  shows "holds R (kr_store r dst) (take (prefixReuse r dst tokens) tokens)"
    and "prefixReuse r dst tokens \<le> length tokens"
    and "prefixReuse r dst tokens \<le> kv_MaxLen (kr_store r dst)"
proof -
  show "holds R (kr_store r dst) (take (prefixReuse r dst tokens) tokens)"
  proof (cases "kr_prefix r = Some dst")
    case True
    then have "holds R (kr_store r dst) (kr_tokens r)" using assms by (simp add: runner_ok_def)
    then show ?thesis using sharedTokenPrefix_spec [of tokens "kr_tokens r"]
      by (intro holds_shared [of R _ "kr_tokens r"] shared_take) (auto simp: prefixReuse_def True)
  next
    case False
    then show ?thesis using assms by (simp add: prefixReuse_def runner_ok_def holds_Nil)
  qed
  show "prefixReuse r dst tokens \<le> length tokens" "prefixReuse r dst tokens \<le> kv_MaxLen (kr_store r dst)"
    using sharedTokenPrefix_spec [of tokens "kr_tokens r"] by (auto simp: prefixReuse_def min_le_iff_disj)
qed

section \<open>The property\<close>

text \<open>
  C29. Reuse never serves stale rows: after the lookup in the resident prefix, the conversation snapshots and
  the static prefixes, the request's cache holds, in every layer, exactly the rows of the first tokens of
  its prompt that it is told to skip; the rows fit the cache, and every snapshot, prefix and account of the
  runner is still right, with at most four conversations within their byte limit.
\<close>

theorem chat_reuse_sound:
  assumes "runner_ok R r" "static = take (length static) tokens"
    and "chat_reuse zero dst tokens static r = (n, r')"
  shows "n \<le> length tokens \<and> n \<le> kv_MaxLen (kr_store r' dst) \<and> holds R (kr_store r' dst) (take n tokens) \<and> runner_ok R r'"
proof -
  let ?resident = "prefixReuse r dst tokens"
  note res = prefixReuse_ok [OF assms(1), of dst tokens]
  obtain reused r1 where r1: "reuseConversation zero dst tokens ?resident r = (reused, r1)" by (cases "reuseConversation zero dst tokens ?resident r")
  note c = reuseConversation_ok [OF assms(1) res r1]
  define r2 where "r2 = (if reused > ?resident then clearPrefixCache r1 else r1)"
  have r2: "runner_ok R r2" "kr_store r2 = kr_store r1" using c by (auto simp: r2_def clearPrefixCache_def)
  show ?thesis
  proof (cases "length static > reused")
    case False
    then have "n = reused" "r' = r2" using assms(3) by (simp_all add: chat_reuse_def r1 r2_def [symmetric])
    then show ?thesis using c r2 by simp
  next
    case True
    obtain copied hit r3 where r3: "mistralKVPrefixCacheReuse dst static r2 = ((copied, hit), r3)" by (metis prod.collapse)
    have e: "(n, r') = (if hit \<and> copied > reused then (copied, clearPrefixCache r3) else (reused, r3))"
      using assms(3) True by (simp add: chat_reuse_def r1 r2_def [symmetric] r3)
    show ?thesis
    proof (cases hit)
      case h: True
      then have m: "copied = length static" "copied \<le> kv_MaxLen (kr_store r3 dst)" "holds R (kr_store r3 dst) static" "runner_ok R (clearPrefixCache r3)"
        using mistralReuse_ok [OF r2(1) r3] by simp_all
      then have "n = length static" "r' = clearPrefixCache r3" using e h True by simp_all
      moreover have "length static \<le> length tokens" using assms(2) by (metis length_take min.cobounded1)
      ultimately show ?thesis using m assms(2) by (simp add: clearPrefixCache_def)
    next
      case False
      then have "n = reused" "r' = r3" using e by simp_all
      then show ?thesis using mistralReuse_ok [OF r2(1) r3] False c r2(2) by simp
    qed
  qed
qed

section \<open>A concrete runner\<close>

text \<open>One layer whose key and value rows are the token itself.\<close>

definition token_rows :: "u32 rows" where
  "token_rows sh l ts = ([last ts], [last ts])"

definition token_cache :: "u32 list \<Rightarrow> u32 KVCache" where
  "token_cache ts = \<lparr>kv_format = kvF32, kv_K = [ts], kv_V = [ts], PerPosKDim = 1, PerPosVDim = 1, kv_MaxLen = length ts\<rparr>"

lemma token_cache_ok: "kv_ok (token_cache ts)"
  by (simp add: token_cache_def kv_ok_def layerCount_def kw_def vw_def rowWidth_def)

lemma token_cache_holds: "holds token_rows (token_cache ts) ts"
  unfolding holds_def
proof (intro conjI allI impI token_cache_ok)
  fix l p assume "l < layerCount (token_cache ts)" "p < length ts"
  then show "(row (kw (token_cache ts)) (kv_K (token_cache ts) ! l) p, row (vw (token_cache ts)) (kv_V (token_cache ts) ! l) p)
      = token_rows (shape (token_cache ts)) l (take (Suc p) ts)"
    by (simp add: token_cache_def token_rows_def layerCount_def kw_def vw_def rowWidth_def row_def sublst_def take_Suc_conv_app_nth
        take_Suc hd_drop_conv_nth)
qed

definition old_chat :: "u32 list" where
  "old_chat = map word_of_nat [0..<33]"

definition new_prompt :: "u32 list" where
  "new_prompt = map word_of_nat [0..<35]"

definition sample_runner :: "u32 kv_runner" where
  "sample_runner = \<lparr>kr_store = (\<lambda>_. token_cache (replicate 40 0)), kr_attention = True, kr_prefix = None, kr_tokens = [], kr_promptTokens = 0,
     kr_conversations = \<lparr>cc_entries = [\<lparr>cs_tokens = old_chat, cs_cache = token_cache old_chat, cs_bytes = 396\<rparr>], cc_bytes = 396, cc_limit = 0\<rparr>,
     kr_mistral = \<lparr>mk_enabled = False, mk_maxBytes = 0, mk_bytes = 0, mk_hits = 0, mk_misses = 0, mk_epoch = 0, mk_entries = [], mk_order = []\<rparr>\<rparr>"

lemma sample_runner_ok: "runner_ok token_rows sample_runner"
  by (simp add: runner_ok_def sample_runner_def token_cache_ok conversations_ok_def snapshot_ok_def token_cache_holds accounted_def
      conversation_limit_def DefaultConversationCacheBytes_def prefixes_ok_def gomap_wf_def)

lemma sample_reuse: "fst (chat_reuse 0 0 new_prompt [] sample_runner) = 33"
  by code_simp

lemma chat_reuse_sound_witness:
  "\<exists>r'. holds token_rows (kr_store r' 0) (take 33 new_prompt) \<and> runner_ok token_rows r' \<and> snd (chat_reuse 0 0 new_prompt [] sample_runner) = r'"
proof -
  obtain r' where r': "chat_reuse 0 0 new_prompt [] sample_runner = (33, r')" using sample_reuse by (metis prod.collapse)
  show ?thesis using chat_reuse_sound [OF sample_runner_ok _ r'] r' by auto
qed

end
