(* ===== verification/Go_Float32.thy ===== *)
theory Go_Float32
  imports Go_Prelude "HOL-Library.Code_Target_Nat"
begin

text \<open>
  Go's \<open>float32\<close>, as the bits of an IEEE 754 binary32 number. Comparison and classification are exact
  and written out. Arithmetic is a record of operations; \<open>ieee32\<close> is the instance the language prescribes
  (round to nearest, ties to even), over a parameter for \<^verbatim>\<open>float32(math.Exp(float64(x)))\<close>.
\<close>

section \<open>Bits\<close>

type_synonym f32 = u32

definition f32_mag :: "f32 \<Rightarrow> nat" where
  "f32_mag x = unat (x AND 0x7FFFFFFF)"

definition f32_neg :: "f32 \<Rightarrow> bool" where
  "f32_neg x \<longleftrightarrow> x AND 0x80000000 \<noteq> 0"

definition f32_nan :: "f32 \<Rightarrow> bool" where
  "f32_nan x \<longleftrightarrow> f32_mag x > 0x7F800000"

definition f32_inf :: "f32 \<Rightarrow> bool" where
  "f32_inf x \<longleftrightarrow> f32_mag x = 0x7F800000"

definition finite32 :: "f32 \<Rightarrow> bool" where
  "finite32 value = (value AND 0x7F800000 \<noteq> 0x7F800000)"

text \<open>The order of the numbers: the magnitude bits grow with the absolute value.\<close>

definition f32_key :: "f32 \<Rightarrow> int" where
  "f32_key x = (if f32_neg x then - int (f32_mag x) else int (f32_mag x))"

definition f32_less :: "f32 \<Rightarrow> f32 \<Rightarrow> bool" where
  "f32_less a b \<longleftrightarrow> \<not> f32_nan a \<and> \<not> f32_nan b \<and> f32_key a < f32_key b"

definition f32_le :: "f32 \<Rightarrow> f32 \<Rightarrow> bool" where
  "f32_le a b \<longleftrightarrow> \<not> f32_nan a \<and> \<not> f32_nan b \<and> f32_key a \<le> f32_key b"

definition f32_eq :: "f32 \<Rightarrow> f32 \<Rightarrow> bool" where
  "f32_eq a b \<longleftrightarrow> \<not> f32_nan a \<and> \<not> f32_nan b \<and> f32_key a = f32_key b"

abbreviation f32_zero :: f32 where "f32_zero \<equiv> 0"
abbreviation f32_one :: f32 where "f32_one \<equiv> 0x3F800000"
abbreviation f32_quiet_nan :: f32 where "f32_quiet_nan \<equiv> 0x7FC00000"
abbreviation negInf32 :: f32 where "negInf32 \<equiv> 0xFF800000"

text \<open>The built-in \<open>max\<close>: a NaN wins, and \<open>+0\<close> over \<open>-0\<close>.\<close>

definition f32_max :: "f32 \<Rightarrow> f32 \<Rightarrow> f32" where
  "f32_max a b = (if f32_nan a then a else if f32_nan b then b
     else if f32_key a < f32_key b then b else if f32_key b < f32_key a then a
     else if f32_neg a then b else a)"

lemma f32_mag_mod: "f32_mag x = unat x mod 2147483648"
proof -
  have "x AND 0x7FFFFFFF = x AND mask 31" by (simp add: mask_eq_exp_minus_1)
  then have "x AND 0x7FFFFFFF = take_bit 31 x" by (simp only: take_bit_eq_mask)
  then have "f32_mag x = take_bit 31 (unat x)" by (simp only: f32_mag_def unsigned_take_bit_eq)
  then show ?thesis by (simp add: take_bit_eq_mod)
qed

lemma finite32_mag: "finite32 x \<longleftrightarrow> f32_mag x < 0x7F800000"
proof -
  have c: "(0x7F800000 :: f32) = push_bit 23 (mask 8)" by (simp add: mask_eq_exp_minus_1 push_bit_eq_mult)
  have e: "x AND push_bit 23 (mask 8) = push_bit 23 (take_bit 8 (drop_bit 23 x))"
    by (rule bit_word_eqI) (auto simp: bit_simps)
  have u: "unat (push_bit 23 (take_bit 8 (drop_bit 23 x))) = (unat x div 8388608 mod 256) * 8388608"
  proof -
    have "unat x < 4294967296" using unsigned_less [of x] by simp
    then have "unat x mod 4294967296 = unat x" by simp
    then have "unat (take_bit 8 (drop_bit 23 x)) = unat x div 8388608 mod 256"
      by (simp only: unsigned_take_bit_eq unsigned_drop_bit_eq) (simp add: take_bit_eq_mod drop_bit_eq_div)
    then have "unat (push_bit 23 (take_bit 8 (drop_bit 23 x))) = (unat x div 8388608 mod 256) * 8388608 mod 4294967296"
      by (simp only: unsigned_push_bit_eq) (simp add: take_bit_eq_mod push_bit_eq_mult)
    then show ?thesis by simp
  qed
  have "x AND 0x7F800000 = 0x7F800000 \<longleftrightarrow> unat (x AND 0x7F800000) = 0x7F800000"
    by (simp add: word_unat_eq_iff)
  also have "\<dots> \<longleftrightarrow> unat x div 8388608 mod 256 = 255"
    unfolding c e u by simp
  also have "\<dots> \<longleftrightarrow> f32_mag x \<ge> 0x7F800000"
  proof -
    have "unat x mod 2147483648 = 8388608 * (unat x div 8388608 mod 256) + unat x mod 8388608"
      using mod_mult2_eq [of "unat x" 8388608 256] by simp
    moreover have "unat x div 8388608 mod 256 < 256" "unat x mod 8388608 < 8388608" by simp_all
    ultimately show ?thesis unfolding f32_mag_mod by linarith
  qed
  finally show ?thesis by (auto simp: finite32_def)
qed

lemma finite32_not_nan [simp]: "finite32 x \<Longrightarrow> \<not> f32_nan x"
  by (simp add: finite32_mag f32_nan_def)

lemma negInf32_not_finite [simp]: "\<not> finite32 negInf32"
  by (simp add: finite32_def)

section \<open>Rounding\<close>

text \<open>The number of binary digits of \<open>m\<close>.\<close>

fun bit_len :: "nat \<Rightarrow> nat" where
  "bit_len m = (if m = 0 then 0 else Suc (bit_len (m div 2)))"

declare bit_len.simps [simp del]

text \<open>
  \<open>round_pos m e\<close> is the binary32 magnitude nearest to \<open>m * 2 powi e\<close>. The mantissa keeps 24 digits, fewer
  below the smallest normal exponent, and a carry out of the mantissa moves to the exponent by itself.
\<close>

definition round_pos :: "nat \<Rightarrow> int \<Rightarrow> nat" where
  "round_pos m e =
    (if m = 0 then 0
     else
       let q = max (e + int (bit_len m) - 24) (- 149);
           cut = nat (q - e);
           k = (if e \<le> q then m div 2 ^ cut else m * 2 ^ nat (e - q));
           r = (if e \<le> q then m mod 2 ^ cut else 0);
           half = 2 ^ cut;
           k' = (if 2 * r > half \<or> (2 * r = half \<and> odd k) then k + 1 else k);
           bits = (if k < 8388608 then k' else nat (q + 149) * 8388608 + k')
       in if bits \<ge> 0x7F800000 then 0x7F800000 else bits)"

definition f32_of :: "bool \<Rightarrow> nat \<Rightarrow> f32" where
  "f32_of s mag = word_of_nat ((if s then 2147483648 else 0) + mag)"

text \<open>A finite number is \<open>mant * 2 powi expo\<close> with the sign of its key.\<close>

definition f32_mant :: "f32 \<Rightarrow> nat" where
  "f32_mant x = (if f32_mag x < 8388608 then f32_mag x else 8388608 + f32_mag x mod 8388608)"

definition f32_expo :: "f32 \<Rightarrow> int" where
  "f32_expo x = (if f32_mag x < 8388608 then - 149 else int (f32_mag x div 8388608) - 150)"

definition f32_signed :: "f32 \<Rightarrow> int" where
  "f32_signed x = (if f32_neg x then - int (f32_mant x) else int (f32_mant x))"

section \<open>Arithmetic\<close>

record f32_ops =
  fadd :: "f32 \<Rightarrow> f32 \<Rightarrow> f32"
  fsub :: "f32 \<Rightarrow> f32 \<Rightarrow> f32"
  fmul :: "f32 \<Rightarrow> f32 \<Rightarrow> f32"
  fdiv :: "f32 \<Rightarrow> f32 \<Rightarrow> f32"
  fexp :: "f32 \<Rightarrow> f32"

definition ieee_add :: "f32 \<Rightarrow> f32 \<Rightarrow> f32" where
  "ieee_add a b =
    (if f32_nan a \<or> f32_nan b then f32_quiet_nan
     else if f32_inf a then (if f32_inf b \<and> f32_neg a \<noteq> f32_neg b then f32_quiet_nan else a)
     else if f32_inf b then b
     else
       let e = min (f32_expo a) (f32_expo b);
           s = f32_signed a * 2 ^ nat (f32_expo a - e) + f32_signed b * 2 ^ nat (f32_expo b - e)
       in if s = 0 then f32_of (f32_neg a \<and> f32_neg b) 0
          else f32_of (s < 0) (round_pos (nat \<bar>s\<bar>) e))"

definition ieee_sub :: "f32 \<Rightarrow> f32 \<Rightarrow> f32" where
  "ieee_sub a b = ieee_add a (b XOR 0x80000000)"

definition ieee_mul :: "f32 \<Rightarrow> f32 \<Rightarrow> f32" where
  "ieee_mul a b =
    (let s = (f32_neg a \<noteq> f32_neg b) in
     if f32_nan a \<or> f32_nan b then f32_quiet_nan
     else if f32_inf a \<or> f32_inf b then (if f32_mag a = 0 \<or> f32_mag b = 0 then f32_quiet_nan else f32_of s 0x7F800000)
     else f32_of s (round_pos (f32_mant a * f32_mant b) (f32_expo a + f32_expo b)))"

text \<open>
  The quotient is cut after 48 further digits, with the last one set when the division is not exact: that
  cannot be mistaken for a tie.
\<close>

definition ieee_div :: "f32 \<Rightarrow> f32 \<Rightarrow> f32" where
  "ieee_div a b =
    (let s = (f32_neg a \<noteq> f32_neg b) in
     if f32_nan a \<or> f32_nan b then f32_quiet_nan
     else if f32_inf a then (if f32_inf b then f32_quiet_nan else f32_of s 0x7F800000)
     else if f32_inf b then f32_of s 0
     else if f32_mag b = 0 then (if f32_mag a = 0 then f32_quiet_nan else f32_of s 0x7F800000)
     else
       let m = f32_mant a * 2 ^ 48; d = f32_mant b;
           k = 2 * (m div d) + (if m mod d = 0 then 0 else 1)
       in f32_of s (round_pos k (f32_expo a - f32_expo b - 49)))"

definition ieee32 :: "(f32 \<Rightarrow> f32) \<Rightarrow> f32_ops" where
  "ieee32 e = \<lparr>fadd = ieee_add, fsub = ieee_sub, fmul = ieee_mul, fdiv = ieee_div, fexp = e\<rparr>"

section \<open>Evaluation\<close>

lemma bit_len_eval: "bit_len 0 = 0" "bit_len (Suc 0) = 1" "bit_len (numeral n) = Suc (bit_len (numeral n div 2))"
  by (simp_all add: bit_len.simps)

lemmas f32_eval = f32_nan_def f32_mag_def f32_inf_def f32_expo_def f32_signed_def f32_mant_def f32_neg_def f32_key_def
  f32_less_def f32_le_def f32_eq_def f32_of_def round_pos_def bit_len_eval

lemmas ieee_eval = ieee_add_def ieee_div_def f32_eval Let_def

end
