(* ===== verification/Sampling_Sort.thy ===== *)
theory Sampling_Sort
  imports Go_Float32
begin

text \<open>
  The candidate lists of the sampler (\<^verbatim>\<open>internal/engine/sampling.go\<close>): the order on candidates, the in-place
  insertion sort and quicksort, and the heap that keeps the best candidates. A slice is a list updated by
  index; an index out of range, which panics in Go, is \<open>None\<close>.
\<close>

section \<open>Candidates\<close>

record TokenProb =
  tp_Token :: nat
  tp_Prob :: f32

definition tokenProbLess :: "TokenProb \<Rightarrow> TokenProb \<Rightarrow> bool" where
  "tokenProbLess a b =
    (if \<not> f32_eq (tp_Prob a) (tp_Prob b) then f32_less (tp_Prob b) (tp_Prob a) else tp_Token a < tp_Token b)"

definition swap_at :: "'a list \<Rightarrow> nat \<Rightarrow> nat \<Rightarrow> 'a list" where
  "swap_at c i j = c[i := c ! j, j := c ! i]"

section \<open>Insertion sort\<close>

text \<open>The inner loop: \<open>n\<close> is \<open>j + 1\<close>, the place that is free for \<open>v\<close>.\<close>

fun insertion_shift :: "TokenProb list \<Rightarrow> TokenProb \<Rightarrow> nat \<Rightarrow> TokenProb list" where
  "insertion_shift c v 0 = c[0 := v]"
| "insertion_shift c v (Suc j) =
    (if tokenProbLess v (c ! j) then insertion_shift (c[Suc j := c ! j]) v j else c[Suc j := v])"

definition insertionSortTokenProbs :: "TokenProb list \<Rightarrow> TokenProb list" where
  "insertionSortTokenProbs c = fold (\<lambda>i c. insertion_shift c (c ! i) i) [1..<length c] c"

section \<open>Quicksort\<close>

text \<open>The cursors of the partition have no bound of their own: they rely on meeting an element that stops them.\<close>

function scan_up :: "TokenProb list \<Rightarrow> TokenProb \<Rightarrow> nat \<Rightarrow> nat option" where
  "scan_up c pivot i =
    (if i < length c then if tokenProbLess (c ! i) pivot then scan_up c pivot (Suc i) else Some i else None)"
  by pat_completeness auto
termination
  by (relation "measure (\<lambda>(c, _, i). length c - i)") auto

fun scan_down :: "TokenProb list \<Rightarrow> TokenProb \<Rightarrow> nat \<Rightarrow> nat option" where
  "scan_down c pivot 0 = (if 0 < length c \<and> \<not> tokenProbLess pivot (c ! 0) then Some 0 else None)"
| "scan_down c pivot (Suc j) =
    (if Suc j < length c then if tokenProbLess pivot (c ! Suc j) then scan_down c pivot j else Some (Suc j) else None)"

declare scan_up.simps [simp del]

lemma scan_up_ge: "scan_up c p i = Some i' \<Longrightarrow> i \<le> i' \<and> i' < length c"
proof (induction c p i rule: scan_up.induct)
  case (1 c p i)
  then show ?case using scan_up.simps [of c p i] by (fastforce split: if_splits)
qed

lemma scan_down_le: "scan_down c p j = Some j' \<Longrightarrow> j' \<le> j \<and> j' < length c"
  by (induction c p j rule: scan_down.induct) (auto split: if_splits)

function partition_loop :: "TokenProb list \<Rightarrow> TokenProb \<Rightarrow> nat \<Rightarrow> nat \<Rightarrow> (TokenProb list \<times> nat \<times> nat) option" where
  "partition_loop c pivot i j =
    (case scan_up c pivot i of None \<Rightarrow> None
     | Some i' \<Rightarrow>
         (case scan_down c pivot j of None \<Rightarrow> None
          | Some j' \<Rightarrow> if i' \<ge> j' then Some (c, i', j') else partition_loop (swap_at c i' j') pivot (Suc i') (j' - 1)))"
  by pat_completeness auto
termination
proof (relation "measure (\<lambda>(c, p, i, j). Suc j - i)", goal_cases)
  case (2 c p i j i' j')
  then show ?case using scan_up_ge [of c p i i'] scan_down_le [of c p j j'] by simp arith
qed simp

declare partition_loop.simps [simp del]

definition medianOfThree :: "TokenProb list \<Rightarrow> nat \<Rightarrow> nat \<Rightarrow> nat \<Rightarrow> TokenProb list" where
  "medianOfThree c lo mid hi =
    (let c1 = (if tokenProbLess (c ! mid) (c ! lo) then swap_at c mid lo else c)
     in if tokenProbLess (c1 ! hi) (c1 ! mid)
        then (let c2 = swap_at c1 hi mid in if tokenProbLess (c2 ! mid) (c2 ! lo) then swap_at c2 mid lo else c2)
        else c1)"

lemma tokenProbLess_irrefl [simp]: "\<not> tokenProbLess a a"
  by (simp add: tokenProbLess_def f32_less_def)

lemma scan_up_stop: "i \<le> k \<Longrightarrow> \<not> tokenProbLess (c ! k) p \<Longrightarrow> scan_up c p i = Some i' \<Longrightarrow> i' \<le> k"
proof (induction c p i rule: scan_up.induct)
  case (1 c p i)
  then show ?case using scan_up.simps [of c p i] by (cases "i = k") (auto split: if_splits)
qed

lemma scan_down_stop: "k \<le> j \<Longrightarrow> \<not> tokenProbLess p (c ! k) \<Longrightarrow> scan_down c p j = Some j' \<Longrightarrow> k \<le> j'"
  by (induction c p j rule: scan_down.induct) (auto split: if_splits simp: le_Suc_eq)

lemma partition_loop_bounds: "partition_loop c p i j = Some (c', i', j') \<Longrightarrow> i \<le> i' \<and> j' \<le> j"
proof (induction c p i j rule: partition_loop.induct)
  case (1 c p i j)
  obtain a b where ab: "scan_up c p i = Some a" "scan_down c p j = Some b"
    using 1(2) by (subst (asm) partition_loop.simps) (auto split: option.splits)
  show ?case
  proof (cases "a \<ge> b")
    case True
    then show ?thesis using 1(2) ab scan_up_ge [OF ab(1)] scan_down_le [OF ab(2)] by (subst (asm) partition_loop.simps) auto
  next
    case False
    then have "partition_loop (swap_at c a b) p (Suc a) (b - 1) = Some (c', i', j')"
      using 1(2) ab by (subst (asm) partition_loop.simps) simp
    then show ?thesis using 1(1) [OF ab False] scan_up_ge [OF ab(1)] scan_down_le [OF ab(2)] by simp linarith
  qed
qed

text \<open>The pivot stands between the ends, so both cursors move and both parts are shorter than the whole.\<close>

lemma partition_loop_shrinks:
  assumes "partition_loop c (c ! mid) lo hi = Some (c', i, j)" "lo < mid" "mid < hi"
  shows "lo < i \<and> j < hi"
proof -
  obtain a b where ab: "scan_up c (c ! mid) lo = Some a" "scan_down c (c ! mid) hi = Some b"
    using assms(1) by (subst (asm) partition_loop.simps) (auto split: option.splits)
  have m: "a \<le> mid" "mid \<le> b"
    using scan_up_stop [OF _ _ ab(1), of mid] scan_down_stop [OF _ _ ab(2), of mid] assms(2,3) by simp_all
  show ?thesis
  proof (cases "a \<ge> b")
    case True
    then show ?thesis using assms ab m by (subst (asm) partition_loop.simps) auto
  next
    case False
    then have "partition_loop (swap_at c a b) (c ! mid) (Suc a) (b - 1) = Some (c', i, j)"
      using assms(1) ab by (subst (asm) partition_loop.simps) simp
    from partition_loop_bounds [OF this] show ?thesis
      using False scan_up_ge [OF ab(1)] scan_down_le [OF ab(2)] by linarith
  qed
qed

function quickSortTokenProbs :: "TokenProb list \<Rightarrow> nat \<Rightarrow> nat \<Rightarrow> TokenProb list option" where
  "quickSortTokenProbs c lo hi =
    (if hi - lo > 16 then
       if length c \<le> hi then None
       else
         (let mid = lo + (hi - lo) div 2;
              m = medianOfThree c lo mid hi
          in case partition_loop m (m ! mid) lo hi of None \<Rightarrow> None
             | Some (s, i, j) \<Rightarrow>
                 if int j - int lo < int hi - int i
                 then Option.bind (quickSortTokenProbs s lo j) (\<lambda>t. quickSortTokenProbs t i hi)
                 else Option.bind (quickSortTokenProbs s i hi) (\<lambda>t. quickSortTokenProbs t lo j))
     else if lo \<le> Suc hi \<and> Suc hi \<le> length c
       then Some (copy_into c lo (insertionSortTokenProbs (sublst c lo (Suc hi))))
     else None)"
  by pat_completeness auto
termination
proof (relation "measure (\<lambda>(c, lo, hi). hi - lo)", goal_cases)
  case 1
  then show ?case by simp
next
  case (2 c lo hi mid m ret s ij i j)
  then have "lo < i \<and> j < hi" using partition_loop_shrinks [of m mid lo hi s i j] by simp
  then show ?case using 2(1) by simp arith
next
  case (3 c lo hi mid m ret s ij i j t)
  then have "lo < i \<and> j < hi" using partition_loop_shrinks [of m mid lo hi s i j] by simp
  then show ?case using 3(1) by simp arith
next
  case (4 c lo hi mid m ret s ij i j)
  then have "lo < i \<and> j < hi" using partition_loop_shrinks [of m mid lo hi s i j] by simp
  then show ?case using 4(1) by simp arith
next
  case (5 c lo hi mid m ret s ij i j t)
  then have "lo < i \<and> j < hi" using partition_loop_shrinks [of m mid lo hi s i j] by simp
  then show ?case using 5(1) by simp arith
qed

declare quickSortTokenProbs.simps [simp del]

definition sortTokenProbs :: "TokenProb list \<Rightarrow> TokenProb list option" where
  "sortTokenProbs c = (if length c < 2 then Some c else quickSortTokenProbs c 0 (length c - 1))"

section \<open>The heap of the best candidates\<close>

text \<open>The worst candidate is at the root.\<close>

function siftDownTokenProbs :: "TokenProb list \<Rightarrow> nat \<Rightarrow> TokenProb list" where
  "siftDownTokenProbs c root =
    (let child = 2 * root + 1
     in if child \<ge> length c then c
        else
          (let child' = (if child + 1 < length c \<and> tokenProbLess (c ! child) (c ! (child + 1)) then child + 1 else child)
           in if \<not> tokenProbLess (c ! root) (c ! child') then c
              else siftDownTokenProbs (swap_at c root child') child'))"
  by pat_completeness auto
termination
  by (relation "measure (\<lambda>(c, root). length c - root)") (auto simp: swap_at_def)

declare siftDownTokenProbs.simps [simp del]

end
