(* ===== verification/Sampling.thy ===== *)
theory Sampling
  imports Sampling_Sort
begin

text \<open>
  Choosing the next token (\<^verbatim>\<open>internal/engine/sampling.go\<close>). The logits slice is changed in place and is part
  of the result; a panic is \<open>None\<close>. The floating-point operations are the record \<open>f32_ops\<close>.
\<close>

section \<open>Random numbers\<close>

definition NewRng :: "u64 \<Rightarrow> u64" where
  "NewRng seed = (if seed = 0 then 0xDEADBEEFCAFE1337 else seed)"

definition rng_step :: "u64 \<Rightarrow> u64" where
  "rng_step s0 =
    (let s1 = s0 XOR push_bit 13 s0;
         s2 = s1 XOR drop_bit 7 s1
     in s2 XOR push_bit 17 s2)"

text \<open>\<open>float32(k) / float32(1 << 24)\<close> for a \<open>k\<close> of 24 bits: both conversions and the quotient are exact.\<close>

definition f32_unit :: "nat \<Rightarrow> f32" where
  "f32_unit k = word_of_nat (round_pos k (- 24))"

definition NextF32 :: "u64 \<Rightarrow> f32 \<times> u64" where
  "NextF32 s = (f32_unit (unat (drop_bit 40 (rng_step s))), rng_step s)"

section \<open>Configuration\<close>

record SamplerConfig =
  Temperature :: f32
  TopP :: f32
  TopK :: int
  MinP :: f32
  RepeatPenalty :: f32

definition DefaultSamplerConfig :: SamplerConfig where
  "DefaultSamplerConfig = \<lparr>Temperature = 0x3F333333, TopP = 0x3F666666, TopK = 40, MinP = 0, RepeatPenalty = 0x3F8CCCCD\<rparr>"

section \<open>Penalty and greedy choice\<close>

definition penalize :: "f32_ops \<Rightarrow> f32 \<Rightarrow> f32 \<Rightarrow> f32" where
  "penalize fl penalty v =
    (if \<not> finite32 v then negInf32 else if f32_less f32_zero v then fdiv fl v penalty else fmul fl v penalty)"

definition applyRepeatPenalty :: "f32_ops \<Rightarrow> f32 list \<Rightarrow> u32 list \<Rightarrow> f32 \<Rightarrow> f32 list" where
  "applyRepeatPenalty fl logits recent penalty =
    (if f32_eq penalty f32_one then logits
     else fold (\<lambda>tok logits. if unat tok < length logits
            then logits[unat tok := penalize fl penalty (logits ! unat tok)] else logits) recent logits)"

definition argmaxToken :: "f32 list \<Rightarrow> nat" where
  "argmaxToken logits = fold (\<lambda>i best. if f32_less (logits ! best) (logits ! i) then i else best) [1..<length logits] 0"

definition clean :: "f32 \<Rightarrow> f32" where
  "clean v = (if finite32 v then v else negInf32)"

text \<open>Reading the first logit of an empty slice panics.\<close>

definition argmaxFiniteToken :: "f32 list \<Rightarrow> (nat \<times> f32 list) option" where
  "argmaxFiniteToken logits =
    (if logits = [] then None
     else Some (fst (fold (\<lambda>i (best, bestValue). let v = clean (logits ! i) in
              if f32_less bestValue v then (i, v) else (best, bestValue)) [1..<length logits] (0, clean (logits ! 0))),
            map clean logits))"

section \<open>Drawing from weights\<close>

text \<open>The first candidate whose running sum exceeds \<open>r\<close>.\<close>

fun first_above :: "f32_ops \<Rightarrow> f32 \<Rightarrow> f32 \<Rightarrow> f32 list \<Rightarrow> nat option" where
  "first_above fl r cumsum [] = None"
| "first_above fl r cumsum (p # ps) =
    (let s = fadd fl cumsum p in if f32_less r s then Some 0 else map_option Suc (first_above fl r s ps))"

definition sampleFromProbs :: "f32_ops \<Rightarrow> f32 list \<Rightarrow> u64 \<Rightarrow> nat \<times> u64" where
  "sampleFromProbs fl probs rng =
    (let (r, rng') = NextF32 rng
     in (case first_above fl r f32_zero probs of Some i \<Rightarrow> i | None \<Rightarrow> length probs - 1, rng'))"

definition sum_probs :: "f32_ops \<Rightarrow> TokenProb list \<Rightarrow> f32" where
  "sum_probs fl c = foldl (\<lambda>s t. fadd fl s (tp_Prob t)) f32_zero c"

text \<open>Min-p: the length of the part not below the threshold, and its mass.\<close>

definition min_p_cutoff :: "f32_ops \<Rightarrow> f32 \<Rightarrow> TokenProb list \<Rightarrow> nat \<times> f32" where
  "min_p_cutoff fl minP c =
    (let threshold = fmul fl minP (tp_Prob (c ! 0));
         cutoff = (case find (\<lambda>i. f32_less (tp_Prob (c ! i)) threshold) [1..<length c] of None \<Rightarrow> length c | Some i \<Rightarrow> i)
     in (cutoff, sum_probs fl (take cutoff c)))"

text \<open>Top-p: cut after the candidate at which the running sum exceeds the target; the sum reached.\<close>

definition top_p_cutoff :: "f32_ops \<Rightarrow> f32 \<Rightarrow> nat \<Rightarrow> TokenProb list \<Rightarrow> nat \<times> f32" where
  "top_p_cutoff fl target cutoff c =
    (case first_above fl target f32_zero (map tp_Prob (take cutoff c)) of
       Some i \<Rightarrow> (Suc i, sum_probs fl (take (Suc i) c))
     | None \<Rightarrow> (cutoff, sum_probs fl (take cutoff c)))"

text \<open>The draw among the candidates before the cutoff, of mass \<open>kept\<close>.\<close>

definition draw_candidate :: "f32_ops \<Rightarrow> f32 \<Rightarrow> nat \<Rightarrow> TokenProb list \<Rightarrow> u64 \<Rightarrow> (nat \<times> u64) option" where
  "draw_candidate fl kept cutoff c rng =
    (let (u, rng') = NextF32 rng; r = fmul fl u kept
     in case first_above fl r f32_zero (map tp_Prob (take cutoff c)) of
          Some i \<Rightarrow> Some (tp_Token (c ! i), rng')
        | None \<Rightarrow> if 0 < cutoff \<and> cutoff \<le> length c then Some (tp_Token (c ! (cutoff - 1)), rng') else None)"

abbreviation f32_1e_5 :: f32 where "f32_1e_5 \<equiv> 0x3727C5AC"
abbreviation f32_1e_6 :: f32 where "f32_1e_6 \<equiv> 0x358637BD"

definition weight_candidates :: "f32_ops \<Rightarrow> f32 list \<Rightarrow> f32 \<Rightarrow> f32 \<Rightarrow> f32 \<Rightarrow> TokenProb list" where
  "weight_candidates fl weights mass topP minP =
    (let maxProb = foldl (\<lambda>m w. if f32_less m w then w else m) f32_zero weights;
         prefilterMinP = (f32_le f32_1e_5 minP \<and> f32_le minP f32_one);
         threshold = (if prefilterMinP then fmul fl maxProb minP else fmul fl maxProb f32_1e_5);
         all = map (\<lambda>i. \<lparr>tp_Token = i, tp_Prob = weights ! i\<rparr>) [0..<length weights];
         c = filter (\<lambda>t. f32_le threshold (tp_Prob t)) all
     in if \<not> prefilterMinP \<and> f32_less (sum_probs fl c) (fmul fl topP mass) then all else c)"

definition sampleTopPFromWeights :: "f32_ops \<Rightarrow> f32 list \<Rightarrow> f32 \<Rightarrow> f32 \<Rightarrow> f32 \<Rightarrow> u64 \<Rightarrow> (nat \<times> u64) option" where
  "sampleTopPFromWeights fl weights mass topP minP rng =
    Option.bind (sortTokenProbs (weight_candidates fl weights mass topP minP)) (\<lambda>c.
      let (cutoff, mass') = (if f32_less f32_zero minP \<and> c \<noteq> [] then min_p_cutoff fl minP c else (length c, mass));
          (cutoff', kept) = top_p_cutoff fl (fmul fl topP mass') cutoff c
      in if f32_le kept f32_zero \<or> \<not> finite32 kept then Some (argmaxToken weights, rng)
         else draw_candidate fl kept cutoff' c rng)"

section \<open>The best logits\<close>

text \<open>Fill the slice with the first \<open>topK\<close> finite logits; the index of the first logit not looked at.\<close>

fun topk_fill :: "f32 list \<Rightarrow> nat \<Rightarrow> nat \<Rightarrow> TokenProb list \<Rightarrow> TokenProb list \<times> nat" where
  "topk_fill [] k i c = (c, i)"
| "topk_fill (v # vs) k i c =
    (if length c < k then topk_fill vs k (Suc i) (if finite32 v then c @ [\<lparr>tp_Token = i, tp_Prob = v\<rparr>] else c) else (c, i))"

fun topk_scan :: "f32 list \<Rightarrow> nat \<Rightarrow> TokenProb list \<Rightarrow> TokenProb list" where
  "topk_scan [] i c = c"
| "topk_scan (v # vs) i c =
    topk_scan vs (Suc i) (if f32_less (tp_Prob (c ! 0)) v \<and> finite32 v then siftDownTokenProbs (c[0 := \<lparr>tp_Token = i, tp_Prob = v\<rparr>]) 0 else c)"

definition topk_heapify :: "TokenProb list \<Rightarrow> TokenProb list" where
  "topk_heapify c = fold (\<lambda>j c. siftDownTokenProbs c j) (rev [0..<length c div 2]) c"

definition topk_select :: "f32 list \<Rightarrow> nat \<Rightarrow> TokenProb list" where
  "topk_select logits k =
    (let (c, i) = topk_fill logits k 0 []
     in if length c = k then topk_scan (drop i logits) i (topk_heapify c) else c)"

definition sampleTopK :: "f32_ops \<Rightarrow> f32 list \<Rightarrow> nat \<Rightarrow> f32 \<Rightarrow> f32 \<Rightarrow> f32 \<Rightarrow> u64 \<Rightarrow> (nat \<times> f32 list \<times> u64) option" where
  "sampleTopK fl logits topK topP minP invTemp rng =
    Option.bind (sortTokenProbs (topk_select logits topK)) (\<lambda>c.
      if c = [] \<or> tp_Prob (c ! 0) = negInf32 then map_option (\<lambda>(t, l). (t, l, rng)) (argmaxFiniteToken logits)
      else
        let maxLogit = tp_Prob (c ! 0);
            e = map (\<lambda>t. t\<lparr>tp_Prob := fexp fl (fmul fl (fsub fl (tp_Prob t) maxLogit) invTemp)\<rparr>) c;
            sum = sum_probs fl e
        in if f32_le sum f32_zero then Some (tp_Token (e ! 0), logits, rng)
           else
             let (cutoff, sum') = (if f32_less f32_zero minP then min_p_cutoff fl minP e else (length e, sum));
                 (cutoff', kept) = (if f32_less topP f32_one then top_p_cutoff fl (fmul fl topP sum') cutoff e else (cutoff, sum'))
             in if f32_le kept f32_zero then Some (tp_Token (e ! 0), logits, rng)
                else map_option (\<lambda>(t, rng'). (t, logits, rng')) (draw_candidate fl kept cutoff' e rng))"

section \<open>The sampler\<close>

text \<open>The tempered softmax terms over the largest finite logit, and their sum.\<close>

definition softmax_terms :: "f32_ops \<Rightarrow> f32 \<Rightarrow> f32 list \<Rightarrow> f32 list" where
  "softmax_terms fl invTemp logits =
    (let cleaned = map clean logits;
         maxLogit = foldl (\<lambda>m v. if finite32 v then f32_max m v else m) negInf32 logits
     in map (\<lambda>v. fexp fl (if f32_eq invTemp f32_one then fsub fl v maxLogit else fmul fl (fsub fl v maxLogit) invTemp)) cleaned)"

definition SampleWithScratch :: "f32_ops \<Rightarrow> f32 list \<Rightarrow> SamplerConfig \<Rightarrow> u64 \<Rightarrow> u32 list \<Rightarrow> (nat \<times> f32 list \<times> u64) option" where
  "SampleWithScratch fl logits config rng recent =
    (if logits = [] then Some (0, logits, rng)
     else
       let penalized = applyRepeatPenalty fl logits recent (RepeatPenalty config)
       in if f32_less (Temperature config) f32_1e_6 then map_option (\<lambda>(t, l). (t, l, rng)) (argmaxFiniteToken penalized)
          else
            let invTemp = fdiv fl f32_one (Temperature config)
            in if TopK config > 0 \<and> TopK config < int (length logits)
               then if TopK config = 1 then map_option (\<lambda>(t, l). (t, l, rng)) (argmaxFiniteToken penalized)
                    else sampleTopK fl penalized (nat (TopK config)) (TopP config) (MinP config) invTemp rng
               else
                 let weights = softmax_terms fl invTemp penalized;
                     sum = foldl (fadd fl) f32_zero weights
                 in if f32_le sum f32_zero \<or> \<not> finite32 sum then Some (argmaxToken weights, weights, rng)
                    else if f32_less (TopP config) f32_one \<or> f32_less f32_zero (MinP config)
                    then map_option (\<lambda>(t, rng'). (t, weights, rng')) (sampleTopPFromWeights fl weights sum (TopP config) (MinP config) rng)
                    else
                      let probs = map (\<lambda>p. fdiv fl p sum) weights;
                          (t, rng') = sampleFromProbs fl probs rng
                      in Some (t, probs, rng'))"

definition Sample :: "f32_ops \<Rightarrow> f32 list \<Rightarrow> SamplerConfig \<Rightarrow> u64 \<Rightarrow> u32 list \<Rightarrow> (nat \<times> f32 list \<times> u64) option" where
  "Sample fl logits config rng recent = SampleWithScratch fl logits config rng recent"

end
