(* ===== verification/Sampling_Sort_Laws.thy ===== *)
theory Sampling_Sort_Laws
  imports Sampling_Sort "HOL-Library.Multiset" "HOL-Library.Product_Lexorder"
begin

text \<open>
  The candidate sort is correct: on candidates without NaN it never runs out of its slice, permutes the
  candidates and leaves them in the order of their rank. The heap of the best candidates keeps the worst one
  at its root.
\<close>

section \<open>Ranks\<close>

text \<open>Higher probability first, then lower token.\<close>

definition tp_rank :: "TokenProb \<Rightarrow> int \<times> nat" where
  "tp_rank t = (- f32_key (tp_Prob t), tp_Token t)"

definition no_nan :: "TokenProb list \<Rightarrow> bool" where
  "no_nan c \<longleftrightarrow> (\<forall>t \<in> set c. \<not> f32_nan (tp_Prob t))"

lemma less_rank: "\<not> f32_nan (tp_Prob a) \<Longrightarrow> \<not> f32_nan (tp_Prob b) \<Longrightarrow> tokenProbLess a b \<longleftrightarrow> tp_rank a < tp_rank b"
  by (auto simp: tokenProbLess_def tp_rank_def f32_eq_def f32_less_def less_prod_def)

lemma no_nan_nth: "no_nan c \<Longrightarrow> i < length c \<Longrightarrow> \<not> f32_nan (tp_Prob (c ! i))"
  by (simp add: no_nan_def)

lemma less_rank_nth:
  "no_nan c \<Longrightarrow> i < length c \<Longrightarrow> j < length c \<Longrightarrow> tokenProbLess (c ! i) (c ! j) \<longleftrightarrow> tp_rank (c ! i) < tp_rank (c ! j)"
  by (simp add: less_rank no_nan_nth)

lemma no_nan_mset: "mset c = mset c' \<Longrightarrow> no_nan c = no_nan c'"
  by (metis no_nan_def set_mset_mset)

abbreviation ranked :: "TokenProb list \<Rightarrow> bool" where
  "ranked c \<equiv> sorted (map tp_rank c)"

section \<open>Rearranging a part of a slice\<close>

definition perm_in :: "nat \<Rightarrow> nat \<Rightarrow> 'a list \<Rightarrow> 'a list \<Rightarrow> bool" where
  "perm_in lo hi c c' \<longleftrightarrow> mset c' = mset c \<and> (\<forall>k < length c. k < lo \<or> hi < k \<longrightarrow> c' ! k = c ! k)"

lemma perm_in_length: "perm_in lo hi c c' \<Longrightarrow> length c' = length c"
  unfolding perm_in_def by (metis mset_eq_length)

lemma perm_in_refl [simp]: "perm_in lo hi c c"
  by (simp add: perm_in_def)

lemma perm_in_trans: "perm_in lo hi a b \<Longrightarrow> perm_in lo hi b c \<Longrightarrow> perm_in lo hi a c"
  using perm_in_length [of lo hi a b] by (simp add: perm_in_def)

lemma perm_in_wider: "perm_in i j c c' \<Longrightarrow> lo \<le> i \<Longrightarrow> j \<le> hi \<Longrightarrow> perm_in lo hi c c'"
  by (auto simp: perm_in_def)

lemma perm_in_no_nan: "perm_in lo hi c c' \<Longrightarrow> no_nan c' = no_nan c"
  by (rule no_nan_mset) (simp add: perm_in_def)

lemma perm_in_swap: "lo \<le> i \<Longrightarrow> i \<le> hi \<Longrightarrow> lo \<le> j \<Longrightarrow> j \<le> hi \<Longrightarrow> hi < length c \<Longrightarrow> perm_in lo hi c (swap_at c i j)"
  by (auto simp: perm_in_def swap_at_def nth_list_update mset_swap)

lemma slice_mset: "lo \<le> Suc hi \<Longrightarrow> hi < length c \<Longrightarrow> mset c = mset (take lo c) + mset (sublst c lo (Suc hi)) + mset (drop (Suc hi) c)"
proof -
  assume h: "lo \<le> Suc hi" "hi < length c"
  have "c = take lo c @ sublst c lo (Suc hi) @ drop (Suc hi) c"
    using h unfolding sublst_def by (metis append_take_drop_id drop_drop le_add_diff_inverse2)
  then have "mset c = mset (take lo c @ sublst c lo (Suc hi) @ drop (Suc hi) c)" by simp
  then show ?thesis by (simp add: add.assoc)
qed

lemma perm_in_slice:
  assumes "perm_in lo hi c c'" "lo \<le> Suc hi" "hi < length c"
  shows "mset (sublst c' lo (Suc hi)) = mset (sublst c lo (Suc hi))"
proof -
  have l: "length c' = length c" by (rule perm_in_length [OF assms(1)])
  have "take lo c' = take lo c" "drop (Suc hi) c' = drop (Suc hi) c"
    using assms l by (auto simp: perm_in_def list_eq_iff_nth_eq)
  then show ?thesis using slice_mset [OF assms(2,3)] slice_mset [OF assms(2), of c'] assms l by (simp add: perm_in_def)
qed

lemma sublst_map_nth: "hi < length c \<Longrightarrow> sublst c lo (Suc hi) = map ((!) c) [lo..<Suc hi]"
  by (rule nth_equalityI) (simp_all add: sublst_def del: upt_Suc)

lemma slice_nth: "hi < length c \<Longrightarrow> (\<exists>x \<in> set (sublst c lo (Suc hi)). P x) \<longleftrightarrow> (\<exists>k. lo \<le> k \<and> k \<le> hi \<and> P (c ! k))"
  by (auto simp: sublst_map_nth simp del: upt_Suc)

lemma perm_in_ex:
  assumes "perm_in lo hi c c'" "hi < length c" "lo \<le> k" "k \<le> hi" "P (c ! k)"
  shows "\<exists>k'. lo \<le> k' \<and> k' \<le> hi \<and> P (c' ! k')"
proof -
  have "set (sublst c' lo (Suc hi)) = set (sublst c lo (Suc hi))"
    using perm_in_slice [OF assms(1) _ assms(2)] assms(3,4) by (metis le_SucI order_trans set_mset_mset)
  moreover have "\<exists>x \<in> set (sublst c lo (Suc hi)). P x" using slice_nth [OF assms(2), of lo P] assms(3-5) by blast
  ultimately show ?thesis using slice_nth [of hi c' lo P] perm_in_length [OF assms(1)] assms(2) by simp
qed

lemma perm_in_all:
  assumes "perm_in lo hi c c'" "hi < length c" "\<And>k. lo \<le> k \<Longrightarrow> k \<le> hi \<Longrightarrow> P (c ! k)" "lo \<le> k" "k \<le> hi"
  shows "P (c' ! k)"
proof (rule ccontr)
  assume "\<not> P (c' ! k)"
  moreover have "perm_in lo hi c' c" using assms(1) perm_in_length [OF assms(1)] by (simp add: perm_in_def)
  ultimately obtain k' where "lo \<le> k'" "k' \<le> hi" "\<not> P (c ! k')"
    using perm_in_ex [of lo hi c' c k "\<lambda>x. \<not> P x"] perm_in_length [OF assms(1)] assms(2,4,5) by auto
  then show False using assms(3) by blast
qed

section \<open>Insertion sort\<close>

lemma insertion_shift_split:
  "\<exists>as bs. xs = as @ bs \<and> insertion_shift (xs @ y # ys) v (length xs) = as @ v # bs @ ys
     \<and> (\<forall>b \<in> set bs. tokenProbLess v b) \<and> (as \<noteq> [] \<longrightarrow> \<not> tokenProbLess v (last as))"
proof (induction xs arbitrary: y ys rule: rev_induct)
  case Nil
  show ?case by (intro exI [of _ "[]"]) simp
next
  case (snoc x xs)
  show ?case
  proof (cases "tokenProbLess v x")
    case True
    have "(xs @ x # y # ys)[Suc (length xs) := x] = xs @ x # x # ys" by (simp add: list_update_append)
    then have e: "insertion_shift ((xs @ [x]) @ y # ys) v (length (xs @ [x])) = insertion_shift (xs @ x # x # ys) v (length xs)"
      using True by (simp add: nth_append)
    obtain as bs where ab: "xs = as @ bs" "insertion_shift (xs @ x # x # ys) v (length xs) = as @ v # bs @ x # ys"
      "\<forall>b \<in> set bs. tokenProbLess v b" "as \<noteq> [] \<longrightarrow> \<not> tokenProbLess v (last as)"
      using snoc.IH [of x "x # ys"] by blast
    show ?thesis using e ab True by (intro exI [of _ as] exI [of _ "bs @ [x]"]) auto
  next
    case False
    then have "insertion_shift ((xs @ [x]) @ y # ys) v (length (xs @ [x])) = (xs @ [x]) @ v # ys"
      by (simp add: nth_append list_update_append)
    then show ?thesis using False by (intro exI [of _ "xs @ [x]"] exI [of _ "[]"]) simp
  qed
qed

lemma insertion_step:
  assumes "i < length c" "no_nan c" "ranked (take i c)"
  shows "mset (insertion_shift c (c ! i) i) = mset c \<and> ranked (take (Suc i) (insertion_shift c (c ! i) i))
    \<and> length (insertion_shift c (c ! i) i) = length c"
proof -
  let ?v = "c ! i"
  define pre post where "pre = take i c" and "post = drop (Suc i) c"
  have c: "c = pre @ ?v # post" unfolding pre_def post_def using assms(1) by (rule id_take_nth_drop)
  have pre: "length pre = i" using assms(1) by (simp add: pre_def)
  obtain as bs where ab: "pre = as @ bs" "insertion_shift (pre @ ?v # post) ?v (length pre) = as @ ?v # bs @ post"
    "\<forall>b \<in> set bs. tokenProbLess ?v b" "as \<noteq> [] \<longrightarrow> \<not> tokenProbLess ?v (last as)"
    using insertion_shift_split [of pre ?v post ?v] by (elim exE conjE)
  have r: "insertion_shift c ?v i = as @ ?v # bs @ post" using ab(2) by (simp only: pre c [symmetric])
  have i: "i = length as + length bs" using pre by (simp add: ab(1))
  have nn: "\<not> f32_nan (tp_Prob x)" if "x = ?v \<or> x \<in> set as \<or> x \<in> set bs" for x
  proof -
    have "set as \<union> set bs \<subseteq> set c" using set_take_subset [of i c] by (simp add: pre_def [symmetric] ab(1))
    then show ?thesis using that assms(1,2) by (auto simp: no_nan_def)
  qed
  have s: "ranked (as @ bs)" using assms(3) by (simp add: pre_def [symmetric] ab(1))
  have bs: "\<forall>b \<in> set bs. tp_rank ?v \<le> tp_rank b" using ab(3) less_rank nn by (metis less_imp_le)
  have as: "\<forall>a \<in> set as. tp_rank a \<le> tp_rank ?v"
  proof (cases "as = []")
    case False
    then obtain as' where e: "as = as' @ [last as]" by (metis append_butlast_last_id)
    have "tp_rank (last as) \<le> tp_rank ?v" using False ab(4) less_rank [of ?v "last as"] nn by (simp add: not_less)
    moreover have "\<forall>a \<in> set as. tp_rank a \<le> tp_rank (last as)"
      using s by (subst (asm) (1) e, subst e) (auto simp: sorted_append)
    ultimately show ?thesis by (meson order_trans)
  qed simp
  have "ranked (as @ ?v # bs)" using s as bs by (auto simp: sorted_append)
  moreover have "take (Suc i) (insertion_shift c ?v i) = as @ ?v # bs" unfolding r by (simp add: i)
  moreover have "mset c = mset (pre @ ?v # post)" by (simp only: c [symmetric])
  then have m: "mset (insertion_shift c ?v i) = mset c" by (simp add: r ab(1))
  ultimately show ?thesis using mset_eq_length [OF m] by simp
qed

lemma insertionSort_sorts:
  assumes "no_nan c"
  shows "mset (insertionSortTokenProbs c) = mset c \<and> ranked (insertionSortTokenProbs c)"
proof -
  let ?f = "\<lambda>i c. insertion_shift c (c ! i) i"
  have "n \<le> length c \<Longrightarrow> mset (fold ?f [1..<n] c) = mset c \<and> ranked (take n (fold ?f [1..<n] c))" for n
  proof (induction n)
    case (Suc n)
    show ?case
    proof (cases "n = 0")
      case True
      then show ?thesis by (cases c) simp_all
    next
      case False
      define d where "d = fold ?f [1..<n] c"
      have d: "mset d = mset c" "ranked (take n d)" using Suc by (simp_all add: d_def)
      have l: "n < length d" "no_nan d" using Suc.prems assms mset_eq_length [OF d(1)] no_nan_mset [OF d(1)] by simp_all
      have e: "fold ?f [1..<Suc n] c = ?f n d" using False by (simp add: d_def)
      show ?thesis using insertion_step [OF l d(2)] d(1) unfolding e by simp
    qed
  qed simp
  from this [of "length c"] have r: "mset (insertionSortTokenProbs c) = mset c" "ranked (take (length c) (insertionSortTokenProbs c))"
    unfolding insertionSortTokenProbs_def by simp_all
  then show ?thesis using mset_eq_length [OF r(1)] by simp
qed

section \<open>The partition\<close>

lemma scan_up_Some:
  assumes "i \<le> k" "k < length c" "\<not> tokenProbLess (c ! k) p"
  obtains i' where "scan_up c p i = Some i'" "i \<le> i'" "i' \<le> k" "\<not> tokenProbLess (c ! i') p" "\<And>l. i \<le> l \<Longrightarrow> l < i' \<Longrightarrow> tokenProbLess (c ! l) p"
proof -
  have "\<exists>i'. scan_up c p i = Some i' \<and> i \<le> i' \<and> i' \<le> k \<and> \<not> tokenProbLess (c ! i') p \<and> (\<forall>l. i \<le> l \<and> l < i' \<longrightarrow> tokenProbLess (c ! l) p)"
    using assms
  proof (induction c p i rule: scan_up.induct)
    case (1 c p i)
    show ?case
    proof (cases "tokenProbLess (c ! i) p")
      case True
      then have "Suc i \<le> k" using 1(2,4) by (cases "i = k") auto
      then obtain i' where "scan_up c p (Suc i) = Some i'" "Suc i \<le> i'" "i' \<le> k" "\<not> tokenProbLess (c ! i') p"
        "\<forall>l. Suc i \<le> l \<and> l < i' \<longrightarrow> tokenProbLess (c ! l) p"
        using 1(1) [OF _ True _ 1(3,4)] 1(2,3) by auto
      moreover have "scan_up c p i = scan_up c p (Suc i)" using True 1(2,3) by (subst scan_up.simps) simp
      moreover have "i = l \<or> Suc i \<le> l" if "i \<le> l" for l using that by linarith
      ultimately show ?thesis using True by (intro exI [of _ i']) (metis Suc_leD)
    next
      case False
      then have "scan_up c p i = Some i" using 1(2,3) by (subst scan_up.simps) simp
      then show ?thesis using False 1(2) by (auto dest: leD)
    qed
  qed
  then show ?thesis using that by blast
qed

lemma scan_down_Some:
  assumes "k \<le> j" "j < length c" "\<not> tokenProbLess p (c ! k)"
  obtains j' where "scan_down c p j = Some j'" "k \<le> j'" "j' \<le> j" "\<not> tokenProbLess p (c ! j')" "\<And>l. j' < l \<Longrightarrow> l \<le> j \<Longrightarrow> tokenProbLess p (c ! l)"
proof -
  have "\<exists>j'. scan_down c p j = Some j' \<and> k \<le> j' \<and> j' \<le> j \<and> \<not> tokenProbLess p (c ! j') \<and> (\<forall>l. j' < l \<and> l \<le> j \<longrightarrow> tokenProbLess p (c ! l))"
    using assms
  proof (induction j)
    case (Suc j)
    show ?case
    proof (cases "tokenProbLess p (c ! Suc j)")
      case True
      then have "k \<le> j" using Suc.prems(1,3) by (cases "k = Suc j") auto
      then show ?thesis using Suc.IH [OF _ _ Suc.prems(3)] Suc.prems(2) True by (auto simp: le_Suc_eq)
    next
      case False
      then show ?thesis using Suc.prems by auto
    qed
  qed auto
  then show ?thesis using that by blast
qed

text \<open>What the partition of the cells from \<open>lo\<close> to \<open>hi\<close> leaves behind.\<close>

definition partitioned :: "nat \<Rightarrow> nat \<Rightarrow> int \<times> nat \<Rightarrow> TokenProb list \<Rightarrow> nat \<Rightarrow> nat \<Rightarrow> bool" where
  "partitioned lo hi p c i j \<longleftrightarrow> j \<le> i \<and> i \<le> Suc j
     \<and> (\<forall>k. lo \<le> k \<and> k \<le> j \<longrightarrow> tp_rank (c ! k) \<le> p) \<and> (\<forall>k. i \<le> k \<and> k \<le> hi \<longrightarrow> p \<le> tp_rank (c ! k))"

lemma partition_loop_spec:
  assumes "hi < length c" "no_nan c" "\<not> f32_nan (tp_Prob p)" "lo \<le> i" "j \<le> hi" "i \<le> Suc j"
    and "\<And>k. lo \<le> k \<Longrightarrow> k < i \<Longrightarrow> tp_rank (c ! k) \<le> tp_rank p"
    and "\<And>k. j < k \<Longrightarrow> k \<le> hi \<Longrightarrow> tp_rank p \<le> tp_rank (c ! k)"
    and "\<exists>k. i \<le> k \<and> k \<le> hi \<and> tp_rank p \<le> tp_rank (c ! k)"
    and "\<exists>k. lo \<le> k \<and> k \<le> j \<and> tp_rank (c ! k) \<le> tp_rank p"
  shows "\<exists>c' i' j'. partition_loop c p i j = Some (c', i', j') \<and> perm_in lo hi c c' \<and> partitioned lo hi (tp_rank p) c' i' j'"
  using assms
proof (induction c p i j rule: partition_loop.induct)
  case (1 c p i j)
  note nn = less_rank [OF no_nan_nth [OF 1(3)] 1(4)] less_rank [OF 1(4) no_nan_nth [OF 1(3)]]
  obtain k1 where k1: "i \<le> k1" "k1 \<le> hi" "tp_rank p \<le> tp_rank (c ! k1)" using 1(10) by blast
  obtain a where a: "scan_up c p i = Some a" "i \<le> a" "a \<le> k1" "\<not> tokenProbLess (c ! a) p" "\<And>l. i \<le> l \<Longrightarrow> l < a \<Longrightarrow> tokenProbLess (c ! l) p"
    using scan_up_Some [of i k1 c p] k1 nn(1) [of k1] 1(2) by (auto simp: not_less)
  obtain k2 where k2: "lo \<le> k2" "k2 \<le> j" "tp_rank (c ! k2) \<le> tp_rank p" using 1(11) by blast
  obtain b where b: "scan_down c p j = Some b" "k2 \<le> b" "b \<le> j" "\<not> tokenProbLess p (c ! b)" "\<And>l. b < l \<Longrightarrow> l \<le> j \<Longrightarrow> tokenProbLess p (c ! l)"
    using scan_down_Some [of k2 j c p] k2 nn(2) [of k2] 1(2,6) by (auto simp: not_less)
  have ab: "a \<le> hi" "lo \<le> a" "b \<le> hi" "lo \<le> b" using a(2,3) b(2,3) k1 k2 1(5,6) by linarith+
  have pa: "tp_rank p \<le> tp_rank (c ! a)" using a(4) nn(1) [of a] ab 1(2) by (simp add: not_less)
  have pb: "tp_rank (c ! b) \<le> tp_rank p" using b(4) nn(2) [of b] ab 1(2) by (simp add: not_less)
  have up: "tp_rank (c ! l) \<le> tp_rank p" if "lo \<le> l" "l < a" for l
    using that 1(2,8) a(5) nn(1) [of l] ab(1) by (cases "l < i") (auto simp: not_less intro: less_imp_le)
  have down: "tp_rank p \<le> tp_rank (c ! l)" if "b < l" "l \<le> hi" for l
    using that 1(2,9) b(5) nn(2) [of l] by (cases "j < l") (auto simp: not_less intro: less_imp_le)
  show ?case
  proof (cases "a \<ge> b")
    case True
    have "a \<le> Suc b"
    proof (rule ccontr)
      assume h: "\<not> a \<le> Suc b"
      then have "i \<le> Suc b \<or> Suc b < i" "Suc b < a" by linarith+
      have "Suc b \<le> j \<or> i \<le> Suc b" using b(3) 1(7) by linarith
      then show False
      proof
        assume "Suc b \<le> j"
        then have "tp_rank p < tp_rank (c ! Suc b)" using b(5) nn(2) [of "Suc b"] 1(2,6) by simp
        then show False using up [of "Suc b"] h ab(4) by (simp add: not_less)
      next
        assume "i \<le> Suc b"
        then have "tp_rank (c ! Suc b) < tp_rank p" using a(5) nn(1) [of "Suc b"] h ab(1) 1(2) by simp
        then show False using down [of "Suc b"] h ab(1) by (simp add: not_less)
      qed
    qed
    moreover have "tp_rank (c ! l) \<le> tp_rank p" if "lo \<le> l" "l \<le> b" for l
      using that up [of l] True pb by (cases "l = b") auto
    moreover have "tp_rank p \<le> tp_rank (c ! l)" if "a \<le> l" "l \<le> hi" for l
      using that down [of l] True pa by (cases "l = a") auto
    ultimately show ?thesis using True partition_loop.simps [of c p i j] a(1) b(1) by (simp add: partitioned_def)
  next
    case False
    let ?c = "swap_at c a b"
    have perm: "perm_in lo hi c ?c" using ab 1(2) by (intro perm_in_swap)
    have l: "length ?c = length c" by (simp add: swap_at_def)
    have n: "?c ! k = (if k = b then c ! a else if k = a then c ! b else c ! k)" if "k \<le> hi" for k
      using that ab 1(2) by (simp add: swap_at_def nth_list_update)
    have "\<exists>c' i' j'. partition_loop ?c p (Suc a) (b - 1) = Some (c', i', j') \<and> perm_in lo hi ?c c' \<and> partitioned lo hi (tp_rank p) c' i' j'"
    proof (rule 1(1) [OF a(1) b(1) False])
      show "hi < length ?c" "no_nan ?c" "\<not> f32_nan (tp_Prob p)" "lo \<le> Suc a" "b - 1 \<le> hi" "Suc a \<le> Suc (b - 1)"
        using l 1(2-4) perm_in_no_nan [OF perm] ab False by simp_all
      show "tp_rank (?c ! k) \<le> tp_rank p" if "lo \<le> k" "k < Suc a" for k
        using that up [of k] pb ab False by (cases "k = a") (auto simp: n)
      show "tp_rank p \<le> tp_rank (?c ! k)" if "b - 1 < k" "k \<le> hi" for k
        using that down [of k] pa ab False by (cases "k = b") (auto simp: n)
      show "\<exists>k. Suc a \<le> k \<and> k \<le> hi \<and> tp_rank p \<le> tp_rank (?c ! k)"
        using pa ab False by (intro exI [of _ b]) (simp add: n)
      show "\<exists>k. lo \<le> k \<and> k \<le> b - 1 \<and> tp_rank (?c ! k) \<le> tp_rank p"
        using pb ab False by (intro exI [of _ a]) (simp add: n)
    qed
    then show ?thesis using perm perm_in_trans False partition_loop.simps [of c p i j] a(1) b(1) by fastforce
  qed
qed

section \<open>Quicksort\<close>

definition sorted_in :: "nat \<Rightarrow> nat \<Rightarrow> TokenProb list \<Rightarrow> bool" where
  "sorted_in lo hi c \<longleftrightarrow> (\<forall>a b. lo \<le> a \<and> a \<le> b \<and> b \<le> hi \<longrightarrow> tp_rank (c ! a) \<le> tp_rank (c ! b))"

lemma sorted_inD: "sorted_in lo hi c \<Longrightarrow> lo \<le> a \<Longrightarrow> a \<le> b \<Longrightarrow> b \<le> hi \<Longrightarrow> tp_rank (c ! a) \<le> tp_rank (c ! b)"
  by (simp add: sorted_in_def)

lemma sorted_in_full: "c \<noteq> [] \<Longrightarrow> sorted_in 0 (length c - 1) c \<Longrightarrow> ranked c"
  by (auto simp: sorted_in_def sorted_iff_nth_mono)

lemma perm_in_swap_if:
  "lo \<le> i \<Longrightarrow> i \<le> hi \<Longrightarrow> lo \<le> j \<Longrightarrow> j \<le> hi \<Longrightarrow> hi < length c \<Longrightarrow> perm_in lo hi c (if b then swap_at c i j else c)"
  using perm_in_swap [of lo i hi j c] by simp

lemma medianOfThree_perm:
  assumes "lo \<le> mid" "mid \<le> hi" "hi < length c"
  shows "perm_in lo hi c (medianOfThree c lo mid hi)"
proof -
  define c1 where "c1 = (if tokenProbLess (c ! mid) (c ! lo) then swap_at c mid lo else c)"
  define c2 where "c2 = swap_at c1 hi mid"
  have p1: "perm_in lo hi c c1" unfolding c1_def using assms by (intro perm_in_swap_if) simp_all
  have p2: "perm_in lo hi c1 c2" unfolding c2_def using assms perm_in_length [OF p1] by (intro perm_in_swap) simp_all
  have p3: "perm_in lo hi c2 (if tokenProbLess (c2 ! mid) (c2 ! lo) then swap_at c2 mid lo else c2)"
    using assms perm_in_length [OF p1] perm_in_length [OF p2] by (intro perm_in_swap_if) simp_all
  have "medianOfThree c lo mid hi = (if tokenProbLess (c1 ! hi) (c1 ! mid)
      then (if tokenProbLess (c2 ! mid) (c2 ! lo) then swap_at c2 mid lo else c2) else c1)"
    by (simp add: medianOfThree_def c1_def c2_def Let_def)
  then show ?thesis using p1 perm_in_trans [OF perm_in_trans [OF p1 p2] p3] by (cases "tokenProbLess (c1 ! hi) (c1 ! mid)") simp_all
qed

lemma unchanged_nth: "perm_in lo hi c c' \<Longrightarrow> k < length c \<Longrightarrow> k < lo \<or> hi < k \<Longrightarrow> c' ! k = c ! k"
  by (auto simp: perm_in_def)

text \<open>The two parts may share the cell of the pivot: sorting one part leaves the pivot's rank there.\<close>

lemma parts_sorted:
  assumes part: "partitioned lo hi p c i j" and b: "hi < length c" "lo \<le> j" "i \<le> hi" "lo \<le> i" "j \<le> hi"
    and first: "perm_in lo j c d" "sorted_in lo j d" and second: "perm_in i hi d e" "sorted_in i hi e"
  shows "sorted_in lo hi e \<and> perm_in lo hi c e"
proof
  have ij: "j \<le> i" "i \<le> Suc j" using part by (simp_all add: partitioned_def)
  have l: "length d = length c" by (rule perm_in_length [OF first(1)])
  show "perm_in lo hi c e" using perm_in_wider [OF first(1), of lo hi] perm_in_wider [OF second(1), of lo hi] b perm_in_trans by blast
  have low: "tp_rank (d ! k) \<le> p" if "lo \<le> k" "k \<le> j" for k
    using perm_in_all [OF first(1), of "\<lambda>t. tp_rank t \<le> p" k] part that b by (auto simp: partitioned_def)
  have high: "p \<le> tp_rank (d ! k)" if "i \<le> k" "k \<le> hi" for k
  proof (cases "j < k")
    case True
    then show ?thesis using unchanged_nth [OF first(1), of k] part that b by (auto simp: partitioned_def)
  next
    case False
    then have k: "k = j" "i = j" using that ij by simp_all
    then have "p \<le> tp_rank (c ! j)" using part b by (auto simp: partitioned_def)
    then obtain k' where "lo \<le> k'" "k' \<le> j" "p \<le> tp_rank (d ! k')"
      using perm_in_ex [OF first(1), of j "\<lambda>t. p \<le> tp_rank t"] b by auto
    then show ?thesis using sorted_inD [OF first(2), of k' j] k by (auto intro: order_trans)
  qed
  have high': "p \<le> tp_rank (e ! k)" if "i \<le> k" "k \<le> hi" for k
    using perm_in_all [OF second(1), of "\<lambda>t. p \<le> tp_rank t" k] high that b l by auto
  have same: "e ! k = d ! k" if "k < i" for k using unchanged_nth [OF second(1), of k] that b l by simp
  show "sorted_in lo hi e"
    unfolding sorted_in_def
  proof (intro allI impI)
    fix x y assume h: "lo \<le> x \<and> x \<le> y \<and> y \<le> hi"
    consider "y < i" | "i \<le> x" | "x < i" "i \<le> y" by linarith
    then show "tp_rank (e ! x) \<le> tp_rank (e ! y)"
    proof cases
      case 1
      then show ?thesis using sorted_inD [OF first(2), of x y] h same [of x] same [of y] ij by simp
    next
      case 2
      then show ?thesis using sorted_inD [OF second(2), of x y] h by simp
    next
      case 3
      then show ?thesis using low [of x] high' [of y] same [of x] h ij by (auto intro: order_trans)
    qed
  qed
qed

lemma parts_sorted':
  assumes part: "partitioned lo hi p c i j" and b: "hi < length c" "lo \<le> j" "i \<le> hi" "lo \<le> i" "j \<le> hi"
    and first: "perm_in i hi c d" "sorted_in i hi d" and second: "perm_in lo j d e" "sorted_in lo j e"
  shows "sorted_in lo hi e \<and> perm_in lo hi c e"
proof
  have ij: "j \<le> i" "i \<le> Suc j" using part by (simp_all add: partitioned_def)
  have l: "length d = length c" by (rule perm_in_length [OF first(1)])
  show "perm_in lo hi c e" using perm_in_wider [OF first(1), of lo hi] perm_in_wider [OF second(1), of lo hi] b perm_in_trans by blast
  have high: "p \<le> tp_rank (d ! k)" if "i \<le> k" "k \<le> hi" for k
    using perm_in_all [OF first(1), of "\<lambda>t. p \<le> tp_rank t" k] part that b by (auto simp: partitioned_def)
  have low: "tp_rank (d ! k) \<le> p" if "lo \<le> k" "k \<le> j" for k
  proof (cases "k < i")
    case True
    then show ?thesis using unchanged_nth [OF first(1), of k] part that b by (auto simp: partitioned_def)
  next
    case False
    then have k: "k = i" "i = j" using that ij by simp_all
    then have "tp_rank (c ! i) \<le> p" using part b by (auto simp: partitioned_def)
    then obtain k' where "i \<le> k'" "k' \<le> hi" "tp_rank (d ! k') \<le> p"
      using perm_in_ex [OF first(1), of i "\<lambda>t. tp_rank t \<le> p"] b by auto
    then show ?thesis using sorted_inD [OF first(2), of i k'] k by (auto intro: order_trans)
  qed
  have low': "tp_rank (e ! k) \<le> p" if "lo \<le> k" "k \<le> j" for k
    using perm_in_all [OF second(1), of "\<lambda>t. tp_rank t \<le> p" k] low that b l by auto
  have same: "e ! k = d ! k" if "j < k" "k \<le> hi" for k using unchanged_nth [OF second(1), of k] that b l by simp
  show "sorted_in lo hi e"
    unfolding sorted_in_def
  proof (intro allI impI)
    fix x y assume h: "lo \<le> x \<and> x \<le> y \<and> y \<le> hi"
    consider "y \<le> j" | "j < x" | "x \<le> j" "j < y" by linarith
    then show "tp_rank (e ! x) \<le> tp_rank (e ! y)"
    proof cases
      case 1
      then show ?thesis using sorted_inD [OF second(2), of x y] h by simp
    next
      case 2
      then show ?thesis using sorted_inD [OF first(2), of x y] h same [of x] same [of y] ij by simp
    next
      case 3
      then show ?thesis using low' [of x] high [of y] same [of y] h ij by (auto intro: order_trans)
    qed
  qed
qed

lemma insertion_slice:
  assumes "lo \<le> Suc hi" "hi < length c" "no_nan c"
  shows "perm_in lo hi c (copy_into c lo (insertionSortTokenProbs (sublst c lo (Suc hi))))
    \<and> sorted_in lo hi (copy_into c lo (insertionSortTokenProbs (sublst c lo (Suc hi))))"
proof -
  define s where "s = insertionSortTokenProbs (sublst c lo (Suc hi))"
  have "no_nan (sublst c lo (Suc hi))" using assms(3) unfolding no_nan_def sublst_def by (meson in_set_dropD in_set_takeD)
  then have s: "mset s = mset (sublst c lo (Suc hi))" "ranked s" using insertionSort_sorts by (simp_all add: s_def)
  then have l: "length s = Suc hi - lo" using mset_eq_length [OF s(1)] assms by simp
  have b: "lo + length s = Suc hi" using l assms by simp
  note n = nth_copy_into [of lo s c]
  have e: "copy_into c lo s = take lo c @ s @ drop (Suc hi) c" using b by (simp add: copy_into_def)
  have "mset (copy_into c lo s) = mset c" using slice_mset [OF assms(1,2)] s(1) unfolding e by simp
  moreover have "copy_into c lo s ! k = c ! k" if "k < length c" "k < lo \<or> hi < k" for k using n [of k] that b assms by auto
  moreover have "tp_rank (copy_into c lo s ! x) \<le> tp_rank (copy_into c lo s ! y)" if "lo \<le> x" "x \<le> y" "y \<le> hi" for x y
  proof -
    have "map tp_rank s ! (x - lo) \<le> map tp_rank s ! (y - lo)"
      using s(2) that b by (intro sorted_nth_mono) auto
    then show ?thesis using n [of x] n [of y] that b assms by simp
  qed
  ultimately show ?thesis by (simp add: perm_in_def sorted_in_def s_def [symmetric])
qed

lemma quickSort_spec:
  assumes "lo \<le> Suc hi" "hi < length c" "no_nan c"
  shows "\<exists>c'. quickSortTokenProbs c lo hi = Some c' \<and> perm_in lo hi c c' \<and> sorted_in lo hi c'"
  using assms
proof (induction c lo hi rule: quickSortTokenProbs.induct)
  case (1 c lo hi)
  show ?case
  proof (cases "hi - lo > 16")
    case False
    then show ?thesis using insertion_slice [OF 1(5-7)] 1(5,6) by (subst quickSortTokenProbs.simps) simp
  next
    case big: True
    define mid where "mid = lo + (hi - lo) div 2"
    define m where "m = medianOfThree c lo mid hi"
    have mid: "lo < mid" "mid < hi" using big by (simp_all add: mid_def)
    have pm: "perm_in lo hi c m" unfolding m_def using mid 1(6) by (intro medianOfThree_perm) simp_all
    have m: "hi < length m" "no_nan m" using perm_in_length [OF pm] perm_in_no_nan [OF pm] 1(6,7) by simp_all
    have "\<exists>s i j. partition_loop m (m ! mid) lo hi = Some (s, i, j) \<and> perm_in lo hi m s \<and> partitioned lo hi (tp_rank (m ! mid)) s i j"
      using m mid no_nan_nth [OF m(2), of mid]
      by (intro partition_loop_spec) (auto intro: less_imp_le)
    then obtain s i j where s: "partition_loop m (m ! mid) lo hi = Some (s, i, j)" "perm_in lo hi m s" "partitioned lo hi (tp_rank (m ! mid)) s i j"
      by blast
    have ij: "lo < i" "j < hi" using partition_loop_shrinks [OF s(1) mid] by simp_all
    then have b: "hi < length s" "lo \<le> j" "i \<le> hi" "lo \<le> i" "j \<le> hi" "no_nan s"
      using s(3) perm_in_length [OF s(2)] perm_in_no_nan [OF s(2)] m by (auto simp: partitioned_def)
    have q: "quickSortTokenProbs c lo hi = (if int j - int lo < int hi - int i
        then Option.bind (quickSortTokenProbs s lo j) (\<lambda>t. quickSortTokenProbs t i hi)
        else Option.bind (quickSortTokenProbs s i hi) (\<lambda>t. quickSortTokenProbs t lo j))"
      using big 1(6) s(1) by (subst quickSortTokenProbs.simps) (simp add: Let_def mid_def [symmetric] m_def [symmetric])
    have len: "\<not> length c \<le> hi" using 1(6) by simp
    have pc: "perm_in lo hi c s" by (rule perm_in_trans [OF pm s(2)])
    show ?thesis
    proof (cases "int j - int lo < int hi - int i")
      case True
      obtain d where d: "quickSortTokenProbs s lo j = Some d" "perm_in lo j s d" "sorted_in lo j d"
        using 1(1) [OF big len mid_def m_def s(1) refl refl True] b by auto
      have "hi < length d" "no_nan d" using perm_in_length [OF d(2)] perm_in_no_nan [OF d(2)] b by simp_all
      then obtain e where e: "quickSortTokenProbs d i hi = Some e" "perm_in i hi d e" "sorted_in i hi e"
        using 1(2) [OF big len mid_def m_def s(1) refl refl True d(1)] b by auto
      then show ?thesis using parts_sorted [OF s(3) b(1-5) d(2,3) e(2,3)] q True d(1) perm_in_trans [OF pc] by auto
    next
      case False
      obtain d where d: "quickSortTokenProbs s i hi = Some d" "perm_in i hi s d" "sorted_in i hi d"
        using 1(3) [OF big len mid_def m_def s(1) refl refl False] b by auto
      have "hi < length d" "no_nan d" using perm_in_length [OF d(2)] perm_in_no_nan [OF d(2)] b by simp_all
      then obtain e where e: "quickSortTokenProbs d lo j = Some e" "perm_in lo j d e" "sorted_in lo j e"
        using 1(4) [OF big len mid_def m_def s(1) refl refl False d(1)] b by auto
      then show ?thesis using parts_sorted' [OF s(3) b(1-5) d(2,3) e(2,3)] q False d(1) perm_in_trans [OF pc] by auto
    qed
  qed
qed

lemma sortTokenProbs_spec:
  assumes "no_nan c"
  shows "\<exists>c'. sortTokenProbs c = Some c' \<and> mset c' = mset c \<and> ranked c'"
proof (cases "length c < 2")
  case True
  then have "c = [] \<or> (\<exists>t. c = [t])" by (cases c rule: remdups_adj.cases) auto
  then show ?thesis by (auto simp: sortTokenProbs_def)
next
  case False
  then have c: "c \<noteq> []" by auto
  then obtain c' where c': "quickSortTokenProbs c 0 (length c - 1) = Some c'" "perm_in 0 (length c - 1) c c'" "sorted_in 0 (length c - 1) c'"
    using quickSort_spec [of 0 "length c - 1" c] assms by auto
  have l: "length c' = length c" by (rule perm_in_length [OF c'(2)])
  then have "ranked c'" using sorted_in_full [of c'] c'(3) c by fastforce
  then show ?thesis using False c'(1,2) by (auto simp: sortTokenProbs_def perm_in_def)
qed

end
