(* ===== verification/Sampling_Laws.thy ===== *)
theory Sampling_Laws
  imports Sampling Sampling_Sort_Laws
begin

text \<open>
  The bounded heap selects the best finite logits; the running sums stay within their list; the generator never
  reaches its fixed point and draws from the half-open unit interval.
\<close>

section \<open>The heap\<close>

text \<open>Every node whose parent is at \<open>j\<close> or later ranks no worse than that parent.\<close>

definition heap_from :: "nat \<Rightarrow> TokenProb list \<Rightarrow> bool" where
  "heap_from j c \<longleftrightarrow> (\<forall>i. 0 < i \<and> i < length c \<and> j \<le> (i - 1) div 2 \<longrightarrow> tp_rank (c ! i) \<le> tp_rank (c ! ((i - 1) div 2)))"

text \<open>The same with one node \<open>r\<close> that may be out of order with its children.\<close>

definition heap_but :: "nat \<Rightarrow> nat \<Rightarrow> TokenProb list \<Rightarrow> bool" where
  "heap_but j r c \<longleftrightarrow>
    (\<forall>i. 0 < i \<and> i < length c \<and> j \<le> (i - 1) div 2 \<and> (i - 1) div 2 \<noteq> r \<longrightarrow> tp_rank (c ! i) \<le> tp_rank (c ! ((i - 1) div 2)))
    \<and> (0 < r \<and> j \<le> (r - 1) div 2 \<longrightarrow> (\<forall>i. 0 < i \<and> i < length c \<and> (i - 1) div 2 = r \<longrightarrow> tp_rank (c ! i) \<le> tp_rank (c ! ((r - 1) div 2))))"

lemma parent_iff: "0 < i \<Longrightarrow> (i - 1) div 2 = r \<longleftrightarrow> i = 2 * r + 1 \<or> i = 2 * r + (2::nat)"
  by presburger

lemma no_nan_swap: "i < length c \<Longrightarrow> j < length c \<Longrightarrow> no_nan (swap_at c i j) = no_nan c"
  by (rule no_nan_mset) (simp add: swap_at_def mset_swap)

lemma heap_but_done:
  assumes "heap_but j r c" "\<And>i. i < length c \<Longrightarrow> i = 2 * r + 1 \<or> i = 2 * r + 2 \<Longrightarrow> tp_rank (c ! i) \<le> tp_rank (c ! r)"
  shows "heap_from j c"
  unfolding heap_from_def
proof (intro allI impI)
  fix i assume h: "0 < i \<and> i < length c \<and> j \<le> (i - 1) div 2"
  show "tp_rank (c ! i) \<le> tp_rank (c ! ((i - 1) div 2))"
  proof (cases "(i - 1) div 2 = r")
    case True
    then have "i = 2 * r + 1 \<or> i = 2 * r + 2" using parent_iff [of i r] h by blast
    then show ?thesis using assms(2) [of i] h True by simp
  next
    case False
    then show ?thesis using assms(1) h by (simp add: heap_but_def)
  qed
qed

lemma heap_but_swap:
  assumes hb: "heap_but j r c" and r: "r < length c" and ch: "ch = 2 * r + 1 \<or> ch = 2 * r + 2" "ch < length c"
    and worst: "\<And>i. i < length c \<Longrightarrow> i = 2 * r + 1 \<or> i = 2 * r + 2 \<Longrightarrow> tp_rank (c ! i) \<le> tp_rank (c ! ch)"
    and less: "tp_rank (c ! r) \<le> tp_rank (c ! ch)"
  shows "heap_but j ch (swap_at c r ch)"
proof -
  have n: "swap_at c r ch ! i = (if i = ch then c ! r else if i = r then c ! ch else c ! i)" if "i < length c" for i
    using that r ch by (simp add: swap_at_def nth_list_update)
  have l: "length (swap_at c r ch) = length c" by (simp add: swap_at_def)
  have pch: "(ch - 1) div 2 = r" "ch \<noteq> r" "0 < ch" using ch parent_iff [of ch r] by auto
  have par: "(i - 1) div 2 < length c" if "i < length c" for i using that by linarith
  have old: "tp_rank (c ! i) \<le> tp_rank (c ! ((i - 1) div 2))" if "0 < i" "i < length c" "j \<le> (i - 1) div 2" "(i - 1) div 2 \<noteq> r" for i
    using hb that by (simp add: heap_but_def)
  have up: "tp_rank (c ! ch) \<le> tp_rank (c ! ((r - 1) div 2))" if "0 < r" "j \<le> (r - 1) div 2"
    using hb that ch(2) pch unfolding heap_but_def by blast
  show ?thesis
    unfolding heap_but_def l
  proof (intro conjI allI impI)
    fix i assume h: "0 < i \<and> i < length c \<and> j \<le> (i - 1) div 2 \<and> (i - 1) div 2 \<noteq> ch"
    show "tp_rank (swap_at c r ch ! i) \<le> tp_rank (swap_at c r ch ! ((i - 1) div 2))"
    proof (cases "(i - 1) div 2 = r")
      case True
      then have "i = 2 * r + 1 \<or> i = 2 * r + 2" "i \<noteq> r" using parent_iff [of i r] h by auto
      then show ?thesis using worst [of i] less n [of i] n [of r] h r True pch(2) by auto
    next
      case False
      then have "i \<noteq> ch" using pch(1) by auto
      then show ?thesis using old [of i] up n [of i] n [OF par, of i] h False by (cases "i = r") auto
    qed
  next
    fix i assume h: "0 < ch \<and> j \<le> (ch - 1) div 2" "0 < i \<and> i < length c \<and> (i - 1) div 2 = ch"
    have "i \<noteq> ch" "i \<noteq> r" using h(2) ch by auto
    moreover have "tp_rank (c ! i) \<le> tp_rank (c ! ch)" using old [of i] h pch ch by auto
    ultimately show "tp_rank (swap_at c r ch ! i) \<le> tp_rank (swap_at c r ch ! ((ch - 1) div 2))"
      using n [of i] n [of r] h r pch by simp
  qed
qed

lemma siftDown_spec:
  assumes "no_nan c" "r < length c" "heap_but j r c"
  shows "mset (siftDownTokenProbs c r) = mset c \<and> heap_from j (siftDownTokenProbs c r)"
  using assms
proof (induction c r rule: siftDownTokenProbs.induct)
  case (1 c r)
  let ?a = "2 * r + 1"
  show ?case
  proof (cases "?a \<ge> length c")
    case True
    then have "heap_from j c" by (intro heap_but_done [OF 1(4)]) auto
    then show ?thesis using True by (subst (1 2) siftDownTokenProbs.simps) (simp add: Let_def)
  next
    case False
    define ch where "ch = (if ?a + 1 < length c \<and> tokenProbLess (c ! ?a) (c ! (?a + 1)) then ?a + 1 else ?a)"
    have ch: "ch = 2 * r + 1 \<or> ch = 2 * r + 2" "ch < length c" using False by (auto simp: ch_def)
    have worst: "tp_rank (c ! i) \<le> tp_rank (c ! ch)" if "i < length c" "i = 2 * r + 1 \<or> i = 2 * r + 2" for i
      using that less_rank_nth [OF 1(2), of ?a "?a + 1"] by (auto simp: ch_def not_less intro: less_imp_le)
    note lr = less_rank_nth [OF 1(2,3) ch(2)]
    have step: "siftDownTokenProbs c r = (if \<not> tokenProbLess (c ! r) (c ! ch) then c else siftDownTokenProbs (swap_at c r ch) ch)"
      using False by (subst siftDownTokenProbs.simps) (simp add: Let_def ch_def)
    show ?thesis
    proof (cases "tokenProbLess (c ! r) (c ! ch)")
      case True
      have "mset (siftDownTokenProbs (swap_at c r ch) ch) = mset (swap_at c r ch) \<and> heap_from j (siftDownTokenProbs (swap_at c r ch) ch)"
      proof (rule 1(1) [OF refl False, of ch])
        show "ch = (if ?a + 1 < length c \<and> tokenProbLess (c ! ?a) (c ! (?a + 1)) then ?a + 1 else ?a)" by (rule ch_def)
        show "\<not> \<not> tokenProbLess (c ! r) (c ! ch)" using True by simp
        show "no_nan (swap_at c r ch)" using no_nan_swap [OF 1(3) ch(2)] 1(2) by simp
        show "ch < length (swap_at c r ch)" using ch(2) by (simp add: swap_at_def)
        show "heap_but j ch (swap_at c r ch)"
          using True lr by (intro heap_but_swap [OF 1(4,3) ch]) (simp_all add: worst less_imp_le)
      qed
      then show ?thesis using True step 1(3) ch(2) by (simp add: swap_at_def mset_swap)
    next
      case no: False
      then have "tp_rank (c ! ch) \<le> tp_rank (c ! r)" using lr by (simp add: not_less)
      then have "heap_from j c" using worst by (intro heap_but_done [OF 1(4)]) (blast intro: order_trans)
      then show ?thesis using no step by simp
    qed
  qed
qed

lemma heap_from_but: "heap_from (Suc j) c \<Longrightarrow> heap_but j j c"
  unfolding heap_but_def heap_from_def
proof (intro conjI allI impI)
  fix i
  assume h: "\<forall>i. 0 < i \<and> i < length c \<and> Suc j \<le> (i - 1) div 2 \<longrightarrow> tp_rank (c ! i) \<le> tp_rank (c ! ((i - 1) div 2))"
    "0 < i \<and> i < length c \<and> j \<le> (i - 1) div 2 \<and> (i - 1) div 2 \<noteq> j"
  then have "Suc j \<le> (i - 1) div 2" by linarith
  then show "tp_rank (c ! i) \<le> tp_rank (c ! ((i - 1) div 2))" using h by blast
next
  fix i assume "0 < j \<and> j \<le> (j - 1) div 2"
  then show "tp_rank (c ! i) \<le> tp_rank (c ! ((j - 1) div 2))" by linarith
qed

lemma topk_heapify_spec:
  assumes "no_nan c"
  shows "mset (topk_heapify c) = mset c \<and> heap_from 0 (topk_heapify c)"
proof -
  let ?f = "\<lambda>j c. siftDownTokenProbs c j"
  have "n \<le> length c div 2 \<Longrightarrow> mset d = mset c \<Longrightarrow> heap_from n d
      \<Longrightarrow> mset (fold ?f (rev [0..<n]) d) = mset c \<and> heap_from 0 (fold ?f (rev [0..<n]) d)" for n d
  proof (induction n arbitrary: d)
    case (Suc n)
    have d: "length d = length c" "no_nan d" using mset_eq_length [OF Suc.prems(2)] no_nan_mset [OF Suc.prems(2)] assms by simp_all
    have "n < length d" using Suc.prems(1) d(1) by linarith
    then have "mset (?f n d) = mset d \<and> heap_from n (?f n d)" using siftDown_spec [OF d(2)] heap_from_but [OF Suc.prems(3)] by blast
    then show ?case using Suc.IH [of "?f n d"] Suc.prems by simp
  qed simp
  moreover have "heap_from (length c div 2) c" unfolding heap_from_def by (intro allI impI) linarith
  ultimately show ?thesis by (simp add: topk_heapify_def)
qed

lemma heap_root_worst: "heap_from 0 c \<Longrightarrow> i < length c \<Longrightarrow> tp_rank (c ! i) \<le> tp_rank (c ! 0)"
proof (induction i rule: less_induct)
  case (less i)
  show ?case
  proof (cases "i = 0")
    case False
    then have p: "(i - 1) div 2 < i" by linarith
    then have "tp_rank (c ! ((i - 1) div 2)) \<le> tp_rank (c ! 0)" using less by (metis order.strict_trans)
    moreover have "tp_rank (c ! i) \<le> tp_rank (c ! ((i - 1) div 2))" using less False by (simp add: heap_from_def)
    ultimately show ?thesis by (rule order_trans [rotated])
  qed simp
qed

lemma replace_root:
  assumes "no_nan c" "heap_from 0 c" "c \<noteq> []" "\<not> f32_nan (tp_Prob t)"
  shows "mset (siftDownTokenProbs (c[0 := t]) 0) = mset (t # tl c) \<and> heap_from 0 (siftDownTokenProbs (c[0 := t]) 0)"
proof -
  have e: "c[0 := t] = t # tl c" using assms(3) by (cases c) simp_all
  have "no_nan (c[0 := t])" using assms(1,3,4) unfolding e by (cases c) (simp_all add: no_nan_def)
  moreover have "heap_but 0 0 (c[0 := t])"
    using assms(2) unfolding heap_but_def heap_from_def by (auto simp: nth_list_update)
  ultimately show ?thesis using siftDown_spec [of "c[0 := t]" 0 0] assms(3) unfolding e by simp
qed

section \<open>The best finite logits\<close>

text \<open>The reference: all finite logits with their tokens, numbered from \<open>i\<close>, and the best \<open>k\<close> of them.\<close>

fun finite_candidates :: "nat \<Rightarrow> f32 list \<Rightarrow> TokenProb list" where
  "finite_candidates i [] = []"
| "finite_candidates i (v # vs) = (if finite32 v then [\<lparr>tp_Token = i, tp_Prob = v\<rparr>] else []) @ finite_candidates (Suc i) vs"

definition best_candidates :: "nat \<Rightarrow> f32 list \<Rightarrow> TokenProb list" where
  "best_candidates k logits = take k (sort_key tp_rank (finite_candidates 0 logits))"

lemma finite_candidates_append:
  "finite_candidates i (us @ vs) = finite_candidates i us @ finite_candidates (i + length us) vs"
  by (induction us arbitrary: i) simp_all

lemma finite_candidates_mem:
  "t \<in> set (finite_candidates i vs) \<Longrightarrow> i \<le> tp_Token t \<and> tp_Token t < i + length vs \<and> tp_Prob t = vs ! (tp_Token t - i) \<and> finite32 (tp_Prob t)"
proof (induction vs arbitrary: i)
  case (Cons v vs)
  show ?case
  proof (cases "t \<in> set (finite_candidates (Suc i) vs)")
    case True
    then show ?thesis using Cons.IH [of "Suc i"] by (auto simp: nth_Cons' Suc_diff_le)
  next
    case False
    then show ?thesis using Cons.prems by (auto split: if_splits)
  qed
qed simp

lemma finite_candidates_no_nan: "no_nan (finite_candidates i vs)"
  using finite_candidates_mem by (fastforce simp: no_nan_def)

lemma finite_candidates_distinct: "distinct (map tp_Token (finite_candidates i vs))"
proof (induction vs arbitrary: i)
  case (Cons v vs)
  have "i \<notin> tp_Token ` set (finite_candidates (Suc i) vs)" using finite_candidates_mem [of _ "Suc i" vs] by fastforce
  then show ?case using Cons by auto
qed simp

lemma rank_inj: "distinct (map tp_Token c) \<Longrightarrow> inj_on tp_rank (set c)"
  by (rule inj_onI) (auto simp: tp_rank_def distinct_map dest: inj_onD)

lemma topk_fill_split:
  "\<exists>us ws. vs = us @ ws \<and> topk_fill vs k i c = (c @ finite_candidates i us, i + length us)
     \<and> (length c \<le> k \<longrightarrow> length (c @ finite_candidates i us) \<le> k) \<and> (length (c @ finite_candidates i us) < k \<longrightarrow> ws = [])"
proof (induction vs arbitrary: i c)
  case (Cons v vs)
  show ?case
  proof (cases "length c < k")
    case True
    define d where "d = (if finite32 v then c @ [\<lparr>tp_Token = i, tp_Prob = v\<rparr>] else c)"
    obtain us ws where h: "vs = us @ ws" "topk_fill vs k (Suc i) d = (d @ finite_candidates (Suc i) us, Suc i + length us)"
      "length d \<le> k \<longrightarrow> length (d @ finite_candidates (Suc i) us) \<le> k" "length (d @ finite_candidates (Suc i) us) < k \<longrightarrow> ws = []"
      using Cons.IH [of "Suc i" d] by blast
    have e: "d @ finite_candidates (Suc i) us = c @ finite_candidates i (v # us)" by (simp add: d_def)
    have "topk_fill (v # vs) k i c = (c @ finite_candidates i (v # us), i + length (v # us))"
      using True h(2) unfolding e by (simp add: d_def)
    moreover have "length d \<le> k" using True by (simp add: d_def)
    ultimately show ?thesis using h(1,3,4) unfolding e by (intro exI [of _ "v # us"] exI [of _ ws]) simp
  next
    case False
    then show ?thesis by (intro exI [of _ "[]"] exI [of _ "v # vs"]) simp
  qed
qed simp

text \<open>The heap holds the best candidates seen: the others, \<open>rest\<close>, rank after each of them.\<close>

lemma topk_scan_spec:
  assumes "c \<noteq> []" "no_nan c" "heap_from 0 c" "\<forall>t \<in> set c. tp_Token t < i" "\<forall>x \<in> set c. \<forall>y \<in> set rest. tp_rank x \<le> tp_rank y"
  shows "\<exists>rest'. mset (topk_scan vs i c) + mset rest' = mset c + mset rest + mset (finite_candidates i vs)
    \<and> length (topk_scan vs i c) = length c \<and> (\<forall>x \<in> set (topk_scan vs i c). \<forall>y \<in> set rest'. tp_rank x \<le> tp_rank y)"
  using assms
proof (induction vs arbitrary: i c rest)
  case Nil
  then show ?case by (intro exI [of _ rest]) simp
next
  case (Cons v vs)
  let ?t = "\<lparr>tp_Token = i, tp_Prob = v\<rparr>"
  have root: "tp_rank x \<le> tp_rank (c ! 0)" if "x \<in> set c" for x
    using that heap_root_worst [OF Cons.prems(3)] by (auto simp: in_set_conv_nth)
  have c0: "c ! 0 \<in> set c" "c = c ! 0 # tl c" using Cons.prems(1) by (cases c; simp)+
  have older: "\<forall>t \<in> set c. tp_Token t < Suc i" using Cons.prems(4) by (simp add: less_SucI)
  show ?case
  proof (cases "f32_less (tp_Prob (c ! 0)) v \<and> finite32 v")
    case True
    define d where "d = siftDownTokenProbs (c[0 := ?t]) 0"
    have nn: "\<not> f32_nan (tp_Prob ?t)" using True by simp
    have d: "mset d = mset (?t # tl c)" "heap_from 0 d" using replace_root [OF Cons.prems(2,3,1) nn] by (simp_all add: d_def)
    have sd: "set d = insert ?t (set (tl c))" using arg_cong [OF d(1), of set_mset] by simp
    have sub: "set (tl c) \<subseteq> set c" using c0(2) by (metis set_subset_Cons)
    have new: "tp_rank ?t < tp_rank (c ! 0)" using True by (auto simp: tp_rank_def f32_less_def less_prod_def)
    have "\<exists>rest'. mset (topk_scan vs (Suc i) d) + mset rest' = mset d + mset (c ! 0 # rest) + mset (finite_candidates (Suc i) vs)
        \<and> length (topk_scan vs (Suc i) d) = length d \<and> (\<forall>x \<in> set (topk_scan vs (Suc i) d). \<forall>y \<in> set rest'. tp_rank x \<le> tp_rank y)"
    proof (rule Cons.IH)
      show "d \<noteq> []" using d(1) by auto
      show "no_nan d" using Cons.prems(2) sub nn unfolding no_nan_def sd by auto
      show "heap_from 0 d" by (rule d(2))
      show "\<forall>t \<in> set d. tp_Token t < Suc i" using older sub unfolding sd by auto
      have "tp_rank x \<le> tp_rank (c ! 0)" if "x \<in> set d" for x using that root sub new unfolding sd by auto
      moreover have "\<forall>y \<in> set rest. tp_rank (c ! 0) \<le> tp_rank y" using Cons.prems(5) c0(1) by blast
      ultimately show "\<forall>x \<in> set d. \<forall>y \<in> set (c ! 0 # rest). tp_rank x \<le> tp_rank y" by (auto intro: order_trans)
    qed
    moreover have "mset d + mset (c ! 0 # rest) + mset (finite_candidates (Suc i) vs) = mset c + mset rest + mset (finite_candidates i (v # vs))"
      using arg_cong [OF c0(2), of mset] d(1) True by simp
    moreover have "length d = length c" using mset_eq_length [OF d(1)] c0(2) by (metis length_Cons)
    moreover have "topk_scan (v # vs) i c = topk_scan vs (Suc i) d" using True by (simp add: d_def)
    ultimately show ?thesis by (simp only:)
  next
    case False
    define rest2 where "rest2 = (if finite32 v then ?t # rest else rest)"
    have "\<forall>x \<in> set c. \<forall>y \<in> set rest2. tp_rank x \<le> tp_rank y"
    proof (cases "finite32 v")
      case f: True
      then have "f32_key v \<le> f32_key (tp_Prob (c ! 0))" using False no_nan_nth [OF Cons.prems(2), of 0] Cons.prems(1)
        by (auto simp: f32_less_def)
      then have "tp_rank (c ! 0) \<le> tp_rank ?t" using Cons.prems(4) c0(1) by (auto simp: tp_rank_def less_eq_prod_def)
      then show ?thesis using root Cons.prems(5) f by (auto simp: rest2_def intro: order_trans)
    qed (use Cons.prems(5) in \<open>simp add: rest2_def\<close>)
    from Cons.IH [OF Cons.prems(1-3) older this] show ?thesis using False by (cases "finite32 v") (simp_all add: rest2_def add.assoc)
  qed
qed

lemma topk_select_spec:
  assumes "1 \<le> k"
  shows "no_nan (topk_select logits k) \<and> (\<exists>rest. mset (topk_select logits k) + mset rest = mset (finite_candidates 0 logits)
    \<and> (length (topk_select logits k) = k \<or> rest = [] \<and> length (topk_select logits k) \<le> k)
    \<and> (\<forall>x \<in> set (topk_select logits k). \<forall>y \<in> set rest. tp_rank x \<le> tp_rank y))"
proof -
  obtain us ws where f: "logits = us @ ws" "topk_fill logits k 0 [] = (finite_candidates 0 us, length us)"
    "length (finite_candidates 0 us) \<le> k" "length (finite_candidates 0 us) < k \<longrightarrow> ws = []"
    using topk_fill_split [of logits k 0 "[]"] by auto
  let ?c = "finite_candidates 0 us"
  have "\<exists>rest. mset (topk_select logits k) + mset rest = mset (finite_candidates 0 logits)
    \<and> (length (topk_select logits k) = k \<or> rest = [] \<and> length (topk_select logits k) \<le> k)
    \<and> (\<forall>x \<in> set (topk_select logits k). \<forall>y \<in> set rest. tp_rank x \<le> tp_rank y)"
  proof (cases "length ?c = k")
    case False
    then have "ws = []" "topk_select logits k = ?c" using f by (simp_all add: topk_select_def)
    then show ?thesis using f by (intro exI [of _ "[]"]) simp
  next
    case True
    define d where "d = topk_heapify ?c"
    have d: "mset d = mset ?c" "heap_from 0 d" using topk_heapify_spec [OF finite_candidates_no_nan] by (simp_all add: d_def)
    have s: "topk_select logits k = topk_scan ws (length us) d" using True f by (simp add: topk_select_def d_def)
    have l: "length d = k" using mset_eq_length [OF d(1)] True by simp
    then have "d \<noteq> []" using assms by auto
    moreover have "no_nan d" using no_nan_mset [OF d(1)] finite_candidates_no_nan by simp
    moreover have "set d = set ?c" by (rule mset_eq_setD [OF d(1)])
    then have "\<forall>t \<in> set d. tp_Token t < length us" using finite_candidates_mem [of _ 0 us] by auto
    ultimately obtain rest where "mset (topk_scan ws (length us) d) + mset rest = mset d + mset (finite_candidates (length us) ws)"
      "length (topk_scan ws (length us) d) = length d" "\<forall>x \<in> set (topk_scan ws (length us) d). \<forall>y \<in> set rest. tp_rank x \<le> tp_rank y"
      using topk_scan_spec [of d "length us" "[]" ws] d(2) by auto
    then show ?thesis using s l d(1) f(1) by (intro exI [of _ rest]) (simp add: finite_candidates_append)
  qed
  moreover from this have "set (topk_select logits k) \<subseteq> set (finite_candidates 0 logits)"
    by (metis mset_subset_eq_add_left set_mset_mono set_mset_mset)
  then have "no_nan (topk_select logits k)" using finite_candidates_no_nan unfolding no_nan_def by blast
  ultimately show ?thesis by blast
qed

lemma topk_sorted:
  assumes "1 \<le> k"
  shows "sortTokenProbs (topk_select logits k) = Some (best_candidates k logits)"
proof -
  let ?s = "topk_select logits k" and ?all = "finite_candidates 0 logits"
  obtain rest where r: "no_nan ?s" "mset ?s + mset rest = mset ?all" "length ?s = k \<or> rest = [] \<and> length ?s \<le> k"
    "\<forall>x \<in> set ?s. \<forall>y \<in> set rest. tp_rank x \<le> tp_rank y"
    using topk_select_spec [OF assms] by blast
  obtain c where c: "sortTokenProbs ?s = Some c" "mset c = mset ?s" "ranked c" using sortTokenProbs_spec [OF r(1)] by blast
  let ?full = "c @ sort_key tp_rank rest"
  have "ranked ?full" using c(3) r(4) mset_eq_setD [OF c(2)] by (auto simp: sorted_append)
  moreover have "mset ?all = mset ?full" using r(2) c(2) by simp
  ultimately have "sort_key tp_rank ?all = ?full"
    by (intro sort_key_inj_key_eq rank_inj finite_candidates_distinct)
  moreover have "length c = length ?s" by (rule mset_eq_length [OF c(2)])
  ultimately have "best_candidates k logits = c" using r(3) unfolding best_candidates_def by auto
  then show ?thesis using c(1) by simp
qed

lemma best_candidates_mem:
  "t \<in> set (best_candidates k logits) \<Longrightarrow> tp_Token t < length logits \<and> tp_Prob t = logits ! tp_Token t \<and> finite32 (tp_Prob t)"
  using finite_candidates_mem [of t 0 logits] in_set_takeD [of t k "sort_key tp_rank (finite_candidates 0 logits)"]
  by (auto simp: best_candidates_def)

lemma best_candidates_Nil [simp]: "1 \<le> k \<Longrightarrow> best_candidates k logits = [] \<longleftrightarrow> finite_candidates 0 logits = []"
  by (auto simp: best_candidates_def) (metis length_0_conv length_sort)+

lemma finite_candidates_iff: "t \<in> set (finite_candidates i vs) \<longleftrightarrow>
    (\<exists>j < length vs. t = \<lparr>tp_Token = i + j, tp_Prob = vs ! j\<rparr> \<and> finite32 (vs ! j))"
proof (induction vs arbitrary: i)
  case (Cons v vs)
  have "(\<exists>j < length (v # vs). t = \<lparr>tp_Token = i + j, tp_Prob = (v # vs) ! j\<rparr> \<and> finite32 ((v # vs) ! j)) \<longleftrightarrow>
      (t = \<lparr>tp_Token = i, tp_Prob = v\<rparr> \<and> finite32 v) \<or> (\<exists>j < length vs. t = \<lparr>tp_Token = Suc i + j, tp_Prob = vs ! j\<rparr> \<and> finite32 (vs ! j))"
    by (auto simp: less_Suc_eq_0_disj)
  then show ?case using Cons [of "Suc i"] by auto
qed simp

section \<open>Greedy choice\<close>

lemma clean_key: "f32_key (clean v) = (if finite32 v then f32_key v else - 0x7F800000)" "\<not> f32_nan (clean v)"
proof -
  have "f32_key negInf32 = - 0x7F800000" by (simp add: f32_key_def f32_neg_def f32_mag_def)
  then show "f32_key (clean v) = (if finite32 v then f32_key v else - 0x7F800000)" by (simp add: clean_def)
  have "\<not> f32_nan negInf32" by (simp add: f32_nan_def f32_mag_def)
  then show "\<not> f32_nan (clean v)" by (simp add: clean_def)
qed

lemma finite_key: "finite32 v \<Longrightarrow> - 0x7F800000 < f32_key v"
  by (simp add: finite32_mag f32_key_def)

lemma argmaxFinite_spec:
  assumes "logits \<noteq> []"
  shows "\<exists>t. argmaxFiniteToken logits = Some (t, map clean logits) \<and> t < length logits
    \<and> (\<forall>i < length logits. f32_key (clean (logits ! i)) \<le> f32_key (clean (logits ! t)) \<and> (i < t \<longrightarrow> f32_key (clean (logits ! i)) < f32_key (clean (logits ! t))))"
proof -
  let ?f = "\<lambda>i (best, bestValue). let v = clean (logits ! i) in if f32_less bestValue v then (i, v) else (best, bestValue)"
  let ?k = "\<lambda>i. f32_key (clean (logits ! i))"
  have "\<exists>t. fold ?f [1..<Suc n] (0, clean (logits ! 0)) = (t, clean (logits ! t)) \<and> t \<le> n \<and> (\<forall>i \<le> n. ?k i \<le> ?k t \<and> (i < t \<longrightarrow> ?k i < ?k t))" for n
  proof (induction n)
    case (Suc n)
    then obtain t where t: "fold ?f [1..<Suc n] (0, clean (logits ! 0)) = (t, clean (logits ! t))" "t \<le> n"
      "\<forall>i \<le> n. ?k i \<le> ?k t \<and> (i < t \<longrightarrow> ?k i < ?k t)" by blast
    have e: "fold ?f [1..<Suc (Suc n)] (0, clean (logits ! 0)) = ?f (Suc n) (t, clean (logits ! t))" using t(1) by simp
    show ?case
    proof (cases "?k t < ?k (Suc n)")
      case True
      then have "?f (Suc n) (t, clean (logits ! t)) = (Suc n, clean (logits ! Suc n))" by (simp add: f32_less_def clean_key(2))
      moreover have "?k i < ?k (Suc n)" if "i \<le> n" for i using t(3) that True by (meson le_less_trans)
      ultimately show ?thesis unfolding e by (intro exI [of _ "Suc n"]) (auto simp: le_Suc_eq less_imp_le)
    next
      case False
      then have "?f (Suc n) (t, clean (logits ! t)) = (t, clean (logits ! t))" by (simp add: f32_less_def)
      then show ?thesis unfolding e using t(2,3) False by (intro exI [of _ t]) (auto simp: le_Suc_eq not_less)
    qed
  qed simp
  from this [of "length logits - 1"] obtain t where t: "fold ?f [1..<length logits] (0, clean (logits ! 0)) = (t, clean (logits ! t))"
    "t \<le> length logits - 1" "\<forall>i \<le> length logits - 1. ?k i \<le> ?k t \<and> (i < t \<longrightarrow> ?k i < ?k t)" using assms by auto
  have "argmaxFiniteToken logits = Some (t, map clean logits)" using t(1) assms by (simp only: argmaxFiniteToken_def if_False fst_conv)
  moreover have "t < length logits" using t(2) assms by (cases logits) simp_all
  moreover have "i \<le> length logits - 1" if "i < length logits" for i using that by simp
  ultimately show ?thesis using t(3) by (intro exI [of _ t]) simp
qed

lemma argmaxFinite_best:
  assumes "logits \<noteq> []" "argmaxFiniteToken logits = Some (t, l)" "finite_candidates 0 logits \<noteq> []"
  shows "best_candidates 1 logits = [\<lparr>tp_Token = t, tp_Prob = logits ! t\<rparr>]"
proof -
  let ?k = "\<lambda>i. f32_key (clean (logits ! i))"
  let ?t = "\<lparr>tp_Token = t, tp_Prob = logits ! t\<rparr>" and ?all = "finite_candidates 0 logits"
  have t: "t < length logits" "\<And>i. i < length logits \<Longrightarrow> ?k i \<le> ?k t" "\<And>i. i < t \<Longrightarrow> i < length logits \<Longrightarrow> ?k i < ?k t"
    using argmaxFinite_spec [OF assms(1)] assms(2) by auto
  obtain j where j: "j < length logits" "finite32 (logits ! j)" using assms(3) finite_candidates_iff [of _ 0 logits] by (metis list.set_intros(1) neq_Nil_conv)
  then have "- 0x7F800000 < ?k t" using t(2) [of j] finite_key [of "logits ! j"] by (simp add: clean_key(1))
  then have f: "finite32 (logits ! t)" by (simp add: clean_key(1) split: if_splits)
  then have mem: "?t \<in> set ?all" using t(1) by (simp add: finite_candidates_iff)
  have least: "tp_rank ?t \<le> tp_rank x" if mem_x: "x \<in> set ?all" for x
  proof -
    obtain i where i: "i < length logits" "x = \<lparr>tp_Token = i, tp_Prob = logits ! i\<rparr>" "finite32 (logits ! i)"
      using mem_x finite_candidates_iff [of x 0 logits] by auto
    then show ?thesis using t(2) [of i] t(3) [of i] f by (cases "i < t") (auto simp: tp_rank_def clean_key(1) less_eq_prod_def)
  qed
  obtain x xs where x: "sort_key tp_rank ?all = x # xs" using assms(3) by (cases "sort_key tp_rank ?all") (auto dest: arg_cong [of _ _ length])
  have s: "set (x # xs) = set ?all" "sorted (map tp_rank (x # xs))" using x by (metis set_sort, metis sorted_sort_key)
  have "tp_rank x \<le> tp_rank ?t" using s mem by auto
  then have "tp_rank x = tp_rank ?t" using least [of x] s(1) by fastforce
  then have "x = ?t" using inj_onD [OF rank_inj [OF finite_candidates_distinct [of 0 logits]]] mem s(1) by fastforce
  then show ?thesis using x by (simp add: best_candidates_def)
qed

section \<open>Cutoffs and draws\<close>

lemma first_above_bound: "first_above fl r s ps = Some i \<Longrightarrow> i < length ps"
  by (induction fl r s ps arbitrary: i rule: first_above.induct) (auto simp: Let_def split: if_splits)

lemma min_p_cutoff_bounds:
  assumes "c \<noteq> []" "min_p_cutoff fl minP c = (cutoff, mass)"
  shows "1 \<le> cutoff \<and> cutoff \<le> length c"
  using assms by (auto simp: min_p_cutoff_def Let_def find_Some_iff Suc_le_eq split: option.splits)

lemma top_p_cutoff_bounds:
  assumes "1 \<le> cutoff" "cutoff \<le> length c" "top_p_cutoff fl target cutoff c = (cutoff', kept)"
  shows "1 \<le> cutoff' \<and> cutoff' \<le> length c"
  using assms first_above_bound [of fl target f32_zero "map tp_Prob (take cutoff c)"]
  by (fastforce simp: top_p_cutoff_def split: option.splits)

lemma draw_candidate_spec:
  assumes "1 \<le> cutoff" "cutoff \<le> length c"
  shows "\<exists>t rng'. draw_candidate fl kept cutoff c rng = Some (t, rng') \<and> t \<in> tp_Token ` set c"
proof -
  have "first_above fl r f32_zero (map tp_Prob (take cutoff c)) = Some i \<Longrightarrow> i < length c" for r i
    using first_above_bound [of fl r f32_zero "map tp_Prob (take cutoff c)" i] assms by simp
  then show ?thesis using assms by (auto simp: draw_candidate_def Let_def split: prod.splits option.splits)
qed

lemma sampleTopK_spec:
  assumes "logits \<noteq> []" "1 \<le> k"
  shows "\<exists>t l rng'. sampleTopK fl logits k topP minP invTemp rng = Some (t, l, rng') \<and> t < length logits \<and> length l = length logits
    \<and> (finite_candidates 0 logits \<noteq> [] \<longrightarrow> t \<in> tp_Token ` set (best_candidates k logits))"
proof -
  let ?c = "best_candidates k logits"
  note lt = best_candidates_mem [of _ k logits]
  show ?thesis
  proof (cases "finite_candidates 0 logits = []")
    case True
    then show ?thesis using argmaxFinite_spec [OF assms(1)] topk_sorted [OF assms(2), of logits] assms(2) by (auto simp: sampleTopK_def)
  next
    case False
    then have c: "?c \<noteq> []" using assms(2) by simp
    then have c0: "tp_Prob (?c ! 0) \<noteq> negInf32" using lt [of "?c ! 0"] by fastforce
    define e where "e = map (\<lambda>t. t\<lparr>tp_Prob := fexp fl (fmul fl (fsub fl (tp_Prob t) (tp_Prob (?c ! 0))) invTemp)\<rparr>) ?c"
    have e: "e \<noteq> []" "tp_Token ` set e = tp_Token ` set ?c" using c by (simp_all add: e_def image_image)
    define q where "q = (if f32_less f32_zero minP then min_p_cutoff fl minP e else (length ?c, sum_probs fl e))"
    define q' where "q' = (if f32_less topP f32_one then top_p_cutoff fl (fmul fl topP (snd q)) (fst q) e else q)"
    have le: "length e = length ?c" by (simp add: e_def)
    have q: "1 \<le> fst q \<and> fst q \<le> length e"
    proof (cases "f32_less f32_zero minP")
      case True
      then show ?thesis using min_p_cutoff_bounds [OF e(1), of fl minP "fst q" "snd q"] by (simp add: q_def)
    next
      case False
      then show ?thesis using c by (simp add: q_def le Suc_le_eq)
    qed
    then have q': "1 \<le> fst q'" "fst q' \<le> length e"
      using top_p_cutoff_bounds [of "fst q" e fl "fmul fl topP (snd q)" "fst q'" "snd q'"] by (auto simp: q'_def)
    have s: "sampleTopK fl logits k topP minP invTemp rng = (if f32_le (sum_probs fl e) f32_zero then Some (tp_Token (e ! 0), logits, rng)
        else if f32_le (snd q') f32_zero then Some (tp_Token (e ! 0), logits, rng)
        else map_option (\<lambda>(t, rng'). (t, logits, rng')) (draw_candidate fl (snd q') (fst q') e rng))"
      using c c0 topk_sorted [OF assms(2), of logits]
      by (simp add: sampleTopK_def Let_def e_def [symmetric] q_def [symmetric] split_def q'_def [symmetric] split del: if_split cong: if_cong)
    obtain t rng' where d: "draw_candidate fl (snd q') (fst q') e rng = Some (t, rng')" "t \<in> tp_Token ` set e"
      using draw_candidate_spec [OF q'] by blast
    have e0: "tp_Token (e ! 0) \<in> tp_Token ` set e" using e(1) by simp
    obtain u r where u: "sampleTopK fl logits k topP minP invTemp rng = Some (u, logits, r)" "u \<in> tp_Token ` set ?c"
    proof (cases "f32_le (sum_probs fl e) f32_zero \<or> f32_le (snd q') f32_zero")
      case True
      then have "sampleTopK fl logits k topP minP invTemp rng = Some (tp_Token (e ! 0), logits, rng)" unfolding s by auto
      then show ?thesis using that e0 e(2) by blast
    next
      case False
      then have "sampleTopK fl logits k topP minP invTemp rng = Some (t, logits, rng')" unfolding s d(1) by simp
      then show ?thesis using that d(2) e(2) by blast
    qed
    then obtain x where "x \<in> set ?c" "u = tp_Token x" by blast
    then have "u < length logits" using lt [of x] by simp
    then show ?thesis using u by blast
  qed
qed

section \<open>The greedy and top-k branches of the sampler\<close>

lemma length_penalty [simp]: "length (applyRepeatPenalty fl logits recent penalty) = length logits"
proof -
  let ?f = "\<lambda>tok logits. if unat tok < length logits then logits[unat tok := penalize fl penalty (logits ! unat tok)] else logits"
  have "length (fold ?f recent l) = length l" for l by (induction recent arbitrary: l) simp_all
  then show ?thesis by (simp add: applyRepeatPenalty_def)
qed

lemma Sample_branches:
  assumes "logits \<noteq> []" "p = applyRepeatPenalty fl logits recent (RepeatPenalty config)" "argmaxFiniteToken p = Some (g, map clean p)"
  shows "f32_less (Temperature config) f32_1e_6 \<Longrightarrow> SampleWithScratch fl logits config rng recent = Some (g, map clean p, rng)"
    and "TopK config = 1 \<Longrightarrow> 1 < length logits \<Longrightarrow> SampleWithScratch fl logits config rng recent = Some (g, map clean p, rng)"
    and "\<not> f32_less (Temperature config) f32_1e_6 \<Longrightarrow> 1 < TopK config \<Longrightarrow> TopK config < int (length logits) \<Longrightarrow>
      SampleWithScratch fl logits config rng recent =
        sampleTopK fl p (nat (TopK config)) (TopP config) (MinP config) (fdiv fl f32_one (Temperature config)) rng"
  using assms by (simp_all add: SampleWithScratch_def Let_def)

end
