(* ===== verification/Sampling_Contract.thy ===== *)
theory Sampling_Contract
  imports Sampling_Laws
begin

text \<open>
  What the sampler promises: the candidate sort is total and right, a token is always in range, greedy and
  top-k sampling only pick among the best finite logits. One promise of its comments fails: without top-k and
  top-p the last token can be drawn whatever its weight.
\<close>

section \<open>The generator\<close>

lemma xor_shift_zero:
  fixes x :: u64
  assumes "0 < k"
  shows "x XOR push_bit k x = 0 \<Longrightarrow> x = 0" "x XOR drop_bit k x = 0 \<Longrightarrow> x = 0"
proof -
  assume z: "x XOR push_bit k x = 0"
  have b: "bit x n \<longleftrightarrow> k \<le> n \<and> bit x (n - k)" if "n < 64" for n
    using arg_cong [OF z, of "\<lambda>w. bit w n"] that by (simp add: bit_simps)
  have "\<not> bit x n" for n
  proof (induction n rule: less_induct)
    case (less n)
    show ?case
    proof (cases "n < 64 \<and> k \<le> n")
      case True
      then show ?thesis using b [of n] less [of "n - k"] assms by simp
    next
      case False
      then show ?thesis using b [of n] bit_imp_le_length [of x n] by auto
    qed
  qed
  then show "x = 0" by (intro bit_word_eqI) simp
next
  assume z: "x XOR drop_bit k x = 0"
  have b: "bit x n \<longleftrightarrow> bit x (k + n)" for n
    using arg_cong [OF z, of "\<lambda>w. bit w n"] by (cases "n < 64") (auto simp: bit_simps dest: bit_imp_le_length)
  have "bit x n \<longleftrightarrow> bit x (m * k + n)" for m n by (induction m) (auto simp: b [of "_ * k + n"] add.assoc)
  moreover have "\<not> bit x (64 * k + n)" for n using assms bit_imp_le_length [of x "64 * k + n"] by auto
  ultimately show "x = 0" by (intro bit_word_eqI) (metis bit_0_eq bot_apply bot_bool_def)
qed

lemma rng_never_zero: "NewRng seed \<noteq> 0" "s \<noteq> 0 \<Longrightarrow> snd (NextF32 s) \<noteq> 0"
  using xor_shift_zero [of 13 s] xor_shift_zero [of 7 "s XOR push_bit 13 s"]
    xor_shift_zero [of 17 "(s XOR push_bit 13 s) XOR drop_bit 7 (s XOR push_bit 13 s)"]
  by (auto simp: NewRng_def NextF32_def rng_step_def Let_def)

section \<open>The sort\<close>

text \<open>
  C32. The in-place candidate sort: on candidates without NaN it ends, never leaves its slice, keeps every
  candidate and orders them by probability, highest first, and by token id where probabilities are equal.
\<close>

theorem sortTokenProbs_correct:
  assumes "\<forall>t \<in> set c. \<not> f32_nan (tp_Prob t)"
  shows "\<exists>c'. sortTokenProbs c = Some c' \<and> mset c' = mset c \<and> sorted_wrt (\<lambda>a b. \<not> tokenProbLess b a) c'"
proof -
  have n: "no_nan c" using assms by (simp add: no_nan_def)
  then obtain c' where c': "sortTokenProbs c = Some c'" "mset c' = mset c" "ranked c'" using sortTokenProbs_spec by blast
  have "no_nan c'" using n no_nan_mset [OF c'(2)] by simp
  then have "sorted_wrt (\<lambda>a b. \<not> tokenProbLess b a) c'"
    using c'(3) by (auto simp: sorted_wrt_iff_nth_less sorted_iff_nth_mono_less less_rank_nth not_less)
  then show ?thesis using c'(1,2) by blast
qed

definition sample_candidates :: "TokenProb list" where
  "sample_candidates = map (\<lambda>i. \<lparr>tp_Token = i, tp_Prob = word_of_nat (0x3F800000 + 7 * i mod 20)\<rparr>) [0..<20]"

lemma sample_candidates_no_nan: "\<forall>t \<in> set sample_candidates. \<not> f32_nan (tp_Prob t)"
  by code_simp

lemma sortTokenProbs_correct_witness:
  "\<exists>c'. sortTokenProbs sample_candidates = Some c' \<and> mset c' = mset sample_candidates"
  using sortTokenProbs_correct [OF sample_candidates_no_nan] by blast

section \<open>A token is always in range\<close>

lemma foldl_nan:
  assumes "\<And>a b. f32_nan a \<or> f32_nan b \<Longrightarrow> f32_nan (fadd fl a b)"
  shows "f32_nan s \<or> (\<exists>w \<in> set ws. f32_nan w) \<Longrightarrow> f32_nan (foldl (fadd fl) s ws)"
  using assms by (induction ws arbitrary: s) auto

lemma weight_candidates_tokens:
  "t \<in> set (weight_candidates fl ws mass topP minP) \<Longrightarrow> tp_Token t < length ws \<and> tp_Prob t \<in> set ws"
  by (auto simp: weight_candidates_def Let_def split: if_splits)

lemma argmaxToken_range: "logits \<noteq> [] \<Longrightarrow> argmaxToken logits < length logits"
proof -
  assume "logits \<noteq> []"
  have "fold (\<lambda>i best. if f32_less (logits ! best) (logits ! i) then i else best) [1..<n] 0 < max 1 n" for n
    by (induction n) auto
  from this [of "length logits"] show ?thesis using \<open>logits \<noteq> []\<close> by (auto simp: argmaxToken_def max_def Suc_le_eq split: if_splits)
qed

lemma sampleTopP_range:
  assumes "ws \<noteq> []" "\<forall>w \<in> set ws. \<not> f32_nan w"
  shows "\<exists>t rng'. sampleTopPFromWeights fl ws mass topP minP rng = Some (t, rng') \<and> t < length ws"
proof -
  let ?w = "weight_candidates fl ws mass topP minP"
  have "no_nan ?w" using weight_candidates_tokens assms(2) unfolding no_nan_def by blast
  then obtain c where c: "sortTokenProbs ?w = Some c" "mset c = mset ?w" using sortTokenProbs_spec by blast
  have tok: "t < length ws" if mem: "t \<in> tp_Token ` set c" for t
    using mem weight_candidates_tokens unfolding mset_eq_setD [OF c(2)] by blast
  obtain cutoff mass' where q: "(if f32_less f32_zero minP \<and> c \<noteq> [] then min_p_cutoff fl minP c else (length c, mass)) = (cutoff, mass')"
    by (rule prod.exhaust)
  obtain cutoff' kept where q': "top_p_cutoff fl (fmul fl topP mass') cutoff c = (cutoff', kept)" by (rule prod.exhaust)
  have s: "sampleTopPFromWeights fl ws mass topP minP rng = (if f32_le kept f32_zero \<or> \<not> finite32 kept then Some (argmaxToken ws, rng)
      else draw_candidate fl kept cutoff' c rng)"
    by (simp only: sampleTopPFromWeights_def c(1) Option.bind.simps Let_def q q' case_prod_conv)
  show ?thesis
  proof (cases "f32_le kept f32_zero \<or> \<not> finite32 kept")
    case True
    then show ?thesis using argmaxToken_range [OF assms(1)] unfolding s by simp
  next
    case False
    have "c \<noteq> []"
    proof
      assume "c = []"
      then have "kept = f32_zero" using q' by (simp add: top_p_cutoff_def sum_probs_def)
      then show False using False by (simp add: f32_le_def f32_nan_def f32_mag_def)
    qed
    then have "1 \<le> cutoff \<and> cutoff \<le> length c"
    proof (cases "f32_less f32_zero minP")
      case True
      then show ?thesis using min_p_cutoff_bounds [of c fl minP cutoff mass'] q \<open>c \<noteq> []\<close> by simp
    next
      case False
      then have "cutoff = length c" using q by simp
      then show ?thesis using \<open>c \<noteq> []\<close> by (cases c) simp_all
    qed
    then have "1 \<le> cutoff' \<and> cutoff' \<le> length c" using top_p_cutoff_bounds [OF _ _ q'] by blast
    then obtain t r where "draw_candidate fl kept cutoff' c rng = Some (t, r)" "t \<in> tp_Token ` set c"
      using draw_candidate_spec [of cutoff' c fl kept rng] by blast
    then show ?thesis using False tok unfolding s by simp
  qed
qed

lemma length_softmax [simp]: "length (softmax_terms fl invTemp logits) = length logits"
  by (simp add: softmax_terms_def Let_def)

text \<open>
  C31. For every configuration, history and seed the sampler returns, and returns a token of the vocabulary;
  the slice of logits keeps its length. Of the arithmetic it needs only that a sum with a NaN is a NaN.
\<close>

theorem Sample_in_range:
  assumes "\<forall>a b. f32_nan a \<or> f32_nan b \<longrightarrow> f32_nan (fadd fl a b)" "logits \<noteq> []"
  shows "\<exists>t l rng'. SampleWithScratch fl logits config rng recent = Some (t, l, rng') \<and> t < length logits \<and> length l = length logits"
proof -
  define p where "p = applyRepeatPenalty fl logits recent (RepeatPenalty config)"
  have p: "p \<noteq> []" "length p = length logits" using assms(2) by (auto simp: p_def simp flip: length_greater_0_conv)
  obtain g where g: "argmaxFiniteToken p = Some (g, map clean p)" "g < length logits" using argmaxFinite_spec [OF p(1)] p(2) by auto
  define it where "it = fdiv fl f32_one (Temperature config)"
  define ws where "ws = softmax_terms fl it p"
  define mass where "mass = foldl (fadd fl) f32_zero ws"
  have ws: "ws \<noteq> []" "length ws = length logits" using p by (auto simp: ws_def simp flip: length_greater_0_conv)
  have s: "SampleWithScratch fl logits config rng recent =
      (if f32_less (Temperature config) f32_1e_6 then Some (g, map clean p, rng)
       else if TopK config > 0 \<and> TopK config < int (length logits)
       then if TopK config = 1 then Some (g, map clean p, rng) else sampleTopK fl p (nat (TopK config)) (TopP config) (MinP config) it rng
       else if f32_le mass f32_zero \<or> \<not> finite32 mass then Some (argmaxToken ws, ws, rng)
       else if f32_less (TopP config) f32_one \<or> f32_less f32_zero (MinP config)
       then map_option (\<lambda>(t, rng'). (t, ws, rng')) (sampleTopPFromWeights fl ws mass (TopP config) (MinP config) rng)
       else let probs = map (\<lambda>x. fdiv fl x mass) ws; (t, rng') = sampleFromProbs fl probs rng in Some (t, probs, rng'))"
    using assms(2) by (simp add: SampleWithScratch_def Let_def p_def [symmetric] it_def [symmetric] ws_def [symmetric] mass_def [symmetric] g
        split del: if_split cong: if_cong)
  consider "f32_less (Temperature config) f32_1e_6 \<or> TopK config = 1 \<and> 1 < int (length logits)"
    | "\<not> f32_less (Temperature config) f32_1e_6" "TopK config > 1" "TopK config < int (length logits)"
    | "\<not> f32_less (Temperature config) f32_1e_6" "\<not> (TopK config > 0 \<and> TopK config < int (length logits))"
    by linarith
  then show ?thesis
  proof cases
    case 1
    then show ?thesis using Sample_branches(1,2) [OF assms(2) p_def g(1)] g(2) p(2) by auto
  next
    case 2
    then have "1 \<le> nat (TopK config)" by simp
    then show ?thesis using sampleTopK_spec [OF p(1), of "nat (TopK config)" fl] p(2)
      unfolding Sample_branches(3) [OF assms(2) p_def g(1) 2] by metis
  next
    case 3
    show ?thesis
    proof (cases "f32_le mass f32_zero \<or> \<not> finite32 mass")
      case True
      then show ?thesis using 3 argmaxToken_range [OF ws(1)] ws(2) unfolding s by auto
    next
      case False
      then have "\<not> f32_nan mass" using finite32_not_nan by blast
      then have nn: "\<forall>w \<in> set ws. \<not> f32_nan w" using foldl_nan [of fl f32_zero ws] assms(1) unfolding mass_def by blast
      obtain t r where t: "sampleTopPFromWeights fl ws mass (TopP config) (MinP config) rng = Some (t, r)" "t < length ws"
        using sampleTopP_range [OF ws(1) nn] by blast
      obtain u r' where u: "sampleFromProbs fl (map (\<lambda>x. fdiv fl x mass) ws) rng = (u, r')" by (cases "sampleFromProbs fl (map (\<lambda>x. fdiv fl x mass) ws) rng")
      then have "u < length ws" using ws(1) first_above_bound [of fl _ f32_zero "map (\<lambda>x. fdiv fl x mass) ws"]
        by (fastforce simp: sampleFromProbs_def split: prod.splits option.splits)
      moreover have "SampleWithScratch fl logits config rng recent =
          (if f32_less (TopP config) f32_one \<or> f32_less f32_zero (MinP config) then Some (t, ws, r) else Some (u, map (\<lambda>x. fdiv fl x mass) ws, r'))"
        unfolding s Let_def t(1) u using 3 False by (simp only: if_False if_True case_prod_conv option.map)
      ultimately show ?thesis using t(2) ws(2) by simp
    qed
  qed
qed

lemma ieee_add_nan: "f32_nan a \<or> f32_nan b \<Longrightarrow> f32_nan (fadd (ieee32 e) a b)"
proof -
  have "f32_nan f32_quiet_nan" by (simp add: f32_nan_def f32_mag_def)
  then show "f32_nan a \<or> f32_nan b \<Longrightarrow> f32_nan (fadd (ieee32 e) a b)" by (simp add: ieee32_def ieee_add_def)
qed

lemma Sample_in_range_witness:
  "\<exists>t l rng'. SampleWithScratch (ieee32 (\<lambda>x. x)) [f32_one, negInf32, f32_quiet_nan] DefaultSamplerConfig 5 [1] = Some (t, l, rng') \<and> t < 3"
  using Sample_in_range [of "ieee32 (\<lambda>x. x)" "[f32_one, negInf32, f32_quiet_nan]" DefaultSamplerConfig 5 "[1]"] ieee_add_nan by auto

section \<open>The best tokens\<close>

text \<open>
  C30. Greedy and top-k sampling agree with sorting the whole vocabulary: of the penalised logits that are
  finite, only the best \<open>k\<close> can be picked, higher logit first and lower token id on a tie, with \<open>k = 1\<close> when the
  temperature is zero. So a masked token is never picked.
\<close>

theorem Sample_picks_best:
  assumes "logits \<noteq> []" "f32_less (Temperature config) f32_1e_6 \<or> 1 \<le> TopK config \<and> TopK config < int (length logits)"
    and "p = applyRepeatPenalty fl logits recent (RepeatPenalty config)" "\<exists>v \<in> set p. finite32 v"
    and "k = (if f32_less (Temperature config) f32_1e_6 then 1 else nat (TopK config))"
  shows "\<exists>t l rng'. SampleWithScratch fl logits config rng recent = Some (t, l, rng')
    \<and> \<lparr>tp_Token = t, tp_Prob = p ! t\<rparr> \<in> set (best_candidates k p) \<and> finite32 (p ! t)"
proof -
  have p: "p \<noteq> []" "length p = length logits" using assms(1,3) by (auto simp flip: length_greater_0_conv)
  have some: "finite_candidates 0 p \<noteq> []"
  proof
    assume none: "finite_candidates 0 p = []"
    obtain j where "j < length p" "finite32 (p ! j)" using assms(4) by (auto simp: in_set_conv_nth)
    then show False using finite_candidates_iff [of "\<lparr>tp_Token = j, tp_Prob = p ! j\<rparr>" 0 p] none by simp
  qed
  obtain g where g: "argmaxFiniteToken p = Some (g, map clean p)" using argmaxFinite_spec [OF p(1)] by auto
  note greedy = argmaxFinite_best [OF p(1) g some]
  show ?thesis
  proof (cases "k = 1")
    case True
    have "f32_less (Temperature config) f32_1e_6 \<or> TopK config = 1 \<and> 1 < length logits"
    proof (cases "f32_less (Temperature config) f32_1e_6")
      case False
      then have "nat (TopK config) = 1" using True assms(5) by simp
      then show ?thesis using False assms(2) by linarith
    qed simp
    then have "SampleWithScratch fl logits config rng recent = Some (g, map clean p, rng)"
      using Sample_branches(1,2) [OF assms(1,3) g] by blast
    then show ?thesis using greedy best_candidates_mem [of "\<lparr>tp_Token = g, tp_Prob = p ! g\<rparr>" 1 p] True by simp
  next
    case False
    then have t: "\<not> f32_less (Temperature config) f32_1e_6" using assms(5) by auto
    then have k: "k = nat (TopK config)" "1 \<le> TopK config" "TopK config < int (length logits)" using assms(2,5) by auto
    then have k1: "1 \<le> k" "1 < TopK config" using False by linarith+
    define it where "it = fdiv fl f32_one (Temperature config)"
    have e: "SampleWithScratch fl logits config rng recent = sampleTopK fl p k (TopP config) (MinP config) it rng"
      using Sample_branches(3) [OF assms(1,3) g t k1(2) k(3)] by (simp add: k(1) it_def)
    obtain t l r where t: "sampleTopK fl p k (TopP config) (MinP config) it rng = Some (t, l, r)" "t \<in> tp_Token ` set (best_candidates k p)"
      using sampleTopK_spec [OF p(1) k1(1), of fl "TopP config" "MinP config" it rng] some by blast
    then obtain x where x: "x \<in> set (best_candidates k p)" "t = tp_Token x" by blast
    have m: "tp_Prob x = p ! t" "finite32 (p ! t)" using best_candidates_mem [OF x(1)] x(2) by (simp, metis)
    have "\<lparr>tp_Token = tp_Token x, tp_Prob = tp_Prob x\<rparr> = x" by simp
    then have "\<lparr>tp_Token = t, tp_Prob = p ! t\<rparr> = x" by (simp only: x(2) m(1) [unfolded x(2)])
    then have "\<lparr>tp_Token = t, tp_Prob = p ! t\<rparr> \<in> set (best_candidates k p)" "finite32 (p ! t)" using x(1) m(2) by simp_all
    moreover have "SampleWithScratch fl logits config rng recent = Some (t, l, r)" using e t(1) by simp
    ultimately show ?thesis by (metis (no_types))
  qed
qed

definition top2 :: SamplerConfig where
  "top2 = DefaultSamplerConfig\<lparr>TopK := 2, RepeatPenalty := f32_one\<rparr>"

lemma Sample_picks_best_witness:
  "\<exists>t l rng'. SampleWithScratch (ieee32 (\<lambda>x. x)) [f32_one, negInf32, 0x40000000] top2 5 [1] = Some (t, l, rng')
    \<and> finite32 ([f32_one, negInf32, 0x40000000] ! t)"
proof -
  have p: "[f32_one, negInf32, 0x40000000] = applyRepeatPenalty (ieee32 (\<lambda>x. x)) [f32_one, negInf32, 0x40000000] [1] (RepeatPenalty top2)"
    by (simp add: applyRepeatPenalty_def top2_def DefaultSamplerConfig_def f32_eq_def f32_nan_def f32_mag_def)
  have c: "1 \<le> TopK top2 \<and> TopK top2 < int (length [f32_one, negInf32, 0x40000000])" by (simp add: top2_def)
  have f: "\<exists>v \<in> set [f32_one, negInf32, 0x40000000]. finite32 v" by (simp add: finite32_def)
  show ?thesis using Sample_picks_best [OF _ disjI2 [OF c] p f refl] by blast
qed

section \<open>A masked token that is drawn\<close>

lemma sum_ones_1:
  "ieee_add 0 0x3F800000 = 0x3F800000"
  "ieee_add 0x3F800000 0x3F800000 = 0x40000000"
  "ieee_add 0x40000000 0x3F800000 = 0x40400000"
  "ieee_add 0x40400000 0x3F800000 = 0x40800000"
  by (simp_all add: ieee_eval)

lemma sum_ones_2:
  "ieee_add 0x40800000 0x3F800000 = 0x40A00000"
  "ieee_add 0x40A00000 0x3F800000 = 0x40C00000"
  "ieee_add 0x40C00000 0x3F800000 = 0x40E00000"
  "ieee_add 0x40E00000 0x3F800000 = 0x41000000"
  by (simp_all add: ieee_eval)

lemma sum_ones_3:
  "ieee_add 0x41000000 0x3F800000 = 0x41100000"
  "ieee_add 0x41100000 0x3F800000 = 0x41200000"
  "ieee_add 0x41200000 0x3F800000 = 0x41300000"
  "ieee_add 0x41300000 0x3F800000 = 0x41400000"
  by (simp_all add: ieee_eval)

lemma sum_ones_4:
  "ieee_add 0x41400000 0 = 0x41400000"
  by (simp_all add: ieee_eval)

lemmas sum_ones = sum_ones_1 sum_ones_2 sum_ones_3 sum_ones_4

lemma sum_twelfths_1:
  "ieee_add 0 0x3DAAAAAB = 0x3DAAAAAB"
  "ieee_add 0x3DAAAAAB 0x3DAAAAAB = 0x3E2AAAAB"
  "ieee_add 0x3E2AAAAB 0x3DAAAAAB = 0x3E800000"
  "ieee_add 0x3E800000 0x3DAAAAAB = 0x3EAAAAAB"
  by (simp_all add: ieee_eval)

lemma sum_twelfths_2:
  "ieee_add 0x3EAAAAAB 0x3DAAAAAB = 0x3ED55556"
  "ieee_add 0x3ED55556 0x3DAAAAAB = 0x3F000000"
  "ieee_add 0x3F000000 0x3DAAAAAB = 0x3F155555"
  "ieee_add 0x3F155555 0x3DAAAAAB = 0x3F2AAAAA"
  by (simp_all add: ieee_eval)

lemma sum_twelfths_3:
  "ieee_add 0x3F2AAAAA 0x3DAAAAAB = 0x3F3FFFFF"
  "ieee_add 0x3F3FFFFF 0x3DAAAAAB = 0x3F555554"
  "ieee_add 0x3F555554 0x3DAAAAAB = 0x3F6AAAA9"
  "ieee_add 0x3F6AAAA9 0x3DAAAAAB = 0x3F7FFFFE"
  by (simp_all add: ieee_eval)

lemma sum_twelfths_4:
  "ieee_add 0x3F7FFFFE 0 = 0x3F7FFFFE"
  by (simp_all add: ieee_eval)

lemmas sum_twelfths = sum_twelfths_1 sum_twelfths_2 sum_twelfths_3 sum_twelfths_4

lemma replicate_12: "replicate 12 x = [x, x, x, x, x, x, x, x, x, x, x, x]"
  by (simp add: numeral_eq_Suc)

lemma twelve_ones: "foldl ieee_add f32_zero (replicate 12 f32_one @ [0]) = 0x41400000"
  by (simp add: replicate_12 sum_ones)

lemma twelve_twelfths: "first_above (ieee32 e) 0x3F7FFFFF 0 (replicate 12 0x3DAAAAAB @ [0]) = None"
  by (simp add: sum_twelfths replicate_12 ieee32_def f32_eval)

lemma last_draw: "NextF32 0xAB4555CA962450E1 = (0x3F7FFFFF, 0xFFFFFF0000000000)"
  by code_simp

text \<open>
  C33. Without top-k, top-p and min-p a token with logit minus infinity can be sampled: the probabilities of
  twelve equal logits sum to less than one in float32, a draw above that sum falls through to the last token
  of the vocabulary, and that token is masked.
\<close>

theorem masked_token_drawn:
  assumes "e 0 = f32_one" "e negInf32 = 0"
    and "logits = replicate 12 0 @ [negInf32]"
    and "config = \<lparr>Temperature = f32_one, TopP = f32_one, TopK = 0, MinP = 0, RepeatPenalty = f32_one\<rparr>"
  shows "(\<exists>l rng'. SampleWithScratch (ieee32 e) logits config 0xAB4555CA962450E1 recent = Some (12, l, rng')) \<and> \<not> finite32 (logits ! 12)"
proof -
  define ws where "ws = replicate 12 f32_one @ [0]"
  define probs where "probs = replicate 12 (0x3DAAAAAB :: f32) @ [0]"
  have nonempty: "logits \<noteq> []" "length probs = 13" by (simp_all add: assms(3) probs_def)
  have one: "ieee_div f32_one f32_one = f32_one" "f32_eq f32_one f32_one" "\<not> f32_less f32_one f32_1e_6" "\<not> f32_less f32_one f32_one" "\<not> f32_less f32_zero 0"
    by code_simp+
  have top: "foldl (\<lambda>m v. if finite32 v then f32_max m v else m) negInf32 logits = 0" unfolding assms(3) by code_simp
  have sub: "ieee_sub 0 0 = 0" "ieee_sub negInf32 0 = negInf32" "clean 0 = 0" "clean negInf32 = negInf32" by code_simp+
  have soft: "softmax_terms (ieee32 e) f32_one logits = ws"
    unfolding softmax_terms_def Let_def top by (simp add: assms(1-3) one(2) ws_def ieee32_def sub)
  have mass: "foldl ieee_add f32_zero ws = 0x41400000" unfolding ws_def by (rule twelve_ones)
  have pos: "\<not> f32_le 0x41400000 f32_zero" "finite32 0x41400000" by code_simp+
  have "ieee_div f32_one 0x41400000 = 0x3DAAAAAB" "ieee_div 0 0x41400000 = 0" by (simp_all add: ieee_eval)
  then have probs: "map (\<lambda>p. ieee_div p 0x41400000) ws = probs" by (simp add: ws_def probs_def)
  have draw: "sampleFromProbs (ieee32 e) probs 0xAB4555CA962450E1 = (12, 0xFFFFFF0000000000)"
    using nonempty(2) twelve_twelfths by (simp add: sampleFromProbs_def last_draw probs_def)
  have "fdiv (ieee32 e) = ieee_div" "fadd (ieee32 e) = ieee_add" by (simp_all add: ieee32_def)
  then have "\<exists>l rng'. SampleWithScratch (ieee32 e) logits config 0xAB4555CA962450E1 recent = Some (12, l, rng')"
    using soft mass pos one nonempty(1) probs draw by (simp add: SampleWithScratch_def Let_def assms(4) applyRepeatPenalty_def)
  then show ?thesis by (simp add: assms(3) nth_append)
qed

definition exp_table :: "f32 \<Rightarrow> f32" where
  "exp_table x = (if x = 0 then f32_one else if x = negInf32 then 0 else f32_quiet_nan)"

lemma masked_token_drawn_witness:
  "\<exists>l rng'. SampleWithScratch (ieee32 exp_table) (replicate 12 0 @ [negInf32])
      \<lparr>Temperature = f32_one, TopP = f32_one, TopK = 0, MinP = 0, RepeatPenalty = f32_one\<rparr> 0xAB4555CA962450E1 [] = Some (12, l, rng')"
  using masked_token_drawn [of exp_table, OF _ _ refl refl, of "[]"] by (simp add: exp_table_def)

end
