(* ===== verification/Spec_Window.thy ===== *)
theory Spec_Window
  imports Complex_Main Go_Prelude
begin

text \<open>
  How many tokens to draft: the adaptive window of a generation (\<^verbatim>\<open>internal/engine/speculative_window.go\<close>) and the
  drafts copied from earlier text (\<^verbatim>\<open>internal/engine/speculative_lookup.go\<close>). Durations are nanoseconds measured by
  the caller; the \<open>float64\<close> operations on them are the record \<open>f64_ops\<close>.
\<close>

section \<open>The window\<close>

record 'd f64_ops =
  d_int :: "int \<Rightarrow> 'd"
  d_const :: "rat \<Rightarrow> 'd"
  d_add :: "'d \<Rightarrow> 'd \<Rightarrow> 'd"
  d_sub :: "'d \<Rightarrow> 'd \<Rightarrow> 'd"
  d_mul :: "'d \<Rightarrow> 'd \<Rightarrow> 'd"
  d_div :: "'d \<Rightarrow> 'd \<Rightarrow> 'd"
  d_less :: "'d \<Rightarrow> 'd \<Rightarrow> bool"
  d_le :: "'d \<Rightarrow> 'd \<Rightarrow> bool"
  d_eq :: "'d \<Rightarrow> 'd \<Rightarrow> bool"

definition speculativeSerialPause :: int where "speculativeSerialPause = 12"
definition speculativeDraftCap :: int where "speculativeDraftCap = 7"

record 'd speculativeWindowStats =
  ws_cost :: 'd
  ws_acceptance :: 'd
  ws_samples :: nat

record 'd speculativeWindow =
  maxIndex :: int
  w_index :: nat
  w_dwell :: nat
  w_misses :: nat
  w_pause :: int
  w_probing :: bool
  w_serial :: 'd
  w_sizes :: "int list"
  w_stats :: "'d speculativeWindowStats list"

record speculativeWindowSample =
  sw_Drafted :: int
  sw_Accepted :: int
  sw_Emitted :: int
  sw_Draft :: int
  sw_Verify :: int
  sw_Rollback :: int
  sw_SerialPerToken :: int
  sw_Requested :: int

text \<open>The sizes that fit below the cap, and the cap itself when it lies above them; unused slots are zero.\<close>

definition newSpeculativeWindow :: "'d f64_ops \<Rightarrow> int \<Rightarrow> 'd speculativeWindow" where
  "newSpeculativeWindow fl maxDraft =
    (let cap = min maxDraft speculativeDraftCap;
         fits = takeWhile (\<lambda>s. s \<le> cap) [1, 3, 7];
         used = (if fits \<noteq> [] \<and> last fits < cap then fits @ [cap] else fits)
     in \<lparr>maxIndex = int (length used) - 1, w_index = (if length used \<ge> 2 then 1 else 0), w_dwell = 0, w_misses = 0, w_pause = 0,
         w_probing = False, w_serial = d_int fl 0, w_sizes = used @ replicate (3 - length used) 0,
         w_stats = replicate 3 \<lparr>ws_cost = d_int fl 0, ws_acceptance = d_int fl 0, ws_samples = 0\<rparr>\<rparr>)"

definition window_limit :: "'d speculativeWindow \<Rightarrow> int \<Rightarrow> int \<Rightarrow> int \<times> 'd speculativeWindow" where
  "window_limit w contextSlots outputSlots =
    (if maxIndex w < 0 then (0, w)
     else
       let n = min (w_sizes w ! w_index w) (min contextSlots outputSlots)
       in if n \<le> 0 then (0, w)
          else if w_pause w > 0 then (0, w\<lparr>w_pause := w_pause w - 1\<rparr>)
          else (case find (\<lambda>i. w_sizes w ! i \<le> n) (rev [0..<Suc (w_index w)]) of None \<Rightarrow> 0 | Some i \<Rightarrow> w_sizes w ! i, w))"

definition sample_valid :: "speculativeWindowSample \<Rightarrow> bool" where
  "sample_valid s \<longleftrightarrow> 0 < sw_Drafted s \<and> 0 \<le> sw_Accepted s \<and> sw_Accepted s \<le> sw_Drafted s \<and> 0 < sw_Emitted s
     \<and> 0 \<le> sw_Draft s \<and> 0 \<le> sw_Verify s \<and> 0 \<le> sw_Rollback s"

text \<open>The slot of a sample, if it has one.\<close>

definition sample_slot :: "'d speculativeWindow \<Rightarrow> speculativeWindowSample \<Rightarrow> nat option" where
  "sample_slot w s =
    (let requested = (if sw_Requested s = 0 then sw_Drafted s else sw_Requested s)
     in if requested < sw_Drafted s \<or> requested > speculativeDraftCap then None
        else (case find (\<lambda>i. requested = w_sizes w ! i) [0..<length (w_stats w)] of
                None \<Rightarrow> None | Some i \<Rightarrow> if int i > maxIndex w then None else Some i))"

definition update_stats :: "'d f64_ops \<Rightarrow> 'd \<Rightarrow> speculativeWindowSample \<Rightarrow> 'd speculativeWindowStats \<Rightarrow> 'd speculativeWindowStats" where
  "update_stats fl elapsed s stat =
    (let cost = d_div fl elapsed (d_int fl (sw_Emitted s));
         acceptance = d_div fl (d_int fl (sw_Accepted s)) (d_int fl (sw_Drafted s));
         half = (\<lambda>old new. d_add fl old (d_mul fl (d_sub fl new old) (d_const fl (1/2))))
     in (if ws_samples stat = 0 then stat\<lparr>ws_cost := cost, ws_acceptance := acceptance\<rparr>
         else stat\<lparr>ws_cost := (if ws_samples stat = 1 then cost else half (ws_cost stat) cost),
                   ws_acceptance := half (ws_acceptance stat) acceptance\<rparr>)\<lparr>ws_samples := ws_samples stat + 1\<rparr>)"

text \<open>\<open>a > b * 1.10\<close>.\<close>

definition slower :: "'d f64_ops \<Rightarrow> 'd \<Rightarrow> 'd \<Rightarrow> bool" where
  "slower fl a b = d_less fl (d_mul fl b (d_const fl (11/10))) a"

definition slower_than_serial :: "'d f64_ops \<Rightarrow> 'd speculativeWindow \<Rightarrow> 'd \<Rightarrow> bool" where
  "slower_than_serial fl w c \<longleftrightarrow> d_less fl (d_int fl 0) (w_serial w) \<and> slower fl c (w_serial w)"

text \<open>The decision after three passes at a size.\<close>

definition adapt :: "'d f64_ops \<Rightarrow> 'd speculativeWindow \<Rightarrow> 'd speculativeWindowStats \<Rightarrow> 'd speculativeWindow" where
  "adapt fl w stat =
    (let i = w_index w;
         slow0 = slower_than_serial fl w (ws_cost stat);
         slow = (if i > 0 then slow0 \<or> (3 \<le> ws_samples (w_stats w ! (i - 1)) \<and> slower fl (ws_cost stat) (ws_cost (w_stats w ! (i - 1)))) else slow0);
         poor = d_less fl (ws_acceptance stat) (d_const fl (1/2))
     in if i > 0 \<and> slow \<and> d_le fl (d_const fl (85/100)) (ws_acceptance stat) \<and> int i < maxIndex w \<and> ws_samples (w_stats w ! (i + 1)) = 0
        then w\<lparr>w_index := i + 1, w_dwell := 0, w_probing := True\<rparr>
        else if i > 0 \<and> (slow \<or> poor) then w\<lparr>w_index := i - 1, w_dwell := 0\<rparr>
        else if i = 0 \<and> (slow \<or> poor) then w\<lparr>w_pause := speculativeSerialPause, w_dwell := 0\<rparr>
        else if int i \<ge> maxIndex w \<or> d_less fl (ws_acceptance stat) (d_const fl (3/4)) then w
        else
          let larger = w_stats w ! (i + 1);
              knownSlower = (3 \<le> ws_samples larger \<and> slower fl (ws_cost larger) (ws_cost stat))
          in if (slow \<or> knownSlower) \<and> w_dwell w < 12 then w else w\<lparr>w_index := i + 1, w_dwell := 0\<rparr>)"

definition window_observe :: "'d f64_ops \<Rightarrow> 'd speculativeWindow \<Rightarrow> speculativeWindowSample \<Rightarrow> 'd speculativeWindow" where
  "window_observe fl w s =
    (if maxIndex w < 0 \<or> \<not> sample_valid s then w
     else case sample_slot w s of None \<Rightarrow> w
     | Some i \<Rightarrow>
         let elapsed = d_add fl (d_add fl (d_int fl (sw_Draft s)) (d_int fl (sw_Verify s))) (d_int fl (sw_Rollback s));
             timed = d_less fl (d_int fl 0) elapsed;
             stat = (if timed then update_stats fl elapsed s (w_stats w ! i) else w_stats w ! i);
             serial = d_int fl (sw_SerialPerToken s);
             w1 = w\<lparr>w_stats := (w_stats w)[i := stat],
                    w_serial := (if sw_SerialPerToken s \<le> 0 then w_serial w
                       else if d_eq fl (w_serial w) (d_int fl 0) then serial
                       else d_add fl (w_serial w) (d_mul fl (d_sub fl serial (w_serial w)) (d_const fl (1/2))))\<rparr>
         in if i \<noteq> w_index w then w1
            else
              let w2 = w1\<lparr>w_misses := (if sw_Accepted s = 0 then w_misses w + 1 else 0)\<rparr>
              in if w_misses w2 \<ge> 2
                 then (if w_index w > 0 then w2\<lparr>w_index := w_index w - 1\<rparr> else w2\<lparr>w_pause := speculativeSerialPause\<rparr>)
                        \<lparr>w_misses := 0, w_dwell := 0, w_probing := False\<rparr>
                 else if d_le fl elapsed (d_int fl 0) then w2
                 else
                   let w3 = w2\<lparr>w_dwell := w_dwell w + 1, w_probing := False\<rparr>
                   in if w_probing w \<and> (d_less fl (ws_acceptance stat) (d_const fl (1/2))
                          \<or> slower fl (ws_cost stat) (ws_cost (w_stats w3 ! (w_index w - 1))) \<or> slower_than_serial fl w3 (ws_cost stat))
                      then w3\<lparr>w_index := w_index w - 1, w_dwell := 0\<rparr>
                      else if w_dwell w3 < 3 then w3 else adapt fl w3 stat)"

section \<open>Drafts from earlier text\<close>

definition promptLookupHistoryTokens :: nat where "promptLookupHistoryTokens = 8192"
definition promptLookupMaxNgram :: nat where "promptLookupMaxNgram = 64"

text \<open>The virtual history: the ends of the prompt and of the generated text, 8192 tokens at most.\<close>

definition lookup_history :: "u32 list \<Rightarrow> u32 list \<Rightarrow> u32 list" where
  "lookup_history prompt generated =
    (let g = min (length generated) promptLookupHistoryTokens; p = min (length prompt) (promptLookupHistoryTokens - g)
     in drop (length prompt - p) prompt @ drop (length generated - g) generated)"

text \<open>How many tokens before and at \<open>end\<close> equal the end of the history.\<close>

definition common_gram :: "u32 list \<Rightarrow> nat \<Rightarrow> nat \<Rightarrow> nat" where
  "common_gram h last_match bound = length (takeWhile (\<lambda>k. h ! (last_match - k) = h ! (length h - 1 - k)) [0..<bound])"

record lookup_best =
  lb_end :: "nat option"
  lb_gram :: nat
  lb_full :: bool

text \<open>One candidate ending; the flag stops the scan.\<close>

definition lookup_step :: "u32 list \<Rightarrow> nat \<Rightarrow> nat \<Rightarrow> nat \<Rightarrow> lookup_best \<Rightarrow> lookup_best \<times> bool" where
  "lookup_step h maxGram maxDraft e best =
    (let gram = common_gram h e (min maxGram (e + 1));
         full = (length h - e - 1 \<ge> maxDraft)
     in if gram < 4 then (best, False)
        else if gram > lb_gram best \<or> (gram = lb_gram best \<and> full \<and> \<not> lb_full best)
        then (\<lparr>lb_end = Some e, lb_gram = gram, lb_full = full\<rparr>, gram = maxGram \<and> full)
        else (best, False))"

fun lookup_scan :: "u32 list \<Rightarrow> nat \<Rightarrow> nat \<Rightarrow> nat list \<Rightarrow> lookup_best \<Rightarrow> lookup_best" where
  "lookup_scan h maxGram maxDraft [] best = best"
| "lookup_scan h maxGram maxDraft (e # es) best =
    (let (best', stop) = lookup_step h maxGram maxDraft e best in if stop then best' else lookup_scan h maxGram maxDraft es best')"

text \<open>The destination is fresh or non-overlapping storage, so only its contents matter.\<close>

definition promptLookupDraft :: "u32 list \<Rightarrow> u32 list \<Rightarrow> int \<Rightarrow> u32 list" where
  "promptLookupDraft prompt generated maxDraft =
    (if maxDraft \<le> 0 \<or> generated = [] then []
     else
       let h = lookup_history prompt generated; n = length h; m = nat maxDraft;
           maxGram = (if int n - maxDraft \<ge> 4 then min (min promptLookupMaxNgram (n - 1)) (n - m) else min promptLookupMaxNgram (n - 1));
           best = lookup_scan h maxGram m (rev [3..<n - 1]) \<lparr>lb_end = None, lb_gram = 0, lb_full = False\<rparr>
       in case lb_end best of None \<Rightarrow> [] | Some e \<Rightarrow> take m (drop (e + 1) h))"

end
