(* ===== verification/Decode_Loop.thy ===== *)
theory Decode_Loop
  imports Sampling Spec_Window Go_Strings Json_State
begin

text \<open>
  The decoding loop of a generation (\<^verbatim>\<open>internal/engine/runtime.go\<close>, with the block verification of
  \<^verbatim>\<open>speculative_verify.go\<close> and the JSON mask of \<^verbatim>\<open>structured_output.go\<close>): sampling or verifying a token, emitting
  it, stop sequences, streaming, and the limits. Parameters are the model (logits of the rows in the cache, the
  greedy shortcut, the predictions of a block, the drafts of the MTP head), the detokenizer, the callback and
  the clock. A context is cancelled as a function of the tokens generated so far.
\<close>

section \<open>The environment of a request\<close>

record 'd gen_env =
  ge_max :: nat
  ge_sampler :: SamplerConfig
  ge_stops :: "string list"
  ge_mtp :: nat
  ge_lookup :: nat
  ge_json :: bool
  ge_prompt :: "u32 list"
  ge_cacheLen :: nat
  ge_fl :: f32_ops
  ge_f64 :: "'d f64_ops"
  ge_text :: "u32 \<Rightarrow> string"
  ge_vocab :: nat
  ge_stop :: "u32 \<Rightarrow> bool"
  ge_sink :: "string list \<Rightarrow> string \<Rightarrow> bool"
  ge_ctx :: "nat \<Rightarrow> bool"
  ge_logits :: "u32 list \<Rightarrow> f32 list"
  ge_greedy :: bool
  ge_fast :: "u32 list \<Rightarrow> u32 list \<Rightarrow> u32 option"
  ge_verify :: bool
  ge_maxLen :: nat
  ge_block :: "u32 list \<Rightarrow> u32 list \<Rightarrow> u32 list list \<Rightarrow> u32 list"
  ge_mtp_draft :: "u32 list \<Rightarrow> u32 \<Rightarrow> nat \<Rightarrow> u32 list \<Rightarrow> u32 list"
  ge_time :: "nat \<Rightarrow> int \<times> int \<times> int \<times> int"
  ge_json_valid :: "string \<Rightarrow> bool"

record spec_stats =
  sp_Blocks :: nat
  sp_DraftedTokens :: nat
  sp_AcceptedTokens :: nat
  sp_DiscardedInputs :: nat

text \<open>\<open>gs_rows\<close> are the tokens whose rows are in the cache: its length is \<open>pos\<close>. \<open>gs_sent\<close> are the texts given to
  the callback.\<close>

record 'd gen_state =
  gs_rows :: "u32 list"
  gs_next :: "u32 option"
  gs_logits :: "f32 list"
  gs_rng :: u64
  gs_generated :: "u32 list"
  gs_recent :: "u32 list"
  gs_output :: string
  gs_stream :: string
  gs_sent :: "string list"
  gs_finish :: string
  gs_constraint :: "State option"
  gs_mtpWindow :: "'d speculativeWindow"
  gs_lookupWindow :: "'d speculativeWindow"
  gs_spec :: spec_stats

datatype gen_error = ContextDone | GenerationCanceled | NoValidJSONToken | ConstraintRejected | StructuredOutputIncomplete | CacheRange | SamplerPanic

datatype 'd loop_result = Continue "'d gen_state" | Break "'d gen_state" | Return gen_error "'d gen_state"

definition repeatPenaltyWindow :: nat where "repeatPenaltyWindow = 64"
definition speculativeMaxPositions :: nat where "speculativeMaxPositions = 8"

definition last_n :: "nat \<Rightarrow> 'a list \<Rightarrow> 'a list" where
  "last_n n xs = drop (length xs - n) xs"

definition recentTokenWindowInto :: "u32 list \<Rightarrow> u32 list" where
  "recentTokenWindowInto tokens = last_n repeatPenaltyWindow tokens"

definition generationCacheLen :: "int \<Rightarrow> int \<Rightarrow> int \<Rightarrow> int" where
  "generationCacheLen maxSeqLen promptTokens maxTokens =
    (let remaining = maxSeqLen - promptTokens
     in if maxTokens \<ge> remaining - 1 then maxSeqLen else wrap64 (promptTokens + maxTokens + 1))"

section \<open>Streaming\<close>

definition maxStopLen :: "'d gen_env \<Rightarrow> nat" where
  "maxStopLen env = foldl (\<lambda>m s. max m (length s)) 0 (ge_stops env)"

definition validUTF8PrefixLen :: "string \<Rightarrow> nat" where
  "validUTF8PrefixLen b =
    (if ValidString b then length b
     else case find (\<lambda>n. ValidString (take n b)) (rev [length b - 4..<length b]) of None \<Rightarrow> 0 | Some n \<Rightarrow> n)"

definition flushStream :: "'d gen_env \<Rightarrow> bool \<Rightarrow> 'd gen_state \<Rightarrow> bool \<times> 'd gen_state" where
  "flushStream env final st =
    (let buf = gs_stream st; n = validUTF8PrefixLen buf; hold = maxStopLen env - 1
     in if buf = [] then (True, st)
        else if n = 0 then (True, if final then st\<lparr>gs_stream := []\<rparr> else st)
        else if \<not> final \<and> maxStopLen env > 1 \<and> n \<le> hold then (True, st)
        else
          let n = (if \<not> final \<and> maxStopLen env > 1 then n - hold else n);
              sent = ge_sink env (gs_sent st) (take n buf);
              st = st\<lparr>gs_sent := gs_sent st @ [take n buf]\<rparr>
          in if \<not> sent then (False, st)
             else (True, st\<lparr>gs_stream := (if final \<and> \<not> ValidString (drop n buf) then [] else drop n buf)\<rparr>))"

section \<open>Emitting a token\<close>

text \<open>The place in the output where the first of the stop sequences that occurs begins.\<close>

fun find_stop :: "string list \<Rightarrow> string \<Rightarrow> nat option" where
  "find_stop [] window = None"
| "find_stop (s # ss) window = (case Index window s of Some i \<Rightarrow> Some i | None \<Rightarrow> find_stop ss window)"

definition emitToken :: "'d gen_env \<Rightarrow> u32 \<Rightarrow> 'd gen_state \<Rightarrow> bool \<times> bool \<times> 'd gen_state" where
  "emitToken env token st =
    (if ge_stop env token then (False, False, st\<lparr>gs_finish := ''stop''\<rparr>)
     else
       let t = ge_text env token;
           current = gs_output st @ t;
           windowStart = length current - maxStopLen env - length t
       in case (if maxStopLen env > 0 then find_stop (ge_stops env) (drop windowStart current) else None) of
            Some idx \<Rightarrow> (False, False, st\<lparr>gs_output := take (windowStart + idx) current, gs_stream := [], gs_finish := ''stop''\<rparr>)
          | None \<Rightarrow>
              let (ok, st) = flushStream env False (st\<lparr>gs_output := current, gs_stream := gs_stream st @ t, gs_generated := gs_generated st @ [token]\<rparr>)
              in if \<not> ok then (False, True, st)
                 else (True, False, st\<lparr>gs_recent := last_n repeatPenaltyWindow (gs_recent st @ [token])\<rparr>))"

section \<open>The JSON constraint\<close>

definition json_piece_ok :: "'d gen_env \<Rightarrow> State \<Rightarrow> nat \<Rightarrow> bool" where
  "json_piece_ok env s i \<longleftrightarrow> i < ge_vocab env \<and> \<not> ge_stop env (word_of_nat i) \<and> ge_text env (word_of_nat i) \<noteq> []
     \<and> Advance s (ge_text env (word_of_nat i)) \<noteq> None"

definition constraint_mask :: "'d gen_env \<Rightarrow> bool \<Rightarrow> State \<Rightarrow> f32 list \<Rightarrow> gen_error + f32 list" where
  "constraint_mask env cancelled s logits =
    (let keep = (\<lambda>i. json_piece_ok env s i \<and> finite32 (logits ! i))
     in if logits \<noteq> [] \<and> cancelled then Inl ContextDone
        else if \<not> list_ex keep [0..<length logits] then Inl NoValidJSONToken
        else Inr (map (\<lambda>i. if keep i then logits ! i else negInf32) [0..<length logits]))"

definition constraint_accept :: "'d gen_env \<Rightarrow> State \<Rightarrow> u32 \<Rightarrow> gen_error + State" where
  "constraint_accept env s token =
    (if unat token \<ge> ge_vocab env then Inl SamplerPanic
     else case Advance s (ge_text env token) of None \<Rightarrow> Inl ConstraintRejected | Some s' \<Rightarrow> Inr s')"

section \<open>Advancing the model\<close>

text \<open>A token's row enters the cache; the next token is known at once on the greedy path, and otherwise sampled from
  the logits when the loop comes round.\<close>

definition forward_token :: "'d gen_env \<Rightarrow> u32 \<Rightarrow> 'd gen_state \<Rightarrow> 'd gen_state" where
  "forward_token env token st =
    (let rows = gs_rows st @ [token]
     in st\<lparr>gs_rows := rows, gs_logits := ge_logits env rows,
           gs_next := (if ge_greedy env then ge_fast env rows (gs_recent st) else None)\<rparr>)"

definition sample_next :: "'d gen_env \<Rightarrow> 'd gen_state \<Rightarrow> (u32 \<times> 'd gen_state) option" where
  "sample_next env st =
    map_option (\<lambda>(t, l, r). (word_of_nat t, st\<lparr>gs_logits := l, gs_rng := r\<rparr>))
      (SampleWithScratch (ge_fl env) (gs_logits st) (ge_sampler env) (gs_rng st) (gs_recent st))"

definition verifyToken :: "'d gen_env \<Rightarrow> u32 \<Rightarrow> 'd gen_state \<Rightarrow> (u32 \<times> 'd gen_state) option" where
  "verifyToken env token st =
    (let st = forward_token env token st
     in case gs_next st of Some t \<Rightarrow> Some (t, st\<lparr>gs_next := None\<rparr>) | None \<Rightarrow> sample_next env st)"

text \<open>The serial verification of drafts: each accepted one is the next input.\<close>

fun mtp_serial :: "'d gen_env \<Rightarrow> u32 \<Rightarrow> u32 list \<Rightarrow> 'd gen_state \<Rightarrow> 'd loop_result" where
  "mtp_serial env currentToken drafts st =
    (if ge_ctx env (length (gs_generated st)) then Return ContextDone st
     else case verifyToken env currentToken st of None \<Rightarrow> Return SamplerPanic st
     | Some (targetNext, st) \<Rightarrow>
         (case drafts of [] \<Rightarrow> Continue (st\<lparr>gs_next := Some targetNext\<rparr>)
          | candidate # rest \<Rightarrow>
              if targetNext \<noteq> candidate then Continue (st\<lparr>gs_next := Some targetNext\<rparr>)
              else case emitToken env candidate st of (keepDecoding, canceled, st) \<Rightarrow>
                if canceled then Return GenerationCanceled st
                else if \<not> keepDecoding \<or> length (gs_generated st) \<ge> ge_max env \<or> length (gs_rows st) \<ge> ge_cacheLen env then Break st
                else mtp_serial env candidate rest st))"

section \<open>Block verification\<close>

text \<open>The repetition window that each position of the block sees: each later row also sees the candidate before it.\<close>

fun histories_from :: "u32 list \<Rightarrow> u32 list \<Rightarrow> u32 list list" where
  "histories_from prev [] = []"
| "histories_from prev (x # xs) =
    (let row = drop (length prev + 1 - repeatPenaltyWindow) prev @ [x] in row # histories_from row xs)"

definition histories :: "u32 list \<Rightarrow> u32 list \<Rightarrow> u32 list list" where
  "histories recent inputs =
    (case inputs of [] \<Rightarrow> []
     | _ # rest \<Rightarrow> let row = last_n repeatPenaltyWindow recent in row # histories_from row rest)"

text \<open>\<open>Inr None\<close>: the block is not handled.\<close>

definition prepareSpeculativeBlock :: "'d gen_env \<Rightarrow> u32 list \<Rightarrow> 'd gen_state \<Rightarrow> gen_error + u32 list option" where
  "prepareSpeculativeBlock env inputs st =
    (if ge_ctx env (length (gs_generated st)) then Inl ContextDone
     else if \<not> ge_verify env \<or> length inputs < 2 \<or> length inputs > speculativeMaxPositions then Inr None
     else if length (gs_rows st) + length inputs > ge_maxLen env then Inl CacheRange
     else Inr (Some (ge_block env (gs_rows st) inputs (histories (gs_recent st) inputs))))"

datatype 'd verdict = Accepted nat bool u32 nat "'d gen_state" | Aborted gen_error "'d gen_state"

text \<open>
  The drafts are emitted while they are the target's predictions. \<open>i\<close> counts the inputs before the candidate's own,
  \<open>accepted\<close> the emitted candidates; the result says how many inputs stay in the cache, whether decoding stops, and
  the next token.
\<close>

fun accept_drafts :: "'d gen_env \<Rightarrow> u32 list \<Rightarrow> u32 list \<Rightarrow> nat \<Rightarrow> nat \<Rightarrow> 'd gen_state \<Rightarrow> 'd verdict" where
  "accept_drafts env predictions [] i accepted st = Accepted (i + 1) False (last predictions) accepted st"
| "accept_drafts env predictions (candidate # rest) i accepted st =
    (if ge_ctx env (length (gs_generated st)) then Aborted ContextDone st
     else if predictions ! i \<noteq> candidate then Accepted (i + 1) False (predictions ! i) accepted st
     else case emitToken env candidate st of (keepDecoding, canceled, st') \<Rightarrow>
       let accepted = accepted + (length (gs_generated st') - length (gs_generated st))
       in if canceled then Aborted GenerationCanceled (st'\<lparr>gs_spec := (gs_spec st')\<lparr>sp_AcceptedTokens := sp_AcceptedTokens (gs_spec st') + (length (gs_generated st') - length (gs_generated st))\<rparr>\<rparr>)
          else
            let st'' = st'\<lparr>gs_spec := (gs_spec st')\<lparr>sp_AcceptedTokens := sp_AcceptedTokens (gs_spec st') + (length (gs_generated st') - length (gs_generated st))\<rparr>\<rparr>
            in if \<not> keepDecoding \<or> length (gs_generated st') \<ge> ge_max env \<or> length (gs_rows st) + i + 1 \<ge> ge_cacheLen env
               then Accepted (i + 1) True (last predictions) accepted st''
               else accept_drafts env predictions rest (i + 1) accepted st'')"

definition discard :: "nat \<Rightarrow> 'd gen_state \<Rightarrow> 'd gen_state" where
  "discard n st = st\<lparr>gs_spec := (gs_spec st)\<lparr>sp_DiscardedInputs := sp_DiscardedInputs (gs_spec st) + n\<rparr>\<rparr>"

text \<open>
  The drafts for a block: copied from earlier text first, from the MTP head otherwise. The result names the
  window that asked and the number it asked for, and the limit left to the serial drafter.
\<close>

definition draft_tokens :: "'d gen_env \<Rightarrow> u32 \<Rightarrow> 'd gen_state \<Rightarrow> u32 list \<times> bool \<times> int \<times> int \<times> 'd gen_state" where
  "draft_tokens env token st =
    (let available = int (ge_cacheLen env) - int (length (gs_rows st)) - 1;
         remaining = int (ge_max env) - int (length (gs_generated st)) - 1;
         (limit, lookupWindow) = (if ge_lookup env > 0 then window_limit (gs_lookupWindow st) available remaining else (0, gs_lookupWindow st));
         st = st\<lparr>gs_lookupWindow := lookupWindow\<rparr>;
         drafts = (if ge_lookup env > 0 then promptLookupDraft (ge_prompt env) (gs_generated st) limit else [])
     in if drafts = [] \<and> ge_mtp env > 0
        then let (limit, mtpWindow) = window_limit (gs_mtpWindow st) available remaining
             in (ge_mtp_draft env (gs_rows st) token (nat limit) (gs_recent st), True, limit, limit, st\<lparr>gs_mtpWindow := mtpWindow\<rparr>)
        else (drafts, False, limit, int (ge_mtp env), st))"

definition observe_block :: "'d gen_env \<Rightarrow> bool \<Rightarrow> int \<Rightarrow> nat \<Rightarrow> nat \<Rightarrow> 'd gen_state \<Rightarrow> 'd gen_state" where
  "observe_block env mtp requested drafted accepted st =
    (let (draft, verify, rollback, serial) = ge_time env (sp_Blocks (gs_spec st));
         s = \<lparr>sw_Drafted = int drafted, sw_Accepted = int accepted, sw_Emitted = 1 + int accepted, sw_Draft = draft,
              sw_Verify = verify, sw_Rollback = rollback, sw_SerialPerToken = serial, sw_Requested = requested\<rparr>
     in if mtp then st\<lparr>gs_mtpWindow := window_observe (ge_f64 env) (gs_mtpWindow st) s\<rparr>
        else st\<lparr>gs_lookupWindow := window_observe (ge_f64 env) (gs_lookupWindow st) s\<rparr>)"

text \<open>A handled block: what stays in the cache after \<open>finishSpeculativeBlock\<close> is the kept prefix of its inputs.\<close>

definition commit_block :: "'d gen_env \<Rightarrow> u32 \<Rightarrow> u32 list \<Rightarrow> bool \<Rightarrow> int \<Rightarrow> u32 list \<Rightarrow> 'd gen_state \<Rightarrow> 'd loop_result" where
  "commit_block env token drafts mtp requested predictions st =
    (let sp = gs_spec st;
         st = st\<lparr>gs_spec := sp\<lparr>sp_Blocks := sp_Blocks sp + 1, sp_DraftedTokens := sp_DraftedTokens sp + length drafts\<rparr>\<rparr>;
         n = length drafts + 1
     in case accept_drafts env predictions drafts 0 0 st of
          Aborted e st \<Rightarrow> Return e (discard n st)
        | Accepted keep stop next_token accepted st \<Rightarrow>
            if ge_ctx env (length (gs_generated st)) then Return ContextDone (discard n st)
            else
              let st = (discard (n - keep) st)\<lparr>gs_rows := gs_rows st @ take keep (token # drafts), gs_next := Some next_token\<rparr>;
                  st = observe_block env mtp requested (length drafts) accepted st
              in if stop then Break st else Continue st)"

section \<open>One round of the loop\<close>

text \<open>The target's own step, when no block was verified.\<close>

definition serial_step :: "'d gen_env \<Rightarrow> u32 \<Rightarrow> int \<Rightarrow> 'd gen_state \<Rightarrow> 'd loop_result" where
  "serial_step env token serialMTPDraftLimit st =
    (if ge_mtp env = 0 then Continue (forward_token env token st)
     else
       let draftLimit = min serialMTPDraftLimit (min (int (ge_cacheLen env) - int (length (gs_rows st))) (int (ge_max env) - int (length (gs_generated st))))
       in mtp_serial env token (ge_mtp_draft env (gs_rows st) token (nat draftLimit) (gs_recent st)) st)"

definition advance_step :: "'d gen_env \<Rightarrow> u32 \<Rightarrow> 'd gen_state \<Rightarrow> 'd loop_result" where
  "advance_step env token st =
    (if (ge_mtp env > 0 \<or> ge_lookup env > 0) \<and> ge_verify env
     then case draft_tokens env token st of (drafts, mtp, requested, serialLimit, st) \<Rightarrow>
       if drafts = [] then serial_step env token serialLimit st
       else case prepareSpeculativeBlock env (token # drafts) st of
              Inl e \<Rightarrow> Return e st
            | Inr None \<Rightarrow> serial_step env token serialLimit st
            | Inr (Some predictions) \<Rightarrow> commit_block env token drafts mtp requested predictions st
     else serial_step env token (int (ge_mtp env)) st)"

text \<open>Mask, pick, accept, emit, then advance.\<close>

definition pick_token :: "'d gen_env \<Rightarrow> 'd gen_state \<Rightarrow> gen_error + u32 \<times> 'd gen_state" where
  "pick_token env st =
    and_then (case gs_constraint st of None \<Rightarrow> Inr st
       | Some s \<Rightarrow> and_then (constraint_mask env (ge_ctx env (length (gs_generated st))) s (gs_logits st)) (\<lambda>l. Inr (st\<lparr>gs_logits := l\<rparr>)))
    (\<lambda>st. and_then (case gs_next st of Some t \<Rightarrow> Inr (t, st\<lparr>gs_next := None\<rparr>)
       | None \<Rightarrow> (case sample_next env st of None \<Rightarrow> Inl SamplerPanic | Some p \<Rightarrow> Inr p))
    (\<lambda>(token, st). case gs_constraint st of None \<Rightarrow> Inr (token, st)
       | Some s \<Rightarrow> and_then (constraint_accept env s token) (\<lambda>s'. Inr (token, st\<lparr>gs_constraint := Some s'\<rparr>))))"

definition decode_step :: "'d gen_env \<Rightarrow> 'd gen_state \<Rightarrow> 'd loop_result" where
  "decode_step env st =
    (if ge_ctx env (length (gs_generated st)) then Return ContextDone st
     else case pick_token env st of Inl e \<Rightarrow> Return e st
     | Inr (token, st) \<Rightarrow>
         case emitToken env token st of (keepDecoding, canceled, st) \<Rightarrow>
           if canceled then Return GenerationCanceled st
           else if \<not> keepDecoding then Break st
           else if (case gs_constraint st of None \<Rightarrow> False | Some s \<Rightarrow> Complete s) then Break (st\<lparr>gs_finish := ''stop''\<rparr>)
           else if length (gs_generated st) \<ge> ge_max env \<or> length (gs_rows st) \<ge> ge_cacheLen env then Break st
           else advance_step env token st)"

fun decode_loop :: "'d gen_env \<Rightarrow> nat \<Rightarrow> 'd gen_state \<Rightarrow> gen_error option \<times> 'd gen_state" where
  "decode_loop env 0 st = (None, st)"
| "decode_loop env (Suc n) st =
    (case decode_step env st of Continue st \<Rightarrow> decode_loop env n st | Break st \<Rightarrow> (None, st) | Return e st \<Rightarrow> (Some e, st))"

section \<open>The generation\<close>

text \<open>The state after the prompt has been prefilled.\<close>

definition start_state :: "'d gen_env \<Rightarrow> u64 \<Rightarrow> 'd gen_state" where
  "start_state env seed =
    (let recent = recentTokenWindowInto (ge_prompt env)
     in \<lparr>gs_rows = ge_prompt env, gs_next = (if ge_greedy env then ge_fast env (ge_prompt env) recent else None),
         gs_logits = ge_logits env (ge_prompt env), gs_rng = NewRng seed, gs_generated = [], gs_recent = recent,
         gs_output = [], gs_stream = [], gs_sent = [], gs_finish = ''length'',
         gs_constraint = (if ge_json env then Some zero_State else None),
         gs_mtpWindow = newSpeculativeWindow (ge_f64 env) (min (int (ge_mtp env)) (int speculativeMaxPositions - 1)),
         gs_lookupWindow = newSpeculativeWindow (ge_f64 env) (int (ge_lookup env)),
         gs_spec = \<lparr>sp_Blocks = 0, sp_DraftedTokens = 0, sp_AcceptedTokens = 0, sp_DiscardedInputs = 0\<rparr>\<rparr>)"

definition generate_tokens :: "'d gen_env \<Rightarrow> 'd gen_state \<Rightarrow> gen_error option \<times> 'd gen_state" where
  "generate_tokens env st =
    (case decode_loop env (ge_max env) st of
       (Some e, st) \<Rightarrow> (Some e, st)
     | (None, st) \<Rightarrow>
         (case flushStream env True st of (ok, st) \<Rightarrow>
            if \<not> ok then (Some GenerationCanceled, st)
            else if (case gs_constraint st of None \<Rightarrow> False
                     | Some s \<Rightarrow> \<not> Complete s \<or> \<not> ge_json_valid env (gs_output st) \<or> \<not> ValidString (gs_output st))
            then (Some StructuredOutputIncomplete, st)
            else (None, st)))"

end
