(* ===== verification/Decode_Laws.thy ===== *)
theory Decode_Laws
  imports Decode_Loop Sampling_Laws
begin

text \<open>
  Emitting does not look at the model's side of the state; a reference run that always asks the target for the
  next token, and the proof that every round of the loop, with or without drafts, follows it.
\<close>

section \<open>What a caller can observe\<close>

text \<open>The fields that emission reads and writes, over a fixed rest \<open>T\<close>.\<close>

definition visible :: "'d gen_state \<Rightarrow> 'd gen_state \<Rightarrow> 'd gen_state" where
  "visible T st = T\<lparr>gs_rows := gs_rows st, gs_generated := gs_generated st, gs_recent := gs_recent st, gs_output := gs_output st,
     gs_stream := gs_stream st, gs_sent := gs_sent st, gs_finish := gs_finish st, gs_constraint := gs_constraint st\<rparr>"

lemma visible_sel [simp]:
  "gs_rows (visible T st) = gs_rows st" "gs_generated (visible T st) = gs_generated st" "gs_recent (visible T st) = gs_recent st"
  "gs_output (visible T st) = gs_output st" "gs_stream (visible T st) = gs_stream st" "gs_sent (visible T st) = gs_sent st"
  "gs_finish (visible T st) = gs_finish st" "gs_constraint (visible T st) = gs_constraint st"
  by (simp_all add: visible_def)

lemma visible_hidden [simp]:
  "visible T (st\<lparr>gs_next := a\<rparr>) = visible T st" "visible T (st\<lparr>gs_logits := b\<rparr>) = visible T st" "visible T (st\<lparr>gs_rng := c\<rparr>) = visible T st"
  "visible T (st\<lparr>gs_mtpWindow := w\<rparr>) = visible T st" "visible T (st\<lparr>gs_lookupWindow := w\<rparr>) = visible T st" "visible T (st\<lparr>gs_spec := s\<rparr>) = visible T st"
  by (simp_all add: visible_def)

lemma visible_rows: "visible T (st\<lparr>gs_rows := r\<rparr>) = (visible T st)\<lparr>gs_rows := r\<rparr>"
  by (simp add: visible_def)

lemma flushStream_visible: "flushStream env final (visible T st) = (case flushStream env final st of (ok, st') \<Rightarrow> (ok, visible T st'))"
  by (simp add: flushStream_def Let_def visible_def)

lemma emitToken_visible: "emitToken env token (visible T st) = (case emitToken env token st of (k, c, st') \<Rightarrow> (k, c, visible T st'))"
proof (cases "ge_stop env token")
  case True
  then show ?thesis by (simp add: emitToken_def visible_def)
next
  case False
  let ?t = "ge_text env token"
  let ?current = "gs_output st @ ?t"
  let ?start = "length ?current - maxStopLen env - length ?t"
  let ?hit = "if maxStopLen env > 0 then find_stop (ge_stops env) (drop ?start ?current) else None"
  let ?st = "st\<lparr>gs_output := ?current, gs_stream := gs_stream st @ ?t, gs_generated := gs_generated st @ [token]\<rparr>"
  have v: "(visible T st)\<lparr>gs_output := ?current, gs_stream := gs_stream st @ ?t, gs_generated := gs_generated st @ [token]\<rparr> = visible T ?st"
    by (simp add: visible_def)
  show ?thesis
  proof (cases ?hit)
    case None
    obtain ok st' where f: "flushStream env False ?st = (ok, st')" by (rule prod.exhaust)
    have "flushStream env False (visible T ?st) = (ok, visible T st')" by (simp only: flushStream_visible f case_prod_conv)
    then have l: "emitToken env token (visible T st) = (if \<not> ok then (False, True, visible T st')
        else (True, False, (visible T st')\<lparr>gs_recent := last_n repeatPenaltyWindow (gs_recent st' @ [token])\<rparr>))"
      by (simp only: emitToken_def Let_def visible_sel False None if_False option.case v case_prod_conv)
    have r: "emitToken env token st = (if \<not> ok then (False, True, st')
        else (True, False, st'\<lparr>gs_recent := last_n repeatPenaltyWindow (gs_recent st' @ [token])\<rparr>))"
      by (simp only: emitToken_def Let_def False None if_False option.case f case_prod_conv)
    show ?thesis unfolding l r by (simp add: visible_def)
  next
    case (Some idx)
    then have "emitToken env token x = (False, False, x\<lparr>gs_output := take (?start + idx) ?current, gs_stream := [], gs_finish := ''stop''\<rparr>)"
      if "gs_output x = gs_output st" for x
      by (simp only: emitToken_def Let_def False that if_False option.case)
    then show ?thesis by (simp add: visible_def)
  qed
qed

lemma flushStream_fields:
  assumes "flushStream env final st = (ok, st')"
  shows "gs_rows st' = gs_rows st" "gs_generated st' = gs_generated st" "gs_recent st' = gs_recent st" "gs_constraint st' = gs_constraint st"
    "gs_output st' = gs_output st" "gs_finish st' = gs_finish st" "gs_next st' = gs_next st" "gs_logits st' = gs_logits st" "gs_rng st' = gs_rng st"
    "gs_mtpWindow st' = gs_mtpWindow st" "gs_lookupWindow st' = gs_lookupWindow st" "gs_spec st' = gs_spec st"
  using assms by (auto simp: flushStream_def Let_def split: if_splits)

lemma emitToken_fields:
  assumes "emitToken env token st = (k, c, st')"
  shows "gs_rows st' = gs_rows st" "gs_constraint st' = gs_constraint st" "gs_next st' = gs_next st" "gs_logits st' = gs_logits st"
    "gs_rng st' = gs_rng st" "gs_mtpWindow st' = gs_mtpWindow st" "gs_lookupWindow st' = gs_lookupWindow st" "gs_spec st' = gs_spec st"
    "k \<Longrightarrow> \<not> c" "k \<Longrightarrow> gs_generated st' = gs_generated st @ [token]" "k \<Longrightarrow> gs_recent st' = last_n repeatPenaltyWindow (gs_recent st @ [token])"
    "k \<Longrightarrow> gs_output st' = gs_output st @ ge_text env token" "\<not> k \<Longrightarrow> \<not> c \<Longrightarrow> gs_finish st' = ''stop''" "k \<Longrightarrow> gs_finish st' = gs_finish st"
    "\<not> k \<Longrightarrow> \<not> c \<Longrightarrow> gs_generated st' = gs_generated st"
  using assms by (auto simp: emitToken_def Let_def split: if_splits option.splits prod.splits dest: flushStream_fields)

section \<open>The steps, unfolded\<close>

declare mtp_serial.simps [simp del]

lemma mtp_serial_Cons:
  assumes "\<not> ge_ctx env (length (gs_generated st))" "verifyToken env token st = Some (x, s)" "emitToken env d s = (k, c, s')"
  shows "mtp_serial env token (d # drafts) st = (if x \<noteq> d then Continue (s\<lparr>gs_next := Some x\<rparr>) else if c then Return GenerationCanceled s'
      else if \<not> k \<or> length (gs_generated s') \<ge> ge_max env \<or> length (gs_rows s') \<ge> ge_cacheLen env then Break s' else mtp_serial env d drafts s')"
  using assms by (subst mtp_serial.simps) simp

text \<open>Counting a candidate that was accepted, and a block that was verified.\<close>

definition count_accepted :: "'d gen_state \<Rightarrow> 'd gen_state \<Rightarrow> 'd gen_state" where
  "count_accepted st s = s\<lparr>gs_spec := (gs_spec s)\<lparr>sp_AcceptedTokens := sp_AcceptedTokens (gs_spec s) + (length (gs_generated s) - length (gs_generated st))\<rparr>\<rparr>"

definition count_block :: "u32 list \<Rightarrow> 'd gen_state \<Rightarrow> 'd gen_state" where
  "count_block drafts st = st\<lparr>gs_spec := (gs_spec st)\<lparr>sp_Blocks := sp_Blocks (gs_spec st) + 1, sp_DraftedTokens := sp_DraftedTokens (gs_spec st) + length drafts\<rparr>\<rparr>"

lemma accept_drafts_Cons:
  assumes "\<not> ge_ctx env (length (gs_generated st))" "predictions ! i = d" "emitToken env d st = (k, c, s)"
  shows "accept_drafts env predictions (d # drafts) i accepted st =
      (let a = accepted + (length (gs_generated s) - length (gs_generated st)) in
       if c then Aborted GenerationCanceled (count_accepted st s)
       else if \<not> k \<or> length (gs_generated s) \<ge> ge_max env \<or> length (gs_rows st) + i + 1 \<ge> ge_cacheLen env
       then Accepted (i + 1) True (last predictions) a (count_accepted st s)
       else accept_drafts env predictions drafts (i + 1) a (count_accepted st s))"
  using assms by (simp add: Let_def count_accepted_def)

text \<open>A committed block: the kept prefix of its inputs enters the cache.\<close>

definition committed :: "'d gen_env \<Rightarrow> u32 list \<Rightarrow> bool \<Rightarrow> int \<Rightarrow> nat \<Rightarrow> u32 \<Rightarrow> nat \<Rightarrow> 'd gen_state \<Rightarrow> 'd gen_state" where
  "committed env inputs mtp requested keep t accepted s = observe_block env mtp requested (length inputs - 1) accepted
     ((discard (length inputs - keep) s)\<lparr>gs_rows := gs_rows s @ take keep inputs, gs_next := Some t\<rparr>)"

lemma commit_block_eq:
  "commit_block env token drafts mtp requested predictions st =
    (case accept_drafts env predictions drafts 0 0 (count_block drafts st) of
       Aborted e s \<Rightarrow> Return e (discard (length drafts + 1) s)
     | Accepted keep stop t accepted s \<Rightarrow>
         if ge_ctx env (length (gs_generated s)) then Return ContextDone (discard (length drafts + 1) s)
         else if stop then Break (committed env (token # drafts) mtp requested keep t accepted s)
         else Continue (committed env (token # drafts) mtp requested keep t accepted s))"
  unfolding commit_block_def Let_def count_block_def by (auto simp: committed_def split: verdict.split)

lemma advance_step_serial:
  "\<not> ((ge_mtp env > 0 \<or> ge_lookup env > 0) \<and> ge_verify env) \<Longrightarrow> advance_step env token st = serial_step env token (int (ge_mtp env)) st"
  unfolding advance_step_def by (rule if_not_P)

lemma advance_step_drafts:
  assumes "(ge_mtp env > 0 \<or> ge_lookup env > 0) \<and> ge_verify env" "draft_tokens env token st = (drafts, mtp, requested, limit, s)"
  shows "advance_step env token st = (if drafts = [] then serial_step env token limit s
       else case prepareSpeculativeBlock env (token # drafts) s of
              Inl e \<Rightarrow> Return e s
            | Inr None \<Rightarrow> serial_step env token limit s
            | Inr (Some predictions) \<Rightarrow> commit_block env token drafts mtp requested predictions s)"
  using assms by (simp add: advance_step_def)

lemma decode_step_picked:
  assumes "\<not> ge_ctx env (length (gs_generated st))" "pick_token env st = Inr (t, s)" "emitToken env t s = (k, c, s')"
  shows "decode_step env st = (if c then Return GenerationCanceled s' else if \<not> k then Break s'
      else if (case gs_constraint s' of None \<Rightarrow> False | Some x \<Rightarrow> Complete x) then Break (s'\<lparr>gs_finish := ''stop''\<rparr>)
      else if length (gs_generated s') \<ge> ge_max env \<or> length (gs_rows s') \<ge> ge_cacheLen env then Break s' else advance_step env t s')"
  using assms by (simp add: decode_step_def)

section \<open>The reference run\<close>

text \<open>The target's greedy choice after the given rows, with the given repetition window.\<close>

definition greedy_target :: "'d gen_env \<Rightarrow> u32 list \<Rightarrow> u32 list \<Rightarrow> u32" where
  "greedy_target env rows recent =
    (case argmaxFiniteToken (applyRepeatPenalty (ge_fl env) (ge_logits env rows) recent (RepeatPenalty (ge_sampler env))) of
       None \<Rightarrow> 0 | Some (t, _) \<Rightarrow> word_of_nat t)"

text \<open>Emit a token, feed it to the target, take the target's choice.\<close>

function (sequential) target_run :: "'d gen_env \<Rightarrow> u32 \<Rightarrow> 'd gen_state \<Rightarrow> gen_error option \<times> 'd gen_state" where
  "target_run env token st =
    (case emitToken env token st of (keepDecoding, canceled, st') \<Rightarrow>
       if canceled then (Some GenerationCanceled, st')
       else if \<not> keepDecoding \<or> length (gs_generated st') \<ge> ge_max env \<or> length (gs_rows st') \<ge> ge_cacheLen env then (None, st')
       else target_run env (greedy_target env (gs_rows st' @ [token]) (gs_recent st')) (st'\<lparr>gs_rows := gs_rows st' @ [token]\<rparr>))"
  by pat_completeness auto
termination
  by (relation "measure (\<lambda>(env, t, st). ge_max env - length (gs_generated st))") (auto dest!: emitToken_fields(10) [OF sym])

declare target_run.simps [simp del]

lemma target_run_visible: "target_run env token (visible T st) = (case target_run env token st of (e, st') \<Rightarrow> (e, visible T st'))"
proof (induction env token st rule: target_run.induct)
  case (1 env token st)
  obtain k c st' where e: "emitToken env token st = (k, c, st')" by (rule prod_cases3)
  have ev: "emitToken env token (visible T st) = (k, c, visible T st')" by (simp add: emitToken_visible e)
  show ?case
  proof (cases "c \<or> \<not> k \<or> length (gs_generated st') \<ge> ge_max env \<or> length (gs_rows st') \<ge> ge_cacheLen env")
    case True
    then show ?thesis by (subst (1 2) target_run.simps) (auto simp: e ev)
  next
    case False
    let ?n = "greedy_target env (gs_rows st' @ [token]) (gs_recent st')"
    have "target_run env ?n (visible T (st'\<lparr>gs_rows := gs_rows st' @ [token]\<rparr>))
        = (case target_run env ?n (st'\<lparr>gs_rows := gs_rows st' @ [token]\<rparr>) of (x, y) \<Rightarrow> (x, visible T y))"
      using 1 [OF e [symmetric] refl] False by simp
    then show ?thesis using False by (subst (1 2) target_run.simps) (simp add: e ev visible_rows)
  qed
qed

section \<open>Exact verification\<close>

text \<open>
  The sampler is greedy; the shortcut and the block verifier compute the choice that the logits give.
\<close>

definition exact_target :: "'d gen_env \<Rightarrow> bool" where
  "exact_target env \<longleftrightarrow>
    (f32_less (Temperature (ge_sampler env)) f32_1e_6 \<or> TopK (ge_sampler env) = 1) \<and> (\<forall>rows. 1 < length (ge_logits env rows))
    \<and> (\<forall>rows recent t. ge_fast env rows recent = Some t \<longrightarrow> t = greedy_target env rows recent)
    \<and> (\<forall>rows inputs recents. length recents = length inputs \<longrightarrow> length (ge_block env rows inputs recents) = length inputs
         \<and> (\<forall>i < length inputs. ge_block env rows inputs recents ! i = greedy_target env (rows @ take (i + 1) inputs) (recents ! i)))"

lemma exact_block:
  assumes "exact_target env" "length recents = length inputs"
  shows "length (ge_block env rows inputs recents) = length inputs"
    "i < length inputs \<Longrightarrow> ge_block env rows inputs recents ! i = greedy_target env (rows @ take (Suc i) inputs) (recents ! i)"
  using assms unfolding exact_target_def by auto

definition upcoming :: "'d gen_env \<Rightarrow> 'd gen_state \<Rightarrow> u32 \<Rightarrow> bool" where
  "upcoming env st token \<longleftrightarrow> gs_constraint st = None \<and> length (gs_recent st) \<le> repeatPenaltyWindow
     \<and> (case gs_next st of Some t \<Rightarrow> t = token
        | None \<Rightarrow> gs_logits st = ge_logits env (gs_rows st) \<and> token = greedy_target env (gs_rows st) (gs_recent st))"

lemma sample_next_greedy:
  assumes "exact_target env" "gs_logits st = ge_logits env (gs_rows st)"
  shows "\<exists>l. sample_next env st = Some (greedy_target env (gs_rows st) (gs_recent st), st\<lparr>gs_logits := l, gs_rng := gs_rng st\<rparr>)"
proof -
  let ?l = "ge_logits env (gs_rows st)"
  let ?p = "applyRepeatPenalty (ge_fl env) ?l (gs_recent st) (RepeatPenalty (ge_sampler env))"
  have n: "1 < length ?l" using assms(1) by (simp add: exact_target_def)
  then have n': "?l \<noteq> []" by auto
  then have "?p \<noteq> []" by (simp flip: length_greater_0_conv)
  then obtain g where g: "argmaxFiniteToken ?p = Some (g, map clean ?p)" using argmaxFinite_spec by blast
  have "SampleWithScratch (ge_fl env) ?l (ge_sampler env) (gs_rng st) (gs_recent st) = Some (g, map clean ?p, gs_rng st)"
    using assms(1) Sample_branches(1,2) [OF n' refl g] n by (auto simp: exact_target_def)
  then have "sample_next env st = Some (greedy_target env (gs_rows st) (gs_recent st), st\<lparr>gs_logits := map clean ?p, gs_rng := gs_rng st\<rparr>)"
    using g assms(2) by (simp add: sample_next_def greedy_target_def)
  then show ?thesis by blast
qed

text \<open>The three parts of picking a token.\<close>

lemma pick_tokenE:
  assumes "pick_token env st = Inr (t, st')"
  obtains s s' where
    "gs_constraint st = None \<and> s = st \<or> (\<exists>c l. gs_constraint st = Some c
       \<and> constraint_mask env (ge_ctx env (length (gs_generated st))) c (gs_logits st) = Inr l \<and> s = st\<lparr>gs_logits := l\<rparr>)"
    "gs_next s = Some t \<and> s' = s\<lparr>gs_next := None\<rparr> \<or> gs_next s = None \<and> sample_next env s = Some (t, s')"
    "gs_constraint s' = None \<and> st' = s' \<or> (\<exists>c c'. gs_constraint s' = Some c \<and> constraint_accept env c t = Inr c' \<and> st' = s'\<lparr>gs_constraint := Some c'\<rparr>)"
proof -
  obtain s where s: "(case gs_constraint st of None \<Rightarrow> Inr st
       | Some c \<Rightarrow> and_then (constraint_mask env (ge_ctx env (length (gs_generated st))) c (gs_logits st)) (\<lambda>l. Inr (st\<lparr>gs_logits := l\<rparr>))) = Inr s"
    and r: "and_then (case gs_next s of Some t \<Rightarrow> Inr (t, s\<lparr>gs_next := None\<rparr>)
         | None \<Rightarrow> (case sample_next env s of None \<Rightarrow> Inl SamplerPanic | Some p \<Rightarrow> Inr p))
       (\<lambda>(token, st). case gs_constraint st of None \<Rightarrow> Inr (token, st)
         | Some c \<Rightarrow> and_then (constraint_accept env c token) (\<lambda>c'. Inr (token, st\<lparr>gs_constraint := Some c'\<rparr>))) = Inr (t, st')"
    using assms unfolding pick_token_def and_then_eq_Inr by blast
  obtain u s' where u: "(case gs_next s of Some t \<Rightarrow> Inr (t, s\<lparr>gs_next := None\<rparr>)
         | None \<Rightarrow> (case sample_next env s of None \<Rightarrow> Inl SamplerPanic | Some p \<Rightarrow> Inr p)) = Inr (u, s')"
    and c: "(case gs_constraint s' of None \<Rightarrow> Inr (u, s')
         | Some c \<Rightarrow> and_then (constraint_accept env c u) (\<lambda>c'. Inr (u, s'\<lparr>gs_constraint := Some c'\<rparr>))) = Inr (t, st')"
    using r unfolding and_then_eq_Inr by auto
  have "u = t" using c by (auto split: option.splits)
  show ?thesis
  proof (rule that [of s s'])
    show "gs_constraint st = None \<and> s = st \<or> (\<exists>c l. gs_constraint st = Some c
       \<and> constraint_mask env (ge_ctx env (length (gs_generated st))) c (gs_logits st) = Inr l \<and> s = st\<lparr>gs_logits := l\<rparr>)"
      using s by (auto split: option.splits)
    show "gs_next s = Some t \<and> s' = s\<lparr>gs_next := None\<rparr> \<or> gs_next s = None \<and> sample_next env s = Some (t, s')"
      using u \<open>u = t\<close> by (auto split: option.splits)
    show "gs_constraint s' = None \<and> st' = s' \<or> (\<exists>c c'. gs_constraint s' = Some c \<and> constraint_accept env c t = Inr c' \<and> st' = s'\<lparr>gs_constraint := Some c'\<rparr>)"
      using c \<open>u = t\<close> by (auto split: option.splits)
  qed
qed

lemma pick_upcoming:
  assumes "exact_target env" "upcoming env st token"
  shows "\<exists>st'. pick_token env st = Inr (token, st') \<and> visible T st' = visible T st \<and> gs_constraint st' = None"
proof (cases "gs_next st")
  case None
  then have t: "gs_logits st = ge_logits env (gs_rows st)" "token = greedy_target env (gs_rows st) (gs_recent st)" "gs_constraint st = None"
    using assms(2) by (simp_all add: upcoming_def)
  obtain l where "sample_next env st = Some (token, st\<lparr>gs_logits := l, gs_rng := gs_rng st\<rparr>)"
    using sample_next_greedy [OF assms(1) t(1)] t(2) by blast
  then show ?thesis using None t(3) by (simp add: pick_token_def)
next
  case (Some t)
  then show ?thesis using assms(2) by (simp add: pick_token_def upcoming_def)
qed

section \<open>Every step follows the target\<close>

definition observe :: "'d gen_state \<Rightarrow> gen_error option \<times> 'd gen_state \<Rightarrow> gen_error option \<times> 'd gen_state" where
  "observe T r = (fst r, if fst r = None then visible T (snd r) else (visible T (snd r))\<lparr>gs_rows := []\<rparr>)"

lemma target_run_cong: "visible T a = visible T b \<Longrightarrow> observe T (target_run env t a) = observe T (target_run env t b)"
proof -
  assume h: "visible T a = visible T b"
  have v: "fst (target_run env t x) = fst (target_run env t (visible T x)) \<and> visible T (snd (target_run env t x)) = snd (target_run env t (visible T x))" for x
    using target_run_visible [of env t T x] by (simp split: prod.splits)
  have "fst (target_run env t a) = fst (target_run env t b)" "visible T (snd (target_run env t a)) = visible T (snd (target_run env t b))"
    using v [of a] v [of b] unfolding h by simp_all
  then show ?thesis by (simp only: observe_def)
qed

lemma visible_eq:
  assumes "visible T a = visible T b"
  shows "gs_rows a = gs_rows b" "gs_generated a = gs_generated b" "gs_recent a = gs_recent b"
  using assms by (metis visible_sel(1), metis visible_sel(2), metis visible_sel(3))

text \<open>The result of a step continues, ends or fails as the run \<open>r\<close> of the target does.\<close>

definition follows :: "'d gen_state \<Rightarrow> 'd gen_env \<Rightarrow> nat \<Rightarrow> gen_error option \<times> 'd gen_state \<Rightarrow> 'd loop_result \<Rightarrow> bool" where
  "follows T env m r result =
    (case result of
       Continue st \<Rightarrow> (\<exists>token. upcoming env st token \<and> m \<le> length (gs_generated st) \<and> length (gs_generated st) < ge_max env
         \<and> observe T r = observe T (target_run env token st))
     | Break st \<Rightarrow> observe T r = observe T (None, st)
     | Return e st \<Rightarrow> observe T r = observe T (Some e, st))"

lemma follows_cong: "observe T r = observe T r' \<Longrightarrow> follows T env m r x = follows T env m r' x"
  by (simp add: follows_def split: loop_result.split)

abbreviation fed :: "u32 \<Rightarrow> 'd gen_state \<Rightarrow> 'd gen_state" where
  "fed token st \<equiv> st\<lparr>gs_rows := gs_rows st @ [token]\<rparr>"

definition ready :: "'d gen_env \<Rightarrow> nat \<Rightarrow> 'd gen_state \<Rightarrow> bool" where
  "ready env m st \<longleftrightarrow> gs_constraint st = None \<and> length (gs_recent st) \<le> repeatPenaltyWindow \<and> m \<le> length (gs_generated st)
     \<and> length (gs_generated st) < ge_max env"

abbreviation next_run :: "'d gen_env \<Rightarrow> u32 \<Rightarrow> 'd gen_state \<Rightarrow> gen_error option \<times> 'd gen_state" where
  "next_run env token st \<equiv> target_run env (greedy_target env (gs_rows st @ [token]) (gs_recent st)) (fed token st)"

lemma visible_fed: "visible T a = visible T b \<Longrightarrow> visible T (fed token a) = visible T (fed token b)"
  by (simp add: visible_rows) (metis visible_sel(1))

lemma next_run_cong: "visible T a = visible T b \<Longrightarrow> observe T (next_run env token a) = observe T (next_run env token b)"
proof -
  assume h: "visible T a = visible T b"
  show "observe T (next_run env token a) = observe T (next_run env token b)" using target_run_cong [OF visible_fed [OF h]] visible_eq [OF h] by simp
qed

lemma last_n_length: "length (last_n n xs) \<le> n"
  by (simp add: last_n_def)

lemma last_n_id: "length xs \<le> n \<Longrightarrow> last_n n xs = xs"
  by (simp add: last_n_def)

lemma emit_ready:
  assumes "ready env m st" "emitToken env token st = (True, c, st')" "length (gs_generated st') < ge_max env"
  shows "ready env m st'"
  using assms emitToken_fields [OF assms(2)] last_n_length by (auto simp: ready_def)

lemma target_run_emit:
  assumes "emitToken env token st = (k, c, st')"
  shows "c \<Longrightarrow> target_run env token st = (Some GenerationCanceled, st')"
    and "\<not> c \<Longrightarrow> \<not> k \<or> length (gs_generated st') \<ge> ge_max env \<or> length (gs_rows st') \<ge> ge_cacheLen env \<Longrightarrow> target_run env token st = (None, st')"
    and "k \<Longrightarrow> length (gs_generated st') < ge_max env \<Longrightarrow> length (gs_rows st') < ge_cacheLen env \<Longrightarrow> target_run env token st = next_run env token st'"
  using assms emitToken_fields(9) [OF assms] by (subst target_run.simps; simp)+

lemma forward_follows:
  assumes "exact_target env" "ready env m st"
  shows "follows T env m (next_run env token st) (Continue (forward_token env token st))"
proof -
  let ?f = "forward_token env token st" and ?t = "greedy_target env (gs_rows st @ [token]) (gs_recent st)"
  have "upcoming env ?f ?t" using assms by (auto simp: upcoming_def forward_token_def Let_def ready_def exact_target_def split: option.splits)
  moreover have "visible T (fed token st) = visible T ?f" by (simp add: forward_token_def Let_def visible_rows)
  moreover have "gs_generated ?f = gs_generated st" by (simp add: forward_token_def Let_def)
  ultimately show ?thesis using assms(2) target_run_cong [of T "fed token st" ?f env ?t] by (auto simp: follows_def ready_def)
qed

lemma verifyToken_exact:
  assumes "exact_target env" "gs_constraint st = None"
  shows "\<exists>st'. verifyToken env token st = Some (greedy_target env (gs_rows st @ [token]) (gs_recent st), st') \<and> visible T st' = visible T (fed token st)
    \<and> gs_constraint st' = None"
proof -
  let ?f = "forward_token env token st"
  have f: "gs_rows ?f = gs_rows st @ [token]" "gs_recent ?f = gs_recent st" "gs_logits ?f = ge_logits env (gs_rows ?f)" "visible T ?f = visible T (fed token st)"
    "gs_constraint ?f = None"
    using assms(2) by (simp_all add: forward_token_def Let_def visible_rows)
  show ?thesis
  proof (cases "gs_next ?f")
    case None
    then show ?thesis using sample_next_greedy [OF assms(1) f(3)] f by (auto simp: verifyToken_def Let_def)
  next
    case (Some t)
    then have "ge_fast env (gs_rows st @ [token]) (gs_recent st) = Some t" by (simp add: forward_token_def Let_def split: if_splits)
    then have "t = greedy_target env (gs_rows st @ [token]) (gs_recent st)" using assms(1) by (simp add: exact_target_def)
    then show ?thesis using Some f by (auto simp: verifyToken_def Let_def)
  qed
qed

lemma mtp_serial_follows:
  assumes "exact_target env" "\<And>n. \<not> ge_ctx env n" "ready env m st"
  shows "follows T env m (next_run env token st) (mtp_serial env token drafts st)"
  using assms(3)
proof (induction drafts arbitrary: token st)
  case Nil
  obtain s where s: "verifyToken env token st = Some (greedy_target env (gs_rows st @ [token]) (gs_recent st), s)"
    "visible T s = visible T (fed token st)" "gs_constraint s = None" using verifyToken_exact [OF assms(1), of st token T] Nil by (auto simp: ready_def)
  note g = visible_eq [OF s(2)]
  have "mtp_serial env token [] st = Continue (s\<lparr>gs_next := Some (greedy_target env (gs_rows st @ [token]) (gs_recent st))\<rparr>)"
    using assms(2) s(1) by (subst mtp_serial.simps) simp
  then show ?case using Nil g s(3) target_run_cong [of T "fed token st" "s\<lparr>gs_next := Some (greedy_target env (gs_rows st @ [token]) (gs_recent st))\<rparr>"] s(2)
    by (simp add: follows_def upcoming_def ready_def)
next
  case (Cons c drafts)
  let ?t = "greedy_target env (gs_rows st @ [token]) (gs_recent st)"
  obtain s where s: "verifyToken env token st = Some (?t, s)" "visible T s = visible T (fed token st)" "gs_constraint s = None"
    using verifyToken_exact [OF assms(1), of st token T] Cons.prems by (auto simp: ready_def)
  note g = visible_eq [OF s(2)]
  note run = target_run_cong [OF s(2) [symmetric], of env ?t]
  show ?case
  proof (cases "?t = c")
    case False
    then have "mtp_serial env token (c # drafts) st = Continue (s\<lparr>gs_next := Some ?t\<rparr>)"
      using assms(2) s(1) by (subst mtp_serial.simps) simp
    then show ?thesis using Cons.prems g s(3) target_run_cong [of T "fed token st" "s\<lparr>gs_next := Some ?t\<rparr>"] s(2)
      by (simp add: follows_def upcoming_def ready_def)
  next
    case True
    obtain k can s' where e: "emitToken env c s = (k, can, s')" by (rule prod_cases3)
    note m = mtp_serial_Cons [OF assms(2) s(1) e, of drafts, unfolded True not_not if_False simp_thms]
    note te = target_run_emit [OF e]
    consider "can" | "\<not> can" "\<not> k \<or> length (gs_generated s') \<ge> ge_max env \<or> length (gs_rows s') \<ge> ge_cacheLen env"
      | "\<not> can" "k" "length (gs_generated s') < ge_max env" "length (gs_rows s') < ge_cacheLen env" by linarith
    then show ?thesis
    proof cases
      case 1
      then show ?thesis using run te(1) unfolding m True by (simp add: follows_def)
    next
      case 2
      then show ?thesis using run te(2) unfolding m True by (simp add: follows_def)
    next
      case 3
      have "ready env m s" using Cons.prems g s(3) by (simp add: ready_def)
      then have "ready env m s'" using emit_ready [of env m s c can s'] e 3 by simp
      then have "follows T env m (next_run env c s') (mtp_serial env c drafts s')" by (rule Cons.IH)
      moreover have "observe T (next_run env token st) = observe T (next_run env c s')" using run te(3) 3 True by simp
      ultimately show ?thesis using 3 follows_cong [of T "next_run env token st" "next_run env c s'" env m "mtp_serial env c drafts s'"] unfolding m by simp
    qed
  qed
qed

section \<open>Blocks\<close>

lemma last_n_snoc: "0 < n \<Longrightarrow> last_n n (xs @ [x]) = drop (length xs + 1 - n) xs @ [x]"
  by (simp add: last_n_def)

lemma length_histories_from: "length (histories_from prev xs) = length xs"
  by (induction prev xs rule: histories_from.induct) (simp_all add: Let_def)

lemma length_histories [simp]: "length (histories recent inputs) = length inputs"
  by (simp add: histories_def length_histories_from Let_def split: list.splits)

lemma histories_from_nth:
  "i < length xs \<Longrightarrow> histories_from prev xs ! i = last_n repeatPenaltyWindow ((if i = 0 then prev else histories_from prev xs ! (i - 1)) @ [xs ! i])"
proof (induction xs arbitrary: prev i)
  case (Cons x xs)
  define row where "row = last_n repeatPenaltyWindow (prev @ [x])"
  have e: "histories_from prev (x # xs) = row # histories_from row xs"
    by (simp add: row_def last_n_snoc repeatPenaltyWindow_def Let_def)
  show ?case
  proof (cases i)
    case 0
    then show ?thesis unfolding e by (simp add: row_def)
  next
    case (Suc j)
    then show ?thesis using Cons.IH [of j row] Cons.prems unfolding e by (cases j) simp_all
  qed
qed simp

lemma histories_0: "length recent \<le> repeatPenaltyWindow \<Longrightarrow> histories recent (t # ds) ! 0 = recent"
  by (simp add: histories_def Let_def last_n_id)

lemma histories_Suc:
  "i < length ds \<Longrightarrow> histories recent (t # ds) ! Suc i = last_n repeatPenaltyWindow (histories recent (t # ds) ! i @ [ds ! i])"
  using histories_from_nth [of i ds "last_n repeatPenaltyWindow recent"] by (cases i) (simp_all add: histories_def Let_def)

text \<open>\<open>R\<close> are the rows before the block; on acceptance the rows kept are a prefix of its inputs.\<close>

definition verdict_follows :: "'d gen_state \<Rightarrow> 'd gen_env \<Rightarrow> nat \<Rightarrow> u32 list \<Rightarrow> u32 list \<Rightarrow> gen_error option \<times> 'd gen_state \<Rightarrow> 'd verdict \<Rightarrow> bool" where
  "verdict_follows T env m R inputs r v =
    (case v of
       Aborted e s \<Rightarrow> observe T r = observe T (Some e, s)
     | Accepted keep stop t accepted s \<Rightarrow> gs_rows s = R \<and> keep \<le> length inputs
         \<and> (if stop then observe T r = observe T (None, s\<lparr>gs_rows := R @ take keep inputs\<rparr>)
            else ready env m s \<and> observe T r = observe T (target_run env t (s\<lparr>gs_rows := R @ take keep inputs\<rparr>))))"

lemma verdict_follows_cong: "observe T r = observe T r' \<Longrightarrow> verdict_follows T env m R inputs r v = verdict_follows T env m R inputs r' v"
  by (simp add: verdict_follows_def split: verdict.split)

lemma observe_error: "observe T (Some e, s\<lparr>gs_rows := R\<rparr>) = observe T (Some e, s)"
  by (simp add: observe_def visible_rows)

lemma observe_spec: "observe T (x, s\<lparr>gs_spec := y\<rparr>) = observe T (x, s)"
  by (simp add: observe_def)

lemma emitToken_rows: "emitToken env t (s\<lparr>gs_rows := R\<rparr>) = (case emitToken env t s of (k, c, s') \<Rightarrow> (k, c, s'\<lparr>gs_rows := R\<rparr>))"
proof -
  have f: "flushStream env b (x\<lparr>gs_rows := R\<rparr>) = (case flushStream env b x of (ok, x') \<Rightarrow> (ok, x'\<lparr>gs_rows := R\<rparr>))" for b x
    by (simp add: flushStream_def Let_def)
  have g: "s\<lparr>gs_rows := R, gs_output := a, gs_stream := b, gs_generated := c\<rparr> = (s\<lparr>gs_output := a, gs_stream := b, gs_generated := c\<rparr>)\<lparr>gs_rows := R\<rparr>" for a b c
    by simp
  show ?thesis by (simp add: emitToken_def Let_def g f split: option.split prod.split)
qed

text \<open>
  The emission of the \<open>i\<close>-th draft in a block over the rows \<open>R\<close>, seen by the target run: an end of both, or the
  next prediction.
\<close>

lemma accept_emits:
  assumes e: "emitToken env c s = (k, can, s')" and R: "gs_rows s = R" and i: "Suc i < length inputs" "inputs ! Suc i = c"
  shows "can \<Longrightarrow> observe T (target_run env c (s\<lparr>gs_rows := R @ take (Suc i) inputs\<rparr>)) = observe T (Some GenerationCanceled, count_accepted s s')"
    and "\<not> can \<Longrightarrow> \<not> k \<or> length (gs_generated s') \<ge> ge_max env \<or> length R + i + 1 \<ge> ge_cacheLen env \<Longrightarrow>
      observe T (target_run env c (s\<lparr>gs_rows := R @ take (Suc i) inputs\<rparr>)) = observe T (None, (count_accepted s s')\<lparr>gs_rows := R @ take (Suc i) inputs\<rparr>)"
    and "k \<Longrightarrow> length (gs_generated s') < ge_max env \<Longrightarrow> length R + i + 1 < ge_cacheLen env \<Longrightarrow>
      predictions ! Suc i = greedy_target env (R @ take (Suc (Suc i)) inputs) (gs_recent s') \<Longrightarrow>
      observe T (target_run env c (s\<lparr>gs_rows := R @ take (Suc i) inputs\<rparr>))
      = observe T (target_run env (predictions ! Suc i) ((count_accepted s s')\<lparr>gs_rows := R @ take (Suc (Suc i)) inputs\<rparr>))"
proof -
  let ?S = "s\<lparr>gs_rows := R @ take (Suc i) inputs\<rparr>" and ?S' = "s'\<lparr>gs_rows := R @ take (Suc i) inputs\<rparr>"
  have eS: "emitToken env c ?S = (k, can, ?S')" by (simp add: emitToken_rows e)
  have rows: "length (gs_rows ?S') = length R + i + 1" using i(1) by simp
  have tk: "take (Suc (Suc i)) inputs = take (Suc i) inputs @ [c]" using i by (simp add: take_Suc_conv_app_nth)
  note te = target_run_emit [OF eS]
  show "observe T (target_run env c ?S) = observe T (Some GenerationCanceled, count_accepted s s')" if "can"
    using te(1) [OF that] by (simp add: count_accepted_def observe_error observe_spec)
  show "observe T (target_run env c ?S) = observe T (None, (count_accepted s s')\<lparr>gs_rows := R @ take (Suc i) inputs\<rparr>)"
    if "\<not> can" "\<not> k \<or> length (gs_generated s') \<ge> ge_max env \<or> length R + i + 1 \<ge> ge_cacheLen env"
    using te(2) [OF that(1)] that(2) rows by (simp add: count_accepted_def observe_def visible_rows)
  show "observe T (target_run env c ?S) = observe T (target_run env (predictions ! Suc i) ((count_accepted s s')\<lparr>gs_rows := R @ take (Suc (Suc i)) inputs\<rparr>))"
    if "k" "length (gs_generated s') < ge_max env" "length R + i + 1 < ge_cacheLen env"
      and p: "predictions ! Suc i = greedy_target env (R @ take (Suc (Suc i)) inputs) (gs_recent s')"
  proof -
    have "target_run env c ?S = target_run env (predictions ! Suc i) (fed c ?S')"
      using te(3) [OF that(1)] that(2,3) rows p by (simp add: tk)
    moreover have "visible T (fed c ?S') = visible T ((count_accepted s s')\<lparr>gs_rows := R @ take (Suc (Suc i)) inputs\<rparr>)"
      by (simp add: count_accepted_def visible_rows tk)
    ultimately show ?thesis using target_run_cong [of T "fed c ?S'" "(count_accepted s s')\<lparr>gs_rows := R @ take (Suc (Suc i)) inputs\<rparr>"] by simp
  qed
qed

lemma count_accepted_sel [simp]:
  "gs_rows (count_accepted st s) = gs_rows s" "gs_generated (count_accepted st s) = gs_generated s" "gs_recent (count_accepted st s) = gs_recent s"
  "gs_constraint (count_accepted st s) = gs_constraint s"
  by (simp_all add: count_accepted_def)

lemma ready_accepted [simp]: "ready env m (count_accepted st s) = ready env m s"
  by (simp add: ready_def)

lemma accept_follows:
  assumes exact: "length predictions = length inputs" "\<And>j. j < length inputs \<Longrightarrow> predictions ! j = greedy_target env (R @ take (Suc j) inputs) (recents ! j)"
    and inputs: "inputs = token # ds" "recents = histories recent0 inputs" and noctx: "\<And>n. \<not> ge_ctx env n"
  shows "ready env m s \<Longrightarrow> gs_rows s = R \<Longrightarrow> i + length drafts = length ds \<Longrightarrow> drafts = drop i ds \<Longrightarrow> recents ! i = gs_recent s \<Longrightarrow>
    verdict_follows T env m R inputs (target_run env (predictions ! i) (s\<lparr>gs_rows := R @ take (Suc i) inputs\<rparr>)) (accept_drafts env predictions drafts i accepted s)"
proof (induction drafts arbitrary: i accepted s)
  case Nil
  then have "last predictions = predictions ! i" using exact(1) inputs(1) by (subst last_conv_nth) auto
  then show ?case using Nil inputs(1) by (simp add: verdict_follows_def)
next
  case (Cons c rest)
  have i: "i < length ds" "Suc i < length inputs" using Cons.prems(3) inputs(1) by simp_all
  have c: "c = ds ! i" "rest = drop (Suc i) ds" using Cons.prems(4) i by (metis Cons_nth_drop_Suc list.inject)+
  show ?case
  proof (cases "predictions ! i = c")
    case False
    then have a: "accept_drafts env predictions (c # rest) i accepted s = Accepted (i + 1) False (predictions ! i) accepted s"
      using noctx by simp
    show ?thesis using Cons.prems(1,2) i inputs(1) unfolding a by (simp add: verdict_follows_def)
  next
    case True
    obtain k can s' where e: "emitToken env c s = (k, can, s')" by (rule prod_cases3)
    note a = accept_drafts_Cons [OF noctx True e, of rest accepted, unfolded Let_def Cons.prems(2)]
    have rec: "recents ! Suc i = gs_recent s'" if "k"
      using emitToken_fields(11) [OF e that] Cons.prems(5) histories_Suc [OF i(1), of recent0 token] inputs c(1) by simp
    have ci: "inputs ! Suc i = c" using inputs(1) c(1) by simp
    have rows: "gs_rows (count_accepted s s') = R" using Cons.prems(2) emitToken_fields(1) [OF e] by simp
    note em = accept_emits [OF e Cons.prems(2) i(2) ci, where T = T]
    consider "can" | "\<not> can" "\<not> k \<or> length (gs_generated s') \<ge> ge_max env \<or> length R + i + 1 \<ge> ge_cacheLen env"
      | "\<not> can" "k" "length (gs_generated s') < ge_max env" "length R + i + 1 < ge_cacheLen env" by linarith
    then show ?thesis
    proof cases
      case 1
      then show ?thesis using em(1) unfolding a True by (simp add: verdict_follows_def)
    next
      case 2
      then show ?thesis using em(2) rows i(2) unfolding a True by (simp add: verdict_follows_def)
    next
      case 3
      have p: "predictions ! Suc i = greedy_target env (R @ take (Suc (Suc i)) inputs) (gs_recent s')"
        using exact(2) [OF i(2)] rec [OF 3(2)] by simp
      have r: "ready env m (count_accepted s s')" using emit_ready [of env m s c can s'] Cons.prems(1) e 3 by simp
      have "verdict_follows T env m R inputs (target_run env (predictions ! Suc i) ((count_accepted s s')\<lparr>gs_rows := R @ take (Suc (Suc i)) inputs\<rparr>))
          (accept_drafts env predictions rest (Suc i) (accepted + (length (gs_generated s') - length (gs_generated s))) (count_accepted s s'))"
        using Cons.prems(3) c(2) rec [OF 3(2)] by (intro Cons.IH [OF r rows]) simp_all
      then show ?thesis using em(3) [OF 3(2-4) p] 3 unfolding a True
        by (simp add: verdict_follows_def split: verdict.splits)
    qed
  qed
qed

lemma window_limit_le: "fst (window_limit w a b) \<le> max 0 (min a b)"
  by (auto simp: window_limit_def Let_def find_Some_iff split: option.split)

lemma length_promptLookupDraft: "length (promptLookupDraft prompt generated n) \<le> nat n"
  by (simp add: promptLookupDraft_def Let_def split: option.split)

definition drafts_bounded :: "'d gen_env \<Rightarrow> bool" where
  "drafts_bounded env \<longleftrightarrow> ge_cacheLen env \<le> ge_maxLen env \<and> (\<forall>rows t n recent. length (ge_mtp_draft env rows t n recent) \<le> n)"

lemma draft_tokens_spec:
  assumes "drafts_bounded env" "draft_tokens env token st = (drafts, mtp, requested, serial, st')"
  shows "visible T st' = visible T st" "gs_constraint st' = gs_constraint st" "gs_next st' = gs_next st" "gs_logits st' = gs_logits st"
    "drafts \<noteq> [] \<Longrightarrow> length (gs_rows st) + length drafts + 1 \<le> ge_cacheLen env \<and> length (gs_generated st) + length drafts + 1 \<le> ge_max env"
proof -
  let ?a = "int (ge_cacheLen env) - int (length (gs_rows st)) - 1" and ?r = "int (ge_max env) - int (length (gs_generated st)) - 1"
  obtain l1 w1 where l1: "(if ge_lookup env > 0 then window_limit (gs_lookupWindow st) ?a ?r else (0, gs_lookupWindow st)) = (l1, w1)" by (rule prod.exhaust)
  obtain l2 w2 where l2: "window_limit (gs_mtpWindow (st\<lparr>gs_lookupWindow := w1\<rparr>)) ?a ?r = (l2, w2)" by (rule prod.exhaust)
  have b1: "l1 \<le> max 0 (min ?a ?r)" using l1 window_limit_le [of "gs_lookupWindow st" ?a ?r] by (simp split: if_splits)
  have b2: "l2 \<le> max 0 (min ?a ?r)" using l2 window_limit_le [of "gs_mtpWindow (st\<lparr>gs_lookupWindow := w1\<rparr>)" ?a ?r] by simp
  define d1 where "d1 = (if ge_lookup env > 0 then promptLookupDraft (ge_prompt env) (gs_generated st) l1 else [])"
  have n1: "length d1 \<le> nat l1" using length_promptLookupDraft by (simp add: d1_def)
  have e: "(drafts, mtp, requested, serial, st') = (if d1 = [] \<and> ge_mtp env > 0
      then (ge_mtp_draft env (gs_rows st) token (nat l2) (gs_recent st), True, l2, l2, st\<lparr>gs_lookupWindow := w1, gs_mtpWindow := w2\<rparr>)
      else (d1, False, l1, int (ge_mtp env), st\<lparr>gs_lookupWindow := w1\<rparr>))"
    using assms(2) l2 by (simp add: draft_tokens_def Let_def l1 d1_def split del: if_split cong: if_cong)
  show "visible T st' = visible T st" "gs_constraint st' = gs_constraint st" "gs_next st' = gs_next st" "gs_logits st' = gs_logits st"
    using e by (auto split: if_splits)
  have "length drafts \<le> nat (max 0 (min ?a ?r))"
  proof (cases "d1 = [] \<and> ge_mtp env > 0")
    case True
    then have "drafts = ge_mtp_draft env (gs_rows st) token (nat l2) (gs_recent st)" using e by simp
    then have "length drafts \<le> nat l2" using assms(1) by (simp add: drafts_bounded_def)
    then show ?thesis using b2 by linarith
  next
    case False
    then have "drafts = d1" using e by (auto split: if_splits)
    then have "length drafts \<le> nat l1" using n1 by simp
    then show ?thesis using b1 by linarith
  qed
  then show "length (gs_rows st) + length drafts + 1 \<le> ge_cacheLen env \<and> length (gs_generated st) + length drafts + 1 \<le> ge_max env"
    if "drafts \<noteq> []" using that by (cases drafts) auto
qed

lemma observe_block_visible [simp]:
  "visible T (observe_block env b req d a st) = visible T st" "gs_constraint (observe_block env b req d a st) = gs_constraint st"
  "gs_recent (observe_block env b req d a st) = gs_recent st" "gs_generated (observe_block env b req d a st) = gs_generated st"
  "gs_next (observe_block env b req d a st) = gs_next st" "gs_rows (observe_block env b req d a st) = gs_rows st"
  by (simp_all add: observe_block_def Let_def split: prod.splits)

lemma count_block_sel [simp]:
  "visible T (count_block drafts st) = visible T st" "gs_rows (count_block drafts st) = gs_rows st" "gs_recent (count_block drafts st) = gs_recent st"
  "ready env m (count_block drafts st) = ready env m st"
  by (simp_all add: count_block_def ready_def)

lemma committed_sel:
  "visible T (committed env inputs mtp requested keep t accepted s) = visible T (s\<lparr>gs_rows := gs_rows s @ take keep inputs\<rparr>)"
  "gs_constraint (committed env inputs mtp requested keep t accepted s) = gs_constraint s"
  "gs_recent (committed env inputs mtp requested keep t accepted s) = gs_recent s"
  "gs_generated (committed env inputs mtp requested keep t accepted s) = gs_generated s"
  "gs_next (committed env inputs mtp requested keep t accepted s) = Some t"
  "gs_rows (committed env inputs mtp requested keep t accepted s) = gs_rows s @ take keep inputs"
  by (simp_all add: committed_def discard_def visible_rows)

text \<open>Committing turns a verdict that follows the target into a result that does.\<close>

lemma committed_follows:
  assumes "verdict_follows T env m R inputs r (Accepted keep stop t accepted s)"
  shows "follows T env m r (if stop then Break (committed env inputs mtp requested keep t accepted s)
    else Continue (committed env inputs mtp requested keep t accepted s))"
proof -
  let ?s = "committed env inputs mtp requested keep t accepted s"
  have R: "gs_rows s = R" using assms by (simp add: verdict_follows_def)
  have v: "visible T ?s = visible T (s\<lparr>gs_rows := R @ take keep inputs\<rparr>)" by (simp add: committed_sel R)
  show ?thesis
  proof (cases stop)
    case True
    then have "observe T r = observe T (None, s\<lparr>gs_rows := R @ take keep inputs\<rparr>)" using assms by (simp add: verdict_follows_def)
    also have "\<dots> = observe T (None, ?s)" using v by (simp add: observe_def)
    finally show ?thesis using True by (simp add: follows_def)
  next
    case False
    then have o: "ready env m s" "observe T r = observe T (target_run env t (s\<lparr>gs_rows := R @ take keep inputs\<rparr>))"
      using assms by (simp_all add: verdict_follows_def)
    then have "upcoming env ?s t" "m \<le> length (gs_generated ?s)" "length (gs_generated ?s) < ge_max env"
      by (simp_all add: ready_def upcoming_def committed_sel)
    moreover have "observe T r = observe T (target_run env t ?s)" using o(2) target_run_cong [OF v [symmetric]] by simp
    ultimately show ?thesis using False by (auto simp: follows_def)
  qed
qed

lemma commit_follows:
  assumes "exact_target env" "\<And>n. \<not> ge_ctx env n" "ready env m st"
  shows "follows T env m (next_run env token st)
    (commit_block env token drafts mtp requested (ge_block env (gs_rows st) (token # drafts) (histories (gs_recent st) (token # drafts))) st)"
proof -
  let ?in = "token # drafts" and ?R = "gs_rows st" and ?s0 = "count_block drafts st"
  define recents where "recents = histories (gs_recent st) ?in"
  define p where "p = ge_block env ?R ?in recents"
  have l: "length recents = length ?in" unfolding recents_def by (rule length_histories)
  have p: "length p = length ?in" "\<And>j. j < length ?in \<Longrightarrow> p ! j = greedy_target env (?R @ take (Suc j) ?in) (recents ! j)"
    using exact_block [OF assms(1) l, where rows = ?R] unfolding p_def by simp_all
  have r0: "recents ! 0 = gs_recent ?s0" using assms(3) histories_0 [of "gs_recent st" token drafts] by (simp add: ready_def recents_def)
  define v where "v = accept_drafts env p drafts 0 0 ?s0"
  have "verdict_follows T env m ?R ?in (target_run env (p ! 0) (?s0\<lparr>gs_rows := ?R @ take (Suc 0) ?in\<rparr>)) v"
    unfolding v_def using r0 assms(3) by (intro accept_follows [OF p refl recents_def assms(2)]) simp_all
  moreover have "observe T (target_run env (p ! 0) (?s0\<lparr>gs_rows := ?R @ take (Suc 0) ?in\<rparr>)) = observe T (next_run env token st)"
  proof -
    have "visible T (?s0\<lparr>gs_rows := ?R @ take (Suc 0) ?in\<rparr>) = visible T (fed token st)" by (simp add: visible_rows)
    moreover have "p ! 0 = greedy_target env (?R @ [token]) (gs_recent st)" using p(2) [of 0] r0 by simp
    ultimately show ?thesis using target_run_cong [of T "?s0\<lparr>gs_rows := ?R @ take (Suc 0) ?in\<rparr>" "fed token st" env "p ! 0"] by simp
  qed
  ultimately have vf: "verdict_follows T env m ?R ?in (next_run env token st) v"
    using verdict_follows_cong by blast
  show ?thesis
  proof (cases v)
    case (Aborted e s)
    then show ?thesis using vf unfolding commit_block_eq recents_def [symmetric] p_def [symmetric] v_def [symmetric]
      by (simp add: verdict_follows_def follows_def discard_def observe_spec)
  next
    case (Accepted keep stop t accepted s)
    then show ?thesis using committed_follows [OF vf [unfolded Accepted], of mtp requested] assms(2)
      unfolding commit_block_eq recents_def [symmetric] p_def [symmetric] v_def [symmetric] by simp
  qed
qed

lemma serial_follows:
  assumes "exact_target env" "\<And>n. \<not> ge_ctx env n" "ready env m st"
  shows "follows T env m (next_run env token st) (serial_step env token limit st)"
  using forward_follows [OF assms(1,3)] mtp_serial_follows [OF assms] by (simp add: serial_step_def Let_def)

lemma advance_follows:
  assumes "exact_target env" "drafts_bounded env" "\<And>n. \<not> ge_ctx env n" "ready env m st"
  shows "follows T env m (next_run env token st) (advance_step env token st)"
proof (cases "(ge_mtp env > 0 \<or> ge_lookup env > 0) \<and> ge_verify env")
  case False
  then have "advance_step env token st = serial_step env token (int (ge_mtp env)) st" by (rule advance_step_serial)
  then show ?thesis using serial_follows [OF assms(1,3,4)] by simp
next
  case True
  obtain drafts mtp requested limit s where d: "draft_tokens env token st = (drafts, mtp, requested, limit, s)" by (rule prod_cases5)
  note ds = draft_tokens_spec [OF assms(2) d]
  have r: "ready env m s" using assms(4) visible_eq [OF ds(1)] ds(2) by (simp add: ready_def)
  have o: "observe T (next_run env token st) = observe T (next_run env token s)" using next_run_cong [OF ds(1)] by metis
  note a = advance_step_drafts [OF True d]
  have "follows T env m (next_run env token s) (advance_step env token st)"
  proof (cases "drafts = [] \<or> length (token # drafts) > speculativeMaxPositions")
    case True
    then have "advance_step env token st = serial_step env token limit s"
      using assms(3) unfolding a by (auto simp: prepareSpeculativeBlock_def)
    then show ?thesis using serial_follows [OF assms(1,3) r] by simp
  next
    case False
    then have "length (gs_rows s) + length (token # drafts) \<le> ge_maxLen env"
      using ds(5) visible_eq(1) [OF ds(1)] assms(2) by (simp add: drafts_bounded_def)
    then have "prepareSpeculativeBlock env (token # drafts) s
        = Inr (Some (ge_block env (gs_rows s) (token # drafts) (histories (gs_recent s) (token # drafts))))"
      using False True assms(3) by (cases drafts) (simp_all add: prepareSpeculativeBlock_def)
    then have "advance_step env token st = commit_block env token drafts mtp requested
        (ge_block env (gs_rows s) (token # drafts) (histories (gs_recent s) (token # drafts))) s"
      using False unfolding a by simp
    then show ?thesis using commit_follows [OF assms(1,3) r] by simp
  qed
  then show ?thesis using follows_cong [OF o] by simp
qed

section \<open>The whole loop\<close>

lemma decode_follows:
  assumes "exact_target env" "drafts_bounded env" "\<And>n. \<not> ge_ctx env n"
  shows "upcoming env st token \<Longrightarrow> length (gs_generated st) < ge_max env \<Longrightarrow> ge_max env \<le> length (gs_generated st) + n \<Longrightarrow>
    observe T (decode_loop env n st) = observe T (target_run env token st)"
proof (induction n arbitrary: st token)
  case (Suc n)
  obtain s where s: "pick_token env st = Inr (token, s)" "visible T s = visible T st" "gs_constraint s = None"
    using pick_upcoming [OF assms(1) Suc.prems(1), of T] by blast
  obtain k c s' where e: "emitToken env token s = (k, c, s')" by (rule prod_cases3)
  have cn: "gs_constraint s' = None" using emitToken_fields(2) [OF e] s(3) by simp
  have step: "decode_step env st = (if c then Return GenerationCanceled s' else if \<not> k then Break s'
      else if length (gs_generated s') \<ge> ge_max env \<or> length (gs_rows s') \<ge> ge_cacheLen env then Break s' else advance_step env token s')"
    using decode_step_picked [OF assms(3) s(1) e] cn by simp
  have o: "observe T (target_run env token st) = observe T (target_run env token s)" using target_run_cong [OF s(2)] by simp
  note te = target_run_emit [OF e]
  consider "c" | "\<not> c" "\<not> k \<or> length (gs_generated s') \<ge> ge_max env \<or> length (gs_rows s') \<ge> ge_cacheLen env"
    | "\<not> c" "k" "length (gs_generated s') < ge_max env" "length (gs_rows s') < ge_cacheLen env" by linarith
  then show ?case
  proof cases
    case 1
    then show ?thesis using te(1) o step by simp
  next
    case 2
    then show ?thesis using te(2) o step by simp
  next
    case 3
    have g: "length (gs_generated s') = length (gs_generated st) + 1" using emitToken_fields(10) [OF e 3(2)] visible_eq(2) [OF s(2)] by simp
    have r: "ready env (length (gs_generated st) + 1) s'"
      using 3 g cn emitToken_fields(11) [OF e 3(2)] last_n_length by (simp add: ready_def)
    have f: "follows T env (length (gs_generated st) + 1) (next_run env token s') (decode_step env st)"
      using advance_follows [OF assms r] 3 step by simp
    have t: "observe T (target_run env token st) = observe T (next_run env token s')" using te(3) 3 o by simp
    show ?thesis
    proof (cases "decode_step env st")
      case (Continue x)
      then obtain y where y: "upcoming env x y" "length (gs_generated st) + 1 \<le> length (gs_generated x)" "length (gs_generated x) < ge_max env"
        "observe T (next_run env token s') = observe T (target_run env y x)" using f by (auto simp: follows_def)
      have "observe T (decode_loop env n x) = observe T (target_run env y x)" using y Suc.prems(3) by (intro Suc.IH) simp_all
      then show ?thesis using Continue t y(4) by simp
    next
      case (Break x)
      then show ?thesis using f t by (simp add: follows_def)
    next
      case (Return e x)
      then show ?thesis using f t by (simp add: follows_def)
    qed
  qed
qed simp

end
