(* ===== verification/Decode_Emission.thy ===== *)
theory Decode_Emission
  imports Decode_Laws Go_Strings_Laws
begin

text \<open>
  What is true of the text after every emitted token is true at the end of the loop, however the tokens were found:
  an interface for properties of the text, and its two instances.
\<close>

section \<open>Properties of the text\<close>

type_synonym text_state = "string \<times> string \<times> string list \<times> u32 list"

text \<open>Output, held text, pieces sent, tokens generated.\<close>

definition text_of :: "'d gen_state \<Rightarrow> text_state" where
  "text_of st = (gs_output st, gs_stream st, gs_sent st, gs_generated st)"

lemma text_of_hidden [simp]:
  "text_of (st\<lparr>gs_next := a\<rparr>) = text_of st" "text_of (st\<lparr>gs_logits := b\<rparr>) = text_of st" "text_of (st\<lparr>gs_rng := c\<rparr>) = text_of st"
  "text_of (st\<lparr>gs_mtpWindow := w\<rparr>) = text_of st" "text_of (st\<lparr>gs_lookupWindow := w\<rparr>) = text_of st" "text_of (st\<lparr>gs_spec := s\<rparr>) = text_of st"
  "text_of (st\<lparr>gs_rows := r\<rparr>) = text_of st" "text_of (st\<lparr>gs_finish := f\<rparr>) = text_of st" "text_of (st\<lparr>gs_constraint := k\<rparr>) = text_of st"
  "text_of (st\<lparr>gs_recent := q\<rparr>) = text_of st"
  by (simp_all add: text_of_def)

lemma text_of_generated: "text_of a = text_of b \<Longrightarrow> gs_generated a = gs_generated b"
  by (simp add: text_of_def)

lemma text_of_steps:
  "text_of (forward_token env t st) = text_of st"
  "sample_next env st = Some (x, st') \<Longrightarrow> text_of st' = text_of st"
  "text_of (observe_block env b r d a st) = text_of st"
  "text_of (discard n st) = text_of st"
  by (auto simp: forward_token_def Let_def sample_next_def observe_block_def discard_def split: prod.splits)

lemma text_of_verify: "verifyToken env t st = Some (x, st') \<Longrightarrow> text_of st' = text_of st"
  by (auto simp: verifyToken_def Let_def text_of_steps(1) split: option.splits dest!: text_of_steps(2))

lemma text_of_pick:
  assumes "pick_token env st = Inr (t, st')"
  shows "text_of st' = text_of st"
proof (rule pick_tokenE [OF assms])
  fix s s'
  assume h: "gs_constraint st = None \<and> s = st \<or> (\<exists>c l. gs_constraint st = Some c
       \<and> constraint_mask env (ge_ctx env (length (gs_generated st))) c (gs_logits st) = Inr l \<and> s = st\<lparr>gs_logits := l\<rparr>)"
    "gs_next s = Some t \<and> s' = s\<lparr>gs_next := None\<rparr> \<or> gs_next s = None \<and> sample_next env s = Some (t, s')"
    "gs_constraint s' = None \<and> st' = s' \<or> (\<exists>c c'. gs_constraint s' = Some c \<and> constraint_accept env c t = Inr c' \<and> st' = s'\<lparr>gs_constraint := Some c'\<rparr>)"
  have "text_of s = text_of st" using h(1) by auto
  moreover have "text_of s' = text_of s" using h(2) text_of_steps(2) [of env s t s'] by auto
  moreover have "text_of st' = text_of s'" using h(3) by auto
  ultimately show ?thesis by simp
qed

lemma text_of_drafts: "draft_tokens env t st = (drafts, mtp, requested, serial, st') \<Longrightarrow> text_of st' = text_of st"
  by (auto simp: draft_tokens_def Let_def split: prod.splits if_splits)

locale emission =
  fixes env :: "'d gen_env" and running stopped failed :: "text_state \<Rightarrow> bool"
  assumes emit_keep: "running (text_of st) \<Longrightarrow> length (gs_generated st) < ge_max env \<Longrightarrow> emitToken env t st = (True, c, st') \<Longrightarrow> running (text_of st')"
    and emit_stop: "running (text_of st) \<Longrightarrow> length (gs_generated st) < ge_max env \<Longrightarrow> emitToken env t st = (False, False, st') \<Longrightarrow> stopped (text_of st')"
    and emit_cancel: "running (text_of st) \<Longrightarrow> length (gs_generated st) < ge_max env \<Longrightarrow> emitToken env t st = (False, True, st') \<Longrightarrow> failed (text_of st')"
    and run_stop: "running x \<Longrightarrow> stopped x"
    and stop_fail: "stopped x \<Longrightarrow> failed x"
begin

definition going :: "'d gen_state \<Rightarrow> bool" where
  "going st \<longleftrightarrow> running (text_of st) \<and> length (gs_generated st) < ge_max env"

definition result_ok :: "'d loop_result \<Rightarrow> bool" where
  "result_ok r = (case r of Continue st \<Rightarrow> going st | Break st \<Rightarrow> stopped (text_of st) | Return e st \<Rightarrow> failed (text_of st))"

lemma result_simps [simp]:
  "result_ok (Continue st) = going st" "result_ok (Break st) = stopped (text_of st)" "result_ok (Return e st) = failed (text_of st)"
  by (simp_all add: result_ok_def)

lemma going_cong: "text_of a = text_of b \<Longrightarrow> going a = going b"
  using text_of_generated [of a b] by (simp add: going_def)

lemma going_failed: "going st \<Longrightarrow> failed (text_of st)" and going_stopped: "going st \<Longrightarrow> stopped (text_of st)"
  using run_stop stop_fail by (simp_all add: going_def)

text \<open>The three ends of an emission.\<close>

lemma emit_cases:
  assumes "going st" "emitToken env t st = (k, c, st')"
  shows "c \<Longrightarrow> failed (text_of st')" "\<not> c \<Longrightarrow> stopped (text_of st')" "k \<Longrightarrow> length (gs_generated st') < ge_max env \<Longrightarrow> going st'"
proof -
  have g: "running (text_of st)" "length (gs_generated st) < ge_max env" using assms(1) by (simp_all add: going_def)
  show "failed (text_of st')" if "c"
    using emit_cancel [OF g, of t st'] assms(2) that emitToken_fields(9) [OF assms(2)] by (cases k) simp_all
  show "stopped (text_of st')" if "\<not> c"
    using emit_stop [OF g, of t st'] emit_keep [OF g, of t c st', THEN run_stop] assms(2) that by (cases k) simp_all
  show "going st'" if "k" "length (gs_generated st') < ge_max env"
    using emit_keep [OF g, of t c st'] assms(2) that by (simp add: going_def)
qed

lemma mtp_serial_ok: "going st \<Longrightarrow> result_ok (mtp_serial env token drafts st)"
proof (induction drafts arbitrary: token st)
  case Nil
  show ?case
  proof (cases "ge_ctx env (length (gs_generated st)) \<or> verifyToken env token st = None")
    case True
    then show ?thesis using going_failed [OF Nil] by (subst mtp_serial.simps) auto
  next
    case False
    then obtain x s where v: "verifyToken env token st = Some (x, s)" by auto
    have "text_of (s\<lparr>gs_next := Some x\<rparr>) = text_of st" using text_of_verify [OF v] by simp
    then have "going (s\<lparr>gs_next := Some x\<rparr>)" using going_cong Nil by blast
    then show ?thesis using False v by (subst mtp_serial.simps) simp
  qed
next
  case (Cons d drafts)
  show ?case
  proof (cases "ge_ctx env (length (gs_generated st)) \<or> verifyToken env token st = None")
    case True
    then show ?thesis using going_failed [OF Cons.prems] by (subst mtp_serial.simps) auto
  next
    case False
    then obtain x s where v: "verifyToken env token st = Some (x, s)" by auto
    then have s: "going s" using Cons.prems text_of_verify going_cong by blast
    obtain k c s' where e: "emitToken env d s = (k, c, s')" by (rule prod_cases3)
    note ec = emit_cases [OF s e]
    have ctx: "\<not> ge_ctx env (length (gs_generated st))" using False by simp
    note m = mtp_serial_Cons [OF ctx v e, of drafts]
    show ?thesis using ec Cons.IH [of s' d] s going_cong [of "s\<lparr>gs_next := Some x\<rparr>" s] unfolding m by auto
  qed
qed

lemma accept_ok:
  "going st \<Longrightarrow> (case accept_drafts env predictions drafts i accepted st of
     Accepted keep stop t n st' \<Rightarrow> if stop then stopped (text_of st') else going st' | Aborted e st' \<Rightarrow> failed (text_of st'))"
proof (induction drafts arbitrary: i accepted st)
  case (Cons d drafts)
  show ?case
  proof (cases "ge_ctx env (length (gs_generated st)) \<or> predictions ! i \<noteq> d")
    case True
    then show ?thesis using going_failed [OF Cons.prems] Cons.prems by auto
  next
    case False
    obtain k c s where e: "emitToken env d st = (k, c, s)" by (rule prod_cases3)
    define s' where "s' = count_accepted st s"
    have s': "text_of s' = text_of s" "gs_generated s' = gs_generated s" by (simp_all add: s'_def count_accepted_def)
    note ec = emit_cases [OF Cons.prems e]
    show ?thesis using False e ec Cons.IH [of s'] going_cong [OF s'(1)] s'(1)
      by (simp add: Let_def count_accepted_def [symmetric] s'_def [symmetric] split: verdict.splits)
  qed
qed simp

lemma serial_ok: "going st \<Longrightarrow> result_ok (serial_step env token limit st)"
proof -
  assume g: "going st"
  have "going (forward_token env token st)" using going_cong [OF text_of_steps(1)] g by blast
  then show ?thesis using mtp_serial_ok [OF g] by (simp add: serial_step_def Let_def)
qed

lemma commit_ok:
  assumes "going st"
  shows "result_ok (commit_block env token drafts mtp requested predictions st)"
proof -
  define v where "v = accept_drafts env predictions drafts 0 0 (count_block drafts st)"
  have "going (count_block drafts st)" using assms going_cong [of "count_block drafts st" st] by (simp add: count_block_def)
  note a = accept_ok [OF this, of predictions drafts 0 0, folded v_def]
  show ?thesis
  proof (cases v)
    case (Aborted e s)
    then show ?thesis using a unfolding commit_block_eq v_def [symmetric] by (simp add: text_of_steps)
  next
    case (Accepted keep stop t accepted s)
    let ?s = "committed env (token # drafts) mtp requested keep t accepted s"
    have s: "text_of ?s = text_of s" "text_of (discard (length drafts + 1) s) = text_of s" by (simp_all add: committed_def text_of_steps)
    have "if stop then stopped (text_of s) else going s" using a Accepted by simp
    then show ?thesis using s Accepted going_cong [OF s(1)] going_failed [of s] stop_fail [of "text_of s"]
      unfolding commit_block_eq v_def [symmetric] by simp
  qed
qed

lemma advance_ok:
  assumes "going st"
  shows "result_ok (advance_step env token st)"
proof (cases "(ge_mtp env > 0 \<or> ge_lookup env > 0) \<and> ge_verify env")
  case False
  then show ?thesis using serial_ok [OF assms] by (simp add: advance_step_serial)
next
  case True
  obtain drafts mtp requested limit s where d: "draft_tokens env token st = (drafts, mtp, requested, limit, s)" by (rule prod_cases5)
  have s: "going s" using text_of_drafts [OF d] going_cong assms by blast
  note a = advance_step_drafts [OF True d]
  show ?thesis using s serial_ok [OF s] commit_ok [OF s] going_failed [OF s] unfolding a by (auto split: sum.split option.split)
qed

lemma step_ok:
  assumes "going st"
  shows "result_ok (decode_step env st)"
proof (cases "ge_ctx env (length (gs_generated st))")
  case True
  then show ?thesis using going_failed [OF assms] by (simp add: decode_step_def)
next
  case False
  show ?thesis
  proof (cases "pick_token env st")
    case (Inl e)
    then show ?thesis using False going_failed [OF assms] by (simp add: decode_step_def)
  next
    case (Inr p)
    then obtain t s where p: "pick_token env st = Inr (t, s)" by (cases p) simp
    have s: "going s" using text_of_pick [OF p] going_cong assms by blast
    obtain k c s' where e: "emitToken env t s = (k, c, s')" by (rule prod_cases3)
    note ec = emit_cases [OF s e]
    note ds = decode_step_picked [OF False p e]
    show ?thesis using ec advance_ok [of s' t] unfolding ds by auto
  qed
qed

lemma loop_ok:
  "running (text_of st) \<Longrightarrow> n = 0 \<or> length (gs_generated st) < ge_max env \<Longrightarrow> decode_loop env n st = (e, st') \<Longrightarrow>
    (if e = None then stopped (text_of st') else failed (text_of st'))"
proof (induction n arbitrary: st)
  case 0
  then show ?case using run_stop by auto
next
  case (Suc n)
  then have "result_ok (decode_step env st)" by (intro step_ok) (simp add: going_def)
  then show ?case using Suc by (auto simp: going_def split: loop_result.splits)
qed

end


section \<open>The text that is streamed\<close>

lemma occurs_bound: "s \<noteq> [] \<Longrightarrow> HasPrefix (drop j x) s \<Longrightarrow> j + length s \<le> length x"
proof -
  assume "s \<noteq> []" "HasPrefix (drop j x) s"
  then obtain t where "drop j x = s @ t" "s \<noteq> []" using HasPrefixE by blast
  then have "length x - j = length s + length t" "0 < length s" by (simp_all flip: length_drop)
  then show ?thesis by linarith
qed

lemma occurs_take:
  assumes "s \<noteq> []" "p \<le> length x"
  shows "HasPrefix (drop j (take p x)) s \<longleftrightarrow> HasPrefix (drop j x) s \<and> j + length s \<le> p"
proof -
  have 1: "j + length s \<le> p" if "HasPrefix (drop j (take p x)) s" using occurs_bound [OF assms(1) that] assms(2) by simp
  have "HasPrefix (drop j (take p x)) s = HasPrefix (drop j x) s" if "j + length s \<le> p"
    using that by (simp add: HasPrefix_def drop_take min_absorb1)
  then show ?thesis using 1 by blast
qed

lemma Contains_occurs: "Contains x s \<longleftrightarrow> (\<exists>j \<le> length x. HasPrefix (drop j x) s)"
  using Index_None_iff by (simp add: Contains_def)

lemma foldl_max: "(m :: nat) \<le> foldl (\<lambda>m s. max m (length s)) m ss \<and> (\<forall>s \<in> set ss. length s \<le> foldl (\<lambda>m s. max m (length s)) m ss)"
proof (induction ss arbitrary: m)
  case (Cons s ss)
  show ?case using Cons.IH [of "max m (length s)"] by simp
qed simp

lemma stop_length: "s \<in> set (ge_stops env) \<Longrightarrow> length s \<le> maxStopLen env"
  using foldl_max [where m = 0 and ss = "ge_stops env"] by (simp add: maxStopLen_def)

lemma no_stops: "[] \<notin> set (ge_stops env) \<Longrightarrow> maxStopLen env = 0 \<longleftrightarrow> ge_stops env = []"
proof -
  assume h: "[] \<notin> set (ge_stops env)"
  show ?thesis
  proof (cases "ge_stops env")
    case Nil
    then show ?thesis by (simp add: maxStopLen_def)
  next
    case (Cons s ss)
    then have "length s \<le> maxStopLen env" "0 < length s" using h stop_length [of s env] by auto
    then have "0 < maxStopLen env" by (rule order.strict_trans2 [rotated])
    then show ?thesis using Cons by simp
  qed
qed

lemma find_stop_None: "find_stop ss w = None \<longleftrightarrow> (\<forall>s \<in> set ss. Index w s = None)"
  by (induction ss) (auto split: option.split)

lemma find_stop_Some: "find_stop ss w = Some i \<Longrightarrow> \<exists>s \<in> set ss. Index w s = Some i"
  by (induction ss) (auto split: option.splits)

lemma validUTF8PrefixLen_spec: "validUTF8PrefixLen b \<le> length b \<and> ValidString (take (validUTF8PrefixLen b) b)"
  by (auto simp: validUTF8PrefixLen_def find_Some_iff rev_nth split: option.split)

lemma validUTF8PrefixLen_full: "ValidString b \<Longrightarrow> validUTF8PrefixLen b = length b"
  by (simp add: validUTF8PrefixLen_def)

text \<open>
  While the loop runs, what was sent and what is held make up the output, no stop sequence occurs in it, and enough is
  held that the beginning of a stop sequence has not been sent.
\<close>

fun streaming :: "'d gen_env \<Rightarrow> text_state \<Rightarrow> bool" where
  "streaming env (out, buf, sent, gen) \<longleftrightarrow>
    ([] \<notin> set (ge_stops env) \<longrightarrow> concat sent @ buf = out \<and> (\<forall>s \<in> set (ge_stops env). \<not> Contains out s)
       \<and> (sent = [] \<or> maxStopLen env - 1 \<le> length buf))
    \<and> (ge_stops env = [] \<longrightarrow> list_all ValidString sent)"

fun streamed :: "'d gen_env \<Rightarrow> text_state \<Rightarrow> bool" where
  "streamed env (out, buf, sent, gen) \<longleftrightarrow>
    ([] \<notin> set (ge_stops env) \<longrightarrow> (\<exists>r. out = concat sent @ buf @ r) \<and> (\<forall>s. ge_stops env = [s] \<longrightarrow> \<not> Contains out s))
    \<and> (ge_stops env = [] \<longrightarrow> list_all ValidString sent \<and> concat sent @ buf = out)"

fun stream_failed :: "'d gen_env \<Rightarrow> text_state \<Rightarrow> bool" where
  "stream_failed env (out, buf, sent, gen) \<longleftrightarrow> ([] \<notin> set (ge_stops env) \<longrightarrow> (\<exists>r. out = concat sent @ r))"

lemma flush_cases:
  assumes "flushStream env False st = (ok, st')"
  shows "ok \<and> st' = st \<or> (\<exists>n. n + (maxStopLen env - 1) \<le> length (gs_stream st) \<and> gs_sent st' = gs_sent st @ [take n (gs_stream st)]
    \<and> (ok \<longrightarrow> gs_stream st' = drop n (gs_stream st)) \<and> (maxStopLen env = 0 \<longrightarrow> ValidString (take n (gs_stream st))))"
proof -
  let ?n = "validUTF8PrefixLen (gs_stream st)" and ?h = "maxStopLen env - 1"
  have v: "?n \<le> length (gs_stream st)" "ValidString (take ?n (gs_stream st))" using validUTF8PrefixLen_spec by blast+
  let ?d = "if maxStopLen env > 1 then ?n - ?h else ?n"
  let ?s = "st\<lparr>gs_sent := gs_sent st @ [take ?d (gs_stream st)]\<rparr>"
  define idle where "idle \<longleftrightarrow> gs_stream st = [] \<or> ?n = 0 \<or> (maxStopLen env > 1 \<and> ?n \<le> ?h)"
  have e: "flushStream env False st = (if idle then (True, st)
      else if \<not> ge_sink env (gs_sent st) (take ?d (gs_stream st)) then (False, ?s) else (True, ?s\<lparr>gs_stream := drop ?d (gs_stream st)\<rparr>))"
    unfolding flushStream_def Let_def idle_def by (simp split del: if_split) simp
  show ?thesis
  proof (cases idle)
    case True
    then show ?thesis using assms e by simp
  next
    case False
    then have "?d + ?h \<le> length (gs_stream st)" using v(1) by (auto simp: idle_def)
    moreover have "gs_sent st' = gs_sent st @ [take ?d (gs_stream st)]" "ok \<Longrightarrow> gs_stream st' = drop ?d (gs_stream st)"
      using assms unfolding e if_not_P [OF False] by (cases "ge_sink env (gs_sent st) (take ?d (gs_stream st))"; auto)+
    moreover have "maxStopLen env = 0 \<Longrightarrow> ValidString (take ?d (gs_stream st))" using v(2) by simp
    ultimately show ?thesis by (intro disjI2 exI [of _ ?d]) blast
  qed
qed

lemma flush_streaming:
  assumes "flushStream env False st = (ok, st')" "concat (gs_sent st) @ gs_stream st = gs_output st"
    and "gs_sent st = [] \<or> maxStopLen env - 1 \<le> length (gs_stream st)"
  shows "ok \<Longrightarrow> concat (gs_sent st') @ gs_stream st' = gs_output st \<and> (gs_sent st' = [] \<or> maxStopLen env - 1 \<le> length (gs_stream st'))"
    and "\<exists>r. gs_output st = concat (gs_sent st') @ r"
    and "maxStopLen env = 0 \<Longrightarrow> list_all ValidString (gs_sent st) \<Longrightarrow> list_all ValidString (gs_sent st')"
proof -
  consider "ok \<and> st' = st"
    | n where "n + (maxStopLen env - 1) \<le> length (gs_stream st) \<and> gs_sent st' = gs_sent st @ [take n (gs_stream st)]
        \<and> (ok \<longrightarrow> gs_stream st' = drop n (gs_stream st)) \<and> (maxStopLen env = 0 \<longrightarrow> ValidString (take n (gs_stream st)))"
    using flush_cases [OF assms(1)] by (elim disjE exE)
  note c = this
  have out: "gs_output st = concat (gs_sent st) @ gs_stream st" using assms(2) by simp
  show "concat (gs_sent st') @ gs_stream st' = gs_output st \<and> (gs_sent st' = [] \<or> maxStopLen env - 1 \<le> length (gs_stream st'))" if "ok"
    using c
  proof cases
    case 1
    then show ?thesis using out assms(3) by simp
  next
    case (2 n)
    then have "maxStopLen env - 1 \<le> length (gs_stream st) - n" by linarith
    then show ?thesis using 2 out that by simp
  qed
  show "\<exists>r. gs_output st = concat (gs_sent st') @ r"
    using c
  proof cases
    case 1
    then show ?thesis using out by blast
  next
    case (2 n)
    then have "gs_output st = concat (gs_sent st') @ drop n (gs_stream st)" using out by simp
    then show ?thesis by blast
  qed
  show "list_all ValidString (gs_sent st')" if "maxStopLen env = 0" "list_all ValidString (gs_sent st)"
    using c
  proof cases
    case (2 n)
    then show ?thesis using that by simp
  qed (use that in simp)
qed

text \<open>Before a token that completes no stop sequence no stop sequence occurs; one that does begins where nothing was sent.\<close>

lemma stop_absent:
  assumes "[] \<notin> set (ge_stops env)" "\<forall>s \<in> set (ge_stops env). \<not> Contains prev s"
    and "find_stop (ge_stops env) (drop (length (prev @ t) - maxStopLen env - length t) (prev @ t)) = None"
  shows "\<forall>s \<in> set (ge_stops env). \<not> Contains (prev @ t) s"
proof (intro ballI notI)
  let ?w = "length (prev @ t) - maxStopLen env - length t" and ?x = "prev @ t"
  fix s assume s: "s \<in> set (ge_stops env)" "Contains ?x s"
  then have ne: "s \<noteq> []" using assms(1) by auto
  obtain j where j: "HasPrefix (drop j ?x) s" using s(2) Contains_occurs by blast
  have l: "j + length s \<le> length ?x" "length s \<le> maxStopLen env" using occurs_bound [OF ne j] stop_length [OF s(1)] by simp_all
  have "Index (drop ?w ?x) s = None" using assms(3) s(1) find_stop_None by blast
  moreover have "HasPrefix (drop (j - ?w) (drop ?w ?x)) s" "j - ?w \<le> length (drop ?w ?x)" if "?w \<le> j"
    unfolding drop_drop length_drop using that j l(1) by simp_all
  ultimately have "\<not> (?w \<le> j)" using Index_None_iff [of "drop ?w ?x" s] by blast
  then have "j + length s \<le> length prev" using l by simp
  then have "HasPrefix (drop j prev) s" using occurs_take [OF ne, of "length prev" ?x j] j by simp
  moreover have "j \<le> length prev" using \<open>j + length s \<le> length prev\<close> by simp
  ultimately show False using assms(2) s(1) Contains_occurs by blast
qed

lemma stop_found:
  assumes "[] \<notin> set (ge_stops env)" "\<forall>s \<in> set (ge_stops env). \<not> Contains prev s"
    and "find_stop (ge_stops env) (drop w (prev @ t)) = Some i" "w = length (prev @ t) - maxStopLen env - length t"
  shows "length prev - (maxStopLen env - 1) \<le> w + i" "ge_stops env = [s] \<Longrightarrow> \<not> Contains (take (w + i) (prev @ t)) s"
proof -
  let ?x = "prev @ t"
  obtain r where r: "r \<in> set (ge_stops env)" "Index (drop w ?x) r = Some i" using find_stop_Some [OF assms(3)] by blast
  have ne: "r \<noteq> []" using r(1) assms(1) by auto
  have "HasPrefix (drop (w + i) ?x) r" using r(2) unfolding Index_iff drop_drop by (simp only: add.commute)
  note h = this(1) and l = occurs_bound [OF ne this(1)] stop_length [OF r(1)]
  have "\<not> w + i + length r \<le> length prev"
  proof
    assume le: "w + i + length r \<le> length prev"
    then have "HasPrefix (drop (w + i) prev) r" using occurs_take [OF ne, of "length prev" ?x "w + i"] h by simp
    then show False using assms(2) r(1) Contains_occurs le by (metis add_leD1)
  qed
  then show "length prev - (maxStopLen env - 1) \<le> w + i" using l ne by linarith
  show "\<not> Contains (take (w + i) ?x) s" if "ge_stops env = [s]"
  proof
    assume "Contains (take (w + i) ?x) s"
    then obtain j where "HasPrefix (drop j (take (w + i) ?x)) s" using Contains_occurs by blast
    moreover have s: "s = r" using that r(1) by simp
    ultimately have j: "HasPrefix (drop j ?x) r" "j + length r \<le> w + i" using occurs_take [OF ne, of "w + i" ?x j] l by simp_all
    show False
    proof (cases "w \<le> j")
      case True
      then have "HasPrefix (drop (j - w) (drop w ?x)) r" "j - w < i" unfolding drop_drop using j ne by (auto simp: Suc_le_eq simp flip: length_greater_0_conv)
      moreover have "\<forall>k < i. \<not> HasPrefix (drop k (drop w ?x)) r" using r(2) unfolding Index_iff by (elim conjE)
      ultimately show False by blast
    next
      case False
      then have "j + length r \<le> length prev" using assms(4) l by simp
      then have "HasPrefix (drop j prev) r" using occurs_take [OF ne, of "length prev" ?x j] j by simp
      then show False using assms(2) r(1) Contains_occurs \<open>j + length r \<le> length prev\<close> by (metis add_leD1)
    qed
  qed
qed

lemma streaming_streamed: "streaming env x \<Longrightarrow> streamed env x"
proof (cases x)
  case (fields out buf sent gen)
  assume h: "streaming env x"
  show ?thesis
  proof (cases "[] \<in> set (ge_stops env)")
    case False
    then have "out = concat sent @ buf @ []" using h fields by simp
    then show ?thesis using h fields False by fastforce
  next
    case True
    then show ?thesis using h fields by auto
  qed
qed

lemma streamed_failed: "streamed env x \<Longrightarrow> stream_failed env x"
  by (cases x) (auto simp del: append_assoc)

lemma emitToken_stops:
  assumes "emitToken env token st = (k, c, st')"
  obtains (eog) "\<not> k" "\<not> c" "text_of st' = text_of st"
  | (hit) w i where "\<not> k" "\<not> c" "w = length (gs_output st @ ge_text env token) - maxStopLen env - length (ge_text env token)" "0 < maxStopLen env"
      "find_stop (ge_stops env) (drop w (gs_output st @ ge_text env token)) = Some i"
      "gs_output st' = take (w + i) (gs_output st @ ge_text env token)" "gs_stream st' = []" "gs_sent st' = gs_sent st"
  | (go) s ok where "k = ok" "c = (\<not> ok)" "flushStream env False s = (ok, st'\<lparr>gs_recent := gs_recent st\<rparr>)" "gs_recent s = gs_recent st"
      "gs_output s = gs_output st @ ge_text env token" "gs_stream s = gs_stream st @ ge_text env token" "gs_sent s = gs_sent st"
      "0 < maxStopLen env \<Longrightarrow> find_stop (ge_stops env) (drop (length (gs_output st @ ge_text env token) - maxStopLen env - length (ge_text env token))
          (gs_output st @ ge_text env token)) = None"
proof (cases "ge_stop env token")
  case True
  then show ?thesis using assms by (intro eog) (auto simp: emitToken_def)
next
  case False
  let ?t = "ge_text env token"
  let ?x = "gs_output st @ ?t"
  let ?w = "length ?x - maxStopLen env - length ?t"
  let ?hit = "if maxStopLen env > 0 then find_stop (ge_stops env) (drop ?w ?x) else None"
  let ?s = "st\<lparr>gs_output := ?x, gs_stream := gs_stream st @ ?t, gs_generated := gs_generated st @ [token]\<rparr>"
  show ?thesis
  proof (cases ?hit)
    case None
    obtain ok s' where f: "flushStream env False ?s = (ok, s')" by (rule prod.exhaust)
    have "emitToken env token st = (if \<not> ok then (False, True, s') else (True, False, s'\<lparr>gs_recent := last_n repeatPenaltyWindow (gs_recent s' @ [token])\<rparr>))"
      by (simp only: emitToken_def Let_def False None if_False option.case f case_prod_conv)
    moreover have "gs_recent s' = gs_recent st" using flushStream_fields(3) [OF f] by simp
    ultimately show ?thesis using assms f None by (intro go [of ok ?s]) (auto split: if_splits)
  next
    case (Some i)
    then have "emitToken env token st = (False, False, st\<lparr>gs_output := take (?w + i) ?x, gs_stream := [], gs_finish := ''stop''\<rparr>)"
      by (simp only: emitToken_def Let_def False if_False option.case)
    then show ?thesis using assms Some by (intro hit [of ?w i]) (auto split: if_splits)
  qed
qed

lemma streaming_iff:
  "streaming env (text_of st) \<longleftrightarrow>
    ([] \<notin> set (ge_stops env) \<longrightarrow> concat (gs_sent st) @ gs_stream st = gs_output st \<and> (\<forall>s \<in> set (ge_stops env). \<not> Contains (gs_output st) s)
       \<and> (gs_sent st = [] \<or> maxStopLen env - 1 \<le> length (gs_stream st)))
    \<and> (ge_stops env = [] \<longrightarrow> list_all ValidString (gs_sent st))"
  by (simp add: text_of_def)

lemma streamed_hit:
  assumes s: "streaming env (text_of st)" and w: "w = length (gs_output st @ t) - maxStopLen env - length t" "0 < maxStopLen env"
    and f: "find_stop (ge_stops env) (drop w (gs_output st @ t)) = Some i"
    and st': "gs_output st' = take (w + i) (gs_output st @ t)" "gs_stream st' = []" "gs_sent st' = gs_sent st"
  shows "streamed env (text_of st')"
proof (cases "[] \<in> set (ge_stops env)")
  case True
  then show ?thesis using w(2) by (auto simp: text_of_def)
next
  case False
  then have o: "concat (gs_sent st) @ gs_stream st = gs_output st" "\<forall>s \<in> set (ge_stops env). \<not> Contains (gs_output st) s"
    "gs_sent st = [] \<or> maxStopLen env - 1 \<le> length (gs_stream st)" using s by (simp_all add: streaming_iff)
  note sf = stop_found [OF False o(2) f w(1)]
  have "length (gs_output st) = length (concat (gs_sent st)) + length (gs_stream st)" by (simp flip: o(1) add: length_append)
  then have "length (concat (gs_sent st)) \<le> w + i" using o(3) sf(1) by auto
  moreover have "gs_output st @ t = concat (gs_sent st) @ (gs_stream st @ t)" using o(1) by simp
  ultimately have "gs_output st' = concat (gs_sent st) @ take (w + i - length (concat (gs_sent st))) (gs_stream st @ t)"
    unfolding st'(1) by (simp only: take_append take_all)
  then have "\<exists>r. gs_output st' = concat (gs_sent st') @ gs_stream st' @ r" using st'(2,3) by simp
  moreover have "\<And>r. ge_stops env = [r] \<Longrightarrow> \<not> Contains (gs_output st') r" using sf(2) unfolding st'(1) .
  moreover have "ge_stops env \<noteq> []" using w(2) no_stops [OF False] by simp
  ultimately show ?thesis by (simp add: text_of_def)
qed

lemma streamed_go:
  assumes s: "streaming env (text_of st)" and f: "flushStream env False u = (ok, st')"
    and u: "gs_output u = gs_output st @ t" "gs_stream u = gs_stream st @ t" "gs_sent u = gs_sent st"
    and none: "0 < maxStopLen env \<Longrightarrow> find_stop (ge_stops env) (drop (length (gs_output st @ t) - maxStopLen env - length t) (gs_output st @ t)) = None"
  shows "if ok then streaming env (text_of st') else stream_failed env (text_of st')"
proof (cases "[] \<in> set (ge_stops env)")
  case True
  then show ?thesis by (auto simp: text_of_def)
next
  case False
  then have o: "concat (gs_sent st) @ gs_stream st = gs_output st" "\<forall>s \<in> set (ge_stops env). \<not> Contains (gs_output st) s"
    "gs_sent st = [] \<or> maxStopLen env - 1 \<le> length (gs_stream st)" "ge_stops env = [] \<longrightarrow> list_all ValidString (gs_sent st)"
    using s by (simp_all add: streaming_iff)
  have "concat (gs_sent u) @ gs_stream u = gs_output u" "gs_sent u = [] \<or> maxStopLen env - 1 \<le> length (gs_stream u)"
    using o(1,3) by (auto simp: u)
  note fs = flush_streaming [OF f this]
  have out: "gs_output st' = gs_output u" using flushStream_fields(5) [OF f] .
  show ?thesis
  proof (cases ok)
    case True
    have "\<forall>s \<in> set (ge_stops env). \<not> Contains (gs_output st') s"
      using stop_absent [OF False o(2)] none no_stops [OF False] out u(1) by (cases "maxStopLen env = 0") auto
    moreover have "ge_stops env = [] \<longrightarrow> list_all ValidString (gs_sent st')" using fs(3) no_stops [OF False] o(4) u(3) by simp
    ultimately show ?thesis using fs(1) [OF True] True out by (simp add: streaming_iff)
  next
    case notok: False
    then show ?thesis using fs(2) out by (simp add: text_of_def)
  qed
qed

lemma emitToken_streaming:
  assumes s: "streaming env (text_of st)" and e: "emitToken env token st = (k, c, st')"
  shows "k \<Longrightarrow> streaming env (text_of st')" "\<not> k \<Longrightarrow> \<not> c \<Longrightarrow> streamed env (text_of st')" "c \<Longrightarrow> stream_failed env (text_of st')"
proof -
  have "if k then streaming env (text_of st') else if c then stream_failed env (text_of st') else streamed env (text_of st')"
    using e
  proof (cases rule: emitToken_stops)
    case eog
    then show ?thesis using streaming_streamed [OF s] by simp
  next
    case (hit w i)
    then show ?thesis using streamed_hit [OF s hit(3-8)] by simp
  next
    case (go u ok)
    then show ?thesis using streamed_go [OF s go(3,5,6,7,8)] by (simp split: if_splits)
  qed
  then show "k \<Longrightarrow> streaming env (text_of st')" "\<not> k \<Longrightarrow> \<not> c \<Longrightarrow> streamed env (text_of st')" "c \<Longrightarrow> stream_failed env (text_of st')"
    using emitToken_fields(9) [OF e] by (auto split: if_splits)
qed

interpretation streams: emission env "streaming env" "streamed env" "stream_failed env" for env :: "'d gen_env"
proof
  show "streaming env (text_of st) \<Longrightarrow> emitToken env t st = (True, c, st') \<Longrightarrow> streaming env (text_of st')" for st t c st'
    using emitToken_streaming(1) [of env st t True c st'] by simp
  show "streaming env (text_of st) \<Longrightarrow> emitToken env t st = (False, False, st') \<Longrightarrow> streamed env (text_of st')" for st t st'
    using emitToken_streaming(2) [of env st t False False st'] by simp
  show "streaming env (text_of st) \<Longrightarrow> emitToken env t st = (False, True, st') \<Longrightarrow> stream_failed env (text_of st')" for st t st'
    using emitToken_streaming(3) [of env st t False True st'] by simp
  show "streaming env x \<Longrightarrow> streamed env x" "streamed env x \<Longrightarrow> stream_failed env x" for x
    by (fact streaming_streamed, fact streamed_failed)
qed

section \<open>The end of the stream\<close>

lemma start_state_sel:
  "gs_constraint (start_state env seed) = (if ge_json env then Some zero_State else None)" "gs_generated (start_state env seed) = []"
  "gs_rows (start_state env seed) = ge_prompt env" "gs_recent (start_state env seed) = last_n repeatPenaltyWindow (ge_prompt env)"
  "gs_logits (start_state env seed) = ge_logits env (ge_prompt env)" "gs_output (start_state env seed) = []" "gs_stream (start_state env seed) = []"
  "gs_sent (start_state env seed) = []" "gs_finish (start_state env seed) = ''length''"
  by (simp_all add: start_state_def Let_def recentTokenWindowInto_def)

lemma ValidString_runes_append: "list_all valid_rune rs \<Longrightarrow> ValidString (string_of_runes rs @ b) = ValidString b"
  by (induction rs) simp_all

lemma ValidString_append: "ValidString a \<Longrightarrow> ValidString (a @ b) = ValidString b"
  using ValidString_runes_append [OF runes_valid, of a b] by (simp add: string_of_runes_runes)

lemma ValidString_concat: "list_all ValidString ps \<Longrightarrow> ValidString (concat ps @ b) = ValidString b"
  by (induction ps) (simp_all add: ValidString_append)

lemma flush_final:
  assumes "flushStream env True st = (ok, st')"
  shows "gs_output st' = gs_output st"
    and "\<exists>r. gs_stream st = concat (drop (length (gs_sent st)) (gs_sent st')) @ r \<and> take (length (gs_sent st)) (gs_sent st') = gs_sent st"
    and "ok \<Longrightarrow> ValidString (gs_stream st) \<Longrightarrow> concat (gs_sent st') = concat (gs_sent st) @ gs_stream st
      \<and> (list_all ValidString (gs_sent st) \<longrightarrow> list_all ValidString (gs_sent st'))"
proof -
  let ?b = "gs_stream st"
  let ?n = "validUTF8PrefixLen ?b"
  let ?s = "st\<lparr>gs_sent := gs_sent st @ [take ?n ?b]\<rparr>"
  have e: "flushStream env True st = (if ?b = [] then (True, st) else if ?n = 0 then (True, st\<lparr>gs_stream := []\<rparr>)
      else if \<not> ge_sink env (gs_sent st) (take ?n ?b) then (False, ?s)
      else (True, ?s\<lparr>gs_stream := (if \<not> ValidString (drop ?n ?b) then [] else drop ?n ?b)\<rparr>))"
    unfolding flushStream_def Let_def by simp
  have c: "gs_sent st' = gs_sent st \<and> (ok \<and> (?b = [] \<or> ?n = 0)) \<or> gs_sent st' = gs_sent st @ [take ?n ?b]"
    using assms unfolding e by (auto split: if_splits)
  show "gs_output st' = gs_output st" using flushStream_fields(5) [OF assms] .
  have "?b = concat [take ?n ?b] @ drop ?n ?b" by simp
  then show "\<exists>r. ?b = concat (drop (length (gs_sent st)) (gs_sent st')) @ r \<and> take (length (gs_sent st)) (gs_sent st') = gs_sent st"
    using c by (elim disjE) (auto intro: exI [of _ "drop ?n ?b"])
  show "concat (gs_sent st') = concat (gs_sent st) @ ?b \<and> (list_all ValidString (gs_sent st) \<longrightarrow> list_all ValidString (gs_sent st'))"
    if "ok" "ValidString ?b"
    using c validUTF8PrefixLen_full [OF that(2)] that(2) by auto
qed

lemma generate_ends:
  assumes "generate_tokens env (start_state env seed) = (e, st)"
  obtains (failed) "stream_failed env (text_of st)" "e \<noteq> None"
  | (ended) x ok where "streamed env (text_of x)" "flushStream env True x = (ok, st)" "e = None \<Longrightarrow> ok"
proof -
  obtain d x where d: "decode_loop env (ge_max env) (start_state env seed) = (d, x)" by (rule prod.exhaust)
  have s: "streaming env (text_of (start_state env seed))"
    unfolding streaming_iff by (auto simp: start_state_sel Contains_occurs)
  have "ge_max env = 0 \<or> length (gs_generated (start_state env seed)) < ge_max env" by (auto simp: start_state_sel)
  note l = streams.loop_ok [OF s this d]
  show ?thesis
  proof (cases d)
    case None
    obtain ok y where f: "flushStream env True x = (ok, y)" by (rule prod.exhaust)
    have "e = None \<longrightarrow> ok" "st = y" using assms by (auto simp: generate_tokens_def d None f split: if_splits)
    then show ?thesis using ended [of x ok] f l None by simp
  next
    case (Some err)
    then have "e = Some err" "st = x" using assms by (simp_all add: generate_tokens_def d)
    then show ?thesis using failed l Some by simp
  qed
qed

end
