(* ===== verification/Decode_Rows.thy ===== *)
theory Decode_Rows
  imports Decode_Laws
begin

text \<open>
  The cache and the text agree: the tokens whose rows are in the cache are the prompt and the generated tokens, all of
  them or all but the last, and there are never more of them than the cache holds.
\<close>

section \<open>Where the loop is\<close>

text \<open>Every generated token has its row, or every one but the last.\<close>

definition level :: "'d gen_env \<Rightarrow> 'd gen_state \<Rightarrow> bool" where
  "level env st \<longleftrightarrow> gs_rows st = ge_prompt env @ gs_generated st \<and> length (gs_rows st) \<le> ge_cacheLen env"

definition ahead :: "'d gen_env \<Rightarrow> u32 \<Rightarrow> 'd gen_state \<Rightarrow> bool" where
  "ahead env token st \<longleftrightarrow> gs_rows st @ [token] = ge_prompt env @ gs_generated st \<and> length (gs_rows st) < ge_cacheLen env"

definition placed :: "'d gen_env \<Rightarrow> 'd loop_result \<Rightarrow> bool" where
  "placed env r = (case r of
     Continue st \<Rightarrow> level env st \<and> length (gs_generated st) < ge_max env
   | Break st \<Rightarrow> (gs_rows st = ge_prompt env @ gs_generated st \<or> (\<exists>t. gs_rows st @ [t] = ge_prompt env @ gs_generated st))
       \<and> length (gs_rows st) \<le> ge_cacheLen env \<and> length (gs_generated st) \<le> ge_max env
   | Return e st \<Rightarrow> (\<exists>r. ge_prompt env @ gs_generated st = gs_rows st @ r) \<and> length (gs_rows st) \<le> ge_cacheLen env \<and> length (gs_generated st) \<le> ge_max env)"

lemma placed_simps [simp]:
  "placed env (Continue st) \<longleftrightarrow> level env st \<and> length (gs_generated st) < ge_max env"
  "placed env (Break st) \<longleftrightarrow> (gs_rows st = ge_prompt env @ gs_generated st \<or> (\<exists>t. gs_rows st @ [t] = ge_prompt env @ gs_generated st))
       \<and> length (gs_rows st) \<le> ge_cacheLen env \<and> length (gs_generated st) \<le> ge_max env"
  "placed env (Return e st) \<longleftrightarrow> (\<exists>r. ge_prompt env @ gs_generated st = gs_rows st @ r) \<and> length (gs_rows st) \<le> ge_cacheLen env
       \<and> length (gs_generated st) \<le> ge_max env"
  by (simp_all add: placed_def)

lemma emit_generated:
  assumes "emitToken env token st = (k, c, st')"
  shows "gs_generated st' = (if k \<or> c then gs_generated st @ [token] else gs_generated st)"
  using assms by (auto simp: emitToken_def Let_def split: if_splits option.splits prod.splits dest: flushStream_fields)

lemma verifyToken_place:
  "verifyToken env token st = Some (t, st') \<Longrightarrow> gs_rows st' = gs_rows st @ [token] \<and> gs_generated st' = gs_generated st"
  by (auto simp: verifyToken_def sample_next_def forward_token_def Let_def split: option.splits if_splits)

lemma ahead_level: "ahead env token st \<Longrightarrow> gs_rows s = gs_rows st @ [token] \<Longrightarrow> gs_generated s = gs_generated st \<Longrightarrow> level env s"
proof -
  assume h: "ahead env token st" "gs_rows s = gs_rows st @ [token]" "gs_generated s = gs_generated st"
  have "length (gs_rows s) = Suc (length (gs_rows st))" unfolding h(2) by simp
  moreover have "length (gs_rows st) < ge_cacheLen env" using h(1) by (simp add: ahead_def)
  ultimately have "length (gs_rows s) \<le> ge_cacheLen env" by linarith
  moreover have "gs_rows s = ge_prompt env @ gs_generated s" using h by (simp add: ahead_def)
  ultimately show ?thesis unfolding level_def by blast
qed

lemma ahead_failed: "ahead env token st \<Longrightarrow> length (gs_generated st) \<le> ge_max env \<Longrightarrow> placed env (Return e st)"
  using le_less_linear by (auto simp: ahead_def dest: sym)

lemma level_cong: "gs_rows a = gs_rows b \<Longrightarrow> gs_generated a = gs_generated b \<Longrightarrow> level env a = level env b"
  by (simp only: level_def)

lemma level_ends:
  assumes "level env st" "length (gs_generated st) \<le> ge_max env"
  shows "placed env (Return e st)" "placed env (Break st)"
proof -
  have l: "gs_rows st = ge_prompt env @ gs_generated st" "length (gs_rows st) \<le> ge_cacheLen env" using assms(1) by (auto simp: level_def)
  have "\<exists>r. ge_prompt env @ gs_generated st = gs_rows st @ r" using l(1) by simp
  then show "placed env (Return e st)" "placed env (Break st)" using l assms(2) unfolding placed_simps by blast+
qed

text \<open>The three ends of an emission from a level state.\<close>

lemma emit_level:
  assumes "level env st" "length (gs_generated st) < ge_max env" "emitToken env token st = (k, c, st')"
  shows "c \<Longrightarrow> placed env (Return e st')" "\<not> c \<Longrightarrow> placed env (Break st')"
    "k \<Longrightarrow> length (gs_rows st') < ge_cacheLen env \<Longrightarrow> ahead env token st'"
  using assms emitToken_fields(1) [OF assms(3)] emit_generated [OF assms(3)] by (auto simp: level_def ahead_def)

lemma mtp_serial_placed:
  "ahead env token st \<Longrightarrow> length (gs_generated st) < ge_max env \<Longrightarrow> placed env (mtp_serial env token drafts st)"
proof (induction drafts arbitrary: token st)
  case Nil
  note f = ahead_failed [OF Nil(1) order.strict_implies_order [OF Nil(2)]]
  show ?case
  proof (cases "ge_ctx env (length (gs_generated st)) \<or> verifyToken env token st = None")
    case True
    then show ?thesis using f by (subst mtp_serial.simps) auto
  next
    case False
    then obtain x s where v: "verifyToken env token st = Some (x, s)" by auto
    have "level env (s\<lparr>gs_next := Some x\<rparr>)" by (rule ahead_level [OF Nil(1)]) (simp_all add: verifyToken_place [OF v])
    then show ?thesis using False v Nil(2) verifyToken_place [OF v] by (subst mtp_serial.simps) simp
  qed
next
  case (Cons d drafts)
  note f = ahead_failed [OF Cons.prems(1) order.strict_implies_order [OF Cons.prems(2)]]
  show ?case
  proof (cases "ge_ctx env (length (gs_generated st)) \<or> verifyToken env token st = None")
    case True
    then show ?thesis using f by (subst mtp_serial.simps) auto
  next
    case False
    then obtain x s where v: "verifyToken env token st = Some (x, s)" by auto
    have s: "level env s" "level env (s\<lparr>gs_next := Some x\<rparr>)" "length (gs_generated s) < ge_max env"
      using ahead_level [OF Cons.prems(1)] verifyToken_place [OF v] Cons.prems(2) by simp_all
    obtain k c s' where e: "emitToken env d s = (k, c, s')" by (rule prod_cases3)
    have ctx: "\<not> ge_ctx env (length (gs_generated st))" using False by simp
    note m = mtp_serial_Cons [OF ctx v e, of drafts]
    show ?thesis using emit_level [OF s(1,3) e] Cons.IH [of d s'] s unfolding m by (simp del: placed_simps(2,3))
  qed
qed

text \<open>\<open>R\<close> are the rows before the block, \<open>inputs\<close> the seed and the drafts; the first \<open>i\<close> drafts have been emitted.\<close>

definition verdict_placed :: "'d gen_env \<Rightarrow> u32 list \<Rightarrow> u32 list \<Rightarrow> 'd verdict \<Rightarrow> bool" where
  "verdict_placed env R inputs v = (case v of
     Accepted keep stop t n st \<Rightarrow> gs_rows st = R \<and> length (gs_generated st) \<le> ge_max env
       \<and> (if stop then R @ take keep inputs = ge_prompt env @ gs_generated st \<or> (\<exists>t. R @ take keep inputs @ [t] = ge_prompt env @ gs_generated st)
          else R @ take keep inputs = ge_prompt env @ gs_generated st \<and> length (gs_generated st) < ge_max env)
   | Aborted e st \<Rightarrow> gs_rows st = R \<and> length (gs_generated st) \<le> ge_max env \<and> (\<exists>r. ge_prompt env @ gs_generated st = R @ r))"

lemma accept_placed:
  "gs_rows st = R \<Longrightarrow> R @ take (Suc i) inputs = ge_prompt env @ gs_generated st \<Longrightarrow> drafts = drop (Suc i) inputs
    \<Longrightarrow> length (gs_generated st) < ge_max env \<Longrightarrow> verdict_placed env R inputs (accept_drafts env predictions drafts i accepted st)"
proof (induction drafts arbitrary: i accepted st)
  case Nil
  then show ?case by (simp add: verdict_placed_def)
next
  case (Cons d drafts)
  have d: "Suc i < length inputs" "inputs ! Suc i = d" "drafts = drop (Suc (Suc i)) inputs"
    using Cons.prems(3) by (metis drop_eq_Nil2 list.distinct(1) not_le, metis nth_via_drop, metis drop_Suc list.sel(3) tl_drop)
  have tk: "take (Suc (Suc i)) inputs = take (Suc i) inputs @ [d]" using d by (simp add: take_Suc_conv_app_nth)
  show ?case
  proof (cases "ge_ctx env (length (gs_generated st)) \<or> predictions ! i \<noteq> d")
    case True
    then have a: "accept_drafts env predictions (d # drafts) i accepted st =
        (if ge_ctx env (length (gs_generated st)) then Aborted ContextDone st else Accepted (i + 1) False (predictions ! i) accepted st)" by auto
    have "ge_prompt env @ gs_generated st = R @ take (Suc i) inputs" using Cons.prems(2) by simp
    then show ?thesis using Cons.prems(1,4) unfolding a by (simp add: verdict_placed_def)
  next
    case False
    then have ctx: "\<not> ge_ctx env (length (gs_generated st))" "predictions ! i = d" by simp_all
    obtain k c s where e: "emitToken env d st = (k, c, s)" by (rule prod_cases3)
    define s' where "s' = count_accepted st s"
    have s': "gs_rows s' = R" "gs_generated s' = (if k \<or> c then gs_generated st @ [d] else gs_generated st)" "gs_generated s = gs_generated s'"
      using emitToken_fields(1) [OF e] emit_generated [OF e] Cons.prems(1) by (simp_all add: s'_def)
    note a = accept_drafts_Cons [OF ctx e, of drafts accepted, unfolded Let_def s'_def [symmetric] Cons.prems(1)]
    have l: "length (gs_generated s') \<le> ge_max env" using Cons.prems(4) s'(2) by auto
    have g: "R @ take (Suc (Suc i)) inputs = ge_prompt env @ gs_generated s'" if "k \<or> c" using that Cons.prems(2) tk s'(2) by simp
    consider "c" | "\<not> c" "\<not> k" | "\<not> c" "k" "length (gs_generated s') \<ge> ge_max env \<or> length R + i + 1 \<ge> ge_cacheLen env"
      | "\<not> c" "k" "length (gs_generated s') < ge_max env" "\<not> length R + i + 1 \<ge> ge_cacheLen env" by linarith
    then show ?thesis
    proof cases
      case 1
      then show ?thesis using s' l g unfolding a by (auto simp: verdict_placed_def dest: sym)
    next
      case 2
      then show ?thesis using s' l Cons.prems(2) unfolding a by (simp add: verdict_placed_def)
    next
      case 3
      then have "R @ take (i + 1) inputs @ [d] = ge_prompt env @ gs_generated s'" using g tk by simp
      then show ?thesis using 3 s' l unfolding a by (auto simp: verdict_placed_def)
    next
      case 4
      then have "verdict_placed env R inputs (accept_drafts env predictions drafts (Suc i) (accepted + (length (gs_generated s) - length (gs_generated st))) s')"
        using g s'(1) d(3) by (intro Cons.IH) simp_all
      then show ?thesis using 4 s'(3) unfolding a by simp
    qed
  qed
qed

lemma commit_placed:
  assumes "ahead env token st" "length (gs_generated st) < ge_max env" "length (gs_rows st) + length drafts + 1 \<le> ge_cacheLen env"
  shows "placed env (commit_block env token drafts mtp requested predictions st)"
proof -
  let ?in = "token # drafts" and ?R = "gs_rows st"
  define v where "v = accept_drafts env predictions drafts 0 0 (count_block drafts st)"
  have v: "verdict_placed env ?R ?in v" unfolding v_def
    using assms(1,2) by (intro accept_placed) (simp_all add: count_block_def ahead_def)
  have d: "gs_rows (discard n s) = gs_rows s" "gs_generated (discard n s) = gs_generated s" for n and s :: "'d gen_state" by (simp_all add: discard_def)
  show ?thesis
  proof (cases v)
    case (Aborted e s)
    then show ?thesis using v assms(3) unfolding commit_block_eq v_def [symmetric] by (simp add: verdict_placed_def d)
  next
    case (Accepted keep stop t accepted s)
    let ?s = "committed env ?in mtp requested keep t accepted s"
    have s: "gs_rows s = ?R" "length (gs_generated s) \<le> ge_max env" using v Accepted by (simp_all add: verdict_placed_def)
    have s': "gs_rows ?s = ?R @ take keep ?in" "gs_generated ?s = gs_generated s" by (simp_all add: committed_sel s)
    have n: "length (gs_rows ?s) \<le> ge_cacheLen env" using assms(3) s'(1) by simp
    have "\<exists>r. ge_prompt env @ gs_generated s = ?R @ r"
      using v Accepted by (auto simp: verdict_placed_def split: if_splits) (metis append_assoc)+
    moreover have "level env ?s" if "\<not> stop"
    proof -
      have "gs_rows ?s = ge_prompt env @ gs_generated ?s" using v Accepted that s' by (simp add: verdict_placed_def)
      then show ?thesis using n unfolding level_def by blast
    qed
    ultimately show ?thesis using v Accepted n s s' assms(3) unfolding commit_block_eq v_def [symmetric]
      by (auto simp: verdict_placed_def d)
  qed
qed

lemma serial_placed:
  assumes "ahead env token st" "length (gs_generated st) < ge_max env"
  shows "placed env (serial_step env token limit st)"
proof -
  have "level env (forward_token env token st)" by (rule ahead_level [OF assms(1)]) (simp_all add: forward_token_def Let_def)
  then show ?thesis using mtp_serial_placed [OF assms] assms(2) by (simp add: serial_step_def Let_def) (simp add: forward_token_def Let_def)
qed

lemma draft_tokens_place:
  "draft_tokens env token st = (drafts, mtp, requested, serial, st') \<Longrightarrow> gs_rows st' = gs_rows st \<and> gs_generated st' = gs_generated st"
  by (auto simp: draft_tokens_def Let_def split: prod.splits if_splits)

lemma advance_placed:
  assumes "drafts_bounded env" "ahead env token st" "length (gs_generated st) < ge_max env"
  shows "placed env (advance_step env token st)"
proof (cases "(ge_mtp env > 0 \<or> ge_lookup env > 0) \<and> ge_verify env")
  case False
  then show ?thesis using serial_placed [OF assms(2,3)] by (simp add: advance_step_serial)
next
  case True
  obtain drafts mtp requested limit s where d: "draft_tokens env token st = (drafts, mtp, requested, limit, s)" by (rule prod_cases5)
  have s: "ahead env token s" "length (gs_generated s) < ge_max env"
    using draft_tokens_place [OF d] assms(2,3) by (simp_all add: ahead_def)
  have b: "drafts \<noteq> [] \<Longrightarrow> length (gs_rows s) + length drafts + 1 \<le> ge_cacheLen env"
    using draft_tokens_spec(5) [OF assms(1) d] draft_tokens_place [OF d] by simp
  note a = advance_step_drafts [OF True d]
  have f: "placed env (Return e s)" for e using ahead_failed [OF s(1)] s(2) by simp
  show ?thesis using serial_placed [OF s] commit_placed [OF s b] f unfolding a by (auto simp del: placed_simps split: sum.split option.split)
qed

lemma sample_next_place: "sample_next env st = Some (t, st') \<Longrightarrow> gs_rows st' = gs_rows st \<and> gs_generated st' = gs_generated st"
  by (auto simp: sample_next_def)

lemma pick_place:
  assumes "pick_token env st = Inr (t, st')"
  shows "gs_rows st' = gs_rows st \<and> gs_generated st' = gs_generated st"
proof (rule pick_tokenE [OF assms])
  fix s s'
  assume h: "gs_constraint st = None \<and> s = st \<or> (\<exists>c l. gs_constraint st = Some c
       \<and> constraint_mask env (ge_ctx env (length (gs_generated st))) c (gs_logits st) = Inr l \<and> s = st\<lparr>gs_logits := l\<rparr>)"
    "gs_next s = Some t \<and> s' = s\<lparr>gs_next := None\<rparr> \<or> gs_next s = None \<and> sample_next env s = Some (t, s')"
    "gs_constraint s' = None \<and> st' = s' \<or> (\<exists>c c'. gs_constraint s' = Some c \<and> constraint_accept env c t = Inr c' \<and> st' = s'\<lparr>gs_constraint := Some c'\<rparr>)"
  have "gs_rows s = gs_rows st \<and> gs_generated s = gs_generated st" using h(1) by auto
  moreover have "gs_rows s' = gs_rows s \<and> gs_generated s' = gs_generated s" using h(2) sample_next_place [of env s t s'] by auto
  moreover have "gs_rows st' = gs_rows s' \<and> gs_generated st' = gs_generated s'" using h(3) by auto
  ultimately show ?thesis by simp
qed

lemma step_placed:
  assumes "drafts_bounded env" "level env st" "length (gs_generated st) < ge_max env"
  shows "placed env (decode_step env st)"
proof -
  have f: "placed env (Return e st)" for e using level_ends(1) [OF assms(2)] assms(3) by simp
  show ?thesis
  proof (cases "ge_ctx env (length (gs_generated st))")
    case True
    then show ?thesis using f unfolding decode_step_def by simp
  next
    case False
    show ?thesis
    proof (cases "pick_token env st")
      case (Inl e)
      then show ?thesis using False f unfolding decode_step_def by simp
    next
      case (Inr p)
      then obtain t s where p: "pick_token env st = Inr (t, s)" by (cases p) simp
      have s: "level env s" "length (gs_generated s) < ge_max env" using pick_place [OF p] assms(2,3) level_cong [of s st env] by simp_all
      obtain k c s' where e: "emitToken env t s = (k, c, s')" by (rule prod_cases3)
      note ds = decode_step_picked [OF False p e]
      have "placed env (Break (s'\<lparr>gs_finish := ''stop''\<rparr>)) = placed env (Break s')" by simp
      then show ?thesis using emit_level [OF s e] advance_placed [OF assms(1), of t s'] unfolding ds by (simp del: placed_simps)
    qed
  qed
qed

definition placed_end :: "'d gen_env \<Rightarrow> gen_error option \<times> 'd gen_state \<Rightarrow> bool" where
  "placed_end env r = (case r of (e, st) \<Rightarrow> placed env (case e of None \<Rightarrow> Break st | Some err \<Rightarrow> Return err st))"

lemma loop_placed:
  "drafts_bounded env \<Longrightarrow> level env st \<Longrightarrow> n = 0 \<or> length (gs_generated st) < ge_max env \<Longrightarrow> length (gs_generated st) \<le> ge_max env
    \<Longrightarrow> placed_end env (decode_loop env n st)"
proof (induction n arbitrary: st)
  case 0
  then show ?case using level_ends(2) by (simp add: placed_end_def del: placed_simps)
next
  case (Suc n)
  then have p: "placed env (decode_step env st)" by (intro step_placed) simp_all
  show ?case
  proof (cases "decode_step env st")
    case (Continue x)
    then have "placed_end env (decode_loop env n x)" using p Suc.prems(1) by (intro Suc.IH) simp_all
    then show ?thesis using Continue by simp
  qed (use p in \<open>simp_all add: placed_end_def\<close>)
qed

text \<open>Flushing the stream changes neither the rows nor the tokens.\<close>

lemma generate_placed:
  assumes "drafts_bounded env" "length (ge_prompt env) \<le> ge_cacheLen env"
  shows "placed_end env (generate_tokens env (start_state env seed))"
proof -
  obtain d x where d: "decode_loop env (ge_max env) (start_state env seed) = (d, x)" by (rule prod.exhaust)
  have "level env (start_state env seed)" "gs_generated (start_state env seed) = []"
    using assms(2) by (simp_all add: level_def start_state_def Let_def)
  then have p: "placed_end env (d, x)" unfolding d [symmetric] by (intro loop_placed assms(1)) auto
  show ?thesis
  proof (cases d)
    case None
    obtain ok y where f: "flushStream env True x = (ok, y)" by (rule prod.exhaust)
    note ff = flushStream_fields(1,2) [OF f]
    have y: "placed env (Break y)" "placed env (Return err y)" for err
      using p None ff by (auto simp: placed_end_def dest: sym)
    show ?thesis using y by (simp add: generate_tokens_def d None f placed_end_def del: placed_simps split: option.split)
  next
    case (Some err)
    then show ?thesis using p by (simp add: generate_tokens_def d)
  qed
qed

section \<open>The JSON constraint follows the output\<close>

text \<open>The request options exclude stop sequences, drafts and the greedy shortcut beside the constraint.\<close>

definition json_request :: "'d gen_env \<Rightarrow> bool" where
  "json_request env \<longleftrightarrow> ge_json env \<and> ge_stops env = [] \<and> ge_mtp env = 0 \<and> ge_lookup env = 0 \<and> \<not> ge_greedy env"

definition recognizes :: "'d gen_state \<Rightarrow> bool" where
  "recognizes st \<longleftrightarrow> (\<exists>s. gs_constraint st = Some s \<and> Advance zero_State (gs_output st) = Some s)"

definition recognized :: "'d gen_state \<Rightarrow> bool" where
  "recognized st \<longleftrightarrow> (\<exists>s. gs_constraint st = Some s \<and> (Complete s \<longrightarrow> Advance zero_State (gs_output st) = Some s))"

text \<open>No end token's text completes a document.\<close>

definition stop_texts_inert :: "'d gen_env \<Rightarrow> bool" where
  "stop_texts_inert env \<longleftrightarrow> (\<forall>t s s'. ge_stop env t \<longrightarrow> Advance s (ge_text env t) = Some s' \<longrightarrow> Complete s' \<longrightarrow> s' = s)"

lemma recognizes_recognized: "recognizes st \<Longrightarrow> recognized st"
  by (auto simp: recognizes_def recognized_def)

lemma pick_recognizes:
  assumes "recognizes st" "pick_token env st = Inr (t, st')"
  shows "\<exists>s s'. gs_constraint st' = Some s' \<and> Advance s (ge_text env t) = Some s' \<and> Advance zero_State (gs_output st') = Some s"
proof (rule pick_tokenE [OF assms(2)])
  fix s s'
  assume h: "gs_constraint st = None \<and> s = st \<or> (\<exists>c l. gs_constraint st = Some c
       \<and> constraint_mask env (ge_ctx env (length (gs_generated st))) c (gs_logits st) = Inr l \<and> s = st\<lparr>gs_logits := l\<rparr>)"
    "gs_next s = Some t \<and> s' = s\<lparr>gs_next := None\<rparr> \<or> gs_next s = None \<and> sample_next env s = Some (t, s')"
    "gs_constraint s' = None \<and> st' = s' \<or> (\<exists>c c'. gs_constraint s' = Some c \<and> constraint_accept env c t = Inr c' \<and> st' = s'\<lparr>gs_constraint := Some c'\<rparr>)"
  have "gs_constraint s = gs_constraint st \<and> gs_output s = gs_output st" using h(1) by auto
  moreover have "gs_constraint s' = gs_constraint s \<and> gs_output s' = gs_output s" using h(2) by (auto simp: sample_next_def)
  ultimately obtain c c' where c: "Advance zero_State (gs_output st') = Some c" "constraint_accept env c t = Inr c'" "gs_constraint st' = Some c'"
    using h(3) assms(1) by (auto simp: recognizes_def)
  then have "Advance c (ge_text env t) = Some c'" by (auto simp: constraint_accept_def split: if_splits option.splits)
  then show ?thesis using c by blast
qed

lemma json_step:
  assumes r: "json_request env" and stop: "stop_texts_inert env"
    and st: "recognizes st"
  shows "case decode_step env st of Continue x \<Rightarrow> recognizes x | Break x \<Rightarrow> recognized x | Return e x \<Rightarrow> True"
proof (cases "ge_ctx env (length (gs_generated st))")
  case True
  then show ?thesis by (simp add: decode_step_def)
next
  case False
  show ?thesis
  proof (cases "pick_token env st")
    case (Inl e)
    then show ?thesis using False by (simp add: decode_step_def)
  next
    case (Inr p)
    then obtain t u where p: "pick_token env st = Inr (t, u)" by (cases p) simp
    obtain s s' where s: "gs_constraint u = Some s'" "Advance s (ge_text env t) = Some s'" "Advance zero_State (gs_output u) = Some s"
      using pick_recognizes [OF st p] by blast
    obtain k c v where e: "emitToken env t u = (k, c, v)" by (rule prod_cases3)
    have v: "gs_constraint v = Some s'" using emitToken_fields(2) [OF e] s(1) by simp
    have keep: "recognizes v" if "k"
      using emitToken_fields(12) [OF e that] s v by (simp add: recognizes_def Advance_append)
    have ends: "recognized v" if "\<not> c"
    proof (cases k)
      case True
      then show ?thesis using keep recognizes_recognized by blast
    next
      case notk: False
      have "maxStopLen env = 0" using r by (simp add: json_request_def maxStopLen_def)
      then have "ge_stop env t" using e notk that by (auto simp: emitToken_def Let_def split: if_splits prod.splits)
      moreover from this have "gs_output v = gs_output u" using e by (auto simp: emitToken_def)
      ultimately show ?thesis using stop s v by (auto simp: recognized_def stop_texts_inert_def)
    qed
    have a: "advance_step env t v = Continue (forward_token env t v)" using r by (simp add: advance_step_def serial_step_def json_request_def)
    have d: "decode_step env st = (if c then Return GenerationCanceled v else if \<not> k then Break v
          else if Complete s' then Break (v\<lparr>gs_finish := ''stop''\<rparr>)
          else if length (gs_generated v) \<ge> ge_max env \<or> length (gs_rows v) \<ge> ge_cacheLen env then Break v else Continue (forward_token env t v))"
      using False p e v a by (simp add: decode_step_def)
    have f: "recognizes v \<Longrightarrow> recognizes (forward_token env t v)" by (simp add: recognizes_def forward_token_def Let_def)
    have g: "recognized v \<Longrightarrow> recognized (v\<lparr>gs_finish := ''stop''\<rparr>)" by (simp add: recognized_def)
    show ?thesis using keep ends f g unfolding d by auto
  qed
qed

lemma json_loop:
  assumes "json_request env" "stop_texts_inert env"
  shows "recognizes st \<Longrightarrow> decode_loop env n st = (None, st') \<Longrightarrow> recognized st'"
proof (induction n arbitrary: st)
  case 0
  then show ?case using recognizes_recognized by auto
next
  case (Suc n)
  then show ?case using json_step [OF assms, of st] by (auto split: loop_result.splits)
qed

end
