(* ===== verification/Decode_Contract.thy ===== *)
theory Decode_Contract
  imports Decode_Emission Decode_Rows Json_Automaton
begin

text \<open>
  What the decoding loop promises: drafting changes no text, the streamed pieces are the text, and the limits hold.
\<close>

section \<open>Drafting changes nothing that is seen\<close>

definition serial_env :: "'d gen_env \<Rightarrow> 'd gen_env" where
  "serial_env env = env\<lparr>ge_mtp := 0, ge_lookup := 0\<rparr>"

lemma serial_env_sel [simp]:
  "ge_stop (serial_env env) = ge_stop env" "ge_text (serial_env env) = ge_text env" "ge_stops (serial_env env) = ge_stops env"
  "ge_sink (serial_env env) = ge_sink env" "ge_max (serial_env env) = ge_max env" "ge_cacheLen (serial_env env) = ge_cacheLen env"
  "ge_logits (serial_env env) = ge_logits env" "ge_fl (serial_env env) = ge_fl env" "ge_sampler (serial_env env) = ge_sampler env"
  "ge_prompt (serial_env env) = ge_prompt env" "ge_json (serial_env env) = ge_json env" "ge_ctx (serial_env env) = ge_ctx env"
  "ge_json_valid (serial_env env) = ge_json_valid env" "ge_fast (serial_env env) = ge_fast env" "ge_block (serial_env env) = ge_block env"
  "ge_maxLen (serial_env env) = ge_maxLen env" "ge_mtp_draft (serial_env env) = ge_mtp_draft env" "maxStopLen (serial_env env) = maxStopLen env"
  by (simp_all add: serial_env_def maxStopLen_def)

lemma serial_env_flush: "flushStream (serial_env env) = flushStream env"
  by (intro ext) (simp only: flushStream_def serial_env_sel)

lemma serial_env_emit: "emitToken (serial_env env) = emitToken env"
  by (intro ext) (simp only: emitToken_def serial_env_sel serial_env_flush)

lemma serial_env_target: "greedy_target (serial_env env) = greedy_target env"
  by (intro ext) (simp only: greedy_target_def serial_env_sel)

lemma serial_env_run: "target_run (serial_env env) token st = target_run env token st"
proof (induction env token st rule: target_run.induct)
  case (1 env token st)
  obtain k c st' where e: "emitToken env token st = (k, c, st')" by (rule prod_cases3)
  show ?case
    unfolding target_run.simps [of "serial_env env" token st] target_run.simps [of env token st] serial_env_emit serial_env_target serial_env_sel e
    using 1 [OF e [symmetric] refl] by simp
qed

lemma serial_env_exact: "exact_target env \<Longrightarrow> exact_target (serial_env env)"
  unfolding exact_target_def serial_env_target serial_env_sel .

lemma serial_env_bounded: "drafts_bounded env \<Longrightarrow> drafts_bounded (serial_env env)"
  by (simp add: drafts_bounded_def)

lemma start_upcoming:
  assumes "exact_target env" "\<not> ge_json env"
  shows "upcoming env (start_state env seed) (greedy_target env (ge_prompt env) (last_n repeatPenaltyWindow (ge_prompt env)))"
  using assms by (auto simp: upcoming_def start_state_sel last_n_length) (auto simp: start_state_def Let_def recentTokenWindowInto_def exact_target_def split: option.split)

lemma start_visible: "visible T (start_state (serial_env env) seed) = visible T (start_state env seed)"
  by (simp add: visible_def start_state_sel)

lemma generate_observe:
  assumes "observe T (decode_loop env (ge_max env) a) = observe T (decode_loop env' (ge_max env') b)"
    and "flushStream env' = flushStream env" "ge_json_valid env' = ge_json_valid env"
  shows "observe T (generate_tokens env a) = observe T (generate_tokens env' b)"
proof -
  obtain e x where x: "decode_loop env (ge_max env) a = (e, x)" by (rule prod.exhaust)
  obtain e' y where y: "decode_loop env' (ge_max env') b = (e', y)" by (rule prod.exhaust)
  have e: "e' = e" using assms(1) by (simp add: x y observe_def)
  show ?thesis
  proof (cases e)
    case (Some err)
    then have "generate_tokens env a = (e, x)" "generate_tokens env' b = (e', y)" using x y e by (simp_all add: generate_tokens_def)
    then show ?thesis using assms(1) x y by simp
  next
    case None
    then have v: "visible T x = visible T y" using assms(1) e by (simp add: x y observe_def)
    obtain ok x' where fx: "flushStream env True x = (ok, x')" by (rule prod.exhaust)
    obtain ok' y' where fy: "flushStream env True y = (ok', y')" by (rule prod.exhaust)
    have f: "ok' = ok" "visible T x' = visible T y'"
      using flushStream_visible [of env True T x] flushStream_visible [of env True T y] by (simp_all add: fx fy v)
    have o: "gs_output x' = gs_output y'" "gs_constraint x' = gs_constraint y'"
      using f(2) by (metis visible_sel(4), metis visible_sel(8))
    show ?thesis using None x y e fx fy f assms(2,3) by (simp add: generate_tokens_def o observe_def split: option.split)
  qed
qed

lemma decode_serial:
  assumes "exact_target env" "drafts_bounded env" "\<And>n. \<not> ge_ctx env n" "\<not> ge_json env"
  shows "observe T (generate_tokens env (start_state env seed)) = observe T (generate_tokens (serial_env env) (start_state (serial_env env) seed))"
proof (rule generate_observe)
  let ?s = "serial_env env" and ?t = "greedy_target env (ge_prompt env) (last_n repeatPenaltyWindow (ge_prompt env))"
  show "observe T (decode_loop env (ge_max env) (start_state env seed)) = observe T (decode_loop ?s (ge_max ?s) (start_state ?s seed))"
  proof (cases "ge_max env")
    case 0
    then show ?thesis by (simp add: observe_def start_visible)
  next
    case (Suc n)
    have "observe T (decode_loop env (ge_max env) (start_state env seed)) = observe T (target_run env ?t (start_state env seed))"
      using Suc by (intro decode_follows assms start_upcoming) (simp_all add: start_state_sel)
    also have "\<dots> = observe T (target_run ?s ?t (start_state ?s seed))"
      unfolding serial_env_run by (rule target_run_cong) (simp add: start_visible)
    also have "\<dots> = observe T (decode_loop ?s (ge_max ?s) (start_state ?s seed))"
      using Suc assms start_upcoming [of ?s seed] serial_env_exact [OF assms(1)]
      by (intro decode_follows [symmetric] serial_env_bounded serial_env_exact) (simp_all add: start_state_sel serial_env_target)
    finally show ?thesis .
  qed
  show "flushStream ?s = flushStream env" by (rule serial_env_flush)
  show "ge_json_valid ?s = ge_json_valid env" by simp
qed

lemma observe_sel:
  assumes "observe T (e, a) = observe T (e', b)"
  shows "e = e'" "gs_generated a = gs_generated b" "gs_recent a = gs_recent b" "gs_output a = gs_output b" "gs_sent a = gs_sent b"
    "gs_finish a = gs_finish b" "e = None \<Longrightarrow> gs_rows a = gs_rows b"
proof -
  show e: "e = e'" using assms by (simp add: observe_def)
  have v: "gs_generated (visible T a) = gs_generated (visible T b) \<and> gs_recent (visible T a) = gs_recent (visible T b)
      \<and> gs_output (visible T a) = gs_output (visible T b) \<and> gs_sent (visible T a) = gs_sent (visible T b)
      \<and> gs_finish (visible T a) = gs_finish (visible T b)"
  proof (cases "e = None")
    case True
    then show ?thesis using assms by (simp add: observe_def)
  next
    case False
    then have "(visible T a)\<lparr>gs_rows := []\<rparr> = (visible T b)\<lparr>gs_rows := []\<rparr>" using assms
      unfolding e [symmetric] observe_def fst_conv snd_conv if_not_P [OF False] prod.inject by (elim conjE)
    from arg_cong [OF this, of gs_generated] arg_cong [OF this, of gs_recent] arg_cong [OF this, of gs_output]
      arg_cong [OF this, of gs_sent] arg_cong [OF this, of gs_finish]
    show ?thesis by simp
  qed
  then show "gs_generated a = gs_generated b" "gs_recent a = gs_recent b" "gs_output a = gs_output b" "gs_sent a = gs_sent b"
    "gs_finish a = gs_finish b" by simp_all
  show "gs_rows a = gs_rows b" if "e = None"
    using assms that visible_eq(1) [of T a b] by (simp add: observe_def)
qed

text \<open>
  C34. Speculative decoding is exact: with a greedy target whose block verifier predicts what its logits give, a
  generation that drafts (from earlier text or the MTP head, verified in blocks or serially, whatever the windows do)
  ends with the same outcome, tokens, output, streamed pieces and finish reason as one that never drafts, and,
  without an error, with the same rows in the cache.
\<close>

theorem speculative_equals_serial:
  assumes "exact_target env" "drafts_bounded env" "\<And>n. \<not> ge_ctx env n" "\<not> ge_json env"
    and "generate_tokens env (start_state env seed) = (e, st)"
    and "generate_tokens (serial_env env) (start_state (serial_env env) seed) = (e', st')"
  shows "e = e' \<and> gs_generated st = gs_generated st' \<and> gs_output st = gs_output st' \<and> gs_sent st = gs_sent st'
    \<and> gs_finish st = gs_finish st' \<and> (e = None \<longrightarrow> gs_rows st = gs_rows st')"
proof -
  have "observe st (e, st) = observe st (e', st')" using decode_serial [OF assms(1-4), of st seed] unfolding assms(5,6) .
  from observe_sel [OF this] show ?thesis by blast
qed


text \<open>A model of two tokens that alternates, with exact arithmetic for the window's costs.\<close>

definition rat_ops :: "rat f64_ops" where
  "rat_ops = \<lparr>d_int = of_int, d_const = (\<lambda>x. x), d_add = (+), d_sub = (-), d_mul = (*), d_div = (/), d_less = (<), d_le = (\<le>), d_eq = (=)\<rparr>"

definition round_env :: "rat gen_env" where
  "round_env = \<lparr>ge_max = 3, ge_sampler = \<lparr>Temperature = 0, TopP = f32_one, TopK = 0, MinP = 0, RepeatPenalty = f32_one\<rparr>, ge_stops = [''zz''],
     ge_mtp = 0, ge_lookup = 1, ge_json = False, ge_prompt = [0, 1, 0, 1, 0], ge_cacheLen = 9, ge_fl = ieee32 (\<lambda>x. x), ge_f64 = rat_ops,
     ge_text = (\<lambda>t. if t = 0 then ''a'' else ''b''), ge_vocab = 2, ge_stop = (\<lambda>t. t = 9), ge_sink = (\<lambda>sent s. True), ge_ctx = (\<lambda>n. False),
     ge_logits = (\<lambda>rows. if rows \<noteq> [] \<and> last rows = 0 then [0, f32_one] else [f32_one, 0]),
     ge_greedy = False, ge_fast = (\<lambda>rows recent. None), ge_verify = True, ge_maxLen = 9, ge_block = (\<lambda>rows inputs recents. []),
     ge_mtp_draft = (\<lambda>rows t n recent. []), ge_time = (\<lambda>b. (1, 1, 1, 1)), ge_json_valid = (\<lambda>s. True)\<rparr>"

text \<open>The same environment with the block verifier that its logits determine.\<close>

definition with_block :: "'d gen_env \<Rightarrow> 'd gen_env" where
  "with_block env = env\<lparr>ge_block := (\<lambda>rows inputs recents. map (\<lambda>i. greedy_target env (rows @ take (i + 1) inputs) (recents ! i)) [0..<length inputs])\<rparr>"

lemma with_block_exact:
  assumes "f32_less (Temperature (ge_sampler env)) f32_1e_6" "\<And>rows. 1 < length (ge_logits env rows)" "\<And>rows recent. ge_fast env rows recent = None"
  shows "exact_target (with_block env)"
proof -
  have g: "greedy_target (with_block env) = greedy_target env" by (simp add: fun_eq_iff greedy_target_def with_block_def)
  show ?thesis unfolding exact_target_def g using assms by (simp add: with_block_def)
qed

lemma round_run:
  "(let r = generate_tokens (with_block round_env) (start_state (with_block round_env) 1)
    in fst r = None \<and> gs_output (snd r) = ''bab'' \<and> gs_sent (snd r) = [''b'', ''a'', ''b''] \<and> sp_AcceptedTokens (gs_spec (snd r)) = 1)"
  by code_simp

lemma speculative_equals_serial_witness:
  "gs_output (snd (generate_tokens (serial_env (with_block round_env)) (start_state (serial_env (with_block round_env)) 1))) = ''bab''"
proof -
  let ?e = "with_block round_env"
  have "exact_target ?e" by (rule with_block_exact) (simp_all add: round_env_def f32_less_def f32_eval)
  moreover have "drafts_bounded ?e" "\<not> ge_json ?e" "\<And>n. \<not> ge_ctx ?e n" by (simp_all add: drafts_bounded_def with_block_def round_env_def)
  ultimately show ?thesis using speculative_equals_serial [of ?e, OF _ _ _ _ prod.collapse [symmetric] prod.collapse [symmetric], of 1] round_run
    by (simp add: Let_def)
qed

section \<open>Streaming\<close>

text \<open>
  C36. Unless a stop sequence is empty, whatever ends a generation (a limit, an end token, a stop sequence found, a
  cancellation, an error), the pieces given to the callback make up a prefix of the output it returns: a stop sequence
  that is found is cut off the output, and none of its bytes was streamed while it was still incomplete.
\<close>

theorem sent_is_prefix:
  assumes "[] \<notin> set (ge_stops env)" "generate_tokens env (start_state env seed) = (e, st)"
  shows "\<exists>r. gs_output st = concat (gs_sent st) @ r"
  using assms(2)
proof (cases rule: generate_ends)
  case failed
  then show ?thesis using assms(1) by (simp add: text_of_def)
next
  case (ended x ok)
  obtain r where r: "gs_output x = concat (gs_sent x) @ gs_stream x @ r" using ended(1) assms(1) by (auto simp: text_of_def)
  obtain q where q: "gs_stream x = concat (drop (length (gs_sent x)) (gs_sent st)) @ q" "take (length (gs_sent x)) (gs_sent st) = gs_sent x"
    using flush_final(2) [OF ended(2)] by blast
  have "concat (gs_sent st) = concat (take (length (gs_sent x)) (gs_sent st)) @ concat (drop (length (gs_sent x)) (gs_sent st))"
    by (simp flip: concat_append)
  then have "gs_output st = concat (gs_sent st) @ q @ r" using r q flush_final(1) [OF ended(2)] by simp
  then show ?thesis by blast
qed

text \<open>
  C37. With one stop sequence, a generation that ends without an error returns an output in which it does not occur:
  the window of the last text that is searched after each token never misses an occurrence that spans tokens.
\<close>

theorem output_excludes_stop:
  assumes "ge_stops env = [s]" "s \<noteq> []" "generate_tokens env (start_state env seed) = (None, st)"
  shows "\<not> Contains (gs_output st) s"
  using assms(3)
proof (cases rule: generate_ends)
  case (ended x ok)
  then show ?thesis using assms(1,2) flush_final(1) [OF ended(2)] by (auto simp: text_of_def)
qed simp

text \<open>
  C38. Without stop sequences the stream is complete: after a generation without an error whose output is valid UTF-8,
  the pieces given to the callback concatenate to the output and each of them is valid UTF-8.
\<close>

theorem stream_is_output:
  assumes "ge_stops env = []" "generate_tokens env (start_state env seed) = (None, st)" "ValidString (gs_output st)"
  shows "concat (gs_sent st) = gs_output st \<and> list_all ValidString (gs_sent st)"
  using assms(2)
proof (cases rule: generate_ends)
  case (ended x ok)
  have x: "list_all ValidString (gs_sent x)" "concat (gs_sent x) @ gs_stream x = gs_output x" using ended(1) assms(1) by (auto simp: text_of_def)
  then have "ValidString (gs_stream x)" using ValidString_concat [OF x(1), of "gs_stream x"] assms(3) flush_final(1) [OF ended(2)] by simp
  then show ?thesis using flush_final(3) [OF ended(2)] ended(3) flush_final(1) [OF ended(2)] x by simp
qed simp

text \<open>The alternating model without drafts, with given stop sequences and texts.\<close>

definition plain_env :: "string list \<Rightarrow> string \<Rightarrow> string \<Rightarrow> rat gen_env" where
  "plain_env stops a b = round_env\<lparr>ge_lookup := 0, ge_stops := stops, ge_text := (\<lambda>t. if t = 0 then a else b)\<rparr>"

definition plain_run :: "string list \<Rightarrow> string \<Rightarrow> string \<Rightarrow> gen_error option \<times> string \<times> string list" where
  "plain_run stops a b = (case generate_tokens (plain_env stops a b) (start_state (plain_env stops a b) 1) of (e, st) \<Rightarrow> (e, gs_output st, gs_sent st))"

lemma plain_runD:
  assumes "plain_run stops a b = (e, out, sent)"
  obtains st where "generate_tokens (plain_env stops a b) (start_state (plain_env stops a b) 1) = (e, st)" "gs_output st = out" "gs_sent st = sent"
  using assms by (cases "generate_tokens (plain_env stops a b) (start_state (plain_env stops a b) 1)") (auto simp: plain_run_def)

lemma run_no_stops: "plain_run [] ''a'' ''b'' = (None, ''bab'', [''b'', ''a'', ''b''])"
  by code_simp

lemma run_stop: "plain_run [''ba''] ''a'' ''cb'' = (None, ''c'', [''c''])"
  by code_simp

lemma sent_is_prefix_witness: "\<exists>(st :: rat gen_state) r. gs_output st = ''c'' \<and> gs_sent st = [''c''] \<and> gs_output st = concat (gs_sent st) @ r"
proof -
  obtain st where st: "generate_tokens (plain_env [''ba''] ''a'' ''cb'') (start_state (plain_env [''ba''] ''a'' ''cb'') 1) = (None, st)"
    "gs_output st = ''c''" "gs_sent st = [''c'']" using plain_runD [OF run_stop] .
  have "[] \<notin> set (ge_stops (plain_env [''ba''] ''a'' ''cb''))" by (simp add: plain_env_def)
  from sent_is_prefix [OF this st(1)] st show ?thesis by blast
qed

lemma output_excludes_stop_witness: "\<not> Contains ''c'' ''ba''"
proof -
  obtain st where st: "generate_tokens (plain_env [''ba''] ''a'' ''cb'') (start_state (plain_env [''ba''] ''a'' ''cb'') 1) = (None, st)"
    "gs_output st = ''c''" "gs_sent st = [''c'']" using plain_runD [OF run_stop] .
  have "ge_stops (plain_env [''ba''] ''a'' ''cb'') = [''ba'']" by (simp add: plain_env_def)
  from output_excludes_stop [OF this _ st(1)] st(2) show ?thesis by simp
qed

lemma stream_is_output_witness: "concat [''b'', ''a'', ''b''] = ''bab'' \<and> list_all ValidString [''b'', ''a'', ''b'']"
proof -
  obtain st where st: "generate_tokens (plain_env [] ''a'' ''b'') (start_state (plain_env [] ''a'' ''b'') 1) = (None, st)"
    "gs_output st = ''bab''" "gs_sent st = [''b'', ''a'', ''b'']" using plain_runD [OF run_no_stops] .
  have "ge_stops (plain_env [] ''a'' ''b'') = []" by (simp add: plain_env_def)
  moreover have "ValidString ''bab''" by code_simp
  ultimately show ?thesis using stream_is_output [OF _ st(1)] st(2,3) by simp
qed

section \<open>Where the stream loses text\<close>


text \<open>
  A stop sequence that is found discards the text held for the stream, also the part before it that belongs to the
  output: here the output is one letter, and the callback was never called.
\<close>

theorem stop_discards_held_text: "plain_run [''zzzz'', ''ab''] ''a'' ''b'' = (None, ''b'', [])"
  by code_simp

section \<open>The cache\<close>

text \<open>
  C35. The cache is always described by the tokens. Let the prompt fit the cache and the MTP head draft no more than it is
  asked for. When the generation ends without an error, the tokens whose rows are in the cache are the prompt and all
  generated tokens, or all but the last; after an error they are a prefix of them. So rejected drafts leave no row. The
  cache's length and the token limit are never exceeded.
\<close>

theorem cache_rows_are_tokens:
  assumes "drafts_bounded env" "length (ge_prompt env) \<le> ge_cacheLen env" "generate_tokens env (start_state env seed) = (e, st)"
  shows "(e = None \<longrightarrow> gs_rows st = ge_prompt env @ gs_generated st \<or> (\<exists>t. gs_rows st @ [t] = ge_prompt env @ gs_generated st))
    \<and> (\<exists>r. ge_prompt env @ gs_generated st = gs_rows st @ r)
    \<and> length (gs_rows st) \<le> ge_cacheLen env \<and> length (gs_generated st) \<le> ge_max env"
proof -
  have p: "placed_end env (e, st)" using generate_placed [OF assms(1,2), of seed] unfolding assms(3) .
  show ?thesis
  proof (cases e)
    case None
    then show ?thesis using p by (auto simp: placed_end_def dest: sym)
  next
    case (Some err)
    then show ?thesis using p by (simp add: placed_end_def)
  qed
qed

lemma cache_rows_are_tokens_witness:
  "length (gs_rows (snd (generate_tokens (with_block round_env) (start_state (with_block round_env) 1)))) \<le> 9"
proof -
  have "drafts_bounded (with_block round_env)" "length (ge_prompt (with_block round_env)) \<le> ge_cacheLen (with_block round_env)"
    "ge_cacheLen (with_block round_env) = 9" by (simp_all add: drafts_bounded_def with_block_def round_env_def)
  then show ?thesis using cache_rows_are_tokens [of "with_block round_env", OF _ _ prod.collapse [symmetric], of 1] by simp
qed

section \<open>Structured output\<close>

text \<open>
  C39. A generation with the JSON constraint (and without stop sequences and drafts, which the request check excludes)
  that ends without an error has produced a JSON object of at most 64 levels, valid as UTF-8, whatever the model's
  logits. The text of an end token must not complete a document: the draw can return a masked token.
\<close>

theorem json_output_is_document:
  assumes "json_request env" "stop_texts_inert env"
    and "generate_tokens env (start_state env seed) = (None, st)"
  shows "document 64 (gs_output st) \<and> ValidString (gs_output st)"
proof -
  obtain d x where d: "decode_loop env (ge_max env) (start_state env seed) = (d, x)" by (rule prod.exhaust)
  then have n: "d = None" using assms(3) by (cases d) (simp_all add: generate_tokens_def)
  have "recognizes (start_state env seed)" using assms(1) by (simp add: recognizes_def start_state_sel json_request_def)
  then have r: "recognized x" using json_loop [OF assms(1,2)] d n by blast
  obtain ok y where f: "flushStream env True x = (ok, y)" by (rule prod.exhaust)
  note ff = flushStream_fields(4,5) [OF f]
  obtain s where s: "gs_constraint y = Some s" "Complete s \<longrightarrow> Advance zero_State (gs_output y) = Some s"
    using r ff by (auto simp: recognized_def)
  then have "y = st" "Complete s" "ValidString (gs_output y)" using assms(3) by (auto simp: generate_tokens_def d n f split: if_splits)
  then show ?thesis using s(2) Advance_rest [OF zero_State_ok, of "gs_output st"] rest_zero by blast
qed

definition brace_env :: "rat gen_env" where
  "brace_env = round_env\<lparr>ge_lookup := 0, ge_stops := [], ge_json := True, ge_prompt := [0, 1],
     ge_text := (\<lambda>t. if t = 0 then ''{'' else if t = 1 then ''}'' else [])\<rparr>"

lemma brace_run:
  "(let r = generate_tokens brace_env (start_state brace_env 1) in fst r = None \<and> gs_output (snd r) = ''{}'' \<and> gs_finish (snd r) = ''stop'')"
  by code_simp

lemma json_output_is_document_witness: "document 64 ''{}''"
proof -
  have "json_request brace_env" by (simp add: json_request_def brace_env_def round_env_def)
  moreover have "stop_texts_inert brace_env" by (simp add: stop_texts_inert_def brace_env_def round_env_def)
  moreover have "fst (generate_tokens brace_env (start_state brace_env 1)) = None" "gs_output (snd (generate_tokens brace_env (start_state brace_env 1))) = ''{}''"
    using brace_run by (simp_all add: Let_def)
  ultimately show ?thesis
    using json_output_is_document [of brace_env 1 "snd (generate_tokens brace_env (start_state brace_env 1))"] by (metis prod.collapse)
qed

end
