(* ===== verification/Spec_Window_Laws.thy ===== *)
theory Spec_Window_Laws
  imports Spec_Window
begin

text \<open>
  The adaptive window never leaves its sizes, and the drafts copied from earlier text continue the longest match.
\<close>

section \<open>The window's states\<close>

inductive window_reach :: "'d f64_ops \<Rightarrow> int \<Rightarrow> 'd speculativeWindow \<Rightarrow> bool" for fl :: "'d f64_ops" and cap :: int where
  fresh: "window_reach fl cap (newSpeculativeWindow fl cap)"
| limit: "window_reach fl cap w \<Longrightarrow> window_reach fl cap (snd (window_limit w contextSlots outputSlots))"
| observe: "window_reach fl cap w \<Longrightarrow> window_reach fl cap (window_observe fl w s)"

text \<open>\<open>w_probing\<close> is only set above the smallest size, so that a failed probe can step back.\<close>

definition window_ok :: "int \<Rightarrow> 'd speculativeWindow \<Rightarrow> bool" where
  "window_ok cap w \<longleftrightarrow> -1 \<le> maxIndex w \<and> maxIndex w \<le> 2 \<and> (0 \<le> maxIndex w \<longrightarrow> int (w_index w) \<le> maxIndex w)
     \<and> (w_probing w \<longrightarrow> 0 < w_index w) \<and> 0 \<le> w_pause w \<and> length (w_sizes w) = 3 \<and> length (w_stats w) = 3
     \<and> (\<forall>i. int i \<le> maxIndex w \<longrightarrow> 1 \<le> w_sizes w ! i \<and> w_sizes w ! i \<le> cap \<and> w_sizes w ! i \<le> speculativeDraftCap)"

lemma new_window_ok: "window_ok cap (newSpeculativeWindow fl cap)"
proof -
  define c where "c = min cap speculativeDraftCap"
  consider "c < 1" | "1 = c" | "1 < c" "c < 3" | "c = 3" | "3 < c" "c < 7" | "c = 7" unfolding c_def speculativeDraftCap_def by linarith
  then show ?thesis
    by cases (auto simp: window_ok_def newSpeculativeWindow_def c_def [symmetric] Let_def nth_Cons' speculativeDraftCap_def numeral_3_eq_3 c_def split: if_splits)
qed

lemma limit_ok: "window_ok cap w \<Longrightarrow> window_ok cap (snd (window_limit w a b))"
  by (auto simp: window_limit_def window_ok_def Let_def)

lemma adapt_ok:
  assumes "window_ok cap w" "0 \<le> maxIndex w" "\<not> w_probing w"
  shows "window_ok cap (adapt fl w stat)"
  using assms unfolding adapt_def Let_def by (auto simp: window_ok_def speculativeSerialPause_def)

lemma observe_ok:
  assumes ok: "window_ok cap w"
  shows "window_ok cap (window_observe fl w s)"
proof (cases "maxIndex w < 0 \<or> \<not> sample_valid s \<or> sample_slot w s = None")
  case True
  then show ?thesis using ok by (auto simp: window_observe_def)
next
  case False
  then obtain i where i: "sample_slot w s = Some i" by blast
  have n: "\<not> (maxIndex w < 0 \<or> \<not> sample_valid s)" using False by blast
  define elapsed where "elapsed = d_add fl (d_add fl (d_int fl (sw_Draft s)) (d_int fl (sw_Verify s))) (d_int fl (sw_Rollback s))"
  define stat where "stat = (if d_less fl (d_int fl 0) elapsed then update_stats fl elapsed s (w_stats w ! i) else w_stats w ! i)"
  define w1 where "w1 = w\<lparr>w_stats := (w_stats w)[i := stat],
                    w_serial := (if sw_SerialPerToken s \<le> 0 then w_serial w
                       else if d_eq fl (w_serial w) (d_int fl 0) then d_int fl (sw_SerialPerToken s)
                       else d_add fl (w_serial w) (d_mul fl (d_sub fl (d_int fl (sw_SerialPerToken s)) (w_serial w)) (d_const fl (1/2))))\<rparr>"
  define w2 where "w2 = w1\<lparr>w_misses := (if sw_Accepted s = 0 then w_misses w + 1 else 0)\<rparr>"
  define w3 where "w3 = w2\<lparr>w_dwell := w_dwell w + 1, w_probing := False\<rparr>"
  have o: "window_observe fl w s = (if i \<noteq> w_index w then w1
      else if w_misses w2 \<ge> 2
      then (if w_index w > 0 then w2\<lparr>w_index := w_index w - 1\<rparr> else w2\<lparr>w_pause := speculativeSerialPause\<rparr>)
             \<lparr>w_misses := 0, w_dwell := 0, w_probing := False\<rparr>
      else if d_le fl elapsed (d_int fl 0) then w2
      else if w_probing w \<and> (d_less fl (ws_acceptance stat) (d_const fl (1/2))
           \<or> slower fl (ws_cost stat) (ws_cost (w_stats w3 ! (w_index w - 1))) \<or> slower_than_serial fl w3 (ws_cost stat))
      then w3\<lparr>w_index := w_index w - 1, w_dwell := 0\<rparr>
      else if w_dwell w3 < 3 then w3 else adapt fl w3 stat)"
    unfolding window_observe_def Let_def if_not_P [OF n] i option.case
      elapsed_def [symmetric] stat_def [symmetric] w1_def [symmetric] w2_def [symmetric] w3_def [symmetric]
    by (rule refl)
  have k: "window_ok cap w1" "window_ok cap w2" "window_ok cap w3" "0 \<le> maxIndex w3" "\<not> w_probing w3" "w_index w2 = w_index w" "w_index w3 = w_index w"
    using ok False by (simp_all add: w3_def w2_def w1_def window_ok_def)
  have down: "window_ok cap (x\<lparr>w_index := w_index w - 1, w_dwell := 0\<rparr>)" if "window_ok cap x" "w_index x = w_index w" "\<not> w_probing x" for x
    using that by (auto simp: window_ok_def)
  have "window_ok cap ((if w_index w > 0 then w2\<lparr>w_index := w_index w - 1\<rparr> else w2\<lparr>w_pause := speculativeSerialPause\<rparr>)
             \<lparr>w_misses := 0, w_dwell := 0, w_probing := False\<rparr>)"
    using k(2,6) by (auto simp: window_ok_def speculativeSerialPause_def)
  then show ?thesis using k down [of w3] adapt_ok [OF k(3-5)] unfolding o by simp
qed

lemma reach_ok: "window_reach fl cap w \<Longrightarrow> window_ok cap w"
  by (induction rule: window_reach.induct) (simp_all add: new_window_ok limit_ok observe_ok)

text \<open>
  Whatever a generation measures, its draft window stays in range: the current size is one of the sizes in use (so
  no slot outside the three is read, and a failed probe has a smaller size to return to), every size is at least one
  and at most the user's cap and seven, and a limit is never above the cap or the room left in the context or the output.
\<close>

theorem window_in_range:
  assumes "window_reach fl cap w"
  shows "(0 \<le> maxIndex w \<longrightarrow> int (w_index w) \<le> maxIndex w) \<and> maxIndex w < 3 \<and> (w_probing w \<longrightarrow> 0 < w_index w)
    \<and> 0 \<le> fst (window_limit w contextSlots outputSlots)
    \<and> fst (window_limit w contextSlots outputSlots) \<le> max 0 (min cap (min 7 (min contextSlots outputSlots)))"
proof -
  have ok: "window_ok cap w" by (rule reach_ok [OF assms])
  have s: "1 \<le> w_sizes w ! i" "w_sizes w ! i \<le> cap" "w_sizes w ! i \<le> 7" if "i \<le> w_index w" "\<not> maxIndex w < 0" for i
    using ok that by (auto simp: window_ok_def speculativeDraftCap_def)
  have "0 \<le> fst (window_limit w contextSlots outputSlots)
    \<and> fst (window_limit w contextSlots outputSlots) \<le> max 0 (min cap (min 7 (min contextSlots outputSlots)))"
  proof (cases "maxIndex w < 0")
    case False
    let ?n = "min (w_sizes w ! w_index w) (min contextSlots outputSlots)"
    let ?f = "find (\<lambda>i. w_sizes w ! i \<le> ?n) (rev [0..<Suc (w_index w)])"
    have e: "fst (window_limit w contextSlots outputSlots) = (if ?n \<le> 0 \<or> w_pause w > 0 then 0 else case ?f of None \<Rightarrow> 0 | Some i \<Rightarrow> w_sizes w ! i)"
      using False by (simp add: window_limit_def Let_def)
    show ?thesis
    proof (cases ?f)
      case None
      then show ?thesis unfolding e by simp
    next
      case (Some i)
      then have "w_sizes w ! i \<le> ?n" "i \<in> set (rev [0..<Suc (w_index w)])" by (metis (no_types, lifting) find_Some_iff, metis find_Some_iff nth_mem)
      then have "w_sizes w ! i \<le> ?n" "i \<le> w_index w" by auto
      then show ?thesis using s [OF _ False, of i] Some unfolding e by simp
    qed
  qed (simp add: window_limit_def)
  then show ?thesis using ok by (simp add: window_ok_def)
qed

lemma window_in_range_witness: "\<exists>n. fst (window_limit (newSpeculativeWindow fl 5) 9 9) = n \<and> n \<le> 5"
  using window_in_range [OF window_reach.fresh, of fl 5 9 9] by simp

section \<open>The continuation of the longest match\<close>

text \<open>The \<open>g\<close> tokens that end at position \<open>e\<close> are the last \<open>g\<close> tokens of the history.\<close>

definition matches_end :: "u32 list \<Rightarrow> nat \<Rightarrow> nat \<Rightarrow> bool" where
  "matches_end h e g \<longleftrightarrow> g \<le> e + 1 \<and> e + 1 < length h \<and> (\<forall>j < g. h ! (e - j) = h ! (length h - 1 - j))"

lemma lookup_history_last:
  "lookup_history prompt generated = drop (length (prompt @ generated) - promptLookupHistoryTokens) (prompt @ generated)"
proof -
  have m: "a - min a b = a - b" for a b :: nat by simp
  show ?thesis
  proof (cases "length generated \<le> promptLookupHistoryTokens")
    case True
    then have "length prompt - (promptLookupHistoryTokens - length generated) = length prompt + length generated - promptLookupHistoryTokens" by simp
    then show ?thesis using True by (simp add: lookup_history_def Let_def m)
  qed (simp add: lookup_history_def Let_def m)
qed

lemma takeWhile_upt_le: "length (takeWhile P [0..<b]) \<le> b"
  using length_takeWhile_le [of P "[0..<b]"] by simp

lemma common_gram_matches:
  assumes "e + 1 < length h" "b \<le> e + 1"
  shows "matches_end h e g \<and> g \<le> b \<longleftrightarrow> g \<le> common_gram h e b"
proof -
  let ?P = "\<lambda>k. h ! (e - k) = h ! (length h - 1 - k)"
  let ?l = "length (takeWhile ?P [0..<b])"
  have l: "?l \<le> b" by (rule takeWhile_upt_le)
  have p: "?P k" if "k < ?l" for k
    using nth_mem [OF that] set_takeWhileD [of _ ?P "[0..<b]"] takeWhile_nth [OF that] that l by fastforce
  have n: "\<not> ?P ?l" if "?l < b"
    using nth_length_takeWhile [of ?P "[0..<b]"] that by simp
  show ?thesis
  proof
    assume m: "matches_end h e g \<and> g \<le> b"
    show "g \<le> common_gram h e b"
    proof (rule ccontr)
      assume "\<not> g \<le> common_gram h e b"
      then have "?l < g" by (simp add: common_gram_def)
      then show False using m n by (auto simp: matches_end_def)
    qed
  next
    assume "g \<le> common_gram h e b"
    then have "g \<le> ?l" by (simp add: common_gram_def)
    then show "matches_end h e g \<and> g \<le> b" using p l assms by (auto simp: matches_end_def)
  qed
qed

text \<open>The scan keeps the best of the endings that share at least four tokens.\<close>

lemma lookup_scan_best:
  fixes h maxGram m
  defines "gram \<equiv> \<lambda>e. common_gram h e (min maxGram (e + 1))"
  shows "lb_end b = None \<and> lb_gram b = 0 \<or> (\<exists>e \<in> E. lb_end b = Some e \<and> lb_gram b = gram e \<and> 4 \<le> gram e) \<Longrightarrow>
    (let r = lookup_scan h maxGram m es b in
      (lb_end r = None \<and> lb_gram r = 0 \<or> (\<exists>e \<in> E \<union> set es. lb_end r = Some e \<and> lb_gram r = gram e \<and> 4 \<le> gram e))
      \<and> lb_gram b \<le> lb_gram r \<and> (\<forall>e \<in> set es. 4 \<le> gram e \<longrightarrow> gram e \<le> lb_gram r))"
proof (induction es arbitrary: b E)
  case Nil
  then show ?case by simp
next
  case (Cons e es)
  have le: "gram x \<le> maxGram" for x
    using takeWhile_upt_le [of _ "min maxGram (x + 1)"] unfolding gram_def common_gram_def by (meson min.boundedE)
  obtain c stop where s: "lookup_step h maxGram m e b = (c, stop)" by (rule prod.exhaust)
  have c: "lb_end c = None \<and> lb_gram c = 0 \<or> (\<exists>x \<in> insert e E. lb_end c = Some x \<and> lb_gram c = gram x \<and> 4 \<le> gram x)"
    "lb_gram b \<le> lb_gram c" "4 \<le> gram e \<longrightarrow> gram e \<le> lb_gram c" "stop \<longrightarrow> lb_gram c = maxGram"
  proof -
    let ?b = "\<lparr>lb_end = Some e, lb_gram = gram e, lb_full = (length h - e - 1 \<ge> m)\<rparr>"
    have s': "(c, stop) = (if gram e < 4 then (b, False)
        else if gram e > lb_gram b \<or> (gram e = lb_gram b \<and> (length h - e - 1 \<ge> m) \<and> \<not> lb_full b) then (?b, gram e = maxGram \<and> (length h - e - 1 \<ge> m)) else (b, False))"
      using s unfolding lookup_step_def gram_def Let_def by simp
    have b: "lb_end b = None \<and> lb_gram b = 0 \<or> (\<exists>x \<in> insert e E. lb_end b = Some x \<and> lb_gram b = gram x \<and> 4 \<le> gram x)" using Cons.prems by blast
    consider "gram e < 4" "c = b" "\<not> stop" | "4 \<le> gram e" "lb_gram b \<le> gram e" "c = ?b" "stop \<longrightarrow> gram e = maxGram"
      | "4 \<le> gram e" "gram e \<le> lb_gram b" "c = b" "\<not> stop" using s' by (auto split: if_splits)
    note cases = this
    show "lb_end c = None \<and> lb_gram c = 0 \<or> (\<exists>x \<in> insert e E. lb_end c = Some x \<and> lb_gram c = gram x \<and> 4 \<le> gram x)"
      using cases b by cases simp_all
    show "lb_gram b \<le> lb_gram c" "4 \<le> gram e \<longrightarrow> gram e \<le> lb_gram c" "stop \<longrightarrow> lb_gram c = maxGram"
      using cases by (cases; simp)+
  qed
  show ?case
  proof (cases stop)
    case True
    then have r: "lookup_scan h maxGram m (e # es) b = c" using s by simp
    have "\<forall>x \<in> set (e # es). 4 \<le> gram x \<longrightarrow> gram x \<le> lb_gram c" using c(4) le True by simp
    moreover have "lb_end c = None \<and> lb_gram c = 0 \<or> (\<exists>x \<in> E \<union> set (e # es). lb_end c = Some x \<and> lb_gram c = gram x \<and> 4 \<le> gram x)"
      using c(1) by auto
    ultimately show ?thesis using c(2) unfolding r Let_def by blast
  next
    case False
    then have r: "lookup_scan h maxGram m (e # es) b = lookup_scan h maxGram m es c" using s by simp
    let ?r = "lookup_scan h maxGram m es c"
    have u: "insert e E \<union> set es = E \<union> set (e # es)" by auto
    note ih = Cons.IH [OF c(1), unfolded Let_def u]
    have "\<forall>x \<in> set (e # es). 4 \<le> gram x \<longrightarrow> gram x \<le> lb_gram ?r" using ih c(3) by auto
    then show ?thesis using ih c(2) unfolding r Let_def by (intro conjI) (blast, linarith, blast)
  qed
qed

text \<open>How many tokens of context a match may have.\<close>

definition gram_bound :: "nat \<Rightarrow> int \<Rightarrow> nat" where
  "gram_bound n maxDraft = (if int n - maxDraft \<ge> 4 then min (min promptLookupMaxNgram (n - 1)) (n - nat maxDraft) else min promptLookupMaxNgram (n - 1))"

text \<open>
  A draft copied from earlier text continues the longest match: within the last 8192 tokens of prompt and output, a
  draft exists exactly when the last four tokens occurred before; it is then the text after an earlier occurrence of
  the last \<open>g \<ge> 4\<close> tokens, and no longer match within the bound on the context exists.
\<close>

theorem promptLookupDraft_longest:
  assumes "0 < k" "generated \<noteq> []" and h: "h = drop (length (prompt @ generated) - 8192) (prompt @ generated)"
    and ds: "ds = promptLookupDraft prompt generated k"
  shows "(ds = [] \<longleftrightarrow> \<not> (\<exists>e. matches_end h e 4))
    \<and> (ds \<noteq> [] \<longrightarrow> (\<exists>e g. 4 \<le> g \<and> matches_end h e g \<and> ds = take (nat k) (drop (e + 1) h)
         \<and> (\<forall>e' g'. matches_end h e' g' \<and> g' \<le> gram_bound (length h) k \<longrightarrow> g' \<le> g)))"
proof -
  let ?n = "length h" and ?M = "gram_bound (length h) k"
  let ?gram = "\<lambda>e. common_gram h e (min ?M (e + 1))"
  define r where "r = lookup_scan h ?M (nat k) (rev [3..<?n - 1]) \<lparr>lb_end = None, lb_gram = 0, lb_full = False\<rparr>"
  have hist: "lookup_history prompt generated = h" by (simp add: lookup_history_last h promptLookupHistoryTokens_def)
  have d: "ds = (case lb_end r of None \<Rightarrow> [] | Some e \<Rightarrow> take (nat k) (drop (e + 1) h))"
    using assms(1,2) unfolding ds promptLookupDraft_def hist Let_def gram_bound_def [symmetric] r_def by simp
  have best: "lb_end r = None \<and> lb_gram r = 0 \<or> (\<exists>e \<in> set (rev [3..<?n - 1]). lb_end r = Some e \<and> lb_gram r = ?gram e \<and> 4 \<le> ?gram e)"
    "\<forall>e \<in> set (rev [3..<?n - 1]). 4 \<le> ?gram e \<longrightarrow> ?gram e \<le> lb_gram r"
    using lookup_scan_best [of "\<lparr>lb_end = None, lb_gram = 0, lb_full = False\<rparr>" "{}" h ?M "nat k" "rev [3..<?n - 1]"]
    unfolding r_def Let_def by simp_all
  have range: "e \<in> set (rev [3..<?n - 1])" if "matches_end h e g" "4 \<le> g" for e g
    using that by (auto simp: matches_end_def)
  have gm: "matches_end h e g \<and> g \<le> ?M \<longleftrightarrow> g \<le> ?gram e" if "e + 1 < ?n" for e g
    using common_gram_matches [OF that, of "min ?M (e + 1)" g] by (auto simp: matches_end_def)
  have M: "4 \<le> ?M" if "matches_end h e 4" for e
    using that assms(1) by (auto simp: matches_end_def gram_bound_def promptLookupMaxNgram_def)
  show ?thesis
  proof (cases "lb_end r")
    case None
    then have z: "lb_gram r = 0" using best(1) by auto
    have "\<not> matches_end h e 4" for e
    proof
      assume m: "matches_end h e 4"
      then have "4 \<le> ?gram e" using gm [of e 4] M [OF m] by (auto simp: matches_end_def)
      then show False using best(2) range [OF m order_refl] z by fastforce
    qed
    then show ?thesis using None d by simp
  next
    case (Some e)
    then have e: "e \<in> set (rev [3..<?n - 1])" "lb_gram r = ?gram e" "4 \<le> ?gram e" using best(1) by auto
    then have lt: "e + 1 < ?n" by auto
    have m: "matches_end h e (?gram e)" using gm [OF lt, of "?gram e"] by blast
    have m4: "matches_end h e 4" using gm [OF lt, of 4] e(3) by blast
    have "g' \<le> ?gram e" if "matches_end h e' g'" "g' \<le> ?M" for e' g'
    proof (cases "4 \<le> g'")
      case True
      have "e' + 1 < ?n" using that(1) by (simp add: matches_end_def)
      then have "g' \<le> ?gram e'" using gm that by blast
      then show ?thesis using best(2) range [OF that(1) True] True e(2) by fastforce
    qed (use e(3) in simp)
    moreover have "ds \<noteq> []" using d Some lt assms(1) by simp
    ultimately show ?thesis using d Some m m4 e(3) by auto
  qed
qed

lemma promptLookupDraft_longest_witness: "promptLookupDraft [1, 2, 3, 4, 9, 8, 1, 2, 3] [4] 2 = [9, 8] \<and> (\<exists>e. matches_end [1, 2, 3, 4, 9, 8, 1, 2, 3, 4] e 4)"
proof -
  have d: "promptLookupDraft [1, 2, 3, 4, 9, 8, 1, 2, 3] [4] 2 = [9, 8]" by code_simp
  show ?thesis using promptLookupDraft_longest [of 2 "[4]" _ "[1, 2, 3, 4, 9, 8, 1, 2, 3]", OF _ _ refl refl] unfolding d by simp
qed

end
